(* ===== verification/Prelude.thy ===== *)
theory Prelude
  imports Main "HOL-Library.Word"
begin

text \<open>
  The vocabulary every component of the development shares: byte strings, the Rust
  \<^verbatim>\<open>Result\<close> and \<^verbatim>\<open>Option\<close> combinators, checked slice access, the saturating integer
  conversions the sources use, and the list lemmas the component proofs rest on.

  Conventions. A Rust \<^verbatim>\<open>u8\<close> is a \<^typ>\<open>char\<close> (Isabelle's characters are exactly the 256
  byte values), so a Rust byte string is a \<^typ>\<open>string\<close> and the literal \<^verbatim>\<open>b"abc"\<close> is
  \<open>''abc''\<close>. \<^verbatim>\<open>u16\<close>, \<^verbatim>\<open>u32\<close> and \<^verbatim>\<open>usize\<close> values are \<^typ>\<open>nat\<close>; every place where the
  source narrows, saturates or checks them writes the bound out. \<^verbatim>\<open>Result<T, E>\<close> is
  \<open>'e + 't\<close> with \<^const>\<open>Inl\<close> the error. A target with a 64-bit \<^verbatim>\<open>usize\<close> is assumed, so
  \<^verbatim>\<open>usize::try_from(u32)\<close> never fails and an index into an in-memory vector never reaches
  \<^verbatim>\<open>usize::MAX\<close>.
\<close>

section \<open>Bytes\<close>

type_synonym byte = char
type_synonym bytes = "char list"

abbreviation byte_val :: "byte \<Rightarrow> nat" where
  "byte_val c \<equiv> of_char c"

text \<open>\<^verbatim>\<open>u8::to_ascii_lowercase\<close>, \<^verbatim>\<open>u8::eq_ignore_ascii_case\<close>.\<close>

definition to_ascii_lowercase :: "byte \<Rightarrow> byte" where
  "to_ascii_lowercase c =
     (if 65 \<le> byte_val c \<and> byte_val c \<le> 90 then char_of (byte_val c + 32) else c)"

definition eq_ignore_ascii_case :: "byte \<Rightarrow> byte \<Rightarrow> bool" where
  "eq_ignore_ascii_case x y \<longleftrightarrow> to_ascii_lowercase x = to_ascii_lowercase y"

lemma byte_val_less: "byte_val c < 256"
  using of_char_of [of "byte_val c"] by (metis char_of_char mod_less_divisor zero_less_numeral)

section \<open>Results and options\<close>

text \<open>\<^verbatim>\<open>?\<close> on a \<^verbatim>\<open>Result\<close> is \<^verbatim>\<open>Result::and_then\<close>: the first error is returned unchanged.\<close>

definition and_then :: "'e + 'a \<Rightarrow> ('a \<Rightarrow> 'e + 'b) \<Rightarrow> 'e + 'b" where
  "and_then r f = (case r of Inl e \<Rightarrow> Inl e | Inr x \<Rightarrow> f x)"

definition ok_or :: "'a option \<Rightarrow> 'e \<Rightarrow> 'e + 'a" where
  "ok_or x e = (case x of None \<Rightarrow> Inl e | Some v \<Rightarrow> Inr v)"

definition map_err :: "('e \<Rightarrow> 'f) \<Rightarrow> 'e + 'a \<Rightarrow> 'f + 'a" where
  "map_err f r = (case r of Inl e \<Rightarrow> Inl (f e) | Inr x \<Rightarrow> Inr x)"

lemma and_then_simps [simp]:
  "and_then (Inl e) f = Inl e"
  "and_then (Inr x) f = f x"
  by (simp_all add: and_then_def)

lemma ok_or_simps [simp]:
  "ok_or None e = Inl e"
  "ok_or (Some x) e = Inr x"
  by (simp_all add: ok_or_def)

lemma map_err_simps [simp]:
  "map_err f (Inl e) = Inl (f e)"
  "map_err f (Inr x) = Inr x"
  by (simp_all add: map_err_def)

lemma and_then_InrE:
  assumes "and_then r f = Inr y"
  obtains x where "r = Inr x" and "f x = Inr y"
  using assms by (cases r) auto

lemma and_then_Inr_iff: "and_then r f = Inr y \<longleftrightarrow> (\<exists>x. r = Inr x \<and> f x = Inr y)"
  by (cases r) auto

lemma ok_or_Inr_iff [simp]: "ok_or x e = Inr y \<longleftrightarrow> x = Some y"
  by (cases x) auto

lemma ok_or_Inl_iff [simp]: "ok_or x e = Inl e' \<longleftrightarrow> x = None \<and> e' = e"
  by (cases x) auto

lemma map_err_Inr_iff [simp]: "map_err f r = Inr y \<longleftrightarrow> r = Inr y"
  by (cases r) auto

text \<open>Case distinctions on a result that occurs under \<^const>\<open>and_then\<close>.\<close>

lemma and_then_split:
  "P (and_then r f) \<longleftrightarrow> (\<forall>e. r = Inl e \<longrightarrow> P (Inl e)) \<and> (\<forall>x. r = Inr x \<longrightarrow> P (f x))"
  by (cases r) auto

section \<open>Checked slice access\<close>

text \<open>\<^verbatim>\<open>xs.get(i)\<close> and \<^verbatim>\<open>xs.get(a..b)\<close>.\<close>

definition get :: "'a list \<Rightarrow> nat \<Rightarrow> 'a option" where
  "get xs i = (if i < length xs then Some (xs ! i) else None)"

definition get_range :: "'a list \<Rightarrow> nat \<Rightarrow> nat \<Rightarrow> 'a list option" where
  "get_range xs a b = (if a \<le> b \<and> b \<le> length xs then Some (take (b - a) (drop a xs)) else None)"

text \<open>\<^verbatim>\<open>if let Some(slot) = xs.get_mut(i) { *slot = v }\<close>: a write outside the slice is dropped.\<close>

definition set_at :: "'a list \<Rightarrow> nat \<Rightarrow> 'a \<Rightarrow> 'a list" where
  "set_at xs i v = (if i < length xs then xs[i := v] else xs)"

lemma get_Some_iff [simp]: "get xs i = Some v \<longleftrightarrow> i < length xs \<and> xs ! i = v"
  by (simp add: get_def)

lemma get_None_iff [simp]: "get xs i = None \<longleftrightarrow> length xs \<le> i"
  by (simp add: get_def)

lemma get_in [simp]: "i < length xs \<Longrightarrow> get xs i = Some (xs ! i)"
  by (simp add: get_def)

lemma get_out [simp]: "length xs \<le> i \<Longrightarrow> get xs i = None"
  by (simp add: get_def)

lemma get_append_left: "i < length xs \<Longrightarrow> get (xs @ ys) i = get xs i"
  by (simp add: get_def nth_append)

lemma get_append_length [simp]: "get (xs @ y # ys) (length xs) = Some y"
  by (simp add: get_def)

lemma length_set_at [simp]: "length (set_at xs i v) = length xs"
  by (simp add: set_at_def)

lemma nth_set_at: "j < length xs \<Longrightarrow> set_at xs i v ! j = (if j = i then v else xs ! j)"
  by (simp add: set_at_def nth_list_update)

lemma get_set_at: "get (set_at xs i v) j = (if j = i \<and> i < length xs then Some v else get xs j)"
  by (auto simp: get_def set_at_def)

lemma set_at_next:
  "length xs < n \<Longrightarrow> set_at (xs @ replicate (n - length xs) d) (length xs) v = (xs @ [v]) @ replicate (n - Suc (length xs)) d"
  by (cases "n - length xs") (auto simp: set_at_def list_update_append)

lemma get_range_append: "get_range xs a b = Some ys \<Longrightarrow> get_range (xs @ zs) a b = Some ys"
  by (auto simp: get_range_def split: if_splits)

lemma length_get_range: "get_range xs a b = Some ys \<Longrightarrow> length ys = b - a"
  by (auto simp: get_range_def split: if_splits)

section \<open>Saturating integer conversions\<close>

text \<open>\<^verbatim>\<open>u16::try_from(n).unwrap_or(u16::MAX)\<close> and its \<^verbatim>\<open>u32\<close> twin; \<^verbatim>\<open>u16::saturating_add\<close>;
  \<^verbatim>\<open>usize::saturating_add\<close>.\<close>

definition u16_max :: nat where "u16_max = 65535"
definition u32_max :: nat where "u32_max = 4294967295"
definition usize_max :: nat where "usize_max = 18446744073709551615"
definition i64_max :: int where "i64_max = 9223372036854775807"
definition i64_min :: int where "i64_min = -9223372036854775808"

definition to_u16 :: "nat \<Rightarrow> nat" where
  "to_u16 n = (if n \<le> u16_max then n else u16_max)"

definition to_u32 :: "nat \<Rightarrow> nat" where
  "to_u32 n = (if n \<le> u32_max then n else u32_max)"

definition sat_add16 :: "nat \<Rightarrow> nat \<Rightarrow> nat" where
  "sat_add16 a b = (if a + b \<le> u16_max then a + b else u16_max)"

definition sat_add :: "nat \<Rightarrow> nat \<Rightarrow> nat" where
  "sat_add a b = (if a + b \<le> usize_max then a + b else usize_max)"

lemma to_u16_id: "n \<le> 65535 \<Longrightarrow> to_u16 n = n"
  by (simp add: to_u16_def u16_max_def)

lemma to_u16_le: "to_u16 n \<le> 65535"
  by (simp add: to_u16_def u16_max_def)

lemma to_u32_id: "n \<le> 4294967295 \<Longrightarrow> to_u32 n = n"
  by (simp add: to_u32_def u32_max_def)

end
