(* ===== verification/Rust_Slice.thy ===== *)
theory Rust_Slice
  imports Prelude
begin

text \<open>
  The parts of the Rust standard library whose algorithm the sources lean on: the
  lexicographic comparison of byte slices and \<^verbatim>\<open>slice::binary_search_by\<close>, with the facts
  a caller relies on (the comparison is a strict total order; the search over a table in
  that order finds exactly what a linear scan finds).
\<close>

datatype ordering = Less | Equal | Greater

text \<open>\<^verbatim>\<open><[u8] as Ord>::cmp\<close>.\<close>

fun bytes_cmp :: "bytes \<Rightarrow> bytes \<Rightarrow> ordering" where
  "bytes_cmp [] [] = Equal"
| "bytes_cmp [] (_ # _) = Less"
| "bytes_cmp (_ # _) [] = Greater"
| "bytes_cmp (x # xs) (y # ys) =
     (if byte_val x < byte_val y then Less
      else if byte_val y < byte_val x then Greater
      else bytes_cmp xs ys)"

lemma bytes_cmp_refl [simp]: "bytes_cmp xs xs = Equal"
  by (induction xs) auto

lemma bytes_cmp_Equal [simp]: "bytes_cmp xs ys = Equal \<longleftrightarrow> xs = ys"
proof (induction xs ys rule: bytes_cmp.induct)
  case (4 x xs y ys)
  then show ?case
    using of_char_eq_iff [where ?'a = nat, of x y] by (auto split: if_splits)
qed auto

lemma bytes_cmp_trans:
  "bytes_cmp a b = Less \<Longrightarrow> bytes_cmp b c \<noteq> Greater \<Longrightarrow> bytes_cmp a c = Less"
proof (induction a b arbitrary: c rule: bytes_cmp.induct)
  case 1
  then show ?case by simp
next
  case (2 y ys)
  then show ?case by (cases c) simp_all
next
  case (3 x xs)
  then show ?case by simp
next
  case (4 x xs y ys)
  then obtain z zs where c: "c = z # zs" by (cases c) simp_all
  consider (lt) "byte_val x < byte_val y" | (eq) "byte_val x = byte_val y" "bytes_cmp xs ys = Less"
    using "4.prems"(1) by (auto split: if_splits)
  then show ?case
  proof cases
    case lt
    moreover have "byte_val y \<le> byte_val z" using "4.prems"(2) c by (simp split: if_splits)
    ultimately show ?thesis using c by simp
  next
    case eq
    have "byte_val y < byte_val z \<or> byte_val y = byte_val z \<and> bytes_cmp ys zs \<noteq> Greater"
      using "4.prems"(2) c by (auto split: if_splits)
    then show ?thesis using "4.IH" eq c by auto
  qed
qed

text \<open>
  \<^verbatim>\<open>slice::binary_search_by\<close>: \<open>base\<close> is the last position not known to be too large, \<open>sz\<close>
  the number of candidates from it. The loop runs while more than one candidate is left and
  the last comparison decides.
\<close>

function bsearch_loop :: "(nat \<Rightarrow> ordering) \<Rightarrow> nat \<Rightarrow> nat \<Rightarrow> nat" where
  "bsearch_loop f base sz =
     (if 1 < sz
      then (let half = sz div 2; mid = base + half
            in bsearch_loop f (if f mid = Greater then base else mid) (sz - half))
      else base)"
  by pat_completeness auto
termination
  by (relation "measure (\<lambda>(f, base, sz). sz)") auto

declare bsearch_loop.simps [simp del]

definition binary_search_by :: "('a \<Rightarrow> ordering) \<Rightarrow> 'a list \<Rightarrow> nat option" where
  "binary_search_by f xs =
     (if xs = [] then None
      else (let base = bsearch_loop (\<lambda>i. f (xs ! i)) 0 (length xs)
            in if f (xs ! base) = Equal then Some base else None))"

lemma bsearch_loop_bounds: "0 < sz \<Longrightarrow> bsearch_loop f base sz < base + sz"
proof (induction f base sz rule: bsearch_loop.induct)
  case (1 f base sz)
  show ?case
  proof (cases "1 < sz")
    case True
    let ?half = "sz div 2"
    have "0 < sz - ?half" "0 < ?half" using True by auto
    then show ?thesis
      using "1.IH" [OF True refl refl] True
      by (simp add: bsearch_loop.simps [of f base sz] Let_def split: if_splits)
  qed (use "1.prems" in \<open>simp add: bsearch_loop.simps [of f base sz]\<close>)
qed

text \<open>The loop never moves past a position whose predecessor range holds the answer.\<close>

lemma bsearch_loop_finds:
  assumes "base \<le> k" and "k < base + sz" and "f k = Equal"
    and "\<And>i. i < k \<Longrightarrow> f i = Less" and "\<And>i. k < i \<Longrightarrow> i < base + sz \<Longrightarrow> f i = Greater"
  shows "bsearch_loop f base sz = k"
  using assms
proof (induction f base sz rule: bsearch_loop.induct)
  case (1 f base sz)
  show ?case
  proof (cases "1 < sz")
    case False
    with "1.prems"(1,2) show ?thesis by (simp add: bsearch_loop.simps [of f base sz])
  next
    case True
    let ?half = "sz div 2" and ?mid = "base + sz div 2"
    have half: "0 < ?half" "?half < sz" using True by auto
    show ?thesis
    proof (cases "f ?mid = Greater")
      case G: True
      have "\<not> ?mid < k" using "1.prems"(4) [of ?mid] G by auto
      moreover have "?mid \<noteq> k" using "1.prems"(3) G by auto
      ultimately have "k < ?mid" by simp
      then have "bsearch_loop f base (sz - ?half) = k"
        using "1.IH" [OF True refl refl] "1.prems" G half by simp
      with True G show ?thesis by (simp add: bsearch_loop.simps [of f base sz] Let_def)
    next
      case G: False
      have "\<not> k < ?mid" using "1.prems"(5) [of ?mid] G half by auto
      then have "bsearch_loop f ?mid (sz - ?half) = k"
        using "1.IH" [OF True refl refl] "1.prems" G half by simp
      with True G show ?thesis by (simp add: bsearch_loop.simps [of f base sz] Let_def)
    qed
  qed
qed

text \<open>
  On a table whose keys are strictly increasing the search is the linear scan.
\<close>

lemma binary_search_by_sorted:
  assumes "sorted_wrt (\<lambda>a b. bytes_cmp (key a) (key b) = Less) xs"
  shows "(case binary_search_by (\<lambda>e. bytes_cmp (key e) p) xs of None \<Rightarrow> None | Some i \<Rightarrow> get xs i)
    = find (\<lambda>e. key e = p) xs"
proof (cases "find (\<lambda>e. key e = p) xs")
  case None
  then have none: "\<forall>e \<in> set xs. key e \<noteq> p" by (simp add: find_None_iff)
  have "binary_search_by (\<lambda>e. bytes_cmp (key e) p) xs = None"
  proof (cases "xs = []")
    case False
    then have "bsearch_loop (\<lambda>i. bytes_cmp (key (xs ! i)) p) 0 (length xs) < length xs"
      using bsearch_loop_bounds [of "length xs" _ 0] by auto
    with none False show ?thesis by (simp add: binary_search_by_def Let_def)
  qed (simp add: binary_search_by_def)
  with None show ?thesis by simp
next
  case (Some e)
  then obtain k where k: "k < length xs" "key (xs ! k) = p" "e = xs ! k"
    by (auto simp: find_Some_iff)
  have less: "bytes_cmp (key (xs ! i)) p = Less" if "i < k" for i
    using sorted_wrt_nth_less [OF assms that] k by auto
  have greater: "bytes_cmp (key (xs ! i)) p = Greater" if "k < i" "i < length xs" for i
  proof -
    have "bytes_cmp p (key (xs ! i)) = Less"
      using sorted_wrt_nth_less [OF assms that] k by auto
    then show ?thesis
      using bytes_cmp_trans [of p "key (xs ! i)" p] by (cases "bytes_cmp (key (xs ! i)) p") auto
  qed
  have "bsearch_loop (\<lambda>i. bytes_cmp (key (xs ! i)) p) 0 (length xs) = k"
    by (rule bsearch_loop_finds) (use k less greater in auto)
  with k Some show ?thesis by (auto simp: binary_search_by_def Let_def)
qed

end
