(* ===== verification/Policy_Schema.thy ===== *)
theory Policy_Schema
  imports Rust_Slice
begin

unbundle bit_operations_syntax

text \<open>
  The closed vocabulary of the policy language ITPL: the ten lifecycle phases and the
  phase bitset (\<^verbatim>\<open>irontraffic-filter/src/phase.rs\<close>), source spans (\<^verbatim>\<open>token.rs\<close>), the type
  lattice, the 25 scalar attributes and 3 field maps with their table (\<^verbatim>\<open>attrs.rs\<close>), and the
  admission limits (\<^verbatim>\<open>limits.rs\<close>).
\<close>

section \<open>Lifecycle phases\<close>

datatype phase =
    StreamStart | RequestHeaders | RequestBody | RequestTrailers | RouteSelected
  | UpstreamRequestHeaders | ResponseHeaders | ResponseBody | ResponseTrailers | Log

fun phase_index :: "phase \<Rightarrow> nat" where
  "phase_index StreamStart = 0"
| "phase_index RequestHeaders = 1"
| "phase_index RequestBody = 2"
| "phase_index RequestTrailers = 3"
| "phase_index RouteSelected = 4"
| "phase_index UpstreamRequestHeaders = 5"
| "phase_index ResponseHeaders = 6"
| "phase_index ResponseBody = 7"
| "phase_index ResponseTrailers = 8"
| "phase_index Log = 9"

definition phase_from_index :: "nat \<Rightarrow> phase option" where
  "phase_from_index i =
     (if i = 0 then Some StreamStart
      else if i = 1 then Some RequestHeaders
      else if i = 2 then Some RequestBody
      else if i = 3 then Some RequestTrailers
      else if i = 4 then Some RouteSelected
      else if i = 5 then Some UpstreamRequestHeaders
      else if i = 6 then Some ResponseHeaders
      else if i = 7 then Some ResponseBody
      else if i = 8 then Some ResponseTrailers
      else if i = 9 then Some Log
      else None)"

definition phase_is_body :: "phase \<Rightarrow> bool" where
  "phase_is_body p \<longleftrightarrow> p = RequestBody \<or> p = ResponseBody"

definition phase_can_short_circuit :: "phase \<Rightarrow> bool" where
  "phase_can_short_circuit p \<longleftrightarrow> \<not> (p = RequestTrailers \<or> p = ResponseTrailers \<or> p = Log)"

definition phase_runs_in_reverse :: "phase \<Rightarrow> bool" where
  "phase_runs_in_reverse p \<longleftrightarrow> p = ResponseHeaders \<or> p = ResponseBody \<or> p = ResponseTrailers"

fun phase_as_str :: "phase \<Rightarrow> string" where
  "phase_as_str StreamStart = ''stream_start''"
| "phase_as_str RequestHeaders = ''request_headers''"
| "phase_as_str RequestBody = ''request_body''"
| "phase_as_str RequestTrailers = ''request_trailers''"
| "phase_as_str RouteSelected = ''route_selected''"
| "phase_as_str UpstreamRequestHeaders = ''upstream_request_headers''"
| "phase_as_str ResponseHeaders = ''response_headers''"
| "phase_as_str ResponseBody = ''response_body''"
| "phase_as_str ResponseTrailers = ''response_trailers''"
| "phase_as_str Log = ''log''"

lemma phase_index_inj [simp]: "phase_index p = phase_index q \<longleftrightarrow> p = q"
  by (cases p; cases q) simp_all

lemma phase_index_bound: "phase_index p < 10"
  by (cases p) simp_all

lemma phase_from_index_index [simp]: "phase_from_index (phase_index p) = Some p"
  by (cases p) (simp_all add: phase_from_index_def)

lemma phase_index_from_index: "phase_from_index i = Some p \<Longrightarrow> phase_index p = i"
  by (auto simp: phase_from_index_def split: if_splits)

text \<open>The derived \<^verbatim>\<open>Ord\<close> of \<^verbatim>\<open>Phase\<close> is the execution order.\<close>

instantiation phase :: linorder
begin

definition less_eq_phase :: "phase \<Rightarrow> phase \<Rightarrow> bool" where
  "less_eq_phase p q \<longleftrightarrow> phase_index p \<le> phase_index q"

definition less_phase :: "phase \<Rightarrow> phase \<Rightarrow> bool" where
  "less_phase p q \<longleftrightarrow> phase_index p < phase_index q"

instance
proof
  fix x y z :: phase
  show "x < y \<longleftrightarrow> x \<le> y \<and> \<not> y \<le> x"
    unfolding less_eq_phase_def less_phase_def by linarith
  show "x \<le> x" unfolding less_eq_phase_def by (rule order.refl)
  show "x \<le> y \<Longrightarrow> y \<le> z \<Longrightarrow> x \<le> z" unfolding less_eq_phase_def by (rule order.trans)
  show "x \<le> y \<Longrightarrow> y \<le> x \<Longrightarrow> x = y"
    unfolding less_eq_phase_def by (rule phase_index_inj [THEN iffD1], rule order.antisym)
  show "x \<le> y \<or> y \<le> x" unfolding less_eq_phase_def by (rule linear)
qed

end

subsection \<open>The phase bitset\<close>

type_synonym phase_mask = "16 word"

definition mask_NONE :: phase_mask where "mask_NONE = 0"
definition mask_ALL :: phase_mask where "mask_ALL = 0x03FF"

fun mask_from_phases_loop :: "phase list \<Rightarrow> 16 word \<Rightarrow> 16 word" where
  "mask_from_phases_loop [] acc = acc"
| "mask_from_phases_loop (p # rest) acc = mask_from_phases_loop rest (acc OR push_bit (phase_index p) 1)"

definition mask_from_phases :: "phase list \<Rightarrow> phase_mask" where
  "mask_from_phases phases = mask_from_phases_loop phases 0"

definition mask_has :: "phase_mask \<Rightarrow> phase \<Rightarrow> bool" where
  "mask_has m p \<longleftrightarrow> m AND push_bit (phase_index p) 1 \<noteq> 0"

definition mask_union :: "phase_mask \<Rightarrow> phase_mask \<Rightarrow> phase_mask" where
  "mask_union a b = a OR b"

definition mask_is_empty :: "phase_mask \<Rightarrow> bool" where
  "mask_is_empty m \<longleftrightarrow> m = 0"

lemma word_eq_zero_bits: "(w :: 16 word) = 0 \<longleftrightarrow> (\<forall>k. \<not> bit w k)"
  by (auto intro: bit_eqI)

lemma push_bit_one_and: "(m :: 16 word) AND push_bit n 1 \<noteq> 0 \<longleftrightarrow> n < 16 \<and> bit m n"
proof -
  have bit: "bit (m AND push_bit n 1) k \<longleftrightarrow> k = n \<and> n < 16 \<and> bit m n" for k
    by (auto simp: bit_simps)
  have "m AND push_bit n 1 = 0 \<longleftrightarrow> (\<forall>k. \<not> bit (m AND push_bit n 1) k)"
    by (rule word_eq_zero_bits)
  then show ?thesis unfolding bit by blast
qed

lemma mask_has_bit: "mask_has m p \<longleftrightarrow> bit m (phase_index p)"
  using phase_index_bound [of p] unfolding mask_has_def push_bit_one_and by simp

lemma mask_from_phases_loop_bit:
  "bit (mask_from_phases_loop ps acc) k \<longleftrightarrow> bit acc k \<or> k \<in> phase_index ` set ps"
proof (induction ps arbitrary: acc)
  case (Cons p ps)
  have "bit (push_bit (phase_index p) (1 :: 16 word)) k \<longleftrightarrow> k = phase_index p"
    using phase_index_bound [of p] by (auto simp: bit_simps)
  then have "bit (acc OR push_bit (phase_index p) 1) k \<longleftrightarrow> bit acc k \<or> k = phase_index p"
    unfolding bit_or_iff by blast
  then show ?case using Cons [of "acc OR push_bit (phase_index p) 1"] by (simp only: mask_from_phases_loop.simps) auto
qed simp

lemma mask_has_from_phases: "mask_has (mask_from_phases ps) p \<longleftrightarrow> p \<in> set ps"
  by (auto simp: mask_has_bit mask_from_phases_def mask_from_phases_loop_bit)

lemma mask_has_union: "mask_has (mask_union a b) p \<longleftrightarrow> mask_has a p \<or> mask_has b p"
  by (simp add: mask_has_bit mask_union_def bit_simps)

section \<open>Spans\<close>

record span =
  sp_start :: nat
  sp_end :: nat

definition mk_span :: "nat \<Rightarrow> nat \<Rightarrow> span" where
  "mk_span a b = \<lparr>sp_start = a, sp_end = b\<rparr>"

definition span_empty :: "nat \<Rightarrow> span" where
  "span_empty at = mk_span at at"

definition span_len :: "span \<Rightarrow> nat" where
  "span_len s = sp_end s - sp_start s"

definition span_is_empty :: "span \<Rightarrow> bool" where
  "span_is_empty s \<longleftrightarrow> sp_start s = sp_end s"

definition span_slice :: "span \<Rightarrow> bytes \<Rightarrow> bytes option" where
  "span_slice s src = get_range src (sp_start s) (sp_end s)"

lemma mk_span_sel [simp]: "sp_start (mk_span a b) = a" "sp_end (mk_span a b) = b"
  by (simp_all add: mk_span_def)

end
