(* ===== verification/Policy_Attrs.thy ===== *)
theory Policy_Attrs
  imports Policy_Schema
begin

text \<open>
  The attribute schema of ITPL (\<^verbatim>\<open>attrs.rs\<close>): the closed set of scalar attributes and field
  maps, their static types, the phase each has a value from, the sorted table the checker
  resolves dotted paths in, and the admission limits with their hard caps (\<^verbatim>\<open>limits.rs\<close>).
  The lemmas show that the table, the accessor functions and the binary search agree.
\<close>

section \<open>Types, attributes and maps\<close>

datatype ty = Ty_Bool | Ty_Int | Ty_Str | Ty_List | Ty_Null | Ty_Map

fun ty_as_str :: "ty \<Rightarrow> string" where
  "ty_as_str Ty_Bool = ''bool''"
| "ty_as_str Ty_Int = ''int''"
| "ty_as_str Ty_Str = ''string''"
| "ty_as_str Ty_List = ''list''"
| "ty_as_str Ty_Null = ''null''"
| "ty_as_str Ty_Map = ''map''"

text \<open>The \<^verbatim>\<open>repr(u8)\<close> discriminants, which the content hash reads.\<close>

fun ty_tag :: "ty \<Rightarrow> nat" where
  "ty_tag Ty_Bool = 0"
| "ty_tag Ty_Int = 1"
| "ty_tag Ty_Str = 2"
| "ty_tag Ty_List = 3"
| "ty_tag Ty_Null = 4"
| "ty_tag Ty_Map = 5"

datatype attr_id =
    RequestMethod
  | RequestPath
  | RequestQuery
  | RequestScheme
  | RequestAuthority
  | RequestHost
  | RequestPort
  | RequestProtocol
  | RequestSize
  | RequestId
  | RequestHeaderCount
  | ConnectionRemoteAddr
  | ConnectionRemotePort
  | ConnectionLocalAddr
  | ConnectionTls
  | ConnectionSni
  | ConnectionAlpn
  | ConnectionMtlsVerified
  | ConnectionListener
  | RouteId
  | RouteCluster
  | ResponseStatus
  | ResponseSize
  | StreamId
  | StreamDurationMs

fun attr_tag :: "attr_id \<Rightarrow> nat" where
  "attr_tag RequestMethod = 0"
| "attr_tag RequestPath = 1"
| "attr_tag RequestQuery = 2"
| "attr_tag RequestScheme = 3"
| "attr_tag RequestAuthority = 4"
| "attr_tag RequestHost = 5"
| "attr_tag RequestPort = 6"
| "attr_tag RequestProtocol = 7"
| "attr_tag RequestSize = 8"
| "attr_tag RequestId = 9"
| "attr_tag RequestHeaderCount = 10"
| "attr_tag ConnectionRemoteAddr = 11"
| "attr_tag ConnectionRemotePort = 12"
| "attr_tag ConnectionLocalAddr = 13"
| "attr_tag ConnectionTls = 14"
| "attr_tag ConnectionSni = 15"
| "attr_tag ConnectionAlpn = 16"
| "attr_tag ConnectionMtlsVerified = 17"
| "attr_tag ConnectionListener = 18"
| "attr_tag RouteId = 19"
| "attr_tag RouteCluster = 20"
| "attr_tag ResponseStatus = 21"
| "attr_tag ResponseSize = 22"
| "attr_tag StreamId = 23"
| "attr_tag StreamDurationMs = 24"

datatype map_id = Map_RequestHeaders | Map_RequestQuery | Map_ResponseHeaders

fun map_tag :: "map_id \<Rightarrow> nat" where
  "map_tag Map_RequestHeaders = 0"
| "map_tag Map_RequestQuery = 1"
| "map_tag Map_ResponseHeaders = 2"

fun attr_path :: "attr_id \<Rightarrow> bytes" where
  "attr_path RequestMethod = ''request.method''"
| "attr_path RequestPath = ''request.path''"
| "attr_path RequestQuery = ''request.query''"
| "attr_path RequestScheme = ''request.scheme''"
| "attr_path RequestAuthority = ''request.authority''"
| "attr_path RequestHost = ''request.host''"
| "attr_path RequestPort = ''request.port''"
| "attr_path RequestProtocol = ''request.protocol''"
| "attr_path RequestSize = ''request.size''"
| "attr_path RequestId = ''request.id''"
| "attr_path RequestHeaderCount = ''request.header_count''"
| "attr_path ConnectionRemoteAddr = ''connection.remote_addr''"
| "attr_path ConnectionRemotePort = ''connection.remote_port''"
| "attr_path ConnectionLocalAddr = ''connection.local_addr''"
| "attr_path ConnectionTls = ''connection.tls''"
| "attr_path ConnectionSni = ''connection.sni''"
| "attr_path ConnectionAlpn = ''connection.alpn''"
| "attr_path ConnectionMtlsVerified = ''connection.mtls_verified''"
| "attr_path ConnectionListener = ''connection.listener''"
| "attr_path RouteId = ''route.id''"
| "attr_path RouteCluster = ''route.cluster''"
| "attr_path ResponseStatus = ''response.status''"
| "attr_path ResponseSize = ''response.size''"
| "attr_path StreamId = ''stream.id''"
| "attr_path StreamDurationMs = ''stream.duration_ms''"

fun attr_ty :: "attr_id \<Rightarrow> ty" where
  "attr_ty RequestMethod = Ty_Str"
| "attr_ty RequestPath = Ty_Str"
| "attr_ty RequestQuery = Ty_Str"
| "attr_ty RequestScheme = Ty_Str"
| "attr_ty RequestAuthority = Ty_Str"
| "attr_ty RequestHost = Ty_Str"
| "attr_ty RequestPort = Ty_Int"
| "attr_ty RequestProtocol = Ty_Str"
| "attr_ty RequestSize = Ty_Int"
| "attr_ty RequestId = Ty_Str"
| "attr_ty RequestHeaderCount = Ty_Int"
| "attr_ty ConnectionRemoteAddr = Ty_Str"
| "attr_ty ConnectionRemotePort = Ty_Int"
| "attr_ty ConnectionLocalAddr = Ty_Str"
| "attr_ty ConnectionTls = Ty_Bool"
| "attr_ty ConnectionSni = Ty_Str"
| "attr_ty ConnectionAlpn = Ty_Str"
| "attr_ty ConnectionMtlsVerified = Ty_Bool"
| "attr_ty ConnectionListener = Ty_Int"
| "attr_ty RouteId = Ty_Int"
| "attr_ty RouteCluster = Ty_Int"
| "attr_ty ResponseStatus = Ty_Int"
| "attr_ty ResponseSize = Ty_Int"
| "attr_ty StreamId = Ty_Int"
| "attr_ty StreamDurationMs = Ty_Int"

fun attr_from_phase :: "attr_id \<Rightarrow> phase" where
  "attr_from_phase RequestMethod = RequestHeaders"
| "attr_from_phase RequestPath = RequestHeaders"
| "attr_from_phase RequestQuery = RequestHeaders"
| "attr_from_phase RequestScheme = RequestHeaders"
| "attr_from_phase RequestAuthority = RequestHeaders"
| "attr_from_phase RequestHost = RequestHeaders"
| "attr_from_phase RequestPort = RequestHeaders"
| "attr_from_phase RequestProtocol = StreamStart"
| "attr_from_phase RequestSize = RequestHeaders"
| "attr_from_phase RequestId = RequestHeaders"
| "attr_from_phase RequestHeaderCount = RequestHeaders"
| "attr_from_phase ConnectionRemoteAddr = StreamStart"
| "attr_from_phase ConnectionRemotePort = StreamStart"
| "attr_from_phase ConnectionLocalAddr = StreamStart"
| "attr_from_phase ConnectionTls = StreamStart"
| "attr_from_phase ConnectionSni = StreamStart"
| "attr_from_phase ConnectionAlpn = StreamStart"
| "attr_from_phase ConnectionMtlsVerified = StreamStart"
| "attr_from_phase ConnectionListener = StreamStart"
| "attr_from_phase RouteId = RouteSelected"
| "attr_from_phase RouteCluster = RouteSelected"
| "attr_from_phase ResponseStatus = ResponseHeaders"
| "attr_from_phase ResponseSize = ResponseHeaders"
| "attr_from_phase StreamId = StreamStart"
| "attr_from_phase StreamDurationMs = Log"

definition attr_available_in :: "attr_id \<Rightarrow> phase \<Rightarrow> bool" where
  "attr_available_in a p \<longleftrightarrow> phase_index (attr_from_phase a) \<le> phase_index p"

fun map_path :: "map_id \<Rightarrow> bytes" where
  "map_path Map_RequestHeaders = ''request.headers''"
| "map_path Map_RequestQuery = ''request.query_params''"
| "map_path Map_ResponseHeaders = ''response.headers''"

fun map_from_phase :: "map_id \<Rightarrow> phase" where
  "map_from_phase Map_RequestHeaders = RequestHeaders"
| "map_from_phase Map_RequestQuery = RequestHeaders"
| "map_from_phase Map_ResponseHeaders = ResponseHeaders"

fun map_lowercase_keys :: "map_id \<Rightarrow> bool" where
  "map_lowercase_keys Map_RequestHeaders = True"
| "map_lowercase_keys Map_ResponseHeaders = True"
| "map_lowercase_keys Map_RequestQuery = False"

section \<open>The schema table\<close>

record attr_entry =
  ae_path :: bytes
  ae_attr :: "attr_id option"
  ae_map :: "map_id option"
  ae_ty :: ty
  ae_from :: phase

definition ATTRS :: "attr_entry list" where
  "ATTRS = [
     \<lparr>ae_path = ''connection.alpn'', ae_attr = Some ConnectionAlpn, ae_map = None, ae_ty = Ty_Str, ae_from = StreamStart\<rparr>,
     \<lparr>ae_path = ''connection.listener'', ae_attr = Some ConnectionListener, ae_map = None, ae_ty = Ty_Int, ae_from = StreamStart\<rparr>,
     \<lparr>ae_path = ''connection.local_addr'', ae_attr = Some ConnectionLocalAddr, ae_map = None, ae_ty = Ty_Str, ae_from = StreamStart\<rparr>,
     \<lparr>ae_path = ''connection.mtls_verified'', ae_attr = Some ConnectionMtlsVerified, ae_map = None, ae_ty = Ty_Bool, ae_from = StreamStart\<rparr>,
     \<lparr>ae_path = ''connection.remote_addr'', ae_attr = Some ConnectionRemoteAddr, ae_map = None, ae_ty = Ty_Str, ae_from = StreamStart\<rparr>,
     \<lparr>ae_path = ''connection.remote_port'', ae_attr = Some ConnectionRemotePort, ae_map = None, ae_ty = Ty_Int, ae_from = StreamStart\<rparr>,
     \<lparr>ae_path = ''connection.sni'', ae_attr = Some ConnectionSni, ae_map = None, ae_ty = Ty_Str, ae_from = StreamStart\<rparr>,
     \<lparr>ae_path = ''connection.tls'', ae_attr = Some ConnectionTls, ae_map = None, ae_ty = Ty_Bool, ae_from = StreamStart\<rparr>,
     \<lparr>ae_path = ''request.authority'', ae_attr = Some RequestAuthority, ae_map = None, ae_ty = Ty_Str, ae_from = RequestHeaders\<rparr>,
     \<lparr>ae_path = ''request.header_count'', ae_attr = Some RequestHeaderCount, ae_map = None, ae_ty = Ty_Int, ae_from = RequestHeaders\<rparr>,
     \<lparr>ae_path = ''request.headers'', ae_attr = None, ae_map = Some Map_RequestHeaders, ae_ty = Ty_Map, ae_from = RequestHeaders\<rparr>,
     \<lparr>ae_path = ''request.host'', ae_attr = Some RequestHost, ae_map = None, ae_ty = Ty_Str, ae_from = RequestHeaders\<rparr>,
     \<lparr>ae_path = ''request.id'', ae_attr = Some RequestId, ae_map = None, ae_ty = Ty_Str, ae_from = RequestHeaders\<rparr>,
     \<lparr>ae_path = ''request.method'', ae_attr = Some RequestMethod, ae_map = None, ae_ty = Ty_Str, ae_from = RequestHeaders\<rparr>,
     \<lparr>ae_path = ''request.path'', ae_attr = Some RequestPath, ae_map = None, ae_ty = Ty_Str, ae_from = RequestHeaders\<rparr>,
     \<lparr>ae_path = ''request.port'', ae_attr = Some RequestPort, ae_map = None, ae_ty = Ty_Int, ae_from = RequestHeaders\<rparr>,
     \<lparr>ae_path = ''request.protocol'', ae_attr = Some RequestProtocol, ae_map = None, ae_ty = Ty_Str, ae_from = StreamStart\<rparr>,
     \<lparr>ae_path = ''request.query'', ae_attr = Some RequestQuery, ae_map = None, ae_ty = Ty_Str, ae_from = RequestHeaders\<rparr>,
     \<lparr>ae_path = ''request.query_params'', ae_attr = None, ae_map = Some Map_RequestQuery, ae_ty = Ty_Map, ae_from = RequestHeaders\<rparr>,
     \<lparr>ae_path = ''request.scheme'', ae_attr = Some RequestScheme, ae_map = None, ae_ty = Ty_Str, ae_from = RequestHeaders\<rparr>,
     \<lparr>ae_path = ''request.size'', ae_attr = Some RequestSize, ae_map = None, ae_ty = Ty_Int, ae_from = RequestHeaders\<rparr>,
     \<lparr>ae_path = ''response.headers'', ae_attr = None, ae_map = Some Map_ResponseHeaders, ae_ty = Ty_Map, ae_from = ResponseHeaders\<rparr>,
     \<lparr>ae_path = ''response.size'', ae_attr = Some ResponseSize, ae_map = None, ae_ty = Ty_Int, ae_from = ResponseHeaders\<rparr>,
     \<lparr>ae_path = ''response.status'', ae_attr = Some ResponseStatus, ae_map = None, ae_ty = Ty_Int, ae_from = ResponseHeaders\<rparr>,
     \<lparr>ae_path = ''route.cluster'', ae_attr = Some RouteCluster, ae_map = None, ae_ty = Ty_Int, ae_from = RouteSelected\<rparr>,
     \<lparr>ae_path = ''route.id'', ae_attr = Some RouteId, ae_map = None, ae_ty = Ty_Int, ae_from = RouteSelected\<rparr>,
     \<lparr>ae_path = ''stream.duration_ms'', ae_attr = Some StreamDurationMs, ae_map = None, ae_ty = Ty_Int, ae_from = Log\<rparr>,
     \<lparr>ae_path = ''stream.id'', ae_attr = Some StreamId, ae_map = None, ae_ty = Ty_Int, ae_from = StreamStart\<rparr>]"

definition NAMESPACES :: "bytes list" where
  "NAMESPACES = [''request'', ''connection'', ''route'', ''response'', ''stream'']"

definition MAX_PATH_BYTES :: nat where
  "MAX_PATH_BYTES = 64"

definition resolve_path :: "bytes \<Rightarrow> attr_entry option" where
  "resolve_path path =
     (case binary_search_by (\<lambda>entry. bytes_cmp (ae_path entry) path) ATTRS of
        None \<Rightarrow> None
      | Some i \<Rightarrow> get ATTRS i)"

definition attr_from_path :: "bytes \<Rightarrow> attr_id option" where
  "attr_from_path path = (case resolve_path path of None \<Rightarrow> None | Some entry \<Rightarrow> ae_attr entry)"

definition map_from_path :: "bytes \<Rightarrow> map_id option" where
  "map_from_path path = (case resolve_path path of None \<Rightarrow> None | Some entry \<Rightarrow> ae_map entry)"
section \<open>Admission limits\<close>

record policy_limits =
  max_source_bytes :: nat
  max_tokens :: nat
  max_string_bytes :: nat
  max_depth :: nat
  max_ops :: nat
  max_consts :: nat
  max_attr_slots :: nat
  max_regex :: nat
  max_regex_size :: nat
  max_list_elems :: nat

datatype limit_error =
    Zero string
  | AboveCap string nat nat

definition limits_defaults :: policy_limits where
  "limits_defaults = \<lparr>
     max_source_bytes = 8192, max_tokens = 1024, max_string_bytes = 1024, max_depth = 16,
     max_ops = 256, max_consts = 128, max_attr_slots = 16, max_regex = 8,
     max_regex_size = 65536, max_list_elems = 64\<rparr>"

definition CAPS :: "(string \<times> nat) list" where
  "CAPS = [
     (''max_source_bytes'', 65536),
     (''max_tokens'', 8192),
     (''max_string_bytes'', 8192),
     (''max_depth'', 16),
     (''max_ops'', 4096),
     (''max_consts'', 1024),
     (''max_attr_slots'', 16),
     (''max_regex'', 64),
     (''max_regex_size'', 1048576),
     (''max_list_elems'', 1024)]"

definition check_u32 :: "nat \<Rightarrow> string \<times> nat \<Rightarrow> limit_error + unit" where
  "check_u32 value fc = (case fc of (field, cap) \<Rightarrow>
     if value = 0 then Inl (Zero field)
     else if cap < value then Inl (AboveCap field value cap)
     else Inr ())"

definition check_u16 :: "nat \<Rightarrow> string \<times> nat \<Rightarrow> limit_error + unit" where
  "check_u16 value fc = (case fc of (field, cap) \<Rightarrow>
     if u16_max < cap then Inl (AboveCap field value cap)
     else if value = 0 then Inl (Zero field)
     else if cap < value then Inl (AboveCap field value cap)
     else Inr ())"

definition check_u16_regex :: "nat \<Rightarrow> string \<times> nat \<Rightarrow> limit_error + unit" where
  "check_u16_regex value fc = (case fc of (field, cap) \<Rightarrow>
     if u16_max < cap then Inl (AboveCap field value cap)
     else if cap < value then Inl (AboveCap field value cap)
     else Inr ())"

definition limits_validate :: "policy_limits \<Rightarrow> limit_error + unit" where
  "limits_validate l =
     and_then (check_u32 (max_source_bytes l) (CAPS ! 0)) (\<lambda>_.
     and_then (check_u32 (max_tokens l) (CAPS ! 1)) (\<lambda>_.
     and_then (check_u32 (max_string_bytes l) (CAPS ! 2)) (\<lambda>_.
     and_then (check_u16 (max_depth l) (CAPS ! 3)) (\<lambda>_.
     and_then (check_u16 (max_ops l) (CAPS ! 4)) (\<lambda>_.
     and_then (check_u16 (max_consts l) (CAPS ! 5)) (\<lambda>_.
     and_then (check_u16 (max_attr_slots l) (CAPS ! 6)) (\<lambda>_.
     and_then (check_u16_regex (max_regex l) (CAPS ! 7)) (\<lambda>_.
     and_then (check_u32 (max_regex_size l) (CAPS ! 8)) (\<lambda>_.
     and_then (check_u16 (max_list_elems l) (CAPS ! 9)) (\<lambda>_.
       Inr ()))))))))))"

section \<open>The table and the accessors agree\<close>

lemma ATTRS_sorted: "sorted_wrt (\<lambda>a b. bytes_cmp (ae_path a) (ae_path b) = Less) ATTRS"
  unfolding ATTRS_def by simp

lemma resolve_path_find [code]: "resolve_path p = find (\<lambda>e. ae_path e = p) ATTRS"
  unfolding resolve_path_def by (rule binary_search_by_sorted [OF ATTRS_sorted])

lemma ATTRS_rows:
  assumes "e \<in> set ATTRS"
  shows "case (ae_attr e, ae_map e) of
      (Some a, None) \<Rightarrow> ae_path e = attr_path a \<and> ae_ty e = attr_ty a \<and> ae_from e = attr_from_phase a
    | (None, Some m) \<Rightarrow> ae_path e = map_path m \<and> ae_ty e = Ty_Map \<and> ae_from e = map_from_phase m
    | _ \<Rightarrow> False"
proof -
  have "\<forall>e \<in> set ATTRS. (case (ae_attr e, ae_map e) of
      (Some a, None) \<Rightarrow> ae_path e = attr_path a \<and> ae_ty e = attr_ty a \<and> ae_from e = attr_from_phase a
    | (None, Some m) \<Rightarrow> ae_path e = map_path m \<and> ae_ty e = Ty_Map \<and> ae_from e = map_from_phase m
    | _ \<Rightarrow> False)"
    unfolding ATTRS_def by simp
  with assms show ?thesis by blast
qed

lemma attr_from_path_path: "attr_from_path (attr_path a) = Some a"
  by (cases a) (simp_all add: attr_from_path_def resolve_path_find ATTRS_def)

lemma map_from_path_path: "map_from_path (map_path m) = Some m"
  by (cases m) (simp_all add: map_from_path_def resolve_path_find ATTRS_def)

lemma resolve_path_Some:
  assumes "resolve_path p = Some e"
  shows "e \<in> set ATTRS" "ae_path e = p"
  using assms by (auto simp: resolve_path_find find_Some_iff)

lemma attr_from_path_Some: "attr_from_path p = Some a \<longleftrightarrow> p = attr_path a"
proof
  assume "attr_from_path p = Some a"
  then obtain e where e: "resolve_path p = Some e" "ae_attr e = Some a"
    by (auto simp: attr_from_path_def split: option.splits)
  then show "p = attr_path a"
    using ATTRS_rows [OF resolve_path_Some(1) [OF e(1)]] resolve_path_Some(2) [OF e(1)]
    by (auto split: option.splits)
qed (simp add: attr_from_path_path)

lemma limits_validate_ok_iff:
  "limits_validate l = Inr () \<longleftrightarrow>
     max_source_bytes l \<in> {1..65536} \<and> max_tokens l \<in> {1..8192} \<and> max_string_bytes l \<in> {1..8192} \<and>
     max_depth l \<in> {1..16} \<and> max_ops l \<in> {1..4096} \<and> max_consts l \<in> {1..1024} \<and>
     max_attr_slots l \<in> {1..16} \<and> max_regex l \<le> 64 \<and> max_regex_size l \<in> {1..1048576} \<and>
     max_list_elems l \<in> {1..1024}"
  unfolding limits_validate_def CAPS_def check_u32_def check_u16_def check_u16_regex_def u16_max_def
  by (simp add: and_then_Inr_iff Suc_le_eq not_less split: if_splits)

end
