(* ===== verification/Policy_Program.thy ===== *)
theory Policy_Program
  imports Policy_Attrs
begin

text \<open>
  The compiled artifact of a policy (\<^verbatim>\<open>program.rs\<close>): the forward-jump-only bytecode, the
  constant and slot tables, the verifier, the accessors and the content hash. The lemmas
  turn a successful run of \<open>verify\<close> into a well-typing of the bytecode: one stack depth per
  reachable instruction that every successor agrees with, which is what the evaluator's
  safety proof consumes.
\<close>

section \<open>Instructions, constants, programs\<close>

datatype op =
    Op_LoadAttr nat
  | Op_LoadConst nat
  | Op_Eq | Op_Ne | Op_Lt | Op_Le | Op_Gt | Op_Ge
  | Op_InSet nat
  | Op_StartsWith | Op_EndsWith | Op_Contains
  | Op_EqIgnoreCase | Op_StartsWithIgnoreCase
  | Op_RegexMatch nat
  | Op_Size
  | Op_Not
  | Op_JumpIfFalse nat
  | Op_JumpIfTrue nat
  | Op_BranchIfFalse nat
  | Op_Jump nat
  | Op_Ret

text \<open>\<^verbatim>\<open>Const\<close>; a string is a \<open>(from, len)\<close> range of the string arena, a list a range of the
  element table. An \<^verbatim>\<open>i64\<close> is an \<^typ>\<open>int\<close>.\<close>

datatype const =
    Const_Bool bool
  | Const_Int int
  | Const_Str nat nat
  | Const_Null
  | Const_List nat nat

text \<open>\<^verbatim>\<open>check::AttrRef\<close>.\<close>

datatype attr_ref =
    Scalar attr_id
  | Field map_id span

text \<open>\<open>'r\<close> is the type of compiled regexes, which belong to the \<^verbatim>\<open>regex\<close> crate.\<close>

record 'r program =
  p_ops :: "op list"
  p_consts :: "const list"
  p_list_elems :: "const list"
  p_strings :: bytes
  p_slots :: "attr_ref list"
  p_regexes :: "'r list"
  p_result :: ty
  p_phase :: phase
  p_max_stack :: nat

datatype verify_error =
    BackwardJump nat nat
  | JumpOutOfRange nat nat nat
  | OperandOutOfRange nat nat
  | MissingRet
  | VStackUnderflow nat
  | VStackOverflow nat nat
  | StackNotSingleton nat nat
  | TooManyOps nat nat

section \<open>The verifier\<close>

definition MAX_STACK :: nat where
  "MAX_STACK = 16"

text \<open>Stack depths are \<^verbatim>\<open>i16\<close> in the source; \<open>-1\<close> marks an instruction no path has reached.\<close>

definition clamp_u8 :: "int \<Rightarrow> nat" where
  "clamp_u8 d = nat (max 0 (min 255 d))"

fun effect :: "op \<Rightarrow> int \<times> int" where
  "effect (Op_LoadAttr _) = (0, 1)"
| "effect (Op_LoadConst _) = (0, 1)"
| "effect Op_Not = (1, 1)"
| "effect Op_Size = (1, 1)"
| "effect (Op_RegexMatch _) = (1, 1)"
| "effect (Op_InSet _) = (1, 1)"
| "effect Op_Eq = (2, 1)"
| "effect Op_Ne = (2, 1)"
| "effect Op_Lt = (2, 1)"
| "effect Op_Le = (2, 1)"
| "effect Op_Gt = (2, 1)"
| "effect Op_Ge = (2, 1)"
| "effect Op_StartsWith = (2, 1)"
| "effect Op_EndsWith = (2, 1)"
| "effect Op_Contains = (2, 1)"
| "effect Op_EqIgnoreCase = (2, 1)"
| "effect Op_StartsWithIgnoreCase = (2, 1)"
| "effect (Op_BranchIfFalse _) = (1, 0)"
| "effect (Op_JumpIfFalse _) = (1, 0)"
| "effect (Op_JumpIfTrue _) = (1, 0)"
| "effect (Op_Jump _) = (0, 0)"
| "effect Op_Ret = (0, 0)"

fun depth_after_jump :: "op \<Rightarrow> int \<Rightarrow> int" where
  "depth_after_jump (Op_BranchIfFalse _) d = d - 1"
| "depth_after_jump _ d = d"

definition merge :: "int list \<Rightarrow> nat \<Rightarrow> int \<Rightarrow> verify_error + int list" where
  "merge depth at incoming =
     (case get depth at of
        None \<Rightarrow> Inr depth
      | Some slot \<Rightarrow>
          if slot < 0 then Inr (depth[at := incoming])
          else if slot = incoming then Inr depth
          else Inl (StackNotSingleton (to_u16 at) (clamp_u8 incoming)))"

fun check_operand ::
  "op \<Rightarrow> nat \<Rightarrow> const list \<Rightarrow> attr_ref list \<Rightarrow> nat \<Rightarrow> verify_error + unit" where
  "check_operand (Op_LoadConst n) at consts slots regexes =
     (if get consts n = None then Inl (OperandOutOfRange (to_u16 at) n) else Inr ())"
| "check_operand (Op_LoadAttr n) at consts slots regexes =
     (if get slots n = None then Inl (OperandOutOfRange (to_u16 at) n) else Inr ())"
| "check_operand (Op_RegexMatch n) at consts slots regexes =
     (if regexes \<le> n then Inl (OperandOutOfRange (to_u16 at) n) else Inr ())"
| "check_operand (Op_InSet n) at consts slots regexes =
     (case get consts n of
        Some (Const_List _ _) \<Rightarrow> Inr ()
      | _ \<Rightarrow> Inl (OperandOutOfRange (to_u16 at) n))"
| "check_operand _ at consts slots regexes = Inr ()"

text \<open>The target of the four jumping instructions, which share one arm of \<^verbatim>\<open>verify\<close>'s match.\<close>

fun jump_target :: "op \<Rightarrow> nat option" where
  "jump_target (Op_Jump t) = Some t"
| "jump_target (Op_JumpIfFalse t) = Some t"
| "jump_target (Op_JumpIfTrue t) = Some t"
| "jump_target (Op_BranchIfFalse t) = Some t"
| "jump_target _ = None"

fun is_Jump :: "op \<Rightarrow> bool" where
  "is_Jump (Op_Jump _) = True"
| "is_Jump _ = False"

text \<open>One iteration of \<^verbatim>\<open>verify\<close>'s loop.\<close>

definition verify_step ::
  "nat \<Rightarrow> const list \<Rightarrow> attr_ref list \<Rightarrow> nat \<Rightarrow> nat \<Rightarrow> op \<Rightarrow> int list \<Rightarrow> verify_error + int list" where
  "verify_step len consts slots regexes i op depth =
     (case get depth i of
        None \<Rightarrow> Inr depth
      | Some d \<Rightarrow>
          if d < 0 then Inr depth
          else and_then (check_operand op i consts slots regexes) (\<lambda>_.
            let (pops, pushes) = effect op; nxt = d - pops + pushes in
            if d < pops then Inl (VStackUnderflow (to_u16 i))
            else if int MAX_STACK < nxt then Inl (VStackOverflow (to_u16 i) MAX_STACK)
            else if op = Op_Ret then
              (if d \<noteq> 1 then Inl (StackNotSingleton (to_u16 i) (clamp_u8 d)) else Inr depth)
            else (case jump_target op of
                Some target \<Rightarrow>
                  if target \<le> i then Inl (BackwardJump (to_u16 i) target)
                  else if len \<le> target then Inl (JumpOutOfRange (to_u16 i) target (to_u16 len))
                  else and_then (merge depth target (depth_after_jump op d)) (\<lambda>depth.
                    if is_Jump op then Inr depth else merge depth (Suc i) nxt)
              | None \<Rightarrow> merge depth (Suc i) nxt)))"

fun verify_loop ::
  "nat \<Rightarrow> const list \<Rightarrow> attr_ref list \<Rightarrow> nat \<Rightarrow> nat \<Rightarrow> op list \<Rightarrow> int list \<Rightarrow> verify_error + int list" where
  "verify_loop len consts slots regexes i [] depth = Inr depth"
| "verify_loop len consts slots regexes i (op # rest) depth =
     and_then (verify_step len consts slots regexes i op depth) (\<lambda>depth.
       verify_loop len consts slots regexes (Suc i) rest depth)"

definition max_depth_of :: "int list \<Rightarrow> nat" where
  "max_depth_of depth =
     (case filter (\<lambda>d. 0 \<le> d) depth of [] \<Rightarrow> 0 | d # ds \<Rightarrow> clamp_u8 (fold max ds d))"

definition verify ::
  "op list \<Rightarrow> const list \<Rightarrow> attr_ref list \<Rightarrow> nat \<Rightarrow> policy_limits \<Rightarrow> verify_error + nat" where
  "verify ops consts slots regexes limits =
     (let len = length ops in
      if max_ops limits < len then Inl (TooManyOps len (max_ops limits))
      else if ops = [] \<or> last ops \<noteq> Op_Ret then Inl MissingRet
      else and_then (verify_loop len consts slots regexes 0 ops ((replicate len (-1))[0 := 0]))
             (\<lambda>depth. Inr (max_depth_of depth)))"

section \<open>Accessors\<close>

definition slice_range :: "bytes \<Rightarrow> nat \<Rightarrow> nat \<Rightarrow> bytes" where
  "slice_range buf from len =
     (case get_range buf from (sat_add from len) of None \<Rightarrow> [] | Some s \<Rightarrow> s)"

definition const_range :: "const list \<Rightarrow> nat \<Rightarrow> nat \<Rightarrow> const list" where
  "const_range buf from len =
     (case get_range buf from (sat_add from len) of None \<Rightarrow> [] | Some s \<Rightarrow> s)"

definition const_str :: "'r program \<Rightarrow> const \<Rightarrow> bytes" where
  "const_str p c = (case c of Const_Str from len \<Rightarrow> slice_range (p_strings p) from len | _ \<Rightarrow> [])"

definition program_regex :: "'r program \<Rightarrow> nat \<Rightarrow> 'r option" where
  "program_regex p n = get (p_regexes p) n"

definition key_bytes :: "'r program \<Rightarrow> span \<Rightarrow> bytes" where
  "key_bytes p key = (case span_slice key (p_strings p) of None \<Rightarrow> [] | Some s \<Rightarrow> s)"

definition list_of :: "'r program \<Rightarrow> nat \<Rightarrow> const list option" where
  "list_of p n =
     (case get (p_consts p) n of
        Some (Const_List from len) \<Rightarrow> Some (const_range (p_list_elems p) from len)
      | _ \<Rightarrow> None)"

definition regex_count :: "'r program \<Rightarrow> nat" where
  "regex_count p = length (p_regexes p)"

section \<open>What a successful verification means\<close>

text \<open>
  \<open>wt_instr ops consts slots rx D i\<close>: with \<open>D\<close> the entry depth of every instruction
  (negative where unreached), instruction \<open>i\<close> is in range of its tables, has its operands,
  fits the fixed stack, and every successor is a later instruction entered at the depth the
  instruction leaves.
\<close>

definition wt_instr ::
  "op list \<Rightarrow> const list \<Rightarrow> attr_ref list \<Rightarrow> nat \<Rightarrow> int list \<Rightarrow> nat \<Rightarrow> bool" where
  "wt_instr ops consts slots rx D i \<longleftrightarrow>
     (0 \<le> D ! i \<longrightarrow>
       check_operand (ops ! i) i consts slots rx = Inr () \<and>
       fst (effect (ops ! i)) \<le> D ! i \<and>
       D ! i - fst (effect (ops ! i)) + snd (effect (ops ! i)) \<le> int MAX_STACK \<and>
       (ops ! i = Op_Ret \<longrightarrow> D ! i = 1) \<and>
       (\<forall>t. jump_target (ops ! i) = Some t \<longrightarrow>
          i < t \<and> t < length ops \<and> D ! t = depth_after_jump (ops ! i) (D ! i)) \<and>
       (ops ! i \<noteq> Op_Ret \<and> \<not> is_Jump (ops ! i) \<longrightarrow>
          Suc i < length ops \<and>
          D ! Suc i = D ! i - fst (effect (ops ! i)) + snd (effect (ops ! i))))"

definition wt_code ::
  "op list \<Rightarrow> const list \<Rightarrow> attr_ref list \<Rightarrow> nat \<Rightarrow> int list \<Rightarrow> bool" where
  "wt_code ops consts slots rx D \<longleftrightarrow>
     length D = length ops \<and> ops \<noteq> [] \<and> D ! 0 = 0 \<and>
     (\<forall>i < length ops. wt_instr ops consts slots rx D i)"

text \<open>How the depth array may change from instruction \<open>i\<close> on: known depths are final, and
  nothing at or before \<open>i\<close> changes.\<close>

definition refines_from :: "nat \<Rightarrow> int list \<Rightarrow> int list \<Rightarrow> bool" where
  "refines_from i d d' \<longleftrightarrow>
     length d' = length d \<and> (\<forall>j < length d. 0 \<le> d ! j \<or> j \<le> i \<longrightarrow> d' ! j = d ! j)"

lemma refines_from_refl [simp]: "refines_from i d d"
  by (simp add: refines_from_def)

lemma refines_from_trans:
  "refines_from i d d' \<Longrightarrow> refines_from i' d' d'' \<Longrightarrow> i \<le> i' \<Longrightarrow> refines_from i d d''"
  by (auto simp: refines_from_def)

lemma refines_from_nth:
  "refines_from i d d' \<Longrightarrow> j < length d \<Longrightarrow> 0 \<le> d ! j \<or> j \<le> i \<Longrightarrow> d' ! j = d ! j"
  by (auto simp: refines_from_def)

lemma merge_refines:
  assumes "merge d at v = Inr d'" and "i < at"
  shows "refines_from i d d'"
  using assms by (auto simp: merge_def refines_from_def nth_list_update split: option.splits if_splits)

lemma merge_at:
  assumes "merge d at v = Inr d'" and "at < length d"
  shows "d' ! at = v"
  using assms by (auto simp: merge_def split: option.splits if_splits)

lemma effect_nonneg: "0 \<le> fst (effect op)" "0 \<le> snd (effect op)"
  by (cases op; simp)+

lemma depth_after_jump_nonneg:
  "0 \<le> d \<Longrightarrow> fst (effect op) \<le> d \<Longrightarrow> 0 \<le> depth_after_jump op d"
  by (cases op) auto

lemma jump_target_not_Ret: "jump_target op = Some t \<Longrightarrow> op \<noteq> Op_Ret"
  by auto

lemma is_Jump_target: "is_Jump op \<Longrightarrow> \<exists>t. jump_target op = Some t"
  by (cases op) auto

text \<open>The ways one iteration can succeed on a reached instruction.\<close>

abbreviation depth_after :: "op \<Rightarrow> int \<Rightarrow> int" where
  "depth_after op d \<equiv> d - fst (effect op) + snd (effect op)"

lemma verify_step_reached:
  assumes "verify_step len consts slots rx i op d = Inr d'" and "i < length d" and "0 \<le> d ! i"
  shows "check_operand op i consts slots rx = Inr ()" and "fst (effect op) \<le> d ! i"
    and "depth_after op (d ! i) \<le> int MAX_STACK"
  using assms by (auto simp: verify_step_def Let_def and_then_Inr_iff split: if_splits prod.splits)

lemma verify_step_cases:
  assumes "verify_step len consts slots rx i op d = Inr d'" and "i < length d" and "0 \<le> d ! i"
  obtains (Ret) "op = Op_Ret" "d ! i = 1" "d' = d"
    | (Jump) t d1 where "jump_target op = Some t" "i < t" "t < len"
        "merge d t (depth_after_jump op (d ! i)) = Inr d1"
        "if is_Jump op then d' = d1 else merge d1 (Suc i) (depth_after op (d ! i)) = Inr d'"
    | (Fall) "jump_target op = None" "op \<noteq> Op_Ret" "merge d (Suc i) (depth_after op (d ! i)) = Inr d'"
proof (cases "op = Op_Ret")
  case True
  with assms Ret show ?thesis by (auto simp: verify_step_def Let_def split: if_splits)
next
  case False
  show ?thesis
  proof (cases "jump_target op")
    case None
    with assms False Fall show ?thesis
      by (auto simp: verify_step_def Let_def and_then_Inr_iff split: if_splits prod.splits)
  next
    case (Some t)
    with assms False Jump [of t] show ?thesis
      by (auto simp: verify_step_def Let_def and_then_Inr_iff split: if_splits prod.splits)
  qed
qed

text \<open>What one iteration leaves behind at its own instruction.\<close>

lemma verify_step_refines:
  assumes "verify_step len consts slots rx i op d = Inr d'"
  shows "refines_from i d d'"
proof (cases "i < length d \<and> 0 \<le> d ! i")
  case False
  with assms show ?thesis by (auto simp: verify_step_def split: option.splits if_splits)
next
  case True
  from assms conjunct1 [OF True] conjunct2 [OF True] show ?thesis
  proof (cases rule: verify_step_cases)
    case (Jump t d1)
    have "refines_from i d1 d'"
      using Jump(5) merge_refines [of d1 "Suc i" _ d' i] by (auto split: if_splits)
    with merge_refines [OF Jump(4,2)] show ?thesis by (rule refines_from_trans) simp
  qed (auto intro: merge_refines)
qed

lemma verify_step_jump:
  assumes step: "verify_step len consts slots rx i op d = Inr d'" and "i < length d"
    and d: "0 \<le> d ! i" and t: "jump_target op = Some t" and len: "length d = len"
  shows "i < t \<and> t < len \<and> d' ! t = depth_after_jump op (d ! i)"
  using step assms(2) d
proof (cases rule: verify_step_cases)
  case Ret
  with t show ?thesis by simp
next
  case Fall
  with t show ?thesis by simp
next
  case (Jump t' d1)
  have at: "d1 ! t = depth_after_jump op (d ! i)" "t' = t"
    using merge_at [OF Jump(4)] Jump(1,3) t len by auto
  have "length d1 = len"
    using merge_refines [OF Jump(4,2)] len by (simp add: refines_from_def)
  moreover have "refines_from i d1 d'"
    using Jump(5) merge_refines [of d1 "Suc i" _ d' i] by (auto split: if_splits)
  moreover have "0 \<le> d1 ! t"
    using at depth_after_jump_nonneg [OF d verify_step_reached(2) [OF step assms(2) d]] by simp
  ultimately have "d' ! t = d1 ! t" using Jump at by (simp add: refines_from_def)
  with at Jump show ?thesis by simp
qed

lemma verify_step_fall:
  assumes step: "verify_step len consts slots rx i op d = Inr d'" and "i < length d"
    and d: "0 \<le> d ! i" and op: "op \<noteq> Op_Ret" "\<not> is_Jump op" and "Suc i < length d"
  shows "d' ! Suc i = depth_after op (d ! i)"
  using step assms(2) d
proof (cases rule: verify_step_cases)
  case (Jump t d1)
  have "length d1 = length d" using merge_refines [OF Jump(4,2)] by (simp add: refines_from_def)
  with Jump(5) op assms(6) merge_at show ?thesis by simp
qed (use op assms(6) merge_at in auto)

lemma verify_step_wt:
  assumes step: "verify_step (length ops) consts slots rx i (ops ! i) d = Inr d'"
    and len: "length d = length ops" and i: "i < length ops" and last: "last ops = Op_Ret"
    and fin: "refines_from i d' D"
  shows "wt_instr ops consts slots rx D i"
proof (cases "0 \<le> d ! i")
  case False
  then have "D ! i = d ! i"
    using refines_from_trans [OF verify_step_refines [OF step] fin] i len by (simp add: refines_from_def)
  with False show ?thesis by (simp add: wt_instr_def)
next
  case d: True
  let ?op = "ops ! i"
  have Di: "D ! i = d ! i"
    using refines_from_trans [OF verify_step_refines [OF step] fin] i len by (simp add: refines_from_def)
  have len': "length d' = length ops"
    using verify_step_refines [OF step] len by (simp add: refines_from_def)
  have il: "i < length d" using i len by simp
  note reached = verify_step_reached [OF step il d]
  have keep: "D ! j = d' ! j" if "j < length ops" "0 \<le> d' ! j" for j
    using refines_from_nth [OF fin, of j] that len' by simp
  have "?op = Op_Ret \<Longrightarrow> d ! i = 1"
    using step il d by (cases rule: verify_step_cases) auto
  moreover have "i < t \<and> t < length ops \<and> D ! t = depth_after_jump ?op (d ! i)"
    if t: "jump_target ?op = Some t" for t
    using verify_step_jump [OF step il d t len] keep depth_after_jump_nonneg [OF d reached(2)] by simp
  moreover have "Suc i < length ops \<and> D ! Suc i = depth_after ?op (d ! i)"
    if op: "?op \<noteq> Op_Ret" "\<not> is_Jump ?op"
  proof -
    have "ops ! (length ops - 1) = Op_Ret" using last i by (metis last_conv_nth less_nat_zero_code list.size(3))
    then have "i \<noteq> length ops - 1" using op(1) by auto
    then have "Suc i < length ops" using i by linarith
    then show ?thesis
      using verify_step_fall [OF step il d op] keep reached(2) effect_nonneg(2) [of ?op] len by simp
  qed
  ultimately show ?thesis unfolding wt_instr_def Di using reached by blast
qed

lemma verify_loop_refines:
  "verify_loop len consts slots rx i rest d = Inr D \<Longrightarrow> refines_from (i - 1) d D"
proof (induction rest arbitrary: i d)
  case (Cons op rest)
  then obtain d' where d': "verify_step len consts slots rx i op d = Inr d'"
    "verify_loop len consts slots rx (Suc i) rest d' = Inr D"
    by (auto simp: and_then_Inr_iff)
  have "refines_from i d' D" using Cons.IH [OF d'(2)] by simp
  with verify_step_refines [OF d'(1)] have "refines_from i d D"
    by (rule refines_from_trans) simp
  then show ?case by (auto simp: refines_from_def)
qed simp

lemma verify_loop_wt:
  assumes "verify_loop (length ops) consts slots rx i (drop i ops) d = Inr D"
    and "length d = length ops" and "last ops = Op_Ret" and "i \<le> j" and "j < length ops"
  shows "wt_instr ops consts slots rx D j"
  using assms
proof (induction "length ops - i" arbitrary: i d)
  case 0
  then show ?case by simp
next
  case (Suc n)
  then have i: "i < length ops" by simp
  then have drop: "drop i ops = ops ! i # drop (Suc i) ops" by (simp add: Cons_nth_drop_Suc)
  obtain d' where d': "verify_step (length ops) consts slots rx i (ops ! i) d = Inr d'"
    "verify_loop (length ops) consts slots rx (Suc i) (drop (Suc i) ops) d' = Inr D"
    using Suc.prems(1) by (auto simp: drop and_then_Inr_iff)
  have len': "length d' = length ops"
    using verify_step_refines [OF d'(1)] Suc.prems(2) by (simp add: refines_from_def)
  show ?case
  proof (cases "j = i")
    case True
    have "refines_from i d' D" using verify_loop_refines [OF d'(2)] by simp
    then show ?thesis using verify_step_wt [OF d'(1) Suc.prems(2) i Suc.prems(3)] True by simp
  next
    case False
    show ?thesis
      by (rule Suc.hyps(1) [OF _ d'(2) len' Suc.prems(3)]) (use Suc False in auto)
  qed
qed

lemma verify_wt:
  assumes "verify ops consts slots rx limits = Inr m"
  obtains D where "wt_code ops consts slots rx D" "m = max_depth_of D"
    "length ops \<le> max_ops limits" "last ops = Op_Ret"
proof -
  let ?d = "(replicate (length ops) (-1))[0 := 0]"
  obtain D where D: "verify_loop (length ops) consts slots rx 0 ops ?d = Inr D"
    "m = max_depth_of D" "ops \<noteq> []" "last ops = Op_Ret" "length ops \<le> max_ops limits"
    using assms by (auto simp: verify_def Let_def and_then_Inr_iff split: if_splits)
  have "refines_from 0 ?d D" using verify_loop_refines [OF D(1)] by simp
  then have "D ! 0 = 0" "length D = length ops"
    using D(3) by (auto simp: refines_from_def)
  moreover have "wt_instr ops consts slots rx D j" if "j < length ops" for j
    using verify_loop_wt [where i = 0 and d = ?d and j = j] D that by simp
  ultimately have "wt_code ops consts slots rx D"
    using D(3) by (simp add: wt_code_def)
  with D that show ?thesis by blast
qed

section \<open>The verifier accepts every well-typed program\<close>

definition agrees :: "int list \<Rightarrow> int list \<Rightarrow> bool" where
  "agrees d D \<longleftrightarrow> length d = length D \<and> (\<forall>j < length D. 0 \<le> d ! j \<longrightarrow> d ! j = D ! j)"

lemma merge_agrees:
  assumes "agrees d D" and "at < length D"
  shows "\<exists>d'. merge d at (D ! at) = Inr d' \<and> agrees d' D"
  using assms by (auto simp: merge_def agrees_def nth_list_update split: option.splits)

lemma verify_step_agrees:
  assumes ag: "agrees d D" and len: "length D = length ops" and i: "i < length ops"
    and wt: "wt_instr ops consts slots rx D i"
  shows "\<exists>d'. verify_step (length ops) consts slots rx i (ops ! i) d = Inr d' \<and> agrees d' D"
proof (cases "0 \<le> d ! i")
  case False
  with ag i len show ?thesis by (auto simp: verify_step_def agrees_def)
next
  case True
  let ?op = "ops ! i"
  have di: "d ! i = D ! i" "i < length d" using ag i len True by (auto simp: agrees_def)
  note w = wt [unfolded wt_instr_def, rule_format, OF True [unfolded di]]
  have target: "\<exists>d1. merge d t (depth_after_jump ?op (D ! i)) = Inr d1 \<and> agrees d1 D"
    if "jump_target ?op = Some t" for t
    using w that merge_agrees [OF ag, of t] len by auto
  have fall: "\<exists>d'. merge d1 (Suc i) (depth_after ?op (D ! i)) = Inr d' \<and> agrees d' D"
    if "agrees d1 D" "?op \<noteq> Op_Ret" "\<not> is_Jump ?op" for d1
    using w that merge_agrees [OF that(1), of "Suc i"] len by auto
  have reached: "verify_step (length ops) consts slots rx i ?op d =
      (if ?op = Op_Ret then Inr d
       else case jump_target ?op of
           Some t \<Rightarrow> and_then (merge d t (depth_after_jump ?op (D ! i))) (\<lambda>d1.
             if is_Jump ?op then Inr d1 else merge d1 (Suc i) (depth_after ?op (D ! i)))
         | None \<Rightarrow> merge d (Suc i) (depth_after ?op (D ! i)))"
  proof -
    have "check_operand ?op i consts slots rx = Inr ()" "\<not> D ! i < fst (effect ?op)"
      "\<not> int MAX_STACK < depth_after ?op (D ! i)" "?op = Op_Ret \<Longrightarrow> D ! i = 1"
      "\<And>t. jump_target ?op = Some t \<Longrightarrow> \<not> t \<le> i \<and> \<not> length ops \<le> t"
      using w by auto
    with di True show ?thesis
      by (simp add: verify_step_def Let_def split_beta split: option.split)
  qed
  consider "?op = Op_Ret" | t where "?op \<noteq> Op_Ret" "jump_target ?op = Some t"
    | "?op \<noteq> Op_Ret" "jump_target ?op = None" "\<not> is_Jump ?op"
    using is_Jump_target by fastforce
  then show ?thesis
  proof cases
    case 1
    with ag show ?thesis unfolding reached by simp
  next
    case (2 t)
    obtain d1 where "merge d t (depth_after_jump ?op (D ! i)) = Inr d1" "agrees d1 D"
      using target [OF 2(2)] by blast
    with 2 fall [of d1] show ?thesis unfolding reached by simp
  next
    case 3
    with fall [OF ag] show ?thesis unfolding reached by simp
  qed
qed

lemma verify_loop_agrees:
  assumes "agrees d D" and "length D = length ops" and "\<forall>i < length ops. wt_instr ops consts slots rx D i"
  shows "\<exists>d'. verify_loop (length ops) consts slots rx i (drop i ops) d = Inr d'"
  using assms(1)
proof (induction "length ops - i" arbitrary: i d)
  case 0
  then show ?case by simp
next
  case (Suc n)
  then have i: "i < length ops" by simp
  then obtain d' where "verify_step (length ops) consts slots rx i (ops ! i) d = Inr d'" "agrees d' D"
    using verify_step_agrees [OF Suc.prems assms(2)] assms(3) by blast
  moreover have "\<exists>d''. verify_loop (length ops) consts slots rx (Suc i) (drop (Suc i) ops) d' = Inr d''"
    using Suc.hyps(1) [of "Suc i"] Suc.hyps(2) \<open>agrees d' D\<close> by simp
  ultimately show ?case using i by (auto simp: Cons_nth_drop_Suc [symmetric])
qed


end
