(* ===== verification/Policy_VM.thy ===== *)
theory Policy_VM
  imports Policy_Program
begin

text \<open>
  The evaluator (\<^verbatim>\<open>vm.rs\<close>, \<^verbatim>\<open>value.rs\<close>): runtime values, the per-evaluation environment with
  its slot cache and duplicate-field flag, the fixed operand stack, and the loop over the
  bytecode. The theorems show that a verified program never leaves its code, never under-
  or overflows the stack, never exhausts its step budget, and that the slot cache is
  transparent.
\<close>

section \<open>Values\<close>

datatype val =
    V_Bool bool
  | V_Int int
  | V_Str bytes
  | V_Null

fun as_str :: "val \<Rightarrow> bytes option" where
  "as_str (V_Str s) = Some s"
| "as_str _ = None"

fun as_int :: "val \<Rightarrow> int option" where
  "as_int (V_Int v) = Some v"
| "as_int _ = None"

fun as_bool :: "val \<Rightarrow> bool option" where
  "as_bool (V_Bool b) = Some b"
| "as_bool _ = None"

fun is_null :: "val \<Rightarrow> bool" where
  "is_null V_Null = True"
| "is_null _ = False"

fun val_ty :: "val \<Rightarrow> ty" where
  "val_ty (V_Bool _) = Ty_Bool"
| "val_ty (V_Int _) = Ty_Int"
| "val_ty (V_Str _) = Ty_Str"
| "val_ty V_Null = Ty_Null"

definition itpl_eq :: "val \<Rightarrow> val \<Rightarrow> bool" where
  "itpl_eq self other =
     (if is_null self \<or> is_null other then is_null self \<and> is_null other
      else (case (self, other) of
          (V_Bool a, V_Bool b) \<Rightarrow> a = b
        | (V_Int a, V_Int b) \<Rightarrow> a = b
        | (V_Str a, V_Str b) \<Rightarrow> a = b
        | _ \<Rightarrow> False))"

lemma itpl_eq_iff: "itpl_eq a b \<longleftrightarrow> a = b"
  by (cases a; cases b) (auto simp: itpl_eq_def)

section \<open>Third-party code and the request binding\<close>

text \<open>
  The functions of the \<^verbatim>\<open>regex\<close> and \<^verbatim>\<open>memchr\<close> crates the policy crate calls:
  \<^verbatim>\<open>RegexBuilder::build\<close> on a pattern under a size limit (the error is its message),
  \<^verbatim>\<open>Regex::as_str\<close>, \<^verbatim>\<open>Regex::is_match\<close> and \<^verbatim>\<open>memmem::find\<close>.
\<close>

record 'r crates =
  regex_build :: "bytes \<Rightarrow> nat \<Rightarrow> bytes + 'r"
  regex_as_str :: "'r \<Rightarrow> bytes"
  regex_is_match :: "'r \<Rightarrow> bytes \<Rightarrow> bool"
  memmem_find :: "bytes \<Rightarrow> bytes \<Rightarrow> nat option"

datatype field_outcome = Present bytes | Absent | Duplicate

text \<open>The trait \<^verbatim>\<open>AttrSource\<close>.\<close>

record attr_source =
  scalar :: "attr_id \<Rightarrow> val"
  field :: "map_id \<Rightarrow> bytes \<Rightarrow> field_outcome"

section \<open>The environment\<close>

datatype eval_error =
    BadPc nat
  | BadOperand nat
  | StackUnderflow nat
  | StackOverflow nat
  | StepBudget nat
  | TypeError nat

text \<open>
  \<open>e_dup_count\<close> is the process-wide \<^verbatim>\<open>DUPLICATE_HEADER_COUNT\<close>, a wrapping 64-bit counter that
  \<^verbatim>\<open>record_duplicate_header\<close> increments; the model threads it along with the environment.
\<close>

record env =
  e_slots :: "val option list"
  e_used :: nat
  e_saw_duplicate :: bool
  e_src :: attr_source
  e_dup_count :: "64 word"

definition MAX_SLOTS :: nat where
  "MAX_SLOTS = 16"

definition env_new :: "attr_source \<Rightarrow> nat \<Rightarrow> 64 word \<Rightarrow> env" where
  "env_new src used count =
     \<lparr>e_slots = replicate MAX_SLOTS None, e_used = used, e_saw_duplicate = False, e_src = src,
      e_dup_count = count\<rparr>"

definition record_duplicate_header :: "env \<Rightarrow> env" where
  "record_duplicate_header env = env\<lparr>e_dup_count := e_dup_count env + 1\<rparr>"

text \<open>The resolution of an uncached slot: its value, and the environment after the lookup.\<close>

definition resolve_ref :: "'r program \<Rightarrow> env \<Rightarrow> attr_ref \<Rightarrow> val \<times> env" where
  "resolve_ref prog env r =
     (case r of
        Scalar a \<Rightarrow> (scalar (e_src env) a, env)
      | Field m key \<Rightarrow>
          (case field (e_src env) m (key_bytes prog key) of
             Present b \<Rightarrow> (V_Str b, env)
           | Absent \<Rightarrow> (V_Null, env)
           | Duplicate \<Rightarrow> (V_Null, record_duplicate_header (env\<lparr>e_saw_duplicate := True\<rparr>))))"

definition env_slot :: "'r program \<Rightarrow> nat \<Rightarrow> env \<Rightarrow> (eval_error + val) \<times> env" where
  "env_slot prog n env =
     (if MAX_SLOTS \<le> n \<or> e_used env \<le> n then (Inl (BadOperand n), env)
      else (case Option.bind (get (e_slots env) n) (\<lambda>x. x) of
          Some v \<Rightarrow> (Inr v, env)
        | None \<Rightarrow>
            (case get (p_slots prog) n of
               None \<Rightarrow> (Inl (BadOperand n), env)
             | Some r \<Rightarrow>
                 (let (v, env') = resolve_ref prog env r
                  in (Inr v, env'\<lparr>e_slots := set_at (e_slots env') n (Some v)\<rparr>)))))"

definition env_resolved :: "env \<Rightarrow> nat" where
  "env_resolved env = to_u16 (length (filter (\<lambda>s. s \<noteq> None) (e_slots env)))"

section \<open>The operand stack\<close>

text \<open>\<^verbatim>\<open>stack\<close> and \<^verbatim>\<open>sp\<close>, the two locals of \<^verbatim>\<open>eval\<close>.\<close>

record opstack =
  cells :: "val list"
  sp :: nat

definition stack_init :: opstack where
  "stack_init = \<lparr>cells = replicate MAX_STACK V_Null, sp = 0\<rparr>"

definition push :: "opstack \<Rightarrow> nat \<Rightarrow> val \<Rightarrow> eval_error + opstack" where
  "push st pc v =
     (if sp st < length (cells st)
      then Inr (st\<lparr>cells := (cells st)[sp st := v], sp := Suc (sp st)\<rparr>)
      else Inl (StackOverflow (to_u16 pc)))"

definition pop :: "opstack \<Rightarrow> nat \<Rightarrow> eval_error + val \<times> opstack" where
  "pop st pc =
     (if sp st = 0 then Inl (StackUnderflow (to_u16 pc))
      else (let i = sp st - 1
            in case get (cells st) i of
                 None \<Rightarrow> Inl (StackUnderflow (to_u16 pc))
               | Some v \<Rightarrow> Inr (v, st\<lparr>sp := i\<rparr>)))"

definition pop_int :: "opstack \<Rightarrow> nat \<Rightarrow> eval_error + int \<times> opstack" where
  "pop_int st pc = and_then (pop st pc) (\<lambda>(v, st).
     and_then (ok_or (as_int v) (TypeError (to_u16 pc))) (\<lambda>i. Inr (i, st)))"

definition pop_bool :: "opstack \<Rightarrow> nat \<Rightarrow> eval_error + bool \<times> opstack" where
  "pop_bool st pc = and_then (pop st pc) (\<lambda>(v, st).
     and_then (ok_or (as_bool v) (TypeError (to_u16 pc))) (\<lambda>b. Inr (b, st)))"

definition pop_str_or_null :: "opstack \<Rightarrow> nat \<Rightarrow> eval_error + bytes option \<times> opstack" where
  "pop_str_or_null st pc = and_then (pop st pc) (\<lambda>(v, st).
     (case v of
        V_Str s \<Rightarrow> Inr (Some s, st)
      | V_Null \<Rightarrow> Inr (None, st)
      | _ \<Rightarrow> Inl (TypeError (to_u16 pc))))"

definition peek :: "opstack \<Rightarrow> nat \<Rightarrow> eval_error + val" where
  "peek st pc =
     (if sp st = 0 then Inl (StackUnderflow (to_u16 pc))
      else ok_or (get (cells st) (sp st - 1)) (StackUnderflow (to_u16 pc)))"

definition peek_is_false :: "opstack \<Rightarrow> nat \<Rightarrow> eval_error + bool" where
  "peek_is_false st pc = and_then (peek st pc) (\<lambda>v.
     ok_or (map_option Not (as_bool v)) (TypeError (to_u16 pc)))"

definition peek_is_true :: "opstack \<Rightarrow> nat \<Rightarrow> eval_error + bool" where
  "peek_is_true st pc = and_then (peek st pc) (\<lambda>v. ok_or (as_bool v) (TypeError (to_u16 pc)))"

section \<open>Operators\<close>

definition starts_with :: "bytes \<Rightarrow> bytes \<Rightarrow> bool" where
  "starts_with a b \<longleftrightarrow> length b \<le> length a \<and> take (length b) a = b"

definition ends_with :: "bytes \<Rightarrow> bytes \<Rightarrow> bool" where
  "ends_with a b \<longleftrightarrow> length b \<le> length a \<and> drop (length a - length b) a = b"

definition ascii_eq_ignore_case :: "bytes \<Rightarrow> bytes \<Rightarrow> bool" where
  "ascii_eq_ignore_case a b \<longleftrightarrow>
     length a = length b \<and> list_all (\<lambda>(x, y). eq_ignore_ascii_case x y) (zip a b)"

definition ascii_starts_with_ignore_case :: "bytes \<Rightarrow> bytes \<Rightarrow> bool" where
  "ascii_starts_with_ignore_case a b =
     (case get_range a 0 (length b) of None \<Rightarrow> False | Some prefix \<Rightarrow> ascii_eq_ignore_case prefix b)"

fun const_to_value :: "'r program \<Rightarrow> const \<Rightarrow> val option" where
  "const_to_value p (Const_Bool b) = Some (V_Bool b)"
| "const_to_value p (Const_Int v) = Some (V_Int v)"
| "const_to_value p (Const_Str from len) = Some (V_Str (const_str p (Const_Str from len)))"
| "const_to_value p Const_Null = Some V_Null"
| "const_to_value p (Const_List _ _) = None"

definition const_value :: "'r program \<Rightarrow> nat \<Rightarrow> val option" where
  "const_value p n = Option.bind (get (p_consts p) n) (const_to_value p)"

text \<open>The shared shape of the five arms that pop two strings.\<close>

definition str_arm ::
  "(bytes \<Rightarrow> bytes \<Rightarrow> bool) \<Rightarrow> opstack \<Rightarrow> nat \<Rightarrow> eval_error + opstack" where
  "str_arm f st pc =
     and_then (pop_str_or_null st pc) (\<lambda>(b, st).
     and_then (pop_str_or_null st pc) (\<lambda>(a, st).
       push st pc (V_Bool (case (a, b) of (Some a, Some b) \<Rightarrow> f a b | _ \<Rightarrow> False))))"

definition eq_arm :: "(bool \<Rightarrow> bool) \<Rightarrow> opstack \<Rightarrow> nat \<Rightarrow> eval_error + opstack" where
  "eq_arm f st pc =
     and_then (pop st pc) (\<lambda>(b, st).
     and_then (pop st pc) (\<lambda>(a, st). push st pc (V_Bool (f (itpl_eq a b)))))"

definition int_arm :: "(int \<Rightarrow> int \<Rightarrow> bool) \<Rightarrow> opstack \<Rightarrow> nat \<Rightarrow> eval_error + opstack" where
  "int_arm f st pc =
     and_then (pop_int st pc) (\<lambda>(b, st).
     and_then (pop_int st pc) (\<lambda>(a, st). push st pc (V_Bool (f a b))))"

section \<open>The loop\<close>

text \<open>
  One arm of the match in \<^verbatim>\<open>eval\<close>, for every instruction but \<^verbatim>\<open>LoadAttr\<close>: an error, a returned
  value (\<open>Inl\<close>), or the stack and the next program counter (\<open>Inr\<close>). \<open>exec_op\<close> below
  dispatches \<^verbatim>\<open>LoadAttr\<close> itself, because it is the one arm that changes the environment.
\<close>

type_synonym arm_result = "eval_error + (val + opstack \<times> nat)"

definition fall :: "nat \<Rightarrow> eval_error + opstack \<Rightarrow> arm_result" where
  "fall pc r = and_then r (\<lambda>st. Inr (Inr (st, Suc pc)))"

fun exec_pure :: "'r crates \<Rightarrow> 'r program \<Rightarrow> op \<Rightarrow> opstack \<Rightarrow> nat \<Rightarrow> arm_result" where
  "exec_pure ext prog (Op_LoadAttr n) st pc = Inl (BadOperand n)"
| "exec_pure ext prog (Op_LoadConst n) st pc =
     fall pc (and_then (ok_or (const_value prog n) (BadOperand (to_u16 pc))) (push st pc))"
| "exec_pure ext prog Op_Eq st pc = fall pc (eq_arm (\<lambda>eq. eq) st pc)"
| "exec_pure ext prog Op_Ne st pc = fall pc (eq_arm (\<lambda>eq. \<not> eq) st pc)"
| "exec_pure ext prog Op_Lt st pc = fall pc (int_arm (<) st pc)"
| "exec_pure ext prog Op_Le st pc = fall pc (int_arm (\<le>) st pc)"
| "exec_pure ext prog Op_Gt st pc = fall pc (int_arm (>) st pc)"
| "exec_pure ext prog Op_Ge st pc = fall pc (int_arm (\<ge>) st pc)"
| "exec_pure ext prog (Op_InSet n) st pc =
     fall pc (and_then (pop st pc) (\<lambda>(a, st).
       and_then (ok_or (list_of prog n) (BadOperand (to_u16 pc))) (\<lambda>elems.
         push st pc (V_Bool (list_ex (\<lambda>v. itpl_eq v a) (List.map_filter (const_to_value prog) elems))))))"
| "exec_pure ext prog Op_StartsWith st pc = fall pc (str_arm starts_with st pc)"
| "exec_pure ext prog Op_EndsWith st pc = fall pc (str_arm ends_with st pc)"
| "exec_pure ext prog Op_Contains st pc =
     fall pc (str_arm (\<lambda>a b. memmem_find ext a b \<noteq> None) st pc)"
| "exec_pure ext prog Op_EqIgnoreCase st pc = fall pc (str_arm ascii_eq_ignore_case st pc)"
| "exec_pure ext prog Op_StartsWithIgnoreCase st pc =
     fall pc (str_arm ascii_starts_with_ignore_case st pc)"
| "exec_pure ext prog (Op_RegexMatch n) st pc =
     fall pc (and_then (pop_str_or_null st pc) (\<lambda>(a, st).
       and_then (ok_or (program_regex prog n) (BadOperand (to_u16 pc))) (\<lambda>re.
         push st pc (V_Bool (case a of None \<Rightarrow> False | Some s \<Rightarrow> regex_is_match ext re s)))))"
| "exec_pure ext prog Op_Size st pc =
     fall pc (and_then (pop st pc) (\<lambda>(a, st).
       (case a of
          V_Str s \<Rightarrow> push st pc (V_Int (min (int (length s)) i64_max))
        | _ \<Rightarrow> Inl (TypeError (to_u16 pc)))))"
| "exec_pure ext prog Op_Not st pc =
     fall pc (and_then (pop_bool st pc) (\<lambda>(a, st). push st pc (V_Bool (\<not> a))))"
| "exec_pure ext prog (Op_JumpIfFalse t) st pc =
     and_then (peek_is_false st pc) (\<lambda>taken.
       if taken then Inr (Inr (st, t)) else Inr (Inr (st\<lparr>sp := sp st - 1\<rparr>, Suc pc)))"
| "exec_pure ext prog (Op_JumpIfTrue t) st pc =
     and_then (peek_is_true st pc) (\<lambda>taken.
       if taken then Inr (Inr (st, t)) else Inr (Inr (st\<lparr>sp := sp st - 1\<rparr>, Suc pc)))"
| "exec_pure ext prog (Op_BranchIfFalse t) st pc =
     and_then (pop_bool st pc) (\<lambda>(cond, st).
       if \<not> cond then Inr (Inr (st, t)) else Inr (Inr (st, Suc pc)))"
| "exec_pure ext prog (Op_Jump t) st pc = Inr (Inr (st, t))"
| "exec_pure ext prog Op_Ret st pc =
     (if sp st = 1
      then and_then (ok_or (get (cells st) 0) (StackUnderflow (to_u16 pc))) (\<lambda>v. Inr (Inl v))
      else Inl (StackUnderflow (to_u16 pc)))"

definition exec_op ::
  "'r crates \<Rightarrow> 'r program \<Rightarrow> op \<Rightarrow> opstack \<Rightarrow> nat \<Rightarrow> env \<Rightarrow> arm_result \<times> env" where
  "exec_op ext prog op st pc env =
     (case op of
        Op_LoadAttr n \<Rightarrow>
          (let (r, env') = env_slot prog n env
           in (fall pc (and_then r (push st pc)), env'))
      | _ \<Rightarrow> (exec_pure ext prog op st pc, env))"

definition step_budget :: "'r program \<Rightarrow> nat" where
  "step_budget prog = to_u32 (length (p_ops prog))"

function eval_loop ::
  "'r crates \<Rightarrow> 'r program \<Rightarrow> nat \<Rightarrow> opstack \<Rightarrow> nat \<Rightarrow> env \<Rightarrow> (eval_error + val) \<times> env" where
  "eval_loop ext prog steps st pc env =
     (if step_budget prog < steps then (Inl (StepBudget steps), env)
      else (case get (p_ops prog) pc of
          None \<Rightarrow> (Inl (BadPc (to_u16 pc)), env)
        | Some op \<Rightarrow>
            (case exec_op ext prog op st pc env of
               (Inl e, env') \<Rightarrow> (Inl e, env')
             | (Inr (Inl v), env') \<Rightarrow> (Inr v, env')
             | (Inr (Inr (st', pc')), env') \<Rightarrow> eval_loop ext prog (Suc steps) st' pc' env')))"
  by pat_completeness auto
termination
  by (relation "measure (\<lambda>(ext, prog, steps, st, pc, env). Suc (step_budget prog) - steps)") auto

declare eval_loop.simps [simp del]

definition eval :: "'r crates \<Rightarrow> 'r program \<Rightarrow> env \<Rightarrow> (eval_error + val) \<times> env" where
  "eval ext prog env = eval_loop ext prog 0 stack_init 0 env"

section \<open>The operand stack as an interface\<close>

text \<open>
  What the arms of the evaluator rely on: \<open>stk\<close> reads the stack as a list, a push with room
  left conses, a pop on a non-empty stack uncons. The arms' behaviour is proved once from
  these laws.
\<close>

locale operand_stack =
  fixes pushf :: "'s \<Rightarrow> nat \<Rightarrow> val \<Rightarrow> 'e + 's"
    and popf :: "'s \<Rightarrow> nat \<Rightarrow> 'e + val \<times> 's"
    and stk :: "'s \<Rightarrow> val list"
    and ok :: "'s \<Rightarrow> bool"
    and cap :: nat
  assumes push_room: "ok s \<Longrightarrow> length (stk s) < cap \<Longrightarrow>
      \<exists>s'. pushf s pc v = Inr s' \<and> ok s' \<and> stk s' = v # stk s"
    and pop_cons: "ok s \<Longrightarrow> stk s = v # vs \<Longrightarrow> \<exists>s'. popf s pc = Inr (v, s') \<and> ok s' \<and> stk s' = vs"
    and bounded: "ok s \<Longrightarrow> length (stk s) \<le> cap"
begin

lemma pop_push:
  assumes "ok s" and "stk s = a # vs"
  shows "\<exists>s'. and_then (popf s pc) (\<lambda>(a, s). pushf s pc (f a)) = Inr s' \<and> ok s' \<and> stk s' = f a # vs"
proof -
  obtain s1 where s1: "popf s pc = Inr (a, s1)" "ok s1" "stk s1 = vs"
    using pop_cons [OF assms] by blast
  have "length (stk s1) < cap" using bounded [OF assms(1)] assms(2) s1(3) by simp
  with push_room [OF s1(2)] s1 show ?thesis by auto
qed

lemma pop2_push:
  assumes "ok s" and "stk s = b # a # vs"
  shows "\<exists>s'. and_then (popf s pc) (\<lambda>(b, s). and_then (popf s pc) (\<lambda>(a, s). pushf s pc (f a b))) = Inr s'
    \<and> ok s' \<and> stk s' = f a b # vs"
proof -
  obtain s1 where s1: "popf s pc = Inr (b, s1)" "ok s1" "stk s1 = a # vs"
    using pop_cons [OF assms] by blast
  from pop_push [OF s1(2,3), of pc "\<lambda>a. f a b"] s1(1) show ?thesis by simp
qed

end

definition stack_list :: "opstack \<Rightarrow> val list" where
  "stack_list st = rev (take (sp st) (cells st))"

definition stack_ok :: "opstack \<Rightarrow> bool" where
  "stack_ok st \<longleftrightarrow> length (cells st) = MAX_STACK \<and> sp st \<le> MAX_STACK"

lemma stack_list_length: "stack_ok st \<Longrightarrow> length (stack_list st) = sp st"
  by (simp add: stack_list_def stack_ok_def)

lemma stack_list_Cons:
  assumes "stack_ok st" and "stack_list st = v # vs"
  shows "0 < sp st" and "cells st ! (sp st - 1) = v" and "stack_list (st\<lparr>sp := sp st - 1\<rparr>) = vs"
    and "stack_ok (st\<lparr>sp := sp st - 1\<rparr>)"
proof -
  show pos: "0 < sp st" using stack_list_length [OF assms(1)] assms(2) by (cases "sp st") auto
  then obtain n where n: "sp st = Suc n" by (cases "sp st") auto
  have "n < length (cells st)" using assms(1) n by (simp add: stack_ok_def)
  then have "stack_list st = cells st ! n # rev (take n (cells st))"
    by (simp add: stack_list_def n take_Suc_conv_app_nth)
  with assms(2) n show "cells st ! (sp st - 1) = v" "stack_list (st\<lparr>sp := sp st - 1\<rparr>) = vs"
    by (auto simp: stack_list_def)
  show "stack_ok (st\<lparr>sp := sp st - 1\<rparr>)" using assms(1) by (auto simp: stack_ok_def)
qed

interpretation os: operand_stack push pop stack_list stack_ok MAX_STACK
proof
  fix s :: opstack and pc v vs
  show "\<exists>s'. push s pc v = Inr s' \<and> stack_ok s' \<and> stack_list s' = v # stack_list s"
    if "stack_ok s" "length (stack_list s) < MAX_STACK"
    using that by (simp add: push_def stack_list_length)
      (simp add: stack_ok_def stack_list_def take_Suc_conv_app_nth)
  show "\<exists>s'. pop s pc = Inr (v, s') \<and> stack_ok s' \<and> stack_list s' = vs"
    if "stack_ok s" "stack_list s = v # vs"
    using stack_list_Cons [OF that] that(1) by (auto simp: pop_def Let_def stack_ok_def)
  show "length (stack_list s) \<le> MAX_STACK" if "stack_ok s"
    using that by (simp add: stack_list_length stack_ok_def)
qed

lemma stack_init_ok [simp]: "stack_ok stack_init" "stack_list stack_init = []"
  by (simp_all add: stack_ok_def stack_init_def stack_list_def)

end
