(* ===== verification/Policy_Machine.thy ===== *)
theory Policy_Machine
  imports Policy_VM
begin

text \<open>
  The abstract machine of the evaluator: the operand stack is a list, attribute slots are
  read directly (no cache), there is no step budget. The lemmas show that \<open>exec_op\<close>, on the
  fixed array and through the slot cache, refines its step for every instruction that has
  its operands, and that the slot cache is transparent.
\<close>

section \<open>The abstract step\<close>

fun int_sem :: "(int \<Rightarrow> int \<Rightarrow> bool) \<Rightarrow> val \<Rightarrow> val \<Rightarrow> val option" where
  "int_sem f (V_Int a) (V_Int b) = Some (V_Bool (f a b))"
| "int_sem f _ _ = None"

fun str_or_null :: "val \<Rightarrow> bytes option option" where
  "str_or_null (V_Str s) = Some (Some s)"
| "str_or_null V_Null = Some None"
| "str_or_null _ = None"

definition str_sem :: "(bytes \<Rightarrow> bytes \<Rightarrow> bool) \<Rightarrow> val \<Rightarrow> val \<Rightarrow> val option" where
  "str_sem f a b =
     (case (str_or_null a, str_or_null b) of
        (Some (Some x), Some (Some y)) \<Rightarrow> Some (V_Bool (f x y))
      | (Some _, Some _) \<Rightarrow> Some (V_Bool False)
      | _ \<Rightarrow> None)"

definition not_sem :: "val \<Rightarrow> val option" where
  "not_sem a = map_option (\<lambda>b. V_Bool (\<not> b)) (as_bool a)"

definition size_sem :: "val \<Rightarrow> val option" where
  "size_sem a = map_option (\<lambda>s. V_Int (min (int (length s)) i64_max)) (as_str a)"

definition match_sem :: "(bytes \<Rightarrow> bool) \<Rightarrow> val \<Rightarrow> val option" where
  "match_sem f a = map_option (\<lambda>s. V_Bool (case s of None \<Rightarrow> False | Some s \<Rightarrow> f s)) (str_or_null a)"

definition elem_sem :: "'r program \<Rightarrow> const list \<Rightarrow> val \<Rightarrow> val" where
  "elem_sem p elems a = V_Bool (a \<in> set (List.map_filter (const_to_value p) elems))"

text \<open>The meaning of the instructions that take two operands.\<close>

fun bin_sem :: "'r crates \<Rightarrow> op \<Rightarrow> val \<Rightarrow> val \<Rightarrow> val option" where
  "bin_sem ext Op_Eq a b = Some (V_Bool (a = b))"
| "bin_sem ext Op_Ne a b = Some (V_Bool (a \<noteq> b))"
| "bin_sem ext Op_Lt a b = int_sem (<) a b"
| "bin_sem ext Op_Le a b = int_sem (\<le>) a b"
| "bin_sem ext Op_Gt a b = int_sem (>) a b"
| "bin_sem ext Op_Ge a b = int_sem (\<ge>) a b"
| "bin_sem ext Op_StartsWith a b = str_sem starts_with a b"
| "bin_sem ext Op_EndsWith a b = str_sem ends_with a b"
| "bin_sem ext Op_Contains a b = str_sem (\<lambda>a b. memmem_find ext a b \<noteq> None) a b"
| "bin_sem ext Op_EqIgnoreCase a b = str_sem ascii_eq_ignore_case a b"
| "bin_sem ext Op_StartsWithIgnoreCase a b = str_sem ascii_starts_with_ignore_case a b"
| "bin_sem ext _ a b = None"

definition is_bin :: "op \<Rightarrow> bool" where
  "is_bin op \<longleftrightarrow> fst (effect op) = 2"

text \<open>The meaning of the instructions that take one operand and fall through.\<close>

fun un_sem :: "'r crates \<Rightarrow> 'r program \<Rightarrow> op \<Rightarrow> val \<Rightarrow> val option" where
  "un_sem ext p (Op_InSet n) a =
     (case list_of p n of None \<Rightarrow> None | Some elems \<Rightarrow> Some (elem_sem p elems a))"
| "un_sem ext p (Op_RegexMatch n) a =
     (case program_regex p n of None \<Rightarrow> None | Some re \<Rightarrow> match_sem (regex_is_match ext re) a)"
| "un_sem ext p Op_Size a = size_sem a"
| "un_sem ext p Op_Not a = not_sem a"
| "un_sem ext p _ a = None"

definition or_type_error :: "nat \<Rightarrow> 'a option \<Rightarrow> eval_error + 'a" where
  "or_type_error pc x = ok_or x (TypeError (to_u16 pc))"

text \<open>
  One step on a list stack, for instructions that have their operands; \<open>sv\<close> gives the value
  of every attribute slot.
\<close>

definition astep ::
  "'r crates \<Rightarrow> 'r program \<Rightarrow> (nat \<Rightarrow> val) \<Rightarrow> op \<Rightarrow> nat \<Rightarrow> val list \<Rightarrow> eval_error + (val + val list \<times> nat)" where
  "astep ext p sv op pc vs =
     (case op of
        Op_LoadAttr n \<Rightarrow> Inr (Inr (sv n # vs, Suc pc))
      | Op_LoadConst n \<Rightarrow>
          and_then (ok_or (const_value p n) (BadOperand (to_u16 pc))) (\<lambda>v. Inr (Inr (v # vs, Suc pc)))
      | Op_JumpIfFalse t \<Rightarrow>
          and_then (or_type_error pc (as_bool (hd vs))) (\<lambda>b.
            Inr (Inr (if b then (tl vs, Suc pc) else (vs, t))))
      | Op_JumpIfTrue t \<Rightarrow>
          and_then (or_type_error pc (as_bool (hd vs))) (\<lambda>b.
            Inr (Inr (if b then (vs, t) else (tl vs, Suc pc))))
      | Op_BranchIfFalse t \<Rightarrow>
          and_then (or_type_error pc (as_bool (hd vs))) (\<lambda>b.
            Inr (Inr (if b then (tl vs, Suc pc) else (tl vs, t))))
      | Op_Jump t \<Rightarrow> Inr (Inr (vs, t))
      | Op_Ret \<Rightarrow> Inr (Inl (hd vs))
      | _ \<Rightarrow>
          if is_bin op
          then and_then (or_type_error pc (bin_sem ext op (hd (tl vs)) (hd vs))) (\<lambda>v.
                 Inr (Inr (v # tl (tl vs), Suc pc)))
          else and_then (or_type_error pc (un_sem ext p op (hd vs))) (\<lambda>v.
                 Inr (Inr (v # tl vs, Suc pc))))"

lemma is_bin_simps [simp]:
  "is_bin Op_Eq" "is_bin Op_Ne" "is_bin Op_Lt" "is_bin Op_Le" "is_bin Op_Gt" "is_bin Op_Ge"
  "is_bin Op_StartsWith" "is_bin Op_EndsWith" "is_bin Op_Contains" "is_bin Op_EqIgnoreCase"
  "is_bin Op_StartsWithIgnoreCase"
  "\<not> is_bin Op_Not" "\<not> is_bin Op_Size" "\<not> is_bin (Op_InSet n)" "\<not> is_bin (Op_RegexMatch n)"
  by (simp_all add: is_bin_def)

section \<open>The arms refine the abstract step\<close>

text \<open>\<open>arm_ok r st pc a\<close>: the concrete arm result \<open>r\<close> agrees with the abstract one \<open>a\<close>.\<close>

definition arm_agrees :: "arm_result \<Rightarrow> eval_error + (val + val list \<times> nat) \<Rightarrow> bool" where
  "arm_agrees r a =
     (case a of
        Inl e \<Rightarrow> r = Inl e
      | Inr (Inl v) \<Rightarrow> r = Inr (Inl v)
      | Inr (Inr (vs, pc)) \<Rightarrow> \<exists>st. r = Inr (Inr (st, pc)) \<and> stack_ok st \<and> stack_list st = vs)"

lemma arm_agrees_fall:
  assumes "\<exists>st. r = Inr st \<and> stack_ok st \<and> stack_list st = vs"
  shows "arm_agrees (fall pc r) (Inr (Inr (vs, Suc pc)))"
  using assms by (auto simp: arm_agrees_def fall_def)

lemma pop_Cons:
  assumes "stack_ok st" and "stack_list st = v # vs"
  obtains st' where "pop st pc = Inr (v, st')" "stack_ok st'" "stack_list st' = vs"
  using os.pop_cons [OF assms] by blast

lemma push_after_pop:
  assumes "stack_ok st" and "stack_list st = vs" and "length vs < MAX_STACK"
  obtains st' where "push st pc v = Inr st'" "stack_ok st'" "stack_list st' = v # vs"
  using os.push_room [OF assms(1), of pc v] assms(2,3) by auto

lemma un_pops:
  assumes "stack_ok st" and "stack_list st = a # vs"
  shows "\<exists>st1. pop st pc = Inr (a, st1) \<and>
    (\<forall>v. \<exists>st'. push st1 pc v = Inr st' \<and> stack_ok st' \<and> stack_list st' = v # vs)"
proof -
  from assms obtain st1 where st1: "pop st pc = Inr (a, st1)" "stack_ok st1" "stack_list st1 = vs"
    by (rule pop_Cons)
  have "length (stack_list st1) < MAX_STACK"
    using os.bounded [OF assms(1)] assms(2) st1(3) by simp
  with os.push_room [OF st1(2), of pc] st1 show ?thesis by auto
qed

lemma bin_pops:
  assumes "stack_ok st" and "stack_list st = b # a # vs"
  shows "\<exists>st1 st2. pop st pc = Inr (b, st1) \<and> pop st1 pc = Inr (a, st2) \<and>
    (\<forall>v. \<exists>st'. push st2 pc v = Inr st' \<and> stack_ok st' \<and> stack_list st' = v # vs)"
proof -
  from assms obtain st1 where st1: "pop st pc = Inr (b, st1)" "stack_ok st1" "stack_list st1 = a # vs"
    by (rule pop_Cons)
  with un_pops [OF st1(2,3), of pc] show ?thesis by blast
qed

named_theorems arm_defs \<open>unfoldings that reduce an arm of the evaluator to pops and pushes\<close>

lemmas [arm_defs] = eq_arm_def int_arm_def str_arm_def pop_int_def pop_bool_def pop_str_or_null_def
  or_type_error_def fall_def arm_agrees_def

lemma eq_arm_agrees:
  assumes "stack_ok st" and "stack_list st = b # a # vs"
  shows "arm_agrees (fall pc (eq_arm f st pc)) (Inr (Inr (V_Bool (f (a = b)) # vs, Suc pc)))"
proof -
  from assms obtain st1 st2 where pops: "pop st pc = Inr (b, st1)" "pop st1 pc = Inr (a, st2)"
    and push: "\<And>v. \<exists>st'. push st2 pc v = Inr st' \<and> stack_ok st' \<and> stack_list st' = v # vs"
    using bin_pops [OF assms] by metis
  from pops push [of "V_Bool (f (a = b))"] show ?thesis by (auto simp: arm_defs itpl_eq_iff)
qed

lemma int_arm_agrees:
  assumes "stack_ok st" and "stack_list st = b # a # vs"
  shows "arm_agrees (fall pc (int_arm f st pc))
    (and_then (or_type_error pc (int_sem f a b)) (\<lambda>v. Inr (Inr (v # vs, Suc pc))))"
proof -
  from assms obtain st1 st2 where pops: "pop st pc = Inr (b, st1)" "pop st1 pc = Inr (a, st2)"
    and push: "\<And>v. \<exists>st'. push st2 pc v = Inr st' \<and> stack_ok st' \<and> stack_list st' = v # vs"
    using bin_pops [OF assms] by metis
  show ?thesis
  proof (cases "int_sem f a b")
    case None
    with pops show ?thesis by (cases a; cases b) (simp_all add: arm_defs)
  next
    case (Some v)
    with pops push [of v] show ?thesis by (cases a; cases b) (auto simp: arm_defs)
  qed
qed

lemma str_arm_agrees:
  assumes "stack_ok st" and "stack_list st = b # a # vs"
  shows "arm_agrees (fall pc (str_arm f st pc))
    (and_then (or_type_error pc (str_sem f a b)) (\<lambda>v. Inr (Inr (v # vs, Suc pc))))"
proof -
  from assms obtain st1 st2 where pops: "pop st pc = Inr (b, st1)" "pop st1 pc = Inr (a, st2)"
    and push: "\<And>v. \<exists>st'. push st2 pc v = Inr st' \<and> stack_ok st' \<and> stack_list st' = v # vs"
    using bin_pops [OF assms] by metis
  show ?thesis
  proof (cases "str_sem f a b")
    case None
    with pops show ?thesis by (cases a; cases b) (simp_all add: arm_defs str_sem_def)
  next
    case (Some v)
    with pops push [of v] show ?thesis by (cases a; cases b) (auto simp: arm_defs str_sem_def)
  qed
qed

lemma list_ex_elem_sem:
  "V_Bool (list_ex (\<lambda>v. itpl_eq v a) (List.map_filter (const_to_value p) elems)) = elem_sem p elems a"
  by (auto simp: elem_sem_def itpl_eq_iff list_ex_iff)

lemma un_arm_agrees:
  assumes st: "stack_ok st" "stack_list st = a # vs"
    and op: "fst (effect op) = 1" "snd (effect op) = 1"
    and chk: "check_operand op at (p_consts p) (p_slots p) (length (p_regexes p)) = Inr ()"
  shows "arm_agrees (exec_pure ext p op st pc)
    (and_then (or_type_error pc (un_sem ext p op a)) (\<lambda>v. Inr (Inr (v # vs, Suc pc))))"
proof -
  from st obtain st1 where pops: "pop st pc = Inr (a, st1)"
    and push: "\<And>v. \<exists>st'. push st1 pc v = Inr st' \<and> stack_ok st' \<and> stack_list st' = v # vs"
    using un_pops [OF st] by metis
  have "un_sem ext p op a = None \<Longrightarrow> exec_pure ext p op st pc = Inl (TypeError (to_u16 pc))"
    using op chk pops
    by (cases op; cases a)
      (auto simp: arm_defs list_of_def program_regex_def not_sem_def size_sem_def match_sem_def
        split: option.splits const.splits if_splits)
  moreover have "exec_pure ext p op st pc = fall pc (push st1 pc v)" if "un_sem ext p op a = Some v" for v
    using op chk pops that
    by (cases op; cases a)
      (auto simp: arm_defs list_of_def program_regex_def not_sem_def size_sem_def match_sem_def
        list_ex_elem_sem split: option.splits const.splits if_splits)
  ultimately show ?thesis
    using arm_agrees_fall [OF push]
    by (cases "un_sem ext p op a") (simp_all add: or_type_error_def arm_agrees_def [of _ "Inl _"])
qed

section \<open>The slot cache is transparent\<close>

definition slot_value :: "'r program \<Rightarrow> attr_source \<Rightarrow> nat \<Rightarrow> val" where
  "slot_value p src i =
     (case p_slots p ! i of
        Scalar a \<Rightarrow> scalar src a
      | Field m key \<Rightarrow>
          (case field src m (key_bytes p key) of Present b \<Rightarrow> V_Str b | _ \<Rightarrow> V_Null))"

definition slot_duplicated :: "'r program \<Rightarrow> attr_source \<Rightarrow> nat \<Rightarrow> bool" where
  "slot_duplicated p src i =
     (case p_slots p ! i of
        Scalar a \<Rightarrow> False
      | Field m key \<Rightarrow> field src m (key_bytes p key) = Duplicate)"

text \<open>The resolved slots whose header occurs more than once.\<close>

definition dup_slots :: "'r program \<Rightarrow> attr_source \<Rightarrow> val option list \<Rightarrow> nat set" where
  "dup_slots p src slots = {i. i < length slots \<and> slots ! i \<noteq> None \<and> slot_duplicated p src i}"

text \<open>\<open>c\<close> is the value of the process counter of duplicate headers before the evaluation.\<close>

definition env_ok :: "'r program \<Rightarrow> attr_source \<Rightarrow> 64 word \<Rightarrow> env \<Rightarrow> bool" where
  "env_ok p src c env \<longleftrightarrow>
     e_src env = src \<and> length (e_slots env) = MAX_SLOTS \<and>
     e_used env = length (p_slots p) \<and> length (p_slots p) \<le> MAX_SLOTS \<and>
     (\<forall>i < MAX_SLOTS. \<forall>v. e_slots env ! i = Some v \<longrightarrow> i < length (p_slots p) \<and> v = slot_value p src i) \<and>
     (e_saw_duplicate env \<longleftrightarrow> dup_slots p src (e_slots env) \<noteq> {}) \<and>
     e_dup_count env = c + of_nat (card (dup_slots p src (e_slots env)))"

lemma env_ok_new:
  "length (p_slots p) \<le> MAX_SLOTS \<Longrightarrow> env_ok p src c (env_new src (length (p_slots p)) c)"
proof -
  have "dup_slots p src (replicate MAX_SLOTS None) = {}" by (auto simp: dup_slots_def)
  then show "length (p_slots p) \<le> MAX_SLOTS \<Longrightarrow> env_ok p src c (env_new src (length (p_slots p)) c)"
    by (simp add: env_ok_def env_new_def)
qed

lemma dup_slots_fresh:
  assumes "n < length slots" and "slots ! n = None"
  shows "dup_slots p src (slots[n := Some v]) =
      (if slot_duplicated p src n then insert n (dup_slots p src slots) else dup_slots p src slots)"
    and "n \<notin> dup_slots p src slots" and "finite (dup_slots p src slots)"
  using assms by (auto simp: dup_slots_def nth_list_update split: if_splits)

lemma resolve_ref_value:
  assumes "resolve_ref p env (p_slots p ! n) = (v, env')"
  shows "v = slot_value p (e_src env) n" and "e_slots env' = e_slots env"
    and "e_used env' = e_used env" and "e_src env' = e_src env"
    and "e_saw_duplicate env' \<longleftrightarrow> e_saw_duplicate env \<or> slot_duplicated p (e_src env) n"
    and "e_dup_count env' = e_dup_count env + (if slot_duplicated p (e_src env) n then 1 else 0)"
  using assms
  by (auto simp: resolve_ref_def slot_value_def slot_duplicated_def record_duplicate_header_def
      split: attr_ref.splits field_outcome.splits)

lemma env_slot_ok:
  assumes ok: "env_ok p src c env" and n: "n < length (p_slots p)"
  shows "\<exists>env'. env_slot p n env = (Inr (slot_value p src n), env') \<and> env_ok p src c env'"
proof -
  have len: "length (e_slots env) = MAX_SLOTS" "e_used env = length (p_slots p)" "n < MAX_SLOTS"
    and src: "e_src env = src"
    using ok n by (auto simp: env_ok_def)
  show ?thesis
  proof (cases "e_slots env ! n")
    case (Some v)
    with ok n len show ?thesis by (auto simp: env_slot_def env_ok_def)
  next
    case None
    obtain v env1 where res: "resolve_ref p env (p_slots p ! n) = (v, env1)" by fastforce
    note r = resolve_ref_value [OF res]
    let ?slots = "(e_slots env)[n := Some v]"
    let ?env' = "env1\<lparr>e_slots := ?slots\<rparr>"
    have slot: "env_slot p n env = (Inr v, ?env')"
      using None n len res r(2) by (simp add: env_slot_def set_at_def)
    have nn: "n < length (e_slots env)" using len by simp
    note fresh = dup_slots_fresh [OF nn None, of p src]
    have "e_saw_duplicate ?env' \<longleftrightarrow> dup_slots p src ?slots \<noteq> {}"
      using ok r(5) src fresh(1) by (auto simp: env_ok_def)
    moreover have "e_dup_count ?env' = c + of_nat (card (dup_slots p src ?slots))"
      using ok r(6) src fresh by (simp add: env_ok_def)
    ultimately have "env_ok p src c ?env'"
      using ok r len n src by (auto simp: env_ok_def nth_list_update)
    with slot r(1) src show ?thesis by auto
  qed
qed

section \<open>One step of the evaluator refines the abstract step\<close>

text \<open>The static facts the verifier gives at an instruction, on a stack of the depth it
  computed.\<close>

definition operands_ready :: "'r program \<Rightarrow> op \<Rightarrow> nat \<Rightarrow> val list \<Rightarrow> bool" where
  "operands_ready p op pc vs \<longleftrightarrow>
     check_operand op pc (p_consts p) (p_slots p) (length (p_regexes p)) = Inr () \<and>
     fst (effect op) \<le> int (length vs) \<and> depth_after op (int (length vs)) \<le> int MAX_STACK \<and>
     (op = Op_Ret \<longrightarrow> length vs = 1)"

lemma peek_Cons:
  assumes "stack_ok st" and "stack_list st = v # vs"
  shows "peek st pc = Inr v"
  using stack_list_Cons [OF assms] assms(1) by (auto simp: peek_def stack_ok_def)

lemma length_1_Cons: "1 \<le> length vs \<Longrightarrow> \<exists>v vs'. vs = v # vs'"
  by (cases vs) auto

lemma length_2_Cons: "2 \<le> length vs \<Longrightarrow> \<exists>b a vs'. vs = b # a # vs'"
  by (cases vs; cases "tl vs") auto

lemma jump_arms_agree:
  assumes st: "stack_ok st" "stack_list st = v # vs"
  shows "arm_agrees (exec_pure ext p (Op_JumpIfFalse t) st pc) (astep ext p sv (Op_JumpIfFalse t) pc (v # vs))"
    and "arm_agrees (exec_pure ext p (Op_JumpIfTrue t) st pc) (astep ext p sv (Op_JumpIfTrue t) pc (v # vs))"
    and "arm_agrees (exec_pure ext p (Op_BranchIfFalse t) st pc) (astep ext p sv (Op_BranchIfFalse t) pc (v # vs))"
proof -
  note c = stack_list_Cons [OF st]
  have pop: "pop st pc = Inr (v, st\<lparr>sp := sp st - 1\<rparr>)"
    using c st(1) by (auto simp: pop_def Let_def stack_ok_def)
  note peek = peek_Cons [OF st, of pc]
  show "arm_agrees (exec_pure ext p (Op_JumpIfFalse t) st pc) (astep ext p sv (Op_JumpIfFalse t) pc (v # vs))"
    using peek c(3,4) st by (cases v) (auto simp: astep_def peek_is_false_def arm_defs)
  show "arm_agrees (exec_pure ext p (Op_JumpIfTrue t) st pc) (astep ext p sv (Op_JumpIfTrue t) pc (v # vs))"
    using peek c(3,4) st by (cases v) (auto simp: astep_def peek_is_true_def arm_defs)
  show "arm_agrees (exec_pure ext p (Op_BranchIfFalse t) st pc) (astep ext p sv (Op_BranchIfFalse t) pc (v # vs))"
    using pop c(3,4) by (cases v) (auto simp: astep_def arm_defs)
qed

lemma load_agrees:
  assumes "stack_ok st" and "length (stack_list st) < MAX_STACK"
  shows "arm_agrees (fall pc (push st pc v)) (Inr (Inr (v # stack_list st, Suc pc)))"
  using os.push_room [OF assms] by (intro arm_agrees_fall)

lemma bin_arm_agrees:
  assumes st: "stack_ok st" "stack_list st = b # a # vs" and op: "is_bin op"
  shows "arm_agrees (exec_pure ext p op st pc)
    (and_then (or_type_error pc (bin_sem ext op a b)) (\<lambda>v. Inr (Inr (v # vs, Suc pc))))"
  using op eq_arm_agrees [OF st] int_arm_agrees [OF st] str_arm_agrees [OF st]
  by (cases op) (simp_all add: is_bin_def or_type_error_def)

lemma exec_op_agrees:
  assumes st: "stack_ok st" and env: "env_ok p src c env"
    and ready: "operands_ready p op pc (stack_list st)"
  obtains r env' where "exec_op ext p op st pc env = (r, env')" "env_ok p src c env'"
    "arm_agrees r (astep ext p (slot_value p src) op pc (stack_list st))"
proof (cases "\<exists>n. op = Op_LoadAttr n")
  case True
  then obtain n where op: "op = Op_LoadAttr n" ..
  with ready have n: "n < length (p_slots p)" and room: "length (stack_list st) < MAX_STACK"
    by (auto simp: operands_ready_def split: if_splits)
  from env_slot_ok [OF env n] obtain env' where
    "env_slot p n env = (Inr (slot_value p src n), env')" "env_ok p src c env'" by blast
  with op that load_agrees [OF st room] show ?thesis by (simp add: exec_op_def astep_def)
next
  case False
  have "arm_agrees (exec_pure ext p op st pc) (astep ext p (slot_value p src) op pc (stack_list st))"
  proof (cases "is_bin op")
    case True
    then have "2 \<le> length (stack_list st)"
      using ready by (auto simp: operands_ready_def is_bin_def)
    then obtain b a vs where vs: "stack_list st = b # a # vs" using length_2_Cons by blast
    have "astep ext p (slot_value p src) op pc (b # a # vs) =
        and_then (or_type_error pc (bin_sem ext op a b)) (\<lambda>v. Inr (Inr (v # vs, Suc pc)))"
      using True by (cases op) (auto simp: astep_def is_bin_def)
    with bin_arm_agrees [OF st vs True] vs show ?thesis by simp
  next
    case nbin: False
    show ?thesis
    proof (cases "fst (effect op) = 1")
      case True
      then have "1 \<le> length (stack_list st)" using ready by (auto simp: operands_ready_def)
      then obtain v vs where vs: "stack_list st = v # vs" using length_1_Cons by blast
      have chk: "check_operand op pc (p_consts p) (p_slots p) (length (p_regexes p)) = Inr ()"
        using ready by (simp add: operands_ready_def)
      show ?thesis
      proof (cases "snd (effect op) = 1")
        case one: True
        have "astep ext p (slot_value p src) op pc (v # vs) =
            and_then (or_type_error pc (un_sem ext p op v)) (\<lambda>v. Inr (Inr (v # vs, Suc pc)))"
          using True one by (cases op) (auto simp: astep_def)
        with un_arm_agrees [OF st vs True one chk] vs show ?thesis by simp
      next
        case False
        with True jump_arms_agree [OF st vs] vs show ?thesis by (cases op) auto
      qed
    next
      case False
      have nil: "op = Op_Ret \<Longrightarrow> \<exists>v. stack_list st = [v]"
        using ready by (auto simp: operands_ready_def length_Suc_conv)
      consider n where "op = Op_LoadConst n" | t where "op = Op_Jump t" | "op = Op_Ret"
        using False nbin \<open>\<nexists>n. op = Op_LoadAttr n\<close> by (cases op) auto
      then show ?thesis
      proof cases
        case (1 n)
        with ready load_agrees [OF st] show ?thesis
          by (cases "const_value p n") (auto simp: operands_ready_def astep_def arm_agrees_def fall_def)
      next
        case (2 t)
        with st show ?thesis by (auto simp: astep_def arm_agrees_def)
      next
        case 3
        then obtain v where v: "stack_list st = [v]" using nil by blast
        have "sp st = 1" "cells st ! 0 = v"
          using stack_list_Cons(2) [OF st v] stack_list_length [OF st] v by auto
        with 3 v st show ?thesis by (simp add: astep_def arm_agrees_def stack_ok_def MAX_STACK_def)
      qed
    qed
  qed
  moreover have "exec_op ext p op st pc env = (exec_pure ext p op st pc, env)"
    using False by (cases op) (auto simp: exec_op_def)
  ultimately show ?thesis using that env by blast
qed

end
