(* ===== verification/Policy_Examples.thy ===== *)
theory Policy_Examples
  imports Policy_VM "HOL-Library.Code_Target_Nat"
begin

text \<open>
  Concrete inputs the properties are instantiated at: a request binding, stand-ins for the
  third-party crates (a regex is its own pattern and matches the strings that contain it,
  \<^verbatim>\<open>memmem::find\<close> is the naive search), and a small program. \<^typ>\<open>nat\<close> is evaluated in binary here, so
  that the 32-bit bounds of the sources can be computed with.
\<close>

fun naive_find :: "nat \<Rightarrow> bytes \<Rightarrow> bytes \<Rightarrow> nat option" where
  "naive_find at hay needle =
     (if starts_with hay needle then Some at
      else case hay of [] \<Rightarrow> None | _ # rest \<Rightarrow> naive_find (Suc at) rest needle)"

definition demo_ext :: "bytes crates" where
  "demo_ext =
     \<lparr>regex_build = (\<lambda>pattern limit. if length pattern \<le> limit then Inr pattern else Inl ''too big''),
      regex_as_str = (\<lambda>re. re), regex_is_match = (\<lambda>re s. naive_find 0 s re \<noteq> None),
      memmem_find = naive_find 0\<rparr>"

text \<open>A GET request whose \<^verbatim>\<open>x-dup\<close> header occurs twice.\<close>

definition demo_src :: attr_source where
  "demo_src =
     \<lparr>scalar = (\<lambda>a. if a = RequestMethod then V_Str ''GET'' else if a = RequestPath then V_Str ''/api''
        else if a = RequestSize then V_Int 12 else if a = ConnectionTls then V_Bool True else V_Null),
      field = (\<lambda>m k. if k = ''x-dup'' then Duplicate else if k = ''host'' then Present ''example.org'' else Absent)\<rparr>"

text \<open>\<^verbatim>\<open>request.method == "GET" && request.headers.x-dup == null\<close>, as bytecode.\<close>

definition demo_prog :: "bytes program" where
  "demo_prog =
     \<lparr>p_ops = [Op_LoadAttr 0, Op_LoadConst 0, Op_Eq, Op_JumpIfFalse 7,
               Op_LoadAttr 1, Op_LoadConst 1, Op_Eq, Op_Ret],
      p_consts = [Const_Str 0 3, Const_Null], p_list_elems = [Const_Int 7],
      p_strings = ''GETx-dup'', p_slots = [Scalar RequestMethod, Field Map_RequestHeaders (mk_span 3 8)],
      p_regexes = [], p_result = Ty_Bool, p_phase = RequestHeaders, p_max_stack = 2\<rparr>"

end
