(* ===== verification/Policy_Safety.thy ===== *)
theory Policy_Safety
  imports Policy_Machine Policy_Examples
begin

text \<open>
  What the verifier buys the evaluator. Runs of the abstract machine are a step relation; a
  verified program only reaches states the verifier has foreseen, and \<open>eval\<close> follows the
  abstract run step by step. The safety, refinement, duplicate-header and stack-bound
  properties of the evaluator are consequences, and so is a declarative characterisation of
  the bytecode the verifier accepts.
\<close>

section \<open>Runs of the abstract machine\<close>

type_synonym astate = "val list \<times> nat"

inductive amove :: "'r crates \<Rightarrow> 'r program \<Rightarrow> (nat \<Rightarrow> val) \<Rightarrow> astate \<Rightarrow> astate \<Rightarrow> bool"
  for ext p sv where
  amove: "get (p_ops p) pc = Some op \<Longrightarrow> astep ext p sv op pc vs = Inr (Inr s') \<Longrightarrow>
     amove ext p sv (vs, pc) s'"

inductive ahalt :: "'r crates \<Rightarrow> 'r program \<Rightarrow> (nat \<Rightarrow> val) \<Rightarrow> astate \<Rightarrow> eval_error + val \<Rightarrow> bool"
  for ext p sv where
  error: "get (p_ops p) pc = Some op \<Longrightarrow> astep ext p sv op pc vs = Inl e \<Longrightarrow>
     ahalt ext p sv (vs, pc) (Inl e)"
| returned: "get (p_ops p) pc = Some op \<Longrightarrow> astep ext p sv op pc vs = Inr (Inl v) \<Longrightarrow>
     ahalt ext p sv (vs, pc) (Inr v)"

inductive_cases amoveE: "amove ext p sv (vs, pc) s'"
inductive_cases ahaltE: "ahalt ext p sv (vs, pc) r"

definition aruns :: "'r crates \<Rightarrow> 'r program \<Rightarrow> (nat \<Rightarrow> val) \<Rightarrow> astate \<Rightarrow> eval_error + val \<Rightarrow> bool" where
  "aruns ext p sv s r \<longleftrightarrow> (\<exists>s'. (amove ext p sv)\<^sup>*\<^sup>* s s' \<and> ahalt ext p sv s' r)"

lemma aruns_move: "amove ext p sv s s' \<Longrightarrow> aruns ext p sv s' r \<Longrightarrow> aruns ext p sv s r"
  unfolding aruns_def by (meson converse_rtranclp_into_rtranclp)

lemma aruns_moves: "(amove ext p sv)\<^sup>*\<^sup>* s s' \<Longrightarrow> aruns ext p sv s' r \<Longrightarrow> aruns ext p sv s r"
  unfolding aruns_def by (meson rtranclp_trans)

lemma aruns_halt: "ahalt ext p sv s r \<Longrightarrow> aruns ext p sv s r"
  unfolding aruns_def by blast

lemma aruns_unfold:
  assumes "get (p_ops p) pc = Some op"
  shows "aruns ext p sv (vs, pc) r \<longleftrightarrow>
    (case astep ext p sv op pc vs of
       Inl e \<Rightarrow> r = Inl e
     | Inr (Inl v) \<Rightarrow> r = Inr v
     | Inr (Inr s') \<Rightarrow> aruns ext p sv s' r)" (is "?L \<longleftrightarrow> ?R")
proof
  assume ?L
  then obtain s' where s': "(amove ext p sv)\<^sup>*\<^sup>* (vs, pc) s'" "ahalt ext p sv s' r"
    by (auto simp: aruns_def)
  from s'(1) show ?R
  proof (cases rule: converse_rtranclpE)
    case base
    with s'(2) assms show ?thesis by (auto elim!: ahaltE)
  next
    case (step y)
    then have "aruns ext p sv y r" using s'(2) unfolding aruns_def by blast
    with step(1) assms show ?thesis by (auto elim!: amoveE)
  qed
next
  assume ?R
  with ahalt.intros [OF assms] amove [OF assms] show ?L
    by (auto split: sum.splits intro: aruns_halt aruns_move [OF amove [OF assms]])
qed

section \<open>Verified programs\<close>

definition verified :: "'r program \<Rightarrow> int list \<Rightarrow> bool" where
  "verified p D \<longleftrightarrow> wt_code (p_ops p) (p_consts p) (p_slots p) (length (p_regexes p)) D"

text \<open>A state the verifier has foreseen.\<close>

definition foreseen :: "'r program \<Rightarrow> int list \<Rightarrow> astate \<Rightarrow> bool" where
  "foreseen p D s \<longleftrightarrow> snd s < length (p_ops p) \<and> int (length (fst s)) = D ! snd s"

lemma foreseen_start: "verified p D \<Longrightarrow> foreseen p D ([], 0)"
  by (auto simp: verified_def wt_code_def foreseen_def)

lemma foreseen_wt:
  assumes "verified p D" and "foreseen p D (vs, pc)"
  shows "operands_ready p (p_ops p ! pc) pc vs"
    and "\<And>t. jump_target (p_ops p ! pc) = Some t \<Longrightarrow>
      pc < t \<and> t < length (p_ops p) \<and> D ! t = depth_after_jump (p_ops p ! pc) (int (length vs))"
    and "p_ops p ! pc \<noteq> Op_Ret \<Longrightarrow> \<not> is_Jump (p_ops p ! pc) \<Longrightarrow>
      Suc pc < length (p_ops p) \<and> D ! Suc pc = depth_after (p_ops p ! pc) (int (length vs))"
proof -
  have "wt_instr (p_ops p) (p_consts p) (p_slots p) (length (p_regexes p)) D pc"
    and "0 \<le> D ! pc" and D: "D ! pc = int (length vs)"
    using assms by (auto simp: verified_def wt_code_def foreseen_def)
  then show "operands_ready p (p_ops p ! pc) pc vs"
    and "\<And>t. jump_target (p_ops p ! pc) = Some t \<Longrightarrow>
      pc < t \<and> t < length (p_ops p) \<and> D ! t = depth_after_jump (p_ops p ! pc) (int (length vs))"
    and "p_ops p ! pc \<noteq> Op_Ret \<Longrightarrow> \<not> is_Jump (p_ops p ! pc) \<Longrightarrow>
      Suc pc < length (p_ops p) \<and> D ! Suc pc = depth_after (p_ops p ! pc) (int (length vs))"
    by (auto simp: wt_instr_def operands_ready_def)
qed

text \<open>A step that continues goes to a later foreseen state.\<close>

lemma astep_foreseen:
  assumes v: "verified p D" and f: "foreseen p D (vs, pc)"
    and step: "astep ext p sv (p_ops p ! pc) pc vs = Inr (Inr (vs', pc'))"
  shows "pc < pc'" and "foreseen p D (vs', pc')"
proof -
  let ?op = "p_ops p ! pc"
  note wt = foreseen_wt [OF v f]
  have len: "fst (effect ?op) \<le> int (length vs)"
    using wt(1) by (simp add: operands_ready_def)
  have "jump_target ?op = Some pc' \<and> int (length vs') = depth_after_jump ?op (int (length vs)) \<or>
      pc' = Suc pc \<and> ?op \<noteq> Op_Ret \<and> \<not> is_Jump ?op \<and>
      int (length vs') = depth_after ?op (int (length vs))"
    using step len
    by (cases ?op) (auto simp: astep_def or_type_error_def and_then_Inr_iff ok_or_Inr_iff of_nat_diff
        split: if_splits)
  then show "pc < pc'" and "foreseen p D (vs', pc')"
    using wt(2) [of pc'] wt(3) by (auto simp: foreseen_def)
qed

text \<open>The only ways a step of a verified program fails: an operand of the wrong type, or a
  \<^verbatim>\<open>LoadConst\<close> of a list constant.\<close>

definition loads_list :: "'r program \<Rightarrow> nat \<Rightarrow> bool" where
  "loads_list p pc \<longleftrightarrow>
     (\<exists>n from len. p_ops p ! pc = Op_LoadConst n \<and> get (p_consts p) n = Some (Const_List from len))"

definition run_error :: "'r program \<Rightarrow> eval_error \<Rightarrow> bool" where
  "run_error p e \<longleftrightarrow>
     (\<exists>pc < length (p_ops p). e = TypeError (to_u16 pc) \<or> e = BadOperand (to_u16 pc) \<and> loads_list p pc)"

lemma const_to_value_None: "const_to_value p c = None \<longleftrightarrow> (\<exists>from len. c = Const_List from len)"
  by (cases c) auto

lemma astep_error:
  assumes v: "verified p D" and f: "foreseen p D (vs, pc)"
    and step: "astep ext p sv (p_ops p ! pc) pc vs = Inl e"
  shows "run_error p e"
proof -
  have pc: "pc < length (p_ops p)" using f by (simp add: foreseen_def)
  have "e = TypeError (to_u16 pc) \<or> e = BadOperand (to_u16 pc) \<and> loads_list p pc"
  proof (cases "\<exists>n. p_ops p ! pc = Op_LoadConst n")
    case True
    then obtain n where n: "p_ops p ! pc = Op_LoadConst n" ..
    then obtain c where c: "get (p_consts p) n = Some c"
      using foreseen_wt(1) [OF v f] by (auto simp: operands_ready_def split: if_splits)
    then have "const_to_value p c = None" "e = BadOperand (to_u16 pc)"
      using step n by (auto simp: astep_def const_value_def ok_or_def split: option.splits)
    with n c show ?thesis by (auto simp: loads_list_def const_to_value_None)
  next
    case False
    then have "e = TypeError (to_u16 pc)"
      using step by (cases "p_ops p ! pc")
        (auto simp: astep_def or_type_error_def ok_or_def split: option.splits if_splits)
    then show ?thesis ..
  qed
  with pc show ?thesis unfolding run_error_def by blast
qed

lemma eval_loop_runs:
  assumes v: "verified p D" and len: "length (p_ops p) \<le> u32_max"
    and st: "stack_ok st" and env: "env_ok p src c env" and steps: "steps \<le> pc"
    and f: "foreseen p D (stack_list st, pc)"
  shows "\<exists>r env'. eval_loop ext p steps st pc env = (r, env') \<and> env_ok p src c env' \<and>
    aruns ext p (slot_value p src) (stack_list st, pc) r \<and> (\<forall>e. r = Inl e \<longrightarrow> run_error p e)"
  using st env steps f
proof (induction "length (p_ops p) - pc" arbitrary: steps st pc env rule: less_induct)
  case less
  let ?op = "p_ops p ! pc" let ?sv = "slot_value p src"
  have pc: "pc < length (p_ops p)" using less.prems(4) by (simp add: foreseen_def)
  then have op: "get (p_ops p) pc = Some ?op" by simp
  have budget: "\<not> step_budget p < steps"
    using len pc less.prems(3) by (simp add: step_budget_def to_u32_def)
  obtain r env' where ex: "exec_op ext p ?op st pc env = (r, env')" "env_ok p src c env'"
    and ag: "arm_agrees r (astep ext p ?sv ?op pc (stack_list st))"
    using exec_op_agrees [OF less.prems(1,2) foreseen_wt(1) [OF v less.prems(4)]] by blast
  note unfold = eval_loop.simps [of ext p steps st pc env] aruns_unfold [OF op]
  show ?case
  proof (cases "astep ext p ?sv ?op pc (stack_list st)")
    case (Inl e)
    with ag have "r = Inl e" by (simp add: arm_agrees_def)
    with ex Inl op budget astep_error [OF v less.prems(4) Inl] show ?thesis by (simp add: unfold)
  next
    case (Inr s)
    show ?thesis
    proof (cases s)
      case (Inl a)
      with ag Inr have "r = Inr (Inl a)" by (simp add: arm_agrees_def)
      with ex Inr Inl op budget show ?thesis by (simp add: unfold)
    next
      case Inr2: (Inr s')
      obtain vs' pc' where s': "s' = (vs', pc')" by fastforce
      from ag Inr Inr2 s' obtain st' where st': "r = Inr (Inr (st', pc'))" "stack_ok st'"
        "stack_list st' = vs'" by (auto simp: arm_agrees_def)
      have step: "astep ext p ?sv ?op pc (stack_list st) = Inr (Inr (vs', pc'))"
        using Inr Inr2 s' by simp
      note fs = astep_foreseen [OF v less.prems(4) step]
      have "Suc steps \<le> pc'" "length (p_ops p) - pc' < length (p_ops p) - pc"
        using fs(1) less.prems(3) pc by auto
      with less.hyps [OF _ st'(2) ex(2)] fs(2) st'(3) ex(1) st'(1) op budget step
      show ?thesis by (simp add: unfold)
    qed
  qed
qed

section \<open>Properties of the evaluator\<close>

definition program_verified :: "'r program \<Rightarrow> policy_limits \<Rightarrow> bool" where
  "program_verified p limits \<longleftrightarrow>
     verify (p_ops p) (p_consts p) (p_slots p) (length (p_regexes p)) limits = Inr (p_max_stack p)"

lemma program_verified_D:
  assumes "program_verified p limits"
  obtains D where "verified p D" "p_max_stack p = max_depth_of D" "length (p_ops p) \<le> max_ops limits"
  using assms verify_wt unfolding program_verified_def verified_def by metis

lemma eval_runs:
  assumes "program_verified p limits" and "max_ops limits \<le> u16_max"
    and "length (p_slots p) \<le> MAX_SLOTS"
  shows "\<exists>r env'. eval ext p (env_new src (length (p_slots p)) c) = (r, env') \<and> env_ok p src c env' \<and>
    aruns ext p (slot_value p src) ([], 0) r \<and> (\<forall>e. r = Inl e \<longrightarrow> run_error p e)"
proof -
  obtain D where D: "verified p D" "length (p_ops p) \<le> max_ops limits"
    using program_verified_D [OF assms(1)] by metis
  then have "length (p_ops p) \<le> u32_max" using assms(2) by (simp add: u16_max_def u32_max_def)
  from eval_loop_runs [OF D(1) this stack_init_ok(1) env_ok_new [OF assms(3)] order.refl]
  show ?thesis using foreseen_start [OF D(1)] unfolding eval_def by simp
qed

lemma amove_deterministic: "amove ext p sv s s1 \<Longrightarrow> amove ext p sv s s2 \<Longrightarrow> s1 = s2"
  by (cases s) (auto elim!: amoveE)

lemma ahalt_final: "ahalt ext p sv s r \<Longrightarrow> \<not> amove ext p sv s s'"
  by (cases s) (auto elim!: amoveE ahaltE)

lemma ahalt_deterministic: "ahalt ext p sv s r1 \<Longrightarrow> ahalt ext p sv s r2 \<Longrightarrow> r1 = r2"
  by (cases s) (auto elim!: ahaltE)

lemma aruns_deterministic:
  assumes "aruns ext p sv s r1" and "aruns ext p sv s r2"
  shows "r1 = r2"
proof -
  obtain s1 where "(amove ext p sv)\<^sup>*\<^sup>* s s1" "ahalt ext p sv s1 r1"
    using assms(1) by (auto simp: aruns_def)
  then show ?thesis using assms(2)
  proof (induction rule: converse_rtranclp_induct)
    case base
    then show ?case unfolding aruns_def
      by (metis ahalt_deterministic ahalt_final converse_rtranclpE)
  next
    case (step s s')
    then have "aruns ext p sv s' r2" unfolding aruns_def
      by (metis ahalt_final amove_deterministic converse_rtranclpE)
    with step show ?case by blast
  qed
qed

lemma astep_bounded:
  assumes "verified p D" and "foreseen p D (vs, pc)" and "length vs \<le> MAX_STACK"
    and "astep ext p sv (p_ops p ! pc) pc vs = Inr (Inr (vs', pc'))"
  shows "length vs' \<le> MAX_STACK"
proof -
  have "depth_after (p_ops p ! pc) (int (length vs)) \<le> int MAX_STACK"
    "fst (effect (p_ops p ! pc)) \<le> int (length vs)"
    using foreseen_wt(1) [OF assms(1,2)] by (auto simp: operands_ready_def)
  with assms(3,4) show ?thesis
    by (cases "p_ops p ! pc") (auto simp: astep_def or_type_error_def and_then_Inr_iff split: if_splits)
qed

lemma foreseen_reachable:
  assumes "verified p D" and "(amove ext p sv)\<^sup>*\<^sup>* ([], 0) s"
  shows "foreseen p D s \<and> length (fst s) \<le> MAX_STACK"
  using assms(2)
proof (induction rule: rtranclp_induct)
  case (step s s')
  obtain vs pc vs' pc' where s: "s = (vs, pc)" "s' = (vs', pc')" by fastforce
  then have step': "astep ext p sv (p_ops p ! pc) pc vs = Inr (Inr (vs', pc'))"
    and f: "foreseen p D (vs, pc)" and len: "length vs \<le> MAX_STACK"
    using step by (auto elim!: amoveE)
  from astep_foreseen(2) [OF assms(1) f step'] astep_bounded [OF assms(1) f len step'] s(2)
  show ?case by simp
qed (simp add: foreseen_start [OF assms(1)])

lemma fold_max_ge: "(x :: int) \<in> set (d # ds) \<Longrightarrow> x \<le> fold max ds d"
  by (simp flip: Max.set_eq_fold)

lemma max_depth_ge:
  assumes "d \<in> set D" and "0 \<le> d" and "d \<le> 255"
  shows "d \<le> int (max_depth_of D)"
proof -
  have "d \<in> set (filter (\<lambda>d. 0 \<le> d) D)" using assms by simp
  then obtain x xs where xs: "filter (\<lambda>d. 0 \<le> d) D = x # xs" by (cases "filter (\<lambda>d. 0 \<le> d) D") auto
  then have "d \<le> fold max xs x" using \<open>d \<in> set (filter _ D)\<close> fold_max_ge by metis
  with assms xs show ?thesis by (simp add: max_depth_of_def clamp_u8_def)
qed

lemma demo_facts:
  "program_verified demo_prog limits_defaults" "max_ops limits_defaults \<le> u16_max"
  "length (p_slots demo_prog) \<le> MAX_SLOTS" "length (p_slots demo_prog) = 2"
proof -
  show "program_verified demo_prog limits_defaults" by code_simp
qed (simp_all add: limits_defaults_def u16_max_def demo_prog_def MAX_SLOTS_def)

lemma demo_eval:
  "fst (eval demo_ext demo_prog (env_new demo_src 2 0)) = Inr (V_Bool True)"
  "e_slots (snd (eval demo_ext demo_prog (env_new demo_src 2 0))) =
     [Some (V_Str ''GET''), Some V_Null] @ replicate 14 None"
  by code_simp+

text \<open>
  C16. Verifier soundness. Evaluating a program that \<^verbatim>\<open>verify\<close> accepted, under limits whose
  operation cap is a \<^verbatim>\<open>u16\<close> and with at most \<^verbatim>\<open>MAX_SLOTS\<close> slots, never reads outside its code,
  never under- or overflows the fixed operand stack and never exhausts the step budget: it
  returns a value, or fails with a type error, or with the bad operand of an instruction that
  loads a list constant.
\<close>

theorem eval_verified_safe:
  assumes "program_verified p limits" and "max_ops limits \<le> u16_max"
    and "length (p_slots p) \<le> MAX_SLOTS"
  shows "case fst (eval ext p (env_new src (length (p_slots p)) c)) of
      Inr v \<Rightarrow> True
    | Inl (TypeError at) \<Rightarrow> at < length (p_ops p)
    | Inl (BadOperand at) \<Rightarrow> at < length (p_ops p) \<and> loads_list p at
    | Inl _ \<Rightarrow> False"
proof -
  have "length (p_ops p) \<le> u16_max"
    using program_verified_D [OF assms(1)] assms(2) by (metis order.trans)
  then have "to_u16 pc = pc" if "pc < length (p_ops p)" for pc
    using that by (simp add: to_u16_def)
  with eval_runs [OF assms, of ext src c] show ?thesis
    by (auto simp: run_error_def split: sum.split eval_error.split)
qed

theorem eval_verified_safe_witness:
  "program_verified demo_prog limits_defaults \<and>
   (case fst (eval demo_ext demo_prog (env_new demo_src 2 0)) of
      Inr v \<Rightarrow> True
    | Inl (TypeError at) \<Rightarrow> at < length (p_ops demo_prog)
    | Inl (BadOperand at) \<Rightarrow> at < length (p_ops demo_prog) \<and> loads_list demo_prog at
    | Inl _ \<Rightarrow> False)"
  using eval_verified_safe [OF demo_facts(1-3), of demo_ext demo_src 0] demo_facts
  by (simp only: simp_thms)

text \<open>
  C20. Refinement. The evaluator with its fixed stack, slot cache and step budget computes
  exactly what the abstract machine computes that reads every slot afresh from the request
  and has no cache, no stack bound and no budget.
\<close>

theorem eval_refines_machine:
  assumes "program_verified p limits" and "max_ops limits \<le> u16_max"
    and "length (p_slots p) \<le> MAX_SLOTS"
  shows "fst (eval ext p (env_new src (length (p_slots p)) c)) = r \<longleftrightarrow>
    aruns ext p (slot_value p src) ([], 0) r"
proof -
  obtain r' env' where "eval ext p (env_new src (length (p_slots p)) c) = (r', env')"
    "aruns ext p (slot_value p src) ([], 0) r'"
    using eval_runs [OF assms] by metis
  then show ?thesis using aruns_deterministic by auto
qed

theorem eval_refines_machine_witness:
  "program_verified demo_prog limits_defaults \<and>
   aruns demo_ext demo_prog (slot_value demo_prog demo_src) ([], 0) (Inr (V_Bool True))"
  using eval_refines_machine [OF demo_facts(1-3), of demo_ext demo_src 0 "Inr (V_Bool True)"] demo_facts demo_eval(1)
  by (simp only: simp_thms)

text \<open>
  Duplicate headers. After the evaluation of a verified program the flag
  \<^verbatim>\<open>saw_duplicate\<close> is set exactly if a resolved slot names a header that occurs more than once,
  the process-wide counter has grown by one per such slot, and every resolved slot holds the
  value of its reference, a duplicated header reading as null.
\<close>

theorem eval_duplicate_flag:
  assumes "program_verified p limits" and "max_ops limits \<le> u16_max"
    and "length (p_slots p) \<le> MAX_SLOTS"
    and "eval ext p (env_new src (length (p_slots p)) c) = (r, env')"
  shows "(e_saw_duplicate env' \<longleftrightarrow> dup_slots p src (e_slots env') \<noteq> {}) \<and>
    e_dup_count env' = c + of_nat (card (dup_slots p src (e_slots env'))) \<and>
    (\<forall>i v. get (e_slots env') i = Some (Some v) \<longrightarrow>
      v = (if slot_duplicated p src i then V_Null else slot_value p src i))"
proof -
  have "env_ok p src c env'" using eval_runs [OF assms(1-3), of ext src c] assms(4) by auto
  moreover have "slot_value p src i = V_Null" if "slot_duplicated p src i" for i
    using that by (auto simp: slot_duplicated_def slot_value_def split: attr_ref.splits)
  ultimately show ?thesis by (auto simp: env_ok_def)
qed

theorem eval_duplicate_flag_witness:
  "e_saw_duplicate (snd (eval demo_ext demo_prog (env_new demo_src 2 0)))"
proof -
  obtain r env' where ev: "eval demo_ext demo_prog (env_new demo_src 2 0) = (r, env')" by fastforce
  have "1 \<in> dup_slots demo_prog demo_src (e_slots env')"
    using demo_eval(2) ev
    by (simp add: dup_slots_def slot_duplicated_def demo_prog_def demo_src_def key_bytes_def
        mk_span_def span_slice_def get_range_def)
  with eval_duplicate_flag [OF demo_facts(1-3), of demo_ext demo_src 0 r env'] ev demo_facts(4)
  show ?thesis by auto
qed

text \<open>
  The stack bound the verifier reports is never exceeded: in every state a verified
  program reaches, the operand stack holds at most \<^verbatim>\<open>max_stack\<close> values, and the program counter
  stays inside the code.
\<close>

theorem verified_max_stack:
  assumes "program_verified p limits" and "(amove ext p sv)\<^sup>*\<^sup>* ([], 0) (vs, pc)"
  shows "length vs \<le> p_max_stack p \<and> pc < length (p_ops p)"
proof -
  obtain D where D: "verified p D" "p_max_stack p = max_depth_of D"
    using program_verified_D [OF assms(1)] by metis
  note f = foreseen_reachable [OF D(1) assms(2)]
  then have "D ! pc \<in> set D" using D(1) by (auto simp: foreseen_def verified_def wt_code_def)
  with f D(2) max_depth_ge [of "D ! pc" D] show ?thesis
    by (auto simp: foreseen_def MAX_STACK_def)
qed

theorem verified_max_stack_witness:
  "length [V_Str ''GET''] \<le> p_max_stack demo_prog \<and> 1 < length (p_ops demo_prog)"
proof -
  have "amove demo_ext demo_prog (slot_value demo_prog demo_src) ([], 0) ([V_Str ''GET''], 1)"
    by (rule amove [of _ _ "Op_LoadAttr 0"])
      (simp_all add: demo_prog_def astep_def slot_value_def demo_src_def)
  with verified_max_stack [OF demo_facts(1)] show ?thesis by blast
qed

end
