(* ===== verification/Policy_Hash.thy ===== *)
theory Policy_Hash
  imports Policy_Examples
begin

text \<open>
  \<^verbatim>\<open>Program::content_hash\<close> (\<^verbatim>\<open>program.rs\<close>): the 64-bit FNV-1a hash of a compiled program that
  the config compiler interns programs by. The theorems show that the incremental
  computation is the hash of one canonical byte encoding, that the instruction encoding is
  injective, and which differences the hash is sure to see.

  \<^verbatim>\<open>hash_const\<close> recurses through list constants, and nothing in the type of a program forbids
  a list element that is itself a list; \<open>fuel\<close> bounds the depth of the recursion, and \<open>None\<close>
  is a run that is still recursing. Elements of the lists that \<^verbatim>\<open>compile\<close> builds are literals,
  for which a fuel of two is enough.
\<close>

unbundle bit_operations_syntax

section \<open>FNV-1a\<close>

definition FNV_OFFSET :: "64 word" where
  "FNV_OFFSET = 0xcbf29ce484222325"

definition FNV_PRIME :: "64 word" where
  "FNV_PRIME = 0x100000001b3"

definition fnv1a :: "64 word \<Rightarrow> bytes \<Rightarrow> 64 word" where
  "fnv1a hash bs = fold (\<lambda>b h. (h XOR of_nat (byte_val b)) * FNV_PRIME) bs hash"

text \<open>\<^verbatim>\<open>to_le_bytes\<close> of an unsigned value of \<open>k\<close> bytes.\<close>

definition le_bytes :: "nat \<Rightarrow> nat \<Rightarrow> bytes" where
  "le_bytes k v = map (\<lambda>i. char_of (v div 256 ^ i)) [0..<k]"

definition i64_le_bytes :: "int \<Rightarrow> bytes" where
  "i64_le_bytes v = le_bytes 8 (nat (v mod 2 ^ 64))"

definition len_prefixed :: "bytes \<Rightarrow> bytes" where
  "len_prefixed bs = le_bytes 4 (to_u32 (length bs)) @ bs"

definition fnv1a_len_prefixed :: "64 word \<Rightarrow> bytes \<Rightarrow> 64 word" where
  "fnv1a_len_prefixed hash bs = fnv1a (fnv1a hash (le_bytes 4 (to_u32 (length bs)))) bs"

section \<open>The content hash\<close>

fun op_code :: "op \<Rightarrow> nat \<times> nat" where
  "op_code (Op_LoadAttr n) = (0, n)"
| "op_code (Op_LoadConst n) = (1, n)"
| "op_code Op_Eq = (2, 0)"
| "op_code Op_Ne = (3, 0)"
| "op_code Op_Lt = (4, 0)"
| "op_code Op_Le = (5, 0)"
| "op_code Op_Gt = (6, 0)"
| "op_code Op_Ge = (7, 0)"
| "op_code (Op_InSet n) = (8, n)"
| "op_code Op_StartsWith = (9, 0)"
| "op_code Op_EndsWith = (10, 0)"
| "op_code Op_Contains = (11, 0)"
| "op_code Op_EqIgnoreCase = (12, 0)"
| "op_code Op_StartsWithIgnoreCase = (13, 0)"
| "op_code (Op_RegexMatch n) = (14, n)"
| "op_code Op_Size = (15, 0)"
| "op_code Op_Not = (16, 0)"
| "op_code (Op_JumpIfFalse n) = (17, n)"
| "op_code (Op_JumpIfTrue n) = (18, n)"
| "op_code (Op_BranchIfFalse n) = (19, n)"
| "op_code (Op_Jump n) = (20, n)"
| "op_code Op_Ret = (21, 0)"

definition encode_op :: "op \<Rightarrow> bytes" where
  "encode_op op = (let (tag, operand) = op_code op in char_of tag # le_bytes 2 operand @ [char_of (0 :: nat)])"

fun hash_const :: "nat \<Rightarrow> 'r program \<Rightarrow> 64 word \<Rightarrow> const \<Rightarrow> 64 word option" where
  "hash_const 0 p h c = None"
| "hash_const (Suc fuel) p h (Const_Bool b) =
     Some (fnv1a (fnv1a h [char_of (0 :: nat)]) [char_of (of_bool b :: nat)])"
| "hash_const (Suc fuel) p h (Const_Int v) =
     Some (fnv1a (fnv1a h [char_of (1 :: nat)]) (i64_le_bytes v))"
| "hash_const (Suc fuel) p h (Const_Str from len) =
     Some (fnv1a_len_prefixed (fnv1a h [char_of (2 :: nat)]) (const_str p (Const_Str from len)))"
| "hash_const (Suc fuel) p h Const_Null = Some (fnv1a h [char_of (3 :: nat)])"
| "hash_const (Suc fuel) p h (Const_List from len) =
     fold (\<lambda>elem acc. Option.bind acc (\<lambda>acc. hash_const fuel p acc elem))
       (const_range (p_list_elems p) from len)
       (Some (fnv1a (fnv1a h [char_of (4 :: nat)]) (le_bytes 4 len)))"

definition hash_attr_ref :: "64 word \<Rightarrow> attr_ref \<Rightarrow> bytes \<Rightarrow> 64 word" where
  "hash_attr_ref h r strings =
     (case r of
        Scalar a \<Rightarrow> fnv1a (fnv1a h [char_of (0 :: nat)]) [char_of (attr_tag a)]
      | Field m key \<Rightarrow>
          (let acc = fnv1a h [char_of (1 :: nat)];
               acc = fnv1a acc [char_of (map_tag m)]
           in fnv1a_len_prefixed acc (case span_slice key strings of None \<Rightarrow> [] | Some s \<Rightarrow> s)))"

definition content_hash :: "nat \<Rightarrow> 'r crates \<Rightarrow> 'r program \<Rightarrow> 64 word option" where
  "content_hash fuel ext p =
     (let h = fnv1a_len_prefixed FNV_OFFSET (concat (map encode_op (p_ops p)));
          h = fnv1a_len_prefixed h (p_strings p)
      in Option.bind
        (fold (\<lambda>c acc. Option.bind acc (\<lambda>acc. hash_const fuel p acc c)) (p_consts p) (Some h)) (\<lambda>h.
          let h = fold (\<lambda>r h. hash_attr_ref h r (p_strings p)) (p_slots p) h;
              h = fold (\<lambda>r h. fnv1a_len_prefixed h (regex_as_str ext r)) (p_regexes p) h;
              h = fnv1a h [char_of (ty_tag (p_result p))]
          in Some (fnv1a h [char_of (phase_index (p_phase p))])))"

section \<open>One canonical encoding\<close>

text \<open>The bytes of a constant whose list elements are literals.\<close>

fun leaf_const :: "const \<Rightarrow> bool" where
  "leaf_const (Const_List _ _) = False"
| "leaf_const _ = True"

fun encode_leaf :: "'r program \<Rightarrow> const \<Rightarrow> bytes" where
  "encode_leaf p (Const_Bool b) = [char_of (0 :: nat), char_of (of_bool b :: nat)]"
| "encode_leaf p (Const_Int v) = char_of (1 :: nat) # i64_le_bytes v"
| "encode_leaf p (Const_Str from len) =
     char_of (2 :: nat) # len_prefixed (const_str p (Const_Str from len))"
| "encode_leaf p Const_Null = [char_of (3 :: nat)]"
| "encode_leaf p (Const_List from len) = char_of (4 :: nat) # le_bytes 4 len"

definition encode_const :: "'r program \<Rightarrow> const \<Rightarrow> bytes" where
  "encode_const p c =
     encode_leaf p c @ (case c of
         Const_List from len \<Rightarrow> concat (map (encode_leaf p) (const_range (p_list_elems p) from len))
       | _ \<Rightarrow> [])"

definition encode_attr_ref :: "'r program \<Rightarrow> attr_ref \<Rightarrow> bytes" where
  "encode_attr_ref p r =
     (case r of
        Scalar a \<Rightarrow> [char_of (0 :: nat), char_of (attr_tag a)]
      | Field m key \<Rightarrow> [char_of (1 :: nat), char_of (map_tag m)] @ len_prefixed (key_bytes p key))"

definition canonical_body :: "'r crates \<Rightarrow> 'r program \<Rightarrow> bytes" where
  "canonical_body ext p =
     len_prefixed (concat (map encode_op (p_ops p))) @ len_prefixed (p_strings p) @
     concat (map (encode_const p) (p_consts p)) @ concat (map (encode_attr_ref p) (p_slots p)) @
     concat (map (\<lambda>r. len_prefixed (regex_as_str ext r)) (p_regexes p))"

definition canonical_encoding :: "'r crates \<Rightarrow> 'r program \<Rightarrow> bytes" where
  "canonical_encoding ext p =
     canonical_body ext p @ [char_of (ty_tag (p_result p)), char_of (phase_index (p_phase p))]"

lemma fnv1a_Nil [simp]: "fnv1a h [] = h"
  by (simp add: fnv1a_def)

lemma fnv1a_fnv1a: "fnv1a (fnv1a h xs) ys = fnv1a h (xs @ ys)"
  by (simp add: fnv1a_def)

lemma fnv1a_len_prefixed_eq: "fnv1a_len_prefixed h bs = fnv1a h (len_prefixed bs)"
  by (simp add: fnv1a_len_prefixed_def len_prefixed_def fnv1a_fnv1a)

lemma fold_fnv1a:
  assumes "\<And>h x. x \<in> set xs \<Longrightarrow> f x h = fnv1a h (enc x)"
  shows "fold f xs h = fnv1a h (concat (map enc xs))"
  using assms by (induction xs arbitrary: h) (auto simp: fnv1a_fnv1a)

lemma fold_fnv1a_option:
  assumes "\<And>h x. x \<in> set xs \<Longrightarrow> f h x = Some (fnv1a h (enc x))"
  shows "fold (\<lambda>x acc. Option.bind acc (\<lambda>h. f h x)) xs (Some h) = Some (fnv1a h (concat (map enc xs)))"
  using assms by (induction xs arbitrary: h) (auto simp: fnv1a_fnv1a)

lemma hash_const_leaf: "leaf_const c \<Longrightarrow> hash_const (Suc n) p h c = Some (fnv1a h (encode_leaf p c))"
  by (cases c) (auto simp: fnv1a_len_prefixed_eq fnv1a_fnv1a)

lemma set_const_range: "set (const_range xs from len) \<subseteq> set xs"
  by (auto simp: const_range_def get_range_def dest: in_set_takeD in_set_dropD split: if_splits)

lemma hash_const_encode:
  assumes "list_all leaf_const (p_list_elems p)"
  shows "hash_const (Suc (Suc n)) p h c = Some (fnv1a h (encode_const p c))"
proof (cases "leaf_const c")
  case True
  then show ?thesis
    using hash_const_leaf [OF True, of "Suc n" p h] by (cases c) (simp_all add: encode_const_def)
next
  case False
  then obtain fr len where c: "c = Const_List fr len" by (cases c) auto
  have leaf: "leaf_const e" if "e \<in> set (const_range (p_list_elems p) fr len)" for e
    using that assms set_const_range by (fastforce simp: list_all_iff)
  show ?thesis unfolding c
    by (simp del: hash_const.simps(2-5) add: encode_const_def fnv1a_fnv1a
        fold_fnv1a_option [OF hash_const_leaf [OF leaf]])
qed

lemma hash_attr_ref_encode: "hash_attr_ref h r (p_strings p) = fnv1a h (encode_attr_ref p r)"
  by (auto simp: hash_attr_ref_def encode_attr_ref_def key_bytes_def fnv1a_len_prefixed_eq
      fnv1a_fnv1a Let_def split: attr_ref.split)

lemma content_hash_encode:
  assumes "list_all leaf_const (p_list_elems p)"
  shows "content_hash (Suc (Suc n)) ext p = Some (fnv1a FNV_OFFSET (canonical_encoding ext p))"
  by (simp del: hash_const.simps add: content_hash_def Let_def canonical_encoding_def canonical_body_def
      fnv1a_len_prefixed_eq fold_fnv1a_option [OF hash_const_encode [OF assms]]
      fold_fnv1a [OF hash_attr_ref_encode] fold_fnv1a [OF refl] fnv1a_fnv1a)

section \<open>What the hash distinguishes\<close>

lemma FNV_PRIME_invertible: "FNV_PRIME * 0xce965057aff6957b = 1"
  by (simp add: FNV_PRIME_def)

lemma fnv1a_step_inj: "(a :: 64 word) * FNV_PRIME = b * FNV_PRIME \<longleftrightarrow> a = b"
proof
  assume "a * FNV_PRIME = b * FNV_PRIME"
  then have "a * FNV_PRIME * 0xce965057aff6957b = b * FNV_PRIME * 0xce965057aff6957b"
    by (rule arg_cong)
  then show "a = b" unfolding mult.assoc FNV_PRIME_invertible by simp
qed simp

lemma word_byte_inj: "(of_nat (byte_val x) :: 64 word) = of_nat (byte_val y) \<longleftrightarrow> x = y"
proof -
  have "byte_val c < 2 ^ LENGTH(64)" for c by (rule less_trans [OF byte_val_less]) simp
  then have "unat (of_nat (byte_val c) :: 64 word) = byte_val c" for c
    by (simp add: unsigned_of_nat take_bit_eq_mod)
  then show ?thesis by (metis of_char_eq_iff)
qed

lemma fnv1a_last_inj: "fnv1a h [x] = fnv1a h [y] \<longleftrightarrow> x = y"
proof -
  have "h XOR a = h XOR b \<longleftrightarrow> a = b" for a b :: "64 word"
    by (auto simp: bit_eq_iff bit_xor_iff)
  then show ?thesis by (simp add: fnv1a_def fnv1a_step_inj word_byte_inj)
qed

lemma fnv1a_state_inj: "fnv1a h bs = fnv1a h' bs \<longleftrightarrow> h = h'"
proof (induction bs arbitrary: h h')
  case (Cons b bs)
  have "(h XOR a = h' XOR a) = (h = h')" for a :: "64 word"
    by (auto simp: bit_eq_iff bit_xor_iff)
  then have "fnv1a h [b] = fnv1a h' [b] \<longleftrightarrow> h = h'" by (simp add: fnv1a_def fnv1a_step_inj)
  then show ?case using Cons [of "fnv1a h [b]" "fnv1a h' [b]"] by (simp add: fnv1a_fnv1a)
qed simp

lemma le_bytes_2_inj:
  assumes "m \<le> u16_max" and "n \<le> u16_max" and "le_bytes 2 m = le_bytes 2 n"
  shows "m = n"
proof -
  have "[0..<2] = [0, 1 :: nat]" by (simp add: upt_rec)
  then have "m mod 256 = n mod 256" "m div 256 mod 256 = n div 256 mod 256"
    using assms(3) by (auto simp: le_bytes_def char_of_quasi_inj)
  moreover have "m div 256 < 256" "n div 256 < 256"
    using assms(1,2) by (auto simp: u16_max_def)
  ultimately have "m div 256 = n div 256" by simp
  with \<open>m mod 256 = n mod 256\<close> show ?thesis by (metis div_mult_mod_eq)
qed

fun operand_ok :: "op \<Rightarrow> bool" where
  "operand_ok op \<longleftrightarrow> snd (op_code op) \<le> u16_max"

lemma op_code_inj: "op_code a = op_code b \<Longrightarrow> a = b"
  by (cases a; cases b; simp)

lemma op_code_tag: "fst (op_code a) < 256"
  by (cases a) auto

text \<open>
  The instruction encoding fed to the content hash is injective: two instructions with
  \<^verbatim>\<open>u16\<close> operands have the same four bytes only if they are the same instruction.
\<close>

theorem encode_op_injective:
  assumes "operand_ok a" and "operand_ok b"
  shows "encode_op a = encode_op b \<longleftrightarrow> a = b"
proof
  assume eq: "encode_op a = encode_op b"
  obtain ta na tb nb where code: "op_code a = (ta, na)" "op_code b = (tb, nb)" by fastforce
  then have "le_bytes 2 na = le_bytes 2 nb" "ta = tb"
    using eq op_code_tag [of a] op_code_tag [of b]
    by (auto simp: encode_op_def le_bytes_def char_of_quasi_inj)
  moreover have "na \<le> u16_max" "nb \<le> u16_max" using assms code by auto
  ultimately show "a = b" using le_bytes_2_inj code op_code_inj by metis
qed simp

theorem encode_op_injective_witness:
  "encode_op (Op_Jump 258) \<noteq> encode_op (Op_Jump 513)"
  using encode_op_injective [of "Op_Jump 258" "Op_Jump 513"] by (simp add: u16_max_def)

text \<open>
  The content hash of a program whose list elements are literals terminates and is the
  FNV-1a hash of the program's canonical encoding: feeding the parts one by one, in the order
  the code does, hashes one concatenated byte string.
\<close>

theorem content_hash_canonical:
  assumes "list_all leaf_const (p_list_elems p)" and "2 \<le> fuel"
  shows "content_hash fuel ext p = Some (fnv1a FNV_OFFSET (canonical_encoding ext p))"
proof -
  obtain n where "fuel = Suc (Suc n)" using assms(2) by (metis add_2_eq_Suc le_iff_add)
  with content_hash_encode [OF assms(1)] show ?thesis by simp
qed

theorem content_hash_canonical_witness:
  "content_hash 2 demo_ext demo_prog = Some (fnv1a FNV_OFFSET (canonical_encoding demo_ext demo_prog))"
  by (rule content_hash_canonical) (simp_all add: demo_prog_def)

lemma encode_leaf_update [simp]:
  "encode_leaf (p\<lparr>p_phase := ph\<rparr>) = encode_leaf p" "encode_leaf (p\<lparr>p_result := t\<rparr>) = encode_leaf p"
proof -
  show "encode_leaf (p\<lparr>p_phase := ph\<rparr>) = encode_leaf p"
  proof
    show "encode_leaf (p\<lparr>p_phase := ph\<rparr>) c = encode_leaf p c" for c
      by (cases c) (simp_all add: const_str_def)
  qed
  show "encode_leaf (p\<lparr>p_result := t\<rparr>) = encode_leaf p"
  proof
    show "encode_leaf (p\<lparr>p_result := t\<rparr>) c = encode_leaf p c" for c
      by (cases c) (simp_all add: const_str_def)
  qed
qed

lemma canonical_body_update:
  "canonical_body ext (p\<lparr>p_phase := ph\<rparr>) = canonical_body ext p"
  "canonical_body ext (p\<lparr>p_result := t\<rparr>) = canonical_body ext p"
  by (simp_all add: canonical_body_def encode_const_def [abs_def] encode_attr_ref_def [abs_def]
      key_bytes_def [abs_def] cong: const.case_cong)

lemma ty_tag_byte: "(char_of (ty_tag a) :: byte) = char_of (ty_tag b) \<longleftrightarrow> a = b"
  by (cases a; cases b; simp add: char_of_quasi_inj)

lemma phase_index_byte: "(char_of (phase_index a) :: byte) = char_of (phase_index b) \<longleftrightarrow> a = b"
  by (cases a; cases b; simp add: char_of_quasi_inj)

text \<open>
  The content hash never confuses two programs that differ only in the phase they are bound
  to, or only in their result type.
\<close>

theorem content_hash_separates:
  assumes "list_all leaf_const (p_list_elems p)" and "2 \<le> fuel"
  shows "(content_hash fuel ext (p\<lparr>p_phase := ph\<rparr>) = content_hash fuel ext p \<longleftrightarrow> ph = p_phase p) \<and>
    (content_hash fuel ext (p\<lparr>p_result := t\<rparr>) = content_hash fuel ext p \<longleftrightarrow> t = p_result p)"
proof -
  obtain n where n: "fuel = Suc (Suc n)" using assms(2) by (metis add_2_eq_Suc le_iff_add)
  let ?h = "fnv1a FNV_OFFSET (canonical_body ext p)"
  have hash: "content_hash fuel ext q =
      Some (fnv1a (fnv1a ?h [char_of (ty_tag (p_result q))]) [char_of (phase_index (p_phase q))])"
    if "p_list_elems q = p_list_elems p" "canonical_body ext q = canonical_body ext p" for q
    using content_hash_encode [of q n ext] assms(1) that n
    by (simp add: canonical_encoding_def fnv1a_fnv1a)
  show ?thesis
    using ty_tag_byte phase_index_byte
    by (simp add: hash canonical_body_update fnv1a_last_inj fnv1a_state_inj)
qed

theorem content_hash_separates_witness:
  "content_hash 2 demo_ext (demo_prog\<lparr>p_phase := Log\<rparr>) \<noteq> content_hash 2 demo_ext demo_prog \<and>
   content_hash 2 demo_ext (demo_prog\<lparr>p_result := Ty_Int\<rparr>) \<noteq> content_hash 2 demo_ext demo_prog"
  using content_hash_separates [of demo_prog 2 demo_ext Log Ty_Int] by (simp add: demo_prog_def)

section \<open>The encoding does not separate the tables\<close>

text \<open>Two programs with the same code and strings: the second constant of \<open>twin_a\<close> is the first
  slot of \<open>twin_b\<close>.\<close>

definition twin_a :: "bytes program" where
  "twin_a =
     \<lparr>p_ops = [Op_LoadAttr 0, Op_LoadConst 0, Op_Eq, Op_Ret],
      p_consts = [Const_Str 0 3, Const_Bool True], p_list_elems = [], p_strings = ''GET'',
      p_slots = [Scalar RequestMethod], p_regexes = [], p_result = Ty_Bool,
      p_phase = RequestHeaders, p_max_stack = 2\<rparr>"

definition twin_b :: "bytes program" where
  "twin_b = twin_a\<lparr>p_consts := [Const_Str 0 3], p_slots := [Scalar RequestPath, Scalar RequestMethod]\<rparr>"

text \<open>
  C36. The canonical encoding is not injective on verified programs. The constant table and the
  slot table are fed without their lengths, so a trailing boolean constant reads as a leading
  scalar slot: two programs that \<^verbatim>\<open>verify\<close> accepts have the same canonical encoding, and
  therefore the same content hash, and evaluate to different results on the same request.
\<close>

theorem canonical_encoding_ambiguous:
  "verify (p_ops twin_a) (p_consts twin_a) (p_slots twin_a) 0 limits_defaults = Inr 2 \<and>
   verify (p_ops twin_b) (p_consts twin_b) (p_slots twin_b) 0 limits_defaults = Inr 2 \<and>
   canonical_encoding demo_ext twin_a = canonical_encoding demo_ext twin_b \<and>
   content_hash 2 demo_ext twin_a = content_hash 2 demo_ext twin_b \<and>
   fst (eval demo_ext twin_a (env_new demo_src 1 0)) = Inr (V_Bool True) \<and>
   fst (eval demo_ext twin_b (env_new demo_src 2 0)) = Inr (V_Bool False)"
proof (intro conjI)
  show enc: "canonical_encoding demo_ext twin_a = canonical_encoding demo_ext twin_b" by code_simp
  then show "content_hash 2 demo_ext twin_a = content_hash 2 demo_ext twin_b"
    using content_hash_encode [of twin_a 0 demo_ext] content_hash_encode [of twin_b 0 demo_ext]
    by (simp add: twin_a_def twin_b_def numeral_2_eq_2)
qed code_simp+

end
