(* ===== verification/Policy_Ast.thy ===== *)
theory Policy_Ast
  imports Policy_Attrs
begin

text \<open>
  Tokens (\<^verbatim>\<open>token.rs\<close>) and the syntax arena (\<^verbatim>\<open>ast.rs\<close>). An arena is a vector of nodes in
  creation order whose children are indices. The second half gives the arena its meaning as a
  tree: \<open>flat\<close> lays a tree out in post-order, and the parser and compiler proofs speak about
  arenas of that shape.
\<close>

section \<open>Tokens\<close>

datatype tok =
    Tok_Ident span | Tok_Int int | Tok_Str span | Tok_Bool bool | Tok_Null
  | Tok_LParen | Tok_RParen | Tok_LBracket | Tok_RBracket | Tok_Comma | Tok_Dot
  | Tok_Question | Tok_Colon | Tok_Bang | Tok_AndAnd | Tok_OrOr
  | Tok_EqEq | Tok_BangEq | Tok_Lt | Tok_Le | Tok_Gt | Tok_Ge | Tok_In

record spanned =
  s_tok :: tok
  s_span :: span

record token_stream =
  ts_toks :: "spanned list"
  ts_strings :: bytes

fun tok_describe :: "tok \<Rightarrow> string" where
  "tok_describe (Tok_Ident _) = ''identifier''"
| "tok_describe (Tok_Int _) = ''integer''"
| "tok_describe (Tok_Str _) = ''string''"
| "tok_describe (Tok_Bool _) = ''boolean''"
| "tok_describe Tok_Null = ''null''"
| "tok_describe Tok_LParen = ''(''"
| "tok_describe Tok_RParen = '')''"
| "tok_describe Tok_LBracket = ''[''"
| "tok_describe Tok_RBracket = '']''"
| "tok_describe Tok_Comma = '',''"
| "tok_describe Tok_Dot = ''.''"
| "tok_describe Tok_Question = ''?''"
| "tok_describe Tok_Colon = '':''"
| "tok_describe Tok_Bang = ''!''"
| "tok_describe Tok_AndAnd = ''&&''"
| "tok_describe Tok_OrOr = ''||''"
| "tok_describe Tok_EqEq = ''==''"
| "tok_describe Tok_BangEq = ''!=''"
| "tok_describe Tok_Lt = ''<''"
| "tok_describe Tok_Le = ''<=''"
| "tok_describe Tok_Gt = ''>''"
| "tok_describe Tok_Ge = ''>=''"
| "tok_describe Tok_In = ''in''"

section \<open>Methods, operators, nodes\<close>

datatype meth =
    Method_StartsWith | Method_EndsWith | Method_Contains | Method_Matches
  | Method_EqualsIgnoreCase | Method_StartsWithIgnoreCase | Method_Size

definition method_from_name :: "bytes \<Rightarrow> meth option" where
  "method_from_name name =
     (if name = ''startsWith'' then Some Method_StartsWith
      else if name = ''endsWith'' then Some Method_EndsWith
      else if name = ''contains'' then Some Method_Contains
      else if name = ''matches'' then Some Method_Matches
      else if name = ''equalsIgnoreCase'' then Some Method_EqualsIgnoreCase
      else if name = ''startsWithIgnoreCase'' then Some Method_StartsWithIgnoreCase
      else if name = ''size'' then Some Method_Size
      else None)"

fun method_as_str :: "meth \<Rightarrow> string" where
  "method_as_str Method_StartsWith = ''startsWith''"
| "method_as_str Method_EndsWith = ''endsWith''"
| "method_as_str Method_Contains = ''contains''"
| "method_as_str Method_Matches = ''matches''"
| "method_as_str Method_EqualsIgnoreCase = ''equalsIgnoreCase''"
| "method_as_str Method_StartsWithIgnoreCase = ''startsWithIgnoreCase''"
| "method_as_str Method_Size = ''size''"

definition method_arity :: "meth \<Rightarrow> nat" where
  "method_arity m = (if m = Method_Size then 0 else 1)"

datatype bin_op = BinOp_Eq | BinOp_Ne | BinOp_Lt | BinOp_Le | BinOp_Gt | BinOp_Ge | BinOp_In

type_synonym node_id = nat

definition node_id_new :: "nat \<Rightarrow> node_id option" where
  "node_id_new i = (if 0xFFFF \<le> i then None else Some i)"

datatype node =
    Node_Bool bool
  | Node_Int int
  | Node_Str span
  | Node_Null
  | Node_Ident span
  | Node_Field node_id span
  | Node_Index node_id node_id
  | Node_Call node_id meth nat nat
  | Node_Not node_id
  | Node_Bin bin_op node_id node_id
  | Node_And node_id node_id
  | Node_Or node_id node_id
  | Node_Ternary node_id node_id node_id
  | Node_List nat nat

record ast =
  a_nodes :: "node list"
  a_args :: "node_id list"
  a_root :: node_id
  a_depth :: nat

definition ast_node :: "ast \<Rightarrow> node_id \<Rightarrow> node option" where
  "ast_node a i = get (a_nodes a) i"

definition args_of :: "ast \<Rightarrow> nat \<Rightarrow> nat \<Rightarrow> node_id list" where
  "args_of a from len = (case get_range (a_args a) from (sat_add from len) of None \<Rightarrow> [] | Some xs \<Rightarrow> xs)"

definition ast_len :: "ast \<Rightarrow> nat" where
  "ast_len a = length (a_nodes a)"

definition ast_is_empty :: "ast \<Rightarrow> bool" where
  "ast_is_empty a \<longleftrightarrow> a_nodes a = []"

section \<open>Trees and their post-order layout\<close>

datatype tree =
    T_Bool bool
  | T_Int int
  | T_Str span
  | T_Null
  | T_Ident span
  | T_Field tree span
  | T_Index tree tree
  | T_Call tree meth "tree list"
  | T_Not tree
  | T_Bin bin_op tree tree
  | T_And tree tree
  | T_Or tree tree
  | T_Ternary tree tree tree
  | T_List "tree list"

text \<open>Number of nodes, and number of entries of the argument table.\<close>

fun n_nodes :: "tree \<Rightarrow> nat" where
  "n_nodes (T_Field b _) = Suc (n_nodes b)"
| "n_nodes (T_Index b i) = Suc (n_nodes b + n_nodes i)"
| "n_nodes (T_Call b _ ts) = Suc (n_nodes b + sum_list (map n_nodes ts))"
| "n_nodes (T_Not t) = Suc (n_nodes t)"
| "n_nodes (T_Bin _ l r) = Suc (n_nodes l + n_nodes r)"
| "n_nodes (T_And l r) = Suc (n_nodes l + n_nodes r)"
| "n_nodes (T_Or l r) = Suc (n_nodes l + n_nodes r)"
| "n_nodes (T_Ternary c t e) = Suc (n_nodes c + n_nodes t + n_nodes e)"
| "n_nodes (T_List ts) = Suc (sum_list (map n_nodes ts))"
| "n_nodes _ = 1"

fun n_args :: "tree \<Rightarrow> nat" where
  "n_args (T_Field b _) = n_args b"
| "n_args (T_Index b i) = n_args b + n_args i"
| "n_args (T_Call b _ ts) = n_args b + sum_list (map n_args ts) + length ts"
| "n_args (T_Not t) = n_args t"
| "n_args (T_Bin _ l r) = n_args l + n_args r"
| "n_args (T_And l r) = n_args l + n_args r"
| "n_args (T_Or l r) = n_args l + n_args r"
| "n_args (T_Ternary c t e) = n_args c + n_args t + n_args e"
| "n_args (T_List ts) = sum_list (map n_args ts) + length ts"
| "n_args _ = 0"

text \<open>The index of the root of a tree laid out from node index \<open>i\<close> on.\<close>

abbreviation root_at :: "nat \<Rightarrow> tree \<Rightarrow> node_id" where
  "root_at i t \<equiv> i + n_nodes t - 1"

fun roots_at :: "nat \<Rightarrow> tree list \<Rightarrow> node_id list" where
  "roots_at i [] = []"
| "roots_at i (t # ts) = root_at i t # roots_at (i + n_nodes t) ts"

abbreviation ns_nodes :: "tree list \<Rightarrow> nat" where
  "ns_nodes ts \<equiv> sum_list (map n_nodes ts)"

abbreviation ns_args :: "tree list \<Rightarrow> nat" where
  "ns_args ts \<equiv> sum_list (map n_args ts)"

text \<open>The nodes of a tree whose first node gets index \<open>i\<close>, with \<open>j\<close> entries of the argument
  table already in use; and the entries it appends to the argument table.\<close>

fun flat :: "nat \<Rightarrow> nat \<Rightarrow> tree \<Rightarrow> node list"
  and flats :: "nat \<Rightarrow> nat \<Rightarrow> tree list \<Rightarrow> node list" where
  "flat i j (T_Bool b) = [Node_Bool b]"
| "flat i j (T_Int v) = [Node_Int v]"
| "flat i j (T_Str s) = [Node_Str s]"
| "flat i j T_Null = [Node_Null]"
| "flat i j (T_Ident s) = [Node_Ident s]"
| "flat i j (T_Field b name) = flat i j b @ [Node_Field (root_at i b) name]"
| "flat i j (T_Index b t) =
     flat i j b @ flat (i + n_nodes b) (j + n_args b) t @
     [Node_Index (root_at i b) (root_at (i + n_nodes b) t)]"
| "flat i j (T_Call b m ts) =
     flat i j b @ flats (i + n_nodes b) (j + n_args b) ts @
     [Node_Call (root_at i b) m (j + n_args b + ns_args ts) (length ts)]"
| "flat i j (T_Not t) = flat i j t @ [Node_Not (root_at i t)]"
| "flat i j (T_Bin op l r) =
     flat i j l @ flat (i + n_nodes l) (j + n_args l) r @
     [Node_Bin op (root_at i l) (root_at (i + n_nodes l) r)]"
| "flat i j (T_And l r) =
     flat i j l @ flat (i + n_nodes l) (j + n_args l) r @
     [Node_And (root_at i l) (root_at (i + n_nodes l) r)]"
| "flat i j (T_Or l r) =
     flat i j l @ flat (i + n_nodes l) (j + n_args l) r @
     [Node_Or (root_at i l) (root_at (i + n_nodes l) r)]"
| "flat i j (T_Ternary c t e) =
     flat i j c @ flat (i + n_nodes c) (j + n_args c) t @
     flat (i + n_nodes c + n_nodes t) (j + n_args c + n_args t) e @
     [Node_Ternary (root_at i c) (root_at (i + n_nodes c) t) (root_at (i + n_nodes c + n_nodes t) e)]"
| "flat i j (T_List ts) = flats i j ts @ [Node_List (j + ns_args ts) (length ts)]"
| "flats i j [] = []"
| "flats i j (t # ts) = flat i j t @ flats (i + n_nodes t) (j + n_args t) ts"

fun flat_args :: "nat \<Rightarrow> tree \<Rightarrow> node_id list"
  and flats_args :: "nat \<Rightarrow> tree list \<Rightarrow> node_id list" where
  "flat_args i (T_Field b name) = flat_args i b"
| "flat_args i (T_Index b t) = flat_args i b @ flat_args (i + n_nodes b) t"
| "flat_args i (T_Call b m ts) =
     flat_args i b @ flats_args (i + n_nodes b) ts @ roots_at (i + n_nodes b) ts"
| "flat_args i (T_Not t) = flat_args i t"
| "flat_args i (T_Bin op l r) = flat_args i l @ flat_args (i + n_nodes l) r"
| "flat_args i (T_And l r) = flat_args i l @ flat_args (i + n_nodes l) r"
| "flat_args i (T_Or l r) = flat_args i l @ flat_args (i + n_nodes l) r"
| "flat_args i (T_Ternary c t e) =
     flat_args i c @ flat_args (i + n_nodes c) t @ flat_args (i + n_nodes c + n_nodes t) e"
| "flat_args i (T_List ts) = flats_args i ts @ roots_at i ts"
| "flat_args i _ = []"
| "flats_args i [] = []"
| "flats_args i (t # ts) = flat_args i t @ flats_args (i + n_nodes t) ts"

lemma n_nodes_pos [simp]: "0 < n_nodes t"
  by (cases t) auto

lemma length_roots_at [simp]: "length (roots_at i ts) = length ts"
  by (induction ts arbitrary: i) auto

lemma length_flat [simp]: "length (flat i j t) = n_nodes t" "length (flats i j ts) = ns_nodes ts"
  by (induction i j t and i j ts rule: flat_flats.induct) auto

lemma length_flat_args [simp]:
  "length (flat_args i t) = n_args t" "length (flats_args i ts) = ns_args ts"
  by (induction i t and i ts rule: flat_args_flats_args.induct) auto

text \<open>An arena that is the layout of a tree.\<close>

definition arena_of :: "tree \<Rightarrow> ast \<Rightarrow> bool" where
  "arena_of t a \<longleftrightarrow> a_nodes a = flat 0 0 t \<and> a_args a = flat_args 0 t \<and> a_root a = n_nodes t - 1"

text \<open>
  Method names. \<^verbatim>\<open>Method::from_name\<close> and \<^verbatim>\<open>Method::as_str\<close> are inverse to each other: a name
  is accepted exactly if it is the spelling of the method it is accepted as.
\<close>

theorem method_name_roundtrip: "method_from_name name = Some m \<longleftrightarrow> name = method_as_str m"
  by (cases m) (auto simp: method_from_name_def)

end
