(* ===== verification/Policy_Check.thy ===== *)
theory Policy_Check
  imports Policy_Program Policy_Ast
begin

text \<open>
  The type and phase checker (\<^verbatim>\<open>check.rs\<close>): one forward pass over the arena that resolves
  attribute paths, types every node and allocates the attribute slots. The borrows of
  \<^verbatim>\<open>Checker\<close> that never change are the record \<open>kctx\<close>, the arrays it fills the record \<open>kstate\<close>.
  An error abandons the pass. \<^verbatim>\<open>AttrRef\<close> is \<open>attr_ref\<close> of the program theory.
\<close>

section \<open>State and errors\<close>

datatype check_error =
    UnknownAttribute nat span
  | NotAvailableInPhase nat attr_id phase phase
  | MapNotAvailableInPhase nat map_id phase phase
  | TypeMismatch nat ty ty
  | NotOrdered nat ty
  | NotIndexable nat ty
  | DynamicIndex nat
  | BadReceiver nat meth ty
  | BadArgument nat meth ty
  | HeterogeneousList nat ty ty
  | InRequiresList nat ty
  | NonConstantRegex nat
  | TooManyAttrSlots nat
  | NotANamespace nat

record checked =
  ck_ast :: ast
  ck_types :: "ty list"
  ck_slots :: "attr_ref list"
  ck_node_slot :: "nat list"
  ck_phase :: phase
  ck_result :: ty
  ck_strings :: bytes

definition NO_SLOT :: nat where
  "NO_SLOT = u16_max"

record kctx =
  k_ast :: ast
  k_src :: bytes
  k_phase :: phase
  k_limits :: policy_limits
  k_is_field_base :: "bool list"

record kstate =
  k_strings :: bytes
  k_types :: "ty list"
  k_starts :: "nat list"
  k_node_slot :: "nat list"
  k_node_map :: "map_id option list"
  k_slots :: "attr_ref list"

section \<open>Attribute paths\<close>

definition namespace_or_error :: "span \<Rightarrow> bytes \<Rightarrow> check_error + unit" where
  "namespace_or_error sp src =
     and_then (ok_or (span_slice sp src) (UnknownAttribute (sp_start sp) sp)) (\<lambda>bs.
       if bs \<in> set NAMESPACES then Inr () else Inl (UnknownAttribute (sp_start sp) sp))"

text \<open>\<^verbatim>\<open>buf[c..c + seg.len()].copy_from_slice(seg)\<close>, for a range inside the buffer.\<close>

definition copy_at :: "bytes \<Rightarrow> nat \<Rightarrow> bytes \<Rightarrow> bytes" where
  "copy_at buf c seg = take c buf @ seg @ drop (c + length seg) buf"

definition push_segment :: "bytes \<Rightarrow> nat \<Rightarrow> bytes \<Rightarrow> bool \<Rightarrow> (bytes \<times> nat) option" where
  "push_segment buf cursor seg first =
     (let need = length seg + (if first then 0 else 1) in
      if cursor < need then None
      else (let (buf, c) = (if first then (buf, cursor)
                            else (copy_at buf (cursor - 1) ''.'', cursor - 1));
                c = c - length seg
            in Some (copy_at buf c seg, c)))"

text \<open>The loop of \<^verbatim>\<open>assemble_path\<close>; every round but the first writes at least the dot, so the
  cursor bounds the rounds.\<close>

function assemble_loop ::
  "ast \<Rightarrow> bytes \<Rightarrow> span \<Rightarrow> bytes \<Rightarrow> nat \<Rightarrow> span \<Rightarrow> node_id \<Rightarrow> bool \<Rightarrow> check_error + bytes \<times> nat \<times> span" where
  "assemble_loop ast src name buf cursor seg cur first =
     (case span_slice seg src of
        None \<Rightarrow> Inl (UnknownAttribute (sp_start seg) seg)
      | Some bs \<Rightarrow>
          (case push_segment buf cursor bs first of
             None \<Rightarrow> Inl (UnknownAttribute (sp_start seg) (mk_span (sp_start seg) (sp_end name)))
           | Some (buf', cursor') \<Rightarrow>
               (case ast_node ast cur of
                  Some (Node_Ident root) \<Rightarrow>
                    (case span_slice root src of
                       None \<Rightarrow> Inl (UnknownAttribute (sp_start root) root)
                     | Some rb \<Rightarrow>
                         (case push_segment buf' cursor' rb False of
                            None \<Rightarrow> Inl (UnknownAttribute (sp_start root) (mk_span (sp_start root) (sp_end name)))
                          | Some (buf'', cursor'') \<Rightarrow>
                              Inr (buf'', cursor'', mk_span (sp_start root) (sp_end name))))
                | Some (Node_Field b2 n2) \<Rightarrow> assemble_loop ast src name buf' cursor' n2 b2 False
                | _ \<Rightarrow> Inl (NotANamespace (sp_start seg)))))"
  by pat_completeness auto
termination
  by (relation "measure (\<lambda>(ast, src, name, buf, cursor, seg, cur, first). cursor + (if first then 1 else 0))")
    (auto simp: push_segment_def Let_def split: if_splits)

declare assemble_loop.simps [simp del]

definition assemble_path :: "ast \<Rightarrow> bytes \<Rightarrow> node_id \<Rightarrow> span \<Rightarrow> check_error + bytes \<times> nat \<times> span" where
  "assemble_path ast src base name =
     assemble_loop ast src name (replicate MAX_PATH_BYTES (char_of (0 :: nat))) MAX_PATH_BYTES name base True"

section \<open>Slots\<close>

definition ref_bytes :: "bytes \<Rightarrow> attr_ref \<Rightarrow> bytes" where
  "ref_bytes strings r =
     (case r of
        Scalar _ \<Rightarrow> []
      | Field _ key \<Rightarrow> (case get_range strings (sp_start key) (sp_end key) of None \<Rightarrow> [] | Some b \<Rightarrow> b))"

definition same_ref :: "bytes \<Rightarrow> attr_ref \<Rightarrow> attr_ref \<Rightarrow> bool" where
  "same_ref strings a b =
     (case (a, b) of
        (Scalar x, Scalar y) \<Rightarrow> x = y
      | (Field m1 _, Field m2 _) \<Rightarrow> m1 = m2 \<and> ref_bytes strings a = ref_bytes strings b
      | _ \<Rightarrow> False)"

text \<open>\<^verbatim>\<open>Iterator::position\<close>.\<close>

fun position :: "('a \<Rightarrow> bool) \<Rightarrow> 'a list \<Rightarrow> nat option" where
  "position f [] = None"
| "position f (x # xs) = (if f x then Some 0 else map_option Suc (position f xs))"

definition fits_u16 :: "nat \<Rightarrow> nat option" where
  "fits_u16 n = (if n \<le> u16_max then Some n else None)"

definition intern_slot :: "attr_ref list \<Rightarrow> bytes \<Rightarrow> attr_ref \<Rightarrow> nat option \<times> attr_ref list" where
  "intern_slot slots strings want =
     (case position (\<lambda>s. same_ref strings s want) slots of
        Some i \<Rightarrow> (fits_u16 i, slots)
      | None \<Rightarrow> (fits_u16 (length slots), slots @ [want]))"

section \<open>The checker\<close>

definition ty_of :: "kstate \<Rightarrow> node_id \<Rightarrow> ty" where
  "ty_of s i = (case get (k_types s) i of None \<Rightarrow> Ty_Null | Some t \<Rightarrow> t)"

definition start_of :: "kstate \<Rightarrow> node_id \<Rightarrow> nat" where
  "start_of s i = (case get (k_starts s) i of None \<Rightarrow> 0 | Some n \<Rightarrow> n)"

definition intern :: "kctx \<Rightarrow> attr_ref \<Rightarrow> kstate \<Rightarrow> check_error + nat \<times> kstate" where
  "intern c want s =
     (let (r, slots) = intern_slot (k_slots s) (k_strings s) want
      in and_then (ok_or r (TooManyAttrSlots (max_attr_slots (k_limits c)))) (\<lambda>i. Inr (i, s\<lparr>k_slots := slots\<rparr>)))"

definition expect_ty :: "kstate \<Rightarrow> node_id \<Rightarrow> ty \<Rightarrow> check_error + unit" where
  "expect_ty s i want =
     (if ty_of s i = want then Inr () else Inl (TypeMismatch (start_of s i) want (ty_of s i)))"

definition resolve_field :: "kctx \<Rightarrow> nat \<Rightarrow> node_id \<Rightarrow> span \<Rightarrow> kstate \<Rightarrow> check_error + ty \<times> kstate" where
  "resolve_field c i base name s =
     (if ty_of s base \<noteq> Ty_Map then Inl (NotANamespace (start_of s base))
      else and_then (assemble_path (k_ast c) (k_src c) base name) (\<lambda>(buf, cursor, path_span).
        case resolve_path (drop cursor buf) of
          None \<Rightarrow> Inl (UnknownAttribute (sp_start path_span) path_span)
        | Some entry \<Rightarrow>
            (case (ae_attr entry, ae_map entry) of
               (Some attr, _) \<Rightarrow>
                 if \<not> attr_available_in attr (k_phase c)
                 then Inl (NotAvailableInPhase (sp_start path_span) attr (k_phase c) (attr_from_phase attr))
                 else and_then (intern c (Scalar attr) s) (\<lambda>(slot, s).
                   Inr (attr_ty attr, s\<lparr>k_node_slot := set_at (k_node_slot s) i slot\<rparr>))
             | (None, Some m) \<Rightarrow> Inr (Ty_Map, s\<lparr>k_node_map := set_at (k_node_map s) i (Some m)\<rparr>)
             | (None, None) \<Rightarrow> Inl (UnknownAttribute (sp_start path_span) path_span))))"

definition phase_available :: "kctx \<Rightarrow> phase \<Rightarrow> bool" where
  "phase_available c from \<longleftrightarrow> phase_index from \<le> phase_index (k_phase c)"

text \<open>Canonical case of a map key: a header name is lowercased into a fresh range of the string
  arena.\<close>

definition canonical_key :: "map_id \<Rightarrow> span \<Rightarrow> bytes \<Rightarrow> span \<times> bytes" where
  "canonical_key m key strings =
     (if map_lowercase_keys m
      then (let original = (case get_range strings (sp_start key) (sp_end key) of None \<Rightarrow> [] | Some b \<Rightarrow> b);
                strings' = strings @ map to_ascii_lowercase original
            in (mk_span (to_u32 (length strings)) (to_u32 (length strings')), strings'))
      else (key, strings))"

definition resolve_index :: "kctx \<Rightarrow> nat \<Rightarrow> node_id \<Rightarrow> node_id \<Rightarrow> kstate \<Rightarrow> check_error + ty \<times> kstate" where
  "resolve_index c i base index s =
     (case Option.bind (get (k_node_map s) base) (\<lambda>x. x) of
        None \<Rightarrow> Inl (NotIndexable (start_of s base) (ty_of s base))
      | Some m \<Rightarrow>
          (case ast_node (k_ast c) index of
             Some (Node_Str key) \<Rightarrow>
               (let (key, strings) = canonical_key m key (k_strings s);
                    s = s\<lparr>k_strings := strings\<rparr>
                in if \<not> phase_available c (map_from_phase m)
                   then Inl (MapNotAvailableInPhase (start_of s index) m (k_phase c) (map_from_phase m))
                   else and_then (intern c (Field m key) s) (\<lambda>(slot, s).
                     Inr (Ty_Str, s\<lparr>k_node_slot := set_at (k_node_slot s) i slot\<rparr>)))
           | _ \<Rightarrow> Inl (DynamicIndex (start_of s index))))"

definition check_call :: "kctx \<Rightarrow> node_id \<Rightarrow> meth \<Rightarrow> nat \<Rightarrow> nat \<Rightarrow> kstate \<Rightarrow> check_error + ty" where
  "check_call c base m args_from args_len s =
     (let base_ty = ty_of s base in
      if m = Method_Size
      then (if base_ty = Ty_Str \<or> base_ty = Ty_List then Inr Ty_Int
            else Inl (BadReceiver (start_of s base) m base_ty))
      else if \<not> (base_ty = Ty_Str \<or> base_ty = Ty_Null) then Inl (BadReceiver (start_of s base) m base_ty)
      else (case args_of (k_ast c) args_from args_len of
          [] \<Rightarrow> Inl (BadArgument (start_of s base) m Ty_Null)
        | arg0 # _ \<Rightarrow>
            if ty_of s arg0 \<noteq> Ty_Str then Inl (BadArgument (start_of s arg0) m (ty_of s arg0))
            else if m = Method_Matches \<and> (case ast_node (k_ast c) arg0 of Some (Node_Str _) \<Rightarrow> False | _ \<Rightarrow> True)
            then Inl (NonConstantRegex (start_of s arg0))
            else Inr Ty_Bool))"

definition is_scalar_ty :: "ty \<Rightarrow> bool" where
  "is_scalar_ty t \<longleftrightarrow> t = Ty_Str \<or> t = Ty_Int \<or> t = Ty_Bool"

definition check_bin :: "kctx \<Rightarrow> bin_op \<Rightarrow> node_id \<Rightarrow> node_id \<Rightarrow> kstate \<Rightarrow> check_error + ty" where
  "check_bin c op lhs rhs s =
     (let lty = ty_of s lhs; rty = ty_of s rhs in
      if op = BinOp_Eq \<or> op = BinOp_Ne
      then (let ok = (if lty = rty then \<not> (lty = Ty_Map \<or> lty = Ty_List)
                      else lty = Ty_Null \<and> is_scalar_ty rty \<or> rty = Ty_Null \<and> is_scalar_ty lty)
            in if ok then Inr Ty_Bool else Inl (TypeMismatch (start_of s lhs) lty rty))
      else if op = BinOp_In
      then (case ast_node (k_ast c) rhs of
          Some (Node_List from len) \<Rightarrow>
            if lty = Ty_Map \<or> lty = Ty_List then Inl (HeterogeneousList (start_of s lhs) lty lty)
            else (case args_of (k_ast c) from len of
                first # _ \<Rightarrow>
                  if ty_of s first \<noteq> lty then Inl (HeterogeneousList (start_of s rhs) (ty_of s first) lty)
                  else Inr Ty_Bool
              | [] \<Rightarrow> Inr Ty_Bool)
        | _ \<Rightarrow> Inl (InRequiresList (start_of s rhs) rty))
      else if lty = Ty_Int \<and> rty = Ty_Int then Inr Ty_Bool
      else Inl (NotOrdered (start_of s lhs) (if lty = Ty_Int then rty else lty)))"

definition check_list :: "kctx \<Rightarrow> nat \<Rightarrow> nat \<Rightarrow> kstate \<Rightarrow> check_error + ty" where
  "check_list c from len s =
     (case args_of (k_ast c) from len of
        [] \<Rightarrow> Inr Ty_List
      | first # rest \<Rightarrow>
          (let first_ty = ty_of s first in
           if \<not> is_scalar_ty first_ty then Inl (HeterogeneousList (start_of s first) first_ty first_ty)
           else (case find (\<lambda>e. ty_of s e \<noteq> first_ty) rest of
               Some e \<Rightarrow> Inl (HeterogeneousList (start_of s e) first_ty (ty_of s e))
             | None \<Rightarrow> Inr Ty_List)))"

definition unify :: "node_id \<Rightarrow> node_id \<Rightarrow> kstate \<Rightarrow> check_error + ty" where
  "unify then_id else_id s =
     (let t = ty_of s then_id; e = ty_of s else_id in
      if t = e then Inr t
      else if t = Ty_Null \<and> is_scalar_ty e then Inr e
      else if e = Ty_Null \<and> is_scalar_ty t then Inr t
      else Inl (TypeMismatch (start_of s then_id) t e))"

text \<open>The state of the arms that change nothing is returned as it was.\<close>

definition pure :: "kstate \<Rightarrow> nat \<Rightarrow> check_error + ty \<Rightarrow> check_error + (ty \<times> nat) \<times> kstate" where
  "pure s start r = and_then r (\<lambda>t. Inr ((t, start), s))"

fun check_node :: "kctx \<Rightarrow> nat \<Rightarrow> node \<Rightarrow> kstate \<Rightarrow> check_error + (ty \<times> nat) \<times> kstate" where
  "check_node c i (Node_Bool _) s = Inr ((Ty_Bool, 0), s)"
| "check_node c i (Node_Int _) s = Inr ((Ty_Int, 0), s)"
| "check_node c i (Node_Str sp) s = Inr ((Ty_Str, sp_start sp), s)"
| "check_node c i Node_Null s = Inr ((Ty_Null, 0), s)"
| "check_node c i (Node_Ident sp) s =
     and_then (if get (k_is_field_base c) i = Some True then Inr () else namespace_or_error sp (k_src c)) (\<lambda>_.
       Inr ((Ty_Map, sp_start sp), s))"
| "check_node c i (Node_Field base name) s =
     and_then (resolve_field c i base name s) (\<lambda>(t, s). Inr ((t, start_of s base), s))"
| "check_node c i (Node_Index base index) s =
     and_then (resolve_index c i base index s) (\<lambda>(t, s). Inr ((t, start_of s base), s))"
| "check_node c i (Node_Call base m args_from args_len) s =
     pure s (start_of s base) (check_call c base m args_from args_len s)"
| "check_node c i (Node_Not inner) s =
     pure s (start_of s inner) (and_then (expect_ty s inner Ty_Bool) (\<lambda>_. Inr Ty_Bool))"
| "check_node c i (Node_And lhs rhs) s =
     pure s (start_of s lhs) (and_then (expect_ty s lhs Ty_Bool) (\<lambda>_.
       and_then (expect_ty s rhs Ty_Bool) (\<lambda>_. Inr Ty_Bool)))"
| "check_node c i (Node_Or lhs rhs) s =
     pure s (start_of s lhs) (and_then (expect_ty s lhs Ty_Bool) (\<lambda>_.
       and_then (expect_ty s rhs Ty_Bool) (\<lambda>_. Inr Ty_Bool)))"
| "check_node c i (Node_Bin op lhs rhs) s = pure s (start_of s lhs) (check_bin c op lhs rhs s)"
| "check_node c i (Node_Ternary cond then_id else_id) s =
     pure s (start_of s cond) (and_then (expect_ty s cond Ty_Bool) (\<lambda>_. unify then_id else_id s))"
| "check_node c i (Node_List from len) s =
     pure s (case args_of (k_ast c) from len of [] \<Rightarrow> 0 | e # _ \<Rightarrow> start_of s e) (check_list c from len s)"

text \<open>One round of the loop of \<^verbatim>\<open>check\<close>, and the loop over the nodes from index \<open>i\<close> on.\<close>

definition check_step :: "kctx \<Rightarrow> nat \<Rightarrow> node \<Rightarrow> kstate \<Rightarrow> check_error + kstate" where
  "check_step c i node s =
     and_then (check_node c i node s) (\<lambda>((t, start), s).
       Inr (s\<lparr>k_types := set_at (k_types s) i t, k_starts := set_at (k_starts s) i start\<rparr>))"

fun check_loop :: "kctx \<Rightarrow> nat \<Rightarrow> node list \<Rightarrow> kstate \<Rightarrow> check_error + kstate" where
  "check_loop c i [] s = Inr s"
| "check_loop c i (n # ns) s = and_then (check_step c i n s) (check_loop c (Suc i) ns)"

definition mark_field_base :: "node \<Rightarrow> bool list \<Rightarrow> bool list" where
  "mark_field_base n flags = (case n of Node_Field base _ \<Rightarrow> set_at flags base True | _ \<Rightarrow> flags)"

definition field_bases :: "node list \<Rightarrow> bool list" where
  "field_bases ns = fold mark_field_base ns (replicate (length ns) False)"

definition check_start :: "nat \<Rightarrow> bytes \<Rightarrow> kstate" where
  "check_start n strings =
     \<lparr>k_strings = strings, k_types = replicate n Ty_Null, k_starts = replicate n 0,
      k_node_slot = replicate n NO_SLOT, k_node_map = replicate n None, k_slots = []\<rparr>"

definition check :: "ast \<Rightarrow> bytes \<Rightarrow> bytes \<Rightarrow> phase \<Rightarrow> policy_limits \<Rightarrow> check_error + checked" where
  "check ast strings src phase limits =
     (let c = \<lparr>k_ast = ast, k_src = src, k_phase = phase, k_limits = limits,
               k_is_field_base = field_bases (a_nodes ast)\<rparr>
      in and_then (check_loop c 0 (a_nodes ast) (check_start (length (a_nodes ast)) strings)) (\<lambda>s.
        if max_attr_slots limits < length (k_slots s) then Inl (TooManyAttrSlots (max_attr_slots limits))
        else if ty_of s (a_root ast) = Ty_Map
        then Inl (TypeMismatch (start_of s (a_root ast)) Ty_Bool Ty_Map)
        else Inr \<lparr>ck_ast = ast, ck_types = k_types s, ck_slots = k_slots s, ck_node_slot = k_node_slot s,
                  ck_phase = phase, ck_result = ty_of s (a_root ast), ck_strings = k_strings s\<rparr>))"

end
