(* ===== verification/Policy_Compile.thy ===== *)
theory Policy_Compile
  imports Policy_Check Policy_VM Rust_Str
begin

text \<open>
  The compiler (\<^verbatim>\<open>compile.rs\<close>): the two passes that find where placeholder jumps are reserved and
  which nodes emit no code of their own, constant and regex interning, the emission of every node
  kind with the patching of its jumps, and \<^verbatim>\<open>compile\<close> itself, which verifies what it has emitted.
\<close>

section \<open>Types\<close>

datatype compile_error =
    BadRegex nat bytes
  | TooManyRegexes nat
  | TooManyConsts nat
  | Compile_Verify verify_error

datatype hole_kind = Hole_JumpIfFalse | Hole_JumpIfTrue | Hole_BranchIfFalse | Hole_Jump

fun placeholder_for :: "hole_kind \<Rightarrow> op" where
  "placeholder_for Hole_JumpIfFalse = Op_JumpIfFalse 0"
| "placeholder_for Hole_JumpIfTrue = Op_JumpIfTrue 0"
| "placeholder_for Hole_BranchIfFalse = Op_BranchIfFalse 0"
| "placeholder_for Hole_Jump = Op_Jump 0"

section \<open>The passes before the sweep\<close>

definition mark_hole :: "nat \<Rightarrow> hole_kind \<Rightarrow> hole_kind option list \<Rightarrow> hole_kind option list" where
  "mark_hole idx kind holes = set_at holes idx (Some kind)"

definition mark_node_holes :: "node \<Rightarrow> hole_kind option list \<Rightarrow> hole_kind option list" where
  "mark_node_holes nd holes =
     (case nd of
        Node_And lhs _ \<Rightarrow> mark_hole (lhs + 1) Hole_JumpIfFalse holes
      | Node_Or lhs _ \<Rightarrow> mark_hole (lhs + 1) Hole_JumpIfTrue holes
      | Node_Ternary cond then_id _ \<Rightarrow>
          mark_hole (then_id + 1) Hole_Jump (mark_hole (cond + 1) Hole_BranchIfFalse holes)
      | _ \<Rightarrow> holes)"

definition build_hole_before :: "ast \<Rightarrow> nat \<Rightarrow> hole_kind option list" where
  "build_hole_before ast n = fold mark_node_holes (a_nodes ast) (replicate n None)"

definition is_literal_node :: "ast \<Rightarrow> node_id \<Rightarrow> bool" where
  "is_literal_node ast i =
     (case ast_node ast i of
        Some (Node_Bool _) \<Rightarrow> True
      | Some (Node_Int _) \<Rightarrow> True
      | Some (Node_Str _) \<Rightarrow> True
      | Some Node_Null \<Rightarrow> True
      | _ \<Rightarrow> False)"

definition mark_bool :: "nat \<Rightarrow> bool list \<Rightarrow> bool list" where
  "mark_bool idx flags = set_at flags idx True"

definition mark_node_suppressed :: "ast \<Rightarrow> node \<Rightarrow> bool list \<Rightarrow> bool list" where
  "mark_node_suppressed ast nd flags =
     (case nd of
        Node_List from len \<Rightarrow>
          fold (\<lambda>elem flags. if is_literal_node ast elem then mark_bool elem flags else flags)
            (args_of ast from len) flags
      | Node_Call _ m args_from args_len \<Rightarrow>
          if m = Method_Matches
          then (case args_of ast args_from args_len of pat # _ \<Rightarrow> mark_bool pat flags | [] \<Rightarrow> flags)
          else flags
      | _ \<Rightarrow> flags)"

definition build_suppressed :: "ast \<Rightarrow> nat \<Rightarrow> bool list" where
  "build_suppressed ast n = fold (mark_node_suppressed ast) (a_nodes ast) (replicate n False)"

section \<open>Constants\<close>

definition slice_of :: "bytes \<Rightarrow> nat \<Rightarrow> nat \<Rightarrow> bytes" where
  "slice_of buf from len = (case get_range buf from (sat_add from len) of None \<Rightarrow> [] | Some s \<Rightarrow> s)"

definition elems_of :: "const list \<Rightarrow> nat \<Rightarrow> nat \<Rightarrow> const list" where
  "elems_of buf from len = (case get_range buf from (sat_add from len) of None \<Rightarrow> [] | Some s \<Rightarrow> s)"

text \<open>
  The recursion through the element table is bounded by \<open>fuel\<close>. The compiler puts leaf constants
  into the element table only, so that two rounds are all it ever needs.
\<close>

fun const_eq :: "nat \<Rightarrow> const \<Rightarrow> const \<Rightarrow> bytes \<Rightarrow> const list \<Rightarrow> bool" where
  "const_eq 0 a b strings list_elems = False"
| "const_eq (Suc fuel) a b strings list_elems =
     (case (a, b) of
        (Const_Bool x, Const_Bool y) \<Rightarrow> x = y
      | (Const_Int x, Const_Int y) \<Rightarrow> x = y
      | (Const_Null, Const_Null) \<Rightarrow> True
      | (Const_Str f1 l1, Const_Str f2 l2) \<Rightarrow> slice_of strings f1 l1 = slice_of strings f2 l2
      | (Const_List f1 l1, Const_List f2 l2) \<Rightarrow>
          (let a_elems = elems_of list_elems f1 l1; b_elems = elems_of list_elems f2 l2
           in length a_elems = length b_elems \<and>
              list_all (\<lambda>(x, y). const_eq fuel x y strings list_elems) (zip a_elems b_elems))
      | _ \<Rightarrow> False)"

definition const_of_leaf :: "ast \<Rightarrow> node_id \<Rightarrow> const" where
  "const_of_leaf ast i =
     (case ast_node ast i of
        Some (Node_Bool b) \<Rightarrow> Const_Bool b
      | Some (Node_Int v) \<Rightarrow> Const_Int v
      | Some (Node_Str s) \<Rightarrow> Const_Str (sp_start s) (span_len s)
      | _ \<Rightarrow> Const_Null)"

definition is_list_node :: "ast \<Rightarrow> node_id \<Rightarrow> bool" where
  "is_list_node ast i = (case ast_node ast i of Some (Node_List _ _) \<Rightarrow> True | _ \<Rightarrow> False)"

definition list_len_of :: "ast \<Rightarrow> node_id \<Rightarrow> nat" where
  "list_len_of ast i = (case ast_node ast i of Some (Node_List _ len) \<Rightarrow> len | _ \<Rightarrow> 0)"

fun comparison_op :: "bin_op \<Rightarrow> op" where
  "comparison_op BinOp_Eq = Op_Eq"
| "comparison_op BinOp_In = Op_Eq"
| "comparison_op BinOp_Ne = Op_Ne"
| "comparison_op BinOp_Lt = Op_Lt"
| "comparison_op BinOp_Le = Op_Le"
| "comparison_op BinOp_Gt = Op_Gt"
| "comparison_op BinOp_Ge = Op_Ge"

fun method_op :: "meth \<Rightarrow> op" where
  "method_op Method_StartsWith = Op_StartsWith"
| "method_op Method_EndsWith = Op_EndsWith"
| "method_op Method_Contains = Op_Contains"
| "method_op Method_EqualsIgnoreCase = Op_EqIgnoreCase"
| "method_op Method_StartsWithIgnoreCase = Op_StartsWithIgnoreCase"
| "method_op Method_Size = Op_Not"
| "method_op Method_Matches = Op_Not"

section \<open>The sweep\<close>

text \<open>\<^verbatim>\<open>Compiler\<close>: what it only reads, and the tables it builds.\<close>

record 'r cctx =
  m_ext :: "'r crates"
  m_checked :: checked
  m_limits :: policy_limits
  m_hole_before :: "hole_kind option list"
  m_suppressed :: "bool list"

record 'r cstate =
  g_hole_pos :: "nat list"
  g_node_const :: "nat list"
  g_code :: "op list"
  g_consts :: "const list"
  g_list_elems :: "const list"
  g_regexes :: "'r list"

definition CONST_EQ_FUEL :: nat where
  "CONST_EQ_FUEL = 2"

definition intern_const :: "'r cctx \<Rightarrow> const \<Rightarrow> 'r cstate \<Rightarrow> compile_error + nat \<times> 'r cstate" where
  "intern_const c want s =
     (case position (\<lambda>x. const_eq CONST_EQ_FUEL x want (ck_strings (m_checked c)) (g_list_elems s)) (g_consts s) of
        Some i \<Rightarrow> Inr (to_u16 i, s)
      | None \<Rightarrow>
          if max_consts (m_limits c) \<le> length (g_consts s) then Inl (TooManyConsts (max_consts (m_limits c)))
          else Inr (to_u16 (length (g_consts s)), s\<lparr>g_consts := g_consts s @ [want]\<rparr>))"

definition intern_regex :: "'r cctx \<Rightarrow> bytes \<Rightarrow> nat \<Rightarrow> 'r cstate \<Rightarrow> compile_error + nat \<times> 'r cstate" where
  "intern_regex c pattern at s =
     (case position (\<lambda>r. regex_as_str (m_ext c) r = pattern) (g_regexes s) of
        Some i \<Rightarrow> Inr (to_u16 i, s)
      | None \<Rightarrow>
          if max_regex (m_limits c) \<le> length (g_regexes s) then Inl (TooManyRegexes (max_regex (m_limits c)))
          else and_then (map_err (BadRegex at) (regex_build (m_ext c) pattern (max_regex_size (m_limits c)))) (\<lambda>built.
            Inr (to_u16 (length (g_regexes s)), s\<lparr>g_regexes := g_regexes s @ [built]\<rparr>)))"

definition push_op :: "op \<Rightarrow> 'r cstate \<Rightarrow> 'r cstate" where
  "push_op op s = s\<lparr>g_code := g_code s @ [op]\<rparr>"

definition open_hole :: "'r cctx \<Rightarrow> nat \<Rightarrow> 'r cstate \<Rightarrow> 'r cstate" where
  "open_hole c i s =
     (case Option.bind (get (m_hole_before c) i) (\<lambda>x. x) of
        None \<Rightarrow> s
      | Some kind \<Rightarrow>
          push_op (placeholder_for kind) (s\<lparr>g_hole_pos := set_at (g_hole_pos s) i (to_u16 (length (g_code s)))\<rparr>))"

fun retarget :: "op \<Rightarrow> nat \<Rightarrow> op" where
  "retarget (Op_Jump _) t = Op_Jump t"
| "retarget (Op_JumpIfFalse _) t = Op_JumpIfFalse t"
| "retarget (Op_JumpIfTrue _) t = Op_JumpIfTrue t"
| "retarget (Op_BranchIfFalse _) t = Op_BranchIfFalse t"
| "retarget op t = op"

definition patch :: "nat \<Rightarrow> nat \<Rightarrow> 'r cstate \<Rightarrow> 'r cstate" where
  "patch key target s =
     (case get (g_hole_pos s) key of
        None \<Rightarrow> s
      | Some p \<Rightarrow>
          (case get (g_code s) p of
             None \<Rightarrow> s
           | Some op \<Rightarrow> s\<lparr>g_code := (g_code s)[p := retarget op target]\<rparr>))"

definition is_suppressed :: "'r cctx \<Rightarrow> nat \<Rightarrow> bool" where
  "is_suppressed c i \<longleftrightarrow> get (m_suppressed c) i = Some True"

definition emit_leaf :: "'r cctx \<Rightarrow> nat \<Rightarrow> const \<Rightarrow> 'r cstate \<Rightarrow> compile_error + 'r cstate" where
  "emit_leaf c i want s =
     (if is_suppressed c i then Inr s
      else and_then (intern_const c want s) (\<lambda>(n, s). Inr (push_op (Op_LoadConst n) s)))"

definition emit_attr :: "'r cctx \<Rightarrow> nat \<Rightarrow> 'r cstate \<Rightarrow> 'r cstate" where
  "emit_attr c i s =
     (if is_suppressed c i then s
      else (let slot = (case get (ck_node_slot (m_checked c)) i of None \<Rightarrow> NO_SLOT | Some slot \<Rightarrow> slot)
            in if slot \<noteq> NO_SLOT then push_op (Op_LoadAttr slot) s else s))"

definition emit_size_call :: "'r cctx \<Rightarrow> node_id \<Rightarrow> 'r cstate \<Rightarrow> compile_error + 'r cstate" where
  "emit_size_call c base s =
     (let ast = ck_ast (m_checked c) in
      if is_list_node ast base
      then and_then (intern_const c (Const_Int (int (list_len_of ast base))) s) (\<lambda>(n, s).
             Inr (push_op (Op_LoadConst n) s))
      else Inr (push_op Op_Size s))"

definition not_utf8_message :: bytes where
  "not_utf8_message = ''regex pattern is not valid UTF-8''"

definition emit_matches_call :: "'r cctx \<Rightarrow> nat \<Rightarrow> nat \<Rightarrow> 'r cstate \<Rightarrow> compile_error + 'r cstate" where
  "emit_matches_call c args_from args_len s =
     (let ast = ck_ast (m_checked c);
          (pattern, at) =
            (case args_of ast args_from args_len of
               a # _ \<Rightarrow>
                 (case ast_node ast a of
                    Some (Node_Str key) \<Rightarrow>
                      (slice_of (ck_strings (m_checked c)) (sp_start key) (span_len key), sp_start key)
                  | _ \<Rightarrow> ([], 0))
             | [] \<Rightarrow> ([], 0))
      in if \<not> utf8_valid pattern then Inl (BadRegex at not_utf8_message)
         else and_then (intern_regex c pattern at s) (\<lambda>(n, s). Inr (push_op (Op_RegexMatch n) s)))"

definition emit_list :: "'r cctx \<Rightarrow> nat \<Rightarrow> nat \<Rightarrow> nat \<Rightarrow> 'r cstate \<Rightarrow> compile_error + 'r cstate" where
  "emit_list c i from len s =
     (let ast = ck_ast (m_checked c); elems = args_of ast from len;
          from_idx = to_u32 (length (g_list_elems s));
          s = s\<lparr>g_list_elems := g_list_elems s @ map (const_of_leaf ast) elems\<rparr>
      in and_then (intern_const c (Const_List from_idx (to_u32 (length elems))) s) (\<lambda>(n, s).
           Inr (s\<lparr>g_node_const := set_at (g_node_const s) i n\<rparr>)))"

fun emit_node :: "'r cctx \<Rightarrow> nat \<Rightarrow> node \<Rightarrow> 'r cstate \<Rightarrow> compile_error + 'r cstate" where
  "emit_node c i (Node_Bool b) s = emit_leaf c i (Const_Bool b) s"
| "emit_node c i (Node_Int v) s = emit_leaf c i (Const_Int v) s"
| "emit_node c i (Node_Str key) s = emit_leaf c i (Const_Str (sp_start key) (span_len key)) s"
| "emit_node c i Node_Null s = emit_leaf c i Const_Null s"
| "emit_node c i (Node_Ident _) s = Inr (emit_attr c i s)"
| "emit_node c i (Node_Field _ _) s = Inr (emit_attr c i s)"
| "emit_node c i (Node_Index _ _) s = Inr (emit_attr c i s)"
| "emit_node c i (Node_Not _) s = Inr (push_op Op_Not s)"
| "emit_node c i (Node_Bin op lhs rhs) s =
     (if op = BinOp_In
      then Inr (push_op (Op_InSet (case get (g_node_const s) rhs of None \<Rightarrow> 0 | Some n \<Rightarrow> n)) s)
      else Inr (push_op (comparison_op op) s))"
| "emit_node c i (Node_Call base m args_from args_len) s =
     (if m = Method_Size then emit_size_call c base s
      else if m = Method_Matches then emit_matches_call c args_from args_len s
      else Inr (push_op (method_op m) s))"
| "emit_node c i (Node_And lhs _) s = Inr (patch (lhs + 1) (to_u16 (length (g_code s))) s)"
| "emit_node c i (Node_Or lhs _) s = Inr (patch (lhs + 1) (to_u16 (length (g_code s))) s)"
| "emit_node c i (Node_Ternary cond then_id _) s =
     (let s = patch (then_id + 1) (to_u16 (length (g_code s))) s;
          jump_pos = (case get (g_hole_pos s) (then_id + 1) of None \<Rightarrow> u16_max | Some p \<Rightarrow> p)
      in Inr (patch (cond + 1) (sat_add16 jump_pos 1) s))"
| "emit_node c i (Node_List from len) s = emit_list c i from len s"

definition compile_step :: "'r cctx \<Rightarrow> nat \<Rightarrow> node \<Rightarrow> 'r cstate \<Rightarrow> compile_error + 'r cstate" where
  "compile_step c i nd s = emit_node c i nd (open_hole c i s)"

fun compile_loop :: "'r cctx \<Rightarrow> nat \<Rightarrow> node list \<Rightarrow> 'r cstate \<Rightarrow> compile_error + 'r cstate" where
  "compile_loop c i [] s = Inr s"
| "compile_loop c i (nd # nds) s = and_then (compile_step c i nd s) (compile_loop c (Suc i) nds)"

definition compile_start :: "nat \<Rightarrow> 'r cstate" where
  "compile_start n =
     \<lparr>g_hole_pos = replicate n u16_max, g_node_const = replicate n 0, g_code = [], g_consts = [],
      g_list_elems = [], g_regexes = []\<rparr>"

definition compile :: "'r crates \<Rightarrow> checked \<Rightarrow> policy_limits \<Rightarrow> compile_error + 'r program" where
  "compile ext ck limits =
     (let n = length (a_nodes (ck_ast ck));
          c = \<lparr>m_ext = ext, m_checked = ck, m_limits = limits, m_hole_before = build_hole_before (ck_ast ck) n,
               m_suppressed = build_suppressed (ck_ast ck) n\<rparr>
      in and_then (compile_loop c 0 (a_nodes (ck_ast ck)) (compile_start n)) (\<lambda>s.
        let code = g_code s @ [Op_Ret]
        in and_then (map_err Compile_Verify (verify code (g_consts s) (ck_slots ck) (length (g_regexes s)) limits))
             (\<lambda>max_stack.
               Inr \<lparr>p_ops = code, p_consts = g_consts s, p_list_elems = g_list_elems s, p_strings = ck_strings ck,
                    p_slots = ck_slots ck, p_regexes = g_regexes s, p_result = ck_result ck, p_phase = ck_phase ck,
                    p_max_stack = max_stack\<rparr>)))"

end
