(* ===== verification/Policy_Layout.thy ===== *)
theory Policy_Layout
  imports Policy_Ast
begin

text \<open>
  Trees inside an arena. \<open>laid a i j t\<close> says that the arena \<open>a\<close> holds the layout of the tree \<open>t\<close>
  from node index \<open>i\<close> and argument index \<open>j\<close> on; the lemmas take such a layout apart along the
  tree, which is how the checker and compiler proofs turn a pass over indices into an induction
  over trees.
\<close>

definition laid :: "ast \<Rightarrow> nat \<Rightarrow> nat \<Rightarrow> tree \<Rightarrow> bool" where
  "laid a i j t \<longleftrightarrow>
     (\<exists>ps qs xs ys. a_nodes a = ps @ flat i j t @ qs \<and> length ps = i \<and>
        a_args a = xs @ flat_args i t @ ys \<and> length xs = j)"

definition laids :: "ast \<Rightarrow> nat \<Rightarrow> nat \<Rightarrow> tree list \<Rightarrow> bool" where
  "laids a i j ts \<longleftrightarrow>
     (\<exists>ps qs xs ys. a_nodes a = ps @ flats i j ts @ qs \<and> length ps = i \<and>
        a_args a = xs @ flats_args i ts @ ys \<and> length xs = j)"

lemma laid_arena: "arena_of t a \<Longrightarrow> laid a 0 0 t"
  unfolding laid_def arena_of_def by (intro exI [of _ "[]"]) simp

lemma laidI:
  assumes "a_nodes a = ps @ flat i j t @ qs" and "length ps = i"
    and "a_args a = xs @ flat_args i t @ ys" and "length xs = j"
  shows "laid a i j t"
  using assms unfolding laid_def by blast

lemma laidsI:
  assumes "a_nodes a = ps @ flats i j ts @ qs" and "length ps = i"
    and "a_args a = xs @ flats_args i ts @ ys" and "length xs = j"
  shows "laids a i j ts"
  using assms unfolding laids_def by blast

lemma laids_Cons:
  assumes "laids a i j (t # ts)"
  shows "laid a i j t" and "laids a (i + n_nodes t) (j + n_args t) ts"
proof -
  from assms obtain ps qs xs ys where a: "a_nodes a = ps @ flats i j (t # ts) @ qs" "length ps = i"
    "a_args a = xs @ flats_args i (t # ts) @ ys" "length xs = j" unfolding laids_def by blast
  show "laid a i j t" by (rule laidI [OF _ a(2) _ a(4)]) (use a in auto)
  show "laids a (i + n_nodes t) (j + n_args t) ts"
    by (rule laidsI [where ps = "ps @ flat i j t" and xs = "xs @ flat_args i t"]) (use a in auto)
qed

lemma laids_ConsD: "laids a i j (t # ts) \<Longrightarrow> laid a i j t \<and> laids a (i + n_nodes t) (j + n_args t) ts"
  using laids_Cons by blast

text \<open>Every tree is its child trees, next to each other, and one node.\<close>

fun children :: "tree \<Rightarrow> tree list" where
  "children (T_Field b _) = [b]"
| "children (T_Index b t) = [b, t]"
| "children (T_Call b _ ts) = b # ts"
| "children (T_Not t) = [t]"
| "children (T_Bin _ l r) = [l, r]"
| "children (T_And l r) = [l, r]"
| "children (T_Or l r) = [l, r]"
| "children (T_Ternary c t e) = [c, t, e]"
| "children (T_List ts) = ts"
| "children _ = []"

fun top_node :: "nat \<Rightarrow> nat \<Rightarrow> tree \<Rightarrow> node" where
  "top_node i j (T_Bool b) = Node_Bool b"
| "top_node i j (T_Int v) = Node_Int v"
| "top_node i j (T_Str s) = Node_Str s"
| "top_node i j T_Null = Node_Null"
| "top_node i j (T_Ident s) = Node_Ident s"
| "top_node i j (T_Field b name) = Node_Field (root_at i b) name"
| "top_node i j (T_Index b t) = Node_Index (root_at i b) (root_at (i + n_nodes b) t)"
| "top_node i j (T_Call b m ts) = Node_Call (root_at i b) m (j + n_args b + ns_args ts) (length ts)"
| "top_node i j (T_Not t) = Node_Not (root_at i t)"
| "top_node i j (T_Bin op l r) = Node_Bin op (root_at i l) (root_at (i + n_nodes l) r)"
| "top_node i j (T_And l r) = Node_And (root_at i l) (root_at (i + n_nodes l) r)"
| "top_node i j (T_Or l r) = Node_Or (root_at i l) (root_at (i + n_nodes l) r)"
| "top_node i j (T_Ternary c t e) =
     Node_Ternary (root_at i c) (root_at (i + n_nodes c) t) (root_at (i + n_nodes c + n_nodes t) e)"
| "top_node i j (T_List ts) = Node_List (j + ns_args ts) (length ts)"

lemma flat_children: "flat i j t = flats i j (children t) @ [top_node i j t]"
  by (cases t) auto

lemma n_nodes_children: "n_nodes t = Suc (ns_nodes (children t))"
  by (cases t) auto

lemma laid_children: "laid a i j t \<Longrightarrow> laids a i j (children t)"
proof -
  assume "laid a i j t"
  then obtain ps qs xs ys where a: "a_nodes a = ps @ flat i j t @ qs" "length ps = i"
    "a_args a = xs @ flat_args i t @ ys" "length xs = j" unfolding laid_def by blast
  obtain zs where "flat_args i t = flats_args i (children t) @ zs" by (cases t) auto
  then show ?thesis by (intro laidsI [OF _ a(2) _ a(4)]) (use a in \<open>auto simp: flat_children\<close>)
qed

lemma laid_root: "laid a i j t \<Longrightarrow> ast_node a (root_at i t) = Some (top_node i j t)"
proof -
  assume "laid a i j t"
  then obtain ps qs where a: "a_nodes a = ps @ flat i j t @ qs" "length ps = i" unfolding laid_def by blast
  have "root_at i t = length (ps @ flats i j (children t))" using a(2) by (simp add: n_nodes_children [of t])
  moreover have "a_nodes a = (ps @ flats i j (children t)) @ top_node i j t # qs"
    using a(1) by (simp add: flat_children [of i j t])
  ultimately show ?thesis unfolding ast_node_def using get_append_length by metis
qed

text \<open>The argument ranges of calls and lists name the roots of their argument trees.\<close>

lemma args_of_middle:
  assumes "a_args a = xs @ rs @ ys" and "length xs + length rs \<le> usize_max"
  shows "args_of a (length xs) (length rs) = rs"
  using assms by (simp add: args_of_def get_range_def sat_add_def)

definition small_arena :: "ast \<Rightarrow> bool" where
  "small_arena a \<longleftrightarrow> length (a_args a) \<le> usize_max"

lemma laid_args:
  assumes "laid a i j t" and "small_arena a"
  shows "t = T_List ts \<Longrightarrow> args_of a (j + ns_args ts) (length ts) = roots_at i ts"
    and "t = T_Call b m ts \<Longrightarrow>
      args_of a (j + n_args b + ns_args ts) (length ts) = roots_at (i + n_nodes b) ts"
proof -
  obtain xs ys where a: "a_args a = xs @ flat_args i t @ ys" "length xs = j"
    using assms(1) unfolding laid_def by blast
  have len: "length (xs @ flat_args i t) \<le> usize_max" using a assms(2) by (simp add: small_arena_def)
  show "args_of a (j + ns_args ts) (length ts) = roots_at i ts" if "t = T_List ts"
    using args_of_middle [of a "xs @ flats_args i ts" "roots_at i ts" ys] a that len by simp
  show "args_of a (j + n_args b + ns_args ts) (length ts) = roots_at (i + n_nodes b) ts"
    if "t = T_Call b m ts"
    using args_of_middle [of a "xs @ flat_args i b @ flats_args (i + n_nodes b) ts" "roots_at (i + n_nodes b) ts" ys]
      a that len by (simp add: add.assoc)
qed

lemma n_args_less: "n_args t < n_nodes t"
proof (induction t)
  case (T_Call b m ts)
  then have "ns_args ts + length ts \<le> ns_nodes ts" by (induction ts) fastforce+
  with T_Call show ?case by fastforce
next
  case (T_List ts)
  then have "ns_args ts + length ts \<le> ns_nodes ts" by (induction ts) fastforce+
  then show ?case by simp
qed auto

lemma arena_small: "arena_of t a \<Longrightarrow> n_nodes t \<le> usize_max \<Longrightarrow> small_arena a"
  using n_args_less [of t] by (simp add: small_arena_def arena_of_def)

end
