(* ===== verification/Policy_Gen.thy ===== *)
theory Policy_Gen
  imports Policy_Compile Policy_Layout
begin

text \<open>
  A recursive code generator on trees, and the proof that the forward sweep of \<^verbatim>\<open>compile\<close> over the
  arena computes exactly the same code and tables: the placeholder of a short-circuit jump is
  opened before the first node of an operand's subtree and patched at the root of the construct
  that owns it.
\<close>

section \<open>Where placeholders and suppressed nodes are\<close>

fun is_literal :: "tree \<Rightarrow> bool" where
  "is_literal (T_Bool _) = True"
| "is_literal (T_Int _) = True"
| "is_literal (T_Str _) = True"
| "is_literal T_Null = True"
| "is_literal _ = False"

text \<open>The placeholder opened before each child, given the one opened before the whole tree; and
  which children emit no code.\<close>

fun own_holes :: "tree \<Rightarrow> hole_kind option list" where
  "own_holes (T_And _ _) = [Some Hole_JumpIfFalse]"
| "own_holes (T_Or _ _) = [Some Hole_JumpIfTrue]"
| "own_holes (T_Ternary _ _ _) = [Some Hole_BranchIfFalse, Some Hole_Jump]"
| "own_holes t = replicate (length (children t) - 1) None"

definition child_holes :: "hole_kind option \<Rightarrow> tree \<Rightarrow> hole_kind option list" where
  "child_holes h t = (if children t = [] then [] else h # own_holes t)"

definition top_hole :: "hole_kind option \<Rightarrow> tree \<Rightarrow> hole_kind option" where
  "top_hole h t = (if children t = [] then h else None)"

fun child_sups :: "tree \<Rightarrow> bool list" where
  "child_sups (T_List ts) = map is_literal ts"
| "child_sups (T_Call b m ts) =
     False # (if m = Method_Matches then (case ts of [] \<Rightarrow> [] | _ # rest \<Rightarrow> True # map (\<lambda>_. False) rest)
              else map (\<lambda>_. False) ts)"
| "child_sups t = map (\<lambda>_. False) (children t)"

function holes :: "hole_kind option \<Rightarrow> tree \<Rightarrow> hole_kind option list"
  and holess :: "hole_kind option list \<Rightarrow> tree list \<Rightarrow> hole_kind option list" where
  "holes h t = holess (child_holes h t) (children t) @ [top_hole h t]"
| "holess hs [] = []"
| "holess hs (t # ts) = holes (hd hs) t @ holess (tl hs) ts"
  by pat_completeness auto
termination
  by (relation "measure (\<lambda>x. case x of Inl (h, t) \<Rightarrow> 2 * n_nodes t | Inr (hs, ts) \<Rightarrow> 2 * ns_nodes ts + 1)")
    (auto simp: n_nodes_children)

function sups :: "bool \<Rightarrow> tree \<Rightarrow> bool list" and supss :: "bool list \<Rightarrow> tree list \<Rightarrow> bool list" where
  "sups s t = supss (child_sups t) (children t) @ [s]"
| "supss ss [] = []"
| "supss ss (t # ts) = sups (hd ss) t @ supss (tl ss) ts"
  by pat_completeness auto
termination
  by (relation "measure (\<lambda>x. case x of Inl (s, t) \<Rightarrow> 2 * n_nodes t | Inr (ss, ts) \<Rightarrow> 2 * ns_nodes ts + 1)")
    (auto simp: n_nodes_children)

declare holes.simps [simp del] sups.simps [simp del]

lemma length_holes [simp]: "length (holes h t) = n_nodes t" "length (holess hs ts) = ns_nodes ts"
proof (induction h t and hs ts rule: holes_holess.induct)
  case (1 h t)
  then show ?case by (simp add: holes.simps [of h t] n_nodes_children [of t])
qed simp_all

lemma length_sups [simp]: "length (sups s t) = n_nodes t" "length (supss ss ts) = ns_nodes ts"
proof (induction s t and ss ts rule: sups_supss.induct)
  case (1 s t)
  then show ?case by (simp add: sups.simps [of s t] n_nodes_children [of t])
qed simp_all

lemma sups_root: "(xs @ sups s t @ ys)[length xs + n_nodes t - 1 := u] = xs @ sups u t @ ys"
  by (simp add: sups.simps [of _ t] n_nodes_children [of t] list_update_append)

lemma holes_head: "holes h t = h # tl (holes None t)"
proof (induction "n_nodes t" arbitrary: h t rule: less_induct)
  case less
  show ?case
  proof (cases "children t")
    case Nil
    then show ?thesis by (simp add: holes.simps [of _ t] top_hole_def)
  next
    case (Cons b bs)
    then have "n_nodes b < n_nodes t" by (simp add: n_nodes_children [of t])
    from less [OF this, of h] have b: "holes h b = h # tl (holes None b)" .
    have ne: "holes None b \<noteq> []" by (metis length_holes(1) n_nodes_pos list.size(3) less_irrefl)
    have split: "holes g t = holes g b @ holess (own_holes t) bs @ [None]" for g
      using Cons by (simp add: holes.simps [of _ t] top_hole_def child_holes_def)
    show ?thesis unfolding split b using ne by (simp add: tl_append2)
  qed
qed

lemma holes_first: "(xs @ holes None t @ ys)[length xs := h] = xs @ holes h t @ ys"
  using holes_head [of h t] holes_head [of None t] by (metis append_Cons list_update_length)

lemma root_next: "root_at i t + 1 = i + n_nodes t"
  using n_nodes_pos [of t] by linarith

lemma root_less: "i + n_nodes t \<le> m \<Longrightarrow> root_at i t < m"
  using n_nodes_pos [of t] by linarith

text \<open>The node of a tree marks the placeholders of its own children.\<close>

lemma mark_holes_top:
  assumes "length xs = i"
  shows "mark_node_holes (top_node i j t) (xs @ holess (map (\<lambda>_. None) (children t)) (children t) @ None # ys) =
    xs @ holess (child_holes None t) (children t) @ None # ys"
proof -
  have plain: "child_holes None t = map (\<lambda>_. None) (children t)" if "own_holes t = replicate (length (children t) - 1) None"
    using that by (cases "children t") (simp_all add: child_holes_def map_replicate_const)
  have mark: "mark_hole (root_at i l + 1) k (xs @ holes None l @ holes None r @ zs) = xs @ holes None l @ holes (Some k) r @ zs"
    for l r k zs
    unfolding root_next mark_hole_def set_at_def using holes_first [of "xs @ holes None l" r zs "Some k"] assms
    by (simp add: n_nodes_pos)
  show ?thesis
  proof (cases t)
    case (T_Ternary c x y)
    have "mark_hole (root_at (i + n_nodes c) x + 1) Hole_Jump (xs @ holes None c @ holes h x @ holes None y @ zs) =
        xs @ holes None c @ holes h x @ holes (Some Hole_Jump) y @ zs" for h zs
      unfolding root_next mark_hole_def set_at_def
      using holes_first [of "xs @ holes None c @ holes h x" y zs "Some Hole_Jump"] assms by (simp add: n_nodes_pos add.assoc)
    with T_Ternary mark [of c Hole_BranchIfFalse x "holes None y @ None # ys"] show ?thesis
      by (simp add: mark_node_holes_def child_holes_def)
  qed (use plain mark in \<open>simp_all add: mark_node_holes_def child_holes_def\<close>)
qed

lemma fold_holes:
  "length xs = i \<Longrightarrow> fold mark_node_holes (flat i j t) (xs @ replicate (n_nodes t) None @ ys) = xs @ holes None t @ ys"
  "length xs = i \<Longrightarrow> fold mark_node_holes (flats i j ts) (xs @ replicate (ns_nodes ts) None @ ys) =
     xs @ holess (map (\<lambda>_. None) ts) ts @ ys"
proof (induction "h :: hole_kind option" t and "hs :: hole_kind option list" ts arbitrary: xs i j ys and xs i j ys
    rule: holes_holess.induct)
  case (1 h t)
  then show ?case using mark_holes_top [OF 1(2), of j t ys]
    by (simp add: flat_children n_nodes_children [of t] replicate_append_same [symmetric] holes.simps [of None t] top_hole_def)
next
  case (3 hs t ts)
  have "fold mark_node_holes (flats (i + n_nodes t) (j + n_args t) ts)
      ((xs @ holes None t) @ replicate (ns_nodes ts) None @ ys) = (xs @ holes None t) @ holess (map (\<lambda>_. None) ts) ts @ ys"
    using 3(2) [of "xs @ holes None t" "i + n_nodes t"] 3(3) by simp
  then show ?case using 3(1) [of xs i j "replicate (ns_nodes ts) None @ ys"] 3(3) by (simp add: replicate_add)
qed simp

lemma build_hole_before_flat: "a_nodes a = flat 0 0 t \<Longrightarrow> build_hole_before a (n_nodes t) = holes None t"
  using fold_holes(1) [of "[]" 0 0 t "[]"] by (simp add: build_hole_before_def)

lemma literal_laid: "laid a i j t \<Longrightarrow> is_literal_node a (root_at i t) = is_literal t"
  using laid_root [of a i j t] by (cases t) (simp_all add: is_literal_node_def)

lemma mark_bool_root:
  assumes "length xs = i"
  shows "mark_bool (root_at i t) (xs @ sups s t @ ys) = xs @ sups True t @ ys"
proof -
  have "root_at i t < length (xs @ sups s t @ ys)" using assms by (intro root_less) simp
  then show ?thesis using sups_root [of xs s t ys True] assms by (simp add: mark_bool_def set_at_def)
qed

lemma mark_elems:
  "laids a i j ts \<Longrightarrow> length xs = i \<Longrightarrow>
   fold (\<lambda>e flags. if is_literal_node a e then mark_bool e flags else flags) (roots_at i ts)
     (xs @ supss (map (\<lambda>_. False) ts) ts @ ys) = xs @ supss (map is_literal ts) ts @ ys"
proof (induction ts arbitrary: i j xs)
  case (Cons t ts)
  note lay = laids_ConsD [OF Cons.prems(1)]
  have "fold (\<lambda>e flags. if is_literal_node a e then mark_bool e flags else flags) (roots_at (i + n_nodes t) ts)
      ((xs @ sups (is_literal t) t) @ supss (map (\<lambda>_. False) ts) ts @ ys) =
      (xs @ sups (is_literal t) t) @ supss (map is_literal ts) ts @ ys"
    using lay Cons.prems(2) by (intro Cons.IH) auto
  moreover have "(if is_literal_node a (root_at i t)
      then mark_bool (root_at i t) (xs @ sups False t @ supss (map (\<lambda>_. False) ts) ts @ ys)
      else xs @ sups False t @ supss (map (\<lambda>_. False) ts) ts @ ys) = xs @ sups (is_literal t) t @ supss (map (\<lambda>_. False) ts) ts @ ys"
    using literal_laid [of a i j t] lay mark_bool_root [OF Cons.prems(2)] by (auto simp del: One_nat_def)
  ultimately show ?case by (simp del: One_nat_def)
qed simp

lemma mark_sups_top:
  assumes "laid a i j t" and "small_arena a" and "length xs = i"
  shows "mark_node_suppressed a (top_node i j t) (xs @ supss (map (\<lambda>_. False) (children t)) (children t) @ False # ys) =
    xs @ supss (child_sups t) (children t) @ False # ys"
proof (cases t)
  case (T_List ts)
  then show ?thesis using laid_args(1) [OF assms(1,2), of ts] mark_elems [OF _ assms(3), of a j ts "False # ys"] laid_children [OF assms(1)]
    by (simp add: mark_node_suppressed_def)
next
  case (T_Call b m ts)
  show ?thesis
  proof (cases "m = Method_Matches \<and> ts \<noteq> []")
    case True
    then obtain x rest where ts: "ts = x # rest" by (cases ts) auto
    have "length (xs @ sups False b) = i + n_nodes b" using assms(3) by simp
    from mark_bool_root [OF this, of x False] True ts T_Call laid_args(2) [OF assms(1,2), of b m ts]
    show ?thesis by (simp add: mark_node_suppressed_def)
  next
    case False
    then show ?thesis using T_Call laid_args(2) [OF assms(1,2), of b m ts]
      by (auto simp: mark_node_suppressed_def)
  qed
qed (simp_all add: mark_node_suppressed_def)

lemma fold_sups:
  "laid a i j t \<Longrightarrow> small_arena a \<Longrightarrow> length xs = i \<Longrightarrow>
     fold (mark_node_suppressed a) (flat i j t) (xs @ replicate (n_nodes t) False @ ys) = xs @ sups False t @ ys"
  "laids a i j ts \<Longrightarrow> small_arena a \<Longrightarrow> length xs = i \<Longrightarrow>
     fold (mark_node_suppressed a) (flats i j ts) (xs @ replicate (ns_nodes ts) False @ ys) =
     xs @ supss (map (\<lambda>_. False) ts) ts @ ys"
proof (induction "s :: bool" t and "ss :: bool list" ts arbitrary: xs i j ys and xs i j ys rule: sups_supss.induct)
  case (1 s t)
  then show ?case using mark_sups_top [OF 1(2-4), of ys] laid_children [OF 1(2)]
    by (simp add: flat_children n_nodes_children [of t] replicate_append_same [symmetric] sups.simps [of False t])
next
  case (3 ss t ts)
  note lay = laids_ConsD [OF 3(3)]
  have "fold (mark_node_suppressed a) (flats (i + n_nodes t) (j + n_args t) ts)
      ((xs @ sups False t) @ replicate (ns_nodes ts) False @ ys) = (xs @ sups False t) @ supss (map (\<lambda>_. False) ts) ts @ ys"
    using lay 3(4,5) by (intro 3(2)) auto
  then show ?case using 3(1) [of i j xs "replicate (ns_nodes ts) False @ ys"] lay 3(4,5) by (simp add: replicate_add)
qed simp

lemma build_suppressed_flat:
  assumes "arena_of t a" and "small_arena a"
  shows "build_suppressed a (n_nodes t) = sups False t"
  using fold_sups(1) [OF laid_arena [OF assms(1)] assms(2), of "[]" "[]"] assms(1)
  by (simp add: build_suppressed_def arena_of_def)

section \<open>The generator\<close>

text \<open>What the sweep records for one node: where the placeholder before it landed, and the constant
  of a list.\<close>

record cinfo =
  ci_hole :: nat
  ci_const :: nat

definition no_info :: cinfo where
  "no_info = \<lparr>ci_hole = u16_max, ci_const = 0\<rparr>"

definition gen_open :: "hole_kind option \<Rightarrow> 'r cstate \<Rightarrow> nat \<times> 'r cstate" where
  "gen_open h g =
     (case h of None \<Rightarrow> (u16_max, g) | Some kind \<Rightarrow> (to_u16 (length (g_code g)), push_op (placeholder_for kind) g))"

definition gen_patch :: "nat \<Rightarrow> nat \<Rightarrow> 'r cstate \<Rightarrow> 'r cstate" where
  "gen_patch p target g =
     (case get (g_code g) p of None \<Rightarrow> g | Some op \<Rightarrow> g\<lparr>g_code := (g_code g)[p := retarget op target]\<rparr>)"

definition gen_leaf :: "'r cctx \<Rightarrow> bool \<Rightarrow> const \<Rightarrow> 'r cstate \<Rightarrow> compile_error + 'r cstate" where
  "gen_leaf c s want g =
     (if s then Inr g else and_then (intern_const c want g) (\<lambda>(n, g). Inr (push_op (Op_LoadConst n) g)))"

definition gen_attr :: "'r cctx \<Rightarrow> bool \<Rightarrow> nat \<Rightarrow> 'r cstate \<Rightarrow> 'r cstate" where
  "gen_attr c s i g =
     (if s then g
      else (let slot = (case get (ck_node_slot (m_checked c)) i of None \<Rightarrow> NO_SLOT | Some slot \<Rightarrow> slot)
            in if slot \<noteq> NO_SLOT then push_op (Op_LoadAttr slot) g else g))"

definition gen_size :: "'r cctx \<Rightarrow> tree \<Rightarrow> 'r cstate \<Rightarrow> compile_error + 'r cstate" where
  "gen_size c b g =
     (case b of
        T_List ts \<Rightarrow> and_then (intern_const c (Const_Int (int (length ts))) g) (\<lambda>(n, g). Inr (push_op (Op_LoadConst n) g))
      | _ \<Rightarrow> Inr (push_op Op_Size g))"

definition gen_matches :: "'r cctx \<Rightarrow> tree list \<Rightarrow> 'r cstate \<Rightarrow> compile_error + 'r cstate" where
  "gen_matches c ts g =
     (let (pattern, at) =
        (case ts of
           T_Str key # _ \<Rightarrow> (slice_of (ck_strings (m_checked c)) (sp_start key) (span_len key), sp_start key)
         | _ \<Rightarrow> ([], 0))
      in if \<not> utf8_valid pattern then Inl (BadRegex at not_utf8_message)
         else and_then (intern_regex c pattern at g) (\<lambda>(n, g). Inr (push_op (Op_RegexMatch n) g)))"

fun leaf_of :: "tree \<Rightarrow> const" where
  "leaf_of (T_Bool b) = Const_Bool b"
| "leaf_of (T_Int v) = Const_Int v"
| "leaf_of (T_Str s) = Const_Str (sp_start s) (span_len s)"
| "leaf_of _ = Const_Null"

definition gen_list :: "'r cctx \<Rightarrow> tree list \<Rightarrow> 'r cstate \<Rightarrow> compile_error + nat \<times> 'r cstate" where
  "gen_list c ts g =
     intern_const c (Const_List (to_u32 (length (g_list_elems g))) (to_u32 (length ts)))
       (g\<lparr>g_list_elems := g_list_elems g @ map leaf_of ts\<rparr>)"

text \<open>The root of a tree, after its children (\<open>iss\<close>); \<open>p\<close> is where the placeholder landed, if there
  is one directly before the root.\<close>

fun gen_top :: "'r cctx \<Rightarrow> nat \<Rightarrow> bool \<Rightarrow> tree \<Rightarrow> cinfo list list \<Rightarrow> 'r cstate \<Rightarrow> compile_error + nat \<times> 'r cstate" where
  "gen_top c i s (T_Bool b) iss g = and_then (gen_leaf c s (Const_Bool b) g) (\<lambda>g. Inr (0, g))"
| "gen_top c i s (T_Int v) iss g = and_then (gen_leaf c s (Const_Int v) g) (\<lambda>g. Inr (0, g))"
| "gen_top c i s (T_Str key) iss g =
     and_then (gen_leaf c s (Const_Str (sp_start key) (span_len key)) g) (\<lambda>g. Inr (0, g))"
| "gen_top c i s T_Null iss g = and_then (gen_leaf c s Const_Null g) (\<lambda>g. Inr (0, g))"
| "gen_top c i s (T_Ident _) iss g = Inr (0, gen_attr c s i g)"
| "gen_top c i s (T_Field _ _) iss g = Inr (0, gen_attr c s i g)"
| "gen_top c i s (T_Index _ _) iss g = Inr (0, gen_attr c s i g)"
| "gen_top c i s (T_Not _) iss g = Inr (0, push_op Op_Not g)"
| "gen_top c i s (T_Bin op l r) iss g =
     Inr (0, push_op (if op = BinOp_In then Op_InSet (ci_const (last (iss ! 1))) else comparison_op op) g)"
| "gen_top c i s (T_Call b m ts) iss g =
     (if m = Method_Size then and_then (gen_size c b g) (\<lambda>g. Inr (0, g))
      else if m = Method_Matches then and_then (gen_matches c ts g) (\<lambda>g. Inr (0, g))
      else Inr (0, push_op (method_op m) g))"
| "gen_top c i s (T_And l r) iss g = Inr (0, gen_patch (ci_hole (hd (iss ! 1))) (to_u16 (length (g_code g))) g)"
| "gen_top c i s (T_Or l r) iss g = Inr (0, gen_patch (ci_hole (hd (iss ! 1))) (to_u16 (length (g_code g))) g)"
| "gen_top c i s (T_Ternary b x y) iss g =
     Inr (0, gen_patch (ci_hole (hd (iss ! 1))) (sat_add16 (ci_hole (hd (iss ! 2))) 1)
       (gen_patch (ci_hole (hd (iss ! 2))) (to_u16 (length (g_code g))) g))"
| "gen_top c i s (T_List ts) iss g = gen_list c ts g"

definition gen_node ::
  "'r cctx \<Rightarrow> nat \<Rightarrow> hole_kind option \<Rightarrow> bool \<Rightarrow> tree \<Rightarrow> cinfo list list \<Rightarrow> 'r cstate \<Rightarrow> compile_error + cinfo \<times> 'r cstate" where
  "gen_node c i h s t iss g =
     (let (p, g) = gen_open h g
      in and_then (gen_top c i s t iss g) (\<lambda>(n, g). Inr (\<lparr>ci_hole = p, ci_const = n\<rparr>, g)))"

function gen :: "'r cctx \<Rightarrow> nat \<Rightarrow> hole_kind option \<Rightarrow> bool \<Rightarrow> tree \<Rightarrow> 'r cstate \<Rightarrow> compile_error + cinfo list \<times> 'r cstate"
  and gens :: "'r cctx \<Rightarrow> nat \<Rightarrow> hole_kind option list \<Rightarrow> bool list \<Rightarrow> tree list \<Rightarrow> 'r cstate \<Rightarrow>
    compile_error + cinfo list list \<times> 'r cstate" where
  "gen c i h s t g =
     and_then (gens c i (child_holes h t) (child_sups t) (children t) g) (\<lambda>(iss, g).
       and_then (gen_node c (root_at i t) (top_hole h t) s t iss g) (\<lambda>(x, g). Inr (concat iss @ [x], g)))"
| "gens c i hs ss [] g = Inr ([], g)"
| "gens c i hs ss (t # ts) g =
     and_then (gen c i (hd hs) (hd ss) t g) (\<lambda>(js, g).
       and_then (gens c (i + n_nodes t) (tl hs) (tl ss) ts g) (\<lambda>(iss, g). Inr (js # iss, g)))"
  by pat_completeness auto
termination
  by (relation "measure (\<lambda>x. case x of Inl (c, i, h, s, t, g) \<Rightarrow> 2 * n_nodes t
        | Inr (c, i, hs, ss, ts, g) \<Rightarrow> 2 * ns_nodes ts + 1)")
    (auto simp: n_nodes_children)

declare gen.simps [simp del]

section \<open>The sweep computes the generator\<close>

text \<open>A state with given arrays. Only holes and lists touch the arrays.\<close>

definition arr :: "nat list \<Rightarrow> nat list \<Rightarrow> 'r cstate \<Rightarrow> 'r cstate" where
  "arr hp nc g = g\<lparr>g_hole_pos := hp, g_node_const := nc\<rparr>"

lemma arr_fields [simp]:
  "g_hole_pos (arr hp nc g) = hp" "g_node_const (arr hp nc g) = nc" "g_code (arr hp nc g) = g_code g"
  "g_consts (arr hp nc g) = g_consts g" "g_list_elems (arr hp nc g) = g_list_elems g" "g_regexes (arr hp nc g) = g_regexes g"
  by (simp_all add: arr_def)

lemma arr_updates [simp]:
  "arr hp nc g\<lparr>g_hole_pos := hp'\<rparr> = arr hp' nc g" "arr hp nc g\<lparr>g_node_const := nc'\<rparr> = arr hp nc' g"
  "arr hp nc g\<lparr>g_code := x\<rparr> = arr hp nc (g\<lparr>g_code := x\<rparr>)" "arr hp nc g\<lparr>g_consts := y\<rparr> = arr hp nc (g\<lparr>g_consts := y\<rparr>)"
  "arr hp nc g\<lparr>g_list_elems := y\<rparr> = arr hp nc (g\<lparr>g_list_elems := y\<rparr>)"
  "arr hp nc g\<lparr>g_regexes := z\<rparr> = arr hp nc (g\<lparr>g_regexes := z\<rparr>)"
  "push_op op (arr hp nc g) = arr hp nc (push_op op g)"
  by (simp_all add: arr_def push_op_def)

lemma intern_arr:
  "intern_const c w (arr hp nc g) = and_then (intern_const c w g) (\<lambda>(k, g). Inr (k, arr hp nc g))"
  "intern_regex c pat at (arr hp nc g) = and_then (intern_regex c pat at g) (\<lambda>(k, g). Inr (k, arr hp nc g))"
  by (simp_all add: intern_const_def intern_regex_def and_then_def split: option.split sum.split)

lemma patch_arr:
  "get hp k = Some p \<Longrightarrow> patch k target (arr hp nc g) = arr hp nc (gen_patch p target g)"
  by (auto simp: patch_def gen_patch_def split: option.split)

definition gen_at :: "'r cctx \<Rightarrow> tree \<Rightarrow> nat \<Rightarrow> nat \<Rightarrow> cinfo list \<Rightarrow> cinfo list list \<Rightarrow> bool" where
  "gen_at c t i j ps iss \<longleftrightarrow>
     laid (ck_ast (m_checked c)) i j t \<and> small_arena (ck_ast (m_checked c)) \<and>
     list_all2 (\<lambda>t js. length js = n_nodes t) (children t) iss \<and> length ps = i"

text \<open>The arrays hold the records of the nodes before index \<open>length qs\<close>.\<close>

definition holds :: "nat list \<Rightarrow> nat list \<Rightarrow> cinfo list \<Rightarrow> bool" where
  "holds hp nc qs \<longleftrightarrow> (\<forall>k < length qs. get hp k = Some (ci_hole (qs ! k)) \<and> get nc k = Some (ci_const (qs ! k)))"

lemma leaf_laid: "laids a i j ts \<Longrightarrow> map (const_of_leaf a) (roots_at i ts) = map leaf_of ts"
proof (induction ts arbitrary: i j)
  case (Cons t ts)
  note lay = laids_ConsD [OF Cons.prems]
  have "const_of_leaf a (root_at i t) = leaf_of t"
    using laid_root [of a i j t] lay by (cases t) (simp_all add: const_of_leaf_def)
  with Cons.IH [of "i + n_nodes t" "j + n_args t"] lay show ?case by simp
qed simp

lemma list_laid:
  assumes "laid a i j t"
  shows "is_list_node a (root_at i t) = (case t of T_List _ \<Rightarrow> True | _ \<Rightarrow> False)"
    and "t = T_List ts \<Longrightarrow> list_len_of a (root_at i t) = length ts"
  using laid_root [OF assms] by (cases t; simp add: is_list_node_def list_len_of_def)+

lemma second_first:
  assumes "list_all2 (\<lambda>t js. length js = n_nodes t) (l # r # ts) iss" and "length ps = i" and "holds hp nc (ps @ concat iss)"
  shows "get hp (root_at i l + 1) = Some (ci_hole (hd (iss ! 1)))"
    and "get nc (root_at (i + n_nodes l) r) = Some (ci_const (last (iss ! 1)))"
proof -
  obtain js ks ls where iss: "iss = js # ks # ls" "length js = n_nodes l" "length ks = n_nodes r"
    using assms(1) by (auto simp: list_all2_Cons1)
  have ks: "ks \<noteq> []" using iss(3) by (metis n_nodes_pos list.size(3) less_irrefl)
  have k: "i + n_nodes l < length (ps @ concat iss)" "root_at (i + n_nodes l) r < length (ps @ concat iss)"
    using iss assms(2) by (simp, intro root_less) (simp add: iss)
  have qs: "ps @ concat iss = (ps @ js) @ ks @ concat ls" "i + n_nodes l = length (ps @ js) + 0"
    "root_at (i + n_nodes l) r = length (ps @ js) + (length ks - 1)"
    using iss assms(2) ks by (simp_all add: Suc_leI)
  have "(ps @ concat iss) ! (length (ps @ js) + 0) = hd ks" "(ps @ concat iss) ! (length (ps @ js) + (length ks - 1)) = last ks"
    unfolding qs(1) nth_append_length_plus using ks by (simp_all add: hd_conv_nth last_conv_nth nth_append)
  then have "(ps @ concat iss) ! (i + n_nodes l) = hd ks" "(ps @ concat iss) ! root_at (i + n_nodes l) r = last ks"
    unfolding qs(3) by (simp_all only: qs(2))
  with k assms(3) iss(1) show "get hp (root_at i l + 1) = Some (ci_hole (hd (iss ! 1)))"
    and "get nc (root_at (i + n_nodes l) r) = Some (ci_const (last (iss ! 1)))"
    unfolding root_next holds_def by (simp_all del: One_nat_def)
qed

lemma set_at_same: "get xs i = Some v \<Longrightarrow> set_at xs i v = xs"
  by (auto simp: set_at_def)

text \<open>Emission at the root of a tree, from the arrays, is the generator's, from the records.\<close>

definition emits :: "'r cctx \<Rightarrow> nat \<Rightarrow> bool \<Rightarrow> tree \<Rightarrow> nat \<Rightarrow> nat \<Rightarrow> cinfo list list \<Rightarrow> nat list \<Rightarrow> nat list \<Rightarrow> 'r cstate \<Rightarrow> bool" where
  "emits c k s t i j iss hp nc g \<longleftrightarrow>
     emit_node c k (top_node i j t) (arr hp nc g) =
     and_then (gen_top c k s t iss g) (\<lambda>(n, g). Inr (arr hp (set_at nc k n) g))"

lemma emit_leaf_arr:
  "is_suppressed c k = s \<Longrightarrow> get nc k = Some 0 \<Longrightarrow>
   emit_leaf c k w (arr hp nc g) = and_then (and_then (gen_leaf c s w g) (\<lambda>g. Inr (0, g))) (\<lambda>(n, g). Inr (arr hp (set_at nc k n) g))"
  by (auto simp: emit_leaf_def gen_leaf_def intern_arr and_then_def set_at_same split: sum.split prod.split)

lemma emit_attr_arr:
  "is_suppressed c k = s \<Longrightarrow> emit_attr c k (arr hp nc g) = arr hp nc (gen_attr c s k g)"
  by (auto simp: emit_attr_def gen_attr_def Let_def)

lemma emits_call:
  assumes "gen_at c t i j ps iss" and t: "t = T_Call b m ts" and "get nc k = Some 0"
  shows "emits c k s t i j iss hp nc g"
proof -
  let ?a = "ck_ast (m_checked c)"
  have lay: "laid ?a i j t" "small_arena ?a" using assms(1) by (simp_all add: gen_at_def)
  have args: "args_of ?a (j + n_args b + ns_args ts) (length ts) = roots_at (i + n_nodes b) ts"
    using laid_args(2) [OF lay t] .
  have kids: "laid ?a i j b" "laids ?a (i + n_nodes b) (j + n_args b) ts" using laid_children [OF lay(1)] t by (auto dest: laids_ConsD)
  have "emit_size_call c (root_at i b) (arr hp nc g) = and_then (gen_size c b g) (\<lambda>g. Inr (arr hp nc g))"
    using list_laid [OF kids(1)]
    by (cases b) (auto simp: emit_size_call_def gen_size_def intern_arr and_then_def split: sum.split prod.split)
  moreover have "emit_matches_call c (j + n_args b + ns_args ts) (length ts) (arr hp nc g) =
      and_then (gen_matches c ts g) (\<lambda>g. Inr (arr hp nc g))"
  proof (cases ts)
    case (Cons x rest)
    with kids(2) have "laid ?a (i + n_nodes b) (j + n_args b) x" by (auto dest: laids_ConsD)
    then have "ast_node ?a (root_at (i + n_nodes b) x) = Some (top_node (i + n_nodes b) (j + n_args b) x)"
      by (rule laid_root)
    with args Cons show ?thesis
      by (cases x) (auto simp: emit_matches_call_def gen_matches_def intern_arr and_then_def split: sum.split prod.split)
  qed (use args in \<open>auto simp: emit_matches_call_def gen_matches_def intern_arr and_then_def split: sum.split prod.split\<close>)
  ultimately show ?thesis using t assms(3)
    by (auto simp: emits_def and_then_def set_at_same split: sum.split)
qed

lemma emits_list:
  assumes "gen_at c t i j ps iss" and t: "t = T_List ts"
  shows "emits c k s t i j iss hp nc g"
proof -
  let ?a = "ck_ast (m_checked c)"
  have lay: "laid ?a i j t" "small_arena ?a" using assms(1) by (simp_all add: gen_at_def)
  have "length (roots_at i ts) = length ts" by (induction ts arbitrary: i) auto
  then show ?thesis
    using t laid_args(1) [OF lay t] leaf_laid [OF laid_children [OF lay(1)]]
    by (auto simp: emits_def emit_list_def gen_list_def intern_arr Let_def and_then_def split: sum.split prod.split)
qed

lemma emits_jumps:
  assumes "gen_at c t i j ps iss" and h: "holds hp nc (ps @ concat iss)" and "get nc k = Some 0"
    and t: "t = T_And l r \<or> t = T_Or l r \<or> t = T_Bin op l r"
  shows "emits c k s t i j iss hp nc g"
proof -
  have "list_all2 (\<lambda>t js. length js = n_nodes t) [l, r] iss" "length ps = i" using assms(1) t by (auto simp: gen_at_def)
  note f = second_first [OF this h]
  from t show ?thesis
    using patch_arr [OF f(1)] f(2) assms(3) by (auto simp: emits_def set_at_same simp del: One_nat_def)
qed

lemma emits_ternary:
  assumes "gen_at c t i j ps iss" and h: "holds hp nc (ps @ concat iss)" and "get nc k = Some 0" and t: "t = T_Ternary b x y"
  shows "emits c k s t i j iss hp nc g"
proof -
  have kids: "list_all2 (\<lambda>t js. length js = n_nodes t) [b, x, y] iss" "length ps = i" using assms(1) t by (auto simp: gen_at_def)
  note f = second_first(1) [OF kids h]
  obtain js ks ls where iss: "iss = [js, ks, ls]" "length js = n_nodes b" using kids(1) by (auto simp: list_all2_Cons1)
  have "get hp (root_at (i + n_nodes b) x + 1) = Some (ci_hole (hd ([ks, ls] ! 1)))"
    by (rule second_first(1) [of x y "[]" "[ks, ls]" "ps @ js"]) (use kids h iss in auto)
  then have f2: "get hp (root_at (i + n_nodes b) x + 1) = Some (ci_hole (hd (iss ! 2)))" using iss by simp
  show ?thesis
    unfolding emits_def t top_node.simps emit_node.simps Let_def patch_arr [OF f2] arr_fields f2 option.case patch_arr [OF f]
    using assms(3) by (simp add: set_at_same)
qed

lemma emits_top:
  assumes top: "gen_at c t i j ps iss" and h: "holds hp nc (ps @ concat iss)" and nc: "get nc k = Some 0"
    and s: "is_suppressed c k = s"
  shows "emits c k s t i j iss hp nc g"
proof (cases t)
  case (T_Not a)
  then show ?thesis using nc by (simp add: emits_def set_at_same)
next
  case (T_Ident sp)
  then show ?thesis using nc s by (simp add: emits_def set_at_same emit_attr_arr)
next
  case (T_Field b name)
  then show ?thesis using nc s by (simp add: emits_def set_at_same emit_attr_arr)
next
  case (T_Index b x)
  then show ?thesis using nc s by (simp add: emits_def set_at_same emit_attr_arr)
qed (use emit_leaf_arr [OF s nc] emits_call [OF top _ nc] emits_list [OF top] emits_jumps [OF top h nc] emits_ternary [OF top h nc]
    in \<open>simp_all add: emits_def\<close>)

lemma aligned_lengths:
  "list_all2 (\<lambda>t js. length js = n_nodes t) ts iss \<Longrightarrow> length (concat iss) = ns_nodes ts"
  by (induction ts iss rule: list_all2_induct) auto

text \<open>The state of the sweep after the nodes recorded by \<open>ps\<close>, in an arena of \<open>n\<close> nodes.\<close>

definition cst :: "nat \<Rightarrow> cinfo list \<Rightarrow> 'r cstate \<Rightarrow> 'r cstate" where
  "cst n ps g = arr (map ci_hole ps @ replicate (n - length ps) u16_max) (map ci_const ps @ replicate (n - length ps) 0) g"

lemma cst_holds:
  "holds (set_at (map ci_hole ps @ xs) (length ps) p) (map ci_const ps @ ys) ps"
  by (simp add: holds_def get_set_at nth_append)

lemma open_hole_cst:
  assumes "get (m_hole_before c) (length ps) = Some h" and "length ps < n"
  shows "open_hole c (length ps) (cst n ps g) =
    (let (p, g) = gen_open h g
     in arr (set_at (map ci_hole ps @ replicate (n - length ps) u16_max) (length ps) p)
          (map ci_const ps @ replicate (n - length ps) 0) g)"
proof (cases h)
  case None
  have "get (map ci_hole ps @ replicate (n - length ps) u16_max) (length ps) = Some u16_max" using assms(2) by (simp add: nth_append)
  with None assms(1) show ?thesis by (simp add: open_hole_def gen_open_def cst_def set_at_same)
next
  case (Some kind)
  with assms(1) show ?thesis by (simp add: open_hole_def gen_open_def cst_def)
qed

lemma step_cst:
  assumes top: "gen_at c t i j ps iss" and fits: "i + n_nodes t \<le> n"
    and h: "get (m_hole_before c) (root_at i t) = Some h" and s: "is_suppressed c (root_at i t) = s"
  shows "compile_step c (root_at i t) (top_node i j t) (cst n (ps @ concat iss) g) =
    and_then (gen_node c (root_at i t) h s t iss g) (\<lambda>(x, g). Inr (cst n (ps @ concat iss @ [x]) g))"
proof -
  let ?qs = "ps @ concat iss"
  have len: "length ?qs = root_at i t"
    using top aligned_lengths [of "children t" iss] by (simp add: gen_at_def n_nodes_children [of t])
  have less: "length ?qs < n" using fits root_less len by metis
  obtain p g1 where p: "gen_open h g = (p, g1)" by fastforce
  let ?hp = "set_at (map ci_hole ?qs @ replicate (n - length ?qs) u16_max) (length ?qs) p"
  let ?nc = "map ci_const ?qs @ replicate (n - length ?qs) 0"
  have nc: "get ?nc (length ?qs) = Some 0" using less by (simp add: nth_append)
  have "emits c (root_at i t) s t i j iss ?hp ?nc g1"
    by (rule emits_top [OF top cst_holds]) (use nc s in \<open>simp_all only: len\<close>)
  then have emit: "emit_node c (root_at i t) (top_node i j t) (arr ?hp ?nc g1) =
      and_then (gen_top c (root_at i t) s t iss g1) (\<lambda>(m, g). Inr (arr ?hp (set_at ?nc (length ?qs) m) g))"
    unfolding emits_def len .
  have rec: "arr ?hp (set_at ?nc (length ?qs) m) g2 = cst n (?qs @ [\<lparr>ci_hole = p, ci_const = m\<rparr>]) g2" for m g2
    using less set_at_next [of "map ci_hole ?qs" n u16_max p] set_at_next [of "map ci_const ?qs" n 0 m]
    by (simp add: cst_def)
  have op: "open_hole c (root_at i t) (cst n ?qs g) = arr ?hp ?nc g1"
    using open_hole_cst [of c ?qs h n g] h less p unfolding len by simp
  show ?thesis
    unfolding compile_step_def op emit gen_node_def p using rec
    by (auto simp: and_then_def split: sum.split)
qed

definition region :: "'a list \<Rightarrow> nat \<Rightarrow> 'a list \<Rightarrow> bool" where
  "region xs i ys \<longleftrightarrow> (\<exists>as bs. xs = as @ ys @ bs \<and> length as = i)"

lemma region_append: "region xs i (ys @ zs) \<Longrightarrow> region xs i ys \<and> region xs (i + length ys) zs"
  unfolding region_def by (metis append.assoc length_append)

lemma region_get: "region xs i (y # ys) \<Longrightarrow> get xs i = Some y"
  unfolding region_def using get_append_length by fastforce

lemma region_snoc: "region xs i (ys @ [y]) \<Longrightarrow> region xs i ys \<and> get xs (i + length ys) = Some y"
  using region_append [of xs i ys "[y]"] region_get [of xs "i + length ys" y "[]"] by simp

lemma gen_length:
  "gen c i h s t g = Inr (js, g') \<Longrightarrow> length js = n_nodes t"
  "gens c i hs ss ts g = Inr (iss, g') \<Longrightarrow> list_all2 (\<lambda>t js. length js = n_nodes t) ts iss"
proof (induction c i h s t g and c i hs ss ts g arbitrary: js g' and iss g' rule: gen_gens.induct)
  case (1 c i h s t g)
  then show ?case
    by (auto simp: gen.simps [of c i h s t] n_nodes_children [of t] aligned_lengths and_then_Inr_iff)
next
  case (3 c i hs ss t ts g)
  then show ?case by (auto simp: and_then_Inr_iff)
qed simp

lemma compile_loop_append:
  "compile_loop c i (ns @ ms) s = and_then (compile_loop c i ns s) (compile_loop c (i + length ns) ms)"
  by (induction ns arbitrary: i s) (auto simp: and_then_def split: sum.split)

lemma sweep_tree:
  "laid (ck_ast (m_checked c)) i j t \<Longrightarrow> small_arena (ck_ast (m_checked c)) \<Longrightarrow>
   region (m_hole_before c) i (holes h t) \<Longrightarrow> region (m_suppressed c) i (sups s t) \<Longrightarrow> length ps = i \<Longrightarrow> i + n_nodes t \<le> n \<Longrightarrow>
   compile_loop c i (flat i j t) (cst n ps g) = and_then (gen c i h s t g) (\<lambda>(js, g). Inr (cst n (ps @ js) g))"
  "laids (ck_ast (m_checked c)) i j ts \<Longrightarrow> small_arena (ck_ast (m_checked c)) \<Longrightarrow>
   region (m_hole_before c) i (holess hs ts) \<Longrightarrow> region (m_suppressed c) i (supss ss ts) \<Longrightarrow> length ps = i \<Longrightarrow> i + ns_nodes ts \<le> n \<Longrightarrow>
   compile_loop c i (flats i j ts) (cst n ps g) = and_then (gens c i hs ss ts g) (\<lambda>(iss, g). Inr (cst n (ps @ concat iss) g))"
proof (induction c i h s t g and c i hs ss ts g arbitrary: j ps and j ps rule: gen_gens.induct)
  case (1 c i h s t g)
  let ?kids = "gens c i (child_holes h t) (child_sups t) (children t) g"
  have root: "root_at i t = i + ns_nodes (children t)" by (simp add: n_nodes_children [of t])
  have hs: "region (m_hole_before c) i (holess (child_holes h t) (children t))"
      "get (m_hole_before c) (i + ns_nodes (children t)) = Some (top_hole h t)"
    using region_snoc [OF 1(4) [unfolded holes.simps [of h t]]] by simp_all
  have ss: "region (m_suppressed c) i (supss (child_sups t) (children t))"
      "is_suppressed c (i + ns_nodes (children t)) = s"
    using region_snoc [OF 1(5) [unfolded sups.simps [of s t]]] by (simp_all add: is_suppressed_def)
  have kids: "compile_loop c i (flats i j (children t)) (cst n ps g) =
      and_then ?kids (\<lambda>(iss, g). Inr (cst n (ps @ concat iss) g))"
    using 1(7) by (intro 1(1) laid_children [OF 1(2)] 1(3) hs(1) ss(1) 1(6)) (simp add: n_nodes_children [of t])
  have top: "compile_step c (i + ns_nodes (children t)) (top_node i j t) (cst n (ps @ concat iss) g') =
      and_then (gen_node c (root_at i t) (top_hole h t) s t iss g') (\<lambda>(x, g). Inr (cst n (ps @ concat iss @ [x]) g))"
    if "?kids = Inr (iss, g')" for iss g'
  proof -
    have "gen_at c t i j ps iss" using 1(2,3,6) gen_length(2) [OF that] by (simp add: gen_at_def)
    from step_cst [OF this 1(7)] hs(2) ss(2) show ?thesis unfolding root by blast
  qed
  show ?case
    using kids top
    by (cases ?kids) (auto simp: flat_children [of i j t] compile_loop_append gen.simps [of c i h s t]
        and_then_def split: sum.split prod.split)
next
  case (3 c i hs ss t ts g)
  have hr: "region (m_hole_before c) i (holes (hd hs) t)" "region (m_hole_before c) (i + n_nodes t) (holess (tl hs) ts)"
    using region_append [of _ i "holes (hd hs) t"] 3(5) by auto
  have sr: "region (m_suppressed c) i (sups (hd ss) t)" "region (m_suppressed c) (i + n_nodes t) (supss (tl ss) ts)"
    using region_append [of _ i "sups (hd ss) t"] 3(6) by auto
  note lay = laids_ConsD [OF 3(3)]
  have hd: "compile_loop c i (flat i j t) (cst n ps g) =
      and_then (gen c i (hd hs) (hd ss) t g) (\<lambda>(js, g). Inr (cst n (ps @ js) g))"
    using 3(1) [OF _ 3(4) hr(1) sr(1)] lay 3(7,8) by simp
  have tl: "compile_loop c (i + n_nodes t) (flats (i + n_nodes t) (j + n_args t) ts) (cst n (ps @ js) g') =
      and_then (gens c (i + n_nodes t) (tl hs) (tl ss) ts g') (\<lambda>(iss, g). Inr (cst n ((ps @ js) @ concat iss) g))"
    if "gen c i (hd hs) (hd ss) t g = Inr (js, g')" for js g'
    using 3(2) [OF _ 3(4) hr(2) sr(2)] lay 3(7,8) gen_length(1) [OF that] by simp
  show ?case
    using hd tl by (cases "gen c i (hd hs) (hd ss) t g")
      (auto simp: compile_loop_append and_then_def split: sum.split prod.split)
qed simp

section \<open>compile on trees\<close>

definition gen_ctx :: "'r crates \<Rightarrow> checked \<Rightarrow> policy_limits \<Rightarrow> 'r cctx" where
  "gen_ctx ext ck limits =
     \<lparr>m_ext = ext, m_checked = ck, m_limits = limits,
      m_hole_before = build_hole_before (ck_ast ck) (length (a_nodes (ck_ast ck))),
      m_suppressed = build_suppressed (ck_ast ck) (length (a_nodes (ck_ast ck)))\<rparr>"

definition gen_start :: "'r cstate" where
  "gen_start = \<lparr>g_hole_pos = [], g_node_const = [], g_code = [], g_consts = [], g_list_elems = [], g_regexes = []\<rparr>"

definition program_of :: "checked \<Rightarrow> 'r cstate \<Rightarrow> nat \<Rightarrow> 'r program" where
  "program_of ck g max_stack =
     \<lparr>p_ops = g_code g @ [Op_Ret], p_consts = g_consts g, p_list_elems = g_list_elems g, p_strings = ck_strings ck,
      p_slots = ck_slots ck, p_regexes = g_regexes g, p_result = ck_result ck, p_phase = ck_phase ck,
      p_max_stack = max_stack\<rparr>"

definition gen_compile :: "'r crates \<Rightarrow> checked \<Rightarrow> policy_limits \<Rightarrow> tree \<Rightarrow> compile_error + 'r program" where
  "gen_compile ext ck limits t =
     and_then (gen (gen_ctx ext ck limits) 0 None False t gen_start) (\<lambda>(_, g).
       and_then (map_err Compile_Verify (verify (g_code g @ [Op_Ret]) (g_consts g) (ck_slots ck) (length (g_regexes g)) limits))
         (\<lambda>max_stack. Inr (program_of ck g max_stack)))"

lemma compile_gen:
  assumes "arena_of t (ck_ast ck)" and "n_nodes t \<le> usize_max"
  shows "compile ext ck limits = gen_compile ext ck limits t"
proof -
  let ?a = "ck_ast ck" let ?c = "gen_ctx ext ck limits"
  have small: "small_arena ?a" using assms by (rule arena_small)
  have nodes: "a_nodes ?a = flat 0 0 t" using assms(1) by (simp add: arena_of_def)
  have start: "compile_start (n_nodes t) = cst (n_nodes t) [] gen_start"
    by (simp add: compile_start_def cst_def gen_start_def arr_def)
  have "compile_loop ?c 0 (flat 0 0 t) (cst (n_nodes t) [] gen_start) =
      and_then (gen ?c 0 None False t gen_start) (\<lambda>(js, g). Inr (cst (n_nodes t) ([] @ js) g))"
    by (rule sweep_tree(1))
      (use assms small laid_arena [OF assms(1)] build_hole_before_flat [OF nodes] build_suppressed_flat [OF assms(1) small] nodes
       in \<open>auto simp: gen_ctx_def region_def\<close>)
  then show ?thesis
    unfolding compile_def gen_compile_def Let_def nodes length_flat start gen_ctx_def
    by (auto simp: and_then_def cst_def program_of_def split: sum.split)
qed

end
