(* ===== verification/Policy_Typing.thy ===== *)
theory Policy_Typing
  imports Policy_Check Policy_Layout
begin

text \<open>
  A recursive type checker on trees, and the proof that the forward pass of \<^verbatim>\<open>check\<close> over the
  arena computes exactly the same: the same error, or the same type, start offset, slot and map
  for every node, the same slot table and the same string arena.
\<close>

section \<open>The tree checker\<close>

text \<open>What the pass records for one node.\<close>

record ninfo =
  ni_ty :: ty
  ni_start :: nat
  ni_slot :: nat
  ni_map :: "map_id option"

definition info :: "ty \<Rightarrow> nat \<Rightarrow> ninfo" where
  "info t start = \<lparr>ni_ty = t, ni_start = start, ni_slot = NO_SLOT, ni_map = None\<rparr>"

type_synonym tstate = "attr_ref list \<times> bytes"

text \<open>\<^verbatim>\<open>assemble_path\<close> on the tree of the base.\<close>

fun tree_path_loop :: "bytes \<Rightarrow> span \<Rightarrow> bytes \<Rightarrow> nat \<Rightarrow> span \<Rightarrow> tree \<Rightarrow> bool \<Rightarrow> check_error + bytes \<times> nat \<times> span" where
  "tree_path_loop src name buf cursor seg cur first =
     (case span_slice seg src of
        None \<Rightarrow> Inl (UnknownAttribute (sp_start seg) seg)
      | Some bs \<Rightarrow>
          (case push_segment buf cursor bs first of
             None \<Rightarrow> Inl (UnknownAttribute (sp_start seg) (mk_span (sp_start seg) (sp_end name)))
           | Some (buf', cursor') \<Rightarrow>
               (case cur of
                  T_Ident root \<Rightarrow>
                    (case span_slice root src of
                       None \<Rightarrow> Inl (UnknownAttribute (sp_start root) root)
                     | Some rb \<Rightarrow>
                         (case push_segment buf' cursor' rb False of
                            None \<Rightarrow> Inl (UnknownAttribute (sp_start root) (mk_span (sp_start root) (sp_end name)))
                          | Some (buf'', cursor'') \<Rightarrow>
                              Inr (buf'', cursor'', mk_span (sp_start root) (sp_end name))))
                | T_Field b2 n2 \<Rightarrow> tree_path_loop src name buf' cursor' n2 b2 False
                | _ \<Rightarrow> Inl (NotANamespace (sp_start seg)))))"

declare tree_path_loop.simps [simp del]

definition tree_path :: "bytes \<Rightarrow> tree \<Rightarrow> span \<Rightarrow> check_error + bytes \<times> nat \<times> span" where
  "tree_path src base name =
     tree_path_loop src name (replicate MAX_PATH_BYTES (char_of (0 :: nat))) MAX_PATH_BYTES name base True"

definition tree_intern :: "kctx \<Rightarrow> attr_ref \<Rightarrow> tstate \<Rightarrow> check_error + nat \<times> tstate" where
  "tree_intern c want st =
     (let (r, slots) = intern_slot (fst st) (snd st) want
      in and_then (ok_or r (TooManyAttrSlots (max_attr_slots (k_limits c)))) (\<lambda>i. Inr (i, (slots, snd st))))"

definition field_info :: "kctx \<Rightarrow> tree \<Rightarrow> span \<Rightarrow> ninfo \<Rightarrow> tstate \<Rightarrow> check_error + ninfo \<times> tstate" where
  "field_info c base name b st =
     (if ni_ty b \<noteq> Ty_Map then Inl (NotANamespace (ni_start b))
      else and_then (tree_path (k_src c) base name) (\<lambda>(buf, cursor, path_span).
        case resolve_path (drop cursor buf) of
          None \<Rightarrow> Inl (UnknownAttribute (sp_start path_span) path_span)
        | Some entry \<Rightarrow>
            (case (ae_attr entry, ae_map entry) of
               (Some attr, _) \<Rightarrow>
                 if \<not> attr_available_in attr (k_phase c)
                 then Inl (NotAvailableInPhase (sp_start path_span) attr (k_phase c) (attr_from_phase attr))
                 else and_then (tree_intern c (Scalar attr) st) (\<lambda>(slot, st).
                   Inr ((info (attr_ty attr) (ni_start b))\<lparr>ni_slot := slot\<rparr>, st))
             | (None, Some m) \<Rightarrow> Inr ((info Ty_Map (ni_start b))\<lparr>ni_map := Some m\<rparr>, st)
             | (None, None) \<Rightarrow> Inl (UnknownAttribute (sp_start path_span) path_span))))"

definition index_info :: "kctx \<Rightarrow> tree \<Rightarrow> ninfo \<Rightarrow> ninfo \<Rightarrow> tstate \<Rightarrow> check_error + ninfo \<times> tstate" where
  "index_info c index b x st =
     (case ni_map b of
        None \<Rightarrow> Inl (NotIndexable (ni_start b) (ni_ty b))
      | Some m \<Rightarrow>
          (case index of
             T_Str key \<Rightarrow>
               (let (key, strings) = canonical_key m key (snd st)
                in if \<not> phase_available c (map_from_phase m)
                   then Inl (MapNotAvailableInPhase (ni_start x) m (k_phase c) (map_from_phase m))
                   else and_then (tree_intern c (Field m key) (fst st, strings)) (\<lambda>(slot, st).
                     Inr ((info Ty_Str (ni_start b))\<lparr>ni_slot := slot\<rparr>, st)))
           | _ \<Rightarrow> Inl (DynamicIndex (ni_start x))))"

fun is_str_tree :: "tree \<Rightarrow> bool" where
  "is_str_tree (T_Str _) = True"
| "is_str_tree _ = False"

definition call_ty :: "meth \<Rightarrow> ninfo \<Rightarrow> (tree \<times> ninfo) list \<Rightarrow> check_error + ty" where
  "call_ty m b as =
     (if m = Method_Size
      then (if ni_ty b = Ty_Str \<or> ni_ty b = Ty_List then Inr Ty_Int
            else Inl (BadReceiver (ni_start b) m (ni_ty b)))
      else if \<not> (ni_ty b = Ty_Str \<or> ni_ty b = Ty_Null) then Inl (BadReceiver (ni_start b) m (ni_ty b))
      else (case as of
          [] \<Rightarrow> Inl (BadArgument (ni_start b) m Ty_Null)
        | (t, x) # _ \<Rightarrow>
            if ni_ty x \<noteq> Ty_Str then Inl (BadArgument (ni_start x) m (ni_ty x))
            else if m = Method_Matches \<and> \<not> is_str_tree t then Inl (NonConstantRegex (ni_start x))
            else Inr Ty_Bool))"

text \<open>\<open>firsts\<close>: the first element of the right operand, if that is a list literal.\<close>

definition bin_ty :: "bin_op \<Rightarrow> ninfo \<Rightarrow> ninfo \<Rightarrow> ninfo list option \<Rightarrow> check_error + ty" where
  "bin_ty op l r firsts =
     (if op = BinOp_Eq \<or> op = BinOp_Ne
      then (if (if ni_ty l = ni_ty r then \<not> (ni_ty l = Ty_Map \<or> ni_ty l = Ty_List)
                else ni_ty l = Ty_Null \<and> is_scalar_ty (ni_ty r) \<or> ni_ty r = Ty_Null \<and> is_scalar_ty (ni_ty l))
            then Inr Ty_Bool else Inl (TypeMismatch (ni_start l) (ni_ty l) (ni_ty r)))
      else if op = BinOp_In
      then (case firsts of
          Some es \<Rightarrow>
            if ni_ty l = Ty_Map \<or> ni_ty l = Ty_List then Inl (HeterogeneousList (ni_start l) (ni_ty l) (ni_ty l))
            else (case es of
                e # _ \<Rightarrow> if ni_ty e \<noteq> ni_ty l then Inl (HeterogeneousList (ni_start r) (ni_ty e) (ni_ty l))
                         else Inr Ty_Bool
              | [] \<Rightarrow> Inr Ty_Bool)
        | None \<Rightarrow> Inl (InRequiresList (ni_start r) (ni_ty r)))
      else if ni_ty l = Ty_Int \<and> ni_ty r = Ty_Int then Inr Ty_Bool
      else Inl (NotOrdered (ni_start l) (if ni_ty l = Ty_Int then ni_ty r else ni_ty l)))"

definition list_ty :: "ninfo list \<Rightarrow> check_error + ty" where
  "list_ty es =
     (case es of
        [] \<Rightarrow> Inr Ty_List
      | e # rest \<Rightarrow>
          if \<not> is_scalar_ty (ni_ty e) then Inl (HeterogeneousList (ni_start e) (ni_ty e) (ni_ty e))
          else (case find (\<lambda>x. ni_ty x \<noteq> ni_ty e) rest of
              Some x \<Rightarrow> Inl (HeterogeneousList (ni_start x) (ni_ty e) (ni_ty x))
            | None \<Rightarrow> Inr Ty_List))"

definition unify_ty :: "ninfo \<Rightarrow> ninfo \<Rightarrow> check_error + ty" where
  "unify_ty t e =
     (if ni_ty t = ni_ty e then Inr (ni_ty t)
      else if ni_ty t = Ty_Null \<and> is_scalar_ty (ni_ty e) then Inr (ni_ty e)
      else if ni_ty e = Ty_Null \<and> is_scalar_ty (ni_ty t) then Inr (ni_ty t)
      else Inl (TypeMismatch (ni_start t) (ni_ty t) (ni_ty e)))"

definition expect_info :: "ninfo \<Rightarrow> ty \<Rightarrow> check_error + unit" where
  "expect_info x want = (if ni_ty x = want then Inr () else Inl (TypeMismatch (ni_start x) want (ni_ty x)))"

definition plain :: "tstate \<Rightarrow> nat \<Rightarrow> check_error + ty \<Rightarrow> check_error + ninfo \<times> tstate" where
  "plain st start r = and_then r (\<lambda>t. Inr (info t start, st))"

text \<open>The roots of the elements of a list literal, from the records of all its nodes.\<close>

definition list_roots :: "tree \<Rightarrow> ninfo list \<Rightarrow> ninfo list option" where
  "list_roots t js = (case t of T_List ts \<Rightarrow> Some (map (\<lambda>r. js ! r) (roots_at 0 ts)) | _ \<Rightarrow> None)"

text \<open>The check of the top node of a tree, from the records of its children (\<open>iss\<close>, one list per
  child, its root last).\<close>

fun top_info :: "kctx \<Rightarrow> bool \<Rightarrow> tree \<Rightarrow> ninfo list list \<Rightarrow> tstate \<Rightarrow> check_error + ninfo \<times> tstate" where
  "top_info c fb (T_Bool _) iss st = Inr (info Ty_Bool 0, st)"
| "top_info c fb (T_Int _) iss st = Inr (info Ty_Int 0, st)"
| "top_info c fb (T_Str sp) iss st = Inr (info Ty_Str (sp_start sp), st)"
| "top_info c fb T_Null iss st = Inr (info Ty_Null 0, st)"
| "top_info c fb (T_Ident sp) iss st =
     and_then (if fb then Inr () else namespace_or_error sp (k_src c)) (\<lambda>_. Inr (info Ty_Map (sp_start sp), st))"
| "top_info c fb (T_Field b name) iss st = field_info c b name (last (iss ! 0)) st"
| "top_info c fb (T_Index b t) iss st = index_info c t (last (iss ! 0)) (last (iss ! 1)) st"
| "top_info c fb (T_Call b m ts) iss st =
     plain st (ni_start (last (iss ! 0))) (call_ty m (last (iss ! 0)) (zip ts (map last (tl iss))))"
| "top_info c fb (T_Not t) iss st =
     plain st (ni_start (last (iss ! 0))) (and_then (expect_info (last (iss ! 0)) Ty_Bool) (\<lambda>_. Inr Ty_Bool))"
| "top_info c fb (T_And l r) iss st =
     plain st (ni_start (last (iss ! 0))) (and_then (expect_info (last (iss ! 0)) Ty_Bool) (\<lambda>_.
       and_then (expect_info (last (iss ! 1)) Ty_Bool) (\<lambda>_. Inr Ty_Bool)))"
| "top_info c fb (T_Or l r) iss st =
     plain st (ni_start (last (iss ! 0))) (and_then (expect_info (last (iss ! 0)) Ty_Bool) (\<lambda>_.
       and_then (expect_info (last (iss ! 1)) Ty_Bool) (\<lambda>_. Inr Ty_Bool)))"
| "top_info c fb (T_Bin op l r) iss st =
     plain st (ni_start (last (iss ! 0)))
       (bin_ty op (last (iss ! 0)) (last (iss ! 1)) (list_roots r (iss ! 1)))"
| "top_info c fb (T_Ternary b t e) iss st =
     plain st (ni_start (last (iss ! 0))) (and_then (expect_info (last (iss ! 0)) Ty_Bool) (\<lambda>_.
       unify_ty (last (iss ! 1)) (last (iss ! 2))))"
| "top_info c fb (T_List ts) iss st =
     plain st (case map last iss of [] \<Rightarrow> 0 | e # _ \<Rightarrow> ni_start e) (list_ty (map last iss))"

fun is_field :: "tree \<Rightarrow> bool" where
  "is_field (T_Field _ _) = True"
| "is_field _ = False"

function tree_check :: "kctx \<Rightarrow> bool \<Rightarrow> tree \<Rightarrow> tstate \<Rightarrow> check_error + ninfo list \<times> tstate"
  and trees_check :: "kctx \<Rightarrow> bool \<Rightarrow> tree list \<Rightarrow> tstate \<Rightarrow> check_error + ninfo list list \<times> tstate" where
  "tree_check c fb t st =
     and_then (trees_check c (is_field t) (children t) st) (\<lambda>(iss, st).
       and_then (top_info c fb t iss st) (\<lambda>(x, st). Inr (concat iss @ [x], st)))"
| "trees_check c fb [] st = Inr ([], st)"
| "trees_check c fb (t # ts) st =
     and_then (tree_check c fb t st) (\<lambda>(ps, st).
       and_then (trees_check c fb ts st) (\<lambda>(iss, st). Inr (ps # iss, st)))"
  by pat_completeness auto
termination
  by (relation "measure (\<lambda>x. case x of Inl (c, fb, t, st) \<Rightarrow> 2 * n_nodes t
        | Inr (c, fb, ts, st) \<Rightarrow> 2 * ns_nodes ts + 1)")
    (auto simp: n_nodes_children)

declare tree_check.simps [simp del]

section \<open>The pass computes the tree checker\<close>

text \<open>The state of the pass after the nodes recorded by \<open>ps\<close>, in an arena of \<open>n\<close> nodes.\<close>

definition kst :: "nat \<Rightarrow> ninfo list \<Rightarrow> tstate \<Rightarrow> kstate" where
  "kst n ps st =
     \<lparr>k_strings = snd st, k_types = map ni_ty ps @ replicate (n - length ps) Ty_Null,
      k_starts = map ni_start ps @ replicate (n - length ps) 0,
      k_node_slot = map ni_slot ps @ replicate (n - length ps) NO_SLOT,
      k_node_map = map ni_map ps @ replicate (n - length ps) None, k_slots = fst st\<rparr>"

lemma kst_start: "check_start n strings = kst n [] ([], strings)"
  by (simp add: check_start_def kst_def)

lemma kst_look:
  assumes "r < length ps"
  shows "ty_of (kst n ps st) r = ni_ty (ps ! r)" and "start_of (kst n ps st) r = ni_start (ps ! r)"
    and "get (k_node_map (kst n ps st)) r = Some (ni_map (ps ! r))"
  using assms by (simp_all add: ty_of_def start_of_def kst_def nth_append)

lemma kst_record:
  assumes "length ps < n"
  shows "(kst n ps st)\<lparr>k_types := set_at (k_types (kst n ps st)) (length ps) (ni_ty x),
      k_starts := set_at (k_starts (kst n ps st)) (length ps) (ni_start x),
      k_node_slot := set_at (k_node_slot (kst n ps st)) (length ps) (ni_slot x),
      k_node_map := set_at (k_node_map (kst n ps st)) (length ps) (ni_map x)\<rparr> = kst n (ps @ [x]) st"
  using assms set_at_next [of "map ni_ty ps" n] set_at_next [of "map ni_start ps" n]
    set_at_next [of "map ni_slot ps" n] set_at_next [of "map ni_map ps" n]
  by (simp add: kst_def)

definition aligned :: "tree list \<Rightarrow> ninfo list list \<Rightarrow> bool" where
  "aligned ts iss \<longleftrightarrow> list_all2 (\<lambda>t js. length js = n_nodes t) ts iss"

lemma aligned_simps [simp]:
  "aligned [] iss \<longleftrightarrow> iss = []"
  "aligned (t # ts) iss \<longleftrightarrow> (\<exists>js jss. iss = js # jss \<and> length js = n_nodes t \<and> aligned ts jss)"
  by (simp_all add: aligned_def list_all2_Cons1)

lemma aligned_length: "aligned ts iss \<Longrightarrow> length (concat iss) = ns_nodes ts"
  by (induction ts arbitrary: iss) auto

lemma roots_look:
  "aligned ts iss \<Longrightarrow> list_all2 (\<lambda>r js. r < length (ps @ concat iss) \<and> (ps @ concat iss) ! r = last js)
     (roots_at (length ps) ts) iss"
proof (induction ts arbitrary: ps iss)
  case (Cons t ts)
  then obtain js jss where iss: "iss = js # jss" "length js = n_nodes t" "aligned ts jss" by auto
  have "list_all2 (\<lambda>r ks. r < length ((ps @ js) @ concat jss) \<and> ((ps @ js) @ concat jss) ! r = last ks)
      (roots_at (length (ps @ js)) ts) jss"
    by (rule Cons.IH [OF iss(3)])
  moreover have "js \<noteq> []" using iss(2) by (metis n_nodes_pos list.size(3) less_irrefl)
  then have "(ps @ js @ concat jss) ! (length ps + length js - 1) = last js"
    by (cases js rule: rev_cases) (auto simp: nth_append)
  moreover have "length ps + n_nodes t - 1 < length ps + (n_nodes t + k)" for k
    using n_nodes_pos [of t] by linarith
  ultimately show ?case using iss by simp
qed simp

text \<open>What the arrays and the arena say about the root \<open>r\<close> of a recorded tree.\<close>

definition sees :: "ast \<Rightarrow> kstate \<Rightarrow> node_id \<Rightarrow> tree \<times> ninfo \<Rightarrow> bool" where
  "sees a s r = (\<lambda>(t, x). ty_of s r = ni_ty x \<and> start_of s r = ni_start x \<and>
     get (k_node_map s) r = Some (ni_map x) \<and> (\<exists>i j. laid a i j t \<and> r = root_at i t))"

lemma roots_laid:
  "laids a i j ts \<Longrightarrow> list_all2 (\<lambda>r t. \<exists>i j. laid a i j t \<and> r = root_at i t) (roots_at i ts) ts"
  by (induction ts arbitrary: i j) (auto dest!: laids_ConsD)

lemma children_seen:
  assumes "aligned ts iss" and "laids a (length ps) j ts"
  shows "list_all2 (sees a (kst n (ps @ concat iss) st)) (roots_at (length ps) ts) (zip ts (map last iss))"
  using roots_look [OF assms(1), of ps] roots_laid [OF assms(2)]
  by (auto simp: list_all2_conv_all_nth sees_def kst_look)

text \<open>A step of the pass from a step on records.\<close>

definition node_step :: "nat \<Rightarrow> ninfo list \<Rightarrow> check_error + ninfo \<times> tstate \<Rightarrow> check_error + kstate" where
  "node_step n ps r = and_then r (\<lambda>(x, st). Inr (kst n (ps @ [x]) st))"

lemma check_step_kst:
  assumes "length ps < n"
    and "check_node c (length ps) nd (kst n ps st) =
      and_then r (\<lambda>(x, st'). Inr ((ni_ty x, ni_start x), (kst n ps st')\<lparr>
        k_node_slot := set_at (k_node_slot (kst n ps st')) (length ps) (ni_slot x),
        k_node_map := set_at (k_node_map (kst n ps st')) (length ps) (ni_map x)\<rparr>))"
  shows "check_step c (length ps) nd (kst n ps st) = node_step n ps r"
proof (cases r)
  case (Inl e)
  with assms(2) show ?thesis by (simp add: check_step_def node_step_def)
next
  case (Inr xs)
  obtain x st' where x: "xs = (x, st')" by (cases xs)
  with assms(2) kst_record [OF assms(1), of st' x] Inr x show ?thesis
    by (simp add: check_step_def node_step_def kst_def)
qed

lemma kst_fresh:
  assumes "length ps < n"
  shows "(kst n ps st)\<lparr>k_node_slot := set_at (k_node_slot (kst n ps st)) (length ps) NO_SLOT\<rparr> = kst n ps st"
    and "(kst n ps st)\<lparr>k_node_map := set_at (k_node_map (kst n ps st)) (length ps) None\<rparr> = kst n ps st"
  using assms by (cases "n - length ps"; auto simp: kst_def set_at_def list_update_append)+

lemma assemble_tree:
  assumes "laid (k_ast c) i j t"
  shows "assemble_loop (k_ast c) src name buf cursor seg (root_at i t) first =
    tree_path_loop src name buf cursor seg t first"
  using assms
proof (induction t arbitrary: buf cursor seg first)
  case (T_Field b n2)
  have b: "laid (k_ast c) i j b" using laid_children [OF T_Field.prems] by (auto dest: laids_Cons(1))
  show ?case
    using laid_root [OF T_Field.prems] T_Field.IH [OF b]
    by (subst assemble_loop.simps, subst tree_path_loop.simps)
      (simp split: option.split)
qed (drule laid_root, subst assemble_loop.simps, subst tree_path_loop.simps, simp split: option.split)+

lemma check_step_plain:
  assumes "length ps < n" and "check_node c (length ps) nd (kst n ps st) = pure (kst n ps st) start r"
  shows "check_step c (length ps) nd (kst n ps st) = node_step n ps (plain st start r)"
proof (rule check_step_kst [OF assms(1)])
  have "(kst n ps st)\<lparr>k_node_slot := set_at (k_node_slot (kst n ps st)) (length ps) NO_SLOT,
      k_node_map := set_at (k_node_map (kst n ps st)) (length ps) None\<rparr> = kst n ps st"
    using kst_fresh [OF assms(1), of st] by simp
  then show "check_node c (length ps) nd (kst n ps st) =
      and_then (plain st start r) (\<lambda>(x, st'). Inr ((ni_ty x, ni_start x), (kst n ps st')\<lparr>
        k_node_slot := set_at (k_node_slot (kst n ps st')) (length ps) (ni_slot x),
        k_node_map := set_at (k_node_map (kst n ps st')) (length ps) (ni_map x)\<rparr>))"
    using assms(2) by (cases r) (simp_all add: pure_def plain_def info_def)
qed

text \<open>The setting of the next lemmas: the children of \<open>t\<close> have been recorded.\<close>

definition at_top :: "kctx \<Rightarrow> tree \<Rightarrow> nat \<Rightarrow> nat \<Rightarrow> nat \<Rightarrow> ninfo list \<Rightarrow> ninfo list list \<Rightarrow> bool" where
  "at_top c t i j n ps iss \<longleftrightarrow>
     laid (k_ast c) i j t \<and> small_arena (k_ast c) \<and> aligned (children t) iss \<and> length ps = i \<and> i + n_nodes t \<le> n"

lemma at_top_here:
  assumes "at_top c t i j n ps iss"
  shows "length (ps @ concat iss) = root_at i t" and "length (ps @ concat iss) < n"
  using assms aligned_length [of "children t" iss] by (auto simp: at_top_def n_nodes_children [of t])

lemma at_top_seen:
  assumes "at_top c t i j n ps iss"
  shows "list_all2 (sees (k_ast c) (kst n (ps @ concat iss) st)) (roots_at i (children t)) (zip (children t) (map last iss))"
  using assms children_seen [of "children t" iss "k_ast c" ps j n st] laid_children by (auto simp: at_top_def)

text \<open>The parts of the checker on what they see.\<close>

lemma is_str_top: "(case top_node a b t of Node_Str x \<Rightarrow> False | _ \<Rightarrow> True) \<longleftrightarrow> \<not> is_str_tree t"
  by (cases t) auto

lemma sees_node: "sees (k_ast c) s r (t, x) \<Longrightarrow> \<exists>i j. laid (k_ast c) i j t \<and> r = root_at i t \<and>
    ast_node (k_ast c) r = Some (top_node i j t)"
  using laid_root by (fastforce simp: sees_def)

lemma check_call_seen:
  assumes "args_of (k_ast c) fr len = rs" and "sees (k_ast c) s b (t, x)"
    and "list_all2 (sees (k_ast c) s) rs as"
  shows "check_call c b m fr len s = call_ty m x as"
proof (cases rs)
  case Nil
  with assms show ?thesis by (auto simp: check_call_def call_ty_def Let_def sees_def)
next
  case (Cons r rs')
  then obtain t' y as' where as: "as = (t', y) # as'" "sees (k_ast c) s r (t', y)"
    using assms(3) by (auto simp: list_all2_Cons1)
  obtain i' j' where "ast_node (k_ast c) r = Some (top_node i' j' t')" using sees_node [OF as(2)] by blast
  with assms as Cons show ?thesis
    by (auto simp: check_call_def call_ty_def Let_def sees_def is_str_top)
qed

lemma check_list_seen:
  assumes "args_of (k_ast c) fr len = rs" and "list_all2 (sees (k_ast c) s) rs as"
  shows "check_list c fr len s = list_ty (map snd as)"
    and "(case rs of [] \<Rightarrow> 0 | e # _ \<Rightarrow> start_of s e) = (case map snd as of [] \<Rightarrow> 0 | e # _ \<Rightarrow> ni_start e)"
proof -
  have find: "list_all2 (sees (k_ast c) s) rs as \<Longrightarrow>
      (case find (\<lambda>e. ty_of s e \<noteq> u) rs of Some e \<Rightarrow> Inl (HeterogeneousList (start_of s e) u (ty_of s e)) | None \<Rightarrow> Inr Ty_List) =
      (case find (\<lambda>x. ni_ty x \<noteq> u) (map snd as) of Some x \<Rightarrow> Inl (HeterogeneousList (ni_start x) u (ni_ty x)) | None \<Rightarrow> Inr Ty_List)"
    for u rs as by (induction rs as rule: list_all2_induct) (auto simp: sees_def)
  show "check_list c fr len s = list_ty (map snd as)"
  proof (cases rs)
    case (Cons r rs')
    then obtain t y as' where as: "as = (t, y) # as'" "sees (k_ast c) s r (t, y)"
      "list_all2 (sees (k_ast c) s) rs' as'"
      using assms(2) by (auto simp: list_all2_Cons1)
    then have "ty_of s r = ni_ty y" "start_of s r = ni_start y" by (auto simp: sees_def)
    then show ?thesis using Cons as(1) assms(1) find [OF as(3), of "ni_ty y"]
      by (simp add: check_list_def list_ty_def Let_def cong: option.case_cong)
  qed (use assms in \<open>simp add: check_list_def list_ty_def\<close>)
  show "(case rs of [] \<Rightarrow> 0 | e # _ \<Rightarrow> start_of s e) = (case map snd as of [] \<Rightarrow> 0 | e # _ \<Rightarrow> ni_start e)"
    using assms(2) by (cases rs; cases as) (auto simp: sees_def)
qed

lemma unify_seen:
  "sees a s r (t, x) \<Longrightarrow> sees a s r' (t', x') \<Longrightarrow> unify r r' s = unify_ty x x'"
  "sees a s r (t, x) \<Longrightarrow> expect_ty s r u = expect_info x u"
  "sees a s r (t, x) \<Longrightarrow> start_of s r = ni_start x"
  by (auto simp: sees_def unify_def unify_ty_def Let_def expect_ty_def expect_info_def)

lemma check_bin_seen:
  assumes "sees (k_ast c) s l (lt, xl)" and "sees (k_ast c) s r (rt, xr)"
    and "\<And>fr len. ast_node (k_ast c) r = Some (Node_List fr len) \<Longrightarrow>
      \<exists>es. firsts = Some es \<and> list_all2 (\<lambda>r x. ty_of s r = ni_ty x) (args_of (k_ast c) fr len) es"
    and "(\<nexists>fr len. ast_node (k_ast c) r = Some (Node_List fr len)) \<Longrightarrow> firsts = None"
  shows "check_bin c op l r s = bin_ty op xl xr firsts"
proof (cases "\<exists>fr len. ast_node (k_ast c) r = Some (Node_List fr len)")
  case True
  then obtain fr len where nd: "ast_node (k_ast c) r = Some (Node_List fr len)" by blast
  then obtain es where es: "firsts = Some es" "list_all2 (\<lambda>r x. ty_of s r = ni_ty x) (args_of (k_ast c) fr len) es"
    using assms(3) by blast
  with nd assms(1,2) show ?thesis
    by (cases "args_of (k_ast c) fr len"; cases es)
      (auto simp: check_bin_def bin_ty_def Let_def sees_def)
next
  case False
  then have "(case ast_node (k_ast c) r of Some (Node_List fr len) \<Rightarrow> A fr len | _ \<Rightarrow> B) = B"
    for A and B :: "check_error + ty"
    by (auto split: option.splits node.splits)
  with False assms(1,2,4) show ?thesis by (simp add: check_bin_def bin_ty_def Let_def sees_def)
qed

lemma roots_at_shift: "roots_at (i + k) ts = map ((+) i) (roots_at k ts)"
proof (induction ts arbitrary: k)
  case (Cons t ts)
  have "i + k + n_nodes t - 1 = i + (k + n_nodes t - 1)" using n_nodes_pos [of t] by linarith
  then show ?case using Cons [of "k + n_nodes t"] by (simp add: add.assoc)
qed simp

lemma roots_at_less: "r \<in> set (roots_at k ts) \<Longrightarrow> r < k + ns_nodes ts"
proof (induction ts arbitrary: k)
  case (Cons t ts)
  have "k + n_nodes t - 1 < k + n_nodes t + ns_nodes ts" using n_nodes_pos [of t] by linarith
  then show ?case using Cons by fastforce
qed simp

lemma list_roots_seen:
  assumes "length js = n_nodes t" and "laid a (length ps) j t" and "small_arena a"
    and "ast_node a (root_at (length ps) t) = Some (Node_List fr len)"
  shows "\<exists>es. list_roots t js = Some es \<and>
    list_all2 (\<lambda>r x. ty_of (kst n (ps @ js) st) r = ni_ty x) (args_of a fr len) es"
proof -
  have "top_node (length ps) j t = Node_List fr len" using laid_root [OF assms(2)] assms(4) by simp
  then obtain ts where t: "t = T_List ts" "fr = j + ns_args ts" "len = length ts" by (cases t) auto
  have args: "args_of a fr len = map ((+) (length ps)) (roots_at 0 ts)"
    using laid_args(1) [OF assms(2,3) t(1)] t(2,3) roots_at_shift [of "length ps" 0 ts] by simp
  have "ty_of (kst n (ps @ js) st) (length ps + r) = ni_ty (js ! r)" if "r \<in> set (roots_at 0 ts)" for r
    using roots_at_less [OF that] assms(1) t(1) by (simp add: kst_look)
  then have "list_all2 (\<lambda>r x. ty_of (kst n (ps @ js) st) r = ni_ty x) (args_of a fr len) (map ((!) js) (roots_at 0 ts))"
    unfolding args by (auto simp: list_all2_conv_all_nth)
  with t(1) show ?thesis by (simp add: list_roots_def)
qed

lemma intern_kst:
  "intern c want (kst n ps st) = and_then (tree_intern c want st) (\<lambda>(i, st'). Inr (i, kst n ps st'))"
proof -
  have "(kst n ps st)\<lparr>k_slots := slots\<rparr> = kst n ps (slots, snd st)" for slots by (simp add: kst_def)
  then show ?thesis by (cases "intern_slot (fst st) (snd st) want"; cases "fst (intern_slot (fst st) (snd st) want)")
    (auto simp: intern_def tree_intern_def kst_def)
qed

text \<open>The state with the record of the next node written into the two arrays \<^verbatim>\<open>check_node\<close> fills.\<close>

definition put :: "nat \<Rightarrow> ninfo list \<Rightarrow> ninfo \<Rightarrow> tstate \<Rightarrow> kstate" where
  "put n ps x st = (kst n ps st)\<lparr>
     k_node_slot := set_at (k_node_slot (kst n ps st)) (length ps) (ni_slot x),
     k_node_map := set_at (k_node_map (kst n ps st)) (length ps) (ni_map x)\<rparr>"

lemma put_slot: "length ps < n \<Longrightarrow> ni_map x = None \<Longrightarrow>
    put n ps x st = (kst n ps st)\<lparr>k_node_slot := set_at (k_node_slot (kst n ps st)) (length ps) (ni_slot x)\<rparr>"
  using kst_fresh(2) [of ps n st] by (simp add: put_def kst_def)

lemma put_map: "length ps < n \<Longrightarrow> ni_slot x = NO_SLOT \<Longrightarrow>
    put n ps x st = (kst n ps st)\<lparr>k_node_map := set_at (k_node_map (kst n ps st)) (length ps) (ni_map x)\<rparr>"
  using kst_fresh(1) [of ps n st] by (simp add: put_def kst_def)

lemma put_start: "start_of (put n ps x st) r = start_of (kst n ps st') r"
  by (simp add: put_def start_of_def kst_def)

lemma resolve_field_seen:
  assumes "sees (k_ast c) (kst n ps st) r (b, x)" and "length ps < n"
  shows "resolve_field c (length ps) r name (kst n ps st) =
    and_then (field_info c b name x st) (\<lambda>(y, st'). Inr (ni_ty y, put n ps y st'))"
proof -
  obtain i j where b: "laid (k_ast c) i j b" "r = root_at i b" using assms(1) by (auto simp: sees_def)
  have path: "assemble_path (k_ast c) (k_src c) r name = tree_path (k_src c) b name"
    unfolding assemble_path_def tree_path_def b(2) by (rule assemble_tree [OF b(1)])
  have tb: "ty_of (kst n ps st) r = ni_ty x" "start_of (kst n ps st) r = ni_start x"
    using assms(1) by (auto simp: sees_def)
  show ?thesis
    using put_slot [OF assms(2)] put_map [OF assms(2)]
    by (auto simp: resolve_field_def field_info_def path tb intern_kst info_def and_then_def
        split: sum.split option.split prod.split)
qed

lemma resolve_index_seen:
  assumes "sees (k_ast c) (kst n ps st) r (b, x)" and "sees (k_ast c) (kst n ps st) r' (k, y)"
    and "length ps < n"
  shows "resolve_index c (length ps) r r' (kst n ps st) =
    and_then (index_info c k x y st) (\<lambda>(z, st'). Inr (ni_ty z, put n ps z st'))"
proof -
  have xb: "ty_of (kst n ps st) r = ni_ty x" "start_of (kst n ps st) r = ni_start x"
    "get (k_node_map (kst n ps st)) r = Some (ni_map x)" "start_of (kst n ps st) r' = ni_start y"
    using assms(1,2) by (auto simp: sees_def)
  have str: "(kst n ps st)\<lparr>k_strings := ss\<rparr> = kst n ps (fst st, ss)" for ss by (simp add: kst_def)
  have start: "start_of (kst n ps st') r' = ni_start y" for st'
    using xb(4) by (simp add: kst_def start_of_def)
  obtain i j where nd: "ast_node (k_ast c) r' = Some (top_node i j k)" using sees_node [OF assms(2)] by blast
  show ?thesis
  proof (cases "\<exists>key m. k = T_Str key \<and> ni_map x = Some m")
    case True
    then obtain key m where k: "k = T_Str key" "ni_map x = Some m" by blast
    obtain key' ss where ck: "canonical_key m key (snd st) = (key', ss)" by fastforce
    have "k_strings (kst n ps st) = snd st" by (simp add: kst_def)
    then show ?thesis
      using put_slot [OF assms(3)] k ck xb nd
      by (auto simp: resolve_index_def index_info_def str start intern_kst info_def and_then_def
          split: sum.split prod.split)
  next
    case False
    then show ?thesis using xb nd
      by (cases k) (auto simp: resolve_index_def index_info_def split: option.split)
  qed
qed

lemma check_step_put:
  assumes "length ps < n"
    and "check_node c (length ps) nd (kst n ps st) =
      and_then r (\<lambda>(x, st'). Inr ((ni_ty x, ni_start x), put n ps x st'))"
  shows "check_step c (length ps) nd (kst n ps st) = node_step n ps r"
  using check_step_kst [OF assms(1), of c nd st r] assms(2) unfolding put_def by simp

lemma field_info_cases:
  assumes "field_info c b name x st = Inr (y, st')"
  obtains buf cursor sp entry a slot where "tree_path (k_src c) b name = Inr (buf, cursor, sp)"
      "resolve_path (drop cursor buf) = Some entry" "ae_attr entry = Some a"
      "attr_available_in a (k_phase c)" "tree_intern c (Scalar a) st = Inr (slot, st')"
      "y = (info (attr_ty a) (ni_start x))\<lparr>ni_slot := slot\<rparr>"
    | buf cursor sp entry m where "tree_path (k_src c) b name = Inr (buf, cursor, sp)"
      "resolve_path (drop cursor buf) = Some entry" "ae_attr entry = None" "ae_map entry = Some m"
      "st' = st" "y = (info Ty_Map (ni_start x))\<lparr>ni_map := Some m\<rparr>"
proof -
  from assms obtain buf cursor sp where p: "tree_path (k_src c) b name = Inr (buf, cursor, sp)"
    and "(case resolve_path (drop cursor buf) of None \<Rightarrow> Inl (UnknownAttribute (sp_start sp) sp)
        | Some entry \<Rightarrow>
            (case (ae_attr entry, ae_map entry) of
               (Some attr, _) \<Rightarrow>
                 if \<not> attr_available_in attr (k_phase c)
                 then Inl (NotAvailableInPhase (sp_start sp) attr (k_phase c) (attr_from_phase attr))
                 else and_then (tree_intern c (Scalar attr) st) (\<lambda>(slot, st).
                   Inr ((info (attr_ty attr) (ni_start x))\<lparr>ni_slot := slot\<rparr>, st))
             | (None, Some m) \<Rightarrow> Inr ((info Ty_Map (ni_start x))\<lparr>ni_map := Some m\<rparr>, st)
             | (None, None) \<Rightarrow> Inl (UnknownAttribute (sp_start sp) sp))) = Inr (y, st')"
    unfolding field_info_def by (auto simp: and_then_Inr_iff split: if_splits)
  then obtain entry where e: "resolve_path (drop cursor buf) = Some entry"
    and r: "(case (ae_attr entry, ae_map entry) of
               (Some attr, _) \<Rightarrow>
                 if \<not> attr_available_in attr (k_phase c)
                 then Inl (NotAvailableInPhase (sp_start sp) attr (k_phase c) (attr_from_phase attr))
                 else and_then (tree_intern c (Scalar attr) st) (\<lambda>(slot, st).
                   Inr ((info (attr_ty attr) (ni_start x))\<lparr>ni_slot := slot\<rparr>, st))
             | (None, Some m) \<Rightarrow> Inr ((info Ty_Map (ni_start x))\<lparr>ni_map := Some m\<rparr>, st)
             | (None, None) \<Rightarrow> Inl (UnknownAttribute (sp_start sp) sp)) = Inr (y, st')"
    by (cases "resolve_path (drop cursor buf)") auto
  show ?thesis
  proof (cases "ae_attr entry")
    case None
    with r obtain m where "ae_map entry = Some m" by (cases "ae_map entry") auto
    with that(2) [OF p e None] r None show ?thesis by simp
  next
    case (Some a)
    with r that(1) [OF p e Some] show ?thesis by (auto simp: and_then_Inr_iff split: if_splits)
  qed
qed

lemma field_info_start: "field_info c b name x st = Inr (y, st') \<Longrightarrow> ni_start y = ni_start x"
  by (erule field_info_cases) (simp_all add: info_def)

lemma index_info_cases:
  assumes "index_info c k x y st = Inr (z, st')"
  obtains m key key' ss slot where "ni_map x = Some m" "k = T_Str key"
    "canonical_key m key (snd st) = (key', ss)" "phase_available c (map_from_phase m)"
    "tree_intern c (Field m key') (fst st, ss) = Inr (slot, st')"
    "z = (info Ty_Str (ni_start x))\<lparr>ni_slot := slot\<rparr>"
proof -
  obtain m key where mk: "ni_map x = Some m" "k = T_Str key"
    using assms by (auto simp: index_info_def split: option.splits tree.splits)
  obtain key' ss where ck: "canonical_key m key (snd st) = (key', ss)" by fastforce
  with assms mk that show ?thesis by (auto simp: index_info_def and_then_Inr_iff split: if_splits)
qed

lemma index_info_start: "index_info c k x y st = Inr (z, st') \<Longrightarrow> ni_start z = ni_start x"
  by (erule index_info_cases) (simp add: info_def)

text \<open>The step of the pass at the top node of a tree is the check of the tree's top node.\<close>

definition top_ok :: "kctx \<Rightarrow> bool \<Rightarrow> tree \<Rightarrow> nat \<Rightarrow> nat \<Rightarrow> nat \<Rightarrow> ninfo list \<Rightarrow> ninfo list list \<Rightarrow> tstate \<Rightarrow> bool" where
  "top_ok c fb t i j n ps iss st \<longleftrightarrow>
     check_step c (root_at i t) (top_node i j t) (kst n (ps @ concat iss) st) =
     node_step n (ps @ concat iss) (top_info c fb t iss st)"

lemma top_ok_plain:
  assumes "at_top c t i j n ps iss"
    and "check_node c (root_at i t) (top_node i j t) (kst n (ps @ concat iss) st) = pure (kst n (ps @ concat iss) st) start r"
    and "top_info c fb t iss st = plain st start r"
  shows "top_ok c fb t i j n ps iss st"
  using check_step_plain [OF at_top_here(2) [OF assms(1)], unfolded at_top_here(1) [OF assms(1)], OF assms(2)] assms(3)
  by (simp add: top_ok_def)

lemma top_ok_put:
  assumes "at_top c t i j n ps iss"
    and "check_node c (root_at i t) (top_node i j t) (kst n (ps @ concat iss) st) =
      and_then (top_info c fb t iss st) (\<lambda>(x, st'). Inr ((ni_ty x, ni_start x), put n (ps @ concat iss) x st'))"
  shows "top_ok c fb t i j n ps iss st"
  using check_step_put [OF at_top_here(2) [OF assms(1)], unfolded at_top_here(1) [OF assms(1)], OF assms(2)]
  by (simp add: top_ok_def)

lemma top_field:
  assumes top: "at_top c t i j n ps iss" and t: "t = T_Field b name"
  shows "top_ok c fb t i j n ps iss st"
proof -
  let ?S = "kst n (ps @ concat iss) st"
  obtain js where js: "iss = [js]" using top t by (auto simp: at_top_def)
  have sb: "sees (k_ast c) ?S (root_at i b) (b, last js)" using at_top_seen [OF top, of st] t js by simp
  note rf = resolve_field_seen [OF sb at_top_here(2) [OF top], unfolded at_top_here(1) [OF top]]
  show ?thesis
    by (rule top_ok_put [OF top])
      (use rf sb field_info_start in \<open>auto simp: t js and_then_def sees_def put_start [where st' = st] split: sum.split\<close>)
qed

lemma top_index:
  assumes top: "at_top c t i j n ps iss" and t: "t = T_Index b k"
  shows "top_ok c fb t i j n ps iss st"
proof -
  let ?S = "kst n (ps @ concat iss) st"
  obtain js ks where js: "iss = [js, ks]" using top t by (auto simp: at_top_def)
  have sb: "sees (k_ast c) ?S (root_at i b) (b, last js)"
    and sk: "sees (k_ast c) ?S (root_at (i + n_nodes b) k) (k, last ks)"
    using at_top_seen [OF top, of st] t js by simp_all
  note ri = resolve_index_seen [OF sb sk at_top_here(2) [OF top], unfolded at_top_here(1) [OF top]]
  have "ni_start (last js) = start_of ?S (root_at i b)" using sb by (simp add: sees_def)
  then show ?thesis
    by (intro top_ok_put [OF top])
      (use ri index_info_start in \<open>auto simp: t js and_then_def put_start [where st' = st] split: sum.split\<close>)
qed

lemma top_call:
  assumes top: "at_top c t i j n ps iss" and t: "t = T_Call b m ts"
  shows "top_ok c fb t i j n ps iss st"
proof -
  let ?S = "kst n (ps @ concat iss) st"
  obtain js jss where js: "iss = js # jss" using top t by (auto simp: at_top_def)
  have sb: "sees (k_ast c) ?S (root_at i b) (b, last js)"
    and ss: "list_all2 (sees (k_ast c) ?S) (roots_at (i + n_nodes b) ts) (zip ts (map last jss))"
    using at_top_seen [OF top, of st] t js by simp_all
  have args: "args_of (k_ast c) (j + n_args b + ns_args ts) (length ts) = roots_at (i + n_nodes b) ts"
    using laid_args(2) [of "k_ast c" i j t] top t by (simp add: at_top_def)
  show ?thesis
    using check_call_seen [OF args sb ss] unify_seen(3) [OF sb] t js
    by (intro top_ok_plain [OF top, where start = "ni_start (last js)"]) simp_all
qed

lemma top_bin:
  assumes top: "at_top c t i j n ps iss" and t: "t = T_Bin op l r"
  shows "top_ok c fb t i j n ps iss st"
proof -
  let ?S = "kst n (ps @ concat iss) st"
  obtain js ks where js: "iss = [js, ks]" "length js = n_nodes l" "length ks = n_nodes r"
    using top t by (auto simp: at_top_def)
  have sl: "sees (k_ast c) ?S (root_at i l) (l, last js)"
    and sr: "sees (k_ast c) ?S (root_at (i + n_nodes l) r) (r, last ks)"
    using at_top_seen [OF top, of st] t js by simp_all
  have top': "laid (k_ast c) i j t" "small_arena (k_ast c)" "length ps = i" using top by (auto simp: at_top_def)
  have lr: "laid (k_ast c) (length (ps @ js)) (j + n_args l) r"
    using laid_children [OF top'(1)] t top'(3) js(2) by (auto dest!: laids_ConsD)
  have "check_bin c op (root_at i l) (root_at (i + n_nodes l) r) ?S = bin_ty op (last js) (last ks) (list_roots r ks)"
  proof (rule check_bin_seen [OF sl sr])
    show "\<exists>es. list_roots r ks = Some es \<and> list_all2 (\<lambda>r x. ty_of ?S r = ni_ty x) (args_of (k_ast c) fr len) es"
      if "ast_node (k_ast c) (root_at (i + n_nodes l) r) = Some (Node_List fr len)" for fr len
      using list_roots_seen [OF js(3) lr top'(2), of fr len n st] that top'(3) js by simp
    show "list_roots r ks = None" if "\<nexists>fr len. ast_node (k_ast c) (root_at (i + n_nodes l) r) = Some (Node_List fr len)"
      using laid_root [OF lr] that top'(3) js(2) by (cases r) (auto simp: list_roots_def)
  qed
  then show ?thesis
    using unify_seen(3) [OF sl] t js by (intro top_ok_plain [OF top, where start = "ni_start (last js)"]) simp_all
qed

lemma top_list:
  assumes top: "at_top c t i j n ps iss" and t: "t = T_List ts"
  shows "top_ok c fb t i j n ps iss st"
proof -
  let ?S = "kst n (ps @ concat iss) st"
  have ss: "list_all2 (sees (k_ast c) ?S) (roots_at i ts) (zip ts (map last iss))"
    using at_top_seen [OF top, of st] t by simp
  have snds: "map snd (zip ts (map last iss)) = map last iss"
    using top t by (auto simp: at_top_def aligned_def dest: list_all2_lengthD)
  have args: "args_of (k_ast c) (j + ns_args ts) (length ts) = roots_at i ts"
    using laid_args(1) [of "k_ast c" i j t] top t by (simp add: at_top_def)
  show ?thesis
    using check_list_seen [OF args ss] args snds t
    by (intro top_ok_plain [OF top]) simp_all
qed

lemma top_boolean:
  assumes top: "at_top c t i j n ps iss" and t: "t = T_And l r \<or> t = T_Or l r"
  shows "top_ok c fb t i j n ps iss st"
proof -
  let ?S = "kst n (ps @ concat iss) st"
  obtain js ks where js: "iss = [js, ks]" using top t by (auto simp: at_top_def)
  have sl: "sees (k_ast c) ?S (root_at i l) (l, last js)"
    and sr: "sees (k_ast c) ?S (root_at (i + n_nodes l) r) (r, last ks)"
    using at_top_seen [OF top, of st] t js by auto
  from t show ?thesis
  proof
    assume "t = T_And l r"
    then show ?thesis using unify_seen(2,3) [OF sl] unify_seen(2) [OF sr] js
      by (intro top_ok_plain [OF top, where start = "ni_start (last js)"]) simp_all
  next
    assume "t = T_Or l r"
    then show ?thesis using unify_seen(2,3) [OF sl] unify_seen(2) [OF sr] js
      by (intro top_ok_plain [OF top, where start = "ni_start (last js)"]) simp_all
  qed
qed

lemma top_not:
  assumes top: "at_top c t i j n ps iss" and t: "t = T_Not a"
  shows "top_ok c fb t i j n ps iss st"
proof -
  obtain js where js: "iss = [js]" using top t by (auto simp: at_top_def)
  have sa: "sees (k_ast c) (kst n (ps @ concat iss) st) (root_at i a) (a, last js)"
    using at_top_seen [OF top, of st] t js by simp
  show ?thesis using unify_seen(2,3) [OF sa] t js
    by (intro top_ok_plain [OF top, where start = "ni_start (last js)"]) simp_all
qed

lemma top_ternary:
  assumes top: "at_top c t i j n ps iss" and t: "t = T_Ternary b x y"
  shows "top_ok c fb t i j n ps iss st"
proof -
  let ?S = "kst n (ps @ concat iss) st"
  obtain js ks ls where js: "iss = [js, ks, ls]" using top t by (auto simp: at_top_def)
  have sb: "sees (k_ast c) ?S (root_at i b) (b, last js)"
    and sx: "sees (k_ast c) ?S (root_at (i + n_nodes b) x) (x, last ks)"
    and sy: "sees (k_ast c) ?S (root_at (i + n_nodes b + n_nodes x) y) (y, last ls)"
    using at_top_seen [OF top, of st] t js by simp_all
  show ?thesis using unify_seen(2,3) [OF sb] unify_seen(1) [OF sx sy] t js
    by (intro top_ok_plain [OF top, where start = "ni_start (last js)"]) (simp_all add: eval_nat_numeral)
qed

lemma top_step:
  assumes top: "at_top c t i j n ps iss"
    and flag: "\<And>sp. t = T_Ident sp \<Longrightarrow> get (k_is_field_base c) (root_at i t) = Some fb"
  shows "top_ok c fb t i j n ps iss st"
proof (cases t)
  case (T_Ident sp)
  let ?r = "and_then (if fb then Inr () else namespace_or_error sp (k_src c)) (\<lambda>_. Inr Ty_Map)"
  show ?thesis using flag T_Ident
    by (intro top_ok_plain [OF top, where start = "sp_start sp" and r = ?r])
      (auto simp: pure_def plain_def and_then_def split: sum.split)
next
  case (T_Bool b)
  then show ?thesis by (intro top_ok_plain [OF top, where start = 0 and r = "Inr Ty_Bool"]) (simp_all add: pure_def plain_def)
next
  case (T_Int v)
  then show ?thesis by (intro top_ok_plain [OF top, where start = 0 and r = "Inr Ty_Int"]) (simp_all add: pure_def plain_def)
next
  case (T_Str sp)
  then show ?thesis
    by (intro top_ok_plain [OF top, where start = "sp_start sp" and r = "Inr Ty_Str"]) (simp_all add: pure_def plain_def)
next
  case T_Null
  then show ?thesis by (intro top_ok_plain [OF top, where start = 0 and r = "Inr Ty_Null"]) (simp_all add: pure_def plain_def)
qed (rule top_field [OF top] top_index [OF top] top_call [OF top] top_not [OF top] top_bin [OF top]
    top_boolean [OF top disjI1] top_boolean [OF top disjI2] top_ternary [OF top] top_list [OF top], assumption)+

text \<open>The flags \<^verbatim>\<open>is_field_base\<close> of the nodes of a tree: \<open>fb\<close> for its root.\<close>

function fbs :: "bool \<Rightarrow> tree \<Rightarrow> bool list" and fbss :: "bool \<Rightarrow> tree list \<Rightarrow> bool list" where
  "fbs fb t = fbss (is_field t) (children t) @ [fb]"
| "fbss fb [] = []"
| "fbss fb (t # ts) = fbs fb t @ fbss fb ts"
  by pat_completeness auto
termination
  by (relation "measure (\<lambda>x. case x of Inl (fb, t) \<Rightarrow> 2 * n_nodes t | Inr (fb, ts) \<Rightarrow> 2 * ns_nodes ts + 1)")
    (auto simp: n_nodes_children)

declare fbs.simps [simp del]

lemma length_fbs [simp]: "length (fbs fb t) = n_nodes t" "length (fbss fb ts) = ns_nodes ts"
proof (induction fb t and fb ts rule: fbs_fbss.induct)
  case (1 fb t)
  then show ?case by (simp add: fbs.simps [of fb t] n_nodes_children [of t])
qed simp_all

lemma fbs_root: "(xs @ fbs False b @ ys)[length xs + n_nodes b - 1 := True] = xs @ fbs True b @ ys"
  by (simp add: fbs.simps [of _ b] n_nodes_children [of b] list_update_append)

lemma mark_top:
  assumes "length xs = i"
  shows "mark_field_base (top_node i j t) (xs @ fbss False (children t) @ False # ys) =
    xs @ fbss (is_field t) (children t) @ False # ys"
proof (cases t)
  case (T_Field b name)
  have "length xs + n_nodes b - 1 < length xs + Suc (n_nodes b + length ys)" by linarith
  then show ?thesis using fbs_root [of xs b "False # ys"] T_Field assms
    by (simp add: mark_field_base_def set_at_def)
qed (simp_all add: mark_field_base_def)

lemma fold_mark:
  "length xs = i \<Longrightarrow> fold mark_field_base (flat i j t) (xs @ replicate (n_nodes t) False @ ys) = xs @ fbs False t @ ys"
  "length xs = i \<Longrightarrow> fold mark_field_base (flats i j ts) (xs @ replicate (ns_nodes ts) False @ ys) = xs @ fbss False ts @ ys"
proof (induction "fb :: bool" t and "fb :: bool" ts arbitrary: xs i j ys and xs i j ys rule: fbs_fbss.induct)
  case (1 fb t)
  then show ?case using mark_top [OF 1(2), of j t ys]
    by (simp add: flat_children n_nodes_children [of t] replicate_append_same [symmetric] fbs.simps [of False t])
next
  case (3 fb t ts)
  have "fold mark_field_base (flats (i + n_nodes t) (j + n_args t) ts)
      ((xs @ fbs False t) @ replicate (ns_nodes ts) False @ ys) = (xs @ fbs False t) @ fbss False ts @ ys"
    using 3(2) [of "xs @ fbs False t" "i + n_nodes t"] 3(3) by simp
  then show ?case using 3(1) [of xs i j "replicate (ns_nodes ts) False @ ys"] 3(3) by (simp add: replicate_add)
qed simp

lemma field_bases_flat: "field_bases (flat 0 0 t) = fbs False t"
  using fold_mark(1) [of "[]" 0 0 t "[]"] by (simp add: field_bases_def)

definition flagged :: "kctx \<Rightarrow> nat \<Rightarrow> bool list \<Rightarrow> bool" where
  "flagged c i fs \<longleftrightarrow> (\<exists>xs ys. k_is_field_base c = xs @ fs @ ys \<and> length xs = i)"

lemma flagged_append: "flagged c i (fs @ gs) \<Longrightarrow> flagged c i fs \<and> flagged c (i + length fs) gs"
  unfolding flagged_def by (metis append.assoc length_append)

lemma flagged_get: "flagged c i (f # fs) \<Longrightarrow> get (k_is_field_base c) i = Some f"
  unfolding flagged_def using get_append_length by fastforce

lemma check_loop_append:
  "check_loop c i (ns @ ms) s = and_then (check_loop c i ns s) (check_loop c (i + length ns) ms)"
  by (induction ns arbitrary: i s) (auto simp: and_then_def split: sum.split)

lemma tree_check_length:
  "tree_check c fb t st = Inr (js, st') \<Longrightarrow> length js = n_nodes t"
  "trees_check c fb ts st = Inr (iss, st') \<Longrightarrow> aligned ts iss"
proof (induction c fb t st and c fb ts st arbitrary: js st' and iss st' rule: tree_check_trees_check.induct)
  case (1 c fb t st)
  then show ?case
    by (auto simp: tree_check.simps [of c fb t] n_nodes_children [of t] aligned_length and_then_Inr_iff)
next
  case (3 c fb t ts st)
  then show ?case by (auto simp: and_then_Inr_iff)
qed simp

definition placed :: "kctx \<Rightarrow> nat \<Rightarrow> nat \<Rightarrow> nat \<Rightarrow> ninfo list \<Rightarrow> bool" where
  "placed c i m n ps \<longleftrightarrow> small_arena (k_ast c) \<and> length ps = i \<and> i + m \<le> n"

lemma loop_tree:
  "laid (k_ast c) i j t \<Longrightarrow> flagged c i (fbs fb t) \<Longrightarrow> placed c i (n_nodes t) n ps \<Longrightarrow>
   check_loop c i (flat i j t) (kst n ps st) =
     and_then (tree_check c fb t st) (\<lambda>(js, st'). Inr (kst n (ps @ js) st'))"
  "laids (k_ast c) i j ts \<Longrightarrow> flagged c i (fbss fb ts) \<Longrightarrow> placed c i (ns_nodes ts) n ps \<Longrightarrow>
   check_loop c i (flats i j ts) (kst n ps st) =
     and_then (trees_check c fb ts st) (\<lambda>(iss, st'). Inr (kst n (ps @ concat iss) st'))"
proof (induction c fb t st and c fb ts st arbitrary: i j ps and i j ps rule: tree_check_trees_check.induct)
  case (1 c fb t st)
  let ?kids = "trees_check c (is_field t) (children t) st"
  have root: "root_at i t = i + ns_nodes (children t)" by (simp add: n_nodes_children [of t])
  have flags: "flagged c i (fbss (is_field t) (children t))" "flagged c (i + ns_nodes (children t)) [fb]"
    using flagged_append [of c i "fbss (is_field t) (children t)" "[fb]"] 1(3) by (simp_all add: fbs.simps [of fb t])
  have kids: "check_loop c i (flats i j (children t)) (kst n ps st) =
      and_then ?kids (\<lambda>(iss, st'). Inr (kst n (ps @ concat iss) st'))"
    using 1(4) by (intro 1(1) laid_children [OF 1(2)] flags(1)) (simp add: placed_def n_nodes_children [of t])
  have top: "check_step c (i + ns_nodes (children t)) (top_node i j t) (kst n (ps @ concat iss) st') =
      node_step n (ps @ concat iss) (top_info c fb t iss st')" if "?kids = Inr (iss, st')" for iss st'
  proof -
    have "at_top c t i j n ps iss" using 1(2,4) tree_check_length(2) [OF that] by (simp add: at_top_def placed_def)
    from top_step [OF this, of fb st'] flagged_get [OF flags(2)] show ?thesis unfolding top_ok_def root by blast
  qed
  show ?case
    using kids top
    by (cases ?kids) (auto simp: flat_children [of i j t] check_loop_append tree_check.simps [of c fb t]
        node_step_def and_then_def split: sum.split prod.split)
next
  case (3 c fb t ts st)
  have flags: "flagged c i (fbs fb t)" "flagged c (i + n_nodes t) (fbss fb ts)"
    using flagged_append [of c i "fbs fb t" "fbss fb ts"] 3(4) by simp_all
  note lay = laids_ConsD [OF 3(3)]
  have hd: "check_loop c i (flat i j t) (kst n ps st) = and_then (tree_check c fb t st) (\<lambda>(js, st'). Inr (kst n (ps @ js) st'))"
    using 3(1) [OF _ flags(1)] lay 3(5) by (simp add: placed_def)
  have tl: "check_loop c (i + n_nodes t) (flats (i + n_nodes t) (j + n_args t) ts) (kst n (ps @ js) st') =
      and_then (trees_check c fb ts st') (\<lambda>(iss, st''). Inr (kst n ((ps @ js) @ concat iss) st''))"
    if "tree_check c fb t st = Inr (js, st')" for js st'
    using 3(2) [OF _ flags(2)] lay 3(5) tree_check_length(1) [OF that] by (simp add: placed_def)
  show ?case
    using hd tl by (cases "tree_check c fb t st")
      (auto simp: check_loop_append and_then_def split: sum.split prod.split)
qed simp

text \<open>The tree checker reads the source, the phase and the limits of its context only.\<close>

definition ctx_of :: "bytes \<Rightarrow> phase \<Rightarrow> policy_limits \<Rightarrow> kctx" where
  "ctx_of src phase limits =
     \<lparr>k_ast = \<lparr>a_nodes = [], a_args = [], a_root = 0, a_depth = 0\<rparr>, k_src = src, k_phase = phase,
      k_limits = limits, k_is_field_base = []\<rparr>"

lemma ctx_of_reads:
  "k_src (ctx_of src ph l) = src" "k_phase (ctx_of src ph l) = ph"
  "tree_intern (ctx_of (k_src c) (k_phase c) (k_limits c)) = tree_intern c"
  "phase_available (ctx_of (k_src c) (k_phase c) (k_limits c)) = phase_available c"
  by (simp_all add: ctx_of_def tree_intern_def phase_available_def fun_eq_iff)

lemma top_info_ctx: "top_info (ctx_of (k_src c) (k_phase c) (k_limits c)) fb t iss st = top_info c fb t iss st"
  by (cases t) (simp_all, unfold field_info_def index_info_def ctx_of_reads, simp_all)

lemma tree_check_ctx:
  "tree_check (ctx_of (k_src c) (k_phase c) (k_limits c)) fb t st = tree_check c fb t st"
  "trees_check (ctx_of (k_src c) (k_phase c) (k_limits c)) fb ts st = trees_check c fb ts st"
proof (induction c fb t st and c fb ts st rule: tree_check_trees_check.induct)
  case (1 c fb t st)
  then show ?case by (simp add: tree_check.simps [of _ fb t] top_info_ctx)
next
  case (3 c fb t ts st)
  then show ?case by (auto simp: and_then_def split: sum.split)
qed simp

definition tree_checked :: "ast \<Rightarrow> tree \<Rightarrow> bytes \<Rightarrow> bytes \<Rightarrow> phase \<Rightarrow> policy_limits \<Rightarrow> check_error + checked" where
  "tree_checked a t strings src phase limits =
     and_then (tree_check (ctx_of src phase limits) False t ([], strings)) (\<lambda>(js, slots, strings).
       if max_attr_slots limits < length slots then Inl (TooManyAttrSlots (max_attr_slots limits))
       else if ni_ty (last js) = Ty_Map then Inl (TypeMismatch (ni_start (last js)) Ty_Bool Ty_Map)
       else Inr \<lparr>ck_ast = a, ck_types = map ni_ty js, ck_slots = slots, ck_node_slot = map ni_slot js,
                 ck_phase = phase, ck_result = ni_ty (last js), ck_strings = strings\<rparr>)"

lemma check_tree:
  assumes "arena_of t a" and "n_nodes t \<le> usize_max"
  shows "check a strings src phase limits = tree_checked a t strings src phase limits"
proof -
  let ?c = "\<lparr>k_ast = a, k_src = src, k_phase = phase, k_limits = limits, k_is_field_base = field_bases (a_nodes a)\<rparr>"
  have a: "a_nodes a = flat 0 0 t" "a_root a = n_nodes t - 1" using assms(1) by (simp_all add: arena_of_def)
  have small: "small_arena a" using assms by (rule arena_small)
  have flags: "flagged ?c 0 (fbs False t)" by (simp add: flagged_def a(1) field_bases_flat)
  have loop: "check_loop ?c 0 (a_nodes a) (check_start (length (a_nodes a)) strings) =
      and_then (tree_check ?c False t ([], strings)) (\<lambda>(js, st). Inr (kst (n_nodes t) js st))"
    using loop_tree(1) [of ?c 0 0 t False "n_nodes t" "[]" "([], strings)"] laid_arena [OF assms(1)] flags small
    by (simp add: kst_start a(1) placed_def)
  have root: "ty_of (kst (n_nodes t) js st) (a_root a) = ni_ty (last js) \<and>
      start_of (kst (n_nodes t) js st) (a_root a) = ni_start (last js)"
    if "tree_check ?c False t ([], strings) = Inr (js, st)" for js st
  proof -
    have len: "length js = n_nodes t" by (rule tree_check_length(1) [OF that])
    then have "js \<noteq> []" by (metis n_nodes_pos list.size(3) less_irrefl)
    with len have "a_root a < length js" "js ! a_root a = last js"
      using n_nodes_pos [of t] a(2) by (auto simp: last_conv_nth simp del: n_nodes_pos)
    then show ?thesis using kst_look by simp
  qed
  have ctx: "tree_check (ctx_of src phase limits) False t ([], strings) = tree_check ?c False t ([], strings)"
    using tree_check_ctx(1) [of ?c False t] by simp
  show ?thesis
    unfolding check_def tree_checked_def Let_def loop ctx
    using root tree_check_length(1) [of ?c False t "([], strings)"]
    by (cases "tree_check ?c False t ([], strings)") (auto simp: kst_def)
qed

end
