(* ===== verification/Policy_Parse.thy ===== *)
theory Policy_Parse
  imports Policy_Ast
begin

text \<open>
  The parser (\<^verbatim>\<open>parse.rs\<close>). \<^verbatim>\<open>expr\<close> is the only production that re-enters the grammar, so the
  other productions take it as the argument \<open>ex\<close>; \<open>expr\<close> ties the knot. Two recursions are
  bounded by fuel, with the value \<open>None\<close> for a run that has not finished: the re-entries of
  \<open>expr\<close>, and the iterations of the loops in \<^verbatim>\<open>or\<close>, \<^verbatim>\<open>and\<close>, \<^verbatim>\<open>postfix\<close> and \<^verbatim>\<open>elem_list\<close>. Every
  re-entry and every iteration consumes a token, so one more than the number of tokens left is
  enough, which is what \<open>parse_expr_at\<close> starts with; \<open>Policy_Grammar\<close> proves it.

  The fields \<^verbatim>\<open>toks\<close>, \<^verbatim>\<open>src\<close> and \<^verbatim>\<open>limits\<close> of \<^verbatim>\<open>Parser\<close> never change and are the record
  \<open>pctx\<close>; the others are the record \<open>pstate\<close>, threaded through every operation. An error
  abandons the parse, so it carries no state.
\<close>

section \<open>State and errors\<close>

datatype parse_error =
    UnexpectedEof nat
  | Unexpected nat tok
  | TooDeep nat nat
  | NotImplemented nat span
  | BadArity nat meth nat nat
  | ListTooLong nat nat
  | TooManyNodes nat
  | TrailingTokens nat

fun parse_error_at :: "parse_error \<Rightarrow> nat" where
  "parse_error_at (UnexpectedEof at) = at"
| "parse_error_at (Unexpected at _) = at"
| "parse_error_at (TooDeep at _) = at"
| "parse_error_at (NotImplemented at _) = at"
| "parse_error_at (BadArity at _ _ _) = at"
| "parse_error_at (ListTooLong at _) = at"
| "parse_error_at (TrailingTokens at) = at"
| "parse_error_at (TooManyNodes _) = 0"

record pctx =
  c_toks :: "spanned list"
  c_src :: bytes
  c_limits :: policy_limits

record pstate =
  pos :: nat
  depth :: nat
  max_reached :: nat
  nodes :: "node list"
  args :: "node_id list"

type_synonym 'a presult = "(parse_error + 'a \<times> pstate) option"

abbreviation ret :: "'a \<Rightarrow> pstate \<Rightarrow> 'a presult" where
  "ret x s \<equiv> Some (Inr (x, s))"

abbreviation fail :: "parse_error \<Rightarrow> 'a presult" where
  "fail e \<equiv> Some (Inl e)"

definition bindP :: "'a presult \<Rightarrow> ('a \<Rightarrow> pstate \<Rightarrow> 'b presult) \<Rightarrow> 'b presult" where
  "bindP r f = (case r of None \<Rightarrow> None | Some (Inl e) \<Rightarrow> Some (Inl e) | Some (Inr (x, s)) \<Rightarrow> f x s)"

fun relop_of :: "tok \<Rightarrow> bin_op option" where
  "relop_of Tok_EqEq = Some BinOp_Eq"
| "relop_of Tok_BangEq = Some BinOp_Ne"
| "relop_of Tok_Lt = Some BinOp_Lt"
| "relop_of Tok_Le = Some BinOp_Le"
| "relop_of Tok_Gt = Some BinOp_Gt"
| "relop_of Tok_Ge = Some BinOp_Ge"
| "relop_of Tok_In = Some BinOp_In"
| "relop_of _ = None"

definition span_at :: "spanned list \<Rightarrow> bytes \<Rightarrow> nat \<Rightarrow> span" where
  "span_at toks src i =
     (case get toks i of Some s \<Rightarrow> s_span s | None \<Rightarrow> span_empty (to_u32 (length src)))"

section \<open>Token access\<close>

abbreviation at_pos :: "pctx \<Rightarrow> nat \<Rightarrow> nat" where
  "at_pos c i \<equiv> sp_start (span_at (c_toks c) (c_src c) i)"

definition peek_tok :: "pctx \<Rightarrow> pstate \<Rightarrow> tok option" where
  "peek_tok c s = map_option s_tok (get (c_toks c) (pos s))"

definition peek_relop :: "pctx \<Rightarrow> pstate \<Rightarrow> bin_op option" where
  "peek_relop c s = Option.bind (get (c_toks c) (pos s)) (\<lambda>t. relop_of (s_tok t))"

definition advance :: "pstate \<Rightarrow> pstate" where
  "advance s = s\<lparr>pos := Suc (pos s)\<rparr>"

definition eat :: "pctx \<Rightarrow> tok \<Rightarrow> pstate \<Rightarrow> bool \<times> pstate" where
  "eat c want s = (if peek_tok c s = Some want then (True, advance s) else (False, s))"

definition eat_relop :: "pctx \<Rightarrow> pstate \<Rightarrow> bin_op option \<times> pstate" where
  "eat_relop c s = (case peek_relop c s of None \<Rightarrow> (None, s) | Some op \<Rightarrow> (Some op, advance s))"

definition err_here :: "pctx \<Rightarrow> pstate \<Rightarrow> parse_error" where
  "err_here c s =
     (case get (c_toks c) (pos s) of
        Some t \<Rightarrow> Unexpected (at_pos c (pos s)) (s_tok t)
      | None \<Rightarrow> UnexpectedEof (at_pos c (pos s)))"

definition next_tok :: "pctx \<Rightarrow> pstate \<Rightarrow> tok presult" where
  "next_tok c s =
     (case get (c_toks c) (pos s) of
        Some t \<Rightarrow> ret (s_tok t) (advance s)
      | None \<Rightarrow> fail (UnexpectedEof (at_pos c (pos s))))"

definition expect :: "pctx \<Rightarrow> tok \<Rightarrow> pstate \<Rightarrow> unit presult" where
  "expect c want s = (case eat c want s of (True, s') \<Rightarrow> ret () s' | (False, s') \<Rightarrow> fail (err_here c s'))"

definition expect_ident :: "pctx \<Rightarrow> pstate \<Rightarrow> span presult" where
  "expect_ident c s =
     (case map_option s_tok (get (c_toks c) (pos s)) of
        Some (Tok_Ident span) \<Rightarrow> ret span (advance s)
      | _ \<Rightarrow> fail (err_here c s))"

definition push_node :: "node \<Rightarrow> pstate \<Rightarrow> node_id presult" where
  "push_node n s =
     (case node_id_new (length (nodes s)) of
        None \<Rightarrow> fail (TooManyNodes u16_max)
      | Some i \<Rightarrow> ret i (s\<lparr>nodes := nodes s @ [n]\<rparr>))"

section \<open>Productions\<close>

definition enter :: "pctx \<Rightarrow> pstate \<Rightarrow> unit presult" where
  "enter c s =
     (let d = sat_add16 (depth s) 1 in
      if max_depth (c_limits c) < d
      then fail (TooDeep (at_pos c (pos s)) (max_depth (c_limits c)))
      else ret () (s\<lparr>depth := d, max_reached := (if max_reached s < d then d else max_reached s)\<rparr>))"

definition leave :: "pstate \<Rightarrow> pstate" where
  "leave s = s\<lparr>depth := depth s - 1\<rparr>"

text \<open>The loop of \<^verbatim>\<open>elem_list\<close>, with the elements parsed so far; it returns all of them.\<close>

fun elem_loop ::
  "(pstate \<Rightarrow> node_id presult) \<Rightarrow> pctx \<Rightarrow> nat \<Rightarrow> tok \<Rightarrow> node_id list \<Rightarrow> pstate \<Rightarrow> node_id list presult" where
  "elem_loop ex c 0 close elems s = None"
| "elem_loop ex c (Suc n) close elems s =
     (if max_list_elems (c_limits c) \<le> length elems
      then fail (ListTooLong (at_pos c (pos s)) (max_list_elems (c_limits c)))
      else bindP (ex s) (\<lambda>e s.
        case eat c Tok_Comma s of
          (True, s) \<Rightarrow> elem_loop ex c n close (elems @ [e]) s
        | (False, s) \<Rightarrow> bindP (expect c close s) (\<lambda>_ s. ret (elems @ [e]) s)))"

text \<open>\<^verbatim>\<open>u16::try_from\<close> of a table length.\<close>

definition table_len :: "nat \<Rightarrow> pstate \<Rightarrow> nat presult" where
  "table_len n s = (if n \<le> u16_max then ret n s else fail (TooManyNodes u16_max))"

definition elem_list ::
  "(pstate \<Rightarrow> node_id presult) \<Rightarrow> pctx \<Rightarrow> nat \<Rightarrow> tok \<Rightarrow> pstate \<Rightarrow> (nat \<times> nat) presult" where
  "elem_list ex c n close s =
     (case eat c close s of
        (True, s) \<Rightarrow> bindP (table_len (length (args s)) s) (\<lambda>from s. ret (from, 0) s)
      | (False, s) \<Rightarrow> bindP (elem_loop ex c n close [] s) (\<lambda>elems s.
          bindP (table_len (length (args s)) s) (\<lambda>from s.
          bindP (table_len (length elems) s) (\<lambda>len s.
            ret (from, len) (s\<lparr>args := args s @ elems\<rparr>)))))"

definition arg_list where
  "arg_list ex c n s = elem_list ex c n Tok_RParen s"

definition list_elems where
  "list_elems ex c n s = elem_list ex c n Tok_RBracket s"

definition primary :: "(pstate \<Rightarrow> node_id presult) \<Rightarrow> pctx \<Rightarrow> nat \<Rightarrow> pstate \<Rightarrow> node_id presult" where
  "primary ex c n s =
     (let start_pos = pos s in
      bindP (next_tok c s) (\<lambda>t s.
        case t of
          Tok_Bool b \<Rightarrow> push_node (Node_Bool b) s
        | Tok_Int v \<Rightarrow> push_node (Node_Int v) s
        | Tok_Str sp \<Rightarrow> push_node (Node_Str sp) s
        | Tok_Null \<Rightarrow> push_node Node_Null s
        | Tok_LParen \<Rightarrow> bindP (ex s) (\<lambda>inner s. bindP (expect c Tok_RParen s) (\<lambda>_ s. ret inner s))
        | Tok_LBracket \<Rightarrow> bindP (list_elems ex c n s) (\<lambda>(from, len) s. push_node (Node_List from len) s)
        | Tok_Ident sp \<Rightarrow>
            (if peek_tok c s = Some Tok_LParen then fail (NotImplemented (sp_start sp) sp)
             else push_node (Node_Ident sp) s)
        | other \<Rightarrow> fail (Unexpected (at_pos c start_pos) other)))"

text \<open>A \<^verbatim>\<open>.name(args)\<close> suffix after its opening parenthesis.\<close>

definition call_suffix ::
  "(pstate \<Rightarrow> node_id presult) \<Rightarrow> pctx \<Rightarrow> nat \<Rightarrow> node_id \<Rightarrow> span \<Rightarrow> pstate \<Rightarrow> node_id presult" where
  "call_suffix ex c n base name s =
     (case span_slice name (c_src c) of
        None \<Rightarrow> fail (Unexpected (sp_start name) (Tok_Ident name))
      | Some bs \<Rightarrow>
          (case method_from_name bs of
             None \<Rightarrow> fail (NotImplemented (sp_start name) name)
           | Some m \<Rightarrow> bindP (arg_list ex c n s) (\<lambda>(from, len) s.
               if len \<noteq> method_arity m
               then fail (BadArity (sp_start name) m (method_arity m) (if len \<le> 255 then len else 255))
               else push_node (Node_Call base m from len) s)))"

fun postfix_loop ::
  "(pstate \<Rightarrow> node_id presult) \<Rightarrow> pctx \<Rightarrow> nat \<Rightarrow> nat \<Rightarrow> node_id \<Rightarrow> pstate \<Rightarrow> node_id presult" where
  "postfix_loop ex c n 0 base s = None"
| "postfix_loop ex c n (Suc k) base s =
     (case eat c Tok_Dot s of
        (True, s) \<Rightarrow> bindP (expect_ident c s) (\<lambda>name s.
          (case eat c Tok_LParen s of
             (True, s) \<Rightarrow> bindP (call_suffix ex c n base name s) (\<lambda>base s. postfix_loop ex c n k base s)
           | (False, s) \<Rightarrow> bindP (push_node (Node_Field base name) s) (\<lambda>base s.
               postfix_loop ex c n k base s)))
      | (False, s) \<Rightarrow>
          (case eat c Tok_LBracket s of
             (True, s) \<Rightarrow> bindP (ex s) (\<lambda>index s.
               bindP (expect c Tok_RBracket s) (\<lambda>_ s.
               bindP (push_node (Node_Index base index) s) (\<lambda>base s. postfix_loop ex c n k base s)))
           | (False, s) \<Rightarrow> ret base s))"

definition postfix :: "(pstate \<Rightarrow> node_id presult) \<Rightarrow> pctx \<Rightarrow> nat \<Rightarrow> pstate \<Rightarrow> node_id presult" where
  "postfix ex c n s = bindP (primary ex c n s) (\<lambda>base s. postfix_loop ex c n n base s)"

text \<open>\<^verbatim>\<open>unary\<close>: count the bangs, then push one \<^verbatim>\<open>Not\<close> per bang.\<close>

function count_bangs :: "pctx \<Rightarrow> pstate \<Rightarrow> nat \<times> pstate" where
  "count_bangs c s =
     (case eat c Tok_Bang s of
        (True, s') \<Rightarrow> (let (k, s'') = count_bangs c s' in (Suc k, s''))
      | (False, s') \<Rightarrow> (0, s'))"
  by pat_completeness auto
termination
  by (relation "measure (\<lambda>(c, s). length (c_toks c) - pos s)")
    (auto simp: eat_def peek_tok_def advance_def split: if_splits)

declare count_bangs.simps [simp del]

fun push_nots :: "nat \<Rightarrow> node_id \<Rightarrow> pstate \<Rightarrow> node_id presult" where
  "push_nots 0 n s = ret n s"
| "push_nots (Suc k) n s = bindP (push_node (Node_Not n) s) (\<lambda>n s. push_nots k n s)"

definition unary :: "(pstate \<Rightarrow> node_id presult) \<Rightarrow> pctx \<Rightarrow> nat \<Rightarrow> pstate \<Rightarrow> node_id presult" where
  "unary ex c n s =
     (let (bangs, s) = count_bangs c s
      in bindP (postfix ex c n s) (\<lambda>i s. push_nots bangs i s))"

definition rel :: "(pstate \<Rightarrow> node_id presult) \<Rightarrow> pctx \<Rightarrow> nat \<Rightarrow> pstate \<Rightarrow> node_id presult" where
  "rel ex c n s =
     bindP (unary ex c n s) (\<lambda>lhs s.
       case eat_relop c s of
         (Some op, s) \<Rightarrow> bindP (unary ex c n s) (\<lambda>rhs s.
           if peek_relop c s \<noteq> None then fail (err_here c s)
           else push_node (Node_Bin op lhs rhs) s)
       | (None, s) \<Rightarrow> ret lhs s)"

fun and_loop ::
  "(pstate \<Rightarrow> node_id presult) \<Rightarrow> pctx \<Rightarrow> nat \<Rightarrow> nat \<Rightarrow> node_id \<Rightarrow> pstate \<Rightarrow> node_id presult" where
  "and_loop ex c n 0 lhs s = None"
| "and_loop ex c n (Suc k) lhs s =
     (case eat c Tok_AndAnd s of
        (True, s) \<Rightarrow> bindP (rel ex c n s) (\<lambda>rhs s.
          bindP (push_node (Node_And lhs rhs) s) (\<lambda>lhs s. and_loop ex c n k lhs s))
      | (False, s) \<Rightarrow> ret lhs s)"

definition and_expr :: "(pstate \<Rightarrow> node_id presult) \<Rightarrow> pctx \<Rightarrow> nat \<Rightarrow> pstate \<Rightarrow> node_id presult" where
  "and_expr ex c n s = bindP (rel ex c n s) (\<lambda>lhs s. and_loop ex c n n lhs s)"

fun or_loop ::
  "(pstate \<Rightarrow> node_id presult) \<Rightarrow> pctx \<Rightarrow> nat \<Rightarrow> nat \<Rightarrow> node_id \<Rightarrow> pstate \<Rightarrow> node_id presult" where
  "or_loop ex c n 0 lhs s = None"
| "or_loop ex c n (Suc k) lhs s =
     (case eat c Tok_OrOr s of
        (True, s) \<Rightarrow> bindP (and_expr ex c n s) (\<lambda>rhs s.
          bindP (push_node (Node_Or lhs rhs) s) (\<lambda>lhs s. or_loop ex c n k lhs s))
      | (False, s) \<Rightarrow> ret lhs s)"

definition or_expr :: "(pstate \<Rightarrow> node_id presult) \<Rightarrow> pctx \<Rightarrow> nat \<Rightarrow> pstate \<Rightarrow> node_id presult" where
  "or_expr ex c n s = bindP (and_expr ex c n s) (\<lambda>lhs s. or_loop ex c n n lhs s)"

definition expr_inner :: "(pstate \<Rightarrow> node_id presult) \<Rightarrow> pctx \<Rightarrow> nat \<Rightarrow> pstate \<Rightarrow> node_id presult" where
  "expr_inner ex c n s =
     bindP (or_expr ex c n s) (\<lambda>cond s.
       case eat c Tok_Question s of
         (True, s) \<Rightarrow> bindP (ex s) (\<lambda>then_id s.
           bindP (expect c Tok_Colon s) (\<lambda>_ s.
           bindP (ex s) (\<lambda>else_id s. push_node (Node_Ternary cond then_id else_id) s)))
       | (False, s) \<Rightarrow> ret cond s)"

fun expr :: "nat \<Rightarrow> pctx \<Rightarrow> pstate \<Rightarrow> node_id presult" where
  "expr 0 c s = None"
| "expr (Suc n) c s =
     bindP (enter c s) (\<lambda>_ s. bindP (expr_inner (expr n c) c n s) (\<lambda>i s. ret i (leave s)))"

section \<open>Entry points\<close>

definition parse_start :: "nat \<Rightarrow> pstate" where
  "parse_start from = \<lparr>pos = from, depth = 0, max_reached = 0, nodes = [], args = []\<rparr>"

definition parse_expr_at ::
  "token_stream \<Rightarrow> bytes \<Rightarrow> policy_limits \<Rightarrow> nat \<Rightarrow> (parse_error + ast \<times> nat) option" where
  "parse_expr_at ts src limits from =
     (let c = \<lparr>c_toks = ts_toks ts, c_src = src, c_limits = limits\<rparr>
      in map_option (map_sum id (\<lambda>(root, s).
            (\<lparr>a_nodes = nodes s, a_args = args s, a_root = root, a_depth = max_reached s\<rparr>, pos s)))
          (expr (length (ts_toks ts) - from + 2) c (parse_start from)))"

definition parse :: "token_stream \<Rightarrow> bytes \<Rightarrow> policy_limits \<Rightarrow> (parse_error + ast) option" where
  "parse ts src limits =
     map_option (\<lambda>r. and_then r (\<lambda>(ast, i).
         if i = length (ts_toks ts) then Inr ast
         else Inl (TrailingTokens (sp_start (span_at (ts_toks ts) src i)))))
       (parse_expr_at ts src limits 0)"

end
