(* ===== verification/Policy_Grammar.thy ===== *)
theory Policy_Grammar
  imports Policy_Parse
begin

text \<open>
  The grammar of the policy language (the EBNF at the head of \<^verbatim>\<open>lib.rs\<close>) as inductive
  derivations of token lists to trees, and the proof that the parser accepts only sentences of
  the grammar, builds the post-order arena of the derived tree and respects its limits.
\<close>

section \<open>The grammar\<close>

inductive g_expr and g_or and g_and and g_rel and g_unary and g_post and g_prim and g_elems
  for src :: bytes where
  expr_or: "g_or src ts t \<Longrightarrow> g_expr src ts t"
| expr_ternary: "g_or src ts c \<Longrightarrow> g_expr src us t \<Longrightarrow> g_expr src vs e \<Longrightarrow>
    g_expr src (ts @ Tok_Question # us @ Tok_Colon # vs) (T_Ternary c t e)"
| or_and: "g_and src ts t \<Longrightarrow> g_or src ts t"
| or_step: "g_or src ts l \<Longrightarrow> g_and src us r \<Longrightarrow> g_or src (ts @ Tok_OrOr # us) (T_Or l r)"
| and_rel: "g_rel src ts t \<Longrightarrow> g_and src ts t"
| and_step: "g_and src ts l \<Longrightarrow> g_rel src us r \<Longrightarrow> g_and src (ts @ Tok_AndAnd # us) (T_And l r)"
| rel_unary: "g_unary src ts t \<Longrightarrow> g_rel src ts t"
| rel_op: "g_unary src ts l \<Longrightarrow> relop_of tk = Some op \<Longrightarrow> g_unary src us r \<Longrightarrow>
    g_rel src (ts @ tk # us) (T_Bin op l r)"
| unary_post: "g_post src ts t \<Longrightarrow> g_unary src ts t"
| unary_bang: "g_unary src ts t \<Longrightarrow> g_unary src (Tok_Bang # ts) (T_Not t)"
| post_prim: "g_prim src ts t \<Longrightarrow> g_post src ts t"
| post_field: "g_post src ts b \<Longrightarrow> g_post src (ts @ [Tok_Dot, Tok_Ident name]) (T_Field b name)"
| post_index: "g_post src ts b \<Longrightarrow> g_expr src us t \<Longrightarrow>
    g_post src (ts @ Tok_LBracket # us @ [Tok_RBracket]) (T_Index b t)"
| post_call: "g_post src ts b \<Longrightarrow> span_slice name src = Some bs \<Longrightarrow> method_from_name bs = Some m \<Longrightarrow>
    g_elems src us as \<Longrightarrow> length as = method_arity m \<Longrightarrow>
    g_post src (ts @ Tok_Dot # Tok_Ident name # Tok_LParen # us @ [Tok_RParen]) (T_Call b m as)"
| prim_bool: "g_prim src [Tok_Bool b] (T_Bool b)"
| prim_int: "g_prim src [Tok_Int v] (T_Int v)"
| prim_str: "g_prim src [Tok_Str s] (T_Str s)"
| prim_null: "g_prim src [Tok_Null] T_Null"
| prim_ident: "g_prim src [Tok_Ident s] (T_Ident s)"
| prim_paren: "g_expr src ts t \<Longrightarrow> g_prim src (Tok_LParen # ts @ [Tok_RParen]) t"
| prim_list: "g_elems src ts as \<Longrightarrow> g_prim src (Tok_LBracket # ts @ [Tok_RBracket]) (T_List as)"
| elems_none: "g_elems src [] []"
| elems_one: "g_expr src ts t \<Longrightarrow> g_elems src ts [t]"
| elems_more: "g_elems src ts as \<Longrightarrow> as \<noteq> [] \<Longrightarrow> g_expr src us t \<Longrightarrow>
    g_elems src (ts @ Tok_Comma # us) (as @ [t])"

text \<open>The lists of a tree are no longer than \<open>m\<close>.\<close>

fun lists_within :: "nat \<Rightarrow> tree \<Rightarrow> bool" where
  "lists_within m (T_Field b _) \<longleftrightarrow> lists_within m b"
| "lists_within m (T_Index b i) \<longleftrightarrow> lists_within m b \<and> lists_within m i"
| "lists_within m (T_Call b _ ts) \<longleftrightarrow> lists_within m b \<and> length ts \<le> m \<and> list_all (lists_within m) ts"
| "lists_within m (T_Not t) \<longleftrightarrow> lists_within m t"
| "lists_within m (T_Bin _ l r) \<longleftrightarrow> lists_within m l \<and> lists_within m r"
| "lists_within m (T_And l r) \<longleftrightarrow> lists_within m l \<and> lists_within m r"
| "lists_within m (T_Or l r) \<longleftrightarrow> lists_within m l \<and> lists_within m r"
| "lists_within m (T_Ternary c t e) \<longleftrightarrow> lists_within m c \<and> lists_within m t \<and> lists_within m e"
| "lists_within m (T_List ts) \<longleftrightarrow> length ts \<le> m \<and> list_all (lists_within m) ts"
| "lists_within m _ \<longleftrightarrow> True"

section \<open>What a successful production has built\<close>

fun reads :: "pctx \<Rightarrow> nat \<Rightarrow> tok list \<Rightarrow> bool" where
  "reads c i [] \<longleftrightarrow> True"
| "reads c i (t # ts) \<longleftrightarrow> map_option s_tok (get (c_toks c) i) = Some t \<and> reads c (Suc i) ts"

lemma reads_append: "reads c i (ts @ us) \<longleftrightarrow> reads c i ts \<and> reads c (i + length ts) us"
  by (induction ts arbitrary: i) auto

text \<open>What every production keeps, whatever it builds: the recorded depth and the number of
  nodes stay within their limits, and an unsaturated depth counter is restored.\<close>

definition kept :: "pctx \<Rightarrow> pstate \<Rightarrow> pstate \<Rightarrow> bool" where
  "kept c s s' \<longleftrightarrow>
     (max_reached s \<le> max_depth (c_limits c) \<longrightarrow> max_reached s' \<le> max_depth (c_limits c)) \<and>
     (max_depth (c_limits c) < u16_max \<longrightarrow> depth s' = depth s) \<and>
     (length (nodes s) \<le> u16_max \<longrightarrow> length (nodes s') \<le> u16_max)"

text \<open>\<open>built c s s' ts as\<close>: from \<open>s\<close> to \<open>s'\<close> the tokens \<open>ts\<close> were read, and the trees \<open>as\<close> laid
  out next to each other.\<close>

definition built :: "pctx \<Rightarrow> pstate \<Rightarrow> pstate \<Rightarrow> tok list \<Rightarrow> tree list \<Rightarrow> bool" where
  "built c s s' ts as \<longleftrightarrow>
     reads c (pos s) ts \<and> pos s' = pos s + length ts \<and>
     nodes s' = nodes s @ flats (length (nodes s)) (length (args s)) as \<and>
     args s' = args s @ flats_args (length (nodes s)) as \<and>
     list_all (lists_within (max_list_elems (c_limits c))) as \<and> kept c s s'"

lemma flats_append:
  "flats i j (as @ bs) = flats i j as @ flats (i + ns_nodes as) (j + ns_args as) bs"
  by (induction as arbitrary: i j) (auto simp: add.assoc)

lemma flats_args_append: "flats_args i (as @ bs) = flats_args i as @ flats_args (i + ns_nodes as) bs"
  by (induction as arbitrary: i) (auto simp: add.assoc)

lemma roots_at_append: "roots_at i (as @ bs) = roots_at i as @ roots_at (i + ns_nodes as) bs"
  by (induction as arbitrary: i) (auto simp: add.assoc)

lemma built_refl: "built c s s [] []"
  by (simp add: built_def kept_def)

lemma built_trans:
  assumes "built c s s1 ts as" and "built c s1 s2 us bs"
  shows "built c s s2 (ts @ us) (as @ bs)"
  using assms by (auto simp: built_def reads_append flats_append flats_args_append kept_def add.assoc)

lemma built_length:
  assumes "built c s s' ts as"
  shows "length (nodes s') = length (nodes s) + ns_nodes as"
    and "length (args s') = length (args s) + ns_args as"
  using assms by (auto simp: built_def)

lemma built_read: "peek_tok c s = Some t \<Longrightarrow> built c s (advance s) [t] []"
  by (auto simp: built_def advance_def peek_tok_def kept_def)

lemma eat_True: "eat c t s = (True, s') \<longleftrightarrow> peek_tok c s = Some t \<and> s' = advance s"
  by (auto simp: eat_def)

lemma eat_False: "eat c t s = (False, s') \<longleftrightarrow> peek_tok c s \<noteq> Some t \<and> s' = s"
  by (auto simp: eat_def)

lemma bindP_ret_iff:
  "bindP r f = Some (Inr y) \<longleftrightarrow> (\<exists>x s'. r = ret x s' \<and> f x s' = Some (Inr y))"
  by (auto simp: bindP_def split: option.splits sum.splits)

lemma bindP_None_iff:
  "bindP r f = None \<longleftrightarrow> r = None \<or> (\<exists>x s'. r = ret x s' \<and> f x s' = None)"
  by (auto simp: bindP_def split: option.splits sum.splits)

lemma expect_ret: "expect c t s = Some (Inr (u, s')) \<longleftrightarrow> peek_tok c s = Some t \<and> s' = advance s"
  by (auto simp: expect_def eat_def split: prod.splits bool.splits)

lemma expect_ident_ret:
  "expect_ident c s = Some (Inr (name, s')) \<longleftrightarrow> peek_tok c s = Some (Tok_Ident name) \<and> s' = advance s"
  by (auto simp: expect_ident_def peek_tok_def split: option.splits tok.splits)

lemma next_tok_ret: "next_tok c s = Some (Inr (t, s')) \<longleftrightarrow> peek_tok c s = Some t \<and> s' = advance s"
  by (auto simp: next_tok_def peek_tok_def split: option.splits)

lemma push_node_ret:
  "push_node n s = Some (Inr (i, s')) \<longleftrightarrow>
     i = length (nodes s) \<and> length (nodes s) < u16_max \<and> s' = s\<lparr>nodes := nodes s @ [n]\<rparr>"
  by (auto simp: push_node_def node_id_new_def u16_max_def split: option.splits if_splits)

lemma table_len_ret: "table_len n s = Some (Inr (m, s')) \<longleftrightarrow> m = n \<and> s' = s \<and> n \<le> u16_max"
  by (auto simp: table_len_def)

lemma eat_relop_Some:
  "eat_relop c s = (Some op, s') \<longleftrightarrow> (\<exists>t. peek_tok c s = Some t \<and> relop_of t = Some op) \<and> s' = advance s"
  by (auto simp: eat_relop_def peek_relop_def peek_tok_def bind_eq_Some_conv split: option.splits)

lemma eat_relop_None: "eat_relop c s = (None, s') \<Longrightarrow> s' = s"
  by (auto simp: eat_relop_def split: option.splits)

lemmas parse_ret = bindP_ret_iff expect_ret expect_ident_ret next_tok_ret push_node_ret table_len_ret
  eat_True eat_False

text \<open>Pushing the parent of the trees built last.\<close>

lemma built_push:
  assumes b: "built c s s1 ts as" and p: "push_node n s1 = ret i s'"
    and t: "flat (length (nodes s)) (length (args s)) t =
      flats (length (nodes s)) (length (args s)) as @ [n]"
    and a: "flat_args (length (nodes s)) t = flats_args (length (nodes s)) as"
    and w: "list_all (lists_within (max_list_elems (c_limits c))) as \<Longrightarrow>
      lists_within (max_list_elems (c_limits c)) t"
  shows "built c s s' ts [t]"
  using assms by (auto simp: built_def kept_def push_node_ret)

text \<open>The outcome of a production for the nonterminal \<open>G\<close>.\<close>

definition parsed ::
  "(bytes \<Rightarrow> tok list \<Rightarrow> tree \<Rightarrow> bool) \<Rightarrow> pctx \<Rightarrow> pstate \<Rightarrow> node_id \<Rightarrow> pstate \<Rightarrow> bool" where
  "parsed G c s i s' \<longleftrightarrow>
     (\<exists>ts t. G (c_src c) ts t \<and> built c s s' ts [t] \<and> i = root_at (length (nodes s)) t)"

lemma parsedI: "G (c_src c) ts t \<Longrightarrow> built c s s' ts [t] \<Longrightarrow> i = root_at (length (nodes s)) t \<Longrightarrow> parsed G c s i s'"
  by (auto simp: parsed_def)

lemma parsed_chain:
  "parsed g_prim c s i s' \<Longrightarrow> parsed g_post c s i s'" "parsed g_post c s i s' \<Longrightarrow> parsed g_unary c s i s'"
  "parsed g_unary c s i s' \<Longrightarrow> parsed g_rel c s i s'" "parsed g_rel c s i s' \<Longrightarrow> parsed g_and c s i s'"
  "parsed g_and c s i s' \<Longrightarrow> parsed g_or c s i s'" "parsed g_or c s i s' \<Longrightarrow> parsed g_expr c s i s'"
  unfolding parsed_def by (blast intro: post_prim unary_post rel_unary and_rel or_and expr_or)+

text \<open>Two operands around an operator token.\<close>

lemma built_infix:
  assumes l: "built c s s1 ts [l]" and tk: "peek_tok c s1 = Some tk" and r: "built c (advance s1) s2 us [r]"
  shows "built c s s2 (ts @ tk # us) [l, r]"
  using built_trans [OF built_trans [OF l built_read [OF tk]] r] by simp

lemma built_id:
  assumes "built c s s1 ts [l]"
  shows "root_at (length (nodes s1)) r = root_at (length (nodes s) + n_nodes l) r"
    and "length (nodes s1) = length (nodes s) + n_nodes l"
  using built_length [OF assms] by simp_all

lemma built_list:
  assumes "built c s s1 ts as" and "length as \<le> max_list_elems (c_limits c)"
    and "push_node (Node_List (length (args s1)) (length as))
      (s1\<lparr>args := args s1 @ roots_at (length (nodes s)) as\<rparr>) = ret i s'"
  shows "built c s s' ts [T_List as]"
  using assms built_length [OF assms(1)] by (auto simp: built_def kept_def push_node_ret)

lemma built_call:
  assumes "built c s s1 ts (b # as)" and "length as \<le> max_list_elems (c_limits c)"
    and "push_node (Node_Call (root_at (length (nodes s)) b) m (length (args s1)) (length as))
      (s1\<lparr>args := args s1 @ roots_at (length (nodes s) + n_nodes b) as\<rparr>) = ret i s'"
  shows "built c s s' ts [T_Call b m as]"
  using assms built_length [OF assms(1)] by (auto simp: built_def kept_def push_node_ret)

lemma count_bangs_sound:
  "count_bangs c s = (k, s') \<Longrightarrow> built c s s' (replicate k Tok_Bang) []"
proof (induction c s arbitrary: k s' rule: count_bangs.induct)
  case (1 c s)
  show ?case
  proof (cases "peek_tok c s = Some Tok_Bang")
    case True
    then obtain k' where k': "count_bangs c (advance s) = (k', s')" "k = Suc k'"
      using "1.prems" by (auto simp: count_bangs.simps [of c s] eat_def split: prod.splits)
    have "built c (advance s) s' (replicate k' Tok_Bang) []"
      using "1.IH" [of True "advance s" k' s'] True k'(1) by (simp add: eat_def)
    from built_trans [OF built_read [OF True] this] k'(2) show ?thesis by simp
  next
    case False
    with "1.prems" show ?thesis by (simp add: count_bangs.simps [of c s] eat_def built_refl)
  qed
qed

lemma push_nots_sound:
  assumes "push_nots k x s = ret i s'" and "g_unary (c_src c) us t" and "built c s0 s ts [t]"
    and "x = root_at (length (nodes s0)) t"
  shows "\<exists>t'. g_unary (c_src c) (replicate k Tok_Bang @ us) t' \<and> built c s0 s' ts [t'] \<and>
    i = root_at (length (nodes s0)) t'"
  using assms
proof (induction k arbitrary: x s us t)
  case (Suc k)
  then obtain y s1 where s1: "push_nots k y s1 = ret i s'" "push_node (Node_Not x) s = ret y s1"
    by (auto simp: bindP_ret_iff)
  have "built c s0 s1 ts [T_Not t]"
    using built_push [OF Suc.prems(3) s1(2), of "T_Not t"] Suc.prems(4) by simp
  moreover have "y = root_at (length (nodes s0)) (T_Not t)"
    using built_length(1) [OF Suc.prems(3)] s1(2) by (simp add: push_node_ret)
  ultimately have "\<exists>t'. g_unary (c_src c) (replicate k Tok_Bang @ Tok_Bang # us) t' \<and> built c s0 s' ts [t'] \<and>
      i = root_at (length (nodes s0)) t'"
    using Suc.IH [OF s1(1) unary_bang [OF Suc.prems(2)]] by simp
  then show ?case by (simp add: replicate_app_Cons_same)
qed auto

section \<open>Soundness of the productions\<close>

text \<open>What a production relies on when it re-enters the grammar through \<open>ex\<close>.\<close>

locale sub_expr =
  fixes c :: pctx and ex :: "pstate \<Rightarrow> node_id presult"
  assumes ex_sound: "ex s = ret i s' \<Longrightarrow> parsed g_expr c s i s'"
begin

lemma elem_loop_sound:
  assumes "elem_loop ex c n close elems s = ret elems' s'" and "built c s0 s us as"
    and "as = [] \<and> us = [] \<or> as \<noteq> [] \<and> (\<exists>ts. us = ts @ [Tok_Comma] \<and> g_elems (c_src c) ts as)"
    and "elems = roots_at (length (nodes s0)) as" and "length as \<le> max_list_elems (c_limits c)"
  shows "\<exists>ts' as' s''. g_elems (c_src c) ts' as' \<and> as' \<noteq> [] \<and> built c s0 s'' ts' as' \<and>
    peek_tok c s'' = Some close \<and> s' = advance s'' \<and> elems' = roots_at (length (nodes s0)) as' \<and>
    length as' \<le> max_list_elems (c_limits c)"
  using assms
proof (induction n arbitrary: elems s us as)
  case (Suc n)
  from Suc.prems(1) have room: "length as < max_list_elems (c_limits c)"
    using Suc.prems(4) by (auto split: if_splits)
  from Suc.prems(1) obtain e s1 where e: "ex s = ret e s1" and
    rest: "(case eat c Tok_Comma s1 of (True, s) \<Rightarrow> elem_loop ex c n close (elems @ [e]) s
        | (False, s) \<Rightarrow> bindP (expect c close s) (\<lambda>_ s. ret (elems @ [e]) s)) = ret elems' s'"
    by (auto simp: bindP_ret_iff split: if_splits)
  from ex_sound [OF e] obtain ts t where t: "g_expr (c_src c) ts t" "built c s s1 ts [t]"
    "e = root_at (length (nodes s)) t"
    by (auto simp: parsed_def)
  have b: "built c s0 s1 (us @ ts) (as @ [t])" using built_trans [OF Suc.prems(2) t(2)] .
  have g: "g_elems (c_src c) (us @ ts) (as @ [t])"
    using Suc.prems(3) t(1) elems_one elems_more [of "c_src c" _ as ts t] by auto
  have roots: "elems @ [e] = roots_at (length (nodes s0)) (as @ [t])"
    using Suc.prems(4) t(3) built_length(1) [OF Suc.prems(2)] by (simp add: roots_at_append)
  show ?case
  proof (cases "peek_tok c s1 = Some Tok_Comma")
    case True
    then have "elem_loop ex c n close (elems @ [e]) (advance s1) = ret elems' s'"
      using rest by (simp add: eat_def)
    moreover have "built c s0 (advance s1) ((us @ ts) @ [Tok_Comma]) (as @ [t])"
      using built_trans [OF b built_read [OF True]] by simp
    ultimately show ?thesis using Suc.IH g roots room by auto
  next
    case False
    then have "peek_tok c s1 = Some close" "s' = advance s1" "elems' = elems @ [e]"
      using rest by (auto simp: eat_def parse_ret)
    with b g roots room show ?thesis by (metis Suc_leI length_append_singleton snoc_eq_iff_butlast)
  qed
qed simp

lemma elem_list_sound:
  assumes "elem_list ex c n close s = ret (fr, len) s'"
  shows "\<exists>ts as s1. g_elems (c_src c) ts as \<and> built c s s1 (ts @ [close]) as \<and>
    length as \<le> max_list_elems (c_limits c) \<and>
    fr = length (args s1) \<and> len = length as \<and> s' = s1\<lparr>args := args s1 @ roots_at (length (nodes s)) as\<rparr>"
proof (cases "peek_tok c s = Some close")
  case True
  with assms have "fr = length (args s)" "len = 0" "s' = advance s"
    by (auto simp: elem_list_def eat_def parse_ret advance_def)
  with built_read [OF True] elems_none show ?thesis
    by (intro exI [of _ "[]"] exI [of _ "advance s"]) (auto simp: advance_def)
next
  case False
  with assms obtain elems s1 where e: "elem_loop ex c n close [] s = ret elems s1"
    and s': "fr = length (args s1)" "len = length elems" "s' = s1\<lparr>args := args s1 @ elems\<rparr>"
    by (auto simp: elem_list_def eat_def parse_ret)
  obtain ts as s2 where r: "g_elems (c_src c) ts as" "built c s s2 ts as" "peek_tok c s2 = Some close"
    "s1 = advance s2" "elems = roots_at (length (nodes s)) as" "length as \<le> max_list_elems (c_limits c)"
    using elem_loop_sound [OF e built_refl] by auto
  have "built c s s1 (ts @ [close]) as" using built_trans [OF r(2) built_read [OF r(3)]] r(4) by simp
  with r s' show ?thesis by (intro exI [of _ ts] exI [of _ as] exI [of _ s1]) auto
qed

lemma leaf_sound:
  assumes "peek_tok c s = Some tk" and "push_node n (advance s) = ret i s'"
    and "g_prim (c_src c) [tk] t" and "\<And>a b. flat a b t = [n]" and "\<And>a. flat_args a t = []"
    and "\<And>m. lists_within m t"
  shows "parsed g_prim c s i s'"
proof (rule parsedI [where G = g_prim, OF assms(3)])
  have "n_nodes t = 1" using length_flat(1) [of 0 0 t] assms(4) by simp
  then show "i = root_at (length (nodes s)) t"
    using assms(2) by (simp add: push_node_ret advance_def)
  show "built c s s' [tk] [t]"
    using built_push [OF built_read [OF assms(1)] assms(2), of t] assms(4-6) by simp
qed

lemma primary_sound: "primary ex c n s = ret i s' \<Longrightarrow> parsed g_prim c s i s'"
proof -
  assume p: "primary ex c n s = ret i s'"
  then obtain tk where tk: "peek_tok c s = Some tk" by (auto simp: primary_def parse_ret Let_def)
  note leaf = leaf_sound [OF tk]
  show "parsed g_prim c s i s'"
  proof (cases tk)
    case Tok_LParen
    with p tk obtain s1 where e: "ex (advance s) = ret i s1" and s': "peek_tok c s1 = Some Tok_RParen" "s' = advance s1"
      by (auto simp: primary_def parse_ret Let_def)
    from ex_sound [OF e] obtain ts t where t: "g_expr (c_src c) ts t" "built c (advance s) s1 ts [t]"
      "i = root_at (length (nodes s)) t" by (auto simp: parsed_def advance_def)
    have "built c s s' (Tok_LParen # ts @ [Tok_RParen]) [t]"
      using built_trans [OF built_trans [OF built_read [OF tk] t(2)] built_read [OF s'(1)]] s'(2) Tok_LParen
      by simp
    from prim_paren [OF t(1)] this t(3) show ?thesis by (rule parsedI)
  next
    case Tok_LBracket
    with p tk obtain fr len s1 where e: "elem_list ex c n Tok_RBracket (advance s) = ret (fr, len) s1"
      and s': "push_node (Node_List fr len) s1 = ret i s'"
      by (auto simp: primary_def parse_ret Let_def list_elems_def)
    from elem_list_sound [OF e] obtain ts as s2 where r: "g_elems (c_src c) ts as"
      "built c (advance s) s2 (ts @ [Tok_RBracket]) as" "length as \<le> max_list_elems (c_limits c)"
      "fr = length (args s2)" "len = length as"
      "s1 = s2\<lparr>args := args s2 @ roots_at (length (nodes (advance s))) as\<rparr>" by blast
    have b: "built c s s2 (Tok_LBracket # ts @ [Tok_RBracket]) as"
      using built_trans [OF built_read [OF tk] r(2)] Tok_LBracket by simp
    have "built c s s' (Tok_LBracket # ts @ [Tok_RBracket]) [T_List as]"
      using s' r(4-6) by (intro built_list [OF b r(3)]) (simp add: advance_def)
    then show ?thesis
      using prim_list [OF r(1)] s' r(6) built_length(1) [OF b]
      by (auto intro!: parsedI simp: push_node_ret)
  next
    case (Tok_Ident sp)
    with p tk have "push_node (Node_Ident sp) (advance s) = ret i s'"
      by (auto simp: primary_def bindP_ret_iff next_tok_ret Let_def split: if_splits)
    from leaf [OF this, of "T_Ident sp"] Tok_Ident prim_ident show ?thesis by simp
  next
    case (Tok_Bool b)
    with p tk leaf [of "Node_Bool b" i s' "T_Bool b"] prim_bool show ?thesis
      by (auto simp: primary_def bindP_ret_iff next_tok_ret Let_def)
  next
    case (Tok_Int v)
    with p tk leaf [of "Node_Int v" i s' "T_Int v"] prim_int show ?thesis
      by (auto simp: primary_def bindP_ret_iff next_tok_ret Let_def)
  next
    case (Tok_Str sp)
    with p tk leaf [of "Node_Str sp" i s' "T_Str sp"] prim_str show ?thesis
      by (auto simp: primary_def bindP_ret_iff next_tok_ret Let_def)
  next
    case Tok_Null
    with p tk leaf [of Node_Null i s' T_Null] prim_null show ?thesis
      by (auto simp: primary_def bindP_ret_iff next_tok_ret Let_def)
  qed (use p tk in \<open>auto simp: primary_def bindP_ret_iff next_tok_ret Let_def\<close>)
qed

lemma call_suffix_sound:
  assumes call: "call_suffix ex c n base name s2 = ret i s'"
    and b: "g_post (c_src c) ts b" "built c s0 s ts [b]" "base = root_at (length (nodes s0)) b"
    and pre: "built c s s2 [Tok_Dot, Tok_Ident name, Tok_LParen] []"
  shows "parsed g_post c s0 i s'"
proof -
  from call obtain bs m fr len s3 where m: "span_slice name (c_src c) = Some bs" "method_from_name bs = Some m"
    and e: "elem_list ex c n Tok_RParen s2 = ret (fr, len) s3" and len: "len = method_arity m"
    and s': "push_node (Node_Call base m fr len) s3 = ret i s'"
    by (auto simp: call_suffix_def bindP_ret_iff arg_list_def split: option.splits if_splits)
  from elem_list_sound [OF e] obtain us as s4 where r: "g_elems (c_src c) us as"
    "built c s2 s4 (us @ [Tok_RParen]) as" "length as \<le> max_list_elems (c_limits c)"
    "fr = length (args s4)" "len = length as" "s3 = s4\<lparr>args := args s4 @ roots_at (length (nodes s2)) as\<rparr>"
    by blast
  let ?ts = "ts @ Tok_Dot # Tok_Ident name # Tok_LParen # us @ [Tok_RParen]"
  have all: "built c s0 s4 ?ts (b # as)"
    using built_trans [OF built_trans [OF b(2) pre] r(2)] by simp
  have "length (nodes s2) = length (nodes s0) + n_nodes b"
    using built_length(1) [OF built_trans [OF b(2) pre]] by simp
  then have "built c s0 s' ?ts [T_Call b m as]"
    using s' r(4-6) b(3) by (intro built_call [OF all r(3)]) simp
  moreover have "g_post (c_src c) ?ts (T_Call b m as)" using post_call [OF b(1) m r(1)] r(5) len by simp
  moreover have "i = root_at (length (nodes s0)) (T_Call b m as)"
    using s' r(6) built_length(1) [OF all] by (simp add: push_node_ret)
  ultimately show ?thesis by (intro parsedI)
qed

lemma field_sound:
  assumes b: "g_post (c_src c) ts b" "built c s0 s ts [b]" "base = root_at (length (nodes s0)) b"
    and tk: "built c s s2 [Tok_Dot, Tok_Ident name] []" and p: "push_node (Node_Field base name) s2 = ret i s'"
  shows "parsed g_post c s0 i s'"
proof -
  have all: "built c s0 s2 (ts @ [Tok_Dot, Tok_Ident name]) [b]" using built_trans [OF b(2) tk] by simp
  have "built c s0 s' (ts @ [Tok_Dot, Tok_Ident name]) [T_Field b name]"
    using built_push [OF all p, of "T_Field b name"] b(3) by simp
  moreover have "i = root_at (length (nodes s0)) (T_Field b name)"
    using p built_length(1) [OF all] by (simp add: push_node_ret)
  ultimately show ?thesis using post_field [OF b(1)] by (intro parsedI)
qed

lemma index_sound:
  assumes b: "g_post (c_src c) ts b" "built c s0 s ts [b]" "base = root_at (length (nodes s0)) b"
    and tk: "peek_tok c s = Some Tok_LBracket" and e: "ex (advance s) = ret x s2"
    and cl: "peek_tok c s2 = Some Tok_RBracket" and p: "push_node (Node_Index base x) (advance s2) = ret i s'"
  shows "parsed g_post c s0 i s'"
proof -
  from ex_sound [OF e] obtain us t where t: "g_expr (c_src c) us t" "built c (advance s) s2 us [t]"
    "x = root_at (length (nodes s)) t" by (auto simp: parsed_def advance_def)
  let ?ts = "ts @ Tok_LBracket # us @ [Tok_RBracket]"
  have all: "built c s0 (advance s2) ?ts [b, t]"
    using built_trans [OF built_infix [OF b(2) tk t(2)] built_read [OF cl]] by simp
  have "built c s0 s' ?ts [T_Index b t]"
    using built_push [OF all p, of "T_Index b t"] b(3) t(3) built_id(2) [OF b(2)] by simp
  moreover have "i = root_at (length (nodes s0)) (T_Index b t)"
    using p built_length(1) [OF all] by (simp add: push_node_ret)
  ultimately show ?thesis using post_index [OF b(1) t(1)] by (intro parsedI)
qed

lemma postfix_loop_sound:
  assumes "postfix_loop ex c n k base s = ret i s'" and "parsed g_post c s0 base s"
  shows "parsed g_post c s0 i s'"
  using assms
proof (induction k arbitrary: base s)
  case (Suc k)
  from Suc.prems(2) obtain ts b where b: "g_post (c_src c) ts b" "built c s0 s ts [b]"
    "base = root_at (length (nodes s0)) b" by (auto simp: parsed_def)
  consider (dot) "peek_tok c s = Some Tok_Dot" | (bracket) "peek_tok c s = Some Tok_LBracket"
    | (stop) "peek_tok c s \<noteq> Some Tok_Dot" "peek_tok c s \<noteq> Some Tok_LBracket" by blast
  then show ?case
  proof cases
    case dot
    with Suc.prems(1) obtain name where name: "peek_tok c (advance s) = Some (Tok_Ident name)"
      by (auto simp: eat_def parse_ret)
    let ?s2 = "advance (advance s)"
    have two: "built c s ?s2 [Tok_Dot, Tok_Ident name] []"
      using built_trans [OF built_read [OF dot] built_read [OF name]] by simp
    show ?thesis
    proof (cases "peek_tok c ?s2 = Some Tok_LParen")
      case True
      have three: "built c s (advance ?s2) [Tok_Dot, Tok_Ident name, Tok_LParen] []"
        using built_trans [OF two built_read [OF True]] by simp
      from Suc.prems(1) dot name True obtain base' s3 where
        "call_suffix ex c n base name (advance ?s2) = ret base' s3"
        "postfix_loop ex c n k base' s3 = ret i s'" by (auto simp: eat_def parse_ret)
      with call_suffix_sound [OF _ b three] Suc.IH show ?thesis by blast
    next
      case False
      with Suc.prems(1) dot name obtain base' s3 where
        "push_node (Node_Field base name) ?s2 = ret base' s3" "postfix_loop ex c n k base' s3 = ret i s'"
        by (auto simp: eat_def bindP_ret_iff expect_ident_ret)
      with field_sound [OF b two] Suc.IH show ?thesis by blast
    qed
  next
    case bracket
    with Suc.prems(1) obtain x s2 base' s3 where "ex (advance s) = ret x s2"
      "peek_tok c s2 = Some Tok_RBracket" "push_node (Node_Index base x) (advance s2) = ret base' s3"
      "postfix_loop ex c n k base' s3 = ret i s'"
      by (auto simp: eat_def bindP_ret_iff expect_ret)
    with index_sound [OF b bracket] Suc.IH show ?thesis by blast
  next
    case stop
    with Suc.prems show ?thesis by (simp add: eat_def)
  qed
qed simp

lemma postfix_sound: "postfix ex c n s = ret i s' \<Longrightarrow> parsed g_post c s i s'"
  unfolding postfix_def bindP_ret_iff
  by (auto intro: postfix_loop_sound parsed_chain(1) [OF primary_sound])

lemma unary_sound: "unary ex c n s = ret i s' \<Longrightarrow> parsed g_unary c s i s'"
proof -
  assume u: "unary ex c n s = ret i s'"
  obtain k s1 where k: "count_bangs c s = (k, s1)" by fastforce
  with u obtain x s2 where x: "postfix ex c n s1 = ret x s2" "push_nots k x s2 = ret i s'"
    by (auto simp: unary_def bindP_ret_iff)
  note bangs = count_bangs_sound [OF k]
  from postfix_sound [OF x(1)] obtain us t where t: "g_post (c_src c) us t" "built c s1 s2 us [t]"
    "x = root_at (length (nodes s1)) t" by (auto simp: parsed_def)
  have "built c s s2 (replicate k Tok_Bang @ us) [t]" using built_trans [OF bangs t(2)] by simp
  moreover have "x = root_at (length (nodes s)) t" using t(3) built_length(1) [OF bangs] by simp
  ultimately show ?thesis
    using push_nots_sound [OF x(2) unary_post [OF t(1)]] unfolding parsed_def by blast
qed

text \<open>The common end of the four infix productions.\<close>

lemma infix_sound:
  assumes l: "L (c_src c) ts l" "built c s s1 ts [l]" "lhs = root_at (length (nodes s)) l"
    and tk: "peek_tok c s1 = Some tk" and r: "parsed R c (advance s1) rhs s2"
    and p: "push_node (mk lhs rhs) s2 = ret i s'"
    and g: "\<And>us r. R (c_src c) us r \<Longrightarrow> G (c_src c) (ts @ tk # us) (mt r)"
    and t: "\<And>a b r. flat a b (mt r) =
        flats a b [l, r] @ [mk (root_at a l) (root_at (a + n_nodes l) r)]"
      "\<And>a r. flat_args a (mt r) = flats_args a [l, r]"
      "\<And>m r. lists_within m (mt r) \<longleftrightarrow> lists_within m l \<and> lists_within m r"
  shows "parsed G c s i s'"
proof -
  obtain us r where r: "R (c_src c) us r" "built c (advance s1) s2 us [r]" "rhs = root_at (length (nodes s1)) r"
    using r by (auto simp: parsed_def advance_def)
  have b: "built c s s2 (ts @ tk # us) [l, r]" by (rule built_infix [OF l(2) tk r(2)])
  have "built c s s' (ts @ tk # us) [mt r]"
    using p l(3) r(3) built_id(2) [OF l(2)] by (intro built_push [OF b _ t(1,2)]) (auto simp: t(3))
  moreover have "n_nodes (mt r) = Suc (n_nodes l + n_nodes r)" using length_flat(1) [of 0 0 "mt r"] t(1) by simp
  then have "i = root_at (length (nodes s)) (mt r)" using p built_length(1) [OF b] by (simp add: push_node_ret)
  ultimately show ?thesis using g [OF r(1)] unfolding parsed_def by blast
qed

lemma rel_sound: "rel ex c n s = ret i s' \<Longrightarrow> parsed g_rel c s i s'"
proof -
  assume r: "rel ex c n s = ret i s'"
  then obtain lhs s1 where u: "unary ex c n s = ret lhs s1"
    and rest: "(case eat_relop c s1 of
         (Some op, s) \<Rightarrow> bindP (unary ex c n s) (\<lambda>rhs s.
           if peek_relop c s \<noteq> None then fail (err_here c s) else push_node (Node_Bin op lhs rhs) s)
       | (None, s) \<Rightarrow> ret lhs s) = ret i s'"
    unfolding rel_def bindP_ret_iff by blast
  note l = unary_sound [OF u]
  show ?thesis
  proof (cases "fst (eat_relop c s1)")
    case None
    then have "i = lhs \<and> s' = s1" using rest by (auto simp: eat_relop_def split: option.splits)
    with l parsed_chain(3) show ?thesis by simp
  next
    case (Some op)
    then obtain tk where tk: "peek_tok c s1 = Some tk" "relop_of tk = Some op"
      and ea: "eat_relop c s1 = (Some op, advance s1)"
      using eat_relop_Some [of c s1 op] by (metis prod.collapse)
    with rest obtain rhs s2 where r: "unary ex c n (advance s1) = ret rhs s2"
      "push_node (Node_Bin op lhs rhs) s2 = ret i s'"
      by (auto simp: bindP_ret_iff split: if_splits)
    from l obtain ts l where l: "g_unary (c_src c) ts l" "built c s s1 ts [l]" "lhs = root_at (length (nodes s)) l"
      unfolding parsed_def by blast
    show ?thesis
      by (rule infix_sound [where L = g_unary and R = g_unary and mk = "Node_Bin op" and mt = "T_Bin op l",
            OF l tk(1) unary_sound [OF r(1)] r(2)]) (auto intro: rel_op [OF l(1) tk(2)])
  qed
qed

lemma and_loop_sound:
  assumes "and_loop ex c n k lhs s1 = ret i s'" and "parsed g_and c s lhs s1"
  shows "parsed g_and c s i s'"
  using assms
proof (induction k arbitrary: lhs s1)
  case (Suc k)
  show ?case
  proof (cases "peek_tok c s1 = Some Tok_AndAnd")
    case True
    with Suc.prems(1) obtain rhs s2 x s3 where r: "rel ex c n (advance s1) = ret rhs s2"
      "push_node (Node_And lhs rhs) s2 = ret x s3" "and_loop ex c n k x s3 = ret i s'"
      by (auto simp: eat_def bindP_ret_iff)
    from Suc.prems(2) obtain ts l where l: "g_and (c_src c) ts l" "built c s s1 ts [l]"
      "lhs = root_at (length (nodes s)) l" unfolding parsed_def by blast
    have "parsed g_and c s x s3"
      by (rule infix_sound [where L = g_and and R = g_rel and mk = Node_And and mt = "T_And l",
            OF l True rel_sound [OF r(1)] r(2)]) (auto intro: and_step [OF l(1)])
    with Suc.IH r(3) show ?thesis by blast
  qed (use Suc.prems in \<open>simp add: eat_def\<close>)
qed simp

lemma and_expr_sound: "and_expr ex c n s = ret i s' \<Longrightarrow> parsed g_and c s i s'"
  unfolding and_expr_def bindP_ret_iff by (auto intro: and_loop_sound parsed_chain(4) [OF rel_sound])

lemma or_loop_sound:
  assumes "or_loop ex c n k lhs s1 = ret i s'" and "parsed g_or c s lhs s1"
  shows "parsed g_or c s i s'"
  using assms
proof (induction k arbitrary: lhs s1)
  case (Suc k)
  show ?case
  proof (cases "peek_tok c s1 = Some Tok_OrOr")
    case True
    with Suc.prems(1) obtain rhs s2 x s3 where r: "and_expr ex c n (advance s1) = ret rhs s2"
      "push_node (Node_Or lhs rhs) s2 = ret x s3" "or_loop ex c n k x s3 = ret i s'"
      by (auto simp: eat_def bindP_ret_iff)
    from Suc.prems(2) obtain ts l where l: "g_or (c_src c) ts l" "built c s s1 ts [l]"
      "lhs = root_at (length (nodes s)) l" unfolding parsed_def by blast
    have "parsed g_or c s x s3"
      by (rule infix_sound [where L = g_or and R = g_and and mk = Node_Or and mt = "T_Or l",
            OF l True and_expr_sound [OF r(1)] r(2)]) (auto intro: or_step [OF l(1)])
    with Suc.IH r(3) show ?thesis by blast
  qed (use Suc.prems in \<open>simp add: eat_def\<close>)
qed simp

lemma or_expr_sound: "or_expr ex c n s = ret i s' \<Longrightarrow> parsed g_or c s i s'"
  unfolding or_expr_def bindP_ret_iff by (auto intro: or_loop_sound parsed_chain(5) [OF and_expr_sound])

lemma expr_inner_sound: "expr_inner ex c n s = ret i s' \<Longrightarrow> parsed g_expr c s i s'"
proof -
  assume e: "expr_inner ex c n s = ret i s'"
  then obtain cond s1 where o1: "or_expr ex c n s = ret cond s1"
    and rest: "(case eat c Tok_Question s1 of
         (True, s) \<Rightarrow> bindP (ex s) (\<lambda>then_id s. bindP (expect c Tok_Colon s) (\<lambda>_ s.
           bindP (ex s) (\<lambda>else_id s. push_node (Node_Ternary cond then_id else_id) s)))
       | (False, s) \<Rightarrow> ret cond s) = ret i s'"
    unfolding expr_inner_def bindP_ret_iff by blast
  note o2 = or_expr_sound [OF o1]
  show ?thesis
  proof (cases "peek_tok c s1 = Some Tok_Question")
    case False
    with rest o2 parsed_chain(6) show ?thesis by (simp add: eat_def)
  next
    case True
    with rest obtain x s2 y s3 where x: "ex (advance s1) = ret x s2" "peek_tok c s2 = Some Tok_Colon"
      "ex (advance s2) = ret y s3" "push_node (Node_Ternary cond x y) s3 = ret i s'"
      by (auto simp: eat_def bindP_ret_iff expect_ret)
    obtain ts b where b: "g_or (c_src c) ts b" "built c s s1 ts [b]" "cond = root_at (length (nodes s)) b"
      using o2 unfolding parsed_def by blast
    obtain us t where t: "g_expr (c_src c) us t" "built c (advance s1) s2 us [t]" "x = root_at (length (nodes s1)) t"
      using ex_sound [OF x(1)] by (auto simp: parsed_def advance_def)
    obtain vs e where e: "g_expr (c_src c) vs e" "built c (advance s2) s3 vs [e]" "y = root_at (length (nodes s2)) e"
      using ex_sound [OF x(3)] by (auto simp: parsed_def advance_def)
    let ?ts = "ts @ Tok_Question # us @ Tok_Colon # vs"
    have two: "built c s s2 (ts @ Tok_Question # us) [b, t]" by (rule built_infix [OF b(2) True t(2)])
    have all: "built c s s3 ?ts [b, t, e]"
      using built_trans [OF built_trans [OF two built_read [OF x(2)]] e(2)] by simp
    have "built c s s' ?ts [T_Ternary b t e]"
      using built_push [OF all x(4), of "T_Ternary b t e"] b(3) t(3) e(3) built_id(2) [OF b(2)] built_length(1) [OF two]
      by (simp add: add.assoc)
    moreover have "i = root_at (length (nodes s)) (T_Ternary b t e)"
      using x(4) built_length(1) [OF all] by (simp add: push_node_ret)
    ultimately show ?thesis using expr_ternary [OF b(1) t(1) e(1)] unfolding parsed_def by blast
  qed
qed

end

text \<open>Tying the knot: \<^const>\<open>enter\<close> and \<^const>\<open>leave\<close> keep the depth counter balanced.\<close>

lemma built_enter_leave:
  assumes "enter c s = ret u s1" and "built c s1 s2 ts as"
  shows "built c s (leave s2) ts as"
  using assms by (auto simp: enter_def leave_def built_def kept_def Let_def sat_add16_def
      split: if_splits)

lemma expr_sound: "expr n c s = ret i s' \<Longrightarrow> parsed g_expr c s i s'"
proof (induction n arbitrary: s i s')
  case (Suc n)
  have sub: "sub_expr c (expr n c)" by standard (rule Suc.IH)
  obtain u s1 s2 where e: "enter c s = ret u s1" "expr_inner (expr n c) c n s1 = ret i s2" "s' = leave s2"
    using Suc.prems by (auto simp: bindP_ret_iff)
  from sub_expr.expr_inner_sound [OF sub e(2)] obtain ts t where
    t: "g_expr (c_src c) ts t" "built c s1 s2 ts [t]" "i = root_at (length (nodes s1)) t"
    unfolding parsed_def by blast
  have "length (nodes s1) = length (nodes s)" using e(1) by (auto simp: enter_def Let_def split: if_splits)
  with t built_enter_leave [OF e(1) t(2)] e(3) show ?case unfolding parsed_def by auto
qed simp

interpretation pe: sub_expr c "expr n c" for c n
  by standard (rule expr_sound)

end
