(* ===== verification/Policy_Parse_Total.thy ===== *)
theory Policy_Parse_Total
  imports Policy_Grammar Policy_Examples
begin

text \<open>
  Termination of the parser: every re-entry of \<open>expr\<close> and every iteration of a loop consumes a
  token, so the fuel \<open>parse_expr_at\<close> starts with is never used up, and more fuel never changes a
  result. The properties of \<open>parse\<close> follow.
\<close>

section \<open>The parser always returns\<close>

text \<open>Totality is stated as \<open>f s \<noteq> None\<close> here, and kept in that form by the simplifier.\<close>

declare not_None_eq [simp del]

abbreviation left :: "pctx \<Rightarrow> pstate \<Rightarrow> nat" where
  "left c s \<equiv> length (c_toks c) - pos s"

lemma reads_bound: "reads c i ts \<Longrightarrow> ts \<noteq> [] \<Longrightarrow> i + length ts \<le> length (c_toks c)"
proof (induction ts arbitrary: i)
  case (Cons t ts)
  then show ?case by (cases "ts = []") fastforce+
qed simp

lemma sentence_nonempty:
  "g_expr src ts t \<Longrightarrow> ts \<noteq> []" "g_or src ts t \<Longrightarrow> ts \<noteq> []" "g_and src ts t \<Longrightarrow> ts \<noteq> []"
  "g_rel src ts t \<Longrightarrow> ts \<noteq> []" "g_unary src ts t \<Longrightarrow> ts \<noteq> []" "g_post src ts t \<Longrightarrow> ts \<noteq> []"
  "g_prim src ts t \<Longrightarrow> ts \<noteq> []" "g_elems src ts as \<Longrightarrow> True"
  by (induction rule: g_expr_g_or_g_and_g_rel_g_unary_g_post_g_prim_g_elems.inducts) auto

lemma built_left:
  assumes "built c s s' ts as"
  shows "left c s' \<le> left c s" and "ts \<noteq> [] \<Longrightarrow> left c s' < left c s"
proof -
  show "left c s' \<le> left c s" using assms by (auto simp: built_def)
  assume "ts \<noteq> []"
  then have "pos s + length ts \<le> length (c_toks c)" "pos s' = pos s + length ts"
    using reads_bound [of c "pos s" ts] assms by (auto simp: built_def)
  moreover have "0 < length ts" using \<open>ts \<noteq> []\<close> by simp
  ultimately show "left c s' < left c s" by linarith
qed

lemma parsed_left:
  "parsed g_expr c s i s' \<Longrightarrow> left c s' < left c s" "parsed g_and c s i s' \<Longrightarrow> left c s' < left c s"
  "parsed g_rel c s i s' \<Longrightarrow> left c s' < left c s" "parsed g_unary c s i s' \<Longrightarrow> left c s' < left c s"
  "parsed g_prim c s i s' \<Longrightarrow> left c s' < left c s" "parsed g_or c s i s' \<Longrightarrow> left c s' < left c s"
  unfolding parsed_def using sentence_nonempty built_left(2) by metis+

lemma advance_left: "peek_tok c s = Some t \<Longrightarrow> left c (advance s) < left c s"
  using built_left(2) [OF built_read] by simp

lemma count_bangs_left: "count_bangs c s = (k, s') \<Longrightarrow> left c s' \<le> left c s"
  using built_left(1) [OF count_bangs_sound] by simp

lemma basic_total [simp]:
  "push_node nd s \<noteq> None" "expect c t s \<noteq> None" "expect_ident c s \<noteq> None" "next_tok c s \<noteq> None"
  "table_len k s \<noteq> None" "enter c s \<noteq> None"
  by (auto simp: push_node_def expect_def expect_ident_def next_tok_def table_len_def enter_def Let_def
      split: option.splits prod.splits bool.splits tok.splits)

lemma push_nots_total: "push_nots k x s \<noteq> None"
  by (induction k arbitrary: x s) (auto simp: bindP_None_iff)

text \<open>A re-entry that returns whenever fewer than \<open>r\<close> tokens are left.\<close>

locale sub_expr_total = sub_expr +
  fixes r :: nat
  assumes ex_total: "left c s < r \<Longrightarrow> ex s \<noteq> None"
begin

lemma elem_loop_total: "left c s < k \<Longrightarrow> left c s < r \<Longrightarrow> elem_loop ex c k close elems s \<noteq> None"
proof (induction k arbitrary: elems s)
  case (Suc k)
  show ?case
  proof
    assume none: "elem_loop ex c (Suc k) close elems s = None"
    then obtain e s1 where e: "ex s = ret e s1" "peek_tok c s1 = Some Tok_Comma"
      "elem_loop ex c k close (elems @ [e]) (advance s1) = None"
      using ex_total [OF Suc.prems(2)] by (auto simp: bindP_None_iff eat_def split: if_splits)
    have "left c (advance s1) < left c s"
      using parsed_left(1) [OF ex_sound [OF e(1)]] advance_left [OF e(2)] by simp
    then have "left c (advance s1) < k" "left c (advance s1) < r" using Suc.prems by simp_all
    with Suc.IH e(3) show False by blast
  qed
qed simp

lemma elem_list_total: "left c s < k \<Longrightarrow> left c s < r \<Longrightarrow> elem_list ex c k close s \<noteq> None"
  using elem_loop_total by (auto simp: elem_list_def bindP_None_iff eat_def)

lemma primary_total:
  assumes "left c s \<le> k" and "left c s \<le> r"
  shows "primary ex c k s \<noteq> None"
proof
  assume none: "primary ex c k s = None"
  then obtain t where t: "peek_tok c s = Some t"
    by (auto simp: primary_def Let_def bindP_None_iff next_tok_ret)
  have rest: "ex (advance s) = None \<or> elem_list ex c k Tok_RBracket (advance s) = None"
    using none t by (cases t)
      (auto simp: primary_def Let_def bindP_None_iff next_tok_ret list_elems_def split: if_splits)
  from advance_left [OF t] assms have "left c (advance s) < k" "left c (advance s) < r" by simp_all
  with rest ex_total elem_list_total show False by blast
qed

lemma call_suffix_total: "left c s < n \<Longrightarrow> left c s < r \<Longrightarrow> call_suffix ex c n base name s \<noteq> None"
  using elem_list_total
  by (auto simp: call_suffix_def bindP_None_iff arg_list_def split: option.splits if_splits)

lemma call_suffix_left: "call_suffix ex c n base name s = ret i s' \<Longrightarrow> left c s' < left c s"
proof -
  assume "call_suffix ex c n base name s = ret i s'"
  then obtain m fr len s1 where e: "elem_list ex c n Tok_RParen s = ret (fr, len) s1"
    and s': "push_node (Node_Call base m fr len) s1 = ret i s'"
    unfolding call_suffix_def arg_list_def by (auto simp: bindP_ret_iff split: option.splits if_splits)
  obtain ts as s2 where b: "built c s s2 (ts @ [Tok_RParen]) as" "pos s1 = pos s2"
    using elem_list_sound [OF e] by auto
  from s' b(2) have "pos s' = pos s2" unfolding push_node_ret by simp
  with built_left(2) [OF b(1)] show "left c s' < left c s" by simp
qed

lemma postfix_loop_total:
  "left c s < k \<Longrightarrow> left c s < n \<Longrightarrow> left c s < r \<Longrightarrow> postfix_loop ex c n k base s \<noteq> None"
proof (induction k arbitrary: base s)
  case (Suc k)
  have step: "postfix_loop ex c n k b s' \<noteq> None" if "left c s' < left c s" for b s'
    using Suc.IH [of s' b] Suc.prems that by simp
  consider (dot) "peek_tok c s = Some Tok_Dot" | (bracket) "peek_tok c s = Some Tok_LBracket"
    | (stop) "peek_tok c s \<noteq> Some Tok_Dot" "peek_tok c s \<noteq> Some Tok_LBracket" by blast
  then show ?case
  proof cases
    case dot
    have call: "call_suffix ex c n base name s' \<noteq> None"
      and after: "call_suffix ex c n base name s' = ret b s'' \<Longrightarrow> postfix_loop ex c n k b s'' \<noteq> None"
      if "left c s' < left c s" for name s' b s''
      using call_suffix_total [of s'] call_suffix_left [of n base name s' b s''] step [of s'' b] Suc.prems that
      by simp_all
    note adv = advance_left [OF dot]
    have "left c (advance s') \<le> left c s'" for s' by (simp add: advance_def)
    then have lt: "left c (advance (advance s)) < left c s" "left c (advance (advance (advance s))) < left c s"
      using adv by (meson le_less_trans)+
    show ?thesis
      using dot call [OF lt(2)] after [OF lt(2)] step lt(1)
      by (auto simp: eat_def bindP_None_iff expect_ident_ret push_node_ret)
  next
    case bracket
    have "left c (advance s') \<le> left c s'" for s' by (simp add: advance_def)
    then have "left c (advance s2) < left c s" if "ex (advance s) = ret x s2" for x s2
      using parsed_left(1) [OF ex_sound [OF that]] advance_left [OF bracket] by (meson le_less_trans less_trans)
    moreover have "ex (advance s) \<noteq> None" using advance_left [OF bracket] Suc.prems(3) by (intro ex_total) simp
    ultimately show ?thesis using bracket step
      by (auto simp: eat_def bindP_None_iff expect_ret push_node_ret)
  qed (simp add: eat_def)
qed simp

lemma postfix_total:
  assumes "left c s \<le> n" and "left c s \<le> r"
  shows "postfix ex c n s \<noteq> None"
proof -
  have "postfix_loop ex c n n b s' \<noteq> None" if "primary ex c n s = ret b s'" for b s'
    using parsed_left(5) [OF primary_sound [OF that]] assms by (intro postfix_loop_total) simp_all
  then show ?thesis using primary_total [OF assms] by (auto simp: postfix_def bindP_None_iff)
qed

lemma unary_total:
  assumes "left c s \<le> n" and "left c s \<le> r"
  shows "unary ex c n s \<noteq> None"
proof -
  obtain k s' where k: "count_bangs c s = (k, s')" by fastforce
  then have "left c s' \<le> n" "left c s' \<le> r" using count_bangs_left [OF k] assms by simp_all
  from postfix_total [OF this] show ?thesis
    by (auto simp: unary_def k bindP_None_iff push_nots_total)
qed

lemma rel_total:
  assumes "left c s \<le> n" and "left c s \<le> r"
  shows "rel ex c n s \<noteq> None"
proof -
  have "unary ex c n (advance s1) \<noteq> None" if "unary ex c n s = ret l s1" for l s1
    using parsed_left(4) [OF unary_sound [OF that]] assms
    by (intro unary_total) (simp_all add: advance_def)
  then show ?thesis using unary_total [OF assms]
    by (auto simp: rel_def bindP_None_iff eat_relop_def split: option.splits if_splits)
qed

lemma and_loop_total:
  "left c s < k \<Longrightarrow> left c s < n \<Longrightarrow> left c s < r \<Longrightarrow> and_loop ex c n k lhs s \<noteq> None"
proof (induction k arbitrary: lhs s)
  case (Suc k)
  show ?case
  proof (cases "peek_tok c s = Some Tok_AndAnd")
    case True
    note adv = advance_left [OF True]
    have "and_loop ex c n k x s3 \<noteq> None"
      if "rel ex c n (advance s) = ret y s2" "push_node nd s2 = ret x s3" for x y nd s2 s3
      using parsed_left(3) [OF rel_sound [OF that(1)]] that(2) adv Suc.prems
      by (intro Suc.IH) (simp_all add: push_node_ret)
    moreover have "rel ex c n (advance s) \<noteq> None" using adv Suc.prems by (intro rel_total) simp_all
    ultimately show ?thesis using True by (auto simp: eat_def bindP_None_iff)
  qed (simp add: eat_def)
qed simp

lemma and_expr_total:
  assumes "left c s \<le> n" and "left c s \<le> r"
  shows "and_expr ex c n s \<noteq> None"
proof -
  have "and_loop ex c n n l s1 \<noteq> None" if "rel ex c n s = ret l s1" for l s1
    using parsed_left(3) [OF rel_sound [OF that]] assms by (intro and_loop_total) simp_all
  then show ?thesis using rel_total [OF assms] by (auto simp: and_expr_def bindP_None_iff)
qed

lemma or_loop_total:
  "left c s < k \<Longrightarrow> left c s < n \<Longrightarrow> left c s < r \<Longrightarrow> or_loop ex c n k lhs s \<noteq> None"
proof (induction k arbitrary: lhs s)
  case (Suc k)
  show ?case
  proof (cases "peek_tok c s = Some Tok_OrOr")
    case True
    note adv = advance_left [OF True]
    have "or_loop ex c n k x s3 \<noteq> None"
      if "and_expr ex c n (advance s) = ret y s2" "push_node nd s2 = ret x s3" for x y nd s2 s3
      using parsed_left(2) [OF and_expr_sound [OF that(1)]] that(2) adv Suc.prems
      by (intro Suc.IH) (simp_all add: push_node_ret)
    moreover have "and_expr ex c n (advance s) \<noteq> None" using adv Suc.prems by (intro and_expr_total) simp_all
    ultimately show ?thesis using True by (auto simp: eat_def bindP_None_iff)
  qed (simp add: eat_def)
qed simp

lemma expr_inner_total:
  assumes "left c s \<le> n" and "left c s \<le> r"
  shows "expr_inner ex c n s \<noteq> None"
proof -
  have loop: "or_loop ex c n n l s1 \<noteq> None" if "and_expr ex c n s = ret l s1" for l s1
    using parsed_left(2) [OF and_expr_sound [OF that]] assms by (intro or_loop_total) simp_all
  have ex1: "ex (advance s1) \<noteq> None" if "left c s1 < left c s" for s1
    using that assms by (intro ex_total) (simp add: advance_def)
  have lt: "left c s1 < left c s" if "or_expr ex c n s = ret l s1" for l s1
    using parsed_left(6) [OF or_expr_sound [OF that]] .
  have lt2: "left c s2 < left c s" if "left c s1 < left c s" "ex (advance s1) = ret x s2" for x s1 s2
    using parsed_left(1) [OF ex_sound [OF that(2)]] that(1) by (simp add: advance_def)
  have "or_expr ex c n s \<noteq> None"
    using loop and_expr_total [OF assms] by (auto simp: or_expr_def bindP_None_iff)
  moreover have "(case eat c Tok_Question s1 of
         (True, s) \<Rightarrow> bindP (ex s) (\<lambda>then_id s. bindP (expect c Tok_Colon s) (\<lambda>_ s.
           bindP (ex s) (\<lambda>else_id s. push_node (Node_Ternary l then_id else_id) s)))
       | (False, s) \<Rightarrow> ret l s) \<noteq> None" if "or_expr ex c n s = ret l s1" for l s1
    using ex1 [OF lt [OF that]] ex1 [OF lt2 [OF lt [OF that]]]
    by (auto simp: eat_def bindP_None_iff expect_ret)
  ultimately show ?thesis unfolding expr_inner_def bindP_None_iff by blast
qed

end

text \<open>Two more than the tokens left are enough fuel.\<close>

lemma expr_total: "left c s + 2 \<le> n \<Longrightarrow> expr n c s \<noteq> None"
proof (induction n arbitrary: s)
  case (Suc n)
  have sub: "sub_expr_total c (expr n c) (n - 1)"
    by standard (use expr_sound Suc.IH in auto)
  have "expr_inner (expr n c) c n s1 \<noteq> None" if "enter c s = ret u s1" for u s1
  proof -
    have "pos s1 = pos s" using that by (auto simp: enter_def Let_def split: if_splits)
    then show ?thesis using sub_expr_total.expr_inner_total [OF sub] Suc.prems by simp
  qed
  then show ?case by (auto simp: bindP_None_iff)
qed simp

interpretation pt: sub_expr_total c "expr n c" "n - 1" for c n
  by standard (use expr_total in auto)

section \<open>More fuel never changes a result\<close>

definition le :: "'a option \<Rightarrow> 'a option \<Rightarrow> bool" where
  "le a b \<longleftrightarrow> a = None \<or> b = a"

lemma le_refl [simp]: "le a a" "le None a"
  by (auto simp: le_def)

lemma le_bindP: "le r r' \<Longrightarrow> (\<And>x s. le (f x s) (f' x s)) \<Longrightarrow> le (bindP r f) (bindP r' f')"
  by (auto simp: le_def bindP_def split: option.splits sum.splits)

lemma le_if: "(b \<Longrightarrow> le x x') \<Longrightarrow> (\<not> b \<Longrightarrow> le y y') \<Longrightarrow> le (if b then x else y) (if b then x' else y')"
  by auto

lemma le_eat:
  "(\<And>s. le (f s) (f' s)) \<Longrightarrow> (\<And>s. le (g s) (g' s)) \<Longrightarrow>
   le (case eat c t s of (True, s) \<Rightarrow> f s | (False, s) \<Rightarrow> g s) (case eat c t s of (True, s) \<Rightarrow> f' s | (False, s) \<Rightarrow> g' s)"
  by (auto simp: eat_def)

text \<open>The productions are monotone in the re-entry \<open>ex\<close> and in their fuel.\<close>

locale fuel_mono =
  fixes c :: pctx and ex ex' :: "pstate \<Rightarrow> node_id presult" and n n' :: nat
  assumes ex_le: "le (ex s) (ex' s)" and n_le: "n \<le> n'"
begin

lemma elem_loop_le: "k \<le> k' \<Longrightarrow> le (elem_loop ex c k cl es s) (elem_loop ex' c k' cl es s)"
proof (induction k arbitrary: k' es s)
  case (Suc k)
  then obtain m where "k' = Suc m" "k \<le> m" by (cases k') auto
  with Suc.IH show ?case by (auto intro!: le_if le_bindP ex_le le_eat)
qed simp

lemma elem_list_le: "le (elem_list ex c n cl s) (elem_list ex' c n' cl s)"
  unfolding elem_list_def by (intro le_eat le_refl le_bindP elem_loop_le n_le)

lemma primary_le: "le (primary ex c n s) (primary ex' c n' s)"
  unfolding primary_def Let_def list_elems_def
  by (intro le_bindP le_refl) (auto intro: le_bindP ex_le elem_list_le split: tok.split)

lemma call_suffix_le: "le (call_suffix ex c n b name s) (call_suffix ex' c n' b name s)"
  unfolding call_suffix_def arg_list_def
  by (auto split: option.split intro: le_bindP elem_list_le)

lemma postfix_loop_le: "k \<le> k' \<Longrightarrow> le (postfix_loop ex c n k b s) (postfix_loop ex' c n' k' b s)"
proof (induction k arbitrary: k' b s)
  case (Suc k)
  then obtain m where "k' = Suc m" "k \<le> m" by (cases k') auto
  with Suc.IH show ?case
    by (auto intro!: le_eat le_bindP le_refl ex_le call_suffix_le)
qed simp

lemma postfix_le: "le (postfix ex c n s) (postfix ex' c n' s)"
  unfolding postfix_def by (intro le_bindP primary_le postfix_loop_le n_le)

lemma unary_le: "le (unary ex c n s) (unary ex' c n' s)"
  unfolding unary_def by (auto split: prod.split intro: le_bindP postfix_le)

lemma rel_le: "le (rel ex c n s) (rel ex' c n' s)"
  unfolding rel_def
  by (intro le_bindP unary_le) (auto split: prod.split option.split intro!: le_bindP unary_le)

lemma and_loop_le: "k \<le> k' \<Longrightarrow> le (and_loop ex c n k l s) (and_loop ex' c n' k' l s)"
proof (induction k arbitrary: k' l s)
  case (Suc k)
  then obtain m where "k' = Suc m" "k \<le> m" by (cases k') auto
  with Suc.IH show ?case by (auto intro!: le_eat le_bindP le_refl rel_le)
qed simp

lemma and_expr_le: "le (and_expr ex c n s) (and_expr ex' c n' s)"
  unfolding and_expr_def by (intro le_bindP rel_le and_loop_le n_le)

lemma or_loop_le: "k \<le> k' \<Longrightarrow> le (or_loop ex c n k l s) (or_loop ex' c n' k' l s)"
proof (induction k arbitrary: k' l s)
  case (Suc k)
  then obtain m where "k' = Suc m" "k \<le> m" by (cases k') auto
  with Suc.IH show ?case by (auto intro!: le_eat le_bindP le_refl and_expr_le)
qed simp

lemma expr_inner_le: "le (expr_inner ex c n s) (expr_inner ex' c n' s)"
  unfolding expr_inner_def or_expr_def
  by (intro le_bindP and_expr_le or_loop_le n_le le_eat ex_le le_refl)

end

lemma expr_mono: "n \<le> n' \<Longrightarrow> le (expr n c s) (expr n' c s)"
proof (induction n arbitrary: n' s)
  case (Suc n)
  then obtain m where m: "n' = Suc m" "n \<le> m" by (cases n') auto
  have "fuel_mono (expr n c) (expr m c) n m" by standard (use Suc.IH m(2) in auto)
  from fuel_mono.expr_inner_le [OF this] m(1) show ?case by (auto intro!: le_bindP)
qed simp

interpretation pm: fuel_mono c "expr n c" "expr (n + k) c" n "n + k" for c n k
  by standard (simp_all add: expr_mono)

declare not_None_eq [simp]

section \<open>Properties of the parser\<close>

lemma parse_expr_at_ret:
  assumes "parse_expr_at ts src limits from = Some (Inr (a, i))"
  obtains root s where
    "expr (length (ts_toks ts) - from + 2) \<lparr>c_toks = ts_toks ts, c_src = src, c_limits = limits\<rparr>
       (parse_start from) = ret root s"
    "a = \<lparr>a_nodes = nodes s, a_args = args s, a_root = root, a_depth = max_reached s\<rparr>" "i = pos s"
proof -
  from assms obtain z where z: "expr (length (ts_toks ts) - from + 2)
      \<lparr>c_toks = ts_toks ts, c_src = src, c_limits = limits\<rparr> (parse_start from) = Some z"
    and m: "map_sum id (\<lambda>(root, s). (\<lparr>a_nodes = nodes s, a_args = args s, a_root = root, a_depth = max_reached s\<rparr>, pos s)) z
      = Inr (a, i)"
    unfolding parse_expr_at_def Let_def map_option_eq_Some by blast
  from m obtain root s where "z = Inr (root, s)" by (cases z) auto
  with z m that show ?thesis by simp
qed

lemma reads_all: "reads c 0 ts \<Longrightarrow> length ts = length (c_toks c) \<Longrightarrow> ts = map s_tok (c_toks c)"
proof -
  have "i + length ts \<le> length (c_toks c) \<Longrightarrow> reads c i ts \<Longrightarrow> ts = map s_tok (take (length ts) (drop i (c_toks c)))"
    for i by (induction ts arbitrary: i) (auto simp: Cons_nth_drop_Suc [symmetric])
  from this [of 0] show "reads c 0 ts \<Longrightarrow> length ts = length (c_toks c) \<Longrightarrow> ts = map s_tok (c_toks c)" by simp
qed

text \<open>
  C32. The parser always returns: on every token stream, source and limits, \<^verbatim>\<open>parse\<close> yields an arena
  or an error. The fuel of the model is never exhausted, and any larger fuel gives the same
  outcome.
\<close>

theorem parse_returns:
  "(\<exists>r. parse ts src limits = Some r) \<and>
   expr (length (ts_toks ts) + 2 + k) \<lparr>c_toks = ts_toks ts, c_src = src, c_limits = limits\<rparr> (parse_start 0) =
   expr (length (ts_toks ts) + 2) \<lparr>c_toks = ts_toks ts, c_src = src, c_limits = limits\<rparr> (parse_start 0)"
proof -
  let ?c = "\<lparr>c_toks = ts_toks ts, c_src = src, c_limits = limits\<rparr>"
  have total: "expr (length (ts_toks ts) + 2) ?c (parse_start 0) \<noteq> None"
    by (rule expr_total) (simp add: parse_start_def)
  then have "\<exists>r. parse ts src limits = Some r"
    by (auto simp del: expr.simps simp: parse_def parse_expr_at_def Let_def)
  moreover have "le (expr (length (ts_toks ts) + 2) ?c (parse_start 0))
      (expr (length (ts_toks ts) + 2 + k) ?c (parse_start 0))"
    by (rule expr_mono) simp
  ultimately show ?thesis using total unfolding le_def by argo
qed

lemma parse_layout:
  assumes "parse ts src limits = Some (Inr a)"
  shows "\<exists>t. g_expr src (map s_tok (ts_toks ts)) t \<and> arena_of t a \<and>
    lists_within (max_list_elems limits) t \<and> a_depth a \<le> max_depth limits \<and>
    length (a_nodes a) \<le> u16_max"
proof -
  let ?c = "\<lparr>c_toks = ts_toks ts, c_src = src, c_limits = limits\<rparr>"
  obtain i where p: "parse_expr_at ts src limits 0 = Some (Inr (a, i))" and i: "i = length (ts_toks ts)"
    using assms by (auto simp: parse_def and_then_Inr_iff split: if_splits)
  from p obtain root s where e: "expr (length (ts_toks ts) - 0 + 2) ?c (parse_start 0) = ret root s"
    and a: "a = \<lparr>a_nodes = nodes s, a_args = args s, a_root = root, a_depth = max_reached s\<rparr>" "i = pos s"
    by (rule parse_expr_at_ret)
  from expr_sound [OF e] obtain us t where t: "g_expr src us t" "built ?c (parse_start 0) s us [t]"
    "root = root_at 0 t" by (auto simp: parsed_def parse_start_def)
  have "reads ?c 0 us" "pos s = length us" using t(2) by (simp_all add: built_def parse_start_def)
  with reads_all [of ?c us] a(2) i have us: "us = map s_tok (ts_toks ts)" by simp
  show ?thesis
  proof (intro exI conjI)
    show "g_expr src (map s_tok (ts_toks ts)) t" using t(1) us by simp
    show "arena_of t a" using t(2,3) a(1) by (simp add: arena_of_def built_def parse_start_def)
  qed (use t(2) a(1) in \<open>auto simp: built_def kept_def parse_start_def\<close>)
qed

text \<open>
  C26. Soundness of the parser. An accepted token stream is a sentence of the grammar, and the
  arena is the post-order layout of the tree it derives: children precede their parent, the root
  is the last node, argument ranges name the roots of the argument trees in order. Every list
  respects \<^verbatim>\<open>max_list_elems\<close>, the recorded depth respects \<^verbatim>\<open>max_depth\<close>, and the arena has at most
  \<^verbatim>\<open>u16::MAX\<close> nodes.
\<close>

theorem parse_sound:
  assumes "parse ts src limits = Some (Inr a)"
  shows "\<exists>t. g_expr src (map s_tok (ts_toks ts)) t \<and> arena_of t a \<and>
    lists_within (max_list_elems limits) t \<and> a_depth a \<le> max_depth limits \<and>
    length (a_nodes a) \<le> u16_max"
  using assms by (rule parse_layout)

definition demo_src_text :: bytes where
  "demo_src_text = ''request.method.size() == 3''"

definition demo_toks :: token_stream where
  "demo_toks =
     \<lparr>ts_toks = map (\<lambda>(t, a, b). \<lparr>s_tok = t, s_span = mk_span a b\<rparr>)
        [(Tok_Ident (mk_span 0 7), 0, 7), (Tok_Dot, 7, 8), (Tok_Ident (mk_span 8 14), 8, 14), (Tok_Dot, 14, 15),
         (Tok_Ident (mk_span 15 19), 15, 19), (Tok_LParen, 19, 20), (Tok_RParen, 20, 21), (Tok_EqEq, 22, 24),
         (Tok_Int 3, 25, 26)],
      ts_strings = []\<rparr>"

definition demo_ast :: ast where
  "demo_ast =
     \<lparr>a_nodes = [Node_Ident (mk_span 0 7), Node_Field 0 (mk_span 8 14), Node_Call 1 Method_Size 0 0,
        Node_Int 3, Node_Bin BinOp_Eq 2 3], a_args = [], a_root = 4, a_depth = 1\<rparr>"

theorem parse_sound_witness:
  "parse demo_toks demo_src_text limits_defaults = Some (Inr demo_ast) \<and>
   (\<exists>t. g_expr demo_src_text (map s_tok (ts_toks demo_toks)) t \<and> arena_of t demo_ast \<and>
    lists_within (max_list_elems limits_defaults) t \<and> a_depth demo_ast \<le> max_depth limits_defaults \<and>
    length (a_nodes demo_ast) \<le> u16_max)"
proof -
  have "parse demo_toks demo_src_text limits_defaults = Some (Inr demo_ast)" by code_simp
  with parse_sound [OF this] show ?thesis by blast
qed

end
