(* ===== verification/Policy_Types.thy ===== *)
theory Policy_Types
  imports Policy_Typing Policy_Parse_Total
begin

text \<open>
  The type system of the policy language, as rules, and the proof that \<^verbatim>\<open>check\<close> decides it: the
  checker accepts exactly the well-typed expressions whose attribute references fit the slot
  table.
\<close>

section \<open>The type system\<close>

text \<open>The dotted name an expression spells.\<close>

fun dotted :: "bytes \<Rightarrow> tree \<Rightarrow> bytes option" where
  "dotted src (T_Ident s) = span_slice s src"
| "dotted src (T_Field b name) =
     (case (dotted src b, span_slice name src) of (Some p, Some q) \<Rightarrow> Some (p @ ''.'' @ q) | _ \<Rightarrow> None)"
| "dotted src _ = None"

text \<open>What may stand left of a dot: an identifier, or the name of a map.\<close>

fun base_ok :: "bytes \<Rightarrow> tree \<Rightarrow> bool" where
  "base_ok src (T_Ident _) \<longleftrightarrow> True"
| "base_ok src (T_Field b name) \<longleftrightarrow>
     base_ok src b \<and> (\<exists>m. dotted src (T_Field b name) = Some (map_path m))"
| "base_ok src _ \<longleftrightarrow> False"

definition names_map :: "bytes \<Rightarrow> tree \<Rightarrow> map_id \<Rightarrow> bool" where
  "names_map src t m \<longleftrightarrow> is_field t \<and> base_ok src t \<and> dotted src t = Some (map_path m)"

inductive has_type :: "bytes \<Rightarrow> phase \<Rightarrow> tree \<Rightarrow> ty \<Rightarrow> bool" for src ph where
  ty_bool: "has_type src ph (T_Bool b) Ty_Bool"
| ty_int: "has_type src ph (T_Int v) Ty_Int"
| ty_str: "has_type src ph (T_Str s) Ty_Str"
| ty_null: "has_type src ph T_Null Ty_Null"
| ty_attr: "base_ok src b \<Longrightarrow> dotted src (T_Field b name) = Some (attr_path a) \<Longrightarrow> attr_available_in a ph \<Longrightarrow>
    has_type src ph (T_Field b name) (attr_ty a)"
| ty_index: "names_map src b m \<Longrightarrow> phase_index (map_from_phase m) \<le> phase_index ph \<Longrightarrow>
    has_type src ph (T_Index b (T_Str key)) Ty_Str"
| ty_size: "has_type src ph b t \<Longrightarrow> t = Ty_Str \<or> t = Ty_List \<Longrightarrow> has_type src ph (T_Call b Method_Size []) Ty_Int"
| ty_method: "has_type src ph b t \<Longrightarrow> t = Ty_Str \<or> t = Ty_Null \<Longrightarrow> has_type src ph x Ty_Str \<Longrightarrow> m \<noteq> Method_Size \<Longrightarrow>
    m = Method_Matches \<longrightarrow> is_str_tree x \<Longrightarrow> has_type src ph (T_Call b m [x]) Ty_Bool"
| ty_not: "has_type src ph t Ty_Bool \<Longrightarrow> has_type src ph (T_Not t) Ty_Bool"
| ty_and: "has_type src ph l Ty_Bool \<Longrightarrow> has_type src ph r Ty_Bool \<Longrightarrow> has_type src ph (T_And l r) Ty_Bool"
| ty_or: "has_type src ph l Ty_Bool \<Longrightarrow> has_type src ph r Ty_Bool \<Longrightarrow> has_type src ph (T_Or l r) Ty_Bool"
| ty_equal: "has_type src ph l t \<Longrightarrow> has_type src ph r u \<Longrightarrow> op = BinOp_Eq \<or> op = BinOp_Ne \<Longrightarrow>
    t = u \<and> t \<noteq> Ty_List \<or> t = Ty_Null \<and> is_scalar_ty u \<or> u = Ty_Null \<and> is_scalar_ty t \<Longrightarrow>
    has_type src ph (T_Bin op l r) Ty_Bool"
| ty_order: "has_type src ph l Ty_Int \<Longrightarrow> has_type src ph r Ty_Int \<Longrightarrow> op \<notin> {BinOp_Eq, BinOp_Ne, BinOp_In} \<Longrightarrow>
    has_type src ph (T_Bin op l r) Ty_Bool"
| ty_in: "has_type src ph l t \<Longrightarrow> t \<noteq> Ty_List \<Longrightarrow> has_type src ph (T_List es) Ty_List \<Longrightarrow>
    es \<noteq> [] \<longrightarrow> has_type src ph (hd es) t \<Longrightarrow> has_type src ph (T_Bin BinOp_In l (T_List es)) Ty_Bool"
| ty_ternary: "has_type src ph b Ty_Bool \<Longrightarrow> has_type src ph x t \<Longrightarrow> has_type src ph y u \<Longrightarrow>
    t = u \<and> v = t \<or> t = Ty_Null \<and> is_scalar_ty u \<and> v = u \<or> u = Ty_Null \<and> is_scalar_ty t \<and> v = t \<Longrightarrow>
    has_type src ph (T_Ternary b x y) v"
| ty_list: "\<forall>e \<in> set es. has_type src ph e t \<Longrightarrow> is_scalar_ty t \<Longrightarrow> has_type src ph (T_List es) Ty_List"

text \<open>Every call has the number of arguments of its method.\<close>

fun arity_ok :: "tree \<Rightarrow> bool" where
  "arity_ok (T_Field b _) \<longleftrightarrow> arity_ok b"
| "arity_ok (T_Index b i) \<longleftrightarrow> arity_ok b \<and> arity_ok i"
| "arity_ok (T_Call b m ts) \<longleftrightarrow> arity_ok b \<and> length ts = method_arity m \<and> list_all arity_ok ts"
| "arity_ok (T_Not t) \<longleftrightarrow> arity_ok t"
| "arity_ok (T_Bin _ l r) \<longleftrightarrow> arity_ok l \<and> arity_ok r"
| "arity_ok (T_And l r) \<longleftrightarrow> arity_ok l \<and> arity_ok r"
| "arity_ok (T_Or l r) \<longleftrightarrow> arity_ok l \<and> arity_ok r"
| "arity_ok (T_Ternary c t e) \<longleftrightarrow> arity_ok c \<and> arity_ok t \<and> arity_ok e"
| "arity_ok (T_List ts) \<longleftrightarrow> list_all arity_ok ts"
| "arity_ok _ \<longleftrightarrow> True"

lemma grammar_arity:
  "g_expr src ts t \<Longrightarrow> arity_ok t" "g_or src ts t \<Longrightarrow> arity_ok t" "g_and src ts t \<Longrightarrow> arity_ok t"
  "g_rel src ts t \<Longrightarrow> arity_ok t" "g_unary src ts t \<Longrightarrow> arity_ok t" "g_post src ts t \<Longrightarrow> arity_ok t"
  "g_prim src ts t \<Longrightarrow> arity_ok t" "g_elems src ts as \<Longrightarrow> list_all arity_ok as"
  by (induction rule: g_expr_g_or_g_and_g_rel_g_unary_g_post_g_prim_g_elems.inducts) auto

section \<open>Paths\<close>

lemma push_segment_writes:
  assumes "push_segment buf cursor seg first = Some (buf', cursor')" and "cursor \<le> length buf"
  shows "drop cursor' buf' = seg @ (if first then [] else ''.'') @ drop cursor buf" and "cursor' \<le> length buf'"
    and "cursor' + length seg + (if first then 0 else 1) = cursor" and "length buf' = length buf"
  using assms
  by (auto simp: push_segment_def copy_at_def Let_def Suc_diff_le min_def drop_Cons' split: if_splits)

lemma push_segment_room:
  "push_segment buf cursor seg first \<noteq> None \<longleftrightarrow> length seg + (if first then 0 else 1) \<le> cursor"
  by (auto simp: push_segment_def Let_def)

lemma path_loop_sound:
  assumes "tree_path_loop src name buf cursor seg cur first = Inr (buf', cursor', s)" and "cursor \<le> length buf"
  shows "\<exists>p q. dotted src cur = Some p \<and> span_slice seg src = Some q \<and>
    drop cursor' buf' = p @ ''.'' @ q @ (if first then [] else ''.'') @ drop cursor buf"
  using assms
proof (induction cur arbitrary: buf cursor seg first)
  case (T_Ident r)
  from T_Ident.prems(1) obtain bs rb buf1 c1 where step: "span_slice seg src = Some bs" "span_slice r src = Some rb"
    "push_segment buf cursor bs first = Some (buf1, c1)" "push_segment buf1 c1 rb False = Some (buf', cursor')"
    by (subst (asm) tree_path_loop.simps) (auto split: option.splits)
  note w = push_segment_writes [OF step(3) T_Ident.prems(2)]
  show ?case using step(1,2) w(1) push_segment_writes(1) [OF step(4) w(2)] by auto
next
  case (T_Field b n2)
  from T_Field.prems(1) obtain bs buf1 c1 where step: "span_slice seg src = Some bs"
    "push_segment buf cursor bs first = Some (buf1, c1)" "tree_path_loop src name buf1 c1 n2 b False = Inr (buf', cursor', s)"
    by (subst (asm) tree_path_loop.simps) (auto split: option.splits)
  note w = push_segment_writes [OF step(2) T_Field.prems(2)]
  from T_Field.IH [OF step(3) w(2)] show ?case using step(1) w(1) by auto
qed (subst (asm) tree_path_loop.simps, auto split: option.splits)+

lemma path_loop_complete:
  assumes "dotted src cur = Some p" and "span_slice seg src = Some q"
    and "length p + length q + (if first then 1 else 2) \<le> cursor" and "cursor \<le> length buf"
  shows "\<exists>r. tree_path_loop src name buf cursor seg cur first = Inr r"
  using assms
proof (induction cur arbitrary: buf cursor seg first p q)
  case (T_Ident r)
  obtain buf1 c1 where p1: "push_segment buf cursor q first = Some (buf1, c1)"
    using push_segment_room [of buf cursor q first] T_Ident.prems by (auto split: if_splits)
  then obtain buf2 c2 where "push_segment buf1 c1 p False = Some (buf2, c2)"
    using push_segment_room [of buf1 c1 p False] push_segment_writes(3) [OF p1 T_Ident.prems(4)] T_Ident.prems
    by (auto split: if_splits)
  with p1 T_Ident.prems show ?case by (subst tree_path_loop.simps) simp
next
  case (T_Field b n2)
  obtain p1 p2 where pp: "dotted src b = Some p1" "span_slice n2 src = Some p2" "p = p1 @ ''.'' @ p2"
    using T_Field.prems(1) by (auto split: option.splits)
  obtain buf1 c1 where ps: "push_segment buf cursor q first = Some (buf1, c1)"
    using push_segment_room [of buf cursor q first] T_Field.prems by (auto split: if_splits)
  note w = push_segment_writes [OF ps T_Field.prems(4)]
  have "\<exists>r. tree_path_loop src name buf1 c1 n2 b False = Inr r"
    by (rule T_Field.IH [OF pp(1,2) _ w(2)]) (use w(3) T_Field.prems(3) pp(3) in \<open>auto split: if_splits\<close>)
  with ps T_Field.prems(2) show ?case by (subst tree_path_loop.simps) simp
qed simp_all

lemma tree_path_sound:
  "tree_path src b name = Inr (buf, cursor, s) \<Longrightarrow> dotted src (T_Field b name) = Some (drop cursor buf)"
  unfolding tree_path_def by (drule path_loop_sound) auto

lemma tree_path_complete:
  assumes "dotted src (T_Field b name) = Some p" and "length p \<le> MAX_PATH_BYTES"
  obtains buf cursor s where "tree_path src b name = Inr (buf, cursor, s)" "drop cursor buf = p"
proof -
  obtain p1 q where d: "dotted src b = Some p1" "span_slice name src = Some q" "p = p1 @ ''.'' @ q"
    using assms(1) by (auto split: option.splits)
  obtain r where "tree_path src b name = Inr r"
    using path_loop_complete [OF d(1,2), of True MAX_PATH_BYTES "replicate MAX_PATH_BYTES (char_of (0 :: nat))" name]
      assms(2) d(3) by (auto simp: tree_path_def)
  moreover obtain buf cursor s where "r = (buf, cursor, s)" by (cases r)
  ultimately show ?thesis using that tree_path_sound assms(1) by fastforce
qed

text \<open>Every path of the schema fits the buffer.\<close>

lemma attr_path_fits: "length (attr_path a) \<le> MAX_PATH_BYTES"
  by (cases a) (simp_all add: MAX_PATH_BYTES_def)

lemma map_path_fits: "length (map_path m) \<le> MAX_PATH_BYTES"
  by (cases m) (simp_all add: MAX_PATH_BYTES_def)

lemma resolve_attr: "(\<exists>e. resolve_path p = Some e \<and> ae_attr e = Some a) \<longleftrightarrow> p = attr_path a"
  using attr_from_path_Some [of p a] by (auto simp: attr_from_path_def split: option.splits)

lemma resolve_map: "(\<exists>e. resolve_path p = Some e \<and> ae_attr e = None \<and> ae_map e = Some m) \<longleftrightarrow> p = map_path m"
proof
  assume "\<exists>e. resolve_path p = Some e \<and> ae_attr e = None \<and> ae_map e = Some m"
  then obtain e where e: "resolve_path p = Some e" "ae_attr e = None" "ae_map e = Some m" by blast
  then show "p = map_path m"
    using ATTRS_rows [OF resolve_path_Some(1) [OF e(1)]] resolve_path_Some(2) [OF e(1)] by simp
next
  assume p: "p = map_path m"
  then obtain e where e: "resolve_path p = Some e" "ae_map e = Some m"
    using map_from_path_path [of m] by (auto simp: map_from_path_def split: option.splits)
  then show "\<exists>e. resolve_path p = Some e \<and> ae_attr e = None \<and> ae_map e = Some m"
    using ATTRS_rows [OF resolve_path_Some(1) [OF e(1)]] by (auto split: option.splits)
qed

section \<open>What the checker accepts is well typed\<close>

text \<open>What the record of the root of \<open>t\<close> says about \<open>t\<close>.\<close>

definition info_ok :: "kctx \<Rightarrow> tree \<Rightarrow> ninfo \<Rightarrow> bool" where
  "info_ok c t x \<longleftrightarrow>
     (ni_ty x \<noteq> Ty_Map \<longrightarrow> has_type (k_src c) (k_phase c) t (ni_ty x)) \<and>
     (\<forall>m. ni_map x = Some m \<longrightarrow> names_map (k_src c) t m) \<and>
     (ni_ty x = Ty_Map \<and> is_field t \<longrightarrow> base_ok (k_src c) t)"

definition list_ok :: "kctx \<Rightarrow> tree \<Rightarrow> ninfo list \<Rightarrow> bool" where
  "list_ok c t js \<longleftrightarrow> (\<forall>es. t = T_List es \<longrightarrow> ni_ty (last js) = Ty_List \<and>
     (\<forall>e es'. es = e # es' \<longrightarrow> info_ok c e (js ! (n_nodes e - 1)) \<and> is_scalar_ty (ni_ty (js ! (n_nodes e - 1)))))"

lemma info_ok_simps [simp]:
  "info_ok c t (info u start) \<longleftrightarrow> (u \<noteq> Ty_Map \<longrightarrow> has_type (k_src c) (k_phase c) t u) \<and>
     (u = Ty_Map \<and> is_field t \<longrightarrow> base_ok (k_src c) t)"
  by (simp add: info_ok_def info_def)

lemma info_ok_typed: "info_ok c t x \<Longrightarrow> ni_ty x = u \<Longrightarrow> u \<noteq> Ty_Map \<Longrightarrow> has_type (k_src c) (k_phase c) t u"
  by (simp add: info_ok_def)

lemma field_info_sound:
  assumes "field_info c b name x st = Inr (y, st')" and "info_ok c b x"
  shows "info_ok c (T_Field b name) y"
proof -
  have base: "base_ok (k_src c) b" if "dotted (k_src c) (T_Field b name) = Some p" for p
  proof -
    have "ni_ty x = Ty_Map" using assms(1) by (auto simp: field_info_def split: if_splits)
    with assms(2) that show ?thesis by (cases b) (auto simp: info_ok_def split: option.splits)
  qed
  from assms(1) show ?thesis
  proof (cases rule: field_info_cases)
    case (1 buf cursor s e a slot)
    from tree_path_sound [OF 1(1)] have d: "dotted (k_src c) (T_Field b name) = Some (drop cursor buf)" .
    have "drop cursor buf = attr_path a" using resolve_attr 1(2,3) by blast
    with d have "has_type (k_src c) (k_phase c) (T_Field b name) (attr_ty a)"
      using ty_attr [OF base [OF d]] 1(4) by metis
    moreover have "attr_ty a \<noteq> Ty_Map" by (cases a) simp_all
    ultimately show ?thesis using 1(6) by (simp add: info_ok_def info_def)
  next
    case (2 buf cursor s e m)
    from tree_path_sound [OF 2(1)] have d: "dotted (k_src c) (T_Field b name) = Some (drop cursor buf)" .
    with 2 resolve_map [of "drop cursor buf" m] base [OF d] show ?thesis
      by (auto simp: info_ok_def info_def names_map_def)
  qed
qed

lemma index_info_sound:
  assumes "index_info c k x y st = Inr (z, st')" and "info_ok c b x"
  shows "info_ok c (T_Index b k) z"
  using assms by (elim index_info_cases) (auto simp: info_ok_def info_def phase_available_def intro: ty_index)

lemma call_ty_sound:
  assumes "call_ty m x (zip ts ys) = Inr u" and "info_ok c b x" and "list_all2 (info_ok c) ts ys"
    and "length ts = method_arity m"
  shows "u \<noteq> Ty_Map \<and> has_type (k_src c) (k_phase c) (T_Call b m ts) u"
proof (cases "m = Method_Size")
  case True
  with assms show ?thesis
    by (auto simp: call_ty_def method_arity_def split: if_splits intro: ty_size info_ok_typed)
next
  case False
  with assms(4) obtain t where ts: "ts = [t]" by (auto simp: method_arity_def length_Suc_conv)
  with assms(3) obtain y where ys: "ys = [y]" "info_ok c t y" by (auto simp: list_all2_Cons1)
  have "ni_ty x = Ty_Str \<or> ni_ty x = Ty_Null" "ni_ty y = Ty_Str" "m = Method_Matches \<longrightarrow> is_str_tree t" "u = Ty_Bool"
    using assms(1) False ts ys by (auto simp: call_ty_def split: if_splits)
  moreover have "has_type (k_src c) (k_phase c) b (ni_ty x)" "has_type (k_src c) (k_phase c) t Ty_Str"
    using calculation info_ok_typed assms(2) ys(2) by auto
  ultimately show ?thesis using False ts ty_method by auto
qed

lemma bin_ty_sound:
  assumes "bin_ty op x y (list_roots r ks) = Inr u" and "info_ok c l x" and "info_ok c r y"
    and "y = last ks" and "list_ok c r ks"
  shows "u = Ty_Bool \<and> has_type (k_src c) (k_phase c) (T_Bin op l r) Ty_Bool"
proof (cases "op = BinOp_In")
  case True
  from assms(1) True obtain es where es: "r = T_List es" "ni_ty x \<noteq> Ty_Map" "ni_ty x \<noteq> Ty_List" "u = Ty_Bool"
    by (auto simp: bin_ty_def list_roots_def split: option.splits tree.splits if_splits list.splits)
  have "ni_ty y = Ty_List" using assms(4,5) es(1) by (simp add: list_ok_def)
  then have "has_type (k_src c) (k_phase c) (T_List es) Ty_List" using info_ok_typed [OF assms(3)] es(1) by simp
  moreover have "es \<noteq> [] \<longrightarrow> has_type (k_src c) (k_phase c) (hd es) (ni_ty x)"
  proof
    assume "es \<noteq> []"
    then obtain e es' where e: "es = e # es'" by (cases es) auto
    with assms(5) es(1) have "info_ok c e (ks ! (n_nodes e - 1))" by (simp add: list_ok_def)
    moreover have "ni_ty (ks ! (n_nodes e - 1)) = ni_ty x"
      using assms(1) True es e by (auto simp: bin_ty_def list_roots_def split: if_splits)
    ultimately show "has_type (k_src c) (k_phase c) (hd es) (ni_ty x)" using info_ok_typed es(2) e by simp
  qed
  ultimately show ?thesis using True es ty_in info_ok_typed [OF assms(2) refl es(2)] by simp
next
  case False
  note lr = info_ok_typed [OF assms(2)] info_ok_typed [OF assms(3)]
  show ?thesis
  proof (cases "op = BinOp_Eq \<or> op = BinOp_Ne")
    case True
    then have "u = Ty_Bool" "ni_ty x \<noteq> Ty_Map" "ni_ty y \<noteq> Ty_Map" "ni_ty x = ni_ty y \<and> ni_ty x \<noteq> Ty_List \<or>
        ni_ty x = Ty_Null \<and> is_scalar_ty (ni_ty y) \<or> ni_ty y = Ty_Null \<and> is_scalar_ty (ni_ty x)"
      using assms(1) by (auto simp: bin_ty_def is_scalar_ty_def split: if_splits)
    from ty_equal [OF lr(1) [OF refl this(2)] lr(2) [OF refl this(3)] True this(4)] this(1) show ?thesis by simp
  next
    case other: False
    with assms(1) False have "u = Ty_Bool" "ni_ty x = Ty_Int" "ni_ty y = Ty_Int"
      by (auto simp: bin_ty_def split: if_splits)
    with other False lr show ?thesis by (auto intro: ty_order)
  qed
qed

lemma list_ty_sound:
  assumes "list_ty ys = Inr u" and "list_all2 (info_ok c) es ys"
  shows "u = Ty_List \<and> has_type (k_src c) (k_phase c) (T_List es) Ty_List \<and> (\<forall>y ys'. ys = y # ys' \<longrightarrow> is_scalar_ty (ni_ty y))"
proof (cases ys)
  case Nil
  with assms show ?thesis using ty_list [of "[]" _ _ Ty_Bool] by (auto simp: list_ty_def is_scalar_ty_def)
next
  case (Cons y ys')
  with assms(1) have sc: "is_scalar_ty (ni_ty y)" "u = Ty_List" "\<forall>z \<in> set ys. ni_ty z = ni_ty y"
    by (auto simp: list_ty_def find_None_iff split: if_splits option.splits)
  have "\<forall>e \<in> set es. has_type (k_src c) (k_phase c) e (ni_ty y)"
  proof
    fix e assume "e \<in> set es"
    then obtain i where "i < length es" "e = es ! i" by (auto simp: in_set_conv_nth)
    then have "ys ! i \<in> set ys" "info_ok c e (ys ! i)" using assms(2) by (auto simp: list_all2_conv_all_nth)
    then have "info_ok c e (ys ! i)" "ni_ty (ys ! i) = ni_ty y" "ni_ty y \<noteq> Ty_Map"
      using sc(1,3) by (auto simp: is_scalar_ty_def)
    then show "has_type (k_src c) (k_phase c) e (ni_ty y)" by (rule info_ok_typed)
  qed
  from ty_list [OF this sc(1)] sc(1,2) Cons show ?thesis by simp
qed

lemma top_info_sound:
  assumes "top_info c fb t iss st = Inr (x, st')" and "arity_ok t"
    and "list_all2 (\<lambda>t js. info_ok c t (last js)) (children t) iss" and "list_all2 (list_ok c) (children t) iss"
  shows "info_ok c t x"
proof (cases t)
  case (T_Field b name)
  then show ?thesis using assms by (auto simp: list_all2_Cons1 intro: field_info_sound)
next
  case (T_Index b k)
  then show ?thesis using assms by (auto simp: list_all2_Cons1 intro: index_info_sound)
next
  case (T_Call b m ts)
  then obtain js jss where iss: "iss = js # jss" "info_ok c b (last js)" "list_all2 (\<lambda>t js. info_ok c t (last js)) ts jss"
    using assms(3) by (auto simp: list_all2_Cons1)
  from iss(3) have "list_all2 (info_ok c) ts (map last jss)" by (simp add: list_all2_map2)
  with T_Call assms(1,2) iss show ?thesis by (auto simp: plain_def and_then_Inr_iff dest!: call_ty_sound)
next
  case (T_Bin op l r)
  then obtain js ks where iss: "iss = [js, ks]" "info_ok c l (last js)" "info_ok c r (last ks)" "list_ok c r ks"
    using assms(3,4) by (auto simp: list_all2_Cons1)
  from bin_ty_sound [OF _ iss(2,3) refl iss(4), of op] T_Bin assms(1) iss(1) show ?thesis
    by (auto simp: plain_def and_then_Inr_iff)
next
  case (T_Ternary b u v)
  then obtain js ks ls where iss: "iss = [js, ks, ls]" "info_ok c b (last js)" "info_ok c u (last ks)" "info_ok c v (last ls)"
    using assms(3) by (auto simp: list_all2_Cons1)
  note typed = info_ok_typed [OF iss(2)] info_ok_typed [OF iss(3)] info_ok_typed [OF iss(4)]
  obtain w where w: "ni_ty (last js) = Ty_Bool" "unify_ty (last ks) (last ls) = Inr w" "x = info w (ni_start (last js))"
    using assms(1) T_Ternary iss(1)
    by (auto simp: plain_def and_then_Inr_iff expect_info_def eval_nat_numeral split: if_splits)
  then show ?thesis using typed T_Ternary
    by (auto simp: unify_ty_def is_scalar_ty_def split: if_splits intro: ty_ternary)
next
  case (T_List ts)
  then have "list_all2 (info_ok c) ts (map last iss)" using assms(3) by (simp add: list_all2_map2)
  with T_List assms(1) show ?thesis by (auto simp: plain_def and_then_Inr_iff dest!: list_ty_sound)
qed (use assms in \<open>auto simp: plain_def and_then_Inr_iff expect_info_def list_all2_Cons1 info_ok_def info_def
    split: if_splits intro: has_type.intros\<close>)

lemma tree_check_sound:
  "arity_ok t \<Longrightarrow> tree_check c fb t st = Inr (js, st') \<Longrightarrow> info_ok c t (last js) \<and> list_ok c t js"
  "list_all arity_ok ts \<Longrightarrow> trees_check c fb ts st = Inr (iss, st') \<Longrightarrow>
     list_all2 (\<lambda>t js. info_ok c t (last js) \<and> list_ok c t js) ts iss"
proof (induction c fb t st and c fb ts st arbitrary: js st' and iss st' rule: tree_check_trees_check.induct)
  case (1 c fb t st)
  from 1(3) obtain iss st1 x where kids: "trees_check c (is_field t) (children t) st = Inr (iss, st1)"
    and top: "top_info c fb t iss st1 = Inr (x, st')" and js: "js = concat iss @ [x]"
    by (auto simp: tree_check.simps [of c fb t] and_then_Inr_iff)
  have "list_all arity_ok (children t)" using 1(2) by (cases t) auto
  from 1(1) [OF this kids]
  have ok: "list_all2 (\<lambda>t js. info_ok c t (last js)) (children t) iss" "list_all2 (list_ok c) (children t) iss"
    by (auto simp: list_all2_conv_all_nth)
  have "list_ok c t js"
    unfolding list_ok_def
  proof (intro allI impI)
    fix es assume t: "t = T_List es"
    then have "list_all2 (info_ok c) es (map last iss)" using ok(1) by (simp add: list_all2_map2)
    with top t have x: "ni_ty x = Ty_List" "\<forall>y ys'. map last iss = y # ys' \<longrightarrow> is_scalar_ty (ni_ty y)"
      by (auto simp: plain_def and_then_Inr_iff info_def dest!: list_ty_sound)
    have "info_ok c e (js ! (n_nodes e - 1)) \<and> is_scalar_ty (ni_ty (js ! (n_nodes e - 1)))" if e: "es = e # es'" for e es'
    proof -
      obtain ks iss' where iss: "iss = ks # iss'" "info_ok c e (last ks)" using ok(1) t e by (auto simp: list_all2_Cons1)
      have len: "length ks = n_nodes e" using tree_check_length(2) [OF kids] t e iss(1) by simp
      then have "ks \<noteq> []" by (metis n_nodes_pos list.size(3) less_irrefl)
      then have "js ! (n_nodes e - 1) = last ks" using len js iss(1) by (simp add: nth_append last_conv_nth)
      then show ?thesis using x(2) iss by simp
    qed
    then show "ni_ty (last js) = Ty_List \<and> (\<forall>e es'. es = e # es' \<longrightarrow>
        info_ok c e (js ! (n_nodes e - 1)) \<and> is_scalar_ty (ni_ty (js ! (n_nodes e - 1))))" using x js by simp
  qed
  then show ?case using top_info_sound [OF top 1(2) ok] js by simp
next
  case (3 c fb t ts st)
  then show ?case by (auto simp: and_then_Inr_iff)
qed simp

section \<open>What is well typed the checker accepts\<close>

inductive_cases ty_boolE: "has_type src ph (T_Bool b) u"
inductive_cases ty_intE: "has_type src ph (T_Int v) u"
inductive_cases ty_strE: "has_type src ph (T_Str s) u"
inductive_cases ty_nullE: "has_type src ph T_Null u"
inductive_cases ty_fieldE: "has_type src ph (T_Field b name) u"
inductive_cases ty_indexE: "has_type src ph (T_Index b k) u"
inductive_cases ty_callE: "has_type src ph (T_Call b m ts) u"
inductive_cases ty_notE: "has_type src ph (T_Not t) u"
inductive_cases ty_andE: "has_type src ph (T_And l r) u"
inductive_cases ty_orE: "has_type src ph (T_Or l r) u"
inductive_cases ty_binE: "has_type src ph (T_Bin op l r) u"
inductive_cases ty_ternaryE: "has_type src ph (T_Ternary b x y) u"
inductive_cases ty_listE: "has_type src ph (T_List es) u"

lemmas has_typeE = ty_boolE ty_intE ty_strE ty_nullE ty_fieldE ty_indexE ty_callE ty_notE ty_andE ty_orE ty_binE
  ty_ternaryE ty_listE

lemma attr_path_inject: "attr_path a = attr_path b \<Longrightarrow> a = b"
  by (metis attr_from_path_path option.inject)

lemma has_type_unique: "has_type src ph t u \<Longrightarrow> has_type src ph t v \<Longrightarrow> u = v"
proof (induction arbitrary: v rule: has_type.induct)
  case (ty_attr b name a)
  from ty_attr.prems ty_attr.hyps(2) show ?case by (auto elim!: ty_fieldE dest: attr_path_inject)
next
  case (ty_ternary b x t y u w)
  from ty_ternary.prems obtain t' u' where "has_type src ph x t'" "has_type src ph y u'"
    "t' = u' \<and> v = t' \<or> t' = Ty_Null \<and> is_scalar_ty u' \<and> v = u' \<or> u' = Ty_Null \<and> is_scalar_ty t' \<and> v = t'"
    by (elim ty_ternaryE) auto
  with ty_ternary.IH(2) [of t'] ty_ternary.IH(3) [of u'] ty_ternary.hyps show ?case by (auto simp: is_scalar_ty_def)
qed (blast elim: has_typeE)+

lemma path_arity: "base_ok src b \<Longrightarrow> arity_ok b"
  by (induction src b rule: base_ok.induct) auto

lemma has_type_arity: "has_type src ph t u \<Longrightarrow> arity_ok t"
  by (induction rule: has_type.induct)
    (auto simp: method_arity_def names_map_def list_all_iff dest: path_arity)

lemma tree_check_one:
  assumes "children t = [b]" and "tree_check c (is_field t) b st = Inr (js, st')"
  shows "tree_check c fb t st = and_then (top_info c fb t [js] st') (\<lambda>(x, st''). Inr (js @ [x], st''))"
  using assms by (simp add: tree_check.simps [of c fb t])

lemma map_field_checked:
  assumes "tree_check c True b st = Inr (js, st)" and "ni_ty (last js) = Ty_Map"
    and "dotted (k_src c) (T_Field b name) = Some (map_path m)"
  shows "\<exists>js. tree_check c fb (T_Field b name) st = Inr (js, st) \<and> ni_ty (last js) = Ty_Map \<and> ni_map (last js) = Some m"
proof -
  obtain buf cursor s where p: "tree_path (k_src c) b name = Inr (buf, cursor, s)" "drop cursor buf = map_path m"
    by (rule tree_path_complete [OF assms(3) map_path_fits])
  obtain e where "resolve_path (map_path m) = Some e" "ae_attr e = None" "ae_map e = Some m" using resolve_map by blast
  with p assms(2) have "field_info c b name (last js) st = Inr ((info Ty_Map (ni_start (last js)))\<lparr>ni_map := Some m\<rparr>, st)"
    by (simp add: field_info_def)
  then show ?thesis using tree_check_one [of "T_Field b name" b c st js st fb] assms(1) by (simp add: info_def)
qed

lemma base_checked:
  "base_ok (k_src c) b \<Longrightarrow> \<exists>js. tree_check c True b st = Inr (js, st) \<and> ni_ty (last js) = Ty_Map"
proof (induction b)
  case (T_Ident s)
  show ?case by (simp add: tree_check.simps [of c True "T_Ident s"] info_def)
next
  case (T_Field b name)
  then obtain m where m: "base_ok (k_src c) b" "dotted (k_src c) (T_Field b name) = Some (map_path m)" by auto
  with T_Field.IH obtain js where "tree_check c True b st = Inr (js, st)" "ni_ty (last js) = Ty_Map" by auto
  from map_field_checked [OF this m(2), of True] show ?case by blast
qed simp_all

lemma names_map_checked:
  assumes "names_map (k_src c) t m"
  shows "\<exists>js. tree_check c fb t st = Inr (js, st) \<and> ni_ty (last js) = Ty_Map \<and> ni_map (last js) = Some m"
proof -
  from assms obtain b name where t: "t = T_Field b name" "base_ok (k_src c) b" "dotted (k_src c) t = Some (map_path m)"
    unfolding names_map_def by (cases t) auto
  from base_checked [OF t(2)] obtain js where "tree_check c True b st = Inr (js, st)" "ni_ty (last js) = Ty_Map" by blast
  from map_field_checked [OF this] t(1,3) show ?thesis by blast
qed

text \<open>A run that ends in success with \<open>P\<close>, or at the limit of the slot table.\<close>

definition yields :: "('a \<Rightarrow> bool) \<Rightarrow> check_error + 'a \<times> tstate \<Rightarrow> bool" where
  "yields P r \<longleftrightarrow> (case r of Inl e \<Rightarrow> \<exists>n. e = TooManyAttrSlots n | Inr (x, _) \<Rightarrow> P x)"

lemma yields_simps [simp]:
  "yields P (Inr (x, st)) \<longleftrightarrow> P x" "yields P (Inl e) \<longleftrightarrow> (\<exists>n. e = TooManyAttrSlots n)"
  by (simp_all add: yields_def)

lemma yields_bind:
  assumes "yields P r" and "\<And>x st. r = Inr (x, st) \<Longrightarrow> P x \<Longrightarrow> yields Q (f (x, st))"
  shows "yields Q (and_then r f)"
  using assms by (cases r) auto

lemma yields_mono: "yields P r \<Longrightarrow> (\<And>x. P x \<Longrightarrow> Q x) \<Longrightarrow> yields Q r"
  by (auto simp: yields_def split: sum.splits)

definition accepts :: "kctx \<Rightarrow> tree \<Rightarrow> ty \<Rightarrow> bool" where
  "accepts c t u \<longleftrightarrow> (\<forall>fb st. yields (\<lambda>js. ni_ty (last js) = u) (tree_check c fb t st))"

lemma accepts_kids:
  "list_all2 (accepts c) ts us \<Longrightarrow> yields (\<lambda>iss. list_all2 (\<lambda>js u. ni_ty (last js) = u) iss us) (trees_check c fb ts st)"
proof (induction ts arbitrary: us st)
  case (Cons t ts)
  then obtain u us' where us: "us = u # us'" "accepts c t u" "list_all2 (accepts c) ts us'" by (auto simp: list_all2_Cons1)
  have "yields (\<lambda>js. ni_ty (last js) = u) (tree_check c fb t st)" using us(2) unfolding accepts_def by blast
  then show ?case unfolding trees_check.simps
  proof (rule yields_bind)
    show "yields (\<lambda>iss. list_all2 (\<lambda>js u. ni_ty (last js) = u) iss us)
        (case (js, st) of (ps, st) \<Rightarrow> and_then (trees_check c fb ts st) (\<lambda>(iss, st). Inr (ps # iss, st)))"
      if "ni_ty (last js) = u" for js st
      using that us(1) by (simp, intro yields_bind [OF Cons.IH [OF us(3)]]) simp
  qed
qed simp

lemma accepts_node:
  assumes "list_all2 (accepts c) (children t) us"
    and "\<And>fb iss st0 st. trees_check c (is_field t) (children t) st0 = Inr (iss, st) \<Longrightarrow>
      list_all2 (\<lambda>js u. ni_ty (last js) = u) iss us \<Longrightarrow> yields (\<lambda>x. ni_ty x = u) (top_info c fb t iss st)"
  shows "accepts c t u"
  unfolding accepts_def
proof (intro allI)
  fix fb st
  show "yields (\<lambda>js. ni_ty (last js) = u) (tree_check c fb t st)"
    unfolding tree_check.simps [of c fb t]
    by (rule yields_bind [OF accepts_kids [OF assms(1)]], simp, rule yields_bind [OF assms(2)]) auto
qed

lemma tree_intern_yields: "yields (\<lambda>_. True) (tree_intern c want st)"
  by (auto simp: tree_intern_def yields_def and_then_def ok_or_def split: prod.splits option.splits)

lemma yields_intern: "(\<And>slot. P (f slot)) \<Longrightarrow> yields P (and_then (tree_intern c want st) (\<lambda>(slot, st). Inr (f slot, st)))"
  by (rule yields_bind [OF tree_intern_yields]) simp

lemma accepts_attr:
  assumes "base_ok (k_src c) b" and "dotted (k_src c) (T_Field b name) = Some (attr_path a)"
    and "attr_available_in a (k_phase c)"
  shows "accepts c (T_Field b name) (attr_ty a)"
  unfolding accepts_def
proof (intro allI)
  fix fb st
  obtain js where js: "tree_check c True b st = Inr (js, st)" "ni_ty (last js) = Ty_Map" using base_checked [OF assms(1)] by blast
  obtain buf cursor s where p: "tree_path (k_src c) b name = Inr (buf, cursor, s)" "drop cursor buf = attr_path a"
    by (rule tree_path_complete [OF assms(2) attr_path_fits])
  obtain e where "resolve_path (attr_path a) = Some e" "ae_attr e = Some a" using resolve_attr by blast
  with p js(2) assms(3) have "field_info c b name (last js) st = and_then (tree_intern c (Scalar a) st) (\<lambda>(slot, st).
      Inr ((info (attr_ty a) (ni_start (last js)))\<lparr>ni_slot := slot\<rparr>, st))"
    by (simp add: field_info_def)
  then have "yields (\<lambda>x. ni_ty x = attr_ty a) (field_info c b name (last js) st)"
    by (simp add: yields_intern info_def)
  then show "yields (\<lambda>js. ni_ty (last js) = attr_ty a) (tree_check c fb (T_Field b name) st)"
    using tree_check_one [of "T_Field b name" b c st js st fb] js(1) by (auto intro: yields_bind)
qed

lemma accepts_index:
  assumes "names_map (k_src c) b m" and "phase_index (map_from_phase m) \<le> phase_index (k_phase c)"
  shows "accepts c (T_Index b (T_Str key)) Ty_Str"
  unfolding accepts_def
proof (intro allI)
  fix fb st
  obtain js where js: "tree_check c False b st = Inr (js, st)" "ni_map (last js) = Some m"
    using names_map_checked [OF assms(1)] by blast
  obtain key' ss where k: "canonical_key m key (snd st) = (key', ss)" by fastforce
  have "yields (\<lambda>x. ni_ty x = Ty_Str) (index_info c (T_Str key) (last js) (info Ty_Str (sp_start key)) st)"
    using js(2) k assms(2) by (simp add: index_info_def phase_available_def info_def yields_intern)
  then show "yields (\<lambda>js. ni_ty (last js) = Ty_Str) (tree_check c fb (T_Index b (T_Str key)) st)"
    using js(1) by (auto simp: tree_check.simps [of c fb "T_Index b (T_Str key)"] tree_check.simps [of c False "T_Str key"]
        intro: yields_bind)
qed

lemmas accepts_simps = plain_def and_then_def expect_info_def info_def call_ty_def bin_ty_def unify_ty_def
  list_all2_Cons1 list_all2_Cons2

lemma accepts_in:
  assumes "accepts c l t" and "accepts c (T_List es) Ty_List" and "t \<noteq> Ty_List" "t \<noteq> Ty_Map"
    and "has_type (k_src c) (k_phase c) (T_List es) Ty_List"
    and "es \<noteq> [] \<longrightarrow> has_type (k_src c) (k_phase c) (hd es) t"
  shows "accepts c (T_Bin BinOp_In l (T_List es)) Ty_Bool"
proof (rule accepts_node [where us = "[t, Ty_List]"])
  show "list_all2 (accepts c) (children (T_Bin BinOp_In l (T_List es))) [t, Ty_List]" using assms(1,2) by simp
  fix fb iss st0 st
  assume kids: "trees_check c (is_field (T_Bin BinOp_In l (T_List es))) (children (T_Bin BinOp_In l (T_List es))) st0 = Inr (iss, st)"
    and "list_all2 (\<lambda>js u. ni_ty (last js) = u) iss [t, Ty_List]"
  then obtain js ks where iss: "iss = [js, ks]" "ni_ty (last js) = t" by (auto simp: list_all2_Cons2)
  with kids obtain st1 where "tree_check c False (T_List es) st1 = Inr (ks, st)" by (auto simp: and_then_Inr_iff)
  from tree_check_sound(1) [OF has_type_arity [OF assms(5)] this] have ok: "list_ok c (T_List es) ks" by blast
  have "ni_ty (ks ! (n_nodes e - 1)) = t" if "es = e # es'" for e es'
  proof -
    have "info_ok c e (ks ! (n_nodes e - 1))" "is_scalar_ty (ni_ty (ks ! (n_nodes e - 1)))"
      using ok that by (simp_all add: list_ok_def)
    then have "has_type (k_src c) (k_phase c) e (ni_ty (ks ! (n_nodes e - 1)))"
      by (intro info_ok_typed) (auto simp: is_scalar_ty_def)
    then show ?thesis using has_type_unique assms(6) that by simp
  qed
  then show "yields (\<lambda>x. ni_ty x = Ty_Bool) (top_info c fb (T_Bin BinOp_In l (T_List es)) iss st)"
    using iss assms(3,4) by (cases es) (auto simp: accepts_simps list_roots_def)
qed

lemma has_type_not_map: "has_type src ph t u \<Longrightarrow> u \<noteq> Ty_Map"
proof (induction rule: has_type.induct)
  case (ty_attr b name a)
  show ?case by (cases a) simp_all
qed (auto simp: is_scalar_ty_def)

lemma has_type_accepts: "has_type (k_src c) (k_phase c) t u \<Longrightarrow> accepts c t u"
proof (induction rule: has_type.induct)
  case (ty_attr b name a)
  then show ?case by (rule accepts_attr)
next
  case (ty_index b m key)
  then show ?case by (rule accepts_index)
next
  case (ty_size b t)
  then show ?case by (intro accepts_node [where us = "[t]"]) (auto simp: accepts_simps)
next
  case (ty_method b t x m)
  then show ?case by (intro accepts_node [where us = "[t, Ty_Str]"]) (auto simp: accepts_simps)
next
  case (ty_not t)
  then show ?case by (intro accepts_node [where us = "[Ty_Bool]"]) (auto simp: accepts_simps)
next
  case (ty_and l r)
  then show ?case by (intro accepts_node [where us = "[Ty_Bool, Ty_Bool]"]) (auto simp: accepts_simps)
next
  case (ty_or l r)
  then show ?case by (intro accepts_node [where us = "[Ty_Bool, Ty_Bool]"]) (auto simp: accepts_simps)
next
  case (ty_equal l t r u op)
  then show ?case using has_type_not_map [OF ty_equal(1)] has_type_not_map [OF ty_equal(2)]
    by (intro accepts_node [where us = "[t, u]"]) (auto simp: accepts_simps)
next
  case (ty_order l r op)
  then show ?case by (intro accepts_node [where us = "[Ty_Int, Ty_Int]"]) (auto simp: accepts_simps)
next
  case (ty_in l t es)
  then show ?case using has_type_not_map [OF ty_in.hyps(1)] by (intro accepts_in) auto
next
  case (ty_ternary b x t y u v)
  then show ?case
    by (intro accepts_node [where us = "[Ty_Bool, t, u]"])
      (simp_all, auto simp: accepts_simps eval_nat_numeral is_scalar_ty_def)
next
  case (ty_list es t)
  show ?case
  proof (rule accepts_node [where us = "replicate (length es) t"])
    show "list_all2 (accepts c) (children (T_List es)) (replicate (length es) t)"
      using ty_list by (auto simp: list_all2_conv_all_nth)
    show "yields (\<lambda>x. ni_ty x = Ty_List) (top_info c fb (T_List es) iss st)"
      if "list_all2 (\<lambda>js u. ni_ty (last js) = u) iss (replicate (length es) t)" for fb iss st
    proof -
      from that have "\<forall>js \<in> set iss. ni_ty (last js) = t" by (auto simp: list_all2_conv_all_nth in_set_conv_nth)
      with ty_list.hyps have "list_ty (map last iss) = Inr Ty_List"
        by (cases iss) (auto simp: list_ty_def find_None_iff split: option.split)
      then show ?thesis by (simp add: plain_def info_def)
    qed
  qed
qed (auto intro!: accepts_node [where us = "[]"] simp: info_def)

lemma path_loop_limit: "tree_path_loop src name buf cursor seg cur first \<noteq> Inl (TooManyAttrSlots n)"
proof (induction cur arbitrary: buf cursor seg first)
  case (T_Field b n2)
  show ?case by (subst tree_path_loop.simps) (use T_Field.IH in \<open>auto split: option.split\<close>)
qed (subst tree_path_loop.simps, simp split: option.split)+

lemmas limit_simps = and_then_def plain_def expect_info_def call_ty_def bin_ty_def unify_ty_def list_ty_def
  namespace_or_error_def field_info_def index_info_def tree_intern_def ok_or_def tree_path_def path_loop_limit

lemma tree_check_limit:
  "tree_check c fb t st = Inl (TooManyAttrSlots n) \<Longrightarrow> n = max_attr_slots (k_limits c)"
  "trees_check c fb ts st = Inl (TooManyAttrSlots n) \<Longrightarrow> n = max_attr_slots (k_limits c)"
proof (induction c fb t st and c fb ts st rule: tree_check_trees_check.induct)
  case (1 c fb t st)
  have "n = max_attr_slots (k_limits c)" if "top_info c fb t iss st = Inl (TooManyAttrSlots n)" for iss st
    using that by (cases t) (auto simp: limit_simps
        split: if_splits sum.splits option.splits prod.splits tree.splits list.splits)
  with 1 show ?case by (auto simp: tree_check.simps [of c fb t] and_then_def split: sum.splits)
next
  case (3 c fb t ts st)
  then show ?case by (auto simp: and_then_def split: sum.splits)
qed simp

section \<open>The checker decides typing\<close>


definition demo_tree :: tree where
  "demo_tree = T_Bin BinOp_Eq (T_Call (T_Field (T_Ident (mk_span 0 7)) (mk_span 8 14)) Method_Size []) (T_Int 3)"

definition demo_checked :: checked where
  "demo_checked = \<lparr>ck_ast = demo_ast, ck_types = [Ty_Map, Ty_Str, Ty_Int, Ty_Int, Ty_Bool],
     ck_slots = [Scalar RequestMethod], ck_node_slot = [NO_SLOT, 0, NO_SLOT, NO_SLOT, NO_SLOT],
     ck_phase = RequestHeaders, ck_result = Ty_Bool, ck_strings = []\<rparr>"

lemma demo_arena: "arena_of demo_tree demo_ast"
  by (simp add: arena_of_def demo_tree_def demo_ast_def)

lemma demo_check: "check demo_ast [] demo_src_text RequestHeaders limits_defaults = Inr demo_checked"
  by code_simp


text \<open>
  The single forward pass of \<^verbatim>\<open>check\<close> over the arena, with its arrays of types, start offsets,
  slots and maps indexed by node, computes exactly what a recursive type checker computes on the
  expression tree the arena lays out: it fails with the same error, or it succeeds with the same
  type and slot for every node, the same slot table, the same string arena and the same result
  type.
\<close>

theorem check_equals_tree_check:
  assumes "arena_of t a" and "n_nodes t \<le> usize_max"
  shows "check a strings src phase limits = tree_checked a t strings src phase limits"
  using assms by (rule check_tree)

theorem check_equals_tree_check_witness:
  "arena_of demo_tree demo_ast \<and>
   tree_checked demo_ast demo_tree [] demo_src_text RequestHeaders limits_defaults = Inr demo_checked"
  using check_equals_tree_check [OF demo_arena,
    where strings = "[]" and src = demo_src_text and phase = RequestHeaders and limits = limits_defaults] demo_arena demo_check
  by (simp add: demo_tree_def usize_max_def)

section \<open>The phase gate\<close>

definition ref_available :: "phase \<Rightarrow> attr_ref \<Rightarrow> bool" where
  "ref_available ph r \<longleftrightarrow>
     (case r of Scalar a \<Rightarrow> attr_available_in a ph | Field m _ \<Rightarrow> phase_index (map_from_phase m) \<le> phase_index ph)"

definition gated :: "kctx \<Rightarrow> kstate \<Rightarrow> bool" where
  "gated c s \<longleftrightarrow> list_all (ref_available (k_phase c)) (k_slots s)"

lemma intern_gated:
  assumes "intern c want s = Inr (i, s')" and "gated c s" and "ref_available (k_phase c) want"
  shows "gated c s'"
  using assms by (auto simp: intern_def intern_slot_def gated_def and_then_Inr_iff split: option.splits)

lemma resolve_field_gated:
  assumes "resolve_field c i base name s = Inr (t, s')" and "gated c s"
  shows "gated c s'"
proof -
  from assms(1) obtain buf cursor sp' where "(case resolve_path (drop cursor buf) of
      None \<Rightarrow> Inl (UnknownAttribute (sp_start sp') sp')
    | Some entry \<Rightarrow> (case (ae_attr entry, ae_map entry) of
        (Some attr, _) \<Rightarrow>
          if \<not> attr_available_in attr (k_phase c)
          then Inl (NotAvailableInPhase (sp_start sp') attr (k_phase c) (attr_from_phase attr))
          else and_then (intern c (Scalar attr) s) (\<lambda>(slot, s).
            Inr (attr_ty attr, s\<lparr>k_node_slot := set_at (k_node_slot s) i slot\<rparr>))
      | (None, Some m) \<Rightarrow> Inr (Ty_Map, s\<lparr>k_node_map := set_at (k_node_map s) i (Some m)\<rparr>)
      | (None, None) \<Rightarrow> Inl (UnknownAttribute (sp_start sp') sp'))) = Inr (t, s')"
    unfolding resolve_field_def and_then_Inr_iff by (auto simp: and_then_Inr_iff split: if_splits)
  then consider "k_slots s' = k_slots s"
    | attr slot s1 where "attr_available_in attr (k_phase c)" "intern c (Scalar attr) s = Inr (slot, s1)" "k_slots s' = k_slots s1"
    by (force simp: and_then_Inr_iff split: option.splits if_splits)
  then show ?thesis
  proof cases
    case 2
    with intern_gated [OF 2(2) assms(2)] show ?thesis by (simp add: gated_def ref_available_def)
  qed (use assms(2) in \<open>simp add: gated_def\<close>)
qed

lemma resolve_index_gated:
  assumes "resolve_index c i base index s = Inr (t, s')" and "gated c s"
  shows "gated c s'"
proof -
  from assms(1) obtain m key strings slot s1 where "phase_available c (map_from_phase m)"
    "intern c (Field m key) (s\<lparr>k_strings := strings\<rparr>) = Inr (slot, s1)" "k_slots s' = k_slots s1"
    by (fastforce simp: resolve_index_def Let_def and_then_Inr_iff split: if_splits option.splits node.splits prod.splits)
  moreover from this intern_gated [of c "Field m key" "s\<lparr>k_strings := strings\<rparr>"] assms(2) have "gated c s1"
    by (auto simp: gated_def ref_available_def phase_available_def)
  ultimately show ?thesis by (simp add: gated_def)
qed

lemma check_step_gated:
  assumes "check_step c i n s = Inr s'" and "gated c s"
  shows "gated c s'"
proof -
  from assms(1) obtain r s1 where r: "check_node c i n s = Inr (r, s1)" and s': "k_slots s' = k_slots s1"
    by (auto simp: check_step_def and_then_Inr_iff)
  have "gated c s1" using r assms(2)
    by (cases n) (auto simp: pure_def and_then_Inr_iff dest: resolve_field_gated resolve_index_gated)
  then show ?thesis using s' by (simp add: gated_def)
qed

lemma check_loop_gated: "check_loop c i ns s = Inr s' \<Longrightarrow> gated c s \<Longrightarrow> gated c s'"
  by (induction c i ns s rule: check_loop.induct) (auto simp: and_then_Inr_iff dest: check_step_gated)

text \<open>
  The phase gate. Whatever arena it is given, a program the checker admits for a phase
  references only attributes and maps that exist in that phase, and at most
  \<^verbatim>\<open>max_attr_slots\<close> of them.
\<close>

theorem check_phase_gate:
  assumes "check a strings src phase limits = Inr ck"
  shows "ck_phase ck = phase \<and> list_all (ref_available phase) (ck_slots ck) \<and>
    length (ck_slots ck) \<le> max_attr_slots limits"
proof -
  let ?c = "\<lparr>k_ast = a, k_src = src, k_phase = phase, k_limits = limits, k_is_field_base = field_bases (a_nodes a)\<rparr>"
  from assms obtain s where s: "check_loop ?c 0 (a_nodes a) (check_start (length (a_nodes a)) strings) = Inr s"
    and ck: "ck_slots ck = k_slots s" "ck_phase ck = phase" "length (k_slots s) \<le> max_attr_slots limits"
    by (auto simp: check_def and_then_Inr_iff split: if_splits)
  have "gated ?c s" by (rule check_loop_gated [OF s]) (simp add: gated_def check_start_def)
  with ck show ?thesis by (simp add: gated_def)
qed

theorem check_phase_gate_witness:
  "check demo_ast [] demo_src_text RequestHeaders limits_defaults = Inr demo_checked \<and>
   list_all (ref_available RequestHeaders) (ck_slots demo_checked)"
  using check_phase_gate [OF demo_check] demo_check by simp

section \<open>A map-typed expression that is not a path\<close>

text \<open>The policy \<^verbatim>\<open>(connection.tls ? request : request).path\<close>.\<close>

definition ternary_src :: bytes where
  "ternary_src = ''(connection.tls ? request : request).path''"

definition ternary_ast :: ast where
  "ternary_ast =
     \<lparr>a_nodes = [Node_Ident (mk_span 1 11), Node_Field 0 (mk_span 12 15), Node_Ident (mk_span 18 25),
        Node_Ident (mk_span 28 35), Node_Ternary 1 2 3, Node_Field 4 (mk_span 37 41)],
      a_args = [], a_root = 5, a_depth = 4\<rparr>"

text \<open>
  The comment on \<^verbatim>\<open>assemble_path\<close> says that only identifiers and fields are ever typed as maps, so
  that its fallback arm is unreachable. A conditional between two namespaces is typed as a map
  too, and a field access on it ends in that arm: the error carries the offset of the field name
  (37), not the offset of the base (1) that every other \<^verbatim>\<open>NotANamespace\<close> carries.
\<close>

theorem assemble_path_fallback_reached:
  "assemble_path ternary_ast ternary_src 4 (mk_span 37 41) = Inl (NotANamespace 37) \<and>
   check ternary_ast [] ternary_src RequestHeaders limits_defaults = Inl (NotANamespace 37)"
  by code_simp

end
