(* ===== verification/Policy_Sem.thy ===== *)
theory Policy_Sem
  imports Policy_Gen Policy_Safety Policy_Types
begin

text \<open>
  The meaning of a policy expression on a request, defined on its tree, and what it means for a
  stretch of bytecode to implement an expression: executed on any operand stack it pushes the
  value of the expression, or fails with a type error exactly if the expression has no value.
\<close>

section \<open>Meaning of expressions\<close>

definition str_at :: "bytes \<Rightarrow> span \<Rightarrow> bytes" where
  "str_at strings s = slice_of strings (sp_start s) (span_len s)"

fun lit_val :: "bytes \<Rightarrow> tree \<Rightarrow> val option" where
  "lit_val strings (T_Bool b) = Some (V_Bool b)"
| "lit_val strings (T_Int v) = Some (V_Int v)"
| "lit_val strings (T_Str s) = Some (V_Str (str_at strings s))"
| "lit_val strings T_Null = Some V_Null"
| "lit_val strings _ = None"

fun cmp_sem :: "bin_op \<Rightarrow> val \<Rightarrow> val \<Rightarrow> val option" where
  "cmp_sem BinOp_Eq v w = Some (V_Bool (v = w))"
| "cmp_sem BinOp_Ne v w = Some (V_Bool (v \<noteq> w))"
| "cmp_sem BinOp_Lt v w = int_sem (<) v w"
| "cmp_sem BinOp_Le v w = int_sem (\<le>) v w"
| "cmp_sem BinOp_Gt v w = int_sem (>) v w"
| "cmp_sem BinOp_Ge v w = int_sem (\<ge>) v w"
| "cmp_sem BinOp_In v w = None"

fun method_sem :: "'r crates \<Rightarrow> meth \<Rightarrow> val \<Rightarrow> val \<Rightarrow> val option" where
  "method_sem ext Method_StartsWith v w = str_sem starts_with v w"
| "method_sem ext Method_EndsWith v w = str_sem ends_with v w"
| "method_sem ext Method_Contains v w = str_sem (\<lambda>a b. memmem_find ext a b \<noteq> None) v w"
| "method_sem ext Method_EqualsIgnoreCase v w = str_sem ascii_eq_ignore_case v w"
| "method_sem ext Method_StartsWithIgnoreCase v w = str_sem ascii_starts_with_ignore_case v w"
| "method_sem ext _ v w = None"

definition field_val :: "attr_source \<Rightarrow> map_id \<Rightarrow> bytes \<Rightarrow> val" where
  "field_val asrc m key =
     (case field asrc m (if map_lowercase_keys m then map to_ascii_lowercase key else key) of
        Present b \<Rightarrow> V_Str b | _ \<Rightarrow> V_Null)"

text \<open>What an expression is evaluated in: the third-party crates, the size limit regexes are built
  under, the source text, the decoded string literals and the request.\<close>

record 'r scene =
  z_ext :: "'r crates"
  z_regex_size :: nat
  z_src :: bytes
  z_strings :: bytes
  z_request :: attr_source

definition matches_sem :: "'r scene \<Rightarrow> bytes \<Rightarrow> val \<Rightarrow> val option" where
  "matches_sem z pattern v =
     (case regex_build (z_ext z) pattern (z_regex_size z) of
        Inl _ \<Rightarrow> None
      | Inr re \<Rightarrow> match_sem (regex_is_match (z_ext z) re) v)"

fun sem :: "'r scene \<Rightarrow> tree \<Rightarrow> val option" where
  "sem z (T_Bool b) = Some (V_Bool b)"
| "sem z (T_Int v) = Some (V_Int v)"
| "sem z (T_Str s) = Some (V_Str (str_at (z_strings z) s))"
| "sem z T_Null = Some V_Null"
| "sem z (T_Ident _) = None"
| "sem z (T_Field b name) =
     Option.bind (dotted (z_src z) (T_Field b name)) (\<lambda>p. map_option (scalar (z_request z)) (attr_from_path p))"
| "sem z (T_Index b k) =
     (case k of
        T_Str s \<Rightarrow>
          Option.bind (dotted (z_src z) b) (\<lambda>p.
            map_option (\<lambda>m. field_val (z_request z) m (str_at (z_strings z) s)) (map_from_path p))
      | _ \<Rightarrow> None)"
| "sem z (T_Call b m ts) =
     (if m = Method_Size
      then (case b of T_List es \<Rightarrow> Some (V_Int (int (length es))) | _ \<Rightarrow> Option.bind (sem z b) size_sem)
      else if m = Method_Matches
      then (case ts of [T_Str s] \<Rightarrow> Option.bind (sem z b) (matches_sem z (str_at (z_strings z) s)) | _ \<Rightarrow> None)
      else (case ts of [x] \<Rightarrow> Option.bind (sem z b) (\<lambda>v. Option.bind (sem z x) (method_sem (z_ext z) m v)) | _ \<Rightarrow> None))"
| "sem z (T_Not t) = Option.bind (sem z t) not_sem"
| "sem z (T_Bin op l r) =
     (if op = BinOp_In
      then (case r of
          T_List es \<Rightarrow> Option.bind (sem z l) (\<lambda>v. Some (V_Bool (Some v \<in> set (map (lit_val (z_strings z)) es))))
        | _ \<Rightarrow> None)
      else Option.bind (sem z l) (\<lambda>v. Option.bind (sem z r) (cmp_sem op v)))"
| "sem z (T_And l r) =
     Option.bind (Option.bind (sem z l) as_bool) (\<lambda>b. if b then sem z r else Some (V_Bool False))"
| "sem z (T_Or l r) =
     Option.bind (Option.bind (sem z l) as_bool) (\<lambda>b. if b then Some (V_Bool True) else sem z r)"
| "sem z (T_Ternary c x y) =
     Option.bind (Option.bind (sem z c) as_bool) (\<lambda>b. if b then sem z x else sem z y)"
| "sem z (T_List _) = None"

lemma cmp_sem_op: "op \<noteq> BinOp_In \<Longrightarrow> bin_sem ext (comparison_op op) v w = cmp_sem op v w \<and> is_bin (comparison_op op)"
  by (cases op) simp_all

lemma method_sem_op:
  "m \<noteq> Method_Size \<Longrightarrow> m \<noteq> Method_Matches \<Longrightarrow>
   bin_sem ext (method_op m) v w = method_sem ext m v w \<and> is_bin (method_op m)"
  by (cases m) simp_all

section \<open>Code that implements an expression\<close>

inductive impl :: "'r scene \<Rightarrow> 'r program \<Rightarrow> tree \<Rightarrow> nat \<Rightarrow> nat \<Rightarrow> bool" for z p where
  impl_leaf: "get (p_ops p) pc = Some (Op_LoadConst n) \<Longrightarrow> const_value p n = lit_val (z_strings z) t \<Longrightarrow>
    is_literal t \<Longrightarrow> impl z p t pc (Suc pc)"
| impl_attr: "get (p_ops p) pc = Some (Op_LoadAttr n) \<Longrightarrow> get (p_slots p) n = Some (Scalar a) \<Longrightarrow>
    dotted (z_src z) (T_Field b name) = Some (attr_path a) \<Longrightarrow> impl z p (T_Field b name) pc (Suc pc)"
| impl_size_list: "get (p_ops p) pc = Some (Op_LoadConst n) \<Longrightarrow> const_value p n = Some (V_Int (int (length es))) \<Longrightarrow>
    impl z p (T_Call (T_List es) Method_Size []) pc (Suc pc)"
| impl_size: "impl z p b pc m \<Longrightarrow> get (p_ops p) m = Some Op_Size \<Longrightarrow> \<forall>es. b \<noteq> T_List es \<Longrightarrow>
    impl z p (T_Call b Method_Size []) pc (Suc m)"
| impl_matches: "impl z p b pc m \<Longrightarrow> get (p_ops p) m = Some (Op_RegexMatch n) \<Longrightarrow> program_regex p n = Some re \<Longrightarrow>
    regex_build (z_ext z) (str_at (z_strings z) s) (z_regex_size z) = Inr re \<Longrightarrow>
    impl z p (T_Call b Method_Matches [T_Str s]) pc (Suc m)"
| impl_method: "impl z p b pc m1 \<Longrightarrow> impl z p x m1 m2 \<Longrightarrow> get (p_ops p) m2 = Some (method_op m) \<Longrightarrow>
    m \<noteq> Method_Size \<Longrightarrow> m \<noteq> Method_Matches \<Longrightarrow> impl z p (T_Call b m [x]) pc (Suc m2)"
| impl_not: "impl z p t pc m \<Longrightarrow> get (p_ops p) m = Some Op_Not \<Longrightarrow> impl z p (T_Not t) pc (Suc m)"
| impl_cmp: "impl z p l pc m1 \<Longrightarrow> impl z p r m1 m2 \<Longrightarrow> get (p_ops p) m2 = Some (comparison_op op) \<Longrightarrow> op \<noteq> BinOp_In \<Longrightarrow>
    impl z p (T_Bin op l r) pc (Suc m2)"
| impl_in: "impl z p l pc m \<Longrightarrow> get (p_ops p) m = Some (Op_InSet n) \<Longrightarrow> list_of p n = Some cs \<Longrightarrow>
    map (const_to_value p) cs = map (lit_val (z_strings z)) es \<Longrightarrow> impl z p (T_Bin BinOp_In l (T_List es)) pc (Suc m)"
| impl_and: "impl z p l pc m \<Longrightarrow> get (p_ops p) m = Some (Op_JumpIfFalse pc') \<Longrightarrow> impl z p r (Suc m) pc' \<Longrightarrow>
    impl z p (T_And l r) pc pc'"
| impl_or: "impl z p l pc m \<Longrightarrow> get (p_ops p) m = Some (Op_JumpIfTrue pc') \<Longrightarrow> impl z p r (Suc m) pc' \<Longrightarrow>
    impl z p (T_Or l r) pc pc'"
| impl_ternary: "impl z p c pc m1 \<Longrightarrow> get (p_ops p) m1 = Some (Op_BranchIfFalse (Suc m2)) \<Longrightarrow> impl z p x (Suc m1) m2 \<Longrightarrow>
    get (p_ops p) m2 = Some (Op_Jump pc') \<Longrightarrow> impl z p y (Suc m2) pc' \<Longrightarrow> impl z p (T_Ternary c x y) pc pc'"

text \<open>From the state \<open>s\<close> the machine runs to \<open>pc'\<close> with the value on top of \<open>vs\<close>, or stops with a
  type error.\<close>

definition goes :: "'r scene \<Rightarrow> 'r program \<Rightarrow> astate \<Rightarrow> val option \<Rightarrow> val list \<Rightarrow> nat \<Rightarrow> bool" where
  "goes z p s r vs pc' \<longleftrightarrow>
     (case r of
        Some v \<Rightarrow> (amove (z_ext z) p (slot_value p (z_request z)))\<^sup>*\<^sup>* s (v # vs, pc')
      | None \<Rightarrow> \<exists>at. aruns (z_ext z) p (slot_value p (z_request z)) s (Inl (TypeError at)))"

lemma goes_done: "goes z p (v # vs, pc') (Some v) vs pc'"
  by (simp add: goes_def)

lemma goes_bind:
  assumes "goes z p s r vs m" and "\<And>v. r = Some v \<Longrightarrow> goes z p (v # vs, m) (f v) ws pc'"
  shows "goes z p s (Option.bind r f) ws pc'"
proof (cases r)
  case (Some v)
  with assms(1) have "(amove (z_ext z) p (slot_value p (z_request z)))\<^sup>*\<^sup>* s (v # vs, m)" by (simp add: goes_def)
  with assms(2) [OF Some] Some show ?thesis
    by (cases "f v") (auto simp: goes_def intro: aruns_moves)
qed (use assms in \<open>simp add: goes_def\<close>)

lemma goes_step:
  assumes "get (p_ops p) pc = Some op" and "astep (z_ext z) p (slot_value p (z_request z)) op pc vs = Inr (Inr s')"
    and "goes z p s' r ws pc'"
  shows "goes z p (vs, pc) r ws pc'"
proof -
  have "amove (z_ext z) p (slot_value p (z_request z)) (vs, pc) s'" using amove assms(1,2) by metis
  with assms(3) show ?thesis
    by (cases r) (auto simp: goes_def intro: aruns_move converse_rtranclp_into_rtranclp)
qed

lemma goes_op:
  assumes "get (p_ops p) pc = Some op"
    and "astep (z_ext z) p (slot_value p (z_request z)) op pc vs =
      and_then (or_type_error pc x) (\<lambda>w. Inr (Inr (w # ws, Suc pc)))"
  shows "goes z p (vs, pc) x ws (Suc pc)"
proof (cases x)
  case None
  then have "aruns (z_ext z) p (slot_value p (z_request z)) (vs, pc) (Inl (TypeError (to_u16 pc)))"
    using assms by (subst aruns_unfold [OF assms(1)]) (simp add: or_type_error_def)
  with None show ?thesis unfolding goes_def by auto
next
  case (Some v)
  with assms(2) have "astep (z_ext z) p (slot_value p (z_request z)) op pc vs = Inr (Inr (v # ws, Suc pc))"
    by (simp add: or_type_error_def)
  from goes_step [OF assms(1) this goes_done] Some show ?thesis by simp
qed

lemma goes_un:
  assumes "goes z p s r vs m" and "get (p_ops p) m = Some op" and "\<And>v. un_sem (z_ext z) p op v = f v"
    and "op = Op_Size \<or> op = Op_Not \<or> (\<exists>n. op = Op_RegexMatch n \<or> op = Op_InSet n)"
  shows "goes z p s (Option.bind r f) vs (Suc m)"
  by (rule goes_bind [OF assms(1)], rule goes_op [OF assms(2)]) (use assms(3,4) in \<open>auto simp: astep_def\<close>)

lemma goes_bin:
  assumes "goes z p s r vs m1" and "\<And>v. goes z p (v # vs, m1) r' (v # vs) m2" and "get (p_ops p) m2 = Some op"
    and "\<And>v w. bin_sem (z_ext z) op v w = f v w" and "is_bin op"
  shows "goes z p s (Option.bind r (\<lambda>v. Option.bind r' (f v))) vs (Suc m2)"
proof (rule goes_bind [OF assms(1)], rule goes_bind [OF assms(2)], rule goes_op [OF assms(3)])
  show "astep (z_ext z) p (slot_value p (z_request z)) op m2 (w # v # vs) =
      and_then (or_type_error m2 (f v w)) (\<lambda>w. Inr (Inr (w # vs, Suc m2)))" for v w
    using assms(4,5) by (cases op) (auto simp: astep_def is_bin_def)
qed

text \<open>A conditional jump on the value on top of the stack.\<close>

lemma goes_jump:
  assumes "goes z p s r vs m" and "get (p_ops p) m = Some op"
    and "\<And>v. as_bool v = None \<Longrightarrow> astep (z_ext z) p (slot_value p (z_request z)) op m (v # vs) = Inl (TypeError (to_u16 m))"
    and "\<And>b. \<exists>s'. astep (z_ext z) p (slot_value p (z_request z)) op m (V_Bool b # vs) = Inr (Inr s') \<and> goes z p s' (f b) vs pc'"
  shows "goes z p s (Option.bind (Option.bind r as_bool) f) vs pc'"
proof -
  have "goes z p s (Option.bind r (\<lambda>v. Option.bind (as_bool v) f)) vs pc'"
  proof (rule goes_bind [OF assms(1)])
    fix v
    show "goes z p (v # vs, m) (Option.bind (as_bool v) f) vs pc'"
    proof (cases "as_bool v")
      case None
      with assms(3) have "aruns (z_ext z) p (slot_value p (z_request z)) (v # vs, m) (Inl (TypeError (to_u16 m)))"
        by (subst aruns_unfold [OF assms(2)]) simp
      with None show ?thesis unfolding goes_def by auto
    next
      case (Some b)
      then have v: "v = V_Bool b" by (cases v) auto
      from assms(4) [of b] obtain s' where "astep (z_ext z) p (slot_value p (z_request z)) op m (V_Bool b # vs) = Inr (Inr s')"
        "goes z p s' (f b) vs pc'" by blast
      from goes_step [OF assms(2) this] v show ?thesis by simp
    qed
  qed
  then show ?thesis by (simp add: bind_assoc)
qed

lemma set_map_filter_iff: "v \<in> set (List.map_filter f cs) \<longleftrightarrow> Some v \<in> set (map f cs)"
  by (induction cs) (auto simp: map_filter_simps split: option.split)

lemma in_values: "map f cs = map g es \<Longrightarrow> v \<in> set (List.map_filter f cs) \<longleftrightarrow> Some v \<in> set (map g es)"
  unfolding set_map_filter_iff by simp

lemma impl_goes: "impl z p t pc pc' \<Longrightarrow> goes z p (vs, pc) (sem z t) vs pc'"
proof (induction arbitrary: vs rule: impl.induct)
  case (impl_leaf pc n t)
  from impl_leaf(2,3) have v: "const_value p n = sem z t" by (cases t) auto
  with impl_leaf(3) obtain v where "sem z t = Some v" by (cases t) auto
  with v show ?case using impl_leaf(1) by (intro goes_step [OF impl_leaf(1)]) (auto simp: astep_def intro: goes_done)
next
  case (impl_attr pc n a b name)
  then have "sem z (T_Field b name) = Some (slot_value p (z_request z) n)"
    using attr_from_path_path [of a] by (simp add: slot_value_def)
  then show ?case using goes_step [OF impl_attr(1) _ goes_done] by (simp add: astep_def)
next
  case (impl_size_list pc n es)
  then show ?case by (intro goes_step [OF impl_size_list(1)]) (auto simp: astep_def intro: goes_done)
next
  case (impl_size b pc m)
  have "goes z p (vs, pc) (Option.bind (sem z b) size_sem) vs (Suc m)"
    by (rule goes_un [OF impl_size.IH impl_size.hyps(2)]) simp_all
  moreover have "sem z (T_Call b Method_Size []) = Option.bind (sem z b) size_sem"
    using impl_size.hyps(3) by (cases b) simp_all
  ultimately show ?case by simp
next
  case (impl_matches b pc m n re s)
  have "goes z p (vs, pc) (Option.bind (sem z b) (match_sem (regex_is_match (z_ext z) re))) vs (Suc m)"
    by (rule goes_un [OF impl_matches.IH impl_matches.hyps(2)]) (use impl_matches.hyps(3) in simp_all)
  moreover have "matches_sem z (str_at (z_strings z) s) = match_sem (regex_is_match (z_ext z) re)"
    using impl_matches.hyps(4) by (simp add: matches_sem_def fun_eq_iff)
  ultimately show ?case by simp
next
  case (impl_method b pc m1 x m2 m)
  have "goes z p (vs, pc) (Option.bind (sem z b) (\<lambda>v. Option.bind (sem z x) (method_sem (z_ext z) m v))) vs (Suc m2)"
    by (rule goes_bin [OF impl_method.IH impl_method.hyps(3)]) (use impl_method.hyps(4,5) method_sem_op in auto)
  with impl_method.hyps(4,5) show ?case by simp
next
  case (impl_not t pc m)
  have "goes z p (vs, pc) (Option.bind (sem z t) not_sem) vs (Suc m)"
    by (rule goes_un [OF impl_not.IH impl_not.hyps(2)]) simp_all
  then show ?case by simp
next
  case (impl_cmp l pc m1 r m2 op)
  have "goes z p (vs, pc) (Option.bind (sem z l) (\<lambda>v. Option.bind (sem z r) (cmp_sem op v))) vs (Suc m2)"
    by (rule goes_bin [OF impl_cmp.IH impl_cmp.hyps(3)]) (use impl_cmp.hyps(4) cmp_sem_op in auto)
  with impl_cmp.hyps(4) show ?case by simp
next
  case (impl_in l pc m n cs es)
  have "goes z p (vs, pc) (Option.bind (sem z l) (\<lambda>v. Some (elem_sem p cs v))) vs (Suc m)"
    by (rule goes_un [OF impl_in.IH impl_in.hyps(2)]) (use impl_in.hyps(3) in simp_all)
  then show ?case using in_values [OF impl_in.hyps(4)] by (simp add: elem_sem_def)
next
  case (impl_and l pc m pc' r)
  have "goes z p (vs, pc) (Option.bind (Option.bind (sem z l) as_bool) (\<lambda>b. if b then sem z r else Some (V_Bool False))) vs pc'"
    by (rule goes_jump [OF impl_and.IH(1) impl_and.hyps(2)])
      (use impl_and.IH(2) goes_done in \<open>auto simp: astep_def or_type_error_def\<close>)
  then show ?case by simp
next
  case (impl_or l pc m pc' r)
  have "goes z p (vs, pc) (Option.bind (Option.bind (sem z l) as_bool) (\<lambda>b. if b then Some (V_Bool True) else sem z r)) vs pc'"
    by (rule goes_jump [OF impl_or.IH(1) impl_or.hyps(2)])
      (use impl_or.IH(2) goes_done in \<open>auto simp: astep_def or_type_error_def\<close>)
  then show ?case by simp
next
  case (impl_ternary c pc m1 m2 x pc' y)
  have x: "goes z p (vs, Suc m1) (sem z x) vs pc'"
  proof -
    have "goes z p (vs, Suc m1) (Option.bind (sem z x) Some) vs pc'"
      by (rule goes_bind [OF impl_ternary.IH(2)], rule goes_step [OF impl_ternary.hyps(4)])
        (auto simp: astep_def intro: goes_done)
    then show ?thesis by simp
  qed
  have "goes z p (vs, pc) (Option.bind (Option.bind (sem z c) as_bool) (\<lambda>b. if b then sem z x else sem z y)) vs pc'"
    by (rule goes_jump [OF impl_ternary.IH(1) impl_ternary.hyps(2)])
      (use impl_ternary.IH(3) x in \<open>auto simp: astep_def or_type_error_def\<close>)
  then show ?case by simp
qed

end
