(* ===== verification/Policy_Correct.thy ===== *)
theory Policy_Correct
  imports Policy_Sem
begin

text \<open>
  Correctness of the compiler: on the fragment it supports, the bytecode of an accepted policy
  computes the meaning of the policy. Outside the fragment the development shows where the compiler
  refuses, and where it admits a program with another meaning.
\<close>

section \<open>The supported fragment\<close>

text \<open>Lists stand to the right of \<^verbatim>\<open>in\<close> or left of \<^verbatim>\<open>.size()\<close> and hold literals only; maps are not
  indexed.\<close>

fun lit_list :: "tree \<Rightarrow> bool" where
  "lit_list (T_List es) = list_all is_literal es"
| "lit_list _ = False"

fun is_path :: "tree \<Rightarrow> bool" where
  "is_path (T_Ident _) = True"
| "is_path (T_Field b _) = is_path b"
| "is_path _ = False"

fun frag :: "tree \<Rightarrow> bool" where
  "frag (T_Ident _) = False"
| "frag (T_Field b _) = is_path b"
| "frag (T_Index _ _) = False"
| "frag (T_List _) = False"
| "frag (T_Call b m ts) =
     (if m = Method_Size then ts = [] \<and> (frag b \<or> lit_list b)
      else frag b \<and> (case ts of [x] \<Rightarrow> if m = Method_Matches then is_str_tree x else frag x | _ \<Rightarrow> False))"
| "frag (T_Not t) = frag t"
| "frag (T_Bin op l r) = (frag l \<and> (if op = BinOp_In then lit_list r else frag r))"
| "frag (T_And l r) = (frag l \<and> frag r)"
| "frag (T_Or l r) = (frag l \<and> frag r)"
| "frag (T_Ternary c x y) = (frag c \<and> frag x \<and> frag y)"
| "frag _ = True"

section \<open>Tables only grow\<close>

definition grows :: "'r cstate \<Rightarrow> 'r cstate \<Rightarrow> bool" where
  "grows g g' \<longleftrightarrow> (\<exists>xs ys zs. g_consts g' = g_consts g @ xs \<and> g_list_elems g' = g_list_elems g @ ys \<and>
     g_regexes g' = g_regexes g @ zs)"

lemma grows_refl [simp]: "grows g g"
  by (simp add: grows_def)

lemma grows_trans: "grows g g' \<Longrightarrow> grows g' g'' \<Longrightarrow> grows g g''"
  by (auto simp: grows_def)

lemma grows_code [simp]: "grows g (g'\<lparr>g_code := x\<rparr>) \<longleftrightarrow> grows g g'" "grows (g\<lparr>g_code := x\<rparr>) g' \<longleftrightarrow> grows g g'"
  by (simp_all add: grows_def)

text \<open>The tables of the program continue those of the state.\<close>

definition carries :: "'r cctx \<Rightarrow> 'r program \<Rightarrow> 'r cstate \<Rightarrow> bool" where
  "carries c p g \<longleftrightarrow>
     (\<exists>xs ys zs. p_consts p = g_consts g @ xs \<and> p_list_elems p = g_list_elems g @ ys \<and> p_regexes p = g_regexes g @ zs) \<and>
     p_strings p = ck_strings (m_checked c) \<and> p_slots p = ck_slots (m_checked c)"

lemma carries_grows: "grows g g' \<Longrightarrow> carries c p g' \<Longrightarrow> carries c p g"
  by (auto simp: grows_def carries_def)

lemma carries_code [simp]: "carries c p (g\<lparr>g_code := x\<rparr>) \<longleftrightarrow> carries c p g"
  by (simp add: carries_def)

fun leaf :: "const \<Rightarrow> bool" where
  "leaf (Const_List _ _) = False"
| "leaf _ = True"

definition tab_ok :: "'r cctx \<Rightarrow> nat \<Rightarrow> 'r cstate \<Rightarrow> bool" where
  "tab_ok c k g \<longleftrightarrow>
     (\<forall>f l. Const_List f l \<in> set (g_consts g) \<longrightarrow> f + l \<le> length (g_list_elems g)) \<and>
     list_all leaf (g_list_elems g) \<and> length (g_list_elems g) \<le> k \<and> k \<le> u16_max \<and>
     (\<forall>r \<in> set (g_regexes g). regex_build (m_ext c) (regex_as_str (m_ext c) r) (max_regex_size (m_limits c)) = Inr r) \<and>
     length (g_consts g) \<le> max_consts (m_limits c) \<and> max_consts (m_limits c) \<le> u16_max \<and>
     length (g_regexes g) \<le> max_regex (m_limits c) \<and> max_regex (m_limits c) \<le> u16_max"

lemma tab_ok_code [simp]: "tab_ok c k (g\<lparr>g_code := x\<rparr>) \<longleftrightarrow> tab_ok c k g"
  by (simp add: tab_ok_def)

lemma tab_ok_mono: "tab_ok c k g \<Longrightarrow> k \<le> k' \<Longrightarrow> k' \<le> u16_max \<Longrightarrow> tab_ok c k' g"
  by (auto simp: tab_ok_def)

section \<open>Interning\<close>

lemma slice_range_of: "slice_range = slice_of"
  by (simp add: fun_eq_iff slice_range_def slice_of_def)

lemma const_range_of: "const_range = elems_of"
  by (simp add: fun_eq_iff const_range_def elems_of_def)

lemma const_eq_leaf:
  assumes "const_eq (Suc n) a b (p_strings p) elems" and "leaf a"
  shows "leaf b" and "const_to_value p a = const_to_value p b"
  using assms by (cases a; cases b; simp add: const_str_def slice_range_of)+

lemma leaf_elems: "list_all leaf elems \<Longrightarrow> list_all leaf (elems_of elems f l)"
  by (auto simp: elems_of_def get_range_def list_all_iff dest: in_set_takeD in_set_dropD split: option.split)

lemma const_eq_list:
  assumes "const_eq CONST_EQ_FUEL a (Const_List f l) (p_strings p) elems" and "list_all leaf elems"
  obtains f' l' where "a = Const_List f' l'"
    "map (const_to_value p) (elems_of elems f' l') = map (const_to_value p) (elems_of elems f l)"
proof -
  from assms(1) obtain f' l' where a: "a = Const_List f' l'" "length (elems_of elems f' l') = length (elems_of elems f l)"
    "list_all (\<lambda>(x, y). const_eq 1 x y (p_strings p) elems) (zip (elems_of elems f' l') (elems_of elems f l))"
    by (cases a) (auto simp: CONST_EQ_FUEL_def numeral_2_eq_2 Let_def)
  have "map (const_to_value p) (elems_of elems f' l') = map (const_to_value p) (elems_of elems f l)"
  proof (rule nth_equalityI)
    fix k assume "k < length (map (const_to_value p) (elems_of elems f' l'))"
    then have k: "k < length (elems_of elems f' l')" by simp
    then have "const_eq (Suc 0) (elems_of elems f' l' ! k) (elems_of elems f l ! k) (p_strings p) elems"
      using a(2,3) by (simp add: list_all_length)
    moreover have "leaf (elems_of elems f' l' ! k)" using leaf_elems [OF assms(2)] k by (simp add: list_all_length)
    ultimately show "map (const_to_value p) (elems_of elems f' l') ! k = map (const_to_value p) (elems_of elems f l) ! k"
      using const_eq_leaf(2) k a(2) by simp
  qed (use a(2) in simp)
  with a(1) show ?thesis by (rule that)
qed

lemma const_eq_other: "leaf b \<Longrightarrow> const_eq (Suc n) a b strings elems \<Longrightarrow> leaf a"
  by (cases a; cases b) auto

lemma position_Some: "position P xs = Some i \<Longrightarrow> i < length xs \<and> P (xs ! i)"
  by (induction xs arbitrary: i) (auto split: if_splits)

text \<open>The two outcomes of interning: an equal constant was there, or the constant is new.\<close>

lemma intern_const_cases:
  assumes "intern_const c w g = Inr (n, g')" and "tab_ok c k g"
  obtains (old) "g' = g" "n < length (g_consts g)"
      "const_eq CONST_EQ_FUEL (g_consts g ! n) w (ck_strings (m_checked c)) (g_list_elems g)"
    | (new) "g' = g\<lparr>g_consts := g_consts g @ [w]\<rparr>" "n = length (g_consts g)" "n < max_consts (m_limits c)"
proof (cases "position (\<lambda>x. const_eq CONST_EQ_FUEL x w (ck_strings (m_checked c)) (g_list_elems g)) (g_consts g)")
  case None
  with assms have "n = to_u16 (length (g_consts g))" "length (g_consts g) < max_consts (m_limits c)"
    "g' = g\<lparr>g_consts := g_consts g @ [w]\<rparr>" by (auto simp: intern_const_def split: if_splits)
  with assms(2) new show ?thesis by (simp add: tab_ok_def to_u16_def u16_max_def)
next
  case (Some i)
  note i = position_Some [OF Some]
  with Some assms(1) have "n = to_u16 i" "g' = g" by (auto simp: intern_const_def)
  moreover have "to_u16 i = i" using i assms(2) by (simp add: tab_ok_def to_u16_def u16_max_def)
  ultimately show ?thesis using old i by simp
qed

lemma carries_const:
  "carries c p g \<Longrightarrow> n < length (g_consts g) \<Longrightarrow> get (p_consts p) n = Some (g_consts g ! n)"
  by (auto simp: carries_def nth_append)

lemma intern_grows: "intern_const c w g = Inr (n, g') \<Longrightarrow> tab_ok c k g \<Longrightarrow> grows g g' \<and> g_code g' = g_code g"
  by (erule intern_const_cases) (auto simp: grows_def)

lemma intern_tab:
  assumes "intern_const c w g = Inr (n, g')" and "tab_ok c k g"
    and "\<And>f l. w = Const_List f l \<Longrightarrow> f + l \<le> length (g_list_elems g)"
  shows "tab_ok c k g'"
  using assms(1,2) by (cases rule: intern_const_cases) (use assms(2,3) in \<open>auto simp: tab_ok_def\<close>)

lemma intern_leaf:
  assumes "intern_const c w g = Inr (n, g')" and "tab_ok c k g" and "leaf w" and "carries c p g'"
  shows "const_value p n = const_to_value p w"
  using assms(1,2)
proof (cases rule: intern_const_cases)
  case old
  have p: "p_strings p = ck_strings (m_checked c)" using assms(4) by (simp add: carries_def)
  have "leaf (g_consts g ! n)" using const_eq_other [OF assms(3)] old(3) by (simp add: CONST_EQ_FUEL_def numeral_2_eq_2)
  with old p have "const_to_value p (g_consts g ! n) = const_to_value p w"
    using const_eq_leaf(2) [of 1 "g_consts g ! n" w p] by (simp add: CONST_EQ_FUEL_def numeral_2_eq_2)
  moreover have "get (p_consts p) n = Some (g_consts g ! n)" using carries_const assms(4) old by auto
  ultimately show ?thesis by (simp add: const_value_def)
next
  case new
  then have "get (p_consts p) n = Some w" using carries_const [OF assms(4), of n] by simp
  then show ?thesis by (simp add: const_value_def)
qed

lemma elems_of_append: "f + l \<le> length xs \<Longrightarrow> length xs \<le> usize_max \<Longrightarrow> elems_of (xs @ ys) f l = elems_of xs f l"
  by (simp add: elems_of_def get_range_def sat_add_def)

lemma intern_list:
  assumes "intern_const c (Const_List f l) g = Inr (n, g')" and tab: "tab_ok c k g" and fl: "f + l \<le> length (g_list_elems g)"
    and car: "carries c p g'"
  shows "\<exists>cs. list_of p n = Some cs \<and> map (const_to_value p) cs = map (const_to_value p) (elems_of (g_list_elems g) f l)"
proof -
  obtain ys where ys: "p_list_elems p = g_list_elems g @ ys"
    using carries_grows [OF _ car, of g] intern_grows [OF assms(1) tab] by (auto simp: carries_def)
  have small: "length (g_list_elems g) \<le> usize_max" using tab by (simp add: tab_ok_def u16_max_def usize_max_def)
  note at = carries_const [OF car, of n]
  show ?thesis using assms(1) tab
  proof (cases rule: intern_const_cases)
    case old
    have "p_strings p = ck_strings (m_checked c)" using car by (simp add: carries_def)
    then obtain f' l' where a: "g_consts g ! n = Const_List f' l'"
      "map (const_to_value p) (elems_of (g_list_elems g) f' l') = map (const_to_value p) (elems_of (g_list_elems g) f l)"
      using const_eq_list [of "g_consts g ! n" f l p "g_list_elems g"] old(3) tab unfolding tab_ok_def by metis
    have "f' + l' \<le> length (g_list_elems g)" using tab old(2) a(1) nth_mem [OF old(2)] by (simp add: tab_ok_def)
    then have "list_of p n = Some (elems_of (g_list_elems g) f' l')"
      using at old a(1) ys elems_of_append small by (simp add: list_of_def const_range_of)
    with a(2) show ?thesis by auto
  next
    case new
    then show ?thesis using at ys fl small by (simp add: list_of_def const_range_of elems_of_append)
  qed
qed

definition regex_names :: "'r crates \<Rightarrow> bool" where
  "regex_names ext \<longleftrightarrow> (\<forall>pattern limit re. regex_build ext pattern limit = Inr re \<longrightarrow> regex_as_str ext re = pattern)"

lemma intern_regex_ok:
  assumes "intern_regex c pattern at g = Inr (n, g')" and tab: "tab_ok c k g" and "regex_names (m_ext c)"
  shows "tab_ok c k g'" and "grows g g'" and "g_code g' = g_code g"
    and "carries c p g' \<Longrightarrow> \<exists>re. program_regex p n = Some re \<and>
      regex_build (m_ext c) pattern (max_regex_size (m_limits c)) = Inr re"
proof -
  consider (old) "g' = g" "n < length (g_regexes g)" "regex_as_str (m_ext c) (g_regexes g ! n) = pattern"
    | (new) re where "g' = g\<lparr>g_regexes := g_regexes g @ [re]\<rparr>" "n = length (g_regexes g)"
        "length (g_regexes g) < max_regex (m_limits c)"
        "regex_build (m_ext c) pattern (max_regex_size (m_limits c)) = Inr re"
  proof (cases "position (\<lambda>r. regex_as_str (m_ext c) r = pattern) (g_regexes g)")
    case None
    with assms(1) tab new show ?thesis
      by (auto simp: intern_regex_def and_then_Inr_iff tab_ok_def to_u16_def u16_max_def split: if_splits)
  next
    case (Some i)
    note i = position_Some [OF Some]
    have "to_u16 i = i" using i tab by (simp add: tab_ok_def to_u16_def u16_max_def)
    with Some i assms(1) old show ?thesis by (auto simp: intern_regex_def)
  qed
  note cases = this
  have "regex_build (m_ext c) pattern (max_regex_size (m_limits c)) = Inr (g_regexes g ! n)"
    if "n < length (g_regexes g)" "regex_as_str (m_ext c) (g_regexes g ! n) = pattern"
    using tab that by (auto simp: tab_ok_def)
  with cases show "carries c p g' \<Longrightarrow> \<exists>re. program_regex p n = Some re \<and>
      regex_build (m_ext c) pattern (max_regex_size (m_limits c)) = Inr re"
    by cases (auto simp: carries_def program_regex_def nth_append)
  from cases show "grows g g'" "g_code g' = g_code g" by (cases; auto simp: grows_def)+
  from cases show "tab_ok c k g'" using tab assms(3) by cases (auto simp: tab_ok_def regex_names_def)
qed

section \<open>Segments of code\<close>

definition hole_code :: "hole_kind option \<Rightarrow> op list" where
  "hole_code h = (case h of None \<Rightarrow> [] | Some kind \<Rightarrow> [placeholder_for kind])"

lemma hole_code_simps [simp]: "hole_code None = []" "hole_code (Some kind) = [placeholder_for kind]"
  by (simp_all add: hole_code_def)

text \<open>Wherever a program with the tables of \<open>g\<close> has \<open>seg\<close> at \<open>at\<close>, it implements \<open>t\<close> there.\<close>

definition seg_ok :: "'r cctx \<Rightarrow> 'r scene \<Rightarrow> tree \<Rightarrow> op list \<Rightarrow> nat \<Rightarrow> 'r cstate \<Rightarrow> bool" where
  "seg_ok c z t seg at g \<longleftrightarrow>
     (\<forall>p pre post. carries c p g \<and> p_ops p = pre @ seg @ post \<and> length pre = at \<longrightarrow> impl z p t at (at + length seg))"

lemma seg_okD:
  "seg_ok c z t seg at g \<Longrightarrow> carries c p g \<Longrightarrow> p_ops p = pre @ seg @ post \<Longrightarrow> length pre = at \<Longrightarrow> impl z p t at (at + length seg)"
  unfolding seg_ok_def by blast

lemma seg_ok_grows: "seg_ok c z t seg at g \<Longrightarrow> grows g g' \<Longrightarrow> seg_ok c z t seg at g'"
  unfolding seg_ok_def using carries_grows by blast

lemma seg_ok_code [simp]: "seg_ok c z t seg at (g\<lparr>g_code := x\<rparr>) \<longleftrightarrow> seg_ok c z t seg at g"
  by (simp add: seg_ok_def)

lemma seg_two:
  assumes l: "seg_ok c z l s1 at g" and r: "seg_ok c z r s2 (at + length s1) g"
    and rule: "\<And>p pc m1 m2. impl z p l pc m1 \<Longrightarrow> impl z p r m1 m2 \<Longrightarrow> get (p_ops p) m2 = Some op \<Longrightarrow> impl z p t pc (Suc m2)"
  shows "seg_ok c z t (s1 @ s2 @ [op]) at g"
  unfolding seg_ok_def
proof (intro allI impI)
  fix p pre post
  assume p: "carries c p g \<and> p_ops p = pre @ (s1 @ s2 @ [op]) @ post \<and> length pre = at"
  then have "impl z p l at (at + length s1)" using seg_okD [OF l, of p pre "s2 @ [op] @ post"] by simp
  moreover have "impl z p r (at + length s1) (at + length s1 + length s2)"
    using seg_okD [OF r, of p "pre @ s1" "[op] @ post"] p by simp
  moreover have "get (p_ops p) (at + length s1 + length s2) = Some op"
    using get_append_length [of "pre @ s1 @ s2" op post] p by (simp add: add.assoc)
  ultimately have "impl z p t at (Suc (at + length s1 + length s2))" by (rule rule)
  then show "impl z p t at (at + length (s1 @ s2 @ [op]))" by (simp add: add.assoc)
qed

lemma seg_one:
  assumes l: "seg_ok c z l s1 at g"
    and rule: "\<And>p pc m. carries c p g \<Longrightarrow> impl z p l pc m \<Longrightarrow> get (p_ops p) m = Some op \<Longrightarrow> impl z p t pc (Suc m)"
  shows "seg_ok c z t (s1 @ [op]) at g"
  unfolding seg_ok_def
proof (intro allI impI)
  fix p pre post
  assume p: "carries c p g \<and> p_ops p = pre @ (s1 @ [op]) @ post \<and> length pre = at"
  then have "impl z p l at (at + length s1)" using seg_okD [OF l, of p pre "[op] @ post"] by simp
  moreover have "get (p_ops p) (at + length s1) = Some op" using get_append_length [of "pre @ s1" op post] p by simp
  ultimately have "impl z p t at (Suc (at + length s1))" using p by (intro rule) auto
  then show "impl z p t at (at + length (s1 @ [op]))" by simp
qed

lemma seg_load:
  assumes "\<And>p pc. carries c p g \<Longrightarrow> get (p_ops p) pc = Some op \<Longrightarrow> impl z p t pc (Suc pc)"
  shows "seg_ok c z t [op] at g"
  unfolding seg_ok_def using assms by auto

lemma seg_jump:
  assumes l: "seg_ok c z l s1 at g" and r: "seg_ok c z r s2 (Suc (at + length s1)) g"
    and rule: "\<And>p pc m pc'. impl z p l pc m \<Longrightarrow> get (p_ops p) m = Some (j pc') \<Longrightarrow> impl z p r (Suc m) pc' \<Longrightarrow> impl z p t pc pc'"
  shows "seg_ok c z t (s1 @ [j (Suc (at + length s1 + length s2))] @ s2) at g"
  unfolding seg_ok_def
proof (intro allI impI)
  fix p pre post
  let ?j = "j (Suc (at + length s1 + length s2))"
  assume p: "carries c p g \<and> p_ops p = pre @ (s1 @ [?j] @ s2) @ post \<and> length pre = at"
  then have "impl z p l at (at + length s1)" using seg_okD [OF l, of p pre "[?j] @ s2 @ post"] by simp
  moreover have "impl z p r (Suc (at + length s1)) (Suc (at + length s1) + length s2)"
    using seg_okD [OF r, of p "pre @ s1 @ [?j]" post] p by simp
  moreover have "get (p_ops p) (at + length s1) = Some ?j" using get_append_length [of "pre @ s1" ?j "s2 @ post"] p by simp
  ultimately show "impl z p t at (at + length (s1 @ [?j] @ s2))" using rule [of p at "at + length s1"] by (simp add: add.assoc)
qed

lemma seg_ternary:
  assumes c1: "seg_ok c z b s1 at g" and x: "seg_ok c z x s2 (Suc (at + length s1)) g"
    and y: "seg_ok c z y s3 (Suc (Suc (at + length s1 + length s2))) g"
  shows "seg_ok c z (T_Ternary b x y) (s1 @ [Op_BranchIfFalse (Suc (Suc (at + length s1 + length s2)))] @ s2 @
    [Op_Jump (Suc (Suc (at + length s1 + length s2 + length s3)))] @ s3) at g"
  unfolding seg_ok_def
proof (intro allI impI)
  fix p pre post
  let ?b = "Op_BranchIfFalse (Suc (Suc (at + length s1 + length s2)))"
  let ?j = "Op_Jump (Suc (Suc (at + length s1 + length s2 + length s3)))"
  assume p: "carries c p g \<and> p_ops p = pre @ (s1 @ [?b] @ s2 @ [?j] @ s3) @ post \<and> length pre = at"
  then have "impl z p b at (at + length s1)" using seg_okD [OF c1, of p pre "[?b] @ s2 @ [?j] @ s3 @ post"] by simp
  moreover have "impl z p x (Suc (at + length s1)) (Suc (at + length s1) + length s2)"
    using seg_okD [OF x, of p "pre @ s1 @ [?b]" "[?j] @ s3 @ post"] p by simp
  moreover have "impl z p y (Suc (Suc (at + length s1 + length s2))) (Suc (Suc (at + length s1 + length s2)) + length s3)"
    using seg_okD [OF y, of p "pre @ s1 @ [?b] @ s2 @ [?j]" post] p by simp
  moreover have "get (p_ops p) (at + length s1) = Some ?b"
    using get_append_length [of "pre @ s1" ?b "s2 @ [?j] @ s3 @ post"] p by simp
  moreover have "get (p_ops p) (Suc (at + length s1) + length s2) = Some ?j"
    using get_append_length [of "pre @ s1 @ [?b] @ s2" ?j "s3 @ post"] p by (simp add: add.assoc)
  ultimately show "impl z p (T_Ternary b x y) at (at + length (s1 @ [?b] @ s2 @ [?j] @ s3))"
    using impl_ternary [of z p b at "at + length s1" "Suc (at + length s1) + length s2" x] by (simp add: add.assoc)
qed

section \<open>What the generator emits\<close>

definition slot_of :: "'r cctx \<Rightarrow> nat \<Rightarrow> nat" where
  "slot_of c i = (case get (ck_node_slot (m_checked c)) i of None \<Rightarrow> NO_SLOT | Some slot \<Rightarrow> slot)"

definition attr_of :: "bytes \<Rightarrow> tree \<Rightarrow> attr_id option" where
  "attr_of src t = Option.bind (dotted src t) attr_from_path"

text \<open>The slot table of the checker names, for every path of the tree, the attribute it spells.\<close>

definition slot_ok :: "'r cctx \<Rightarrow> bytes \<Rightarrow> nat \<Rightarrow> tree \<Rightarrow> bool" where
  "slot_ok c src i t \<longleftrightarrow>
     (case t of
        T_Ident _ \<Rightarrow> slot_of c (root_at i t) = NO_SLOT
      | T_Field _ _ \<Rightarrow>
          (case attr_of src t of
             None \<Rightarrow> slot_of c (root_at i t) = NO_SLOT
           | Some a \<Rightarrow> slot_of c (root_at i t) \<noteq> NO_SLOT \<and>
               get (ck_slots (m_checked c)) (slot_of c (root_at i t)) = Some (Scalar a))
      | _ \<Rightarrow> True)"

function slots_ok :: "'r cctx \<Rightarrow> bytes \<Rightarrow> nat \<Rightarrow> tree \<Rightarrow> bool"
  and slotss_ok :: "'r cctx \<Rightarrow> bytes \<Rightarrow> nat \<Rightarrow> tree list \<Rightarrow> bool" where
  "slots_ok c src i t \<longleftrightarrow> slotss_ok c src i (children t) \<and> slot_ok c src i t"
| "slotss_ok c src i [] \<longleftrightarrow> True"
| "slotss_ok c src i (t # ts) \<longleftrightarrow> slots_ok c src i t \<and> slotss_ok c src (i + n_nodes t) ts"
  by pat_completeness auto
termination
  by (relation "measure (\<lambda>x. case x of Inl (c, src, i, t) \<Rightarrow> 2 * n_nodes t | Inr (c, src, i, ts) \<Rightarrow> 2 * ns_nodes ts + 1)")
    (auto simp: n_nodes_children)

declare slots_ok.simps [simp del]

lemma gen_attr_slot:
  "gen_attr c False k g = (if slot_of c k = NO_SLOT then g else push_op (Op_LoadAttr (slot_of c k)) g)"
  by (simp add: gen_attr_def slot_of_def Let_def)

lemma push_op_simps [simp]:
  "g_code (push_op op g) = g_code g @ [op]" "g_consts (push_op op g) = g_consts g"
  "g_list_elems (push_op op g) = g_list_elems g" "g_regexes (push_op op g) = g_regexes g"
  "grows g0 (push_op op g) \<longleftrightarrow> grows g0 g" "grows (push_op op g) g0 \<longleftrightarrow> grows g g0" "tab_ok c k (push_op op g) \<longleftrightarrow> tab_ok c k g"
  "seg_ok c z t seg at (push_op op g) \<longleftrightarrow> seg_ok c z t seg at g" "carries c p (push_op op g) \<longleftrightarrow> carries c p g"
  by (simp_all add: push_op_def)

lemma gen_open_simps [simp]:
  "g_code (snd (gen_open h g)) = g_code g @ hole_code h" "g_consts (snd (gen_open h g)) = g_consts g"
  "g_list_elems (snd (gen_open h g)) = g_list_elems g" "g_regexes (snd (gen_open h g)) = g_regexes g"
  "tab_ok c k (snd (gen_open h g)) \<longleftrightarrow> tab_ok c k g" "grows g0 (snd (gen_open h g)) \<longleftrightarrow> grows g0 g"
  "grows (snd (gen_open h g)) g0 \<longleftrightarrow> grows g g0"
  by (cases h; simp add: gen_open_def)+

lemma gen_node_open: "gen_node c k h s t iss g =
  and_then (gen_top c k s t iss (snd (gen_open h g))) (\<lambda>(n, g'). Inr (\<lparr>ci_hole = fst (gen_open h g), ci_const = n\<rparr>, g'))"
  by (simp add: gen_node_def split: prod.split)

lemma gen_hole:
  "gen c i h s t g = Inr (js, g') \<Longrightarrow> ci_hole (hd js) = fst (gen_open h g)"
proof (induction "n_nodes t" arbitrary: i h s t g js g' rule: less_induct)
  case less
  from less.prems obtain iss g1 x where kids: "gens c i (child_holes h t) (child_sups t) (children t) g = Inr (iss, g1)"
    and top: "gen_node c (root_at i t) (top_hole h t) s t iss g1 = Inr (x, g')" and js: "js = concat iss @ [x]"
    by (auto simp: gen.simps [of c i h s t] and_then_Inr_iff)
  show ?case
  proof (cases "children t")
    case Nil
    then show ?thesis using kids top js by (auto simp: top_hole_def gen_node_open and_then_Inr_iff)
  next
    case (Cons b bs)
    then have less': "n_nodes b < n_nodes t" by (simp add: n_nodes_children [of t])
    from kids Cons obtain ks iss' g2 where ks: "gen c i h (hd (child_sups t)) b g = Inr (ks, g2)" "iss = ks # iss'"
      by (auto simp: child_holes_def and_then_Inr_iff)
    have "ks \<noteq> []" using gen_length(1) [OF ks(1)] by (metis n_nodes_pos list.size(3) less_irrefl)
    then show ?thesis using less.hyps [OF less' ks(1)] js ks(2) by simp
  qed
qed

lemma map_path_not_attr: "attr_from_path (map_path m) = None"
  by (cases m) (simp_all add: attr_from_path_def resolve_path_find ATTRS_def)

text \<open>A path that names no attribute emits no code.\<close>

lemma gen_path:
  "base_ok src b \<Longrightarrow> slots_ok c src i b \<Longrightarrow> \<exists>js. gen c i h False b g = Inr (js, snd (gen_open h g))"
proof (induction b)
  case (T_Ident s)
  then show ?case
    by (simp add: gen.simps [of c i h False "T_Ident s"] gen_node_open slots_ok.simps [of c src i "T_Ident s"] slot_ok_def
        top_hole_def gen_attr_slot)
next
  case (T_Field b name)
  have "attr_of src (T_Field b name) = None"
    using T_Field.prems(1) map_path_not_attr by (auto simp: attr_of_def)
  with T_Field.prems have ok: "base_ok src b" "slots_ok c src i b" "slot_of c (root_at i (T_Field b name)) = NO_SLOT"
    by (auto simp: slots_ok.simps [of c src i "T_Field b name"] slot_ok_def)
  from T_Field.IH [OF ok(1,2)] ok(3) show ?case
    by (auto simp: gen.simps [of c i h False "T_Field b name"] child_holes_def top_hole_def gen_node_open gen_attr_slot)
      (simp add: gen_open_def)
qed simp_all

lemma intern_code:
  "intern_const c w g = Inr (n, g') \<Longrightarrow> g_code g' = g_code g"
  "intern_regex c pattern at g = Inr (n, g') \<Longrightarrow> g_code g' = g_code g"
  by (auto simp: intern_const_def intern_regex_def and_then_Inr_iff split: option.splits if_splits)

lemma gen_patch_length [simp]: "length (g_code (gen_patch p t g)) = length (g_code g)"
  by (simp add: gen_patch_def split: option.split)

lemma gen_top_mono: "gen_top c k s t iss g = Inr (n, g') \<Longrightarrow> length (g_code g) \<le> length (g_code g')"
  by (cases t) (auto simp: and_then_Inr_iff gen_leaf_def gen_attr_def gen_size_def gen_matches_def gen_list_def Let_def
      dest!: intern_code split: if_splits tree.splits prod.splits list.splits)

lemma gen_mono:
  "gen c i h s t g = Inr (js, g') \<Longrightarrow> length (g_code g) \<le> length (g_code g')"
  "gens c i hs ss ts g = Inr (iss, g') \<Longrightarrow> length (g_code g) \<le> length (g_code g')"
proof (induction c i h s t g and c i hs ss ts g arbitrary: js g' and iss g' rule: gen_gens.induct)
  case (1 c i h s t g)
  from 1(2) obtain iss g1 n where kids: "gens c i (child_holes h t) (child_sups t) (children t) g = Inr (iss, g1)"
    and top: "gen_top c (root_at i t) s t iss (snd (gen_open (top_hole h t) g1)) = Inr (n, g')"
    by (auto simp: gen.simps [of c i h s t] and_then_Inr_iff gen_node_open)
  from 1(1) [OF kids] gen_top_mono [OF top] show ?case by simp
next
  case (3 c i hs ss t ts g)
  then show ?case by (fastforce simp: and_then_Inr_iff)
qed simp

section \<open>Literals\<close>

lemma gen_suppressed:
  "is_literal e \<Longrightarrow> gen c i h True e g = Inr ([\<lparr>ci_hole = fst (gen_open h g), ci_const = 0\<rparr>], snd (gen_open h g))"
  by (cases e) (simp_all add: gen.simps [of c i h True] top_hole_def gen_node_open gen_leaf_def)

lemma gens_suppressed:
  "list_all is_literal es \<Longrightarrow> \<exists>iss. gens c i (replicate (length es) None) (map is_literal es) es g = Inr (iss, g)"
proof (induction es arbitrary: i)
  case (Cons e es)
  then obtain iss where "gens c (i + n_nodes e) (replicate (length es) None) (map is_literal es) es g = Inr (iss, g)" by fastforce
  with Cons.prems show ?case by (simp add: gen_suppressed) (simp add: gen_open_def)
qed simp

lemma gen_lit_list:
  assumes "list_all is_literal es" and "gen c i h s (T_List es) g = Inr (js, g')"
  shows "gen_list c es (snd (gen_open h g)) = Inr (ci_const (last js), g')"
proof (cases es)
  case Nil
  with assms(2) show ?thesis
    by (auto simp: gen.simps [of c i h s "T_List []"] top_hole_def gen_node_open and_then_Inr_iff)
next
  case (Cons e es')
  obtain iss where "gens c (i + n_nodes e) (replicate (length es') None) (map is_literal es') es' (snd (gen_open h g)) =
      Inr (iss, snd (gen_open h g))" using gens_suppressed assms(1) Cons by fastforce
  with assms Cons show ?thesis
    by (auto simp: gen.simps [of c i h s "T_List (e # es')"] child_holes_def top_hole_def gen_node_open and_then_Inr_iff gen_suppressed)
      (simp add: gen_open_def)
qed

lemma leaf_of_leaf: "leaf (leaf_of e)"
  by (cases e) simp_all

lemma leaf_value: "is_literal e \<Longrightarrow> const_to_value p (leaf_of e) = lit_val (p_strings p) e"
  by (cases e) (simp_all add: const_str_def slice_range_of str_at_def)

lemma gen_list_ok:
  assumes tab: "tab_ok c i g" and lit: "list_all is_literal es" and fits: "i + length es \<le> u16_max"
    and gen: "gen_list c es g = Inr (n, g')"
  shows "tab_ok c (i + length es) g'" and "grows g g'" and "g_code g' = g_code g"
    and "carries c p g' \<Longrightarrow> \<exists>cs. list_of p n = Some cs \<and> map (const_to_value p) cs = map (lit_val (p_strings p)) es"
proof -
  let ?g = "g\<lparr>g_list_elems := g_list_elems g @ map leaf_of es\<rparr>"
  have len: "length (g_list_elems g) + length es \<le> u16_max" using tab fits by (simp add: tab_ok_def)
  then have u32: "to_u32 (length (g_list_elems g)) = length (g_list_elems g)" "to_u32 (length es) = length es"
    by (simp_all add: to_u32_def u32_max_def u16_max_def)
  note gen' = gen [unfolded gen_list_def u32]
  have tab': "tab_ok c (i + length es) ?g"
    using tab fits leaf_of_leaf by (fastforce simp: tab_ok_def list_all_iff)
  show "tab_ok c (i + length es) g'" by (rule intern_tab [OF gen' tab']) simp
  show "grows g g'" "g_code g' = g_code g" using intern_grows [OF gen' tab'] by (auto simp: grows_def)
  show "\<exists>cs. list_of p n = Some cs \<and> map (const_to_value p) cs = map (lit_val (p_strings p)) es" if "carries c p g'"
  proof -
    have "elems_of (g_list_elems g @ map leaf_of es) (length (g_list_elems g)) (length es) = map leaf_of es"
      using len by (simp add: elems_of_def get_range_def sat_add_def usize_max_def u16_max_def)
    moreover have "map (const_to_value p) (map leaf_of es) = map (lit_val (p_strings p)) es"
      using lit by (simp add: leaf_value list_all_iff)
    ultimately show ?thesis using intern_list [OF gen' tab' _ that] by (simp del: map_map)
  qed
qed

section \<open>The generator produces code for the fragment\<close>

definition scene_of :: "'r cctx \<Rightarrow> bytes \<Rightarrow> attr_source \<Rightarrow> 'r scene" where
  "scene_of c src asrc =
     \<lparr>z_ext = m_ext c, z_regex_size = max_regex_size (m_limits c), z_src = src, z_strings = ck_strings (m_checked c),
      z_request = asrc\<rparr>"

text \<open>From \<open>g\<close> the generator reached \<open>g'\<close> with the placeholder and then code for \<open>t\<close> added.\<close>

definition produces ::
  "'r cctx \<Rightarrow> 'r scene \<Rightarrow> nat \<Rightarrow> hole_kind option \<Rightarrow> tree \<Rightarrow> 'r cstate \<Rightarrow> 'r cstate \<Rightarrow> bool" where
  "produces c z i h t g g' \<longleftrightarrow> tab_ok c (i + n_nodes t) g' \<and> grows g g' \<and>
     (\<exists>seg. g_code g' = g_code g @ hole_code h @ seg \<and> seg_ok c z t seg (length (g_code g @ hole_code h)) g')"

lemma produces_load:
  assumes "tab_ok c (i + n_nodes t) g1" and "grows g g1" and "g_code g1 = g_code g @ hole_code h"
    and "\<And>p pc. carries c p g1 \<Longrightarrow> get (p_ops p) pc = Some op \<Longrightarrow> impl z p t pc (Suc pc)"
  shows "produces c z i h t g (push_op op g1)"
  unfolding produces_def using assms(1-3) seg_load [OF assms(4)] by auto

lemma produces_one:
  assumes "produces c z i h b g g1" and "tab_ok c (i + n_nodes t) g2" and "grows g1 g2" and "g_code g2 = g_code g1"
    and "\<And>p pc m. carries c p g2 \<Longrightarrow> impl z p b pc m \<Longrightarrow> get (p_ops p) m = Some op \<Longrightarrow> impl z p t pc (Suc m)"
  shows "produces c z i h t g (push_op op g2)"
proof -
  from assms(1) obtain seg where seg: "grows g g1" "g_code g1 = g_code g @ hole_code h @ seg"
    "seg_ok c z b seg (length (g_code g @ hole_code h)) g1" by (auto simp: produces_def)
  have "seg_ok c z t (seg @ [op]) (length (g_code g @ hole_code h)) g2"
    by (rule seg_one [OF seg_ok_grows [OF seg(3) assms(3)] assms(5)])
  with seg assms(2-4) show ?thesis unfolding produces_def by (auto intro: grows_trans)
qed

lemma produces_two:
  assumes l: "produces c z i h l g g1" and r: "produces c z (i + n_nodes l) None r g1 g2"
    and n: "n_nodes t = Suc (n_nodes l + n_nodes r)" "i + n_nodes t \<le> u16_max"
    and rule: "\<And>p pc m1 m2. impl z p l pc m1 \<Longrightarrow> impl z p r m1 m2 \<Longrightarrow> get (p_ops p) m2 = Some op \<Longrightarrow> impl z p t pc (Suc m2)"
  shows "produces c z i h t g (push_op op g2)"
proof -
  from l obtain s1 where s1: "grows g g1" "g_code g1 = g_code g @ hole_code h @ s1"
    "seg_ok c z l s1 (length (g_code g @ hole_code h)) g1" by (auto simp: produces_def)
  from r obtain s2 where s2: "grows g1 g2" "tab_ok c (i + n_nodes l + n_nodes r) g2" "g_code g2 = g_code g1 @ s2"
    "seg_ok c z r s2 (length (g_code g1)) g2" by (auto simp: produces_def)
  have "seg_ok c z t (s1 @ s2 @ [op]) (length (g_code g @ hole_code h)) g2"
    by (rule seg_two [OF seg_ok_grows [OF s1(3) s2(1)] _ rule]) (use s1(2) s2(4) in \<open>simp add: add.assoc\<close>)
  with s1 s2 n show ?thesis unfolding produces_def by (auto intro: grows_trans tab_ok_mono)
qed

lemma gen_patch_at:
  "g_code g = xs @ op # ys \<Longrightarrow> p = length xs \<Longrightarrow> gen_patch p target g = g\<lparr>g_code := xs @ retarget op target # ys\<rparr>"
  by (simp add: gen_patch_def get_append_length)

lemma produces_jump:
  assumes l: "produces c z i h l g g1" and r: "produces c z (i + n_nodes l) (Some k) r g1 g2"
    and n: "n_nodes t = Suc (n_nodes l + n_nodes r)" "i + n_nodes t \<le> u16_max" and len: "length (g_code g2) \<le> u16_max"
    and j: "\<And>target. retarget (placeholder_for k) target = j target"
    and rule: "\<And>p pc m pc'. impl z p l pc m \<Longrightarrow> get (p_ops p) m = Some (j pc') \<Longrightarrow> impl z p r (Suc m) pc' \<Longrightarrow> impl z p t pc pc'"
  shows "produces c z i h t g (gen_patch (fst (gen_open (Some k) g1)) (to_u16 (length (g_code g2))) g2)"
proof -
  from l obtain s1 where s1: "grows g g1" "g_code g1 = g_code g @ hole_code h @ s1"
    "seg_ok c z l s1 (length (g_code g @ hole_code h)) g1" by (auto simp: produces_def)
  from r obtain s2 where s2: "grows g1 g2" "tab_ok c (i + n_nodes l + n_nodes r) g2"
    "g_code g2 = g_code g1 @ placeholder_for k # s2" "seg_ok c z r s2 (Suc (length (g_code g1))) g2" by (auto simp: produces_def)
  let ?at = "length (g_code g @ hole_code h)"
  have hole: "fst (gen_open (Some k) g1) = length (g_code g1)" and target: "to_u16 (length (g_code g2)) = Suc (?at + length s1 + length s2)"
    using len s2(3) s1(2) by (simp_all add: gen_open_def to_u16_def)
  have "seg_ok c z t (s1 @ [j (Suc (?at + length s1 + length s2))] @ s2) ?at g2"
    by (rule seg_jump [OF seg_ok_grows [OF s1(3) s2(1)] _ rule]) (use s1(2) s2(4) in \<open>simp_all add: add.assoc\<close>)
  moreover have "tab_ok c (i + n_nodes t) g2" using s2(2) n by (auto intro: tab_ok_mono)
  ultimately show ?thesis using s1 s2(1) grows_trans [OF s1(1) s2(1)]
    unfolding produces_def gen_patch_at [OF s2(3) hole] target j by auto
qed

lemma produces_ternary:
  assumes b: "produces c z i h b g g1" and x: "produces c z (i + n_nodes b) (Some Hole_BranchIfFalse) x g1 g2"
    and y: "produces c z (i + n_nodes b + n_nodes x) (Some Hole_Jump) y g2 g3"
    and n: "i + n_nodes (T_Ternary b x y) \<le> u16_max" and len: "length (g_code g3) \<le> u16_max"
  shows "produces c z i h (T_Ternary b x y) g
    (gen_patch (fst (gen_open (Some Hole_BranchIfFalse) g1)) (sat_add16 (fst (gen_open (Some Hole_Jump) g2)) 1)
      (gen_patch (fst (gen_open (Some Hole_Jump) g2)) (to_u16 (length (g_code g3))) g3))"
proof -
  from b obtain s1 where s1: "grows g g1" "g_code g1 = g_code g @ hole_code h @ s1"
    "seg_ok c z b s1 (length (g_code g @ hole_code h)) g1" by (auto simp: produces_def)
  from x obtain s2 where s2: "grows g1 g2" "g_code g2 = g_code g1 @ placeholder_for Hole_BranchIfFalse # s2"
    "seg_ok c z x s2 (Suc (length (g_code g1))) g2" by (auto simp: produces_def)
  from y obtain s3 where s3: "grows g2 g3" "tab_ok c (i + n_nodes b + n_nodes x + n_nodes y) g3"
    "g_code g3 = g_code g2 @ placeholder_for Hole_Jump # s3" "seg_ok c z y s3 (Suc (length (g_code g2))) g3"
    by (auto simp: produces_def)
  let ?at = "length (g_code g @ hole_code h)"
  let ?j = "Op_Jump (Suc (Suc (?at + length s1 + length s2 + length s3)))"
  have holes: "fst (gen_open (Some Hole_BranchIfFalse) g1) = length (g_code g1)" "fst (gen_open (Some Hole_Jump) g2) = length (g_code g2)"
    and target: "to_u16 (length (g_code g3)) = Suc (Suc (?at + length s1 + length s2 + length s3))"
    "sat_add16 (length (g_code g2)) 1 = Suc (Suc (?at + length s1 + length s2))"
    using len s3(3) s2(2) s1(2) by (simp_all add: gen_open_def to_u16_def sat_add16_def sat_add_def)
  have "gen_patch (length (g_code g2)) (to_u16 (length (g_code g3))) g3 = g3\<lparr>g_code := g_code g2 @ ?j # s3\<rparr>"
    unfolding target gen_patch_at [OF s3(3) refl] by simp
  moreover have "gen_patch (length (g_code g1)) u (g3\<lparr>g_code := g_code g2 @ ?j # s3\<rparr>) =
      g3\<lparr>g_code := g_code g1 @ Op_BranchIfFalse u # s2 @ ?j # s3\<rparr>" for u
    by (subst gen_patch_at [OF _ refl, of _ _ "placeholder_for Hole_BranchIfFalse" "s2 @ ?j # s3"]) (simp_all add: s2(2))
  moreover have "seg_ok c z (T_Ternary b x y) (s1 @ [Op_BranchIfFalse (Suc (Suc (?at + length s1 + length s2)))] @ s2 @ [?j] @ s3) ?at g3"
    by (rule seg_ternary [OF seg_ok_grows [OF s1(3) grows_trans [OF s2(1) s3(1)]]])
      (use s1(2) s2(2) s3(4) seg_ok_grows [OF s2(3) s3(1)] in \<open>simp_all add: add.assoc\<close>)
  moreover have "tab_ok c (i + n_nodes (T_Ternary b x y)) g3" using s3(2) n by (auto intro: tab_ok_mono)
  ultimately show ?thesis using s1 s2 s3(1) grows_trans [OF s1(1) grows_trans [OF s2(1) s3(1)]]
    unfolding produces_def holes target by auto
qed

text \<open>The runs of the generator on a tree, by its number of children.\<close>

lemma gen_kids0:
  "gen c i h s t g = Inr (js, g') \<Longrightarrow> children t = [] \<Longrightarrow> \<exists>n. gen_top c (root_at i t) s t [] (snd (gen_open h g)) = Inr (n, g')"
  by (auto simp: gen.simps [of c i h s t] and_then_Inr_iff gen_node_open top_hole_def)

lemma gen_open_None [simp]: "snd (gen_open None g) = g"
  by (simp add: gen_open_def)

lemma gen_kids1:
  assumes "gen c i h s t g = Inr (js, g')" and "children t = [b]"
  obtains ks g1 n where "gen c i h (hd (child_sups t)) b g = Inr (ks, g1)" "gen_top c (root_at i t) s t [ks] g1 = Inr (n, g')"
  using assms by (auto simp: gen.simps [of c i h s t] and_then_Inr_iff gen_node_open top_hole_def child_holes_def)

lemma gen_kids2:
  assumes "gen c i h s t g = Inr (js, g')" and "children t = [l, r]"
  obtains ks g1 ks' g2 n where "gen c i h (hd (child_sups t)) l g = Inr (ks, g1)"
    "gen c (i + n_nodes l) (hd (own_holes t)) (hd (tl (child_sups t))) r g1 = Inr (ks', g2)"
    "gen_top c (root_at i t) s t [ks, ks'] g2 = Inr (n, g')"
  using assms by (auto simp: gen.simps [of c i h s t] and_then_Inr_iff gen_node_open top_hole_def child_holes_def)

lemma gen_kids3:
  assumes "gen c i h s (T_Ternary b x y) g = Inr (js, g')"
  obtains ks g1 ks' g2 ks'' g3 n where "gen c i h False b g = Inr (ks, g1)"
    "gen c (i + n_nodes b) (Some Hole_BranchIfFalse) False x g1 = Inr (ks', g2)"
    "gen c (i + n_nodes b + n_nodes x) (Some Hole_Jump) False y g2 = Inr (ks'', g3)"
    "gen_top c (root_at i (T_Ternary b x y)) s (T_Ternary b x y) [ks, ks', ks''] g3 = Inr (n, g')"
  using assms by (auto simp: gen.simps [of c i h s "T_Ternary b x y"] and_then_Inr_iff gen_node_open top_hole_def child_holes_def)

definition generates :: "'r cctx \<Rightarrow> 'r scene \<Rightarrow> tree \<Rightarrow> bool" where
  "generates c z t \<longleftrightarrow>
     (\<forall>i h g js g'. gen c i h False t g = Inr (js, g') \<and> slots_ok c (z_src z) i t \<and> tab_ok c i g \<and>
        i + n_nodes t \<le> u16_max \<and> length (g_code g') \<le> u16_max \<longrightarrow> produces c z i h t g g')"

lemma generatesI:
  assumes "\<And>i h g js g'. gen c i h False t g = Inr (js, g') \<Longrightarrow> slots_ok c (z_src z) i t \<Longrightarrow> tab_ok c i g \<Longrightarrow>
    i + n_nodes t \<le> u16_max \<Longrightarrow> length (g_code g') \<le> u16_max \<Longrightarrow> produces c z i h t g g'"
  shows "generates c z t"
  unfolding generates_def using assms by blast

lemma generatesD:
  "generates c z t \<Longrightarrow> gen c i h False t g = Inr (js, g') \<Longrightarrow> slots_ok c (z_src z) i t \<Longrightarrow> tab_ok c i g \<Longrightarrow>
    i + n_nodes t \<le> u16_max \<Longrightarrow> length (g_code g') \<le> u16_max \<Longrightarrow> produces c z i h t g g'"
  unfolding generates_def by blast

lemma produces_tab: "produces c z i h t g g' \<Longrightarrow> tab_ok c (i + n_nodes t) g'"
  by (simp add: produces_def)

lemma slots_kids:
  "slots_ok c src i t \<Longrightarrow> children t = [b] \<Longrightarrow> slots_ok c src i b"
  "slots_ok c src i t \<Longrightarrow> children t = [l, r] \<Longrightarrow> slots_ok c src i l \<and> slots_ok c src (i + n_nodes l) r"
  by (simp_all add: slots_ok.simps [of c src i t])

lemma generates_literal:
  assumes "is_literal t" and "z_strings z = ck_strings (m_checked c)"
  shows "generates c z t"
proof (rule generatesI)
  fix i h g js g'
  assume gen: "gen c i h False t g = Inr (js, g')" and tab: "tab_ok c i g" and fits: "i + n_nodes t \<le> u16_max"
  have "children t = []" using assms(1) by (cases t) auto
  with gen_kids0 [OF gen] obtain n where "gen_top c (root_at i t) False t [] (snd (gen_open h g)) = Inr (n, g')" by blast
  with assms(1) obtain n g1 where intern: "intern_const c (leaf_of t) (snd (gen_open h g)) = Inr (n, g1)"
    and g': "g' = push_op (Op_LoadConst n) g1"
    by (cases t) (auto simp: and_then_Inr_iff gen_leaf_def)
  have tab1: "tab_ok c i (snd (gen_open h g))" using tab by simp
  have "tab_ok c i g1" by (rule intern_tab [OF intern tab1]) (use assms(1) in \<open>cases t; simp\<close>)
  then have "tab_ok c (i + n_nodes t) g1" using fits by (auto intro: tab_ok_mono)
  moreover have "grows g g1" "g_code g1 = g_code g @ hole_code h" using intern_grows [OF intern tab1] by auto
  moreover have "impl z p t pc (Suc pc)" if "carries c p g1" "get (p_ops p) pc = Some (Op_LoadConst n)" for p pc
    using that(2) by (rule impl_leaf)
      (use assms intern_leaf [OF intern tab1 leaf_of_leaf that(1)] that(1) leaf_value [OF assms(1), of p] in \<open>auto simp: carries_def\<close>)
  ultimately show "produces c z i h t g g'" unfolding g' by (rule produces_load)
qed

lemma generates_attr:
  assumes "base_ok (z_src z) b" and path: "dotted (z_src z) (T_Field b name) = Some (attr_path a)"
  shows "generates c z (T_Field b name)"
proof (rule generatesI)
  let ?t = "T_Field b name"
  fix i h g js g'
  assume gen: "gen c i h False ?t g = Inr (js, g')" and slots: "slots_ok c (z_src z) i ?t" and tab: "tab_ok c i g"
    and fits: "i + n_nodes ?t \<le> u16_max"
  have "attr_of (z_src z) ?t = Some a" using path attr_from_path_path [of a] by (simp add: attr_of_def)
  with slots have slot: "slot_of c (root_at i ?t) \<noteq> NO_SLOT" "get (ck_slots (m_checked c)) (slot_of c (root_at i ?t)) = Some (Scalar a)"
    by (simp_all add: slots_ok.simps [of c _ i ?t] slot_ok_def)
  have "slots_ok c (z_src z) i b" using slots by (rule slots_kids) simp
  with gen_path [OF assms(1)] obtain ks where ks: "gen c i h False b g = Inr (ks, snd (gen_open h g))" by blast
  have g': "g' = push_op (Op_LoadAttr (slot_of c (root_at i ?t))) (snd (gen_open h g))"
    by (rule gen_kids1 [OF gen, of b]) (use ks slot(1) in \<open>auto simp: gen_attr_slot\<close>)
  have "tab_ok c (i + n_nodes ?t) (snd (gen_open h g))" using tab_ok_mono [OF tab _ fits] by simp
  moreover have "impl z p ?t pc (Suc pc)"
    if "carries c p (snd (gen_open h g))" "get (p_ops p) pc = Some (Op_LoadAttr (slot_of c (root_at i ?t)))" for p pc
    using that(2) by (rule impl_attr) (use slot(2) path that(1) in \<open>auto simp: carries_def\<close>)
  ultimately show "produces c z i h ?t g g'" unfolding g' by (intro produces_load) auto
qed

text \<open>Operators with two operands on the stack.\<close>

lemma generates_two:
  assumes l: "generates c z l" and r: "generates c z r" and t: "children t = [l, r]" "n_nodes t = Suc (n_nodes l + n_nodes r)"
    "child_sups t = [False, False]" "own_holes t = [None]"
    and top: "\<And>k iss g. gen_top c k False t iss g = Inr (0, push_op op g)"
    and rule: "\<And>p pc m1 m2. impl z p l pc m1 \<Longrightarrow> impl z p r m1 m2 \<Longrightarrow> get (p_ops p) m2 = Some op \<Longrightarrow> impl z p t pc (Suc m2)"
  shows "generates c z t"
proof (rule generatesI)
  fix i h g js g'
  assume gen: "gen c i h False t g = Inr (js, g')" and slots: "slots_ok c (z_src z) i t" and tab: "tab_ok c i g"
    and fits: "i + n_nodes t \<le> u16_max" and len: "length (g_code g') \<le> u16_max"
  from gen_kids2 [OF gen t(1), unfolded t(3,4) list.sel top sum.inject prod.inject] obtain ks g1 ks' g2 n where g1: "gen c i h False l g = Inr (ks, g1)"
    and g2: "gen c (i + n_nodes l) None False r g1 = Inr (ks', g2)" and "(0 :: nat) = n \<and> push_op op g2 = g'" .
  then have g': "g' = push_op op g2" by simp
  from gen_mono(1) [OF g2] len g' have lens: "length (g_code g1) \<le> u16_max" "length (g_code g2) \<le> u16_max" by simp_all
  have L: "produces c z i h l g g1"
    by (rule generatesD [OF l g1]) (use slots_kids(2) [OF slots t(1)] tab fits t(2) lens in simp_all)
  have R: "produces c z (i + n_nodes l) None r g1 g2"
    by (rule generatesD [OF r g2]) (use slots_kids(2) [OF slots t(1)] produces_tab [OF L] fits t(2) lens in simp_all)
  show "produces c z i h t g g'" unfolding g' by (rule produces_two [OF L R t(2) fits rule])
qed

lemma generates_jump:
  assumes l: "generates c z l" and r: "generates c z r" and t: "children t = [l, r]" "n_nodes t = Suc (n_nodes l + n_nodes r)"
    "child_sups t = [False, False]" "own_holes t = [Some k]"
    and top: "\<And>m iss g. gen_top c m False t iss g = Inr (0, gen_patch (ci_hole (hd (iss ! 1))) (to_u16 (length (g_code g))) g)"
    and j: "\<And>target. retarget (placeholder_for k) target = j target"
    and rule: "\<And>p pc m pc'. impl z p l pc m \<Longrightarrow> get (p_ops p) m = Some (j pc') \<Longrightarrow> impl z p r (Suc m) pc' \<Longrightarrow> impl z p t pc pc'"
  shows "generates c z t"
proof (rule generatesI)
  fix i h g js g'
  assume gen: "gen c i h False t g = Inr (js, g')" and slots: "slots_ok c (z_src z) i t" and tab: "tab_ok c i g"
    and fits: "i + n_nodes t \<le> u16_max" and len: "length (g_code g') \<le> u16_max"
  from gen_kids2 [OF gen t(1), unfolded t(3,4) list.sel top sum.inject prod.inject] obtain ks g1 ks' g2 n where g1: "gen c i h False l g = Inr (ks, g1)"
    and g2: "gen c (i + n_nodes l) (Some k) False r g1 = Inr (ks', g2)"
    and "(0 :: nat) = n \<and> gen_patch (ci_hole (hd ([ks, ks'] ! 1))) (to_u16 (length (g_code g2))) g2 = g'" .
  then have g': "g' = gen_patch (ci_hole (hd ks')) (to_u16 (length (g_code g2))) g2" by simp
  from gen_mono(1) [OF g2] len g' have lens: "length (g_code g1) \<le> u16_max" "length (g_code g2) \<le> u16_max" by simp_all
  have L: "produces c z i h l g g1"
    by (rule generatesD [OF l g1]) (use slots_kids(2) [OF slots t(1)] tab fits t(2) lens in simp_all)
  have R: "produces c z (i + n_nodes l) (Some k) r g1 g2"
    by (rule generatesD [OF r g2]) (use slots_kids(2) [OF slots t(1)] produces_tab [OF L] fits t(2) lens in simp_all)
  show "produces c z i h t g g'" unfolding g' gen_hole [OF g2]
    by (rule produces_jump [OF L R t(2) fits lens(2) j rule])
qed

lemma generates_ternary:
  assumes b: "generates c z b" and x: "generates c z x" and y: "generates c z y"
  shows "generates c z (T_Ternary b x y)"
proof (rule generatesI)
  let ?t = "T_Ternary b x y"
  fix i h g js g'
  assume gen: "gen c i h False ?t g = Inr (js, g')" and slots: "slots_ok c (z_src z) i ?t" and tab: "tab_ok c i g"
    and fits: "i + n_nodes ?t \<le> u16_max" and len: "length (g_code g') \<le> u16_max"
  from slots have sl: "slots_ok c (z_src z) i b" "slots_ok c (z_src z) (i + n_nodes b) x"
    "slots_ok c (z_src z) (i + n_nodes b + n_nodes x) y" by (simp_all add: slots_ok.simps [of c _ i ?t])
  from gen_kids3 [OF gen] obtain ks g1 ks' g2 ks'' g3 n where g1: "gen c i h False b g = Inr (ks, g1)"
    and g2: "gen c (i + n_nodes b) (Some Hole_BranchIfFalse) False x g1 = Inr (ks', g2)"
    and g3: "gen c (i + n_nodes b + n_nodes x) (Some Hole_Jump) False y g2 = Inr (ks'', g3)"
    and top: "gen_top c (root_at i ?t) False ?t [ks, ks', ks''] g3 = Inr (n, g')" .
  have g': "g' = gen_patch (ci_hole (hd ks')) (sat_add16 (ci_hole (hd ks'')) 1)
      (gen_patch (ci_hole (hd ks'')) (to_u16 (length (g_code g3))) g3)" using top by simp
  from gen_mono(1) [OF g2] gen_mono(1) [OF g3] len g'
  have lens: "length (g_code g1) \<le> u16_max" "length (g_code g2) \<le> u16_max" "length (g_code g3) \<le> u16_max" by simp_all
  have B: "produces c z i h b g g1" by (rule generatesD [OF b g1 sl(1) tab _ lens(1)]) (use fits in simp)
  have X: "produces c z (i + n_nodes b) (Some Hole_BranchIfFalse) x g1 g2"
    by (rule generatesD [OF x g2 sl(2) produces_tab [OF B] _ lens(2)]) (use fits in simp)
  have Y: "produces c z (i + n_nodes b + n_nodes x) (Some Hole_Jump) y g2 g3"
    by (rule generatesD [OF y g3 sl(3) produces_tab [OF X] _ lens(3)]) (use fits in simp)
  show "produces c z i h ?t g g'" unfolding g' gen_hole [OF g2] gen_hole [OF g3]
    by (rule produces_ternary [OF B X Y fits lens(3)])
qed

lemma generates_one:
  assumes b: "generates c z b" and t: "children t = [b]" "n_nodes t = Suc (n_nodes b)" "child_sups t = [False]"
    and top: "\<And>k iss g. gen_top c k False t iss g = Inr (0, push_op op g)"
    and rule: "\<And>p pc m. impl z p b pc m \<Longrightarrow> get (p_ops p) m = Some op \<Longrightarrow> impl z p t pc (Suc m)"
  shows "generates c z t"
proof (rule generatesI)
  fix i h g js g'
  assume gen: "gen c i h False t g = Inr (js, g')" and slots: "slots_ok c (z_src z) i t" and tab: "tab_ok c i g"
    and fits: "i + n_nodes t \<le> u16_max" and len: "length (g_code g') \<le> u16_max"
  from gen_kids1 [OF gen t(1), unfolded t(3) list.sel top sum.inject prod.inject] obtain ks g1 n
    where g1: "gen c i h False b g = Inr (ks, g1)" and "(0 :: nat) = n \<and> push_op op g1 = g'" .
  then have g': "g' = push_op op g1" by simp
  have B: "produces c z i h b g g1"
    by (rule generatesD [OF b g1]) (use slots_kids(1) [OF slots t(1)] tab fits t(2) len g' in simp_all)
  show "produces c z i h t g g'" unfolding g'
    by (rule produces_one [OF B tab_ok_mono [OF produces_tab [OF B]] grows_refl refl rule]) (use t(2) fits in simp_all)
qed

lemma ns_nodes_literals: "list_all is_literal es \<Longrightarrow> ns_nodes es = length es"
proof (induction es)
  case (Cons e es)
  then show ?case by (cases e) simp_all
qed simp

lemma generates_size_list:
  assumes lit: "list_all is_literal es"
  shows "generates c z (T_Call (T_List es) Method_Size [])"
proof (rule generatesI)
  let ?t = "T_Call (T_List es) Method_Size []"
  fix i h g js g'
  assume gen: "gen c i h False ?t g = Inr (js, g')" and tab: "tab_ok c i g" and fits: "i + n_nodes ?t \<le> u16_max"
  obtain ks g1 m where g1: "gen c i h False (T_List es) g = Inr (ks, g1)"
    and top: "gen_top c (root_at i ?t) False ?t [ks] g1 = Inr (m, g')" by (rule gen_kids1 [OF gen]) simp_all
  from top obtain n g2 where intern: "intern_const c (Const_Int (int (length es))) g1 = Inr (n, g2)"
    and g': "g' = push_op (Op_LoadConst n) g2" by (auto simp: gen_size_def and_then_Inr_iff)
  have n: "i + length es \<le> u16_max" "i + length es \<le> i + n_nodes ?t" using fits ns_nodes_literals [OF lit] by simp_all
  note list = gen_list_ok(1-3) [OF _ lit n(1) gen_lit_list [OF lit g1]]
  have tab1: "tab_ok c (i + length es) g1" using tab by (intro list(1)) simp
  have "tab_ok c (i + n_nodes ?t) g2" by (rule intern_tab [OF intern tab_ok_mono [OF tab1 n(2) fits]]) simp
  moreover have "grows g g2" "g_code g2 = g_code g @ hole_code h"
    using intern_grows [OF intern tab1] list(2,3) tab grows_trans by (auto intro: grows_trans)
  moreover have "impl z p ?t pc (Suc pc)" if "carries c p g2" "get (p_ops p) pc = Some (Op_LoadConst n)" for p pc
    using that(2) by (rule impl_size_list) (use intern_leaf [OF intern tab1 _ that(1)] in simp)
  ultimately show "produces c z i h ?t g g'" unfolding g' by (rule produces_load)
qed

lemma generates_matches:
  assumes b: "generates c z b" and re: "regex_names (m_ext c)"
    and z: "z_ext z = m_ext c" "z_strings z = ck_strings (m_checked c)" "z_regex_size z = max_regex_size (m_limits c)"
  shows "generates c z (T_Call b Method_Matches [T_Str s])"
proof (rule generatesI)
  let ?t = "T_Call b Method_Matches [T_Str s]"
  fix i h g js g'
  assume gen: "gen c i h False ?t g = Inr (js, g')" and slots: "slots_ok c (z_src z) i ?t" and tab: "tab_ok c i g"
    and fits: "i + n_nodes ?t \<le> u16_max" and len: "length (g_code g') \<le> u16_max"
  obtain ks g1 ks' g2 m where g1: "gen c i h False b g = Inr (ks, g1)"
    and "gen c (i + n_nodes b) None True (T_Str s) g1 = Inr (ks', g2)"
    and top: "gen_top c (root_at i ?t) False ?t [ks, ks'] g2 = Inr (m, g')" by (rule gen_kids2 [OF gen]) simp_all
  then have g2: "g2 = g1" by (simp add: gen_suppressed)
  from top obtain n g3 where intern: "intern_regex c (str_at (z_strings z) s) (sp_start s) g1 = Inr (n, g3)"
    and g': "g' = push_op (Op_RegexMatch n) g3"
    unfolding g2 by (auto simp: gen_matches_def and_then_Inr_iff str_at_def z split: if_splits)
  have "slots_ok c (z_src z) i b" using slots_kids(2) [OF slots] by simp
  with b g1 have B: "produces c z i h b g g1"
    by (rule generatesD) (use tab fits len g' intern_code(2) [OF intern] in simp_all)
  have tab1: "tab_ok c (i + n_nodes ?t) g1" by (rule tab_ok_mono [OF produces_tab [OF B] _ fits]) simp
  note ok = intern_regex_ok [OF intern tab1 re]
  have "impl z p ?t pc (Suc m)" if "carries c p g3" "impl z p b pc m" "get (p_ops p) m = Some (Op_RegexMatch n)" for p pc m
    using ok(4) [OF that(1)] impl_matches [OF that(2,3)] z by auto
  then show "produces c z i h ?t g g'" unfolding g' by (rule produces_one [OF B ok(1-3)])
qed

lemma generates_in:
  assumes l: "generates c z l" and lit: "list_all is_literal es" and z: "z_strings z = ck_strings (m_checked c)"
  shows "generates c z (T_Bin BinOp_In l (T_List es))"
proof (rule generatesI)
  let ?t = "T_Bin BinOp_In l (T_List es)"
  fix i h g js g'
  assume gen: "gen c i h False ?t g = Inr (js, g')" and slots: "slots_ok c (z_src z) i ?t" and tab: "tab_ok c i g"
    and fits: "i + n_nodes ?t \<le> u16_max" and len: "length (g_code g') \<le> u16_max"
  obtain ks g1 ks' g2 m where g1: "gen c i h False l g = Inr (ks, g1)"
    and g2: "gen c (i + n_nodes l) None False (T_List es) g1 = Inr (ks', g2)"
    and top: "gen_top c (root_at i ?t) False ?t [ks, ks'] g2 = Inr (m, g')" by (rule gen_kids2 [OF gen]) simp_all
  then have g': "g' = push_op (Op_InSet (ci_const (last ks'))) g2" by simp
  have "slots_ok c (z_src z) i l" using slots_kids(2) [OF slots] by simp
  with l g1 have L: "produces c z i h l g g1"
    by (rule generatesD) (use tab fits len g' gen_mono(1) [OF g2] in simp_all)
  have n: "i + n_nodes l + length es \<le> u16_max" "i + n_nodes l + length es \<le> i + n_nodes ?t"
    using fits ns_nodes_literals [OF lit] by simp_all
  note list = gen_list_ok [OF produces_tab [OF L] lit n(1) gen_lit_list [OF lit g2, unfolded gen_open_None]]
  have "impl z p ?t pc (Suc m)" if "carries c p g2" "impl z p l pc m" "get (p_ops p) m = Some (Op_InSet (ci_const (last ks')))" for p pc m
    using list(4) [OF that(1)] impl_in [OF that(2,3)] that(1) z by (auto simp: carries_def)
  then show "produces c z i h ?t g g'" unfolding g'
    by (rule produces_one [OF L tab_ok_mono [OF list(1) n(2) fits] list(2,3)])
qed

lemma generates_size:
  assumes "generates c z b" and "\<forall>es. b \<noteq> T_List es"
  shows "generates c z (T_Call b Method_Size [])"
proof (rule generates_one [OF assms(1), where op = Op_Size])
  show "gen_top c k False (T_Call b Method_Size []) iss g = Inr (0, push_op Op_Size g)" for k iss g
    using assms(2) by (cases b) (simp_all add: gen_size_def)
qed (use assms(2) in \<open>auto intro: impl_size\<close>)

lemma generates_method:
  assumes "generates c z b" and "generates c z x" and "m \<noteq> Method_Size" and "m \<noteq> Method_Matches"
  shows "generates c z (T_Call b m [x])"
  by (rule generates_two [OF assms(1,2), where op = "method_op m"]) (use assms(3,4) in \<open>auto intro: impl_method\<close>)

lemma generates_cmp:
  assumes "generates c z l" and "generates c z r" and "op \<noteq> BinOp_In"
  shows "generates c z (T_Bin op l r)"
  by (rule generates_two [OF assms(1,2), where op = "comparison_op op"]) (use assms(3) in \<open>auto intro: impl_cmp\<close>)

lemma generates_bool:
  assumes "generates c z l"
  shows "generates c z (T_Not l)"
    and "generates c z r \<Longrightarrow> generates c z (T_And l r)" and "generates c z r \<Longrightarrow> generates c z (T_Or l r)"
proof -
  show "generates c z (T_Not l)" by (rule generates_one [OF assms, where op = Op_Not]) (auto intro: impl_not)
  show "generates c z (T_And l r)" if "generates c z r"
    by (rule generates_jump [OF assms that, where k = Hole_JumpIfFalse and j = Op_JumpIfFalse]) (auto intro: impl_and)
  show "generates c z (T_Or l r)" if "generates c z r"
    by (rule generates_jump [OF assms that, where k = Hole_JumpIfTrue and j = Op_JumpIfTrue]) (auto intro: impl_or)
qed

lemma frag_not_list: "frag b \<Longrightarrow> \<forall>es. b \<noteq> T_List es"
  by auto

lemma has_type_generates:
  assumes "has_type (z_src z) ph t u" and "frag t" and re: "regex_names (m_ext c)"
    and z: "z_ext z = m_ext c" "z_strings z = ck_strings (m_checked c)" "z_regex_size z = max_regex_size (m_limits c)"
  shows "generates c z t"
  using assms(1,2)
proof (induction rule: has_type.induct)
  case (ty_size b t)
  show ?case
  proof (cases "frag b")
    case True
    show ?thesis by (rule generates_size [OF ty_size.IH [OF True] frag_not_list [OF True]])
  next
    case False
    with ty_size.prems have "lit_list b" by simp
    then show ?thesis using generates_size_list by (cases b) auto
  qed
next
  case (ty_method b t x m)
  show ?case
  proof (cases "m = Method_Matches")
    case True
    with ty_method.prems obtain s where "x = T_Str s" "frag b" by (cases x) auto
    with ty_method.IH(1) True generates_matches [OF _ re z] show ?thesis by simp
  next
    case False
    with ty_method show ?thesis by (intro generates_method) auto
  qed
next
  case (ty_equal l t r u op)
  then show ?case by (intro generates_cmp) auto
next
  case (ty_order l r op)
  then show ?case by (intro generates_cmp) auto
next
  case (ty_in l t es)
  then show ?case by (intro generates_in z) auto
qed (auto intro: generates_literal generates_attr generates_bool generates_ternary z)

section \<open>The slots of a checked policy\<close>

definition slot_names :: "attr_ref list \<Rightarrow> bytes \<Rightarrow> tree \<Rightarrow> nat \<Rightarrow> bool" where
  "slot_names slots src t slot \<longleftrightarrow>
     (case t of
        T_Ident _ \<Rightarrow> slot = NO_SLOT
      | T_Field _ _ \<Rightarrow>
          (case attr_of src t of None \<Rightarrow> slot = NO_SLOT | Some a \<Rightarrow> get slots slot = Some (Scalar a))
      | _ \<Rightarrow> True)"

lemma slot_names_append: "slot_names slots src t slot \<Longrightarrow> slot_names (slots @ ys) src t slot"
  by (auto simp: slot_names_def nth_append split: tree.splits option.splits)

lemma tree_intern_scalar:
  assumes "tree_intern c want st = Inr (slot, st')"
  shows "\<exists>xs. fst st' = fst st @ xs" and "want = Scalar a \<Longrightarrow> get (fst st') slot = Some (Scalar a)"
proof -
  have same: "same_ref strings s (Scalar a) \<longleftrightarrow> s = Scalar a" for strings s by (cases s) (auto simp: same_ref_def)
  show "\<exists>xs. fst st' = fst st @ xs" "want = Scalar a \<Longrightarrow> get (fst st') slot = Some (Scalar a)"
    using assms same
    by (auto simp: tree_intern_def intern_slot_def and_then_Inr_iff ok_or_def fits_u16_def nth_append
        split: option.splits if_splits prod.splits dest!: position_Some)
qed

lemma field_slot:
  assumes "field_info c b name x st = Inr (y, st')"
  shows "slot_names (fst st') (k_src c) (T_Field b name) (ni_slot y)" and "\<exists>xs. fst st' = fst st @ xs"
proof -
  have "slot_names (fst st') (k_src c) (T_Field b name) (ni_slot y) \<and> (\<exists>xs. fst st' = fst st @ xs)"
    using assms
  proof (cases rule: field_info_cases)
    case (1 buf cursor s e a slot)
    have "attr_of (k_src c) (T_Field b name) = Some a"
      using tree_path_sound [OF 1(1)] 1(2,3) by (simp add: attr_of_def attr_from_path_def)
    with 1 tree_intern_scalar [OF 1(5)] show ?thesis by (simp add: slot_names_def info_def)
  next
    case (2 buf cursor s e m)
    have "attr_of (k_src c) (T_Field b name) = None"
      using tree_path_sound [OF 2(1)] 2(2,3) by (simp add: attr_of_def attr_from_path_def)
    with 2 show ?thesis by (simp add: slot_names_def info_def)
  qed
  then show "slot_names (fst st') (k_src c) (T_Field b name) (ni_slot y)" "\<exists>xs. fst st' = fst st @ xs" by auto
qed

lemma top_slot:
  assumes "top_info c fb t iss st = Inr (x, st')"
  shows "slot_names (fst st') (k_src c) t (ni_slot x)" and "\<exists>xs. fst st' = fst st @ xs"
proof -
  have "slot_names (fst st') (k_src c) t (ni_slot x) \<and> (\<exists>xs. fst st' = fst st @ xs)"
  proof (cases t)
    case (T_Field b name)
    with field_slot assms show ?thesis by simp
  next
    case (T_Index b k)
    with assms have "index_info c k (last (iss ! 0)) (last (iss ! 1)) st = Inr (x, st')" by simp
    then obtain m key' ss slot where "tree_intern c (Field m key') (fst st, ss) = Inr (slot, st')"
      by (elim index_info_cases) blast
    with T_Index tree_intern_scalar(1) show ?thesis by (fastforce simp: slot_names_def)
  qed (use assms in \<open>auto simp: slot_names_def plain_def and_then_Inr_iff info_def\<close>)
  then show "slot_names (fst st') (k_src c) t (ni_slot x)" "\<exists>xs. fst st' = fst st @ xs" by auto
qed

lemma tree_check_slots_grow:
  "tree_check c fb t st = Inr (js, st') \<Longrightarrow> \<exists>xs. fst st' = fst st @ xs"
  "trees_check c fb ts st = Inr (iss, st') \<Longrightarrow> \<exists>xs. fst st' = fst st @ xs"
proof (induction c fb t st and c fb ts st arbitrary: js st' and iss st' rule: tree_check_trees_check.induct)
  case (1 c fb t st)
  from 1(2) obtain iss st1 x where kids: "trees_check c (is_field t) (children t) st = Inr (iss, st1)"
    and top: "top_info c fb t iss st1 = Inr (x, st')" by (auto simp: tree_check.simps [of c fb t] and_then_Inr_iff)
  from 1(1) [OF kids] top_slot(2) [OF top] show ?case by auto
next
  case (3 c fb t ts st)
  from 3(3) obtain js st1 iss' where t: "tree_check c fb t st = Inr (js, st1)" and ts: "trees_check c fb ts st1 = Inr (iss', st')"
    by (auto simp: and_then_Inr_iff)
  from 3(1) [OF t] 3(2) [OF ts] show ?case by auto
qed simp

lemma slot_ok_names:
  assumes "slot_names slots src t slot" and "get (ck_node_slot (m_checked k)) (root_at i t) = Some slot"
    and "ck_slots (m_checked k) = slots @ ys" and "length (ck_slots (m_checked k)) \<le> u16_max"
  shows "slot_ok k src i t"
proof -
  have s: "slot_of k (root_at i t) = slot" using assms(2) unfolding slot_of_def by simp
  have "slot \<noteq> NO_SLOT" if "slot < length slots" using that assms(3,4) by (simp add: NO_SLOT_def)
  then show ?thesis using assms(1,3) unfolding slot_ok_def slot_names_def s
    by (auto simp: nth_append split: tree.splits option.splits)
qed

lemma tree_check_slots:
  "tree_check c fb t st = Inr (js, st') \<Longrightarrow> region (ck_node_slot (m_checked k)) i (map ni_slot js) \<Longrightarrow>
   ck_slots (m_checked k) = fst st' @ ys \<Longrightarrow> length (ck_slots (m_checked k)) \<le> u16_max \<Longrightarrow> slots_ok k (k_src c) i t"
  "trees_check c fb ts st = Inr (iss, st') \<Longrightarrow> region (ck_node_slot (m_checked k)) i (map ni_slot (concat iss)) \<Longrightarrow>
   ck_slots (m_checked k) = fst st' @ ys \<Longrightarrow> length (ck_slots (m_checked k)) \<le> u16_max \<Longrightarrow> slotss_ok k (k_src c) i ts"
proof (induction c fb t st and c fb ts st arbitrary: js st' i ys and iss st' i ys rule: tree_check_trees_check.induct)
  case (1 c fb t st)
  from 1(2) obtain iss st1 x where kids: "trees_check c (is_field t) (children t) st = Inr (iss, st1)"
    and top: "top_info c fb t iss st1 = Inr (x, st')" and js: "js = concat iss @ [x]"
    by (auto simp: tree_check.simps [of c fb t] and_then_Inr_iff)
  from top_slot(2) [OF top] obtain xs where xs: "fst st' = fst st1 @ xs" by blast
  have reg: "region (ck_node_slot (m_checked k)) i (map ni_slot (concat iss))"
    "get (ck_node_slot (m_checked k)) (i + length (concat iss)) = Some (ni_slot x)"
    using region_snoc [of _ i "map ni_slot (concat iss)" "ni_slot x"] 1(3) js by (simp_all del: get_Some_iff)
  have "i + length (concat iss) = root_at i t" using tree_check_length(1) [OF 1(2)] js by simp
  with reg(2) have "slot_ok k (k_src c) i t" using slot_ok_names [OF top_slot(1) [OF top] _ 1(4,5)] by simp
  moreover have "slotss_ok k (k_src c) i (children t)"
    by (rule 1(1) [OF kids reg(1) _ 1(5), of "xs @ ys"]) (use 1(4) xs in simp)
  ultimately show ?case by (simp add: slots_ok.simps [of k _ i t])
next
  case (3 c fb t ts st)
  from 3(3) obtain js st1 iss' where t: "tree_check c fb t st = Inr (js, st1)" and ts: "trees_check c fb ts st1 = Inr (iss', st')"
    and iss: "iss = js # iss'" by (auto simp: and_then_Inr_iff)
  from tree_check_slots_grow(2) [OF ts] obtain xs where xs: "fst st' = fst st1 @ xs" by blast
  have reg: "region (ck_node_slot (m_checked k)) i (map ni_slot js)"
    "region (ck_node_slot (m_checked k)) (i + n_nodes t) (map ni_slot (concat iss'))"
    using region_append [of _ i "map ni_slot js" "map ni_slot (concat iss')"] 3(4) iss tree_check_length(1) [OF t] by simp_all
  have "slots_ok k (k_src c) i t" by (rule 3(1) [OF t reg(1) _ 3(6), of "xs @ ys"]) (use 3(5) xs in simp)
  moreover have "slotss_ok k (k_src c) (i + n_nodes t) ts" by (rule 3(2) [OF ts reg(2) 3(5,6)])
  ultimately show ?case by simp
qed simp

section \<open>Correctness of compiled policies\<close>

lemma literal_arity: "is_literal e \<Longrightarrow> arity_ok e"
  by (cases e) simp_all

lemma lit_list_arity: "lit_list t \<Longrightarrow> arity_ok t"
  by (cases t) (auto simp: list_all_iff intro: literal_arity)

lemma is_path_arity: "is_path t \<Longrightarrow> arity_ok t"
  by (induction t) simp_all

lemma frag_arity: "frag t \<Longrightarrow> arity_ok t"
proof (induction t)
  case (T_Call b m ts)
  have x: "is_str_tree x \<Longrightarrow> arity_ok x" for x by (cases x) simp_all
  show ?case
  proof (cases ts)
    case Nil
    with T_Call lit_list_arity show ?thesis by (auto simp: method_arity_def split: if_splits)
  next
    case (Cons y ys)
    with T_Call.prems have "m \<noteq> Method_Size" "ys = []" "frag b" "if m = Method_Matches then is_str_tree y else frag y"
      by (auto split: if_splits list.splits)
    with T_Call.IH Cons x show ?thesis by (auto simp: method_arity_def split: if_splits)
  qed
next
  case (T_Bin op l r)
  then show ?case using lit_list_arity by (auto split: if_splits)
qed (auto dest: is_path_arity)

text \<open>The compiled program implements the whole tree, from its first instruction to the final return.\<close>

lemma compile_impl:
  assumes arena: "arena_of t a" and n: "n_nodes t \<le> u16_max" and check: "check a strings src phase limits = Inr ck"
    and compile: "compile ext ck limits = Inr p" and frag: "frag t" and re: "regex_names ext"
    and limits: "limits_validate limits = Inr ()"
  shows "program_verified p limits" and "length (p_slots p) \<le> MAX_SLOTS" and "impl (scene_of (gen_ctx ext ck limits) src asrc) p t 0 (length (p_ops p) - 1)"
    and "p_ops p \<noteq> []" and "last (p_ops p) = Op_Ret"
proof -
  let ?c = "gen_ctx ext ck limits" let ?z = "scene_of ?c src asrc"
  have small: "n_nodes t \<le> usize_max" using n by (simp add: u16_max_def usize_max_def)
  from check obtain js slots strings' where tc: "tree_check (ctx_of src phase limits) False t ([], strings) = Inr (js, slots, strings')"
    and slots: "length slots \<le> max_attr_slots limits" and ty: "ni_ty (last js) \<noteq> Ty_Map"
    and ck: "ck_ast ck = a" "ck_slots ck = slots" "ck_node_slot ck = map ni_slot js"
    unfolding check_tree [OF arena small] tree_checked_def by (auto simp: and_then_Inr_iff split: if_splits)
  have typed: "has_type src phase t (ni_ty (last js))"
    using tree_check_sound(1) [OF frag_arity [OF frag] tc] ty by (simp add: info_ok_def ctx_of_reads)
  from compile obtain js' g m where gen: "gen ?c 0 None False t gen_start = Inr (js', g)"
    and ver: "verify (g_code g @ [Op_Ret]) (g_consts g) (ck_slots ck) (length (g_regexes g)) limits = Inr m"
    and p: "p = program_of ck g m"
    using compile_gen [of t ck ext limits] arena ck(1) small
    by (auto simp: gen_compile_def and_then_Inr_iff map_err_Inr_iff)
  show pv: "program_verified p limits" using ver by (simp add: program_verified_def p program_of_def)
  then have len: "length (g_code g) < max_ops limits" by (elim program_verified_D) (simp add: p program_of_def)
  note lim = limits [unfolded limits_validate_ok_iff]
  have slots16: "length slots \<le> 16" using slots lim by simp
  then show "length (p_slots p) \<le> MAX_SLOTS" using ck(2) by (simp add: p program_of_def MAX_SLOTS_def)
  have "slots_ok ?c src 0 t"
    using tree_check_slots(1) [OF tc, of ?c 0 "[]"] ck(2,3) slots16
    by (simp add: gen_ctx_def region_def u16_max_def ctx_of_reads)
  moreover have "generates ?c ?z t"
    using has_type_generates [of ?z phase t _ ?c] typed frag re by (simp add: scene_of_def gen_ctx_def)
  moreover have "tab_ok ?c 0 gen_start" using lim by (simp add: tab_ok_def gen_start_def gen_ctx_def u16_max_def)
  ultimately have "produces ?c ?z 0 None t gen_start g"
    using generatesD [OF _ gen] n len lim by (simp add: scene_of_def u16_max_def)
  then have seg: "seg_ok ?c ?z t (g_code g) 0 g" by (auto simp: produces_def gen_start_def)
  have "carries ?c p g" by (simp add: carries_def p program_of_def gen_ctx_def)
  from seg_okD [OF seg this, of "[]" "[Op_Ret]"] show "impl ?z p t 0 (length (p_ops p) - 1)" by (simp add: p program_of_def)
  show "p_ops p \<noteq> []" "last (p_ops p) = Op_Ret" by (simp_all add: p program_of_def)
qed

end
