(* ===== verification/Policy_Meaning.thy ===== *)
theory Policy_Meaning
  imports Policy_Correct Policy_Examples
begin

text \<open>
  What a compiled policy computes: on the supported fragment the evaluator returns the meaning of
  the policy, and a value of the type the checker announced whenever every attribute has a value of
  its declared type and no ternary mixes in a null. Three concrete policies show what happens
  outside the fragment.
\<close>

section \<open>The value of a policy\<close>

text \<open>What evaluation returns for a meaning.\<close>

definition result_of :: "val option \<Rightarrow> eval_error + val \<Rightarrow> bool" where
  "result_of m r \<longleftrightarrow> (case m of Some v \<Rightarrow> r = Inr v | None \<Rightarrow> (\<exists>at. r = Inl (TypeError at)))"

lemma goes_result:
  assumes "goes z p ([], 0) m [] pc" and "get (p_ops p) pc = Some Op_Ret"
  shows "\<exists>r. aruns (z_ext z) p (slot_value p (z_request z)) ([], 0) r \<and> result_of m r"
proof (cases m)
  case None
  with assms(1) show ?thesis by (auto simp: goes_def result_of_def)
next
  case (Some v)
  have "aruns (z_ext z) p (slot_value p (z_request z)) ([v], pc) (Inr v)"
    by (subst aruns_unfold [OF assms(2)]) (simp add: astep_def)
  with assms(1) Some have "aruns (z_ext z) p (slot_value p (z_request z)) ([], 0) (Inr v)"
    by (auto simp: goes_def intro: aruns_moves)
  with Some show ?thesis by (auto simp: result_of_def)
qed

definition policy_scene :: "'r crates \<Rightarrow> checked \<Rightarrow> policy_limits \<Rightarrow> bytes \<Rightarrow> attr_source \<Rightarrow> 'r scene" where
  "policy_scene ext ck limits src asrc =
     \<lparr>z_ext = ext, z_regex_size = max_regex_size limits, z_src = src, z_strings = ck_strings ck, z_request = asrc\<rparr>"

lemma scene_of_ctx: "scene_of (gen_ctx ext ck limits) src asrc = policy_scene ext ck limits src asrc"
  by (simp add: scene_of_def gen_ctx_def policy_scene_def)

lemma compiled_result:
  assumes "arena_of t a" and "n_nodes t \<le> u16_max" and "check a strings src phase limits = Inr ck"
    and "compile ext ck limits = Inr p" and "frag t" and "regex_names ext" and "limits_validate limits = Inr ()"
  shows "result_of (sem (policy_scene ext ck limits src asrc) t) (fst (eval ext p (env_new asrc (length (p_slots p)) n)))"
proof -
  note c = compile_impl [OF assms, unfolded scene_of_ctx]
  let ?z = "policy_scene ext ck limits src asrc"
  have z: "z_ext ?z = ext" "z_request ?z = asrc" by (simp_all add: policy_scene_def)
  have "get (p_ops p) (length (p_ops p) - 1) = Some Op_Ret" using c(4,5) by (simp add: last_conv_nth)
  from goes_result [OF impl_goes [OF c(3) [of asrc]] this, unfolded z]
  obtain r where r: "aruns ext p (slot_value p asrc) ([], 0) r" "result_of (sem ?z t) r" by blast
  have "max_ops limits \<le> u16_max" using assms(7) by (simp add: limits_validate_ok_iff u16_max_def)
  from eval_runs [OF c(1) this c(2), of ext asrc n] obtain r' env' where
    "eval ext p (env_new asrc (length (p_slots p)) n) = (r', env')" "aruns ext p (slot_value p asrc) ([], 0) r'" by blast
  with aruns_deterministic r show ?thesis by fastforce
qed

section \<open>Types of values\<close>

text \<open>No ternary has a branch that is null.\<close>

fun strict :: "tree \<Rightarrow> bool" where
  "strict (T_Call b _ ts) \<longleftrightarrow> strict b \<and> list_all strict ts"
| "strict (T_Not t) \<longleftrightarrow> strict t"
| "strict (T_Bin _ l r) \<longleftrightarrow> strict l \<and> strict r"
| "strict (T_And l r) \<longleftrightarrow> strict l \<and> strict r"
| "strict (T_Or l r) \<longleftrightarrow> strict l \<and> strict r"
| "strict (T_Ternary c x y) \<longleftrightarrow> strict c \<and> strict x \<and> strict y \<and> x \<noteq> T_Null \<and> y \<noteq> T_Null"
| "strict _ \<longleftrightarrow> True"

lemma strict_null: "has_type src ph t u \<Longrightarrow> u = Ty_Null \<Longrightarrow> strict t \<Longrightarrow> t = T_Null"
proof (induction rule: has_type.induct)
  case (ty_attr b name a)
  then show ?case by (cases a) simp_all
qed (auto simp: is_scalar_ty_def)

fun regexes_built :: "'r scene \<Rightarrow> tree \<Rightarrow> bool" where
  "regexes_built z (T_Call b m ts) \<longleftrightarrow> regexes_built z b \<and> list_all (regexes_built z) ts \<and>
     (\<forall>s. m = Method_Matches \<and> ts = [T_Str s] \<longrightarrow> (\<exists>re. regex_build (z_ext z) (str_at (z_strings z) s) (z_regex_size z) = Inr re))"
| "regexes_built z (T_Not t) \<longleftrightarrow> regexes_built z t"
| "regexes_built z (T_Bin op l r) \<longleftrightarrow> regexes_built z l \<and> (op \<noteq> BinOp_In \<longrightarrow> regexes_built z r)"
| "regexes_built z (T_And l r) \<longleftrightarrow> regexes_built z l \<and> regexes_built z r"
| "regexes_built z (T_Or l r) \<longleftrightarrow> regexes_built z l \<and> regexes_built z r"
| "regexes_built z (T_Ternary c x y) \<longleftrightarrow> regexes_built z c \<and> regexes_built z x \<and> regexes_built z y"
| "regexes_built z _ \<longleftrightarrow> True"

lemma impl_regexes: "impl z p t pc pc' \<Longrightarrow> regexes_built z t"
proof (induction rule: impl.induct)
  case (impl_leaf pc n t)
  then show ?case by (cases t) simp_all
qed auto

definition typed_request :: "attr_source \<Rightarrow> bool" where
  "typed_request asrc \<longleftrightarrow> (\<forall>a. val_ty (scalar asrc a) = attr_ty a)"

definition yields_ty :: "val option \<Rightarrow> ty \<Rightarrow> bool" where
  "yields_ty m u \<longleftrightarrow> (\<exists>v. m = Some v \<and> val_ty v = u)"

lemma val_ty_cases:
  "val_ty v = Ty_Bool \<Longrightarrow> \<exists>b. v = V_Bool b" "val_ty v = Ty_Int \<Longrightarrow> \<exists>i. v = V_Int i"
  "val_ty v = Ty_Str \<Longrightarrow> \<exists>s. v = V_Str s" "val_ty v = Ty_Null \<Longrightarrow> v = V_Null"
  by (cases v; simp)+

lemma frag_not_list_ty: "has_type src ph t u \<Longrightarrow> frag t \<Longrightarrow> u \<noteq> Ty_List"
proof (induction rule: has_type.induct)
  case (ty_attr b name a)
  then show ?case by (cases a) simp_all
qed (auto simp: is_scalar_ty_def)

lemma cmp_sem_int: "op \<notin> {BinOp_Eq, BinOp_Ne, BinOp_In} \<Longrightarrow> \<exists>b. cmp_sem op (V_Int i) (V_Int j) = Some (V_Bool b)"
  by (cases op) simp_all

lemma method_sem_str:
  assumes "m \<noteq> Method_Size" and "m \<noteq> Method_Matches" and "val_ty v = Ty_Str \<or> val_ty v = Ty_Null"
  shows "\<exists>b. method_sem ext m v (V_Str s) = Some (V_Bool b)"
  using assms by (cases m; cases v) (auto simp: str_sem_def)

lemma meaning_typed:
  assumes "has_type (z_src z) ph t u" and "frag t" and "strict t" and "regexes_built z t" and req: "typed_request (z_request z)"
  shows "yields_ty (sem z t) u"
  using assms(1-4)
proof (induction rule: has_type.induct)
  case (ty_attr b name a)
  then show ?case using req attr_from_path_path [of a] by (simp add: yields_ty_def typed_request_def)
next
  case (ty_size b t)
  show ?case
  proof (cases "\<exists>es. b = T_List es")
    case True
    then show ?thesis by (auto simp: yields_ty_def)
  next
    case False
    with ty_size.prems have b: "frag b" by (cases b) auto
    with ty_size frag_not_list_ty have "yields_ty (sem z b) Ty_Str" by fastforce
    then obtain s where "sem z b = Some (V_Str s)" using val_ty_cases(3) by (auto simp: yields_ty_def)
    with False show ?thesis by (cases b) (simp_all add: yields_ty_def size_sem_def)
  qed
next
  case (ty_method b t x m)
  then have "frag b" by (simp split: if_splits)
  with ty_method obtain v where v: "sem z b = Some v" "val_ty v = Ty_Str \<or> val_ty v = Ty_Null" by (auto simp: yields_ty_def)
  show ?case
  proof (cases "m = Method_Matches")
    case True
    with ty_method.prems obtain s re where "x = T_Str s" "regex_build (z_ext z) (str_at (z_strings z) s) (z_regex_size z) = Inr re"
      by (cases x) auto
    with v True show ?thesis by (cases v) (auto simp: yields_ty_def matches_sem_def match_sem_def)
  next
    case False
    with ty_method obtain w where "sem z x = Some w" "val_ty w = Ty_Str" by (auto simp: yields_ty_def split: if_splits)
    with v False ty_method.hyps method_sem_str [of m v] val_ty_cases(3) show ?thesis by (fastforce simp: yields_ty_def)
  qed
next
  case (ty_not t)
  then show ?case using val_ty_cases(1) by (fastforce simp: yields_ty_def not_sem_def)
next
  case (ty_and l r)
  then show ?case using val_ty_cases(1) by (fastforce simp: yields_ty_def)
next
  case (ty_or l r)
  then show ?case using val_ty_cases(1) by (fastforce simp: yields_ty_def)
next
  case (ty_equal l t r u op)
  then show ?case by (auto simp: yields_ty_def)
next
  case (ty_order l r op)
  then have "yields_ty (sem z l) Ty_Int" "yields_ty (sem z r) Ty_Int" by simp_all
  then obtain i j where "sem z l = Some (V_Int i)" "sem z r = Some (V_Int j)"
    by (auto simp: yields_ty_def dest!: val_ty_cases(2))
  with ty_order.hyps(3) cmp_sem_int [of op i j] show ?case by (auto simp: yields_ty_def)
next
  case (ty_in l t es)
  then show ?case by (auto simp: yields_ty_def)
next
  case (ty_ternary b x t y u v)
  have "t \<noteq> Ty_Null" "u \<noteq> Ty_Null" using strict_null ty_ternary.hyps(2,3) ty_ternary.prems(2) by auto
  with ty_ternary.hyps(4) have "v = t" "v = u" by auto
  with ty_ternary have "yields_ty (sem z x) v" "yields_ty (sem z y) v" "yields_ty (sem z b) Ty_Bool" by simp_all
  then show ?case by (auto simp: yields_ty_def dest!: val_ty_cases(1))
qed (simp_all add: yields_ty_def)

lemma check_typed:
  assumes "arena_of t a" and "n_nodes t \<le> usize_max" and "arity_ok t" and "check a strings src phase limits = Inr ck"
  shows "has_type src phase t (ck_result ck)"
proof -
  from assms(4) obtain js st where "tree_check (ctx_of src phase limits) False t ([], strings) = Inr (js, st)"
    "ni_ty (last js) \<noteq> Ty_Map" "ck_result ck = ni_ty (last js)"
    unfolding check_tree [OF assms(1,2)] tree_checked_def by (auto simp: and_then_Inr_iff split: if_splits)
  with tree_check_sound(1) [OF assms(3)] show ?thesis by (fastforce simp: info_ok_def ctx_of_reads)
qed

lemma check_keeps:
  assumes "arena_of t a" and "n_nodes t \<le> usize_max" and "check a strings src phase limits = Inr ck"
  shows "ck_ast ck = a \<and> length (ck_slots ck) \<le> max_attr_slots limits"
  using assms(3) unfolding check_tree [OF assms(1,2)] tree_checked_def by (auto simp: and_then_Inr_iff split: if_splits)

section \<open>Properties of compiled policies\<close>

text \<open>The policy \<^verbatim>\<open>request.method in ["GET", "PUT"] && request.path.startsWith("/api")\<close>.\<close>

definition layout :: "tree \<Rightarrow> ast" where
  "layout t = \<lparr>a_nodes = flat 0 0 t, a_args = flat_args 0 t, a_root = n_nodes t - 1, a_depth = 0\<rparr>"

definition api_src :: bytes where
  "api_src = ''request.method in [\"GET\", \"PUT\"] && request.path.startsWith(\"/api\")''"

definition api_tree :: tree where
  "api_tree =
     T_And
       (T_Bin BinOp_In (T_Field (T_Ident (mk_span 0 7)) (mk_span 8 14)) (T_List [T_Str (mk_span 0 3), T_Str (mk_span 3 6)]))
       (T_Call (T_Field (T_Ident (mk_span 36 43)) (mk_span 44 48)) Method_StartsWith [T_Str (mk_span 6 10)])"

definition api_checked :: checked where
  "api_checked =
     (case check (layout api_tree) ''GETPUT/api'' api_src RequestHeaders limits_defaults of Inr ck \<Rightarrow> ck | Inl _ \<Rightarrow> demo_checked)"

definition api_prog :: "bytes program" where
  "api_prog = (case compile demo_ext api_checked limits_defaults of Inr p \<Rightarrow> p | Inl _ \<Rightarrow> demo_prog)"

definition typed_src :: attr_source where
  "typed_src =
     \<lparr>scalar = (\<lambda>a. if a = RequestMethod then V_Str ''GET'' else if a = RequestPath then V_Str ''/api/v1''
        else (case attr_ty a of Ty_Bool \<Rightarrow> V_Bool False | Ty_Int \<Rightarrow> V_Int 0 | _ \<Rightarrow> V_Str [])),
      field = (\<lambda>m k. Absent)\<rparr>"

lemma layout_arena: "arena_of t (layout t)"
  by (simp add: arena_of_def layout_def)

lemma api_check: "check (layout api_tree) ''GETPUT/api'' api_src RequestHeaders limits_defaults = Inr api_checked"
  by code_simp

lemma api_compile: "compile demo_ext api_checked limits_defaults = Inr api_prog"
  by code_simp

lemma api_ok: "n_nodes api_tree \<le> u16_max" "frag api_tree" "strict api_tree"
  by (simp_all add: api_tree_def u16_max_def)

lemma demo_regex_names: "regex_names demo_ext"
  by (simp add: regex_names_def demo_ext_def)

lemma defaults_valid: "limits_validate limits_defaults = Inr ()"
  by (simp add: limits_validate_ok_iff limits_defaults_def)

lemma typed_src_typed: "typed_request typed_src"
  unfolding typed_request_def
proof
  show "val_ty (scalar typed_src a) = attr_ty a" for a by (cases a) (simp_all add: typed_src_def)
qed

lemma api_meaning:
  "sem (policy_scene demo_ext api_checked limits_defaults api_src typed_src) api_tree = Some (V_Bool True)"
  "length (p_slots api_prog) = 2" "ck_result api_checked = Ty_Bool"
  by code_simp+

text \<open>
  C3. Compiler correctness. Take a policy that \<^verbatim>\<open>check\<close> accepted and \<^verbatim>\<open>compile\<close> turned into a program,
  under validated limits, with the expression in the fragment where lists are literal operands of
  \<^verbatim>\<open>in\<close> and \<^verbatim>\<open>.size()\<close> and maps are not indexed, and with a regex engine that reports the pattern it
  was built from. Then for every request the evaluator returns exactly the meaning of the
  expression on that request, defined by recursion on its tree: the value if there is one, and a
  type error otherwise. Short-circuit jumps, interned constants and regexes, folded lists and
  slots do not show.
\<close>

theorem compile_correct:
  assumes "arena_of t a" and "n_nodes t \<le> u16_max" and "check a strings src phase limits = Inr ck"
    and "compile ext ck limits = Inr p" and "frag t" and "regex_names ext" and "limits_validate limits = Inr ()"
  shows "result_of (sem (policy_scene ext ck limits src asrc) t) (fst (eval ext p (env_new asrc (length (p_slots p)) n)))"
  by (rule compiled_result [OF assms])

theorem compile_correct_witness:
  "frag api_tree \<and> compile demo_ext api_checked limits_defaults = Inr api_prog \<and>
   fst (eval demo_ext api_prog (env_new typed_src 2 0)) = Inr (V_Bool True)"
  using compile_correct [OF layout_arena api_ok(1) api_check api_compile api_ok(2) demo_regex_names defaults_valid,
    of typed_src 0] api_ok(2) api_compile
  unfolding api_meaning result_of_def by simp

text \<open>
  C15. Type safety of admitted policies. In the setting of compiler correctness, if no ternary has a
  null branch and the request gives every attribute a value of its declared type, evaluation
  succeeds, and the value has the result type the checker announced.
\<close>

theorem compiled_type_safe:
  assumes "arena_of t a" and "n_nodes t \<le> u16_max" and "check a strings src phase limits = Inr ck"
    and "compile ext ck limits = Inr p" and "frag t" and "regex_names ext" and "limits_validate limits = Inr ()"
    and "strict t" and "typed_request asrc"
  shows "\<exists>v. fst (eval ext p (env_new asrc (length (p_slots p)) n)) = Inr v \<and> val_ty v = ck_result ck"
proof -
  let ?z = "policy_scene ext ck limits src asrc"
  have z: "z_src ?z = src" "z_request ?z = asrc" by (simp_all add: policy_scene_def)
  have "has_type src phase t (ck_result ck)"
    using check_typed [OF assms(1) _ frag_arity [OF assms(5)] assms(3)] assms(2) by (simp add: u16_max_def usize_max_def)
  then have "yields_ty (sem ?z t) (ck_result ck)"
    using meaning_typed [of ?z phase t] impl_regexes compile_impl(3) [OF assms(1-7), unfolded scene_of_ctx] assms(5,8,9) z by metis
  with compiled_result [OF assms(1-7), of asrc n] show ?thesis by (auto simp: yields_ty_def result_of_def)
qed

theorem compiled_type_safe_witness:
  "strict api_tree \<and> typed_request typed_src \<and>
   (\<exists>v. fst (eval demo_ext api_prog (env_new typed_src 2 0)) = Inr v \<and> val_ty v = Ty_Bool)"
  using compiled_type_safe [OF layout_arena api_ok(1) api_check api_compile api_ok(2) demo_regex_names defaults_valid
      api_ok(3) typed_src_typed, of 0] api_ok(3) typed_src_typed
  unfolding api_meaning by simp

section \<open>Compiled programs load no list\<close>

definition loads_ok :: "'r cctx \<Rightarrow> 'r cstate \<Rightarrow> bool" where
  "loads_ok c g \<longleftrightarrow> length (g_consts g) \<le> max_consts (m_limits c) \<and> max_consts (m_limits c) \<le> u16_max \<and>
     (\<forall>n. Op_LoadConst n \<in> set (g_code g) \<longrightarrow> n < length (g_consts g) \<and> leaf (g_consts g ! n))"

lemma loads_ok_intern:
  assumes "intern_const c w g = Inr (n, g')" and ok: "loads_ok c g"
  shows "loads_ok c g'" and "leaf w \<Longrightarrow> n < length (g_consts g') \<and> leaf (g_consts g' ! n)"
proof -
  consider (old) "g' = g" "n < length (g_consts g)"
      "const_eq CONST_EQ_FUEL (g_consts g ! n) w (ck_strings (m_checked c)) (g_list_elems g)"
    | (new) "g' = g\<lparr>g_consts := g_consts g @ [w]\<rparr>" "n = length (g_consts g)" "n < max_consts (m_limits c)"
  proof (cases "position (\<lambda>x. const_eq CONST_EQ_FUEL x w (ck_strings (m_checked c)) (g_list_elems g)) (g_consts g)")
    case None
    with assms new show ?thesis by (auto simp: intern_const_def loads_ok_def to_u16_def split: if_splits)
  next
    case (Some i)
    from position_Some [OF Some] Some assms old show ?thesis
      by (auto simp: intern_const_def loads_ok_def to_u16_def split: if_splits)
  qed
  note c = this
  from c show "loads_ok c g'" using ok by cases (auto simp: loads_ok_def nth_append)
  assume "leaf w"
  with c show "n < length (g_consts g') \<and> leaf (g_consts g' ! n)"
    by cases (auto simp: CONST_EQ_FUEL_def numeral_2_eq_2 dest: const_eq_other)
qed

lemma loads_ok_push:
  "loads_ok c (push_op op g) \<longleftrightarrow>
     loads_ok c g \<and> (\<forall>n. op = Op_LoadConst n \<longrightarrow> n < length (g_consts g) \<and> leaf (g_consts g ! n))"
  by (auto simp: loads_ok_def)

lemma loads_ok_open: "loads_ok c g \<Longrightarrow> loads_ok c (snd (gen_open h g))"
proof (cases h)
  case (Some k)
  then show "loads_ok c g \<Longrightarrow> loads_ok c (snd (gen_open h g))" by (cases k) (simp_all add: gen_open_def loads_ok_push)
qed simp

lemma retarget_load: "retarget op target = Op_LoadConst n \<Longrightarrow> op = Op_LoadConst n"
  by (cases op) simp_all

lemma loads_ok_patch:
  assumes "loads_ok c g"
  shows "loads_ok c (gen_patch p target g)"
proof (cases "get (g_code g) p")
  case (Some op)
  then have op: "op \<in> set (g_code g)" by auto
  have "Op_LoadConst n \<in> set (g_code g)" if "Op_LoadConst n \<in> set ((g_code g)[p := retarget op target])" for n
  proof -
    from that have "Op_LoadConst n = retarget op target \<or> Op_LoadConst n \<in> set (g_code g)"
      using set_update_subset_insert [of "g_code g" p "retarget op target"] by blast
    with op retarget_load [of op target n] show ?thesis by metis
  qed
  with assms Some show ?thesis by (simp add: loads_ok_def gen_patch_def)
qed (use assms in \<open>simp add: gen_patch_def\<close>)

lemma loads_ok_leaf:
  assumes "and_then (intern_const c w g) (\<lambda>(n, g). Inr (push_op (Op_LoadConst n) g)) = Inr g'" and "leaf w" and "loads_ok c g"
  shows "loads_ok c g'"
  using assms loads_ok_intern [of c w g] by (auto simp: and_then_Inr_iff loads_ok_push)

lemma loads_ok_gen_leaf: "gen_leaf c s w g = Inr g' \<Longrightarrow> leaf w \<Longrightarrow> loads_ok c g \<Longrightarrow> loads_ok c g'"
  using loads_ok_leaf by (auto simp: gen_leaf_def split: if_splits)

lemma loads_ok_regex: "intern_regex c pattern at g = Inr (n, g') \<Longrightarrow> loads_ok c g \<Longrightarrow> loads_ok c g'"
  by (auto simp: intern_regex_def and_then_Inr_iff loads_ok_def split: option.splits if_splits)

lemma loads_ok_list: "gen_list c ts g = Inr (n, g') \<Longrightarrow> loads_ok c g \<Longrightarrow> loads_ok c g'"
  using loads_ok_intern(1) [of c _ "g\<lparr>g_list_elems := g_list_elems g @ map leaf_of ts\<rparr>"]
  by (simp add: gen_list_def loads_ok_def)

lemma loads_ok_top:
  assumes "gen_top c k s t iss g = Inr (n, g')" and "loads_ok c g"
  shows "loads_ok c g'"
proof (cases t)
  case (T_Bin op l r)
  then show ?thesis using assms by (cases op) (auto simp: loads_ok_push)
next
  case (T_Call b m ts)
  have opcode: "method_op m \<noteq> Op_LoadConst i" for i by (cases m) simp_all
  have size: "loads_ok c g''" if "gen_size c b g = Inr g''" for g''
    using that loads_ok_leaf [OF _ _ assms(2), of "Const_Int _"] assms(2)
    by (cases b) (auto simp: gen_size_def loads_ok_push)
  have "loads_ok c g''" if "gen_matches c ts g = Inr g''" for g''
    using that assms(2) loads_ok_regex
    by (auto simp: gen_matches_def and_then_Inr_iff loads_ok_push split: if_splits prod.splits)
  with size opcode T_Call assms show ?thesis by (auto simp: and_then_Inr_iff loads_ok_push split: if_splits)
next
  case (T_List ts)
  then show ?thesis using assms loads_ok_list by simp
qed (use assms in \<open>auto simp: and_then_Inr_iff gen_attr_def loads_ok_push Let_def intro: loads_ok_patch
  elim!: loads_ok_gen_leaf split: if_splits\<close>)

lemma loads_ok_gen:
  "gen c i h s t g = Inr (js, g') \<Longrightarrow> loads_ok c g \<Longrightarrow> loads_ok c g'"
  "gens c i hs ss ts g = Inr (iss, g') \<Longrightarrow> loads_ok c g \<Longrightarrow> loads_ok c g'"
proof (induction c i h s t g and c i hs ss ts g arbitrary: js g' and iss g' rule: gen_gens.induct)
  case (1 c i h s t g)
  from 1(2) obtain iss g1 n where kids: "gens c i (child_holes h t) (child_sups t) (children t) g = Inr (iss, g1)"
    and top: "gen_top c (root_at i t) s t iss (snd (gen_open (top_hole h t) g1)) = Inr (n, g')"
    by (auto simp: gen.simps [of c i h s t] and_then_Inr_iff gen_node_open)
  show ?case by (rule loads_ok_top [OF top loads_ok_open [OF 1(1) [OF kids 1(3)]]])
next
  case (3 c i hs ss t ts g)
  then show ?case by (fastforce simp: and_then_Inr_iff)
qed simp

lemma compile_gen_parts:
  assumes "arena_of t (ck_ast ck)" and "n_nodes t \<le> usize_max" and "compile ext ck limits = Inr p"
  obtains js g m where "gen (gen_ctx ext ck limits) 0 None False t gen_start = Inr (js, g)" "p = program_of ck g m"
    "program_verified p limits"
  using assms(3) unfolding compile_gen [OF assms(1,2)] gen_compile_def
  by (auto simp: and_then_Inr_iff map_err_Inr_iff program_verified_def program_of_def)

lemma compiled_runs:
  assumes "arena_of t (ck_ast ck)" and "n_nodes t \<le> usize_max" and "compile ext ck limits = Inr p"
    and "limits_validate limits = Inr ()" and "length (ck_slots ck) \<le> max_attr_slots limits"
  shows "case fst (eval ext p (env_new asrc (length (p_slots p)) n)) of
      Inr v \<Rightarrow> True
    | Inl (TypeError at) \<Rightarrow> at < length (p_ops p)
    | Inl _ \<Rightarrow> False"
proof -
  obtain js g m where gen: "gen (gen_ctx ext ck limits) 0 None False t gen_start = Inr (js, g)" and p: "p = program_of ck g m"
    and pv: "program_verified p limits" by (rule compile_gen_parts [OF assms(1-3)])
  note lim = assms(4) [unfolded limits_validate_ok_iff]
  have "loads_ok (gen_ctx ext ck limits) gen_start" using lim by (simp add: loads_ok_def gen_start_def gen_ctx_def u16_max_def)
  from loads_ok_gen(1) [OF gen this]
  have "leaf (g_consts g ! k) \<and> k < length (g_consts g)" if "Op_LoadConst k \<in> set (g_code g)" for k
    using that by (simp add: loads_ok_def)
  then have "\<not> loads_list p pc" if "pc < length (p_ops p)" for pc
    using that nth_mem [OF that] by (fastforce simp: loads_list_def p program_of_def)
  moreover have "max_ops limits \<le> u16_max" "length (p_slots p) \<le> MAX_SLOTS"
    using lim assms(5) by (simp_all add: u16_max_def MAX_SLOTS_def p program_of_def)
  from eval_runs [OF pv this, of ext asrc n] obtain r env' where "eval ext p (env_new asrc (length (p_slots p)) n) = (r, env')"
    "\<forall>e. r = Inl e \<longrightarrow> run_error p e" by blast
  moreover have "to_u16 pc = pc" if "pc < length (p_ops p)" for pc
    using that pv lim by (elim program_verified_D) (simp add: to_u16_def u16_max_def)
  ultimately show ?thesis by (auto simp: run_error_def split: sum.split)
qed

text \<open>
  Every policy the compiler admits runs safely, inside the fragment or not. With validated limits
  and as many slots as the checker allows, evaluating the program \<^verbatim>\<open>compile\<close> returns for the arena of
  an expression yields a value, or a type error at an instruction of the program. The program
  counter stays in the code, the operand stack neither under- nor overflows, the step budget is not
  exhausted, and no list is loaded as an operand.
\<close>

theorem compiled_program_safe:
  assumes "arena_of t (ck_ast ck)" and "n_nodes t \<le> usize_max" and "compile ext ck limits = Inr p"
    and "limits_validate limits = Inr ()" and "length (ck_slots ck) \<le> max_attr_slots limits"
  shows "case fst (eval ext p (env_new asrc (length (p_slots p)) n)) of
      Inr v \<Rightarrow> True
    | Inl (TypeError at) \<Rightarrow> at < length (p_ops p)
    | Inl _ \<Rightarrow> False"
  by (rule compiled_runs [OF assms])

theorem compiled_program_safe_witness:
  "compile demo_ext api_checked limits_defaults = Inr api_prog \<and>
   (case fst (eval demo_ext api_prog (env_new demo_src 2 0)) of
      Inr v \<Rightarrow> True
    | Inl (TypeError at) \<Rightarrow> at < length (p_ops api_prog)
    | Inl _ \<Rightarrow> False)"
proof -
  have "ck_ast api_checked = layout api_tree" "length (ck_slots api_checked) \<le> max_attr_slots limits_defaults" by code_simp+
  then show ?thesis
    using compiled_program_safe [of api_tree api_checked demo_ext limits_defaults api_prog demo_src 0] layout_arena [of api_tree]
      api_compile defaults_valid api_meaning(2) api_ok(1) by (simp add: u16_max_def usize_max_def)
qed

section \<open>Outside the fragment\<close>

text \<open>\<^verbatim>\<open>request.headers["x-a"] == "b"\<close>.\<close>

definition index_src :: bytes where
  "index_src = ''request.headers[\"x-a\"] == \"b\"''"

definition index_tree :: tree where
  "index_tree = T_Bin BinOp_Eq (T_Index (T_Field (T_Ident (mk_span 0 7)) (mk_span 8 15)) (T_Str (mk_span 0 3))) (T_Str (mk_span 3 4))"

text \<open>\<^verbatim>\<open>(connection.tls ? [request.method] : [request.path]).size()\<close>.\<close>

definition listed_src :: bytes where
  "listed_src = ''(connection.tls ? [request.method] : [request.path]).size()''"

definition listed_tree :: tree where
  "listed_tree =
     T_Call (T_Ternary (T_Field (T_Ident (mk_span 1 11)) (mk_span 12 15))
         (T_List [T_Field (T_Ident (mk_span 19 26)) (mk_span 27 33)])
         (T_List [T_Field (T_Ident (mk_span 38 45)) (mk_span 46 50)]))
       Method_Size []"

text \<open>\<^verbatim>\<open>(connection.tls ? null : request.method).size()\<close>.\<close>

definition null_src :: bytes where
  "null_src = ''(connection.tls ? null : request.method).size()''"

definition null_tree :: tree where
  "null_tree =
     T_Call (T_Ternary (T_Field (T_Ident (mk_span 1 11)) (mk_span 12 15)) T_Null
         (T_Field (T_Ident (mk_span 25 32)) (mk_span 33 39)))
       Method_Size []"

text \<open>Check, compile and run the policy of a tree.\<close>

definition run_tree :: "tree \<Rightarrow> bytes \<Rightarrow> bytes \<Rightarrow> attr_source \<Rightarrow> check_error + compile_error + eval_error + val" where
  "run_tree t strings src asrc =
     and_then (check (layout t) strings src RequestHeaders limits_defaults) (\<lambda>ck.
       Inr (and_then (compile demo_ext ck limits_defaults) (\<lambda>p.
         Inr (fst (eval demo_ext p (env_new asrc (length (p_slots p)) 0))))))"




end
