(* ===== verification/Policy_Lex.thy ===== *)
theory Policy_Lex
  imports Policy_Ast Policy_Attrs Rust_Str "HOL-Library.Code_Target_Nat"
begin

text \<open>
  The lexer (\<^verbatim>\<open>lex.rs\<close>, and \<^verbatim>\<open>LexError\<close> of \<^verbatim>\<open>token.rs\<close>): string literal decoding with every escape,
  integers, keywords, and \<^verbatim>\<open>lex\<close> with its limits. The scanner the \<^verbatim>\<open>logos\<close> crate generates from the
  attributes of \<^verbatim>\<open>RawTok\<close> is a parameter: the list of raw tokens, or scanning errors, with their byte
  ranges. The lemmas show that decoding accepts exactly the literals of the grammar, and what a
  token stream looks like.
\<close>

unbundle bit_operations_syntax

section \<open>Errors and raw tokens\<close>

datatype lex_error =
    UnexpectedByte nat byte
  | UnterminatedString nat
  | BadEscape nat
  | BadUnicodeEscape nat
  | IntOverflow nat
  | SourceTooLong nat nat
  | TooManyTokens nat
  | StringTooLong nat nat
  | NotUtf8 nat

fun lex_error_at :: "lex_error \<Rightarrow> nat" where
  "lex_error_at (UnexpectedByte at _) = at"
| "lex_error_at (UnterminatedString at) = at"
| "lex_error_at (BadEscape at) = at"
| "lex_error_at (BadUnicodeEscape at) = at"
| "lex_error_at (IntOverflow at) = at"
| "lex_error_at (StringTooLong at _) = at"
| "lex_error_at (NotUtf8 at) = at"
| "lex_error_at _ = 0"

datatype raw_tok =
    Raw_RawStr | Raw_RawInt | Raw_Ident
  | Raw_LParen | Raw_RParen | Raw_LBracket | Raw_RBracket | Raw_Comma | Raw_Dot
  | Raw_Question | Raw_Colon | Raw_BangEq | Raw_Bang | Raw_AndAnd | Raw_OrOr
  | Raw_EqEq | Raw_Le | Raw_Lt | Raw_Ge | Raw_Gt

text \<open>One item of \<^verbatim>\<open>RawTok::lexer(src).spanned()\<close>.\<close>

type_synonym raw_item = "(unit + raw_tok) \<times> nat \<times> nat"

text \<open>\<^verbatim>\<open>offset as u32\<close>.\<close>

definition offset_to_u32 :: "nat \<Rightarrow> nat" where
  "offset_to_u32 n = n mod 2 ^ 32"

text \<open>None is the \<^verbatim>\<open>unreachable!\<close> arm.\<close>

fun raw_to_tok :: "raw_tok \<Rightarrow> tok option" where
  "raw_to_tok Raw_LParen = Some Tok_LParen"
| "raw_to_tok Raw_RParen = Some Tok_RParen"
| "raw_to_tok Raw_LBracket = Some Tok_LBracket"
| "raw_to_tok Raw_RBracket = Some Tok_RBracket"
| "raw_to_tok Raw_Comma = Some Tok_Comma"
| "raw_to_tok Raw_Dot = Some Tok_Dot"
| "raw_to_tok Raw_Question = Some Tok_Question"
| "raw_to_tok Raw_Colon = Some Tok_Colon"
| "raw_to_tok Raw_BangEq = Some Tok_BangEq"
| "raw_to_tok Raw_Bang = Some Tok_Bang"
| "raw_to_tok Raw_AndAnd = Some Tok_AndAnd"
| "raw_to_tok Raw_OrOr = Some Tok_OrOr"
| "raw_to_tok Raw_EqEq = Some Tok_EqEq"
| "raw_to_tok Raw_Le = Some Tok_Le"
| "raw_to_tok Raw_Lt = Some Tok_Lt"
| "raw_to_tok Raw_Ge = Some Tok_Ge"
| "raw_to_tok Raw_Gt = Some Tok_Gt"
| "raw_to_tok _ = None"

definition keyword_or_ident :: "bytes \<Rightarrow> span \<Rightarrow> tok" where
  "keyword_or_ident src span =
     (let s = span_slice span src in
      if s = Some ''true'' then Tok_Bool True
      else if s = Some ''false'' then Tok_Bool False
      else if s = Some ''null'' then Tok_Null
      else if s = Some ''in'' then Tok_In
      else Tok_Ident span)"

definition parse_i64 :: "bytes \<Rightarrow> span \<Rightarrow> int option" where
  "parse_i64 src span =
     Option.bind (span_slice span src) (\<lambda>bytes. if utf8_valid bytes then str_parse_i64 bytes else None)"

section \<open>String literals\<close>

definition hex_digit :: "byte \<Rightarrow> nat option" where
  "hex_digit c =
     (let b = byte_val c in
      if 48 \<le> b \<and> b \<le> 57 then Some (b - 48)
      else if 97 \<le> b \<and> b \<le> 102 then Some (b - 97 + 10)
      else if 65 \<le> b \<and> b \<le> 70 then Some (b - 65 + 10)
      else None)"

definition hex_byte :: "byte option \<Rightarrow> byte option \<Rightarrow> byte option" where
  "hex_byte hi lo =
     Option.bind (Option.bind hi hex_digit) (\<lambda>hi.
     Option.bind (Option.bind lo hex_digit) (\<lambda>lo. Some (char_of (push_bit 4 hi OR lo))))"

definition hex_u16 :: "byte option \<Rightarrow> byte option \<Rightarrow> byte option \<Rightarrow> byte option \<Rightarrow> nat option" where
  "hex_u16 a b c d =
     Option.bind (Option.bind a hex_digit) (\<lambda>a.
     Option.bind (Option.bind b hex_digit) (\<lambda>b.
     Option.bind (Option.bind c hex_digit) (\<lambda>c.
     Option.bind (Option.bind d hex_digit) (\<lambda>d.
       Some (push_bit 12 a OR push_bit 8 b OR push_bit 4 c OR d)))))"

text \<open>The escapes of one character.\<close>

definition simple_escape :: "byte \<Rightarrow> byte option" where
  "simple_escape esc =
     (if esc = CHR ''n'' then Some (CHR 0x0A)
      else if esc = CHR ''r'' then Some (CHR 0x0D)
      else if esc = CHR ''t'' then Some (CHR 0x09)
      else if esc = CHR 0x5C then Some (CHR 0x5C)
      else if esc = CHR 0x22 then Some (CHR 0x22)
      else if esc = CHR 0x27 then Some (CHR 0x27)
      else if esc = CHR ''0'' then Some (CHR 0x00)
      else None)"

text \<open>The loop over the bytes of an encoded scalar value, each push checked against the limit.\<close>

fun push_bytes :: "nat \<Rightarrow> nat \<Rightarrow> nat \<Rightarrow> bytes \<Rightarrow> bytes \<Rightarrow> lex_error + bytes" where
  "push_bytes quote_offset arena_start maxb [] out = Inr out"
| "push_bytes quote_offset arena_start maxb (b # bs) out =
     (if maxb \<le> length out - arena_start then Inl (StringTooLong quote_offset maxb)
      else push_bytes quote_offset arena_start maxb bs (out @ [b]))"

text \<open>
  The loop of \<^verbatim>\<open>decode_string\<close>. The positions stay within six of a slice length, so the saturating
  additions on \<^verbatim>\<open>pos\<close> do not saturate and are written as additions; the offsets in errors are
  \<^verbatim>\<open>u32\<close> and saturate.
\<close>

definition slash_offset_of :: "nat \<Rightarrow> nat \<Rightarrow> nat" where
  "slash_offset_of quote_offset pos = min (min (quote_offset + 1) u32_max + to_u32 pos) u32_max"

function decode_loop :: "nat \<Rightarrow> nat \<Rightarrow> nat \<Rightarrow> bytes \<Rightarrow> nat \<Rightarrow> bytes \<Rightarrow> lex_error + bytes" where
  "decode_loop quote_offset arena_start maxb content pos out =
     (if pos < length content
      then if maxb \<le> length out - arena_start then Inl (StringTooLong quote_offset maxb)
      else (case get content pos of
          None \<Rightarrow> Inl (UnterminatedString quote_offset)
        | Some byte \<Rightarrow>
            if byte \<noteq> CHR 0x5C then decode_loop quote_offset arena_start maxb content (pos + 1) (out @ [byte])
            else (let slash_offset = slash_offset_of quote_offset pos in
              case get content (pos + 1) of
                None \<Rightarrow> Inl (BadEscape slash_offset)
              | Some esc \<Rightarrow>
                  (case simple_escape esc of
                     Some b \<Rightarrow> decode_loop quote_offset arena_start maxb content (pos + 2) (out @ [b])
                   | None \<Rightarrow>
                       if esc = CHR ''x''
                       then and_then (ok_or (hex_byte (get content (pos + 2)) (get content (pos + 3))) (BadEscape slash_offset))
                         (\<lambda>decoded.
                           if maxb \<le> length out - arena_start then Inl (StringTooLong quote_offset maxb)
                           else decode_loop quote_offset arena_start maxb content (pos + 4) (out @ [decoded]))
                       else if esc = CHR ''u''
                       then and_then (ok_or (hex_u16 (get content (pos + 2)) (get content (pos + 3)) (get content (pos + 4))
                            (get content (pos + 5))) (BadEscape slash_offset))
                         (\<lambda>code.
                           if 0xD800 \<le> code \<and> code \<le> 0xDFFF then Inl (BadUnicodeEscape slash_offset)
                           else and_then (ok_or (char_from_u32 code) (BadUnicodeEscape slash_offset)) (\<lambda>ch.
                             and_then (push_bytes quote_offset arena_start maxb (encode_utf8 ch) out) (\<lambda>out.
                               decode_loop quote_offset arena_start maxb content (pos + 6) out)))
                       else Inl (BadEscape slash_offset))))
      else Inr out)"
  by pat_completeness auto
termination
  by (relation "measure (\<lambda>(q, a, m, content, pos, out). length content - pos)") auto

declare decode_loop.simps [simp del]

definition decode_string :: "bytes \<Rightarrow> span \<Rightarrow> bytes \<Rightarrow> nat \<Rightarrow> nat \<Rightarrow> lex_error + bytes" where
  "decode_string src span out arena_start maxb =
     and_then (ok_or (span_slice span src) (UnterminatedString (sp_start span))) (\<lambda>bytes.
       if length bytes < 2 then Inl (UnterminatedString (sp_start span))
       else and_then (ok_or (get_range bytes 1 (length bytes - 1)) (UnterminatedString (sp_start span))) (\<lambda>content.
         decode_loop (sp_start span) arena_start maxb content 0 out))"

section \<open>The lexer\<close>

definition push_tok :: "tok \<Rightarrow> span \<Rightarrow> token_stream \<Rightarrow> token_stream" where
  "push_tok t span ts = ts\<lparr>ts_toks := ts_toks ts @ [\<lparr>s_tok = t, s_span = span\<rparr>]\<rparr>"

text \<open>One round of the loop; None is a panic.\<close>

definition lex_item :: "bytes \<Rightarrow> policy_limits \<Rightarrow> raw_item \<Rightarrow> token_stream \<Rightarrow> (lex_error + token_stream) option" where
  "lex_item src limits item out =
     (let (token, a, b) = item; start = offset_to_u32 a; tok_span = mk_span start (offset_to_u32 b) in
      if max_tokens limits \<le> length (ts_toks out) then Some (Inl (TooManyTokens (max_tokens limits)))
      else (case token of
          Inl _ \<Rightarrow>
            let byte = (case get src a of None \<Rightarrow> CHR 0x00 | Some byte \<Rightarrow> byte)
            in if byte = CHR 0x22 \<or> byte = CHR 0x27 then Some (Inl (UnterminatedString start))
               else Some (Inl (UnexpectedByte start byte))
        | Inr raw \<Rightarrow>
            if raw = Raw_RawStr
            then (let arena_start = length (ts_strings out) in
              Some (and_then (decode_string src tok_span (ts_strings out) arena_start (max_string_bytes limits)) (\<lambda>strings.
                Inr (push_tok (Tok_Str (mk_span (offset_to_u32 arena_start) (offset_to_u32 (length strings)))) tok_span
                  (out\<lparr>ts_strings := strings\<rparr>)))))
            else if raw = Raw_RawInt
            then Some (and_then (ok_or (parse_i64 src tok_span) (IntOverflow start)) (\<lambda>v.
              Inr (push_tok (Tok_Int v) tok_span out)))
            else if raw = Raw_Ident then Some (Inr (push_tok (keyword_or_ident src tok_span) tok_span out))
            else map_option (\<lambda>t. Inr (push_tok t tok_span out)) (raw_to_tok raw)))"

fun lex_loop :: "bytes \<Rightarrow> policy_limits \<Rightarrow> raw_item list \<Rightarrow> token_stream \<Rightarrow> (lex_error + token_stream) option" where
  "lex_loop src limits [] out = Some (Inr out)"
| "lex_loop src limits (item # items) out =
     (case lex_item src limits item out of
        None \<Rightarrow> None
      | Some (Inl e) \<Rightarrow> Some (Inl e)
      | Some (Inr out) \<Rightarrow> lex_loop src limits items out)"

definition lex_tokens :: "(bytes \<Rightarrow> raw_item list) \<Rightarrow> bytes \<Rightarrow> policy_limits \<Rightarrow> (lex_error + token_stream) option" where
  "lex_tokens scan src limits =
     (if max_source_bytes limits < length src then Some (Inl (SourceTooLong (length src) (max_source_bytes limits)))
      else (case utf8_upto 0 src of
          Some at \<Rightarrow> Some (Inl (NotUtf8 (offset_to_u32 at)))
        | None \<Rightarrow> lex_loop src limits (scan src) \<lparr>ts_toks = [], ts_strings = []\<rparr>))"

section \<open>Decoding accepts exactly the literals of the grammar\<close>

text \<open>What a literal's content spells: \<^verbatim>\<open>STRING\<close> of the grammar in \<^verbatim>\<open>lib.rs\<close>, with the value of every
  escape.\<close>

inductive spells :: "bytes \<Rightarrow> bytes \<Rightarrow> bool" where
  sp_end: "spells [] []"
| sp_char: "b \<noteq> CHR 0x5C \<Longrightarrow> spells c s \<Longrightarrow> spells (b # c) (b # s)"
| sp_simple: "simple_escape e = Some b \<Longrightarrow> spells c s \<Longrightarrow> spells (CHR 0x5C # e # c) (b # s)"
| sp_hex: "hex_digit h = Some x \<Longrightarrow> hex_digit l = Some y \<Longrightarrow> spells c s \<Longrightarrow>
    spells (CHR 0x5C # CHR ''x'' # h # l # c) (char_of (16 * x + y) # s)"
| sp_unicode: "map hex_digit [h1, h2, h3, h4] = [Some x1, Some x2, Some x3, Some x4] \<Longrightarrow>
    code = 4096 * x1 + 256 * x2 + 16 * x3 + x4 \<Longrightarrow> \<not> (0xD800 \<le> code \<and> code \<le> 0xDFFF) \<Longrightarrow> spells c s \<Longrightarrow>
    spells (CHR 0x5C # CHR ''u'' # h1 # h2 # h3 # h4 # c) (encode_utf8 code @ s)"

lemma hex_digit_bound: "hex_digit c = Some x \<Longrightarrow> x < 16"
  by (auto simp: hex_digit_def Let_def split: if_splits)

lemma push_or_add:
  assumes "y < 2 ^ k"
  shows "push_bit k x OR y = x * 2 ^ k + (y :: nat)"
proof -
  have "bit y n \<Longrightarrow> n < k" for n using assms bit_take_bit_iff [of k y n] by (simp add: take_bit_nat_eq_self)
  then have "\<not> (k \<le> n \<and> bit y n)" for n using not_le by blast
  then have "push_bit k x AND y = 0" by (simp add: bit_eq_iff bit_simps)
  then show ?thesis using disjunctive_add_eq_or [of "push_bit k x" y] by (simp add: push_bit_eq_mult)
qed

lemma hex_byte_Some:
  "hex_byte (Some h) (Some l) = Some b \<longleftrightarrow>
     (\<exists>x y. hex_digit h = Some x \<and> hex_digit l = Some y \<and> b = char_of (16 * x + y))"
proof -
  have "push_bit 4 x OR y = 16 * x + y" if "hex_digit l = Some y" for x y
    using push_or_add [of y 4 x] hex_digit_bound [OF that] by simp
  then show ?thesis by (auto simp: hex_byte_def bind_eq_Some_conv)
qed

lemma hex_u16_Some:
  "hex_u16 (Some h1) (Some h2) (Some h3) (Some h4) = Some code \<longleftrightarrow>
     (\<exists>x1 x2 x3 x4. map hex_digit [h1, h2, h3, h4] = [Some x1, Some x2, Some x3, Some x4] \<and>
        code = 4096 * x1 + 256 * x2 + 16 * x3 + x4)"
proof -
  have "push_bit 12 x1 OR push_bit 8 x2 OR push_bit 4 x3 OR x4 = 4096 * x1 + 256 * x2 + 16 * x3 + x4"
    if "hex_digit h2 = Some x2" "hex_digit h3 = Some x3" "hex_digit h4 = Some x4" for x1 x2 x3 x4
    using that [THEN hex_digit_bound] push_or_add [of x4 4 x3] push_or_add [of "x3 * 16 + x4" 8 x2]
      push_or_add [of "x2 * 256 + (x3 * 16 + x4)" 12 x1] by simp
  then show ?thesis by (auto simp: hex_u16_def bind_eq_Some_conv)
qed

lemma drop_Cons_iff: "drop n xs = y # ys \<longleftrightarrow> get xs n = Some y \<and> drop (n + 1) xs = ys"
  by (cases "n < length xs") (auto simp: Cons_nth_drop_Suc [symmetric])

lemma drop_get: "drop n xs = ys \<Longrightarrow> k < length ys \<Longrightarrow> get xs (n + k) = Some (ys ! k) \<and> n + k < length xs"
  by auto

lemma push_bytes_ok:
  "a \<le> length out \<Longrightarrow> length out - a + length bs \<le> m \<Longrightarrow> push_bytes q a m bs out = Inr (out @ bs)"
  by (induction bs arbitrary: out) auto

lemma push_bytes_Inr:
  "push_bytes q a m bs out = Inr out' \<Longrightarrow> a \<le> length out \<Longrightarrow> length out - a \<le> m \<Longrightarrow> out' = out @ bs \<and> length out' - a \<le> m"
proof (induction bs arbitrary: out)
  case (Cons b bs)
  from Cons.prems have "push_bytes q a m bs (out @ [b]) = Inr out'" "length (out @ [b]) - a \<le> m"
    by (auto split: if_splits)
  then have "out' = (out @ [b]) @ bs \<and> length out' - a \<le> m" using Cons.prems(2) by (intro Cons.IH) simp_all
  then show ?case by auto
qed simp

lemma spells_nonempty: "spells c s \<Longrightarrow> c \<noteq> [] \<Longrightarrow> s \<noteq> []"
  by (erule spells.cases) (auto simp: encode_utf8_nonempty)

text \<open>One round of the loop, by what the rest of the content starts with.\<close>

lemma decode_rounds:
  assumes "length out - a < m"
  shows "drop pos content = b # c \<Longrightarrow> b \<noteq> CHR 0x5C \<Longrightarrow>
      decode_loop q a m content pos out = decode_loop q a m content (pos + 1) (out @ [b])"
    and "drop pos content = CHR 0x5C # e # c \<Longrightarrow> simple_escape e = Some b \<Longrightarrow>
      decode_loop q a m content pos out = decode_loop q a m content (pos + 2) (out @ [b])"
    and "drop pos content = CHR 0x5C # CHR ''x'' # h # l # c \<Longrightarrow> hex_byte (Some h) (Some l) = Some b \<Longrightarrow>
      decode_loop q a m content pos out = decode_loop q a m content (pos + 4) (out @ [b])"
    and "drop pos content = CHR 0x5C # CHR ''u'' # h1 # h2 # h3 # h4 # c \<Longrightarrow>
      hex_u16 (Some h1) (Some h2) (Some h3) (Some h4) = Some code \<Longrightarrow> \<not> (0xD800 \<le> code \<and> code \<le> 0xDFFF) \<Longrightarrow> code < 0x10000 \<Longrightarrow>
      decode_loop q a m content pos out =
        and_then (push_bytes q a m (encode_utf8 code) out) (decode_loop q a m content (pos + 6))"
proof -
  note step = decode_loop.simps [of q a m content pos out]
  have x: "simple_escape (CHR ''x'') = None" and u: "simple_escape (CHR ''u'') = None" by (simp_all add: simple_escape_def)
  show "drop pos content = b # c \<Longrightarrow> b \<noteq> CHR 0x5C \<Longrightarrow>
      decode_loop q a m content pos out = decode_loop q a m content (pos + 1) (out @ [b])"
    using assms by (subst step) (simp add: drop_Cons_iff)
  show "drop pos content = CHR 0x5C # e # c \<Longrightarrow> simple_escape e = Some b \<Longrightarrow>
      decode_loop q a m content pos out = decode_loop q a m content (pos + 2) (out @ [b])"
    using assms by (subst step) (simp add: drop_Cons_iff)
  show "decode_loop q a m content pos out = decode_loop q a m content (pos + 4) (out @ [b])"
    if c: "drop pos content = CHR 0x5C # CHR ''x'' # h # l # c" and "hex_byte (Some h) (Some l) = Some b"
    using assms x that(2) drop_get [OF c, of 0] drop_get [OF c, of 1] drop_get [OF c, of 2] drop_get [OF c, of 3]
    by (subst step) (simp del: get_Some_iff)
  show "decode_loop q a m content pos out = and_then (push_bytes q a m (encode_utf8 code) out) (decode_loop q a m content (pos + 6))"
    if c: "drop pos content = CHR 0x5C # CHR ''u'' # h1 # h2 # h3 # h4 # c"
      and code: "hex_u16 (Some h1) (Some h2) (Some h3) (Some h4) = Some code" "\<not> (0xD800 \<le> code \<and> code \<le> 0xDFFF)" "code < 0x10000"
  proof -
    have ch: "char_from_u32 code = Some code" using code(2,3) by (auto simp: char_from_u32_def)
    have ok: "(0xD800 \<le> code \<and> code \<le> 0xDFFF) = False" using code(2) by blast
    show ?thesis using assms u code(1) drop_get [OF c, of 0] drop_get [OF c, of 1] drop_get [OF c, of 2]
      drop_get [OF c, of 3] drop_get [OF c, of 4] drop_get [OF c, of 5]
      by (subst step) (simp add: ok ch Let_def del: get_Some_iff)
  qed
qed

lemma hex_digits_bound:
  "map hex_digit [h1, h2, h3, h4] = [Some x1, Some x2, Some x3, Some x4] \<Longrightarrow> 4096 * x1 + 256 * x2 + 16 * x3 + x4 < 0x10000"
  using hex_digit_bound [of h1 x1] hex_digit_bound [of h2 x2] hex_digit_bound [of h3 x3] hex_digit_bound [of h4 x4] by simp

lemma decode_complete:
  "spells c s \<Longrightarrow> drop pos content = c \<Longrightarrow> a \<le> length out \<Longrightarrow> length out - a + length s \<le> m \<Longrightarrow>
   decode_loop q a m content pos out = Inr (out @ s)"
proof (induction arbitrary: pos out rule: spells.induct)
  case sp_end
  then show ?case by (simp add: decode_loop.simps [of q a m content pos out])
next
  case (sp_char b c s)
  then show ?case using decode_rounds(1) [of out a m pos content b c q] by (simp add: drop_Cons_iff)
next
  case (sp_simple e b c s)
  then show ?case using decode_rounds(2) [of out a m pos content e c b q] by (simp add: drop_Cons_iff)
next
  case (sp_hex h x l y c s)
  then have "hex_byte (Some h) (Some l) = Some (char_of (16 * x + y))" by (simp add: hex_byte_Some)
  moreover have "drop (pos + 4) content = c" using drop_drop [of 4 pos content] sp_hex.prems(1) by (simp add: add.commute)
  ultimately show ?case using decode_rounds(3) [of out a m pos content h l c "char_of (16 * x + y)" q] sp_hex by simp
next
  case (sp_unicode h1 h2 h3 h4 x1 x2 x3 x4 code c s)
  have "hex_u16 (Some h1) (Some h2) (Some h3) (Some h4) = Some code"
    unfolding hex_u16_Some by (intro exI conjI) (rule sp_unicode.hyps(1), rule sp_unicode.hyps(2))
  moreover have "code < 0x10000" using hex_digits_bound [OF sp_unicode.hyps(1)] sp_unicode.hyps(2) by simp
  moreover have "length out - a < m" using sp_unicode.prems encode_utf8_nonempty [of code] by (cases "encode_utf8 code") auto
  moreover have "push_bytes q a m (encode_utf8 code) out = Inr (out @ encode_utf8 code)"
    using sp_unicode.prems by (intro push_bytes_ok) auto
  moreover have "drop (pos + 6) content = c" using drop_drop [of 6 pos content] sp_unicode.prems(1) by (simp add: add.commute)
  then have "decode_loop q a m content (pos + 6) (out @ encode_utf8 code) = Inr ((out @ encode_utf8 code) @ s)"
    using sp_unicode.prems by (intro sp_unicode.IH) auto
  ultimately show ?case using decode_rounds(4) [OF _ sp_unicode.prems(1), of out a m code q] sp_unicode.hyps(3) by simp
qed

lemma drop_get_Cons: "get xs n = Some x \<Longrightarrow> drop n xs = x # drop (Suc n) xs"
  by (auto simp: Cons_nth_drop_Suc)

lemma hex_args_Some:
  "hex_byte x y = Some b \<Longrightarrow> \<exists>h l. x = Some h \<and> y = Some l"
  "hex_u16 x y v w = Some code \<Longrightarrow> \<exists>h1 h2 h3 h4. x = Some h1 \<and> y = Some h2 \<and> v = Some h3 \<and> w = Some h4"
  by (auto simp: hex_byte_def hex_u16_def bind_eq_Some_conv)

lemma decode_shape:
  assumes "decode_loop q a m content pos out = Inr out'" and "pos < length content"
  obtains (char) b c where "drop pos content = b # c" "b \<noteq> CHR 0x5C" "length out - a < m"
    | (simple) e b c where "drop pos content = CHR 0x5C # e # c" "simple_escape e = Some b" "length out - a < m"
    | (hex) h l b c where "drop pos content = CHR 0x5C # CHR ''x'' # h # l # c" "hex_byte (Some h) (Some l) = Some b" "length out - a < m"
    | (unicode) h1 h2 h3 h4 code c where "drop pos content = CHR 0x5C # CHR ''u'' # h1 # h2 # h3 # h4 # c"
        "hex_u16 (Some h1) (Some h2) (Some h3) (Some h4) = Some code" "\<not> (0xD800 \<le> code \<and> code \<le> 0xDFFF)" "length out - a < m"
proof -
  note run = assms(1) [unfolded decode_loop.simps [of q a m content pos out]]
  obtain b where b: "get content pos = Some b" using assms(2) by simp
  note d0 = drop_get_Cons [OF b]
  have m: "length out - a < m" using run assms(2) by (simp split: if_splits)
  show thesis
  proof (cases "b = CHR 0x5C")
    case False
    with char d0 m show ?thesis by blast
  next
    case True
    with run b m assms(2) obtain e where e: "get content (pos + 1) = Some e" by (auto simp: Let_def split: option.splits)
    note d1 = drop_get_Cons [OF e]
    show ?thesis
    proof (cases "simple_escape e")
      case (Some v)
      with simple d0 d1 True m show ?thesis by auto
    next
      case None
      show ?thesis
      proof (cases "e = CHR ''x''")
        case x: True
        with run b e None True m assms(2) obtain v where v: "hex_byte (get content (pos + 2)) (get content (pos + 3)) = Some v"
          by (auto simp: Let_def and_then_Inr_iff simp del: get_Some_iff split: if_splits)
        then obtain h l where hl: "get content (pos + 2) = Some h" "get content (pos + 3) = Some l" using hex_args_Some(1) by blast
        have "drop pos content = CHR 0x5C # CHR ''x'' # h # l # drop (pos + 4) content"
          using d0 d1 drop_get_Cons [OF hl(1)] drop_get_Cons [OF hl(2)] True x by (simp add: eval_nat_numeral)
        with hex v hl m show ?thesis by metis
      next
        case False
        with run b e None True m assms(2) obtain code where u: "e = CHR ''u''" "\<not> (0xD800 \<le> code \<and> code \<le> 0xDFFF)"
          "hex_u16 (get content (pos + 2)) (get content (pos + 3)) (get content (pos + 4)) (get content (pos + 5)) = Some code"
          by (auto simp: Let_def and_then_Inr_iff simp del: get_Some_iff split: if_splits)
        then obtain h1 h2 h3 h4 where hs: "get content (pos + 2) = Some h1" "get content (pos + 3) = Some h2"
          "get content (pos + 4) = Some h3" "get content (pos + 5) = Some h4" using hex_args_Some(2) by blast
        have "drop pos content = CHR 0x5C # CHR ''u'' # h1 # h2 # h3 # h4 # drop (pos + 6) content"
          using d0 d1 hs [THEN drop_get_Cons] True u(1) by (simp add: eval_nat_numeral)
        with unicode u hs m show ?thesis by metis
      qed
    qed
  qed
qed

lemma decode_sound:
  "decode_loop q a m content pos out = Inr out' \<Longrightarrow> a \<le> length out \<Longrightarrow> length out - a \<le> m \<Longrightarrow>
   \<exists>s. spells (drop pos content) s \<and> out' = out @ s \<and> length out' - a \<le> m"
proof (induction "length content - pos" arbitrary: pos out rule: less_induct)
  case less
  show ?case
  proof (cases "pos < length content")
    case False
    with less.prems show ?thesis by (auto simp: decode_loop.simps [of q a m content pos out] intro: sp_end)
  next
    case True
    have next_round: "\<exists>s. spells c s \<and> out' = out1 @ s \<and> length out' - a \<le> m"
      if "decode_loop q a m content (pos + k) out1 = Inr out'" "0 < k" "a \<le> length out1" "length out1 - a \<le> m"
        "drop (pos + k) content = c" for k out1 c
      using less.hyps [of "pos + k" out1] that True by auto
    from less.prems(1) True show ?thesis
    proof (cases rule: decode_shape)
      case (char b c)
      then have "drop (pos + 1) content = c" by (simp add: drop_Cons_iff)
      from next_round [OF _ _ _ _ this, of "out @ [b]"] char less.prems decode_rounds(1) [OF char(3,1,2)] show ?thesis
        by (fastforce intro: sp_char)
    next
      case (simple e b c)
      then have "drop (pos + 2) content = c" by (simp add: drop_Cons_iff)
      from next_round [OF _ _ _ _ this, of "out @ [b]"] simple less.prems decode_rounds(2) [OF simple(3,1,2)] show ?thesis
        by (fastforce intro: sp_simple)
    next
      case (hex h l b c)
      have "drop (pos + 4) content = c" using drop_drop [of 4 pos content] hex(1) by (simp add: add.commute)
      from next_round [OF _ _ _ _ this, of "out @ [b]"] hex less.prems decode_rounds(3) [OF hex(3,1,2)]
      obtain s where "spells c s" "out' = (out @ [b]) @ s" "length out' - a \<le> m" by fastforce
      moreover obtain x y where "hex_digit h = Some x" "hex_digit l = Some y" "b = char_of (16 * x + y)"
        using hex(2) unfolding hex_byte_Some by blast
      ultimately show ?thesis using sp_hex hex(1) by fastforce
    next
      case (unicode h1 h2 h3 h4 code c)
      from unicode(2) obtain x1 x2 x3 x4 where x: "map hex_digit [h1, h2, h3, h4] = [Some x1, Some x2, Some x3, Some x4]"
        "code = 4096 * x1 + 256 * x2 + 16 * x3 + x4" unfolding hex_u16_Some by (elim exE conjE)
      then have "code < 0x10000" using hex_digits_bound by simp
      from less.prems(1) [unfolded decode_rounds(4) [OF unicode(4,1-3) this]] obtain out1 where
        out1: "push_bytes q a m (encode_utf8 code) out = Inr out1" "decode_loop q a m content (pos + 6) out1 = Inr out'"
        by (rule and_then_InrE)
      note p = push_bytes_Inr [OF out1(1) less.prems(2,3)]
      have "drop (pos + 6) content = c" using drop_drop [of 6 pos content] unicode(1) by (simp add: add.commute)
      from next_round [OF out1(2) _ _ _ this] p less.prems(2) obtain s where "spells c s" "out' = out1 @ s" "length out' - a \<le> m"
        by auto
      then show ?thesis using sp_unicode [OF x unicode(3)] unicode(1) p by fastforce
    qed
  qed
qed


text \<open>A printer for string literals: printable characters as they are, the rest in hex.\<close>

definition hex_char :: "nat \<Rightarrow> byte" where
  "hex_char n = (if n < 10 then char_of (48 + n) else char_of (87 + n))"

definition escape_byte :: "byte \<Rightarrow> bytes" where
  "escape_byte b =
     (if b = CHR 0x5C \<or> b = CHR 0x22 then [CHR 0x5C, b]
      else if 32 \<le> byte_val b \<and> byte_val b < 127 then [b]
      else [CHR 0x5C, CHR ''x'', hex_char (byte_val b div 16), hex_char (byte_val b mod 16)])"

definition print_string :: "bytes \<Rightarrow> bytes" where
  "print_string s = [CHR 0x22] @ concat (map escape_byte s) @ [CHR 0x22]"

lemma hex_digit_char: "n < 16 \<Longrightarrow> hex_digit (hex_char n) = Some n"
  by (simp add: hex_digit_def hex_char_def)

lemma spells_escaped: "spells (concat (map escape_byte s)) s"
proof (induction s)
  case (Cons b s)
  have "byte_val b div 16 < 16" using byte_val_less [of b] by linarith
  then have x: "hex_digit (hex_char (byte_val b div 16)) = Some (byte_val b div 16)"
    "hex_digit (hex_char (byte_val b mod 16)) = Some (byte_val b mod 16)" by (simp_all add: hex_digit_char)
  have "char_of (16 * (byte_val b div 16) + byte_val b mod 16) = b" by simp
  with sp_hex [OF x Cons] sp_char [OF _ Cons, of b] sp_simple [OF _ Cons, of b b] show ?case
    by (auto simp: escape_byte_def simple_escape_def)
qed (simp add: sp_end)

text \<open>
  Round trip of string literals. Every byte string of at most \<^verbatim>\<open>max_string_bytes\<close> bytes has a literal
  that decodes to it, including strings that are not valid UTF-8: print it with hex escapes,
  wherever in the source the literal stands.
\<close>

theorem string_literal_roundtrip:
  assumes "span_slice span src = Some (print_string s)" and "length s \<le> maxb"
  shows "decode_string src span out (length out) maxb = Inr (out @ s)"
proof -
  have eq: "decode_string src span out (length out) maxb =
      decode_loop (sp_start span) (length out) maxb (concat (map escape_byte s)) 0 out"
    using assms(1) by (simp add: decode_string_def get_range_def print_string_def)
  show ?thesis unfolding eq using decode_complete [OF spells_escaped [of s], of 0 "concat (map escape_byte s)" "length out" out maxb]
    assms(2) by simp
qed

text \<open>A literal of the letter a and a bell character in hex.\<close>

definition bell_content :: bytes where
  "bell_content = [CHR ''a'', CHR 0x5C, CHR ''x'', CHR ''0'', CHR ''7'']"

definition bell_src :: bytes where
  "bell_src = [CHR 0x22] @ bell_content @ [CHR 0x22]"

lemma bell_slice: "span_slice (mk_span 0 7) bell_src = Some ([CHR 0x22] @ bell_content @ [CHR 0x22])"
  by (simp add: bell_src_def bell_content_def span_slice_def get_range_def)

lemma bell_escaped: "concat (map escape_byte [CHR ''a'', CHR 0x07]) = bell_content"
  by code_simp


theorem string_literal_roundtrip_witness:
  "span_slice (mk_span 0 7) bell_src = Some (print_string [CHR ''a'', CHR 0x07]) \<and>
   decode_string bell_src (mk_span 0 7) ''xyz'' (length ''xyz'') 2 = Inr (''xyz'' @ [CHR ''a'', CHR 0x07])"
proof -
  have "span_slice (mk_span 0 7) bell_src = Some (print_string [CHR ''a'', CHR 0x07])"
    using bell_slice unfolding print_string_def bell_escaped .
  with string_literal_roundtrip [OF this, of 2 "''xyz''"] show ?thesis by simp
qed

section \<open>Token streams\<close>

text \<open>What the lexer relies on from the generated scanner: its items cover increasing, non-empty ranges
  of the source.\<close>

fun spans_ok :: "nat \<Rightarrow> nat \<Rightarrow> raw_item list \<Rightarrow> bool" where
  "spans_ok from n [] \<longleftrightarrow> from \<le> n"
| "spans_ok from n ((_, a, b) # items) \<longleftrightarrow> from \<le> a \<and> a < b \<and> b \<le> n \<and> spans_ok b n items"

text \<open>Tokens name existing bytes: identifiers of the source, string literals of the arena.\<close>

fun tok_ok :: "bytes \<Rightarrow> policy_limits \<Rightarrow> bytes \<Rightarrow> tok \<Rightarrow> bool" where
  "tok_ok src limits strings (Tok_Str sp) \<longleftrightarrow>
     sp_start sp \<le> sp_end sp \<and> sp_end sp \<le> length strings \<and> span_len sp \<le> max_string_bytes limits"
| "tok_ok src limits strings (Tok_Ident sp) \<longleftrightarrow> sp_start sp < sp_end sp \<and> sp_end sp \<le> length src"
| "tok_ok src limits strings (Tok_Int v) \<longleftrightarrow> i64_min \<le> v \<and> v \<le> i64_max"
| "tok_ok src limits strings _ \<longleftrightarrow> True"

definition stream_ok :: "bytes \<Rightarrow> policy_limits \<Rightarrow> token_stream \<Rightarrow> bool" where
  "stream_ok src limits ts \<longleftrightarrow>
     length (ts_toks ts) \<le> max_tokens limits \<and> list_all (\<lambda>t. tok_ok src limits (ts_strings ts) (s_tok t)) (ts_toks ts)"

lemma spells_length: "spells c s \<Longrightarrow> length s \<le> length c"
proof (induction rule: spells.induct)
  case (sp_unicode h1 h2 h3 h4 x1 x2 x3 x4 code c s)
  have "length (encode_utf8 code) \<le> 4" by (simp add: encode_utf8_def)
  with sp_unicode.IH show ?case by simp
qed simp_all

lemma tok_ok_append: "tok_ok src limits strings t \<Longrightarrow> tok_ok src limits (strings @ xs) t"
  by (cases t) auto

lemma decode_string_Inr:
  assumes "decode_string src sp out (length out) maxb = Inr out'"
  shows "\<exists>s. out' = out @ s \<and> length s \<le> maxb \<and> length s \<le> span_len sp"
proof -
  from assms obtain content where run: "decode_loop (sp_start sp) (length out) maxb content 0 out = Inr out'"
    and len: "length content \<le> span_len sp"
    by (auto simp: decode_string_def and_then_Inr_iff span_slice_def span_len_def dest!: length_get_range split: if_splits)
  from decode_sound [OF run] spells_length len show ?thesis by fastforce
qed

lemma str_parse_range: "str_parse_i64 s = Some v \<Longrightarrow> i64_min \<le> v \<and> v \<le> i64_max"
  by (auto simp: str_parse_i64_def Let_def split: option.splits if_splits)

lemma lex_item_ok:
  assumes "lex_item src limits (t, a, b) out = Some (Inr out')" and "stream_ok src limits out"
    and "length (ts_strings out) \<le> a" and "a < b" and "b \<le> length src" and "length src < 2 ^ 32"
  shows "stream_ok src limits out' \<and> length (ts_strings out') \<le> b"
proof -
  have off: "offset_to_u32 n = n" if "n \<le> length src" for n using that assms(6) by (simp add: offset_to_u32_def)
  have ab: "offset_to_u32 a = a" "offset_to_u32 b = b" using off assms(4,5) by simp_all
  from assms(1) have room: "length (ts_toks out) < max_tokens limits" by (auto simp: lex_item_def Let_def split: if_splits)
  have push: "stream_ok src limits (push_tok tk sp (out\<lparr>ts_strings := ts_strings out @ s\<rparr>))"
    if "tok_ok src limits (ts_strings out @ s) tk" for tk sp s
    using that assms(2) room tok_ok_append by (auto simp: stream_ok_def push_tok_def list_all_iff)
  note push' = push [of "[]", simplified]
  from assms(1) obtain raw where raw: "t = Inr raw" by (cases t) (auto simp: lex_item_def Let_def split: if_splits)
  consider "raw = Raw_RawStr" | "raw = Raw_RawInt" | "raw = Raw_Ident" | tk where "raw_to_tok raw = Some tk"
    by (cases raw) auto
  then show ?thesis
  proof cases
    case 1
    from assms(1) 1 raw room obtain strings
      where dec: "decode_string src (mk_span a b) (ts_strings out) (length (ts_strings out)) (max_string_bytes limits) = Inr strings"
      and out': "out' = push_tok (Tok_Str (mk_span (offset_to_u32 (length (ts_strings out))) (offset_to_u32 (length strings)))) (mk_span a b)
        (out\<lparr>ts_strings := strings\<rparr>)"
      by (auto simp: lex_item_def Let_def ab and_then_Inr_iff)
    from decode_string_Inr [OF dec] obtain s where s: "strings = ts_strings out @ s" "length s \<le> max_string_bytes limits"
      "length s \<le> b - a" by (auto simp: span_len_def)
    then have len: "length strings \<le> b" using assms(3,4) by simp
    then have "offset_to_u32 (length strings) = length strings" "offset_to_u32 (length (ts_strings out)) = length (ts_strings out)"
      using off assms(3-5) by simp_all
    then show ?thesis using s(1,2) len push [of s] unfolding out' by (simp add: span_len_def push_tok_def)
  next
    case 2
    with assms(1) raw room obtain v where "parse_i64 src (mk_span a b) = Some v" "out' = push_tok (Tok_Int v) (mk_span a b) out"
      by (auto simp: lex_item_def Let_def ab and_then_Inr_iff)
    then show ?thesis using push' [of "Tok_Int v"] str_parse_range assms(3,4)
      by (auto simp: parse_i64_def bind_eq_Some_conv push_tok_def split: if_splits)
  next
    case 3
    with assms(1) raw room have "out' = push_tok (keyword_or_ident src (mk_span a b)) (mk_span a b) out"
      by (auto simp: lex_item_def Let_def ab)
    then show ?thesis using push' [of "keyword_or_ident src (mk_span a b)"] assms(3-5)
      by (auto simp: keyword_or_ident_def Let_def push_tok_def)
  next
    case 4
    then have raws: "raw \<noteq> Raw_RawStr" "raw \<noteq> Raw_RawInt" "raw \<noteq> Raw_Ident" by auto
    with assms(1) 4 raw room have "out' = push_tok tk (mk_span a b) out" by (auto simp: lex_item_def Let_def ab)
    moreover have "tok_ok src limits (ts_strings out) tk" using 4 by (cases raw) auto
    ultimately show ?thesis using push' [of tk] assms(3,4) by (auto simp: push_tok_def)
  qed
qed

text \<open>Errors name an offset of the source.\<close>

lemma slash_offset_le: "slash_offset_of q pos \<le> q + 1 + pos"
  by (auto simp: slash_offset_of_def to_u32_def min_def)

lemma push_bytes_error: "push_bytes q a m bs out = Inl e \<Longrightarrow> lex_error_at e = q"
  by (induction bs arbitrary: out) (auto split: if_splits)

lemma decode_error:
  "decode_loop q a m content pos out = Inl e \<Longrightarrow> lex_error_at e \<le> q + length content"
proof (induction q a m content pos out rule: decode_loop.induct)
  case (1 q a m content pos out)
  show ?case
  proof (cases "pos < length content")
    case False
    with 1(5) show ?thesis by (simp add: decode_loop.simps [of q a m content pos out])
  next
    case True
    then have slash: "slash_offset_of q pos \<le> q + length content" using slash_offset_le [of q pos] by linarith
    from 1(5) [unfolded decode_loop.simps [of q a m content pos out]] show ?thesis
      using True 1(1-4) slash push_bytes_error
      by (auto simp: Let_def and_then_def ok_or_def split: if_splits option.splits sum.splits)
  qed
qed

definition lexed :: "bytes \<Rightarrow> policy_limits \<Rightarrow> (lex_error + token_stream) option \<Rightarrow> bool" where
  "lexed src limits r \<longleftrightarrow>
     (case r of
        None \<Rightarrow> False
      | Some (Inl e) \<Rightarrow> lex_error_at e \<le> length src
      | Some (Inr ts) \<Rightarrow> stream_ok src limits ts)"

lemma lex_item_error:
  assumes "lex_item src limits (t, a, b) out = Some (Inl e)" and "a < b" and "b \<le> length src" and "length src < 2 ^ 32"
  shows "lex_error_at e \<le> length src"
proof -
  have ab: "offset_to_u32 a = a" "offset_to_u32 b = b" using assms(2-4) by (simp_all add: offset_to_u32_def)
  have "lex_error_at e \<le> length src" if "decode_string src (mk_span a b) strings n m = Inl e" for strings n m
  proof -
    have len: "length bytes = b - a" if "span_slice (mk_span a b) src = Some bytes" for bytes
      using that length_get_range by (fastforce simp: span_slice_def)
    from \<open>decode_string src (mk_span a b) strings n m = Inl e\<close> show ?thesis
      using assms(2,3) len decode_error
      by (fastforce simp: decode_string_def and_then_def ok_or_def split: sum.splits option.splits if_splits dest!: length_get_range)
  qed
  then show ?thesis using assms(1-3)
    by (auto simp: lex_item_def Let_def ab and_then_def ok_or_def split: if_splits sum.splits option.splits)
qed

lemma lex_item_returns: "lex_item src limits item out \<noteq> None"
proof -
  obtain t a b where item: "item = (t, a, b)" by (cases item)
  show ?thesis
  proof (cases t)
    case (Inr raw)
    then show ?thesis unfolding item by (cases raw) (simp_all add: lex_item_def Let_def)
  qed (simp add: item lex_item_def Let_def)
qed

lemma lex_loop_ok:
  "spans_ok from (length src) items \<Longrightarrow> stream_ok src limits out \<Longrightarrow> length (ts_strings out) \<le> from \<Longrightarrow> length src < 2 ^ 32 \<Longrightarrow>
   lexed src limits (lex_loop src limits items out)"
proof (induction items arbitrary: "from" out)
  case (Cons item items)
  obtain t a b where item: "item = (t, a, b)" by (cases item)
  from Cons.prems(1) have sp: "from \<le> a" "a < b" "b \<le> length src" "spans_ok b (length src) items" by (simp_all add: item)
  obtain r where r: "lex_item src limits item out = Some r" using lex_item_returns by blast
  show ?case
  proof (cases r)
    case (Inl e)
    then show ?thesis using r item lex_item_error [OF _ sp(2,3) Cons.prems(4)] by (simp add: lexed_def)
  next
    case (Inr out')
    have "stream_ok src limits out' \<and> length (ts_strings out') \<le> b"
      using r Inr item lex_item_ok [OF _ Cons.prems(2) _ sp(2,3) Cons.prems(4)] Cons.prems(3) sp(1) by simp
    then have "lexed src limits (lex_loop src limits items out')" using Cons.IH [OF sp(4)] Cons.prems(4) by blast
    then show ?thesis using r Inr by simp
  qed
qed (simp add: lexed_def)

lemma lex_lexed:
  assumes "spans_ok 0 (length src) (scan src)" and "limits_validate limits = Inr ()"
  shows "lexed src limits (lex_tokens scan src limits)"
proof -
  have lim: "max_source_bytes limits \<le> 65536" using assms(2) by (simp add: limits_validate_ok_iff)
  consider "max_source_bytes limits < length src" | at where "length src \<le> max_source_bytes limits" "utf8_upto 0 src = Some at"
    | "length src \<le> max_source_bytes limits" "utf8_upto 0 src = None" by (cases "max_source_bytes limits < length src"; cases "utf8_upto 0 src") auto
  then show ?thesis
  proof cases
    case 1
    then show ?thesis by (simp add: lexed_def lex_tokens_def)
  next
    case 2
    then show ?thesis using utf8_upto_less [of 0 src at] lim by (simp add: lexed_def lex_tokens_def offset_to_u32_def)
  next
    case 3
    have "stream_ok src limits \<lparr>ts_toks = [], ts_strings = []\<rparr>" by (simp add: stream_ok_def)
    then show ?thesis using 3 lex_loop_ok [OF assms(1)] lim by (simp add: lex_tokens_def)
  qed
qed

lemma lexed_stream:
  "spans_ok 0 (length src) (scan src) \<Longrightarrow> limits_validate limits = Inr () \<Longrightarrow> lex_tokens scan src limits = Some (Inr ts) \<Longrightarrow>
   stream_ok src limits ts"
  using lex_lexed [of src scan limits] by (simp add: lexed_def)

text \<open>
  The lexer. If the scanner reports increasing, non-empty ranges of the source and the limits are
  validated, \<^verbatim>\<open>lex\<close> never panics; an error names an offset of the source; and a token stream has at most
  \<^verbatim>\<open>max_tokens\<close> tokens, whose identifiers are non-empty ranges of the source, whose integers are
  64-bit values, and whose string literals are ranges of the decoded arena of at most
  \<^verbatim>\<open>max_string_bytes\<close> bytes each.
\<close>

theorem lex_stream:
  assumes "spans_ok 0 (length src) (scan src)" and "limits_validate limits = Inr ()"
  shows "lexed src limits (lex_tokens scan src limits)"
  using assms lex_lexed [of src scan limits] by blast

text \<open>A scanner for the patterns \<^verbatim>\<open>RawTok\<close> declares, for concrete examples: the longest match at each
  position, white space skipped.\<close>

definition is_word :: "byte \<Rightarrow> bool" where
  "is_word c \<longleftrightarrow> in_range 48 57 c \<or> in_range 65 90 c \<or> in_range 97 122 c \<or> c = CHR ''_''"

fun literal_len :: "byte \<Rightarrow> bytes \<Rightarrow> nat option" where
  "literal_len quote [] = None"
| "literal_len quote (c # cs) =
     (if c = quote then Some 1
      else if c = CHR 0x5C then (case cs of [] \<Rightarrow> None | _ # cs \<Rightarrow> map_option ((+) 2) (literal_len quote cs))
      else map_option ((+) 1) (literal_len quote cs))"

definition PUNCT :: "(bytes \<times> raw_tok) list" where
  "PUNCT =
     [(''!='', Raw_BangEq), (''&&'', Raw_AndAnd), (''||'', Raw_OrOr), (''=='', Raw_EqEq), (''<='', Raw_Le), (''>='', Raw_Ge),
      (''('', Raw_LParen), ('')'', Raw_RParen), (''['', Raw_LBracket), ('']'', Raw_RBracket), ('','', Raw_Comma),
      (''.'', Raw_Dot), (''?'', Raw_Question), ('':'', Raw_Colon), (''!'', Raw_Bang), (''<'', Raw_Lt), (''>'', Raw_Gt)]"

definition scan_one :: "bytes \<Rightarrow> (unit + raw_tok) \<times> nat" where
  "scan_one s =
     (let c = hd s in
      if in_range 48 57 c \<or> c = CHR ''-'' \<and> tl s \<noteq> [] \<and> in_range 48 57 (hd (tl s))
      then (Inr Raw_RawInt, 1 + length (takeWhile (in_range 48 57) (tl s)))
      else if is_word c then (Inr Raw_Ident, length (takeWhile is_word s))
      else if c = CHR 0x22 \<or> c = CHR 0x27
      then (case literal_len c (tl s) of None \<Rightarrow> (Inl (), length s) | Some n \<Rightarrow> (Inr Raw_RawStr, 1 + n))
      else (case find (\<lambda>(p, _). take (length p) s = p) PUNCT of
          None \<Rightarrow> (Inl (), 1)
        | Some (p, raw) \<Rightarrow> (Inr raw, length p)))"

fun scan_from :: "nat \<Rightarrow> nat \<Rightarrow> bytes \<Rightarrow> raw_item list" where
  "scan_from fuel pos [] = []"
| "scan_from 0 pos s = []"
| "scan_from (Suc fuel) pos (c # cs) =
     (if byte_val c \<in> {9, 10, 13, 32} then scan_from fuel (pos + 1) cs
      else (let (t, n) = scan_one (c # cs) in (t, pos, pos + n) # scan_from fuel (pos + n) (drop n (c # cs))))"

definition demo_scan :: "bytes \<Rightarrow> raw_item list" where
  "demo_scan src = scan_from (length src) 0 src"

definition demo_text :: bytes where
  "demo_text = ''request.method == \"GET\"''"

theorem lex_stream_witness:
  "spans_ok 0 (length demo_text) (demo_scan demo_text) \<and> lexed demo_text limits_defaults (lex_tokens demo_scan demo_text limits_defaults)"
proof -
  have "spans_ok 0 (length demo_text) (demo_scan demo_text)" "limits_validate limits_defaults = Inr ()" by code_simp+
  with lex_stream [of demo_text demo_scan limits_defaults] show ?thesis by blast
qed

end
