(* ===== verification/Policy_Pipeline.thy ===== *)
theory Policy_Pipeline
  imports Policy_Meaning Policy_Lex
begin

text \<open>
  The stages of the policy engine composed: from source text through tokens, arena, checked
  expression and program to the value of the policy on a request.
\<close>

text \<open>Admission of a policy, when every stage succeeds.\<close>

definition admit ::
  "(bytes \<Rightarrow> raw_item list) \<Rightarrow> 'r crates \<Rightarrow> bytes \<Rightarrow> phase \<Rightarrow> policy_limits \<Rightarrow> (token_stream \<times> checked \<times> 'r program) option" where
  "admit scan ext src phase limits =
     (case lex_tokens scan src limits of
        Some (Inr ts) \<Rightarrow>
          (case parse ts src limits of
             Some (Inr a) \<Rightarrow>
               (case check a (ts_strings ts) src phase limits of
                  Inr ck \<Rightarrow> (case compile ext ck limits of Inr p \<Rightarrow> Some (ts, ck, p) | Inl _ \<Rightarrow> None)
                | Inl _ \<Rightarrow> None)
           | _ \<Rightarrow> None)
      | _ \<Rightarrow> None)"

lemma admitD:
  assumes "admit scan ext src phase limits = Some (ts, ck, p)"
  obtains a where "lex_tokens scan src limits = Some (Inr ts)" "parse ts src limits = Some (Inr a)"
    "check a (ts_strings ts) src phase limits = Inr ck" "compile ext ck limits = Inr p"
  using assms by (auto simp: admit_def split: option.splits sum.splits)

text \<open>
  C1. End to end. Every policy text the stages admit is a sentence of the grammar: its tokens, at most
  \<^verbatim>\<open>max_tokens\<close> of them and each well formed, derive an expression tree that is well typed for the
  phase; the program stays inside its code and its stack on every request and yields a value or a
  type error; and if the tree is in the supported fragment, the value on every request is the
  meaning of the tree.
\<close>

theorem admitted_policy_correct:
  assumes "admit scan ext src phase limits = Some (ts, ck, p)" and "limits_validate limits = Inr ()"
    and "spans_ok 0 (length src) (scan src)" and "regex_names ext"
  shows "stream_ok src limits ts \<and>
    (\<exists>t. g_expr src (map s_tok (ts_toks ts)) t \<and> has_type src phase t (ck_result ck) \<and>
      (\<forall>asrc n. case fst (eval ext p (env_new asrc (length (p_slots p)) n)) of
          Inr v \<Rightarrow> True | Inl (TypeError at) \<Rightarrow> at < length (p_ops p) | Inl _ \<Rightarrow> False) \<and>
      (frag t \<longrightarrow> (\<forall>asrc n. result_of (sem (policy_scene ext ck limits src asrc) t)
          (fst (eval ext p (env_new asrc (length (p_slots p)) n))))))"
proof -
  from assms(1) obtain a where stages: "lex_tokens scan src limits = Some (Inr ts)" "parse ts src limits = Some (Inr a)"
    "check a (ts_strings ts) src phase limits = Inr ck" "compile ext ck limits = Inr p" by (rule admitD)
  have "stream_ok src limits ts" using lexed_stream [of src scan limits ts] assms(2,3) stages(1) by blast
  moreover obtain t where t: "g_expr src (map s_tok (ts_toks ts)) t" "arena_of t a" "n_nodes t \<le> u16_max"
    using parse_layout [OF stages(2)] by (auto simp: arena_of_def)
  then have n: "n_nodes t \<le> usize_max" by (simp add: u16_max_def usize_max_def)
  have "has_type src phase t (ck_result ck)" by (rule check_typed [OF t(2) n grammar_arity(1) [OF t(1)] stages(3)])
  moreover have "arena_of t (ck_ast ck)" "length (ck_slots ck) \<le> max_attr_slots limits"
    using check_keeps [OF t(2) n stages(3)] t(2) by auto
  note safe = compiled_runs [OF this(1) n stages(4) assms(2) this(2)]
  moreover note compiled_result [OF t(2,3) stages(3,4) _ assms(4,2)]
  ultimately show ?thesis using t(1) by blast
qed

text \<open>The policy \<open>demo_text\<close>, from its text.\<close>

definition demo_policy :: "token_stream \<times> checked \<times> bytes program" where
  "demo_policy =
     (case admit demo_scan demo_ext demo_text RequestHeaders limits_defaults of
        Some x \<Rightarrow> x
      | None \<Rightarrow> (\<lparr>ts_toks = [], ts_strings = []\<rparr>, demo_checked, demo_prog))"

lemma demo_admitted:
  "admit demo_scan demo_ext demo_text RequestHeaders limits_defaults =
     Some (fst demo_policy, fst (snd demo_policy), snd (snd demo_policy))"
  "ck_result (fst (snd demo_policy)) = Ty_Bool"
  by code_simp+

theorem admitted_policy_correct_witness:
  "stream_ok demo_text limits_defaults (fst demo_policy) \<and>
   (\<exists>t. g_expr demo_text (map s_tok (ts_toks (fst demo_policy))) t \<and> has_type demo_text RequestHeaders t Ty_Bool)"
proof -
  have "spans_ok 0 (length demo_text) (demo_scan demo_text)" by code_simp
  with admitted_policy_correct [OF demo_admitted(1) defaults_valid _ demo_regex_names] demo_admitted(2) show ?thesis by metis
qed

end
