(* ===== verification/Rust_Bytes.thy ===== *)
theory Rust_Bytes
  imports Prelude
begin

text \<open>
  The byte-slice vocabulary of the HTTP sources: the ASCII classes of \<^verbatim>\<open>u8\<close>, the searches
  \<^verbatim>\<open>Iterator::position\<close> and \<^verbatim>\<open>rposition\<close>, \<^verbatim>\<open>slice::split\<close>, the saturating and checked \<^verbatim>\<open>u64\<close>
  operations, and the two searchers of the \<^verbatim>\<open>memchr\<close> crate as a parameter with their documented
  behaviour.
\<close>

section \<open>ASCII classes\<close>

definition is_ascii_digit :: "byte \<Rightarrow> bool" where
  "is_ascii_digit b \<longleftrightarrow> 48 \<le> byte_val b \<and> byte_val b \<le> 57"

definition is_ascii_uppercase :: "byte \<Rightarrow> bool" where
  "is_ascii_uppercase b \<longleftrightarrow> 65 \<le> byte_val b \<and> byte_val b \<le> 90"

definition is_ascii_lowercase :: "byte \<Rightarrow> bool" where
  "is_ascii_lowercase b \<longleftrightarrow> 97 \<le> byte_val b \<and> byte_val b \<le> 122"

definition is_ascii_alphanumeric :: "byte \<Rightarrow> bool" where
  "is_ascii_alphanumeric b \<longleftrightarrow> is_ascii_digit b \<or> is_ascii_uppercase b \<or> is_ascii_lowercase b"

text \<open>The bytes the sources write as \<^verbatim>\<open>b'\r'\<close>, \<^verbatim>\<open>b'\n'\<close>, \<^verbatim>\<open>b'\t'\<close>, \<^verbatim>\<open>b'\\'\<close> and \<^verbatim>\<open>b'"'\<close>.\<close>

definition CR :: byte where "CR = CHR 0x0D"
definition LF :: byte where "LF = CHR 0x0A"
definition HTAB :: byte where "HTAB = CHR 0x09"
definition SP :: byte where "SP = CHR 0x20"
definition BSLASH :: byte where "BSLASH = CHR 0x5C"
definition DQUOTE :: byte where "DQUOTE = CHR 0x22"

lemmas byte_consts = CR_def LF_def HTAB_def SP_def BSLASH_def DQUOTE_def

lemma byte_consts_distinct [simp]:
  "CR \<noteq> LF" "LF \<noteq> CR" "CR \<noteq> HTAB" "HTAB \<noteq> CR" "LF \<noteq> HTAB" "HTAB \<noteq> LF"
  "CR \<noteq> SP" "SP \<noteq> CR" "LF \<noteq> SP" "SP \<noteq> LF" "SP \<noteq> HTAB" "HTAB \<noteq> SP"
  "BSLASH \<noteq> CR" "BSLASH \<noteq> LF" "DQUOTE \<noteq> CR" "DQUOTE \<noteq> LF" "BSLASH \<noteq> DQUOTE" "DQUOTE \<noteq> BSLASH"
  "CR \<noteq> BSLASH" "LF \<noteq> BSLASH" "CR \<noteq> DQUOTE" "LF \<noteq> DQUOTE"
  by (simp_all add: byte_consts)

lemma to_ascii_lowercase_idem [simp]: "to_ascii_lowercase (to_ascii_lowercase c) = to_ascii_lowercase c"
  using byte_val_less [of c] by (simp add: to_ascii_lowercase_def of_char_of)

lemma to_ascii_lowercase_not_upper [simp]: "\<not> is_ascii_uppercase (to_ascii_lowercase c)"
  using byte_val_less [of c] by (simp add: to_ascii_lowercase_def is_ascii_uppercase_def of_char_of)

lemma to_ascii_lowercase_id: "\<not> is_ascii_uppercase c \<Longrightarrow> to_ascii_lowercase c = c"
  by (auto simp: to_ascii_lowercase_def is_ascii_uppercase_def)

section \<open>Searching\<close>

text \<open>\<^verbatim>\<open>iter().position(p)\<close> and \<^verbatim>\<open>iter().rposition(p)\<close>.\<close>

fun position :: "('a \<Rightarrow> bool) \<Rightarrow> 'a list \<Rightarrow> nat option" where
  "position p [] = None"
| "position p (x # xs) = (if p x then Some 0 else map_option Suc (position p xs))"

definition rposition :: "('a \<Rightarrow> bool) \<Rightarrow> 'a list \<Rightarrow> nat option" where
  "rposition p xs = map_option (\<lambda>i. length xs - Suc i) (position p (rev xs))"

lemma position_None_iff: "position p xs = None \<longleftrightarrow> (\<forall>x \<in> set xs. \<not> p x)"
  by (induction xs) auto

lemma position_Some_iff:
  "position p xs = Some i \<longleftrightarrow> i < length xs \<and> p (xs ! i) \<and> (\<forall>j < i. \<not> p (xs ! j))"
proof (induction xs arbitrary: i)
  case (Cons x xs)
  then show ?case by (cases i) (auto simp: nth_Cons split: nat.splits)
qed simp

lemma position_append:
  "position p (xs @ ys) = (case position p xs of Some i \<Rightarrow> Some i | None \<Rightarrow> map_option ((+) (length xs)) (position p ys))"
  by (induction xs) (cases "position p ys"; auto split: option.splits)+

lemma position_split:
  assumes "position p xs = Some i"
  obtains ys y zs where "xs = ys @ y # zs" and "length ys = i" and "p y" and "\<forall>z \<in> set ys. \<not> p z"
proof -
  from assms have i: "i < length xs" "p (xs ! i)" "\<forall>j < i. \<not> p (xs ! j)" by (simp_all add: position_Some_iff)
  have "\<forall>z \<in> set (take i xs). \<not> p z" using i by (auto simp: in_set_conv_nth)
  with i show ?thesis using that [of "take i xs" "xs ! i" "drop (Suc i) xs"] by (simp add: id_take_nth_drop [symmetric])
qed

text \<open>\<^verbatim>\<open>slice::split(p)\<close>: the pieces between the separators, at least one.\<close>

fun split_on :: "('a \<Rightarrow> bool) \<Rightarrow> 'a list \<Rightarrow> 'a list list" where
  "split_on p [] = [[]]"
| "split_on p (x # xs) =
     (if p x then [] # split_on p xs
      else (case split_on p xs of [] \<Rightarrow> [[x]] | w # ws \<Rightarrow> (x # w) # ws))"

lemma split_on_nonempty [simp]: "split_on p xs \<noteq> []"
  by (induction xs) (auto split: list.splits)

section \<open>64-bit arithmetic\<close>

definition u64_max :: nat where "u64_max = 18446744073709551615"

definition sat_add32 :: "nat \<Rightarrow> nat \<Rightarrow> nat" where
  "sat_add32 a b = (if a + b \<le> u32_max then a + b else u32_max)"

definition sat_add64 :: "nat \<Rightarrow> nat \<Rightarrow> nat" where
  "sat_add64 a b = (if a + b \<le> u64_max then a + b else u64_max)"

definition checked_add64 :: "nat \<Rightarrow> nat \<Rightarrow> nat option" where
  "checked_add64 a b = (if a + b \<le> u64_max then Some (a + b) else None)"

definition checked_mul64 :: "nat \<Rightarrow> nat \<Rightarrow> nat option" where
  "checked_mul64 a b = (if a * b \<le> u64_max then Some (a * b) else None)"

text \<open>A run of digits accumulated with \<^verbatim>\<open>checked_mul(base).and_then(checked_add)\<close>.\<close>

definition push_digit64 :: "nat \<Rightarrow> nat \<Rightarrow> nat \<Rightarrow> nat option" where
  "push_digit64 base n d = (case checked_mul64 n base of None \<Rightarrow> None | Some m \<Rightarrow> checked_add64 m d)"

lemma push_digit64_eq: "push_digit64 base n d = (if n * base + d \<le> u64_max then Some (n * base + d) else None)"
  by (simp add: push_digit64_def checked_mul64_def checked_add64_def)

section \<open>The searchers of the memchr crate\<close>

text \<open>
  \<^verbatim>\<open>memchr::memmem::find(haystack, needle)\<close> and \<^verbatim>\<open>memchr::memchr3(a, b, c, haystack)\<close> are third-party
  code, so they are a parameter. What the crate documents: the offset of the first occurrence, if any.
\<close>

record searchers =
  memmem :: "bytes \<Rightarrow> bytes \<Rightarrow> nat option"
  memchr3 :: "byte \<Rightarrow> byte \<Rightarrow> byte \<Rightarrow> bytes \<Rightarrow> nat option"

definition occurs_at :: "bytes \<Rightarrow> bytes \<Rightarrow> nat \<Rightarrow> bool" where
  "occurs_at hay needle i \<longleftrightarrow> take (length needle) (drop i hay) = needle \<and> i \<le> length hay"

definition finds_first :: "searchers \<Rightarrow> bool" where
  "finds_first s \<longleftrightarrow>
     (\<forall>hay needle i. memmem s hay needle = Some i \<longleftrightarrow> occurs_at hay needle i \<and> (\<forall>j < i. \<not> occurs_at hay needle j)) \<and>
     (\<forall>a b c hay i. memchr3 s a b c hay = Some i \<longleftrightarrow>
        i < length hay \<and> hay ! i \<in> {a, b, c} \<and> (\<forall>j < i. hay ! j \<notin> {a, b, c}))"

text \<open>The linear searches with that behaviour.\<close>

fun find_sub :: "bytes \<Rightarrow> bytes \<Rightarrow> nat option" where
  "find_sub [] needle = (if needle = [] then Some 0 else None)"
| "find_sub (x # xs) needle =
     (if take (length needle) (x # xs) = needle then Some 0 else map_option Suc (find_sub xs needle))"

definition linear_searchers :: searchers where
  "linear_searchers = \<lparr>memmem = find_sub, memchr3 = (\<lambda>a b c. position (\<lambda>x. x = a \<or> x = b \<or> x = c))\<rparr>"

lemma occurs_at_simps [simp]:
  "occurs_at (x # xs) needle (Suc i) = occurs_at xs needle i"
  "occurs_at xs needle 0 \<longleftrightarrow> take (length needle) xs = needle"
  by (auto simp: occurs_at_def)

lemma find_sub_Some_iff:
  "find_sub hay needle = Some i \<longleftrightarrow> occurs_at hay needle i \<and> (\<forall>j < i. \<not> occurs_at hay needle j)"
proof (induction hay needle arbitrary: i rule: find_sub.induct)
  case (1 needle)
  then show ?case by (cases i) (auto simp: occurs_at_def)
next
  case (2 x xs needle)
  show ?case
  proof (cases i)
    case (Suc k)
    have "(\<forall>j < Suc k. \<not> occurs_at (x # xs) needle j) \<longleftrightarrow>
        take (length needle) (x # xs) \<noteq> needle \<and> (\<forall>j < k. \<not> occurs_at xs needle j)"
      by (auto simp: less_Suc_eq_0_disj)
    then show ?thesis using Suc 2 by auto
  qed auto
qed

lemma finds_first_linear: "finds_first linear_searchers"
  by (simp add: finds_first_def linear_searchers_def find_sub_Some_iff position_Some_iff)

text \<open>The documented behaviour determines both searchers.\<close>

lemma option_eqI: "(\<And>i. x = Some i \<longleftrightarrow> y = Some i) \<Longrightarrow> x = y"
  by (cases x; cases y) auto

lemma finds_first_memmem: "finds_first s \<Longrightarrow> memmem s hay needle = find_sub hay needle"
  by (rule option_eqI) (simp add: finds_first_def find_sub_Some_iff)

lemma finds_first_memchr3: "finds_first s \<Longrightarrow> memchr3 s a b c hay = position (\<lambda>x. x = a \<or> x = b \<or> x = c) hay"
  by (rule option_eqI) (simp add: finds_first_def position_Some_iff)

lemma finds_first_unique: "finds_first s \<Longrightarrow> s = linear_searchers"
  by (cases s) (auto simp: linear_searchers_def finds_first_memmem [of s, symmetric] finds_first_memchr3 [of s, symmetric]
      fun_eq_iff dest: finds_first_memmem finds_first_memchr3)

end
