(* ===== verification/Http_Base.thy ===== *)
theory Http_Base
  imports Rust_Bytes "HOL-Library.Code_Target_Nat"
begin

text \<open>
  The closed set of refusal reasons with their statuses and metric labels (\<^verbatim>\<open>error.rs\<close>), the message
  limits and their clamping (\<^verbatim>\<open>limits.rs\<close>), and the wire scalars: token characters, methods, status
  codes, versions, schemes and the result of a parse over a possibly incomplete buffer
  (\<^verbatim>\<open>scalar.rs\<close>).
\<close>

section \<open>Status codes\<close>

text \<open>\<^verbatim>\<open>StatusCode\<close> is a \<^verbatim>\<open>u16\<close> between 100 and 599.\<close>

type_synonym status_code = nat

definition status_from_u16 :: "nat \<Rightarrow> status_code option" where
  "status_from_u16 v = (if 100 \<le> v \<and> v \<le> 599 then Some v else None)"

definition is_interim :: "status_code \<Rightarrow> bool" where
  "is_interim v \<longleftrightarrow> 100 \<le> v \<and> v \<le> 199"

definition CONTINUE :: status_code where "CONTINUE = 100"
definition OK :: status_code where "OK = 200"
definition NO_CONTENT :: status_code where "NO_CONTENT = 204"
definition NOT_MODIFIED :: status_code where "NOT_MODIFIED = 304"
definition BAD_REQUEST :: status_code where "BAD_REQUEST = 400"
definition URI_TOO_LONG :: status_code where "URI_TOO_LONG = 414"
definition EXPECTATION_FAILED :: status_code where "EXPECTATION_FAILED = 417"
definition HEADERS_TOO_LARGE :: status_code where "HEADERS_TOO_LARGE = 431"
definition INTERNAL_ERROR :: status_code where "INTERNAL_ERROR = 500"
definition NOT_IMPLEMENTED :: status_code where "NOT_IMPLEMENTED = 501"
definition BAD_GATEWAY :: status_code where "BAD_GATEWAY = 502"
definition VERSION_NOT_SUPPORTED :: status_code where "VERSION_NOT_SUPPORTED = 505"

lemmas status_consts =
  CONTINUE_def OK_def NO_CONTENT_def NOT_MODIFIED_def BAD_REQUEST_def URI_TOO_LONG_def EXPECTATION_FAILED_def HEADERS_TOO_LARGE_def INTERNAL_ERROR_def NOT_IMPLEMENTED_def BAD_GATEWAY_def VERSION_NOT_SUPPORTED_def

section \<open>Refusal reasons\<close>

datatype (plugins only: code size) reject_reason =
    RequestLineTooLong | RequestLineMalformed | MethodInvalid | MethodTooLong
    | VersionUnsupported | TargetFormInvalid | TargetFragment | FieldNameEmpty
    | FieldNameInvalidByte | FieldNameUppercase | FieldNameUnderscore | FieldValueInvalidByte
    | FieldValueLeadingWhitespace | FieldValueTrailingWhitespace | WhitespaceBeforeColon
    | ObsFold | BareCr | BareLf | FieldLineTooLong | FieldCountExceeded | HeaderListTooLarge
    | ContentLengthDuplicate | ContentLengthInvalid | ContentLengthOverflow
    | ContentLengthMismatch | TransferEncodingWithContentLength | TransferEncodingOnHttp10
    | TransferEncodingFinalNotChunked | TransferEncodingChunkedRepeated
    | TransferEncodingEmptyToken | TransferEncodingUnsupportedCoding | BodyNotAllowedForMethod
    | ChunkSizeInvalid | ChunkSizeOverflow | ChunkExtInvalid | ChunkExtTooLong
    | ChunkTerminatorInvalid | TrailerFieldForbidden | TrailingGarbage | HostMissing
    | HostDuplicate | AuthorityEmpty | AuthorityTooLong | AuthorityInvalidByte
    | AuthorityNonAscii | AuthorityPortInvalid | AuthorityMismatch | PathEmpty | PathTooLong
    | PathInvalidByte | PathPercentTruncated | PathPercentInvalidHex | PathEncodedNul
    | PathEncodedDot | PathEncodedSlash | PathTraversalAboveRoot | QueryInvalidByte
    | ExpectUnsupported | InterimResponseCountExceeded | InterimResponseBytesExceeded
    | PseudoHeaderUnknown | PseudoProtocolUnsupported | PseudoHeaderDuplicate
    | PseudoHeaderMissing | PseudoHeaderAfterField | PseudoHeaderInTrailer
    | ConnectionSpecificField | TeValueNotTrailers | ForwardedElementLimit | ForwardedBytesLimit
    | ForwardedDuplicateParam | ForwardedSyntax | RewriteLimitExceeded

text \<open>\<^verbatim>\<open>RejectReason::ALL\<close>, in declaration order.\<close>

definition ALL_reasons :: "reject_reason list" where
  "ALL_reasons =
     [RequestLineTooLong, RequestLineMalformed, MethodInvalid, MethodTooLong, VersionUnsupported
      , TargetFormInvalid, TargetFragment, FieldNameEmpty, FieldNameInvalidByte
      , FieldNameUppercase, FieldNameUnderscore, FieldValueInvalidByte
      , FieldValueLeadingWhitespace, FieldValueTrailingWhitespace, WhitespaceBeforeColon
      , ObsFold, BareCr, BareLf, FieldLineTooLong, FieldCountExceeded, HeaderListTooLarge
      , ContentLengthDuplicate, ContentLengthInvalid, ContentLengthOverflow
      , ContentLengthMismatch, TransferEncodingWithContentLength, TransferEncodingOnHttp10
      , TransferEncodingFinalNotChunked, TransferEncodingChunkedRepeated
      , TransferEncodingEmptyToken, TransferEncodingUnsupportedCoding, BodyNotAllowedForMethod
      , ChunkSizeInvalid, ChunkSizeOverflow, ChunkExtInvalid, ChunkExtTooLong
      , ChunkTerminatorInvalid, TrailerFieldForbidden, TrailingGarbage, HostMissing
      , HostDuplicate, AuthorityEmpty, AuthorityTooLong, AuthorityInvalidByte, AuthorityNonAscii
      , AuthorityPortInvalid, AuthorityMismatch, PathEmpty, PathTooLong, PathInvalidByte
      , PathPercentTruncated, PathPercentInvalidHex, PathEncodedNul, PathEncodedDot
      , PathEncodedSlash, PathTraversalAboveRoot, QueryInvalidByte, ExpectUnsupported
      , InterimResponseCountExceeded, InterimResponseBytesExceeded, PseudoHeaderUnknown
      , PseudoProtocolUnsupported, PseudoHeaderDuplicate, PseudoHeaderMissing
      , PseudoHeaderAfterField, PseudoHeaderInTrailer, ConnectionSpecificField
      , TeValueNotTrailers, ForwardedElementLimit, ForwardedBytesLimit, ForwardedDuplicateParam
      , ForwardedSyntax, RewriteLimitExceeded]"

primrec status :: "reject_reason \<Rightarrow> status_code" where
    "status RequestLineTooLong = URI_TOO_LONG"
  | "status RequestLineMalformed = BAD_REQUEST"
  | "status MethodInvalid = BAD_REQUEST"
  | "status MethodTooLong = NOT_IMPLEMENTED"
  | "status VersionUnsupported = VERSION_NOT_SUPPORTED"
  | "status TargetFormInvalid = BAD_REQUEST"
  | "status TargetFragment = BAD_REQUEST"
  | "status FieldNameEmpty = BAD_REQUEST"
  | "status FieldNameInvalidByte = BAD_REQUEST"
  | "status FieldNameUppercase = BAD_REQUEST"
  | "status FieldNameUnderscore = BAD_REQUEST"
  | "status FieldValueInvalidByte = BAD_REQUEST"
  | "status FieldValueLeadingWhitespace = BAD_REQUEST"
  | "status FieldValueTrailingWhitespace = BAD_REQUEST"
  | "status WhitespaceBeforeColon = BAD_REQUEST"
  | "status ObsFold = BAD_REQUEST"
  | "status BareCr = BAD_REQUEST"
  | "status BareLf = BAD_REQUEST"
  | "status FieldLineTooLong = HEADERS_TOO_LARGE"
  | "status FieldCountExceeded = HEADERS_TOO_LARGE"
  | "status HeaderListTooLarge = HEADERS_TOO_LARGE"
  | "status ContentLengthDuplicate = BAD_REQUEST"
  | "status ContentLengthInvalid = BAD_REQUEST"
  | "status ContentLengthOverflow = BAD_REQUEST"
  | "status ContentLengthMismatch = BAD_REQUEST"
  | "status TransferEncodingWithContentLength = BAD_REQUEST"
  | "status TransferEncodingOnHttp10 = BAD_REQUEST"
  | "status TransferEncodingFinalNotChunked = BAD_REQUEST"
  | "status TransferEncodingChunkedRepeated = BAD_REQUEST"
  | "status TransferEncodingEmptyToken = BAD_REQUEST"
  | "status TransferEncodingUnsupportedCoding = NOT_IMPLEMENTED"
  | "status BodyNotAllowedForMethod = BAD_REQUEST"
  | "status ChunkSizeInvalid = BAD_REQUEST"
  | "status ChunkSizeOverflow = BAD_REQUEST"
  | "status ChunkExtInvalid = BAD_REQUEST"
  | "status ChunkExtTooLong = BAD_REQUEST"
  | "status ChunkTerminatorInvalid = BAD_REQUEST"
  | "status TrailerFieldForbidden = BAD_REQUEST"
  | "status TrailingGarbage = BAD_REQUEST"
  | "status HostMissing = BAD_REQUEST"
  | "status HostDuplicate = BAD_REQUEST"
  | "status AuthorityEmpty = BAD_REQUEST"
  | "status AuthorityTooLong = BAD_REQUEST"
  | "status AuthorityInvalidByte = BAD_REQUEST"
  | "status AuthorityNonAscii = BAD_REQUEST"
  | "status AuthorityPortInvalid = BAD_REQUEST"
  | "status AuthorityMismatch = BAD_REQUEST"
  | "status PathEmpty = BAD_REQUEST"
  | "status PathTooLong = URI_TOO_LONG"
  | "status PathInvalidByte = BAD_REQUEST"
  | "status PathPercentTruncated = BAD_REQUEST"
  | "status PathPercentInvalidHex = BAD_REQUEST"
  | "status PathEncodedNul = BAD_REQUEST"
  | "status PathEncodedDot = BAD_REQUEST"
  | "status PathEncodedSlash = BAD_REQUEST"
  | "status PathTraversalAboveRoot = BAD_REQUEST"
  | "status QueryInvalidByte = BAD_REQUEST"
  | "status ExpectUnsupported = EXPECTATION_FAILED"
  | "status InterimResponseCountExceeded = BAD_GATEWAY"
  | "status InterimResponseBytesExceeded = BAD_GATEWAY"
  | "status PseudoHeaderUnknown = BAD_REQUEST"
  | "status PseudoProtocolUnsupported = NOT_IMPLEMENTED"
  | "status PseudoHeaderDuplicate = BAD_REQUEST"
  | "status PseudoHeaderMissing = BAD_REQUEST"
  | "status PseudoHeaderAfterField = BAD_REQUEST"
  | "status PseudoHeaderInTrailer = BAD_REQUEST"
  | "status ConnectionSpecificField = BAD_REQUEST"
  | "status TeValueNotTrailers = BAD_REQUEST"
  | "status ForwardedElementLimit = BAD_REQUEST"
  | "status ForwardedBytesLimit = BAD_REQUEST"
  | "status ForwardedDuplicateParam = BAD_REQUEST"
  | "status ForwardedSyntax = BAD_REQUEST"
  | "status RewriteLimitExceeded = INTERNAL_ERROR"

primrec metric_label :: "reject_reason \<Rightarrow> string" where
    "metric_label RequestLineTooLong = ''request_line_too_long''"
  | "metric_label RequestLineMalformed = ''request_line_malformed''"
  | "metric_label MethodInvalid = ''method_invalid''"
  | "metric_label MethodTooLong = ''method_too_long''"
  | "metric_label VersionUnsupported = ''version_unsupported''"
  | "metric_label TargetFormInvalid = ''target_form_invalid''"
  | "metric_label TargetFragment = ''target_fragment''"
  | "metric_label FieldNameEmpty = ''field_name_empty''"
  | "metric_label FieldNameInvalidByte = ''field_name_invalid_byte''"
  | "metric_label FieldNameUppercase = ''field_name_uppercase''"
  | "metric_label FieldNameUnderscore = ''field_name_underscore''"
  | "metric_label FieldValueInvalidByte = ''field_value_invalid_byte''"
  | "metric_label FieldValueLeadingWhitespace = ''field_value_leading_whitespace''"
  | "metric_label FieldValueTrailingWhitespace = ''field_value_trailing_whitespace''"
  | "metric_label WhitespaceBeforeColon = ''whitespace_before_colon''"
  | "metric_label ObsFold = ''obs_fold''"
  | "metric_label BareCr = ''bare_cr''"
  | "metric_label BareLf = ''bare_lf''"
  | "metric_label FieldLineTooLong = ''field_line_too_long''"
  | "metric_label FieldCountExceeded = ''field_count_exceeded''"
  | "metric_label HeaderListTooLarge = ''header_list_too_large''"
  | "metric_label ContentLengthDuplicate = ''content_length_duplicate''"
  | "metric_label ContentLengthInvalid = ''content_length_invalid''"
  | "metric_label ContentLengthOverflow = ''content_length_overflow''"
  | "metric_label ContentLengthMismatch = ''content_length_mismatch''"
  | "metric_label TransferEncodingWithContentLength = ''transfer_encoding_with_content_length''"
  | "metric_label TransferEncodingOnHttp10 = ''transfer_encoding_on_http10''"
  | "metric_label TransferEncodingFinalNotChunked = ''transfer_encoding_final_not_chunked''"
  | "metric_label TransferEncodingChunkedRepeated = ''transfer_encoding_chunked_repeated''"
  | "metric_label TransferEncodingEmptyToken = ''transfer_encoding_empty_token''"
  | "metric_label TransferEncodingUnsupportedCoding = ''transfer_encoding_unsupported_coding''"
  | "metric_label BodyNotAllowedForMethod = ''body_not_allowed_for_method''"
  | "metric_label ChunkSizeInvalid = ''chunk_size_invalid''"
  | "metric_label ChunkSizeOverflow = ''chunk_size_overflow''"
  | "metric_label ChunkExtInvalid = ''chunk_ext_invalid''"
  | "metric_label ChunkExtTooLong = ''chunk_ext_too_long''"
  | "metric_label ChunkTerminatorInvalid = ''chunk_terminator_invalid''"
  | "metric_label TrailerFieldForbidden = ''trailer_field_forbidden''"
  | "metric_label TrailingGarbage = ''trailing_garbage''"
  | "metric_label HostMissing = ''host_missing''"
  | "metric_label HostDuplicate = ''host_duplicate''"
  | "metric_label AuthorityEmpty = ''authority_empty''"
  | "metric_label AuthorityTooLong = ''authority_too_long''"
  | "metric_label AuthorityInvalidByte = ''authority_invalid_byte''"
  | "metric_label AuthorityNonAscii = ''authority_non_ascii''"
  | "metric_label AuthorityPortInvalid = ''authority_port_invalid''"
  | "metric_label AuthorityMismatch = ''authority_mismatch''"
  | "metric_label PathEmpty = ''path_empty''"
  | "metric_label PathTooLong = ''path_too_long''"
  | "metric_label PathInvalidByte = ''path_invalid_byte''"
  | "metric_label PathPercentTruncated = ''path_percent_truncated''"
  | "metric_label PathPercentInvalidHex = ''path_percent_invalid_hex''"
  | "metric_label PathEncodedNul = ''path_encoded_nul''"
  | "metric_label PathEncodedDot = ''path_encoded_dot''"
  | "metric_label PathEncodedSlash = ''path_encoded_slash''"
  | "metric_label PathTraversalAboveRoot = ''path_traversal_above_root''"
  | "metric_label QueryInvalidByte = ''query_invalid_byte''"
  | "metric_label ExpectUnsupported = ''expect_unsupported''"
  | "metric_label InterimResponseCountExceeded = ''interim_response_count_exceeded''"
  | "metric_label InterimResponseBytesExceeded = ''interim_response_bytes_exceeded''"
  | "metric_label PseudoHeaderUnknown = ''pseudo_header_unknown''"
  | "metric_label PseudoProtocolUnsupported = ''pseudo_protocol_unsupported''"
  | "metric_label PseudoHeaderDuplicate = ''pseudo_header_duplicate''"
  | "metric_label PseudoHeaderMissing = ''pseudo_header_missing''"
  | "metric_label PseudoHeaderAfterField = ''pseudo_header_after_field''"
  | "metric_label PseudoHeaderInTrailer = ''pseudo_header_in_trailer''"
  | "metric_label ConnectionSpecificField = ''connection_specific_field''"
  | "metric_label TeValueNotTrailers = ''te_value_not_trailers''"
  | "metric_label ForwardedElementLimit = ''forwarded_element_limit''"
  | "metric_label ForwardedBytesLimit = ''forwarded_bytes_limit''"
  | "metric_label ForwardedDuplicateParam = ''forwarded_duplicate_param''"
  | "metric_label ForwardedSyntax = ''forwarded_syntax''"
  | "metric_label RewriteLimitExceeded = ''rewrite_limit_exceeded''"

text \<open>The list is complete, the labels name the reasons apart, and every refusal is answered with an
  error status.\<close>

lemma ALL_reasons_complete: "r \<in> set ALL_reasons"
  by (cases r) (simp_all add: ALL_reasons_def)

lemma distinct_labels: "distinct (map metric_label ALL_reasons)"
  by code_simp

lemma all_error_statuses: "list_all (\<lambda>r. 400 \<le> status r \<and> status_from_u16 (status r) = Some (status r)) ALL_reasons"
  by code_simp

lemma metric_label_inj: "metric_label r = metric_label r' \<longleftrightarrow> r = r'"
  using distinct_labels ALL_reasons_complete [of r] ALL_reasons_complete [of r']
  by (auto simp: distinct_map inj_on_def)

lemma status_error: "400 \<le> status r \<and> status r \<le> 599"
  using all_error_statuses ALL_reasons_complete [of r]
  by (auto simp: list_all_iff status_from_u16_def split: if_splits)

section \<open>Limits\<close>

record http_limits =
  max_field_count :: nat
  max_field_line_bytes :: nat
  max_header_list_bytes :: nat
  max_request_line_bytes :: nat
  max_path_bytes :: nat
  max_authority_bytes :: nat
  max_chunk_ext_bytes :: nat
  max_forwarded_elements :: nat
  max_forwarded_bytes :: nat
  max_interim_responses :: nat
  max_interim_bytes :: nat
  max_method_bytes :: nat
  max_rewrites :: nat

text \<open>\<^verbatim>\<open>clamp_u32\<close> and \<^verbatim>\<open>clamp_u8\<close>.\<close>

definition clamp_to :: "nat \<Rightarrow> nat \<Rightarrow> nat" where
  "clamp_to v ceiling = (if v > ceiling then ceiling else v)"

definition DEFAULT_limits :: http_limits where
  "DEFAULT_limits = \<lparr>
     max_field_count = 100, max_field_line_bytes = 8192, max_header_list_bytes = 65536,
     max_request_line_bytes = 8192, max_path_bytes = 8192, max_authority_bytes = 255,
     max_chunk_ext_bytes = 256, max_forwarded_elements = 32, max_forwarded_bytes = 4096,
     max_interim_responses = 5, max_interim_bytes = 16384, max_method_bytes = 16, max_rewrites = 1\<rparr>"

definition MAX_REWRITES_CAP :: nat where
  "MAX_REWRITES_CAP = 3"

definition clamp_rewrites :: "http_limits \<Rightarrow> nat" where
  "clamp_rewrites l = clamp_to (max_rewrites l) MAX_REWRITES_CAP"

definition CEILING :: http_limits where
  "CEILING = \<lparr>
     max_field_count = 1000, max_field_line_bytes = 65535, max_header_list_bytes = 1048576,
     max_request_line_bytes = 65536, max_path_bytes = 65536, max_authority_bytes = 1024,
     max_chunk_ext_bytes = 4096, max_forwarded_elements = 255, max_forwarded_bytes = 65536,
     max_interim_responses = 100, max_interim_bytes = 1048576, max_method_bytes = 16, max_rewrites = 3\<rparr>"

definition clamped :: "http_limits \<Rightarrow> http_limits" where
  "clamped l = \<lparr>
     max_field_count = clamp_to (max_field_count l) (max_field_count CEILING),
     max_field_line_bytes = clamp_to (max_field_line_bytes l) (max_field_line_bytes CEILING),
     max_header_list_bytes = clamp_to (max_header_list_bytes l) (max_header_list_bytes CEILING),
     max_request_line_bytes = clamp_to (max_request_line_bytes l) (max_request_line_bytes CEILING),
     max_path_bytes = clamp_to (max_path_bytes l) (max_path_bytes CEILING),
     max_authority_bytes = clamp_to (max_authority_bytes l) (max_authority_bytes CEILING),
     max_chunk_ext_bytes = clamp_to (max_chunk_ext_bytes l) (max_chunk_ext_bytes CEILING),
     max_forwarded_elements = clamp_to (max_forwarded_elements l) (max_forwarded_elements CEILING),
     max_forwarded_bytes = clamp_to (max_forwarded_bytes l) (max_forwarded_bytes CEILING),
     max_interim_responses = clamp_to (max_interim_responses l) (max_interim_responses CEILING),
     max_interim_bytes = clamp_to (max_interim_bytes l) (max_interim_bytes CEILING),
     max_method_bytes = clamp_to (max_method_bytes l) (max_method_bytes CEILING),
     max_rewrites = clamp_to (max_rewrites l) (max_rewrites CEILING)\<rparr>"

text \<open>
  \<^verbatim>\<open>ClampedLimits\<close>: the values \<^const>\<open>clamped\<close> can return, which are its fixed points.
\<close>

definition is_clamped :: "http_limits \<Rightarrow> bool" where
  "is_clamped l \<longleftrightarrow> clamped l = l"

lemma clamp_to_le: "clamp_to v c \<le> c"
  by (simp add: clamp_to_def)

lemma clamp_to_id_iff: "clamp_to v c = v \<longleftrightarrow> v \<le> c"
  by (auto simp: clamp_to_def)

lemma is_clamped_clamped: "is_clamped (clamped l)"
  by (simp add: is_clamped_def clamped_def clamp_to_def)

lemma is_clamped_DEFAULT: "is_clamped DEFAULT_limits"
  by (simp add: is_clamped_def clamped_def clamp_to_def DEFAULT_limits_def CEILING_def)

text \<open>The bounds the byte-level components rely on.\<close>

lemma is_clampedD:
  assumes "is_clamped l"
  shows "max_field_count l \<le> 1000" "max_field_line_bytes l \<le> 65535" "max_header_list_bytes l \<le> 1048576"
    "max_chunk_ext_bytes l \<le> 4096" "max_request_line_bytes l \<le> 65536" "max_path_bytes l \<le> 65536"
    "max_authority_bytes l \<le> 1024" "max_method_bytes l \<le> 16"
proof -
  have e: "f (clamped l) = f l" for f :: "http_limits \<Rightarrow> nat" using assms by (simp add: is_clamped_def)
  show "max_field_count l \<le> 1000" using e [of max_field_count] by (simp add: clamped_def clamp_to_id_iff CEILING_def)
  show "max_field_line_bytes l \<le> 65535" using e [of max_field_line_bytes] by (simp add: clamped_def clamp_to_id_iff CEILING_def)
  show "max_header_list_bytes l \<le> 1048576" using e [of max_header_list_bytes] by (simp add: clamped_def clamp_to_id_iff CEILING_def)
  show "max_chunk_ext_bytes l \<le> 4096" using e [of max_chunk_ext_bytes] by (simp add: clamped_def clamp_to_id_iff CEILING_def)
  show "max_request_line_bytes l \<le> 65536" using e [of max_request_line_bytes] by (simp add: clamped_def clamp_to_id_iff CEILING_def)
  show "max_path_bytes l \<le> 65536" using e [of max_path_bytes] by (simp add: clamped_def clamp_to_id_iff CEILING_def)
  show "max_authority_bytes l \<le> 1024" using e [of max_authority_bytes] by (simp add: clamped_def clamp_to_id_iff CEILING_def)
  show "max_method_bytes l \<le> 16" using e [of max_method_bytes] by (simp add: clamped_def clamp_to_id_iff CEILING_def)
qed

section \<open>Token characters and methods\<close>

definition is_tchar :: "byte \<Rightarrow> bool" where
  "is_tchar b \<longleftrightarrow> b \<in> set ''!#$%&'' \<or> b = CHR 0x27 \<or> b \<in> set ''*+-.^_'' \<or> b = CHR 0x60 \<or> b \<in> set ''|~'' \<or>
     is_ascii_alphanumeric b"

record method_token =
  token_bytes :: bytes
  token_len :: nat

definition token_CAP :: nat where
  "token_CAP = 16"

definition token_as_bytes :: "method_token \<Rightarrow> bytes" where
  "token_as_bytes t = (case get_range (token_bytes t) 0 (token_len t) of Some bs \<Rightarrow> bs | None \<Rightarrow> [])"

datatype http_method =
    Method_Get | Method_Head | Method_Post | Method_Put | Method_Delete | Method_Connect
  | Method_Options | Method_Trace | Method_Patch | Method_Other method_token

text \<open>\<^verbatim>\<open>Method::parse\<close>.\<close>

definition parse_method :: "bytes \<Rightarrow> http_limits \<Rightarrow> reject_reason + http_method" where
  "parse_method raw limits =
     (if raw = [] then Inl MethodInvalid
      else if length raw > token_CAP then Inl MethodTooLong
      else if raw = ''GET'' then Inr Method_Get
      else if raw = ''HEAD'' then Inr Method_Head
      else if raw = ''POST'' then Inr Method_Post
      else if raw = ''PUT'' then Inr Method_Put
      else if raw = ''DELETE'' then Inr Method_Delete
      else if raw = ''CONNECT'' then Inr Method_Connect
      else if raw = ''OPTIONS'' then Inr Method_Options
      else if raw = ''TRACE'' then Inr Method_Trace
      else if raw = ''PATCH'' then Inr Method_Patch
      else if length raw > max_method_bytes limits then Inl MethodTooLong
      else if \<not> list_all is_tchar raw then Inl MethodInvalid
      else Inr (Method_Other \<lparr>token_bytes = raw @ replicate (token_CAP - length raw) CHR 0x00,
                             token_len = length raw\<rparr>))"

fun method_as_bytes :: "http_method \<Rightarrow> bytes" where
  "method_as_bytes Method_Get = ''GET''"
| "method_as_bytes Method_Head = ''HEAD''"
| "method_as_bytes Method_Post = ''POST''"
| "method_as_bytes Method_Put = ''PUT''"
| "method_as_bytes Method_Delete = ''DELETE''"
| "method_as_bytes Method_Connect = ''CONNECT''"
| "method_as_bytes Method_Options = ''OPTIONS''"
| "method_as_bytes Method_Trace = ''TRACE''"
| "method_as_bytes Method_Patch = ''PATCH''"
| "method_as_bytes (Method_Other t) = token_as_bytes t"

definition is_connect :: "http_method \<Rightarrow> bool" where
  "is_connect m \<longleftrightarrow> m = Method_Connect"

definition is_head :: "http_method \<Rightarrow> bool" where
  "is_head m \<longleftrightarrow> m = Method_Head"

text \<open>A parsed method prints as the bytes it was parsed from, and those are a token.\<close>

lemma token_as_bytes_padded:
  "token_as_bytes \<lparr>token_bytes = raw @ pad, token_len = length raw\<rparr> = raw"
  by (simp add: token_as_bytes_def get_range_def)

lemma parse_method_bytes: "parse_method raw l = Inr m \<Longrightarrow> method_as_bytes m = raw"
  by (auto simp: parse_method_def token_as_bytes_padded split: if_splits)

lemma parse_method_tchar: "parse_method raw l = Inr m \<Longrightarrow> raw \<noteq> [] \<and> list_all is_tchar raw \<and> length raw \<le> 16"
  by (auto simp: parse_method_def is_tchar_def is_ascii_alphanumeric_def is_ascii_uppercase_def token_CAP_def
      split: if_splits)

section \<open>Versions, schemes and parse results\<close>

datatype wire_version = Http10 | Http11 | H2 | H3

definition is_multiplexed :: "wire_version \<Rightarrow> bool" where
  "is_multiplexed v \<longleftrightarrow> v = H2 \<or> v = H3"

datatype scheme = Scheme_Http | Scheme_Https

fun default_port :: "scheme \<Rightarrow> nat" where
  "default_port Scheme_Http = 80"
| "default_port Scheme_Https = 443"

fun scheme_as_bytes :: "scheme \<Rightarrow> bytes" where
  "scheme_as_bytes Scheme_Http = ''http''"
| "scheme_as_bytes Scheme_Https = ''https''"

text \<open>\<^verbatim>\<open>ParseStatus\<close>; \<^verbatim>\<open>complete\<close> asserts its range in debug builds only.\<close>

datatype 'a parse_status = Complete 'a nat | Partial

fun status_consumed :: "'a parse_status \<Rightarrow> nat option" where
  "status_consumed (Complete v n) = Some n"
| "status_consumed Partial = None"

fun into_complete :: "'a parse_status \<Rightarrow> ('a \<times> nat) option" where
  "into_complete (Complete v n) = Some (v, n)"
| "into_complete Partial = None"

end
