(* ===== verification/Http_Field.thy ===== *)
theory Http_Field
  imports Http_Base
begin

text \<open>
  Field names and values (\<^verbatim>\<open>field.rs\<close>): the two byte-class tables, the validators, the trimmer of
  optional whitespace and the name normaliser; and the classifier of the header names the proxy itself
  interprets (\<^verbatim>\<open>known.rs\<close>). The tables are the character classes of RFC 9110, and the classifier inverts
  the spelling of every known name.
\<close>

section \<open>Byte classes\<close>

definition NAME_BYTES :: bytes where
  "NAME_BYTES = ''!#$%&'' @ [CHR 0x27] @ ''*+-.^_'' @ [CHR 0x60] @ ''|~0123456789abcdefghijklmnopqrstuvwxyz''"

definition build_name_ok :: "bool list" where
  "build_name_ok = foldl (\<lambda>t b. set_at t (byte_val b) True) (replicate 256 False) NAME_BYTES"

definition build_value_ok :: "bool list" where
  "build_value_ok = set_at (set_at (set_at (replicate 256 True) 0 False) 10 False) 13 False"

definition name_byte_ok :: "byte \<Rightarrow> bool" where
  "name_byte_ok b = build_name_ok ! byte_val b"

definition value_byte_ok :: "byte \<Rightarrow> bool" where
  "value_byte_ok b = build_value_ok ! byte_val b"

lemma set_all_nth:
  "n < length t \<Longrightarrow>
   foldl (\<lambda>t b. set_at t (byte_val b) True) t bs ! n \<longleftrightarrow> t ! n \<or> n \<in> byte_val ` set bs"
  by (induction bs arbitrary: t) (auto simp: nth_set_at)

lemma name_byte_ok_mem: "name_byte_ok b \<longleftrightarrow> b \<in> set NAME_BYTES"
  using byte_val_less [of b] by (auto simp: name_byte_ok_def build_name_ok_def set_all_nth)

lemma NAME_BYTES_tchar: "b \<in> set NAME_BYTES \<longleftrightarrow> is_tchar b \<and> \<not> is_ascii_uppercase b"
  by (rule spec [of _ b]) code_simp

text \<open>The name table is the token alphabet of RFC 9110 without the uppercase letters; the value table
  excludes exactly NUL, CR and LF.\<close>

lemma name_byte_ok_iff: "name_byte_ok b \<longleftrightarrow> is_tchar b \<and> \<not> is_ascii_uppercase b"
  by (simp add: name_byte_ok_mem NAME_BYTES_tchar)

lemma value_byte_ok_iff: "value_byte_ok b \<longleftrightarrow> b \<noteq> CHR 0x00 \<and> b \<noteq> CR \<and> b \<noteq> LF"
proof -
  have "value_byte_ok b \<longleftrightarrow> byte_val b \<noteq> 0 \<and> byte_val b \<noteq> 10 \<and> byte_val b \<noteq> 13"
    using byte_val_less [of b] by (simp add: value_byte_ok_def build_value_ok_def nth_set_at)
  also have "\<dots> \<longleftrightarrow> b \<noteq> CHR 0x00 \<and> b \<noteq> CR \<and> b \<noteq> LF"
    by (rule spec [of _ b]) code_simp
  finally show ?thesis .
qed

declare name_byte_ok_iff [code] value_byte_ok_iff [code]

section \<open>Validation\<close>

datatype underscore_policy = UnderscorePolicy_Reject | UnderscorePolicy_MapToHyphen

fun validate_name_bytes :: "bytes \<Rightarrow> reject_reason + unit" where
  "validate_name_bytes [] = Inr ()"
| "validate_name_bytes (b # bs) =
     (if is_ascii_uppercase b then Inl FieldNameUppercase
      else if b = CHR ''_'' then Inl FieldNameUnderscore
      else if \<not> name_byte_ok b then Inl FieldNameInvalidByte
      else validate_name_bytes bs)"

definition validate_name :: "bytes \<Rightarrow> wire_version \<Rightarrow> reject_reason + unit" where
  "validate_name name version =
     (if name = [] then Inl FieldNameEmpty else validate_name_bytes name)"

definition is_ows :: "byte \<Rightarrow> bool" where
  "is_ows b \<longleftrightarrow> b = SP \<or> b = HTAB"

definition validate_value :: "bytes \<Rightarrow> wire_version \<Rightarrow> reject_reason + unit" where
  "validate_value v version =
     (if \<not> list_all value_byte_ok v then Inl FieldValueInvalidByte
      else if is_multiplexed version \<and> v \<noteq> [] \<and> is_ows (hd v) then Inl FieldValueLeadingWhitespace
      else if is_multiplexed version \<and> v \<noteq> [] \<and> is_ows (last v) then Inl FieldValueTrailingWhitespace
      else Inr ())"

definition trim_ows :: "bytes \<Rightarrow> bytes" where
  "trim_ows v =
     (let start = (case position (\<lambda>b. \<not> is_ows b) v of Some i \<Rightarrow> i | None \<Rightarrow> length v);
          stop = (case rposition (\<lambda>b. \<not> is_ows b) v of Some i \<Rightarrow> sat_add i 1 | None \<Rightarrow> start)
      in case get_range v start stop of Some bs \<Rightarrow> bs | None \<Rightarrow> [])"

text \<open>
  \<^verbatim>\<open>normalize_name_into\<close>: the byte written for one byte of the name, and the walk that overwrites the
  front of \<open>out\<close>. A success returns the length and the buffer after the call; after an error its
  contents are unspecified.
\<close>

definition normalize_byte :: "underscore_policy \<Rightarrow> byte \<Rightarrow> reject_reason + byte" where
  "normalize_byte policy b =
     (let b2 = to_ascii_lowercase b in
      if b2 = CHR ''_'' then
        (case policy of UnderscorePolicy_Reject \<Rightarrow> Inl FieldNameUnderscore
         | UnderscorePolicy_MapToHyphen \<Rightarrow> Inr CHR ''-'')
      else Inr b2)"

fun normalize_walk :: "underscore_policy \<Rightarrow> bytes \<Rightarrow> bytes \<Rightarrow> reject_reason + bytes" where
  "normalize_walk policy (b # raw) (_ # out) =
     and_then (normalize_byte policy b) (\<lambda>b2.
     and_then (normalize_walk policy raw out) (\<lambda>out'. Inr (b2 # out')))"
| "normalize_walk policy _ out = Inr out"

definition normalize_name_into :: "bytes \<Rightarrow> underscore_policy \<Rightarrow> bytes \<Rightarrow> reject_reason + nat \<times> bytes" where
  "normalize_name_into raw policy out =
     (if length out < length raw then Inl FieldNameInvalidByte
      else and_then (normalize_walk policy raw out) (\<lambda>out'. Inr (length raw, out')))"

text \<open>What the validators accept.\<close>

definition name_ok :: "bytes \<Rightarrow> bool" where
  "name_ok name \<longleftrightarrow> name \<noteq> [] \<and> (\<forall>b \<in> set name. is_tchar b \<and> \<not> is_ascii_uppercase b \<and> b \<noteq> CHR ''_'')"

lemma validate_name_bytes_ok:
  "validate_name_bytes name = Inr () \<longleftrightarrow> (\<forall>b \<in> set name. is_tchar b \<and> \<not> is_ascii_uppercase b \<and> b \<noteq> CHR ''_'')"
  by (induction name) (auto simp: name_byte_ok_iff)

lemma validate_name_ok: "validate_name name v = Inr () \<longleftrightarrow> name_ok name"
  by (simp add: validate_name_def name_ok_def validate_name_bytes_ok)

definition value_ok :: "bytes \<Rightarrow> bool" where
  "value_ok v \<longleftrightarrow> (\<forall>b \<in> set v. b \<noteq> CHR 0x00 \<and> b \<noteq> CR \<and> b \<noteq> LF)"

definition ows_trimmed :: "bytes \<Rightarrow> bool" where
  "ows_trimmed v \<longleftrightarrow> (v \<noteq> [] \<longrightarrow> \<not> is_ows (hd v) \<and> \<not> is_ows (last v))"

lemma validate_value_ok:
  "validate_value v version = Inr () \<longleftrightarrow> value_ok v \<and> (is_multiplexed version \<longrightarrow> ows_trimmed v)"
  by (auto simp: validate_value_def value_ok_def ows_trimmed_def list_all_iff value_byte_ok_iff)

text \<open>Trimming removes exactly the whitespace at the two ends.\<close>

lemma position_dropWhile:
  "dropWhile (\<lambda>b. \<not> p b) v = drop (case position p v of Some i \<Rightarrow> i | None \<Rightarrow> length v) v"
  by (induction v) (auto split: option.splits)

lemma trim_ows_middle:
  assumes "\<forall>b \<in> set xs. is_ows b" and "\<forall>b \<in> set zs. is_ows b" and "ows_trimmed v"
    and "length (xs @ v @ zs) \<le> usize_max"
  shows "trim_ows (xs @ v @ zs) = v"
proof (cases "v = []")
  case True
  then have "position (\<lambda>b. \<not> is_ows b) (xs @ v @ zs) = None" "position (\<lambda>b. \<not> is_ows b) (rev (xs @ v @ zs)) = None"
    using assms(1,2) by (auto simp: position_None_iff)
  then show ?thesis using True by (simp add: trim_ows_def rposition_def get_range_def)
next
  case False
  then obtain h t l f where v: "v = h # t" "v = f @ [l]" by (metis list.exhaust rev_exhaust)
  have "hd v = h" "last v = l" using v(1) by simp (simp add: v(2))
  then have ends: "\<not> is_ows h" "\<not> is_ows l" using assms(3) False by (auto simp: ows_trimmed_def)
  have skip: "position (\<lambda>b. \<not> is_ows b) (ys @ b # rest) = Some (length ys)"
    if "\<forall>b \<in> set ys. is_ows b" "\<not> is_ows b" for ys b rest
    using that by (induction ys) auto
  have "position (\<lambda>b. \<not> is_ows b) (xs @ v @ zs) = Some (length xs)"
    using skip [of xs h "t @ zs"] assms(1) ends v by simp
  moreover have "rev (xs @ v @ zs) = rev zs @ l # rev f @ rev xs" using v(2) by simp
  then have "rposition (\<lambda>b. \<not> is_ows b) (xs @ v @ zs) = Some (length xs + length v - 1)"
    using skip [of "rev zs" l "rev f @ rev xs"] assms(2) ends v(2) by (simp add: rposition_def)
  ultimately show ?thesis
    using assms(4) v(1) by (simp add: trim_ows_def get_range_def sat_add_def)
qed

lemma ows_split:
  obtains xs v zs where "w = xs @ v @ zs" "\<forall>b \<in> set xs. is_ows b" "\<forall>b \<in> set zs. is_ows b" "ows_trimmed v"
proof -
  let ?xs = "takeWhile is_ows w" and ?r = "dropWhile is_ows w"
  let ?zs = "rev (takeWhile is_ows (rev ?r))" and ?v = "rev (dropWhile is_ows (rev ?r))"
  have "?v @ ?zs = ?r" by (metis rev_append rev_rev_ident takeWhile_dropWhile_id)
  moreover have "?xs @ ?r = w" by simp
  moreover have "ows_trimmed ?v"
    unfolding ows_trimmed_def
  proof (intro impI conjI)
    assume ne: "?v \<noteq> []"
    then have "last ?v = hd (dropWhile is_ows (rev ?r))" by (simp add: last_rev)
    then show "\<not> is_ows (last ?v)" using ne hd_dropWhile [of is_ows "rev ?r"] by simp
    have "hd ?v = hd ?r" using ne \<open>?v @ ?zs = ?r\<close> by (metis hd_append2)
    moreover have "?r \<noteq> []" using ne by (metis dropWhile.simps(1) rev.simps(1))
    ultimately show "\<not> is_ows (hd ?v)" using hd_dropWhile by metis
  qed
  ultimately show ?thesis
    using that [of ?xs ?v ?zs] by (metis set_rev set_takeWhileD)
qed

lemma trim_ows_trimmed: "length w \<le> usize_max \<Longrightarrow> ows_trimmed (trim_ows w)"
  using trim_ows_middle ows_split [of w] by metis

lemma trim_ows_subset: "set (trim_ows w) \<subseteq> set w"
  by (auto simp: trim_ows_def get_range_def Let_def split: option.splits if_splits dest!: in_set_takeD in_set_dropD)

lemma length_trim_ows: "length (trim_ows w) \<le> length w"
  by (auto simp: trim_ows_def get_range_def Let_def split: option.splits if_splits)

text \<open>Normalisation writes the canonical name to the front of the buffer.\<close>

definition canonical_name :: "underscore_policy \<Rightarrow> bytes \<Rightarrow> bytes" where
  "canonical_name policy raw =
     map (\<lambda>b. if policy = UnderscorePolicy_MapToHyphen \<and> b = CHR ''_'' then CHR ''-'' else to_ascii_lowercase b) raw"

lemma lower_underscore [simp]: "to_ascii_lowercase b = CHR ''_'' \<longleftrightarrow> b = CHR ''_''"
  by (rule spec [of _ b]) code_simp

lemma normalize_byte_eq:
  "normalize_byte policy b =
     (if policy = UnderscorePolicy_Reject \<and> b = CHR ''_'' then Inl FieldNameUnderscore
      else Inr (if b = CHR ''_'' then CHR ''-'' else to_ascii_lowercase b))"
  by (cases policy) (auto simp: normalize_byte_def Let_def)

lemma normalize_walk_eq:
  "length raw \<le> length out \<Longrightarrow>
   normalize_walk policy raw out =
     (if policy = UnderscorePolicy_Reject \<and> CHR ''_'' \<in> set raw then Inl FieldNameUnderscore
      else Inr (canonical_name policy raw @ drop (length raw) out))"
proof (induction policy raw out rule: normalize_walk.induct)
  case (1 policy b raw x out)
  then show ?case by (cases policy) (auto simp: normalize_byte_eq canonical_name_def)
qed (auto simp: canonical_name_def)

lemma length_canonical_name [simp]: "length (canonical_name policy raw) = length raw"
  by (simp add: canonical_name_def)

lemma normalize_name_into_eq:
  "normalize_name_into raw policy out =
     (if length out < length raw then Inl FieldNameInvalidByte
      else if policy = UnderscorePolicy_Reject \<and> CHR ''_'' \<in> set raw then Inl FieldNameUnderscore
      else Inr (length raw, canonical_name policy raw @ drop (length raw) out))"
  by (simp add: normalize_name_into_def normalize_walk_eq)

section \<open>Known header names\<close>

datatype (plugins only: code size) known_header =
    KnownHeader_Unknown | KnownHeader_Host | KnownHeader_ContentLength
    | KnownHeader_TransferEncoding | KnownHeader_Connection | KnownHeader_ProxyConnection
    | KnownHeader_KeepAlive | KnownHeader_Upgrade | KnownHeader_Http2Settings
    | KnownHeader_Trailer | KnownHeader_Te | KnownHeader_ProxyAuthenticate
    | KnownHeader_ProxyAuthorization | KnownHeader_Expect | KnownHeader_ContentType
    | KnownHeader_ContentEncoding | KnownHeader_Accept | KnownHeader_AcceptEncoding
    | KnownHeader_AcceptLanguage | KnownHeader_Authorization | KnownHeader_Cookie
    | KnownHeader_SetCookie | KnownHeader_UserAgent | KnownHeader_Referer | KnownHeader_Origin
    | KnownHeader_Date | KnownHeader_Server | KnownHeader_Location | KnownHeader_CacheControl
    | KnownHeader_Pragma | KnownHeader_Vary | KnownHeader_Age | KnownHeader_Etag
    | KnownHeader_IfNoneMatch | KnownHeader_IfModifiedSince | KnownHeader_IfMatch
    | KnownHeader_IfUnmodifiedSince | KnownHeader_Range | KnownHeader_IfRange
    | KnownHeader_MaxForwards | KnownHeader_Forwarded | KnownHeader_XForwardedFor
    | KnownHeader_XForwardedProto | KnownHeader_XForwardedHost | KnownHeader_XForwardedPort
    | KnownHeader_XRealIp | KnownHeader_Priority | KnownHeader_Via | KnownHeader_Warning
    | KnownHeader_Allow | KnownHeader_RetryAfter | KnownHeader_WwwAuthenticate

definition ALL_known :: "known_header list" where
  "ALL_known =
     [KnownHeader_Unknown, KnownHeader_Host, KnownHeader_ContentLength
      , KnownHeader_TransferEncoding, KnownHeader_Connection, KnownHeader_ProxyConnection
      , KnownHeader_KeepAlive, KnownHeader_Upgrade, KnownHeader_Http2Settings
      , KnownHeader_Trailer, KnownHeader_Te, KnownHeader_ProxyAuthenticate
      , KnownHeader_ProxyAuthorization, KnownHeader_Expect, KnownHeader_ContentType
      , KnownHeader_ContentEncoding, KnownHeader_Accept, KnownHeader_AcceptEncoding
      , KnownHeader_AcceptLanguage, KnownHeader_Authorization, KnownHeader_Cookie
      , KnownHeader_SetCookie, KnownHeader_UserAgent, KnownHeader_Referer, KnownHeader_Origin
      , KnownHeader_Date, KnownHeader_Server, KnownHeader_Location, KnownHeader_CacheControl
      , KnownHeader_Pragma, KnownHeader_Vary, KnownHeader_Age, KnownHeader_Etag
      , KnownHeader_IfNoneMatch, KnownHeader_IfModifiedSince, KnownHeader_IfMatch
      , KnownHeader_IfUnmodifiedSince, KnownHeader_Range, KnownHeader_IfRange
      , KnownHeader_MaxForwards, KnownHeader_Forwarded, KnownHeader_XForwardedFor
      , KnownHeader_XForwardedProto, KnownHeader_XForwardedHost, KnownHeader_XForwardedPort
      , KnownHeader_XRealIp, KnownHeader_Priority, KnownHeader_Via, KnownHeader_Warning
      , KnownHeader_Allow, KnownHeader_RetryAfter, KnownHeader_WwwAuthenticate]"

text \<open>The \<^verbatim>\<open>repr(u8)\<close> discriminant, in declaration order.\<close>

primrec discriminant :: "known_header \<Rightarrow> nat" where
    "discriminant KnownHeader_Unknown = 0"
  | "discriminant KnownHeader_Host = 1"
  | "discriminant KnownHeader_ContentLength = 2"
  | "discriminant KnownHeader_TransferEncoding = 3"
  | "discriminant KnownHeader_Connection = 4"
  | "discriminant KnownHeader_ProxyConnection = 5"
  | "discriminant KnownHeader_KeepAlive = 6"
  | "discriminant KnownHeader_Upgrade = 7"
  | "discriminant KnownHeader_Http2Settings = 8"
  | "discriminant KnownHeader_Trailer = 9"
  | "discriminant KnownHeader_Te = 10"
  | "discriminant KnownHeader_ProxyAuthenticate = 11"
  | "discriminant KnownHeader_ProxyAuthorization = 12"
  | "discriminant KnownHeader_Expect = 13"
  | "discriminant KnownHeader_ContentType = 14"
  | "discriminant KnownHeader_ContentEncoding = 15"
  | "discriminant KnownHeader_Accept = 16"
  | "discriminant KnownHeader_AcceptEncoding = 17"
  | "discriminant KnownHeader_AcceptLanguage = 18"
  | "discriminant KnownHeader_Authorization = 19"
  | "discriminant KnownHeader_Cookie = 20"
  | "discriminant KnownHeader_SetCookie = 21"
  | "discriminant KnownHeader_UserAgent = 22"
  | "discriminant KnownHeader_Referer = 23"
  | "discriminant KnownHeader_Origin = 24"
  | "discriminant KnownHeader_Date = 25"
  | "discriminant KnownHeader_Server = 26"
  | "discriminant KnownHeader_Location = 27"
  | "discriminant KnownHeader_CacheControl = 28"
  | "discriminant KnownHeader_Pragma = 29"
  | "discriminant KnownHeader_Vary = 30"
  | "discriminant KnownHeader_Age = 31"
  | "discriminant KnownHeader_Etag = 32"
  | "discriminant KnownHeader_IfNoneMatch = 33"
  | "discriminant KnownHeader_IfModifiedSince = 34"
  | "discriminant KnownHeader_IfMatch = 35"
  | "discriminant KnownHeader_IfUnmodifiedSince = 36"
  | "discriminant KnownHeader_Range = 37"
  | "discriminant KnownHeader_IfRange = 38"
  | "discriminant KnownHeader_MaxForwards = 39"
  | "discriminant KnownHeader_Forwarded = 40"
  | "discriminant KnownHeader_XForwardedFor = 41"
  | "discriminant KnownHeader_XForwardedProto = 42"
  | "discriminant KnownHeader_XForwardedHost = 43"
  | "discriminant KnownHeader_XForwardedPort = 44"
  | "discriminant KnownHeader_XRealIp = 45"
  | "discriminant KnownHeader_Priority = 46"
  | "discriminant KnownHeader_Via = 47"
  | "discriminant KnownHeader_Warning = 48"
  | "discriminant KnownHeader_Allow = 49"
  | "discriminant KnownHeader_RetryAfter = 50"
  | "discriminant KnownHeader_WwwAuthenticate = 51"

definition KNOWN_HEADER_COUNT :: nat where
  "KNOWN_HEADER_COUNT = 52"

primrec known_as_bytes :: "known_header \<Rightarrow> bytes" where
    "known_as_bytes KnownHeader_Unknown = []"
  | "known_as_bytes KnownHeader_Host = ''host''"
  | "known_as_bytes KnownHeader_ContentLength = ''content-length''"
  | "known_as_bytes KnownHeader_TransferEncoding = ''transfer-encoding''"
  | "known_as_bytes KnownHeader_Connection = ''connection''"
  | "known_as_bytes KnownHeader_ProxyConnection = ''proxy-connection''"
  | "known_as_bytes KnownHeader_KeepAlive = ''keep-alive''"
  | "known_as_bytes KnownHeader_Upgrade = ''upgrade''"
  | "known_as_bytes KnownHeader_Http2Settings = ''http2-settings''"
  | "known_as_bytes KnownHeader_Trailer = ''trailer''"
  | "known_as_bytes KnownHeader_Te = ''te''"
  | "known_as_bytes KnownHeader_ProxyAuthenticate = ''proxy-authenticate''"
  | "known_as_bytes KnownHeader_ProxyAuthorization = ''proxy-authorization''"
  | "known_as_bytes KnownHeader_Expect = ''expect''"
  | "known_as_bytes KnownHeader_ContentType = ''content-type''"
  | "known_as_bytes KnownHeader_ContentEncoding = ''content-encoding''"
  | "known_as_bytes KnownHeader_Accept = ''accept''"
  | "known_as_bytes KnownHeader_AcceptEncoding = ''accept-encoding''"
  | "known_as_bytes KnownHeader_AcceptLanguage = ''accept-language''"
  | "known_as_bytes KnownHeader_Authorization = ''authorization''"
  | "known_as_bytes KnownHeader_Cookie = ''cookie''"
  | "known_as_bytes KnownHeader_SetCookie = ''set-cookie''"
  | "known_as_bytes KnownHeader_UserAgent = ''user-agent''"
  | "known_as_bytes KnownHeader_Referer = ''referer''"
  | "known_as_bytes KnownHeader_Origin = ''origin''"
  | "known_as_bytes KnownHeader_Date = ''date''"
  | "known_as_bytes KnownHeader_Server = ''server''"
  | "known_as_bytes KnownHeader_Location = ''location''"
  | "known_as_bytes KnownHeader_CacheControl = ''cache-control''"
  | "known_as_bytes KnownHeader_Pragma = ''pragma''"
  | "known_as_bytes KnownHeader_Vary = ''vary''"
  | "known_as_bytes KnownHeader_Age = ''age''"
  | "known_as_bytes KnownHeader_Etag = ''etag''"
  | "known_as_bytes KnownHeader_IfNoneMatch = ''if-none-match''"
  | "known_as_bytes KnownHeader_IfModifiedSince = ''if-modified-since''"
  | "known_as_bytes KnownHeader_IfMatch = ''if-match''"
  | "known_as_bytes KnownHeader_IfUnmodifiedSince = ''if-unmodified-since''"
  | "known_as_bytes KnownHeader_Range = ''range''"
  | "known_as_bytes KnownHeader_IfRange = ''if-range''"
  | "known_as_bytes KnownHeader_MaxForwards = ''max-forwards''"
  | "known_as_bytes KnownHeader_Forwarded = ''forwarded''"
  | "known_as_bytes KnownHeader_XForwardedFor = ''x-forwarded-for''"
  | "known_as_bytes KnownHeader_XForwardedProto = ''x-forwarded-proto''"
  | "known_as_bytes KnownHeader_XForwardedHost = ''x-forwarded-host''"
  | "known_as_bytes KnownHeader_XForwardedPort = ''x-forwarded-port''"
  | "known_as_bytes KnownHeader_XRealIp = ''x-real-ip''"
  | "known_as_bytes KnownHeader_Priority = ''priority''"
  | "known_as_bytes KnownHeader_Via = ''via''"
  | "known_as_bytes KnownHeader_Warning = ''warning''"
  | "known_as_bytes KnownHeader_Allow = ''allow''"
  | "known_as_bytes KnownHeader_RetryAfter = ''retry-after''"
  | "known_as_bytes KnownHeader_WwwAuthenticate = ''www-authenticate''"

text \<open>\<^verbatim>\<open>classify\<close>: a match on the length, then on the first byte, then on the whole name.\<close>

definition classify :: "bytes \<Rightarrow> known_header" where
  "classify name =
     (let n = length name; first = get name 0 in
      if n = 2 then
        (if first = Some CHR ''t'' then (if name = ''te'' then KnownHeader_Te else KnownHeader_Unknown)
         else KnownHeader_Unknown)
      else if n = 3 then
        (if first = Some CHR ''a'' then (if name = ''age'' then KnownHeader_Age else KnownHeader_Unknown)
         else if first = Some CHR ''v'' then (if name = ''via'' then KnownHeader_Via else KnownHeader_Unknown)
         else KnownHeader_Unknown)
      else if n = 4 then
        (if first = Some CHR ''h'' then (if name = ''host'' then KnownHeader_Host else KnownHeader_Unknown)
         else if first = Some CHR ''d'' then (if name = ''date'' then KnownHeader_Date else KnownHeader_Unknown)
         else if first = Some CHR ''v'' then (if name = ''vary'' then KnownHeader_Vary else KnownHeader_Unknown)
         else if first = Some CHR ''e'' then (if name = ''etag'' then KnownHeader_Etag else KnownHeader_Unknown)
         else KnownHeader_Unknown)
      else if n = 5 then
        (if first = Some CHR ''r'' then (if name = ''range'' then KnownHeader_Range else KnownHeader_Unknown)
         else if first = Some CHR ''a'' then (if name = ''allow'' then KnownHeader_Allow else KnownHeader_Unknown)
         else KnownHeader_Unknown)
      else if n = 6 then
        (if first = Some CHR ''e'' then (if name = ''expect'' then KnownHeader_Expect else KnownHeader_Unknown)
         else if first = Some CHR ''a'' then (if name = ''accept'' then KnownHeader_Accept else KnownHeader_Unknown)
         else if first = Some CHR ''c'' then (if name = ''cookie'' then KnownHeader_Cookie else KnownHeader_Unknown)
         else if first = Some CHR ''o'' then (if name = ''origin'' then KnownHeader_Origin else KnownHeader_Unknown)
         else if first = Some CHR ''s'' then (if name = ''server'' then KnownHeader_Server else KnownHeader_Unknown)
         else if first = Some CHR ''p'' then (if name = ''pragma'' then KnownHeader_Pragma else KnownHeader_Unknown)
         else KnownHeader_Unknown)
      else if n = 7 then
        (if first = Some CHR ''u'' then (if name = ''upgrade'' then KnownHeader_Upgrade else KnownHeader_Unknown)
         else if first = Some CHR ''t'' then (if name = ''trailer'' then KnownHeader_Trailer else KnownHeader_Unknown)
         else if first = Some CHR ''r'' then (if name = ''referer'' then KnownHeader_Referer else KnownHeader_Unknown)
         else if first = Some CHR ''w'' then (if name = ''warning'' then KnownHeader_Warning else KnownHeader_Unknown)
         else KnownHeader_Unknown)
      else if n = 8 then
        (if first = Some CHR ''l'' then (if name = ''location'' then KnownHeader_Location else KnownHeader_Unknown)
         else if first = Some CHR ''i'' then (if name = ''if-match'' then KnownHeader_IfMatch else if name = ''if-range'' then KnownHeader_IfRange else KnownHeader_Unknown)
         else if first = Some CHR ''p'' then (if name = ''priority'' then KnownHeader_Priority else KnownHeader_Unknown)
         else KnownHeader_Unknown)
      else if n = 9 then
        (if first = Some CHR ''f'' then (if name = ''forwarded'' then KnownHeader_Forwarded else KnownHeader_Unknown)
         else if first = Some CHR ''x'' then (if name = ''x-real-ip'' then KnownHeader_XRealIp else KnownHeader_Unknown)
         else KnownHeader_Unknown)
      else if n = 10 then
        (if first = Some CHR ''c'' then (if name = ''connection'' then KnownHeader_Connection else KnownHeader_Unknown)
         else if first = Some CHR ''k'' then (if name = ''keep-alive'' then KnownHeader_KeepAlive else KnownHeader_Unknown)
         else if first = Some CHR ''s'' then (if name = ''set-cookie'' then KnownHeader_SetCookie else KnownHeader_Unknown)
         else if first = Some CHR ''u'' then (if name = ''user-agent'' then KnownHeader_UserAgent else KnownHeader_Unknown)
         else KnownHeader_Unknown)
      else if n = 11 then
        (if first = Some CHR ''r'' then (if name = ''retry-after'' then KnownHeader_RetryAfter else KnownHeader_Unknown)
         else KnownHeader_Unknown)
      else if n = 12 then
        (if first = Some CHR ''c'' then (if name = ''content-type'' then KnownHeader_ContentType else KnownHeader_Unknown)
         else if first = Some CHR ''m'' then (if name = ''max-forwards'' then KnownHeader_MaxForwards else KnownHeader_Unknown)
         else KnownHeader_Unknown)
      else if n = 13 then
        (if first = Some CHR ''a'' then (if name = ''authorization'' then KnownHeader_Authorization else KnownHeader_Unknown)
         else if first = Some CHR ''c'' then (if name = ''cache-control'' then KnownHeader_CacheControl else KnownHeader_Unknown)
         else if first = Some CHR ''i'' then (if name = ''if-none-match'' then KnownHeader_IfNoneMatch else KnownHeader_Unknown)
         else KnownHeader_Unknown)
      else if n = 14 then
        (if first = Some CHR ''c'' then (if name = ''content-length'' then KnownHeader_ContentLength else KnownHeader_Unknown)
         else if first = Some CHR ''h'' then (if name = ''http2-settings'' then KnownHeader_Http2Settings else KnownHeader_Unknown)
         else KnownHeader_Unknown)
      else if n = 15 then
        (if first = Some CHR ''a'' then (if name = ''accept-encoding'' then KnownHeader_AcceptEncoding else if name = ''accept-language'' then KnownHeader_AcceptLanguage else KnownHeader_Unknown)
         else if first = Some CHR ''x'' then (if name = ''x-forwarded-for'' then KnownHeader_XForwardedFor else KnownHeader_Unknown)
         else KnownHeader_Unknown)
      else if n = 16 then
        (if first = Some CHR ''p'' then (if name = ''proxy-connection'' then KnownHeader_ProxyConnection else KnownHeader_Unknown)
         else if first = Some CHR ''c'' then (if name = ''content-encoding'' then KnownHeader_ContentEncoding else KnownHeader_Unknown)
         else if first = Some CHR ''x'' then (if name = ''x-forwarded-host'' then KnownHeader_XForwardedHost else if name = ''x-forwarded-port'' then KnownHeader_XForwardedPort else KnownHeader_Unknown)
         else if first = Some CHR ''w'' then (if name = ''www-authenticate'' then KnownHeader_WwwAuthenticate else KnownHeader_Unknown)
         else KnownHeader_Unknown)
      else if n = 17 then
        (if first = Some CHR ''t'' then (if name = ''transfer-encoding'' then KnownHeader_TransferEncoding else KnownHeader_Unknown)
         else if first = Some CHR ''i'' then (if name = ''if-modified-since'' then KnownHeader_IfModifiedSince else KnownHeader_Unknown)
         else if first = Some CHR ''x'' then (if name = ''x-forwarded-proto'' then KnownHeader_XForwardedProto else KnownHeader_Unknown)
         else KnownHeader_Unknown)
      else if n = 18 then
        (if first = Some CHR ''p'' then (if name = ''proxy-authenticate'' then KnownHeader_ProxyAuthenticate else KnownHeader_Unknown)
         else KnownHeader_Unknown)
      else if n = 19 then
        (if first = Some CHR ''p'' then (if name = ''proxy-authorization'' then KnownHeader_ProxyAuthorization else KnownHeader_Unknown)
         else if first = Some CHR ''i'' then (if name = ''if-unmodified-since'' then KnownHeader_IfUnmodifiedSince else KnownHeader_Unknown)
         else KnownHeader_Unknown)
      else KnownHeader_Unknown)"

lemma ALL_known_complete: "k \<in> set ALL_known"
  by (cases k) (simp_all add: ALL_known_def)

lemma ALL_known_discriminants: "map discriminant ALL_known = [0..<52]"
  by code_simp

lemma discriminant_inj: "discriminant k = discriminant k' \<longleftrightarrow> k = k'"
proof -
  have "distinct (map discriminant ALL_known)" by (simp add: ALL_known_discriminants)
  then show ?thesis using ALL_known_complete [of k] ALL_known_complete [of k'] by (auto simp: distinct_map inj_on_def)
qed

lemma discriminant_less: "discriminant k < KNOWN_HEADER_COUNT"
proof -
  have "discriminant k \<in> set (map discriminant ALL_known)" using ALL_known_complete [of k] by simp
  then show ?thesis by (simp add: ALL_known_discriminants KNOWN_HEADER_COUNT_def)
qed

lemma classify_all: "list_all (\<lambda>k. k = KnownHeader_Unknown \<or> classify (known_as_bytes k) = k) ALL_known"
  by code_simp

lemma classify_sound: "classify name = k \<Longrightarrow> k \<noteq> KnownHeader_Unknown \<Longrightarrow> name = known_as_bytes k"
  unfolding classify_def Let_def by (auto split: if_splits)

text \<open>The classifier inverts the table of spellings.\<close>

lemma classify_iff: "k \<noteq> KnownHeader_Unknown \<Longrightarrow> classify name = k \<longleftrightarrow> name = known_as_bytes k"
  using classify_sound classify_all ALL_known_complete [of k] by (auto simp: list_all_iff)

lemma classify_Unknown_iff: "classify name = KnownHeader_Unknown \<longleftrightarrow> name \<notin> known_as_bytes ` (UNIV - {KnownHeader_Unknown})"
  using classify_iff by (metis (no_types, lifting) DiffD2 DiffI UNIV_I imageE imageI singletonI singletonD)

lemma known_name_lengths: "list_all (\<lambda>k. length (known_as_bytes k) \<le> 19) ALL_known"
  by code_simp

lemma classify_long: "19 < length name \<Longrightarrow> classify name = KnownHeader_Unknown"
  using known_name_lengths ALL_known_complete [of "classify name"] classify_sound [OF refl, of name]
  by (metis (mono_tags, lifting) list_all_iff linorder_not_le)

text \<open>White space around a value changes nothing, and a valid name has no separator in it.\<close>

lemma ows_value_ok: "is_ows b \<Longrightarrow> b \<noteq> CHR 0x00 \<and> b \<noteq> CR \<and> b \<noteq> LF"
  by (auto simp: is_ows_def byte_consts)

lemma value_ok_trim: "length v \<le> usize_max \<Longrightarrow> value_ok (trim_ows v) \<longleftrightarrow> value_ok v"
proof -
  assume len: "length v \<le> usize_max"
  obtain xs w zs where v: "v = xs @ w @ zs" "\<forall>b \<in> set xs. is_ows b" "\<forall>b \<in> set zs. is_ows b" "ows_trimmed w"
    by (rule ows_split)
  have "value_ok xs" "value_ok zs" unfolding value_ok_def using v(2,3) ows_value_ok by blast+
  moreover have "trim_ows v = w" using trim_ows_middle [OF v(2-4)] v(1) len by simp
  moreover have "value_ok v \<longleftrightarrow> value_ok xs \<and> value_ok w \<and> value_ok zs"
    unfolding v(1) value_ok_def set_append ball_Un by simp
  ultimately show ?thesis by simp
qed

lemma name_ok_bytes:
  assumes "name_ok (canonical_name policy name)" and "b \<in> set name"
  shows "b \<noteq> CR" "b \<noteq> LF" "b \<noteq> SP" "b \<noteq> HTAB" "b \<noteq> CHR '':''"
proof -
  let ?c = "if policy = UnderscorePolicy_MapToHyphen \<and> b = CHR ''_'' then CHR ''-'' else to_ascii_lowercase b"
  have "?c \<in> set (canonical_name policy name)" using assms(2) by (auto simp: canonical_name_def)
  then have t: "is_tchar ?c" using assms(1) by (simp add: name_ok_def)
  have "\<not> is_tchar (to_ascii_lowercase c)" if "c \<in> {CR, LF, SP, HTAB, CHR '':''}" for c
    using that by (auto simp: byte_consts to_ascii_lowercase_def is_tchar_def is_ascii_alphanumeric_def is_ascii_digit_def
        is_ascii_uppercase_def is_ascii_lowercase_def)
  with t show "b \<noteq> CR" "b \<noteq> LF" "b \<noteq> SP" "b \<noteq> HTAB" "b \<noteq> CHR '':''" by (auto simp: byte_consts split: if_splits)
qed

end
