(* ===== verification/Http_Section.thy ===== *)
theory Http_Section
  imports Http_Field
begin

text \<open>
  The flat header container (\<^verbatim>\<open>section.rs\<close>): one byte arena, an index of fixed-size slots and a bitmask
  of the known names present, with its builder. \<^verbatim>\<open>BytesMut\<close> and \<^verbatim>\<open>SmallVec\<close> are used as growing
  sequences and are modelled by their contents. The abstract view of a section is the list of its fields
  in arrival order (\<open>iter\<close>); every accessor and every mutator is proved against that list, from an
  invariant the builder establishes and every operation keeps.
\<close>

unbundle bit_operations_syntax

section \<open>Slots and flags\<close>

type_synonym field_flags = "8 word"

definition CONNECTION_NAMED :: field_flags where "CONNECTION_NAMED = 1"
definition FROM_TRAILER :: field_flags where "FROM_TRAILER = 2"
definition SYNTHESIZED :: field_flags where "SYNTHESIZED = 4"
definition UNDERSCORE_MAPPED :: field_flags where "UNDERSCORE_MAPPED = 8"

definition flags_contains :: "field_flags \<Rightarrow> field_flags \<Rightarrow> bool" where
  "flags_contains f other \<longleftrightarrow> f AND other = other"

definition flags_insert :: "field_flags \<Rightarrow> field_flags \<Rightarrow> field_flags" where
  "flags_insert f other = f OR other"

record field_slot =
  name_off :: nat
  value_off :: nat
  name_len :: nat
  value_len :: nat
  slot_known :: known_header
  slot_flags :: field_flags

record field_section =
  sec_arena :: bytes
  sec_slots :: "field_slot list"
  sec_mask :: "64 word"

definition known_mask_bit :: "known_header \<Rightarrow> 64 word" where
  "known_mask_bit k = push_bit (discriminant k) 1"

definition slot_bytes :: "bytes \<Rightarrow> nat \<Rightarrow> nat \<Rightarrow> nat \<Rightarrow> bytes option" where
  "slot_bytes a base off len =
     Option.bind (checked_add64 base off) (\<lambda>start.
     Option.bind (checked_add64 start len) (\<lambda>stop. get_range a start stop))"

definition name_bytes :: "field_section \<Rightarrow> field_slot \<Rightarrow> bytes option" where
  "name_bytes s slot = slot_bytes (sec_arena s) 0 (name_off slot) (name_len slot)"

definition value_bytes :: "field_section \<Rightarrow> field_slot \<Rightarrow> bytes option" where
  "value_bytes s slot = slot_bytes (sec_arena s) 0 (value_off slot) (value_len slot)"

section \<open>Reading a section\<close>

record duplicate_field =
  dup_name_len :: nat

definition get_all :: "field_section \<Rightarrow> bytes \<Rightarrow> bytes list" where
  "get_all s name =
     (let k = classify name;
          scan_len = (if k = KnownHeader_Unknown then length (sec_slots s)
                      else if sec_mask s AND known_mask_bit k = 0 then 0
                      else length (sec_slots s))
      in List.map_filter (value_bytes s)
           (filter (\<lambda>slot. if k = KnownHeader_Unknown
                           then name_len slot = length name \<and> name_bytes s slot = Some name
                           else slot_known slot = k)
              (take scan_len (sec_slots s))))"

definition get_all_known :: "field_section \<Rightarrow> known_header \<Rightarrow> bytes list" where
  "get_all_known s k =
     (let scan_len = (if sec_mask s AND known_mask_bit k = 0 then 0 else length (sec_slots s))
      in List.map_filter (value_bytes s)
           (filter (\<lambda>slot. slot_known slot = k) (take scan_len (sec_slots s))))"

text \<open>The two calls of \<^verbatim>\<open>next\<close> decide.\<close>

definition at_most_one :: "nat \<Rightarrow> bytes list \<Rightarrow> duplicate_field + bytes option" where
  "at_most_one len vs =
     (case vs of
        [] \<Rightarrow> Inr None
      | [v] \<Rightarrow> Inr (Some v)
      | _ # _ # _ \<Rightarrow> Inl \<lparr>dup_name_len = to_u16 len\<rparr>)"

definition get_unique :: "field_section \<Rightarrow> bytes \<Rightarrow> duplicate_field + bytes option" where
  "get_unique s name = at_most_one (length name) (get_all s name)"

definition get_unique_known :: "field_section \<Rightarrow> known_header \<Rightarrow> duplicate_field + bytes option" where
  "get_unique_known s k = at_most_one (length (known_as_bytes k)) (get_all_known s k)"

definition contains_known :: "field_section \<Rightarrow> known_header \<Rightarrow> bool" where
  "contains_known s k \<longleftrightarrow> sec_mask s AND known_mask_bit k \<noteq> 0"

definition count_known :: "field_section \<Rightarrow> known_header \<Rightarrow> nat" where
  "count_known s k =
     (if sec_mask s AND known_mask_bit k = 0 then 0
      else length (filter (\<lambda>slot. slot_known slot = k) (sec_slots s)))"

definition read_slot :: "field_section \<Rightarrow> field_slot \<Rightarrow> (bytes \<times> bytes \<times> field_flags) option" where
  "read_slot s slot =
     Option.bind (name_bytes s slot) (\<lambda>n.
     Option.bind (value_bytes s slot) (\<lambda>v. Some (n, v, slot_flags slot)))"

definition iter :: "field_section \<Rightarrow> (bytes \<times> bytes \<times> field_flags) list" where
  "iter s = List.map_filter (read_slot s) (sec_slots s)"

definition name_at :: "field_section \<Rightarrow> nat \<Rightarrow> bytes option" where
  "name_at s i = Option.bind (get (sec_slots s) i) (name_bytes s)"

definition value_at :: "field_section \<Rightarrow> nat \<Rightarrow> bytes option" where
  "value_at s i = Option.bind (get (sec_slots s) i) (value_bytes s)"

section \<open>Changing a section\<close>

text \<open>The mask of a list of slots; \<^verbatim>\<open>retain\<close> recomputes it and \<^verbatim>\<open>push\<close> extends it.\<close>

definition mask_add :: "64 word \<Rightarrow> field_slot \<Rightarrow> 64 word" where
  "mask_add m slot =
     (if slot_known slot \<noteq> KnownHeader_Unknown then m OR known_mask_bit (slot_known slot) else m)"

definition retain :: "field_section \<Rightarrow> (bytes \<Rightarrow> bytes \<Rightarrow> field_flags \<Rightarrow> bool) \<Rightarrow> field_section \<times> nat" where
  "retain s keep =
     (let kept = filter (\<lambda>slot. case (name_bytes s slot, value_bytes s slot) of
                           (Some n, Some v) \<Rightarrow> keep n v (slot_flags slot)
                         | _ \<Rightarrow> False) (sec_slots s)
      in (s\<lparr>sec_slots := kept, sec_mask := foldl mask_add 0 kept\<rparr>,
          to_u32 (length (sec_slots s) - length kept)))"

definition remove_name :: "field_section \<Rightarrow> bytes \<Rightarrow> field_section \<times> nat" where
  "remove_name s name = retain s (\<lambda>n _ _. n \<noteq> name)"

definition remove_known :: "field_section \<Rightarrow> known_header \<Rightarrow> field_section \<times> nat" where
  "remove_known s k =
     (if k = KnownHeader_Unknown then (s, 0) else retain s (\<lambda>n _ _. classify n \<noteq> k))"

definition set_flags :: "field_section \<Rightarrow> nat \<Rightarrow> field_flags \<Rightarrow> field_section" where
  "set_flags s i f =
     (case get (sec_slots s) i of
        None \<Rightarrow> s
      | Some slot \<Rightarrow> s\<lparr>sec_slots := set_at (sec_slots s) i (slot\<lparr>slot_flags := f\<rparr>)\<rparr>)"

section \<open>The builder\<close>

record section_builder =
  b_base :: nat
  b_slots :: "field_slot list"
  b_mask :: "64 word"
  b_limits :: http_limits
  b_list_bytes :: nat
  b_mapped :: bool

definition builder_new :: "bytes \<Rightarrow> http_limits \<Rightarrow> section_builder" where
  "builder_new a limits =
     \<lparr>b_base = length a, b_slots = [], b_mask = 0, b_limits = limits, b_list_bytes = 0, b_mapped = False\<rparr>"

definition builder_admit :: "section_builder \<Rightarrow> nat \<Rightarrow> nat \<Rightarrow> reject_reason + section_builder" where
  "builder_admit b nlen vlen =
     (if to_u32 (length (b_slots b)) \<ge> max_field_count (b_limits b) then Inl FieldCountExceeded
      else if nlen > u16_max \<or> vlen > u16_max then Inl FieldLineTooLong
      else if sat_add nlen vlen > max_field_line_bytes (b_limits b) then Inl FieldLineTooLong
      else (let next = sat_add64 (sat_add64 (sat_add64 (b_list_bytes b) nlen) vlen) 32 in
            if next > max_header_list_bytes (b_limits b) then Inl HeaderListTooLarge
            else Inr (b\<lparr>b_list_bytes := next\<rparr>)))"

definition underscore_collision :: "section_builder \<Rightarrow> bytes \<Rightarrow> bytes \<Rightarrow> bool \<Rightarrow> bool" where
  "underscore_collision b a canonical mapped =
     (if mapped
      then list_ex (\<lambda>s. \<not> flags_contains (slot_flags s) UNDERSCORE_MAPPED \<and>
             slot_bytes a (b_base b) (name_off s) (name_len s) = Some canonical) (b_slots b)
      else if b_mapped b
      then list_ex (\<lambda>s. flags_contains (slot_flags s) UNDERSCORE_MAPPED \<and>
             slot_bytes a (b_base b) (name_off s) (name_len s) = Some canonical) (b_slots b)
      else False)"

text \<open>
  The walk of \<^verbatim>\<open>push_normalized\<close> over the raw name; an error carries the arena as it stands then.
\<close>

fun write_name :: "underscore_policy \<Rightarrow> bytes \<Rightarrow> bytes \<Rightarrow> bool \<Rightarrow> (reject_reason \<times> bytes) + (bytes \<times> bool)" where
  "write_name policy [] a mapped = Inr (a, mapped)"
| "write_name policy (b # raw) a mapped =
     (let lowered = to_ascii_lowercase b in
      if lowered = CHR ''_'' then
        (case policy of
           UnderscorePolicy_Reject \<Rightarrow> Inl (FieldNameUnderscore, a)
         | UnderscorePolicy_MapToHyphen \<Rightarrow> write_name policy raw (a @ [CHR ''-'']) True)
      else write_name policy raw (a @ [lowered]) mapped)"

definition push_slot :: "section_builder \<Rightarrow> field_slot \<Rightarrow> section_builder" where
  "push_slot b slot = b\<lparr>b_slots := b_slots b @ [slot], b_mask := mask_add (b_mask b) slot\<rparr>"

definition push_normalized ::
  "section_builder \<Rightarrow> bytes \<Rightarrow> bytes \<Rightarrow> underscore_policy \<Rightarrow> bytes \<Rightarrow> wire_version \<Rightarrow>
   (reject_reason + unit) \<times> section_builder \<times> bytes" where
  "push_normalized b a raw policy v version =
     (case builder_admit b (length raw) (length v) of
        Inl e \<Rightarrow> (Inl e, b, a)
      | Inr b1 \<Rightarrow>
          (let name_start = length a in
           case write_name policy raw a False of
             Inl (e, a') \<Rightarrow> (Inl e, b1, take name_start a')
           | Inr (a1, mapped) \<Rightarrow>
               (case get_range a1 name_start (sat_add name_start (length raw)) of
                  None \<Rightarrow> (Inl FieldNameInvalidByte, b1, take name_start a1)
                | Some canonical \<Rightarrow>
                    (case validate_name canonical version of
                       Inl e \<Rightarrow> (Inl e, b1, take name_start a1)
                     | Inr _ \<Rightarrow>
                    (case validate_value v version of
                       Inl e \<Rightarrow> (Inl e, b1, take name_start a1)
                     | Inr _ \<Rightarrow>
                         if underscore_collision b1 a1 canonical mapped
                         then (Inl FieldNameUnderscore, b1, take name_start a1)
                         else (let b2 = (if mapped then b1\<lparr>b_mapped := True\<rparr> else b1) in
                           (Inr (),
                            push_slot b2 \<lparr>name_off = to_u32 (name_start - b_base b),
                              value_off = to_u32 (length a1 - b_base b),
                              name_len = to_u16 (length raw), value_len = to_u16 (length v),
                              slot_known = classify canonical,
                              slot_flags = (if mapped then flags_insert 0 UNDERSCORE_MAPPED else 0)\<rparr>,
                            a1 @ v)))))))"

definition push_with_flags ::
  "section_builder \<Rightarrow> bytes \<Rightarrow> bytes \<Rightarrow> bytes \<Rightarrow> field_flags \<Rightarrow>
   (reject_reason + unit) \<times> section_builder \<times> bytes" where
  "push_with_flags b a name v flags =
     (case builder_admit b (length name) (length v) of
        Inl e \<Rightarrow> (Inl e, b, a)
      | Inr b1 \<Rightarrow>
          (case validate_name name H2 of
             Inl e \<Rightarrow> (Inl e, b1, a)
           | Inr _ \<Rightarrow>
          (case validate_value v H2 of
             Inl e \<Rightarrow> (Inl e, b1, a)
           | Inr _ \<Rightarrow>
               (Inr (),
                push_slot b1 \<lparr>name_off = to_u32 (length a - b_base b),
                  value_off = to_u32 (length (a @ name) - b_base b),
                  name_len = to_u16 (length name), value_len = to_u16 (length v),
                  slot_known = classify name, slot_flags = flags\<rparr>,
                a @ name @ v))))"

definition push_field ::
  "section_builder \<Rightarrow> bytes \<Rightarrow> bytes \<Rightarrow> bytes \<Rightarrow> (reject_reason + unit) \<times> section_builder \<times> bytes" where
  "push_field b a name v = push_with_flags b a name v 0"

text \<open>
  \<^verbatim>\<open>finish\<close> splits the written region off the arena; \<^verbatim>\<open>split_off\<close> past the end of the arena is a
  panic (None).
\<close>

definition builder_finish :: "section_builder \<Rightarrow> bytes \<Rightarrow> (field_section \<times> bytes) option" where
  "builder_finish b a =
     (if b_base b \<le> length a
      then Some (\<lparr>sec_arena = drop (b_base b) a, sec_slots = b_slots b, sec_mask = b_mask b\<rparr>, take (b_base b) a)
      else None)"

section \<open>The section invariant and the field list\<close>

text \<open>Every slot points at a valid name and value inside the arena and carries the class of that name,
  and the mask is the mask of the slots.\<close>

definition slot_ok :: "bytes \<Rightarrow> field_slot \<Rightarrow> bool" where
  "slot_ok a slot =
     (case (slot_bytes a 0 (name_off slot) (name_len slot), slot_bytes a 0 (value_off slot) (value_len slot)) of
        (Some n, Some v) \<Rightarrow> name_ok n \<and> value_ok v \<and> name_len slot = length n \<and> slot_known slot = classify n
      | _ \<Rightarrow> False)"

definition section_ok :: "field_section \<Rightarrow> bool" where
  "section_ok s \<longleftrightarrow> list_all (slot_ok (sec_arena s)) (sec_slots s) \<and> sec_mask s = foldl mask_add 0 (sec_slots s)"

definition slot_view :: "bytes \<Rightarrow> field_slot \<Rightarrow> bytes \<times> bytes \<times> field_flags" where
  "slot_view a slot =
     (the (slot_bytes a 0 (name_off slot) (name_len slot)),
      the (slot_bytes a 0 (value_off slot) (value_len slot)), slot_flags slot)"

abbreviation field_name :: "bytes \<times> bytes \<times> field_flags \<Rightarrow> bytes" where "field_name \<equiv> fst"
abbreviation field_value :: "bytes \<times> bytes \<times> field_flags \<Rightarrow> bytes" where "field_value f \<equiv> fst (snd f)"

lemma slot_okE:
  assumes "slot_ok (sec_arena s) slot"
  obtains n v where "name_bytes s slot = Some n" "value_bytes s slot = Some v" "name_ok n" "value_ok v"
    "name_len slot = length n" "slot_known slot = classify n" "slot_view (sec_arena s) slot = (n, v, slot_flags slot)"
  using assms by (auto simp: slot_ok_def name_bytes_def value_bytes_def slot_view_def split: option.splits)

lemma map_filter_Some: "\<forall>x \<in> set xs. f x = Some (g x) \<Longrightarrow> List.map_filter f xs = map g xs"
  by (induction xs) (auto simp: List.map_filter_def)

lemma iter_eq: "section_ok s \<Longrightarrow> iter s = map (slot_view (sec_arena s)) (sec_slots s)"
  unfolding iter_def section_ok_def list_all_iff
  by (rule map_filter_Some) (auto simp: read_slot_def elim!: slot_okE)

text \<open>The mask answers membership.\<close>

lemma bit_known_mask_bit: "bit (known_mask_bit k) j \<longleftrightarrow> j = discriminant k"
  using discriminant_less [of k] by (auto simp: known_mask_bit_def bit_exp_iff KNOWN_HEADER_COUNT_def)

lemma bit_mask_add:
  "bit (foldl mask_add m slots) j \<longleftrightarrow>
     bit m j \<or> (\<exists>s \<in> set slots. slot_known s \<noteq> KnownHeader_Unknown \<and> j = discriminant (slot_known s))"
  by (induction slots arbitrary: m) (auto simp: mask_add_def bit_or_iff bit_known_mask_bit)

lemma mask_absent_iff:
  "foldl mask_add 0 slots AND known_mask_bit k = 0 \<longleftrightarrow>
     k = KnownHeader_Unknown \<or> (\<forall>s \<in> set slots. slot_known s \<noteq> k)"
proof -
  have "foldl mask_add 0 slots AND known_mask_bit k \<noteq> 0 \<longleftrightarrow> bit (foldl mask_add 0 slots) (discriminant k)"
    by (simp add: known_mask_bit_def bit_iff_and_push_bit_not_eq_0)
  then show ?thesis by (auto simp: bit_mask_add discriminant_inj)
qed

section \<open>The accessors read the field list\<close>

lemma section_slots:
  assumes "section_ok s" and "slot \<in> set (sec_slots s)"
  shows "value_bytes s slot = Some (field_value (slot_view (sec_arena s) slot))"
    and "name_bytes s slot = Some (field_name (slot_view (sec_arena s) slot))"
    and "name_len slot = length (field_name (slot_view (sec_arena s) slot))"
    and "slot_known slot = classify (field_name (slot_view (sec_arena s) slot))"
  using assms by (auto simp: section_ok_def list_all_iff elim!: slot_okE dest!: bspec)

lemma values_of_slots:
  assumes "section_ok s" and "\<forall>slot \<in> set (sec_slots s). P slot \<longleftrightarrow> Q (slot_view (sec_arena s) slot)"
  shows "List.map_filter (value_bytes s) (filter P (sec_slots s)) = map field_value (filter Q (iter s))"
proof -
  have "List.map_filter (value_bytes s) (filter P (sec_slots s)) =
      map (\<lambda>slot. field_value (slot_view (sec_arena s) slot)) (filter P (sec_slots s))"
    using assms(1) by (intro map_filter_Some) (auto simp: section_slots)
  also have "\<dots> = map field_value (map (slot_view (sec_arena s)) (filter P (sec_slots s)))" by simp
  also have "map (slot_view (sec_arena s)) (filter P (sec_slots s)) = filter Q (map (slot_view (sec_arena s)) (sec_slots s))"
    using assms(2) by (auto simp: filter_map comp_def cong: filter_cong)
  finally show ?thesis using assms(1) by (simp add: iter_eq)
qed

lemma masked_scan:
  assumes "section_ok s" and "k \<noteq> KnownHeader_Unknown"
  shows "filter (\<lambda>slot. slot_known slot = k)
      (take (if sec_mask s AND known_mask_bit k = 0 then 0 else length (sec_slots s)) (sec_slots s)) =
    filter (\<lambda>slot. slot_known slot = k) (sec_slots s)"
  using assms by (auto simp: section_ok_def mask_absent_iff filter_empty_conv)

lemma get_all_eq:
  assumes "section_ok s"
  shows "get_all s name = map field_value (filter (\<lambda>f. field_name f = name) (iter s))"
proof (cases "classify name = KnownHeader_Unknown")
  case True
  then show ?thesis
    using assms by (auto simp: get_all_def section_slots intro!: values_of_slots)
next
  case False
  then have cl: "classify n = classify name \<longleftrightarrow> n = name" for n
    using classify_iff [of "classify name"] by metis
  have "get_all s name = List.map_filter (value_bytes s) (filter (\<lambda>slot. slot_known slot = classify name) (sec_slots s))"
    using masked_scan [OF assms False] False by (simp add: get_all_def Let_def)
  also have "\<dots> = map field_value (filter (\<lambda>f. field_name f = name) (iter s))"
    using assms by (intro values_of_slots) (auto simp: section_slots cl)
  finally show ?thesis .
qed

lemma get_all_known_eq:
  assumes "section_ok s" and "k \<noteq> KnownHeader_Unknown"
  shows "get_all_known s k = map field_value (filter (\<lambda>f. field_name f = known_as_bytes k) (iter s))"
proof -
  have "get_all_known s k = List.map_filter (value_bytes s) (filter (\<lambda>slot. slot_known slot = k) (sec_slots s))"
    using masked_scan [OF assms] by (simp add: get_all_known_def Let_def)
  also have "\<dots> = map field_value (filter (\<lambda>f. field_name f = known_as_bytes k) (iter s))"
    using assms by (intro values_of_slots) (auto simp: section_slots classify_iff)
  finally show ?thesis .
qed

lemma get_all_known_Unknown: "section_ok s \<Longrightarrow> get_all_known s KnownHeader_Unknown = []"
  by (simp add: get_all_known_def section_ok_def mask_absent_iff map_filter_simps)

lemma count_known_eq:
  assumes "section_ok s" and "k \<noteq> KnownHeader_Unknown"
  shows "count_known s k = length (filter (\<lambda>f. field_name f = known_as_bytes k) (iter s))"
proof -
  have "count_known s k = length (filter (\<lambda>slot. slot_known slot = k) (sec_slots s))"
    using assms by (auto simp: count_known_def section_ok_def mask_absent_iff filter_empty_conv)
  also have "filter (\<lambda>slot. slot_known slot = k) (sec_slots s) =
      filter (\<lambda>slot. field_name (slot_view (sec_arena s) slot) = known_as_bytes k) (sec_slots s)"
    by (rule filter_cong) (simp_all add: section_slots(4) [OF assms(1)] classify_iff [OF assms(2)])
  finally show ?thesis using assms by (simp add: iter_eq filter_map comp_def)
qed

lemma contains_known_eq:
  assumes "section_ok s"
  shows "contains_known s k \<longleftrightarrow> k \<noteq> KnownHeader_Unknown \<and> (\<exists>f \<in> set (iter s). field_name f = known_as_bytes k)"
proof (cases "k = KnownHeader_Unknown")
  case True
  then show ?thesis using assms by (simp add: contains_known_def section_ok_def mask_absent_iff)
next
  case False
  have "contains_known s k \<longleftrightarrow> (\<exists>slot \<in> set (sec_slots s). slot_known slot = k)"
    using assms False by (simp add: contains_known_def section_ok_def mask_absent_iff)
  also have "\<dots> \<longleftrightarrow> (\<exists>slot \<in> set (sec_slots s). field_name (slot_view (sec_arena s) slot) = known_as_bytes k)"
    by (rule bex_cong) (simp_all add: section_slots(4) [OF assms] classify_iff [OF False])
  finally show ?thesis using assms False by (simp add: iter_eq)
qed

section \<open>The mutators edit the field list\<close>

lemma retain_slots:
  assumes "section_ok s"
  shows "sec_slots (fst (retain s keep)) =
    filter (\<lambda>slot. case slot_view (sec_arena s) slot of (n, v, f) \<Rightarrow> keep n v f) (sec_slots s)"
  by (simp add: retain_def Let_def, rule filter_cong [OF refl])
    (simp add: section_slots(1,2) [OF assms], simp add: slot_view_def)

lemma retain_ok: "section_ok s \<Longrightarrow> section_ok (fst (retain s keep))"
  by (auto simp: section_ok_def retain_def Let_def list_all_iff)

lemma retain_iter:
  assumes "section_ok s"
  shows "iter (fst (retain s keep)) = filter (\<lambda>(n, v, f). keep n v f) (iter s)"
proof -
  have "sec_arena (fst (retain s keep)) = sec_arena s" by (simp add: retain_def Let_def)
  then show ?thesis
    using assms by (simp add: iter_eq retain_ok retain_slots filter_map comp_def)
qed

lemma retain_count:
  assumes "section_ok s"
  shows "snd (retain s keep) = to_u32 (length (iter s) - length (iter (fst (retain s keep))))"
  using retain_ok [OF assms, of keep] assms by (simp add: iter_eq) (simp add: retain_def Let_def)

lemma remove_known_iter:
  assumes "section_ok s" and "k \<noteq> KnownHeader_Unknown"
  shows "iter (fst (remove_known s k)) = filter (\<lambda>f. field_name f \<noteq> known_as_bytes k) (iter s)"
  using assms by (simp add: remove_known_def retain_iter classify_iff case_prod_unfold)

lemma slot_ok_flags [simp]: "slot_ok a (slot\<lparr>slot_flags := f\<rparr>) = slot_ok a slot"
  by (simp add: slot_ok_def split: option.split)

lemma set_flags_ok: "section_ok s \<Longrightarrow> section_ok (set_flags s i f)"
proof -
  assume ok: "section_ok s"
  show ?thesis
  proof (cases "i < length (sec_slots s)")
    case True
    let ?new = "(sec_slots s ! i)\<lparr>slot_flags := f\<rparr>"
    have "foldl mask_add m (xs[j := (xs ! j)\<lparr>slot_flags := f\<rparr>]) = foldl mask_add m xs" if "j < length xs" for m xs j
      using that by (induction xs arbitrary: m j) (auto simp: mask_add_def nth_Cons split: nat.splits)
    moreover have "slot_ok (sec_arena s) ?new"
      using ok True by (simp add: section_ok_def list_all_iff)
    ultimately show ?thesis
      using ok True
      by (auto simp: section_ok_def set_flags_def set_at_def list_all_iff dest!: subsetD [OF set_update_subset_insert])
  qed (use ok in \<open>simp add: set_flags_def\<close>)
qed

lemma set_flags_iter:
  assumes "section_ok s" and "i < length (iter s)"
  shows "iter (set_flags s i f) = (iter s)[i := (field_name (iter s ! i), field_value (iter s ! i), f)]"
  using assms set_flags_ok [OF assms(1), of i f]
  by (simp add: iter_eq) (simp add: set_flags_def set_at_def map_update slot_view_def)

section \<open>The builder appends to the field list\<close>

definition builder_view :: "section_builder \<Rightarrow> bytes \<Rightarrow> field_section" where
  "builder_view b a = \<lparr>sec_arena = drop (b_base b) a, sec_slots = b_slots b, sec_mask = b_mask b\<rparr>"

text \<open>
  The builder invariant: the written region holds a well-formed section, its size is paid for by the
  running list size, and both stay within the clamped limits. A buffer never holds more than
  \<^verbatim>\<open>isize::MAX\<close> bytes, hence the bound on the base.
\<close>

definition builder_ok :: "section_builder \<Rightarrow> bytes \<Rightarrow> bool" where
  "builder_ok b a \<longleftrightarrow>
     b_base b \<le> length a \<and> b_base b < 2 ^ 63 \<and> is_clamped (b_limits b) \<and>
     section_ok (builder_view b a) \<and>
     length a - b_base b \<le> b_list_bytes b \<and> b_list_bytes b \<le> max_header_list_bytes (b_limits b) \<and>
     length (b_slots b) \<le> max_field_count (b_limits b)"

lemma builder_new_ok: "is_clamped l \<Longrightarrow> length a < 2 ^ 63 \<Longrightarrow> builder_ok (builder_new a l) a"
  by (simp add: builder_ok_def builder_new_def builder_view_def section_ok_def)

lemma builder_new_iter: "iter (builder_view (builder_new a l) a) = []"
  by (simp add: builder_view_def builder_new_def iter_def map_filter_simps)

lemma slot_bytes_append: "slot_bytes a 0 off len = Some n \<Longrightarrow> slot_bytes (a @ x) 0 off len = Some n"
  by (auto simp: slot_bytes_def bind_eq_Some_conv dest: get_range_append)

lemma slot_ok_append: "slot_ok a slot \<Longrightarrow> slot_ok (a @ x) slot \<and> slot_view (a @ x) slot = slot_view a slot"
  by (auto simp: slot_ok_def slot_view_def slot_bytes_append split: option.splits)

lemma section_extend:
  assumes "section_ok \<lparr>sec_arena = A, sec_slots = S, sec_mask = M\<rparr>" and "slot_ok (A @ x) slot"
  shows "section_ok \<lparr>sec_arena = A @ x, sec_slots = S @ [slot], sec_mask = mask_add M slot\<rparr>" (is "section_ok ?s'")
    and "iter \<lparr>sec_arena = A @ x, sec_slots = S @ [slot], sec_mask = mask_add M slot\<rparr> =
      iter \<lparr>sec_arena = A, sec_slots = S, sec_mask = M\<rparr> @ [slot_view (A @ x) slot]"
proof -
  show ok: "section_ok ?s'"
    using assms by (auto simp: section_ok_def list_all_iff slot_ok_append)
  have "map (slot_view (A @ x)) S = map (slot_view A) S"
    using assms(1) by (auto simp: section_ok_def list_all_iff slot_ok_append)
  then show "iter ?s' = iter \<lparr>sec_arena = A, sec_slots = S, sec_mask = M\<rparr> @ [slot_view (A @ x) slot]"
    using iter_eq [OF ok] iter_eq [OF assms(1)] by simp
qed

lemma fresh_slot:
  assumes "name_ok n" and "value_ok v" and "length A + length n + length v \<le> u64_max"
  shows "slot_ok (A @ n @ v) \<lparr>name_off = length A, value_off = length A + length n, name_len = length n,
      value_len = length v, slot_known = classify n, slot_flags = f\<rparr>"
    and "slot_view (A @ n @ v) \<lparr>name_off = length A, value_off = length A + length n, name_len = length n,
      value_len = length v, slot_known = classify n, slot_flags = f\<rparr> = (n, v, f)"
  using assms by (auto simp: slot_ok_def slot_view_def slot_bytes_def checked_add64_def get_range_def)

lemma builder_admit_ok:
  assumes "builder_ok b a"
  shows "builder_admit b nlen vlen = Inr b1 \<longleftrightarrow>
    length (b_slots b) < max_field_count (b_limits b) \<and> nlen + vlen \<le> max_field_line_bytes (b_limits b) \<and>
    b_list_bytes b + nlen + vlen + 32 \<le> max_header_list_bytes (b_limits b) \<and>
    b1 = b\<lparr>b_list_bytes := b_list_bytes b + nlen + vlen + 32\<rparr>"
proof -
  have lim: "max_field_count (b_limits b) \<le> 1000" "max_field_line_bytes (b_limits b) \<le> 65535"
    "max_header_list_bytes (b_limits b) \<le> 1048576"
    using assms is_clampedD [of "b_limits b"] by (auto simp: builder_ok_def)
  then show ?thesis
    by (auto simp: builder_admit_def to_u32_def u32_max_def u16_max_def sat_add_def usize_max_def sat_add64_def u64_max_def
        Let_def split: if_splits)
qed

lemma push_slot_ok:
  assumes "builder_ok b a" and "builder_admit b (length n) (length v) = Inr b1" and "name_ok n" and "value_ok v"
    and "b2 = b1\<lparr>b_mapped := m\<rparr>"
    and "slot = \<lparr>name_off = to_u32 (length a - b_base b), value_off = to_u32 (length (a @ n) - b_base b),
      name_len = to_u16 (length n), value_len = to_u16 (length v), slot_known = classify n, slot_flags = f\<rparr>"
  shows "builder_ok (push_slot b2 slot) (a @ n @ v)"
    and "iter (builder_view (push_slot b2 slot) (a @ n @ v)) = iter (builder_view b a) @ [(n, v, f)]"
proof -
  let ?A = "drop (b_base b) a"
  have b1: "length (b_slots b) < max_field_count (b_limits b)" "length n + length v \<le> max_field_line_bytes (b_limits b)"
    "b_list_bytes b + length n + length v + 32 \<le> max_header_list_bytes (b_limits b)"
    "b1 = b\<lparr>b_list_bytes := b_list_bytes b + length n + length v + 32\<rparr>"
    using builder_admit_ok [OF assms(1)] assms(2) by auto
  have lim: "max_field_line_bytes (b_limits b) \<le> 65535" "max_header_list_bytes (b_limits b) \<le> 1048576"
    using assms(1) is_clampedD [of "b_limits b"] by (auto simp: builder_ok_def)
  have inv: "b_base b \<le> length a" "length a - b_base b \<le> b_list_bytes b" "section_ok (builder_view b a)"
    using assms(1) by (auto simp: builder_ok_def)
  have slot: "slot = \<lparr>name_off = length ?A, value_off = length ?A + length n, name_len = length n,
      value_len = length v, slot_known = classify n, slot_flags = f\<rparr>"
    using b1 lim inv assms(6) by (simp add: to_u32_id to_u16_id)
  have "length ?A + length n + length v \<le> u64_max"
    using b1 lim inv by (simp add: u64_max_def)
  note fresh = fresh_slot [OF assms(3,4) this, of f]
  have view: "builder_view (push_slot b2 slot) (a @ n @ v) =
      \<lparr>sec_arena = ?A @ n @ v, sec_slots = b_slots b @ [slot], sec_mask = mask_add (b_mask b) slot\<rparr>"
    using inv(1) assms(5) b1(4) by (simp add: builder_view_def push_slot_def)
  have vb: "builder_view b a = \<lparr>sec_arena = ?A, sec_slots = b_slots b, sec_mask = b_mask b\<rparr>"
    by (simp add: builder_view_def)
  have so: "slot_ok (?A @ n @ v) slot" using fresh(1) slot by simp
  have ext: "section_ok (builder_view (push_slot b2 slot) (a @ n @ v))"
    "iter (builder_view (push_slot b2 slot) (a @ n @ v)) = iter (builder_view b a) @ [slot_view (?A @ n @ v) slot]"
    unfolding view vb by (rule section_extend [OF inv(3) [unfolded vb] so])+
  then show "builder_ok (push_slot b2 slot) (a @ n @ v)"
    using assms(1,5) b1 inv by (auto simp: builder_ok_def push_slot_def)
  show "iter (builder_view (push_slot b2 slot) (a @ n @ v)) = iter (builder_view b a) @ [(n, v, f)]"
    using ext(2) fresh(2) slot by simp
qed

text \<open>The three outcomes of a push, on the field list.\<close>

definition pushed :: "section_builder \<Rightarrow> bytes \<Rightarrow> section_builder \<Rightarrow> bytes \<Rightarrow> bytes \<times> bytes \<times> field_flags \<Rightarrow> bool" where
  "pushed b a b' a' f \<longleftrightarrow>
     builder_ok b' a' \<and> b_base b' = b_base b \<and> a' = a @ field_name f @ field_value f \<and>
     iter (builder_view b' a') = iter (builder_view b a) @ [f]"

definition refused :: "section_builder \<Rightarrow> bytes \<Rightarrow> section_builder \<Rightarrow> bytes \<Rightarrow> bool" where
  "refused b a b' a' \<longleftrightarrow>
     builder_ok b' a' \<and> b_base b' = b_base b \<and> a' = a \<and> builder_view b' a' = builder_view b a"

lemma builder_admit_refused:
  assumes "builder_ok b a" and "builder_admit b nlen vlen = Inr b1"
  shows "refused b a b1 a"
  using assms builder_admit_ok [OF assms(1), of nlen vlen b1]
  by (auto simp: refused_def builder_ok_def builder_view_def)

lemma refused_self: "builder_ok b a \<Longrightarrow> refused b a b a"
  by (simp add: refused_def)

lemma push_with_flags_cases:
  assumes ok: "builder_ok b a" and push: "push_with_flags b a name v flags = (r, b', a')"
  shows "r = Inr () \<longrightarrow> pushed b a b' a' (name, v, flags)" and "r \<noteq> Inr () \<longrightarrow> refused b a b' a'"
proof -
  have "(r = Inr () \<longrightarrow> pushed b a b' a' (name, v, flags)) \<and> (r \<noteq> Inr () \<longrightarrow> refused b a b' a')"
  proof (cases "builder_admit b (length name) (length v)")
    case (Inl e)
    then show ?thesis using push ok by (auto simp: push_with_flags_def refused_self)
  next
    case (Inr b1)
    have b1: "b1 = b1\<lparr>b_mapped := b_mapped b1\<rparr>" "b_base b1 = b_base b"
      using builder_admit_ok [OF ok] Inr by auto
    show ?thesis
    proof (cases "validate_name name H2 = Inr () \<and> validate_value v H2 = Inr ()")
      case True
      then have "name_ok name" "value_ok v" by (simp_all add: validate_name_ok validate_value_ok)
      from push_slot_ok [OF ok Inr this b1(1) refl, of flags] True show ?thesis
        using push Inr b1(2) by (auto simp: push_with_flags_def pushed_def push_slot_def)
    next
      case False
      then show ?thesis
        using push Inr builder_admit_refused [OF ok Inr] by (auto simp: push_with_flags_def split: sum.splits)
    qed
  qed
  then show "r = Inr () \<longrightarrow> pushed b a b' a' (name, v, flags)" "r \<noteq> Inr () \<longrightarrow> refused b a b' a'" by auto
qed

lemma write_name_eq:
  "\<exists>x. write_name policy raw a m =
     (if policy = UnderscorePolicy_Reject \<and> CHR ''_'' \<in> set raw then Inl (FieldNameUnderscore, a @ x)
      else Inr (a @ canonical_name policy raw, m \<or> CHR ''_'' \<in> set raw))"
proof (induction policy raw a m rule: write_name.induct)
  case (1 policy a mapped)
  then show ?case by (simp add: canonical_name_def)
next
  case (2 policy b raw a mapped)
  show ?case
  proof (cases "b = CHR ''_''")
    case True
    then have l: "to_ascii_lowercase b = CHR ''_''" by simp
    with 2(1) [OF refl l] True show ?thesis
      by (cases policy) (auto simp: canonical_name_def Let_def)
  next
    case False
    then have l: "to_ascii_lowercase b \<noteq> CHR ''_''" by simp
    with 2(2) [OF refl l] False show ?thesis
      by (cases policy) (auto simp: canonical_name_def Let_def)
  qed
qed

definition mapped_flags :: "bool \<Rightarrow> field_flags" where
  "mapped_flags m = (if m then UNDERSCORE_MAPPED else 0)"

text \<open>The slice re-reads and truncations of the source never fail: the push in its arena-free form.\<close>

lemma push_normalized_eq:
  assumes ok: "builder_ok b a" and n: "n = canonical_name policy raw" and m: "m = (CHR ''_'' \<in> set raw)"
  shows "push_normalized b a raw policy v version =
    (case builder_admit b (length raw) (length v) of
       Inl e \<Rightarrow> (Inl e, b, a)
     | Inr b1 \<Rightarrow>
         if policy = UnderscorePolicy_Reject \<and> m then (Inl FieldNameUnderscore, b1, a)
         else (case validate_name n version of
            Inl e \<Rightarrow> (Inl e, b1, a)
          | Inr _ \<Rightarrow>
         (case validate_value v version of
            Inl e \<Rightarrow> (Inl e, b1, a)
          | Inr _ \<Rightarrow>
              if underscore_collision b (a @ n) n m then (Inl FieldNameUnderscore, b1, a)
              else (Inr (),
                push_slot (b1\<lparr>b_mapped := m \<or> b_mapped b1\<rparr>)
                  \<lparr>name_off = to_u32 (length a - b_base b), value_off = to_u32 (length (a @ n) - b_base b),
                   name_len = to_u16 (length n), value_len = to_u16 (length v), slot_known = classify n,
                   slot_flags = mapped_flags m\<rparr>,
                a @ n @ v))))"
proof (cases "builder_admit b (length raw) (length v)")
  case (Inr b1)
  note adm = builder_admit_ok [OF ok, of "length raw" "length v" b1] Inr
  have col: "underscore_collision b1 = underscore_collision b"
    using adm by (auto simp: underscore_collision_def fun_eq_iff)
  have "length a + length raw \<le> usize_max"
    using ok adm is_clampedD(3) [of "b_limits b"] by (auto simp: builder_ok_def usize_max_def)
  then have g: "get_range (a @ n) (length a) (sat_add (length a) (length raw)) = Some n"
    by (simp add: get_range_def sat_add_def n)
  obtain x where w: "write_name policy raw a False =
      (if policy = UnderscorePolicy_Reject \<and> m then Inl (FieldNameUnderscore, a @ x) else Inr (a @ n, m))"
    using write_name_eq [of policy raw a False] unfolding m n simp_thms by blast
  show ?thesis
    using Inr w g col n
    by (cases m) (auto simp: push_normalized_def mapped_flags_def flags_insert_def Let_def split: sum.split)
qed (simp add: push_normalized_def)

lemma push_normalized_cases:
  assumes ok: "builder_ok b a" and push: "push_normalized b a raw policy v version = (r, b', a')"
    and n: "n = canonical_name policy raw" and m: "m = (CHR ''_'' \<in> set raw)"
  shows "if r = Inr () then pushed b a b' a' (n, v, mapped_flags m) else refused b a b' a'"
    and "r = Inr () \<longleftrightarrow>
      length (b_slots b) < max_field_count (b_limits b) \<and>
      length raw + length v \<le> max_field_line_bytes (b_limits b) \<and>
      b_list_bytes b + length raw + length v + 32 \<le> max_header_list_bytes (b_limits b) \<and>
      \<not> (policy = UnderscorePolicy_Reject \<and> m) \<and> name_ok n \<and> value_ok v \<and>
      (is_multiplexed version \<longrightarrow> ows_trimmed v) \<and> \<not> underscore_collision b (a @ n) n m"
proof -
  have adm: "(\<exists>b1. builder_admit b (length raw) (length v) = Inr b1) \<longleftrightarrow>
      length (b_slots b) < max_field_count (b_limits b) \<and> length raw + length v \<le> max_field_line_bytes (b_limits b) \<and>
      b_list_bytes b + length raw + length v + 32 \<le> max_header_list_bytes (b_limits b)"
    using builder_admit_ok [OF ok, of "length raw" "length v"] by auto
  have val: "validate_name n version = Inr () \<longleftrightarrow> name_ok n"
    "validate_value v version = Inr () \<longleftrightarrow> value_ok v \<and> (is_multiplexed version \<longrightarrow> ows_trimmed v)"
    by (simp_all add: validate_name_ok validate_value_ok)
  note eq = push [unfolded push_normalized_eq [OF ok n m]]
  have ok_iff: "r = Inr () \<longleftrightarrow> (\<exists>b1. builder_admit b (length raw) (length v) = Inr b1) \<and>
      \<not> (policy = UnderscorePolicy_Reject \<and> m) \<and> validate_name n version = Inr () \<and>
      validate_value v version = Inr () \<and> \<not> underscore_collision b (a @ n) n m"
    using eq by (auto split: sum.splits if_splits)
  show "r = Inr () \<longleftrightarrow> length (b_slots b) < max_field_count (b_limits b) \<and>
      length raw + length v \<le> max_field_line_bytes (b_limits b) \<and>
      b_list_bytes b + length raw + length v + 32 \<le> max_header_list_bytes (b_limits b) \<and>
      \<not> (policy = UnderscorePolicy_Reject \<and> m) \<and> name_ok n \<and> value_ok v \<and>
      (is_multiplexed version \<longrightarrow> ows_trimmed v) \<and> \<not> underscore_collision b (a @ n) n m"
    using ok_iff unfolding adm val by blast
  show "if r = Inr () then pushed b a b' a' (n, v, mapped_flags m) else refused b a b' a'"
  proof (cases "builder_admit b (length raw) (length v)")
    case (Inl e)
    then show ?thesis using eq ok by (auto simp: refused_self)
  next
    case (Inr b1)
    have ref: "refused b a b1 a" by (rule builder_admit_refused [OF ok Inr])
    have b1: "b_base b1 = b_base b" using builder_admit_ok [OF ok] Inr by auto
    have "builder_admit b (length n) (length v) = Inr b1" using Inr n by simp
    note slot = push_slot_ok [OF ok this _ _ refl refl, of "m \<or> b_mapped b1" "mapped_flags m"]
    show ?thesis
      using eq Inr ref slot b1 val
      by (auto simp: pushed_def push_slot_def split: sum.splits if_splits)
  qed
qed

lemma builder_finish_ok:
  assumes "builder_ok b a"
  shows "builder_finish b a = Some (builder_view b a, take (b_base b) a)"
  using assms by (simp add: builder_ok_def builder_finish_def builder_view_def)

end
