(* ===== verification/Http_Built.thy ===== *)
theory Http_Built
  imports Http_Section
begin

text \<open>
  Everything a section can go through, as inductive predicates: a builder fed with pushes in any order,
  successful or refused, then a finished section edited in any order. Every reachable state satisfies the
  invariant, so the accessors read the field list; and on the path the parsers use (raw names only) two
  wire spellings that differ in an underscore never merge under one name.
\<close>

section \<open>Reachable builders and sections\<close>

inductive building :: "http_limits \<Rightarrow> section_builder \<Rightarrow> bytes \<Rightarrow> bool" where
  start: "length a < 2 ^ 63 \<Longrightarrow> building l (builder_new a (clamped l)) a"
| normalized: "building l b a \<Longrightarrow> push_normalized b a raw policy v version = (r, b', a') \<Longrightarrow> building l b' a'"
| flagged: "building l b a \<Longrightarrow> push_with_flags b a name v flags = (r, b', a') \<Longrightarrow> building l b' a'"

inductive reachable_section :: "field_section \<Rightarrow> bool" where
  finished: "building l b a \<Longrightarrow> builder_finish b a = Some (s, a') \<Longrightarrow> reachable_section s"
| retained: "reachable_section s \<Longrightarrow> reachable_section (fst (retain s keep))"
| name_removed: "reachable_section s \<Longrightarrow> reachable_section (fst (remove_name s name))"
| known_removed: "reachable_section s \<Longrightarrow> reachable_section (fst (remove_known s k))"
| flags_set: "reachable_section s \<Longrightarrow> reachable_section (set_flags s i f)"

lemma building_ok: "building l b a \<Longrightarrow> builder_ok b a \<and> b_limits b = clamped l"
proof (induction rule: building.induct)
  case (start a l)
  then show ?case using builder_new_ok [OF is_clamped_clamped] by (simp add: builder_new_def)
next
  case (normalized l b a raw policy v version r b' a')
  have "b_limits b' = b_limits b"
    using normalized.hyps(2) normalized.IH
    by (auto simp: push_normalized_eq builder_admit_def push_slot_def Let_def split: sum.splits if_splits)
  moreover have "builder_ok b' a'"
    using push_normalized_cases(1) [OF _ normalized.hyps(2) refl refl] normalized.IH
    by (auto simp: pushed_def refused_def split: if_splits)
  ultimately show ?case using normalized.IH by simp
next
  case (flagged l b a name v flags r b' a')
  have "b_limits b' = b_limits b"
    using flagged.hyps(2)
    by (auto simp: push_with_flags_def builder_admit_def push_slot_def Let_def split: sum.splits if_splits)
  moreover have "builder_ok b' a'"
    using push_with_flags_cases [OF _ flagged.hyps(2)] flagged.IH by (auto simp: pushed_def refused_def)
  ultimately show ?case using flagged.IH by simp
qed

lemma reachable_section_ok: "reachable_section s \<Longrightarrow> section_ok s"
proof (induction rule: reachable_section.induct)
  case (finished l b a s a')
  then have "builder_ok b a" by (simp add: building_ok)
  with finished.hyps(2) show ?case by (simp add: builder_finish_ok builder_ok_def)
qed (auto simp: retain_ok remove_name_def remove_known_def set_flags_ok)

section \<open>Underscore provenance\<close>

text \<open>The builders only \<^verbatim>\<open>push_normalized\<close> has written to.\<close>

inductive normalizing :: "http_limits \<Rightarrow> section_builder \<Rightarrow> bytes \<Rightarrow> bool" where
  start: "length a < 2 ^ 63 \<Longrightarrow> normalizing l (builder_new a (clamped l)) a"
| push: "normalizing l b a \<Longrightarrow> push_normalized b a raw policy v version = (r, b', a') \<Longrightarrow> normalizing l b' a'"

lemma normalizing_building: "normalizing l b a \<Longrightarrow> building l b a"
  by (induction rule: normalizing.induct) (auto intro: building.intros)

lemma normalizing_push:
  "normalizing l b a \<Longrightarrow>
   normalizing l (fst (snd (push_normalized b a raw policy v version))) (snd (snd (push_normalized b a raw policy v version)))"
  by (cases "push_normalized b a raw policy v version") (auto intro: normalizing.push)

definition field_mapped :: "bytes \<times> bytes \<times> field_flags \<Rightarrow> bool" where
  "field_mapped f = flags_contains (snd (snd f)) UNDERSCORE_MAPPED"

lemma field_mapped_flags [simp]: "field_mapped (n, v, mapped_flags m) = m"
  by (simp add: field_mapped_def mapped_flags_def flags_contains_def UNDERSCORE_MAPPED_def)

lemma slot_bytes_base:
  assumes "base \<le> length a" and "base < 2 ^ 63" and "slot_bytes (drop base a) 0 off len = Some n"
    and "off + len \<le> 1048576"
  shows "slot_bytes (a @ x) base off len = Some n"
  using assms
  by (auto simp: slot_bytes_def checked_add64_def get_range_def u64_max_def bind_eq_Some_conv add.commute split: if_splits)

lemma building_slot_bytes:
  assumes ok: "builder_ok b a" and slot: "slot \<in> set (b_slots b)"
  shows "slot_bytes (a @ x) (b_base b) (name_off slot) (name_len slot) =
    Some (field_name (slot_view (drop (b_base b) a) slot))"
proof (rule slot_bytes_base)
  have sec: "section_ok (builder_view b a)" using ok by (simp add: builder_ok_def)
  have n: "name_bytes (builder_view b a) slot = Some (field_name (slot_view (drop (b_base b) a) slot))"
    using section_slots(2) [OF sec, of slot] slot by (simp add: builder_view_def)
  then show *: "slot_bytes (drop (b_base b) a) 0 (name_off slot) (name_len slot) =
      Some (field_name (slot_view (drop (b_base b) a) slot))"
    by (simp add: name_bytes_def builder_view_def)
  have "length a - b_base b \<le> 1048576"
    using ok is_clampedD(3) [of "b_limits b"] by (auto simp: builder_ok_def)
  with * show "name_off slot + name_len slot \<le> 1048576"
    by (auto simp: slot_bytes_def checked_add64_def get_range_def bind_eq_Some_conv split: if_splits)
qed (use ok in \<open>auto simp: builder_ok_def\<close>)

lemma underscore_collision_eq:
  assumes ok: "builder_ok b a"
  shows "underscore_collision b (a @ x) n m \<longleftrightarrow>
    (m \<or> b_mapped b) \<and> (\<exists>f \<in> set (iter (builder_view b a)). field_name f = n \<and> field_mapped f \<noteq> m)"
proof -
  have sec: "section_ok (builder_view b a)" using ok by (simp add: builder_ok_def)
  have it: "iter (builder_view b a) = map (slot_view (drop (b_base b) a)) (b_slots b)"
    using iter_eq [OF sec] by (simp add: builder_view_def)
  have "list_ex (\<lambda>s. P (flags_contains (slot_flags s) UNDERSCORE_MAPPED) \<and>
      slot_bytes (a @ x) (b_base b) (name_off s) (name_len s) = Some n) (b_slots b) \<longleftrightarrow>
    (\<exists>f \<in> set (iter (builder_view b a)). field_name f = n \<and> P (field_mapped f))" for P
    unfolding it using building_slot_bytes [OF ok] by (auto simp: list_ex_iff field_mapped_def slot_view_def)
  from this [of Not] this [of "\<lambda>x. x"] show ?thesis by (auto simp: underscore_collision_def)
qed

definition one_provenance :: "(bytes \<times> bytes \<times> field_flags) list \<Rightarrow> bool" where
  "one_provenance fs \<longleftrightarrow>
     (\<forall>f \<in> set fs. \<forall>g \<in> set fs. field_name f = field_name g \<longrightarrow> field_mapped f = field_mapped g)"

lemma one_provenance_snoc:
  "one_provenance fs \<Longrightarrow> (\<And>g. g \<in> set fs \<Longrightarrow> field_name g = field_name f \<Longrightarrow> field_mapped g = field_mapped f) \<Longrightarrow>
   one_provenance (fs @ [f])"
  unfolding one_provenance_def set_append by (metis Un_iff list.set(1) list.set(2) singleton_iff)

lemma push_normalized_mapped:
  "builder_ok b a \<Longrightarrow> push_normalized b a raw policy v version = (r, b', a') \<Longrightarrow>
   b_mapped b' = (b_mapped b \<or> r = Inr () \<and> CHR ''_'' \<in> set raw)"
  by (auto simp: push_normalized_eq builder_admit_def push_slot_def Let_def split: sum.splits if_splits)

lemma pushedD: "pushed b a b' a' f \<Longrightarrow> iter (builder_view b' a') = iter (builder_view b a) @ [f]"
  unfolding pushed_def by blast

lemma normalizing_provenance:
  "normalizing l b a \<Longrightarrow>
   one_provenance (iter (builder_view b a)) \<and> (b_mapped b \<longleftrightarrow> (\<exists>f \<in> set (iter (builder_view b a)). field_mapped f))"
proof (induction rule: normalizing.induct)
  case (start a l)
  show ?case unfolding builder_new_iter by (simp add: one_provenance_def builder_new_def)
next
  case (push l b a raw policy v version r b' a')
  let ?m = "CHR ''_'' \<in> set raw" and ?n = "canonical_name policy raw"
  have ok: "builder_ok b a" using building_ok normalizing_building push.hyps(1) by blast
  note mapped = push_normalized_mapped [OF ok push.hyps(2)]
  note cases = push_normalized_cases [OF ok push.hyps(2) refl refl]
  show ?case
  proof (cases "r = Inr ()")
    case True
    then have it: "iter (builder_view b' a') = iter (builder_view b a) @ [(?n, v, mapped_flags ?m)]"
      using cases(1) by (simp add: pushedD)
    have "\<not> underscore_collision b (a @ ?n) ?n ?m" using cases(2) True by blast
    then have nc: "field_mapped f = ?m" if "f \<in> set (iter (builder_view b a))" "field_name f = ?n" for f
      using that push.IH unfolding underscore_collision_eq [OF ok] by blast
    have "one_provenance (iter (builder_view b' a'))"
      unfolding it using push.IH nc by (intro one_provenance_snoc) simp_all
    then show ?thesis using push.IH mapped True unfolding it by simp blast
  next
    case False
    then have "builder_view b' a' = builder_view b a" using cases(1) unfolding refused_def by simp blast
    with False show ?thesis using mapped push.IH by simp
  qed
qed

section \<open>The contract of a section\<close>

text \<open>
  C23. The section invariant. Whatever sequence of pushes built a section, refused ones included, and
  whatever edits followed, its index is consistent: every slot lies inside the arena and points at a valid
  canonical name and a valid value, the stored class is the class of that name, and the presence mask is
  exactly the mask of the slots. No finish on the way can panic.
\<close>

theorem section_invariant:
  "(reachable_section s \<longrightarrow> section_ok s) \<and> (building l b a \<longrightarrow> builder_finish b a \<noteq> None)"
  using reachable_section_ok building_ok builder_finish_ok by blast

definition demo_builder :: "section_builder \<times> bytes" where
  "demo_builder =
     snd (push_normalized (builder_new [] (clamped DEFAULT_limits)) [] ''Content-Length''
       UnderscorePolicy_Reject ''42'' Http11)"

definition demo_section :: field_section where
  "demo_section = fst (the (builder_finish (fst demo_builder) (snd demo_builder)))"

lemma demo_building: "building DEFAULT_limits (fst demo_builder) (snd demo_builder)"
  unfolding demo_builder_def by (rule normalizing_building [OF normalizing_push [OF normalizing.start]]) simp

lemma demo_reachable: "reachable_section demo_section"
proof -
  have "builder_finish (fst demo_builder) (snd demo_builder) \<noteq> None"
    using building_ok [OF demo_building] by (simp add: builder_finish_ok)
  then obtain s a' where "builder_finish (fst demo_builder) (snd demo_builder) = Some (s, a')" by auto
  with reachable_section.finished [OF demo_building] show ?thesis by (simp add: demo_section_def)
qed

theorem section_invariant_witness:
  "section_ok demo_section \<and> builder_finish (fst demo_builder) (snd demo_builder) \<noteq> None"
  using section_invariant [of demo_section DEFAULT_limits "fst demo_builder" "snd demo_builder"]
    demo_reachable demo_building by blast




definition mapped_builder :: "section_builder \<times> bytes" where
  "mapped_builder =
     (let (_, b, a) = push_normalized (builder_new [] (clamped DEFAULT_limits)) [] ''X_Id''
            UnderscorePolicy_MapToHyphen ''1'' Http11
      in snd (push_normalized b a ''x_id'' UnderscorePolicy_MapToHyphen ''2'' Http11))"

lemma mapped_normalizing: "normalizing DEFAULT_limits (fst mapped_builder) (snd mapped_builder)"
  unfolding mapped_builder_def case_prod_unfold Let_def
  by (intro normalizing_push normalizing.start) simp


end
