(* ===== verification/Http_Framing.thy ===== *)
theory Http_Framing
  imports Http_Built
begin

text \<open>
  Where a request body ends (\<^verbatim>\<open>framing.rs\<close>): the parser of a \<^verbatim>\<open>content-length\<close> value, the tokenizer of the
  combined \<^verbatim>\<open>transfer-encoding\<close> list and the decision itself, proved equivalent to a declarative reading of
  RFC 9112 on the list of header fields.
\<close>

section \<open>The decision\<close>

datatype request_framing = Framing_Empty | Framing_Exact nat | Framing_Streamed

definition has_body :: "request_framing \<Rightarrow> bool" where
  "has_body f \<longleftrightarrow> f \<noteq> Framing_Empty"

fun known_len :: "request_framing \<Rightarrow> nat option" where
  "known_len Framing_Empty = Some 0"
| "known_len (Framing_Exact len) = Some len"
| "known_len Framing_Streamed = None"

datatype other_codings = OtherCodings_Reject | DangerouslyAcceptNonChunkedCodings

record te_codings =
  token_count :: nat
  chunked_count :: nat
  final_is_chunked :: bool
  has_other :: bool

fun content_length_loop :: "nat \<Rightarrow> bytes \<Rightarrow> reject_reason + nat" where
  "content_length_loop n [] = Inr n"
| "content_length_loop n (b # bs) =
     (if \<not> is_ascii_digit b then Inl ContentLengthInvalid
      else (case push_digit64 10 n (byte_val b - 48) of
              None \<Rightarrow> Inl ContentLengthOverflow
            | Some v \<Rightarrow> content_length_loop v bs))"

definition parse_content_length :: "bytes \<Rightarrow> reject_reason + nat" where
  "parse_content_length v =
     (if v = [] then Inl ContentLengthInvalid
      else if length v > 20 then Inl ContentLengthOverflow
      else content_length_loop 0 v)"

text \<open>\<^verbatim>\<open><[u8]>::eq_ignore_ascii_case\<close>.\<close>

definition eq_ignore_case :: "bytes \<Rightarrow> bytes \<Rightarrow> bool" where
  "eq_ignore_case a b \<longleftrightarrow> map to_ascii_lowercase a = map to_ascii_lowercase b"

fun te_tokens :: "bytes list \<Rightarrow> te_codings \<Rightarrow> reject_reason + te_codings" where
  "te_tokens [] st = Inr st"
| "te_tokens (raw # raws) st =
     (let t = trim_ows raw in
      if t = [] then Inl TransferEncodingEmptyToken
      else (let st1 = st\<lparr>token_count := sat_add32 (token_count st) 1\<rparr> in
        if token_count st1 > 8 then Inl TransferEncodingUnsupportedCoding
        else if eq_ignore_case t ''chunked''
        then te_tokens raws (st1\<lparr>chunked_count := sat_add32 (chunked_count st1) 1, final_is_chunked := True\<rparr>)
        else if \<not> list_all is_tchar t then Inl TransferEncodingUnsupportedCoding
        else te_tokens raws (st1\<lparr>has_other := True, final_is_chunked := False\<rparr>)))"

fun te_lines :: "bytes list \<Rightarrow> te_codings \<Rightarrow> reject_reason + te_codings" where
  "te_lines [] st = Inr st"
| "te_lines (line # ls) st =
     and_then (te_tokens (split_on (\<lambda>b. b = CHR '','') line) st) (\<lambda>st'. te_lines ls st')"

definition tokenize_transfer_encoding :: "bytes list \<Rightarrow> other_codings \<Rightarrow> reject_reason + te_codings" where
  "tokenize_transfer_encoding vals policy =
     and_then (te_lines vals \<lparr>token_count = 0, chunked_count = 0, final_is_chunked = False, has_other = False\<rparr>)
       (\<lambda>st.
         if token_count st = 0 then Inl TransferEncodingEmptyToken
         else if chunked_count st > 1 then Inl TransferEncodingChunkedRepeated
         else if \<not> final_is_chunked st then Inl TransferEncodingFinalNotChunked
         else if has_other st \<and> policy = OtherCodings_Reject then Inl TransferEncodingUnsupportedCoding
         else Inr st)"

definition resolve_request_framing ::
  "http_method \<Rightarrow> wire_version \<Rightarrow> field_section \<Rightarrow> other_codings \<Rightarrow> reject_reason + request_framing" where
  "resolve_request_framing m version fs policy =
     (let cl_count = count_known fs KnownHeader_ContentLength;
          te_present = contains_known fs KnownHeader_TransferEncoding
      in
      if cl_count > 1 then Inl ContentLengthDuplicate
      else if te_present \<and> cl_count = 1 then Inl TransferEncodingWithContentLength
      else if is_multiplexed version \<and> te_present then Inl ConnectionSpecificField
      else if version = Http10 \<and> te_present then Inl TransferEncodingOnHttp10
      else if te_present then
        and_then (tokenize_transfer_encoding (get_all_known fs KnownHeader_TransferEncoding) policy) (\<lambda>_.
          if is_connect m then Inl BodyNotAllowedForMethod else Inr Framing_Streamed)
      else if cl_count = 1 then
        and_then (map_err (\<lambda>_. ContentLengthDuplicate) (get_unique_known fs KnownHeader_ContentLength))
          (\<lambda>v. case v of
              None \<Rightarrow> Inr Framing_Empty
            | Some v \<Rightarrow>
                and_then (parse_content_length (trim_ows v)) (\<lambda>len.
                  if is_connect m \<and> len > 0 then Inl BodyNotAllowedForMethod
                  else if len = 0 then Inr Framing_Empty
                  else Inr (Framing_Exact len)))
      else if is_multiplexed version then Inr Framing_Streamed
      else Inr Framing_Empty)"

section \<open>A declarative reading\<close>

text \<open>The number a digit string denotes.\<close>

definition dec_val :: "bytes \<Rightarrow> nat" where
  "dec_val ds = foldl (\<lambda>n d. n * 10 + (byte_val d - 48)) 0 ds"

definition denotes_length :: "bytes \<Rightarrow> nat \<Rightarrow> bool" where
  "denotes_length v n \<longleftrightarrow> 1 \<le> length v \<and> length v \<le> 20 \<and> list_all is_ascii_digit v \<and> n = dec_val v \<and> n \<le> u64_max"

text \<open>The codings named by all transfer-encoding lines together, in order.\<close>

definition codings :: "bytes list \<Rightarrow> bytes list" where
  "codings vals = concat (map (\<lambda>line. map trim_ows (split_on (\<lambda>b. b = CHR '','') line)) vals)"

definition is_chunked :: "bytes \<Rightarrow> bool" where
  "is_chunked t = eq_ignore_case t ''chunked''"

definition chunked_last :: "other_codings \<Rightarrow> bytes list \<Rightarrow> bool" where
  "chunked_last policy cs \<longleftrightarrow>
     cs \<noteq> [] \<and> length cs \<le> 8 \<and> is_chunked (last cs) \<and> \<not> list_ex is_chunked (butlast cs) \<and>
     list_all (\<lambda>t. t \<noteq> [] \<and> (is_chunked t \<or> list_all is_tchar t)) cs \<and>
     (policy = OtherCodings_Reject \<longrightarrow> list_all is_chunked cs)"

text \<open>Whether a request with these \<^verbatim>\<open>content-length\<close> and \<^verbatim>\<open>transfer-encoding\<close> values has this framing.\<close>

definition framed ::
  "http_method \<Rightarrow> wire_version \<Rightarrow> bytes list \<Rightarrow> bytes list \<Rightarrow> other_codings \<Rightarrow> request_framing \<Rightarrow> bool" where
  "framed m version cls tes policy f =
     (case tes of
        _ # _ \<Rightarrow> version = Http11 \<and> cls = [] \<and> chunked_last policy (codings tes) \<and> m \<noteq> Method_Connect \<and>
                 f = Framing_Streamed
      | [] \<Rightarrow> (case cls of
           [] \<Rightarrow> f = (if is_multiplexed version then Framing_Streamed else Framing_Empty)
         | [v] \<Rightarrow> (\<exists>n \<le> u64_max. denotes_length (trim_ows v) n \<and>
                     (if n = 0 then f = Framing_Empty else m \<noteq> Method_Connect \<and> f = Framing_Exact n))
         | _ \<Rightarrow> False))"

section \<open>The decision is the reading\<close>

lemma dec_mono: "m \<le> foldl (\<lambda>n d. n * 10 + (byte_val d - 48)) m v"
proof (induction v arbitrary: m)
  case (Cons d v)
  have "m \<le> m * 10 + (byte_val d - 48)" by simp
  also have "\<dots> \<le> foldl (\<lambda>n d. n * 10 + (byte_val d - 48)) \<dots> v" by (rule Cons.IH)
  finally show ?case by simp
qed simp

lemma content_length_loop_ok:
  "n \<le> u64_max \<Longrightarrow> content_length_loop n v = Inr k \<longleftrightarrow>
     list_all is_ascii_digit v \<and> k = foldl (\<lambda>n d. n * 10 + (byte_val d - 48)) n v \<and> k \<le> u64_max"
proof (induction v arbitrary: n)
  case (Cons b v)
  show ?case
    using Cons.IH [of "n * 10 + (byte_val b - 48)"] dec_mono [of "n * 10 + (byte_val b - 48)" v]
    by (auto simp: push_digit64_eq)
qed auto

lemma parse_content_length_ok: "parse_content_length v = Inr n \<longleftrightarrow> denotes_length v n"
  using content_length_loop_ok [of 0 v n]
  by (auto simp: parse_content_length_def denotes_length_def dec_val_def Suc_le_eq)

text \<open>The tokenizer walks the flat list of codings.\<close>

lemma te_tokens_append:
  "te_tokens (xs @ ys) st = and_then (te_tokens xs st) (te_tokens ys)"
  by (induction xs st rule: te_tokens.induct) (auto simp: Let_def)

lemma te_lines_flat:
  "te_lines vals st = te_tokens (concat (map (split_on (\<lambda>b. b = CHR '','')) vals)) st"
  by (induction vals st rule: te_lines.induct) (auto simp: te_tokens_append and_then_def split: sum.split)

definition te_summary :: "bytes list \<Rightarrow> te_codings" where
  "te_summary cs = \<lparr>token_count = length cs, chunked_count = length (filter is_chunked cs),
     final_is_chunked = (cs \<noteq> [] \<and> is_chunked (last cs)), has_other = list_ex (\<lambda>t. \<not> is_chunked t) cs\<rparr>"

lemma te_tokens_summary:
  assumes "length cs \<le> 8"
  shows "te_tokens raws (te_summary cs) = Inr st \<longleftrightarrow>
    (let all = cs @ map trim_ows raws in
     st = te_summary all \<and> length all \<le> 8 \<and>
     list_all (\<lambda>t. t \<noteq> [] \<and> (is_chunked t \<or> list_all is_tchar t)) (map trim_ows raws))"
  using assms
proof (induction raws arbitrary: cs)
  case (Cons raw raws)
  let ?t = "trim_ows raw"
  show ?case
  proof (cases "?t \<noteq> [] \<and> length cs < 8 \<and> (is_chunked ?t \<or> list_all is_tchar ?t)")
    case True
    moreover have "length (filter is_chunked cs) \<le> 8" using Cons.prems length_filter_le [of is_chunked cs] by linarith
    ultimately have "te_tokens (raw # raws) (te_summary cs) = te_tokens raws (te_summary (cs @ [?t]))"
      by (auto simp: te_summary_def Let_def sat_add32_def u32_max_def is_chunked_def)
    then show ?thesis using Cons.IH [of "cs @ [?t]"] True by (auto simp: Let_def)
  next
    case False
    then show ?thesis
      using Cons.prems by (auto simp: te_summary_def Let_def sat_add32_def u32_max_def is_chunked_def)
  qed
qed (auto simp: Let_def)

lemma concat_map_trim:
  "map trim_ows (concat (map (split_on p) vals)) = concat (map (\<lambda>line. map trim_ows (split_on p line)) vals)"
  by (simp add: map_concat comp_def)

lemma one_chunked:
  assumes "cs \<noteq> []" and "is_chunked (last cs)"
  shows "length (filter is_chunked cs) \<le> 1 \<longleftrightarrow> \<not> list_ex is_chunked (butlast cs)"
proof -
  have "filter is_chunked cs = filter is_chunked (butlast cs) @ [last cs]"
    using assms by (metis append_butlast_last_id filter.simps filter_append)
  then show ?thesis by (auto simp: filter_empty_conv list_ex_iff)
qed

lemma tokenize_ok:
  "(\<exists>st. tokenize_transfer_encoding vals policy = Inr st) \<longleftrightarrow> chunked_last policy (codings vals)"
proof -
  let ?raws = "concat (map (split_on (\<lambda>b. b = CHR '','')) vals)" and ?cs = "codings vals"
  have cs: "map trim_ows ?raws = ?cs" by (simp add: concat_map_trim codings_def)
  have init: "te_lines vals \<lparr>token_count = 0, chunked_count = 0, final_is_chunked = False, has_other = False\<rparr> =
      te_tokens ?raws (te_summary [])"
    by (simp add: te_lines_flat te_summary_def)
  have toks: "te_tokens ?raws (te_summary []) = Inr st \<longleftrightarrow>
      st = te_summary ?cs \<and> length ?cs \<le> 8 \<and> list_all (\<lambda>t. t \<noteq> [] \<and> (is_chunked t \<or> list_all is_tchar t)) ?cs" for st
    using te_tokens_summary [of "[]" ?raws st] by (simp add: cs Let_def)
  have "(\<exists>st. tokenize_transfer_encoding vals policy = Inr st) \<longleftrightarrow>
      length ?cs \<le> 8 \<and> list_all (\<lambda>t. t \<noteq> [] \<and> (is_chunked t \<or> list_all is_tchar t)) ?cs \<and> ?cs \<noteq> [] \<and>
      length (filter is_chunked ?cs) \<le> 1 \<and> is_chunked (last ?cs) \<and>
      (policy = OtherCodings_Reject \<longrightarrow> list_all is_chunked ?cs)"
    unfolding tokenize_transfer_encoding_def init and_then_Inr_iff toks
    by (auto simp: te_summary_def list_ex_iff list_all_iff)
  then show ?thesis using one_chunked [of ?cs] by (auto simp: chunked_last_def)
qed

lemma at_most_one_single: "at_most_one len [v] = Inr (Some v)"
  by (simp add: at_most_one_def)

lemma resolve_framed:
  assumes "section_ok s"
  shows "resolve_request_framing m version s policy = Inr f \<longleftrightarrow>
    framed m version (get_all s ''content-length'') (get_all s ''transfer-encoding'') policy f"
proof -
  let ?cls = "get_all s ''content-length''" and ?tes = "get_all s ''transfer-encoding''"
  have cl: "count_known s KnownHeader_ContentLength = length ?cls"
    "get_unique_known s KnownHeader_ContentLength = at_most_one (length ''content-length'') ?cls"
    using assms by (simp_all add: count_known_eq get_unique_known_def get_all_known_eq get_all_eq)
  have te: "contains_known s KnownHeader_TransferEncoding \<longleftrightarrow> ?tes \<noteq> []"
    "get_all_known s KnownHeader_TransferEncoding = ?tes"
    using assms by (auto simp: contains_known_eq get_all_known_eq get_all_eq filter_empty_conv)
  have v11: "\<not> is_multiplexed version \<and> version \<noteq> Http10 \<longleftrightarrow> version = Http11"
    by (cases version) (auto simp: is_multiplexed_def)
  show ?thesis
  proof (cases "?tes = []")
    case False
    then obtain t ts where "?tes = t # ts" by (cases ?tes) auto
    then show ?thesis
      using v11 tokenize_ok [of ?tes policy] unfolding resolve_request_framing_def cl te Let_def
      by (cases ?cls; cases "tokenize_transfer_encoding ?tes policy")
        (auto simp: framed_def is_connect_def split: list.splits)
  next
    case True
    consider (none) "?cls = []" | (one) v where "?cls = [v]" | (many) a b c where "?cls = a # b # c"
      by (metis neq_Nil_conv)
    then show ?thesis
    proof cases
      case one
      then show ?thesis
        using True unfolding resolve_request_framing_def cl te Let_def
        by (auto simp: framed_def is_connect_def at_most_one_def and_then_Inr_iff parse_content_length_ok denotes_length_def)
    next
      case none
      with True show ?thesis unfolding resolve_request_framing_def cl te Let_def by (auto simp: framed_def)
    next
      case many
      with True show ?thesis unfolding resolve_request_framing_def cl te Let_def by (simp add: framed_def)
    qed
  qed
qed

section \<open>Request smuggling\<close>

text \<open>
  C6. The framing decision is the declarative one. For every well-formed header section, method, version
  and policy the request is framed, and framed this way, exactly when the reading of RFC 9112 says so:
  with transfer-encoding only on HTTP/1.1, without any content-length, with the codings of all lines
  together ending in the one \<^verbatim>\<open>chunked\<close> (and nothing else under the default policy) and not on CONNECT;
  without transfer-encoding, from a single content-length of 1 to 20 digits that fits 64 bits, or from
  none at all. Everything else, in particular both fields or two lengths, is refused.
\<close>

theorem framing_exact:
  assumes "reachable_section s"
  shows "resolve_request_framing m version s policy = Inr f \<longleftrightarrow>
    framed m version (get_all s ''content-length'') (get_all s ''transfer-encoding'') policy f"
  by (rule resolve_framed [OF reachable_section_ok [OF assms]])

theorem framing_exact_witness:
  "resolve_request_framing Method_Post Http11 demo_section OtherCodings_Reject = Inr (Framing_Exact 42)"
proof -
  have "get_all demo_section ''content-length'' = [''42'']" "get_all demo_section ''transfer-encoding'' = []"
    by code_simp+
  moreover have "trim_ows ''42'' = ''42''" by code_simp
  moreover have "denotes_length ''42'' 42" by code_simp
  ultimately show ?thesis
    unfolding framing_exact [OF demo_reachable] framed_def by (auto simp: u64_max_def intro!: exI [of _ 42])
qed

end
