(* ===== verification/Http_Budget.thy ===== *)
theory Http_Budget
  imports Http_Base
begin

text \<open>
  The budgets that bound work by limits instead of input size (\<^verbatim>\<open>hlist.rs\<close> and the head-scan budget of
  \<^verbatim>\<open>h1/parser.rs\<close>), the accumulator that joins cookie crumbs, and the check of a dynamic table size
  update. A charge returns the budget after the call also when it fails, because a failed budget has to
  stay failed.
\<close>

section \<open>The header list budget\<close>

record header_list_budget =
  hb_used :: nat
  hb_limit :: nat
  hb_count :: nat
  hb_max_count :: nat

definition budget_with_limits :: "nat \<Rightarrow> nat \<Rightarrow> header_list_budget" where
  "budget_with_limits max_bytes max_count =
     \<lparr>hb_used = 0, hb_limit = max_bytes, hb_count = 0, hb_max_count = max_count\<rparr>"

definition budget_new :: "http_limits \<Rightarrow> header_list_budget" where
  "budget_new l = budget_with_limits (max_header_list_bytes l) (max_field_count l)"

definition charge :: "header_list_budget \<Rightarrow> nat \<Rightarrow> nat \<Rightarrow> (reject_reason + unit) \<times> header_list_budget" where
  "charge h nlen vlen =
     (let h1 = h\<lparr>hb_count := sat_add32 (hb_count h) 1\<rparr> in
      if hb_count h1 > hb_max_count h1 then (Inl FieldCountExceeded, h1)
      else (let entry = sat_add64 (sat_add64 nlen vlen) 32;
                h2 = h1\<lparr>hb_used := sat_add64 (hb_used h1) entry\<rparr>
            in if hb_used h2 > hb_limit h2 then (Inl HeaderListTooLarge, h2) else (Inr (), h2)))"

definition budget_remaining :: "header_list_budget \<Rightarrow> nat" where
  "budget_remaining h = hb_limit h - hb_used h"

text \<open>The limits are 32-bit numbers.\<close>

definition budget_u32 :: "header_list_budget \<Rightarrow> bool" where
  "budget_u32 h \<longleftrightarrow> hb_limit h \<le> u32_max \<and> hb_max_count h < u32_max"

definition entry_size :: "nat \<times> nat \<Rightarrow> nat" where
  "entry_size e = fst e + snd e + 32"

text \<open>A decode loop charges header by header and abandons the block at the first error.\<close>

fun charge_all :: "header_list_budget \<Rightarrow> (nat \<times> nat) list \<Rightarrow> (reject_reason + unit) \<times> header_list_budget" where
  "charge_all h [] = (Inr (), h)"
| "charge_all h ((n, v) # es) =
     (case charge h n v of (Inl e, h') \<Rightarrow> (Inl e, h') | (Inr _, h') \<Rightarrow> charge_all h' es)"

lemma charge_ok_iff:
  assumes "budget_u32 h"
  shows "fst (charge h n v) = Inr () \<longleftrightarrow>
    hb_count h < hb_max_count h \<and> hb_used h + entry_size (n, v) \<le> hb_limit h"
  using assms
  by (auto simp: charge_def Let_def sat_add32_def sat_add64_def budget_u32_def u32_max_def u64_max_def entry_size_def)

lemma charge_ok_state:
  assumes "budget_u32 h" and "charge h n v = (Inr (), h')"
  shows "h' = h\<lparr>hb_count := hb_count h + 1, hb_used := hb_used h + entry_size (n, v)\<rparr>"
  using assms
  by (auto simp: charge_def Let_def sat_add32_def sat_add64_def budget_u32_def u32_max_def u64_max_def entry_size_def
      split: if_splits)

lemma charge_keeps_limits:
  "hb_limit (snd (charge h n v)) = hb_limit h" "hb_max_count (snd (charge h n v)) = hb_max_count h"
  by (simp_all add: charge_def Let_def)

lemma charge_u32: "budget_u32 h \<Longrightarrow> budget_u32 (snd (charge h n v))"
  by (simp add: budget_u32_def charge_keeps_limits)

lemma charge_all_ok_iff:
  assumes "budget_u32 h" and "hb_count h \<le> hb_max_count h" and "hb_used h \<le> hb_limit h"
  shows "fst (charge_all h es) = Inr () \<longleftrightarrow>
    hb_count h + length es \<le> hb_max_count h \<and> hb_used h + sum_list (map entry_size es) \<le> hb_limit h"
  using assms
proof (induction es arbitrary: h)
  case (Cons e es)
  obtain n v where e: "e = (n, v)" by (cases e)
  show ?case
  proof (cases "fst (charge h n v) = Inr ()")
    case True
    then obtain h' where c: "charge h n v = (Inr (), h')" by (metis prod.collapse)
    have h': "h' = h\<lparr>hb_count := hb_count h + 1, hb_used := hb_used h + entry_size (n, v)\<rparr>"
      by (rule charge_ok_state [OF Cons.prems(1) c])
    have "budget_u32 h'" using charge_u32 [OF Cons.prems(1), of n v] c by simp
    moreover have "hb_count h' \<le> hb_max_count h'" "hb_used h' \<le> hb_limit h'"
      using True charge_ok_iff [OF Cons.prems(1)] h' by auto
    ultimately show ?thesis using Cons.IH [of h'] c h' e by (simp add: algebra_simps)
  next
    case False
    then obtain r h' where "charge h n v = (Inl r, h')" by (metis old.sum.exhaust old.unit.exhaust prod.collapse)
    then show ?thesis using False charge_ok_iff [OF Cons.prems(1), of n v] e by auto
  qed
qed simp

lemma charge_failed_stays:
  assumes "budget_u32 h" and "fst (charge h n v) \<noteq> Inr ()"
  shows "fst (charge (snd (charge h n v)) n' v') \<noteq> Inr ()"
  using assms charge_ok_iff [OF charge_u32 [OF assms(1), of n v], of n' v']
  by (auto simp: charge_def Let_def sat_add32_def sat_add64_def budget_u32_def u32_max_def u64_max_def split: if_splits)

section \<open>Joining cookie crumbs\<close>

definition MAX_COOKIE_CRUMBS :: nat where
  "MAX_COOKIE_CRUMBS = 256"

record cookie_accumulator =
  crumbs :: "(nat \<times> nat) list"
  total_len :: nat

definition cookie_new :: cookie_accumulator where
  "cookie_new = \<lparr>crumbs = [], total_len = 0\<rparr>"

definition crumb_slice :: "bytes \<Rightarrow> nat \<Rightarrow> nat \<Rightarrow> bytes option" where
  "crumb_slice staging offset len =
     Option.bind (checked_add64 offset len) (\<lambda>stop. get_range staging offset stop)"

definition cookie_push :: "cookie_accumulator \<Rightarrow> nat \<Rightarrow> nat \<Rightarrow> reject_reason + cookie_accumulator" where
  "cookie_push c offset len =
     (if length (crumbs c) \<ge> MAX_COOKIE_CRUMBS then Inl FieldCountExceeded
      else Inr \<lparr>crumbs = crumbs c @ [(offset, len)], total_len = sat_add32 (total_len c) len\<rparr>)"

definition joined_len :: "cookie_accumulator \<Rightarrow> nat" where
  "joined_len c =
     (let n = to_u32 (length (crumbs c))
      in sat_add32 (total_len c) (if 2 * (n - 1) \<le> u32_max then 2 * (n - 1) else u32_max))"

fun join_write :: "bytes \<Rightarrow> nat \<Rightarrow> (nat \<times> nat) list \<Rightarrow> bytes \<Rightarrow> reject_reason + bytes" where
  "join_write staging i [] out = Inr out"
| "join_write staging i ((offset, len) # cs) out =
     (let out1 = (if i > 0 then out @ ''; '' else out)
      in and_then (ok_or (crumb_slice staging offset len) HeaderListTooLarge) (\<lambda>s.
         join_write staging (i + 1) cs (out1 @ s)))"

definition join_into :: "cookie_accumulator \<Rightarrow> bytes \<Rightarrow> bytes \<Rightarrow> reject_reason + nat \<times> bytes" where
  "join_into c staging out =
     (if list_ex (\<lambda>(offset, len). crumb_slice staging offset len = None) (crumbs c) then Inl HeaderListTooLarge
      else and_then (join_write staging 0 (crumbs c) out) (\<lambda>out'.
           let written = length out' - length out
           in if written \<le> u32_max then Inr (written, out') else Inl HeaderListTooLarge))"

text \<open>The crumbs separated by a semicolon and a space.\<close>

fun join_crumbs :: "bytes list \<Rightarrow> bytes" where
  "join_crumbs [] = []"
| "join_crumbs [s] = s"
| "join_crumbs (s # t # ss) = s @ ''; '' @ join_crumbs (t # ss)"

definition slices :: "bytes \<Rightarrow> (nat \<times> nat) list \<Rightarrow> bytes list" where
  "slices staging cs = map (\<lambda>(offset, len). take len (drop offset staging)) cs"

lemma crumb_slice_Some:
  "crumb_slice staging offset len = Some s \<Longrightarrow> s = take len (drop offset staging) \<and> length s = len"
  by (auto simp: crumb_slice_def get_range_def bind_eq_Some_conv checked_add64_def split: if_splits)

lemma join_write_later:
  assumes "\<forall>(offset, len) \<in> set cs. crumb_slice staging offset len \<noteq> None" and "i > 0"
  shows "join_write staging i cs out = Inr (out @ concat (map ((@) ''; '') (slices staging cs)))"
  using assms
proof (induction cs arbitrary: i out)
  case (Cons c cs)
  obtain offset len where c: "c = (offset, len)" by (cases c)
  with Cons.prems(1) obtain s where s: "crumb_slice staging offset len = Some s" by auto
  with Cons crumb_slice_Some [OF s] show ?case by (simp add: c slices_def)
qed (simp add: slices_def)

lemma join_crumbs_Cons: "join_crumbs (s # ss) = s @ concat (map ((@) ''; '') ss)"
  by (induction ss arbitrary: s) auto

lemma join_write_eq:
  assumes "\<forall>(offset, len) \<in> set cs. crumb_slice staging offset len \<noteq> None"
  shows "join_write staging 0 cs out = Inr (out @ join_crumbs (slices staging cs))"
proof (cases cs)
  case (Cons c cs')
  obtain offset len where c: "c = (offset, len)" by (cases c)
  with assms Cons obtain s where s: "crumb_slice staging offset len = Some s" by auto
  with assms Cons c crumb_slice_Some [OF s] show ?thesis
    by (simp add: join_write_later slices_def join_crumbs_Cons)
qed (simp add: slices_def)

lemma length_join_crumbs: "length (join_crumbs ss) = sum_list (map length ss) + 2 * (length ss - 1)"
  by (induction ss rule: join_crumbs.induct) auto

text \<open>What a sequence of pushes leaves in the accumulator.\<close>

definition cookie_ok :: "cookie_accumulator \<Rightarrow> bool" where
  "cookie_ok c \<longleftrightarrow> length (crumbs c) \<le> MAX_COOKIE_CRUMBS \<and>
     total_len c = (let n = sum_list (map snd (crumbs c)) in if n \<le> u32_max then n else u32_max)"

lemma cookie_new_ok: "cookie_ok cookie_new"
  by (simp add: cookie_ok_def cookie_new_def MAX_COOKIE_CRUMBS_def)

lemma cookie_push_ok: "cookie_ok c \<Longrightarrow> cookie_push c offset len = Inr c' \<Longrightarrow> cookie_ok c'"
  by (auto simp: cookie_ok_def cookie_push_def sat_add32_def Let_def split: if_splits)

lemma join_into_eq:
  assumes "cookie_ok c" and "join_into c staging out = Inr (n, out')"
  shows "out' = out @ join_crumbs (slices staging (crumbs c)) \<and> n = joined_len c"
proof -
  have all: "\<forall>(offset, len) \<in> set (crumbs c). crumb_slice staging offset len \<noteq> None"
    using assms(2) by (auto simp: join_into_def list_ex_iff split: if_splits)
  have out': "out' = out @ join_crumbs (slices staging (crumbs c))"
    and n: "n = length (join_crumbs (slices staging (crumbs c)))" "n \<le> u32_max"
    using assms(2) join_write_eq [OF all, of out] by (auto simp: join_into_def Let_def split: if_splits)
  have "map length (slices staging (crumbs c)) = map snd (crumbs c)"
    using all by (auto simp: slices_def dest!: crumb_slice_Some bspec split: prod.splits)
  then have len: "n = sum_list (map snd (crumbs c)) + 2 * (length (crumbs c) - 1)"
    using n(1) by (simp add: length_join_crumbs) (simp add: slices_def)
  have "length (crumbs c) \<le> 256" using assms(1) by (simp add: cookie_ok_def MAX_COOKIE_CRUMBS_def)
  then have "joined_len c = n"
    using len n(2) assms(1)
    by (simp add: joined_len_def cookie_ok_def to_u32_def sat_add32_def u32_max_def Let_def)
  with out' show ?thesis by simp
qed

section \<open>Table sizes and head scans\<close>

definition check_update :: "nat \<Rightarrow> nat \<Rightarrow> reject_reason + unit" where
  "check_update advertised_max requested = (if requested > advertised_max then Inl HeaderListTooLarge else Inr ())"

definition HeadScan_MAX_BYTES :: nat where
  "HeadScan_MAX_BYTES = 4 * 1024 * 1024"

definition head_scan_charge :: "nat \<Rightarrow> nat \<Rightarrow> (reject_reason + unit) \<times> nat" where
  "head_scan_charge scanned buf_len =
     (let scanned' = sat_add64 scanned buf_len
      in (if scanned' > HeadScan_MAX_BYTES then Inl HeaderListTooLarge else Inr (), scanned'))"

definition head_scan_reset :: "nat \<Rightarrow> nat" where
  "head_scan_reset scanned = 0"

section \<open>What the budgets guarantee\<close>

lemma charge_all_failed_stays:
  "budget_u32 h \<Longrightarrow> fst (charge_all h es) \<noteq> Inr () \<Longrightarrow> fst (charge (snd (charge_all h es)) n v) \<noteq> Inr ()"
proof (induction h es rule: charge_all.induct)
  case (2 h n' v' es)
  show ?case
  proof (cases "charge h n' v'")
    case (Pair r h')
    have "budget_u32 h'" using charge_u32 [OF "2.prems"(1), of n' v'] Pair by simp
    then show ?thesis
      using 2 Pair charge_failed_stays [OF "2.prems"(1), of n' v' n v] by (cases r) auto
  qed
qed simp

lemma budget_new_u32: "is_clamped l \<Longrightarrow> budget_u32 (budget_new l)"
  using is_clampedD(1,3) [of l] by (simp add: budget_u32_def budget_new_def budget_with_limits_def u32_max_def)

text \<open>
  C28. The decompression-bomb budget is exact. A block of headers of any sizes passes the budget if and
  only if it has at most the clamped number of fields and its uncompressed size, 32 bytes of overhead per
  field included, is within the clamped list size, although the running sums saturate; and once a charge
  has failed every later charge fails too.
\<close>

theorem header_budget_exact:
  "(fst (charge_all (budget_new (clamped l)) es) = Inr () \<longleftrightarrow>
     length es \<le> max_field_count (clamped l) \<and> sum_list (map entry_size es) \<le> max_header_list_bytes (clamped l)) \<and>
   (fst (charge_all (budget_new (clamped l)) es) \<noteq> Inr () \<longrightarrow>
     fst (charge (snd (charge_all (budget_new (clamped l)) es)) n v) \<noteq> Inr ())"
  using charge_all_ok_iff [OF budget_new_u32 [OF is_clamped_clamped], of l es]
    charge_all_failed_stays [OF budget_new_u32 [OF is_clamped_clamped], of l es n v]
  by (auto simp: budget_new_def budget_with_limits_def)

theorem header_budget_exact_witness:
  "fst (charge (snd (charge_all (budget_new (clamped DEFAULT_limits)) [(65536, 0)])) 1 1) \<noteq> Inr ()"
proof -
  have "\<not> sum_list (map entry_size [(65536, 0)]) \<le> max_header_list_bytes (clamped DEFAULT_limits)"
    by (simp add: entry_size_def clamped_def clamp_to_def DEFAULT_limits_def CEILING_def)
  then show ?thesis using header_budget_exact [of DEFAULT_limits "[(65536, 0)]" 1 1] by blast
qed

fun cookie_push_all :: "cookie_accumulator \<Rightarrow> (nat \<times> nat) list \<Rightarrow> reject_reason + cookie_accumulator" where
  "cookie_push_all c [] = Inr c"
| "cookie_push_all c ((offset, len) # cs) = and_then (cookie_push c offset len) (\<lambda>c'. cookie_push_all c' cs)"

lemma cookie_push_all_ok:
  "cookie_ok c \<Longrightarrow> cookie_push_all c cs = Inr c' \<Longrightarrow> cookie_ok c' \<and> crumbs c' = crumbs c @ cs"
proof (induction c cs rule: cookie_push_all.induct)
  case (2 c offset len cs)
  then obtain c1 where c1: "cookie_push c offset len = Inr c1" "cookie_push_all c1 cs = Inr c'"
    by (auto elim: and_then_InrE)
  have "crumbs c1 = crumbs c @ [(offset, len)]" using c1(1) by (auto simp: cookie_push_def split: if_splits)
  then show ?case using "2.IH" [OF cookie_push_ok [OF "2.prems"(1) c1(1)] c1(2)] by simp
qed simp

text \<open>
  Cookie crumbs are joined exactly. When a join of the recorded crumbs succeeds it has appended the
  crumbs in push order, separated by a semicolon and a space, and the length it returns is the length
  predicted beforehand, although the running total saturates at 32 bits.
\<close>

theorem cookie_join_exact:
  assumes "cookie_push_all cookie_new cs = Inr c" and "join_into c staging out = Inr (n, out')"
  shows "out' = out @ join_crumbs (slices staging cs) \<and> n = joined_len c"
  using join_into_eq [OF _ assms(2)] cookie_push_all_ok [OF cookie_new_ok assms(1)] by (auto simp: cookie_new_def)

theorem cookie_join_exact_witness:
  "join_crumbs (slices ''a=1b=22'' [(0, 3), (3, 4)]) = ''a=1; b=22''"
proof -
  have c: "cookie_push_all cookie_new [(0, 3), (3, 4)] = Inr \<lparr>crumbs = [(0, 3), (3, 4)], total_len = 7\<rparr>" by code_simp
  have j: "join_into \<lparr>crumbs = [(0, 3), (3, 4)], total_len = 7\<rparr> ''a=1b=22'' [] = Inr (9, ''a=1; b=22'')" by code_simp
  show ?thesis using cookie_join_exact [OF c j] by (simp only: append_Nil)
qed

end
