(* ===== verification/Http_Chunked.thy ===== *)
theory Http_Chunked
  imports Http_Built Http_Budget
begin

text \<open>
  The resumable decoder of the chunked transfer coding (\<^verbatim>\<open>h1/chunked.rs\<close>): its states, one function per
  step, the loop of \<^verbatim>\<open>run\<close> and \<^verbatim>\<open>decode\<close>. The searchers of the \<^verbatim>\<open>memchr\<close> crate are the parameter \<open>se\<close>.
  A refusal returns the reason only: the message is abandoned and its connection closed, so the decoder
  is not used again. The two loops carry fuel, one unit per byte of the buffer and one more; running out of
  it and the panic of \<^verbatim>\<open>split_off\<close> are the value None, which \<open>decode_returns\<close> excludes.
\<close>

section \<open>The decoder state\<close>

datatype chunked_event = Event_Data nat nat | Event_NeedMore | Event_Done nat

datatype chunk_state =
  State_Size | State_Ext | State_SizeCrlf | State_Data | State_DataCrlf | State_Trailers | State_Done

datatype ext_mode = Ext_AfterSemicolon | Ext_TopLevel | Ext_Quoted | Ext_QuotedEscaped

datatype step = Step_Continue | Step_NeedMore | Step_Done

record chunked_decoder =
  d_state :: chunk_state
  d_remaining :: nat
  d_delivered :: nat
  d_ext_bytes :: nat
  d_size_digits :: nat
  d_ext_mode :: ext_mode
  d_builder :: "section_builder option"
  d_trailers :: "field_section option"
  d_budget :: header_list_budget
  d_trailer_scan :: nat
  d_last_consumed :: nat
  d_watermark :: nat
  d_limits :: http_limits
  d_underscores :: underscore_policy

definition MAX_SIZE_DIGITS :: nat where "MAX_SIZE_DIGITS = 16"
definition SIZE_LINE_SCAN_CAP :: nat where "SIZE_LINE_SCAN_CAP = 24"
definition MAX_DENIABLE_NAME_LEN :: nat where "MAX_DENIABLE_NAME_LEN = 19"
definition TRAILER_SEARCH_CAP_SLACK :: nat where "TRAILER_SEARCH_CAP_SLACK = 64"

definition classify_trailer_name :: "bytes \<Rightarrow> underscore_policy \<Rightarrow> known_header" where
  "classify_trailer_name raw policy =
     (if length raw > MAX_DENIABLE_NAME_LEN then KnownHeader_Unknown
      else (case normalize_name_into raw policy (replicate MAX_DENIABLE_NAME_LEN CHR 0x00) of
              Inr (n, buf) \<Rightarrow>
                (case get_range buf 0 n of Some name \<Rightarrow> classify name | None \<Rightarrow> KnownHeader_Unknown)
            | Inl _ \<Rightarrow> KnownHeader_Unknown))"

definition hex_digit_value :: "byte \<Rightarrow> nat option" where
  "hex_digit_value b =
     (if 48 \<le> byte_val b \<and> byte_val b \<le> 57 then Some (byte_val b - 48)
      else if 97 \<le> byte_val b \<and> byte_val b \<le> 102 then Some (byte_val b - 97 + 10)
      else if 65 \<le> byte_val b \<and> byte_val b \<le> 70 then Some (byte_val b - 65 + 10)
      else None)"

definition is_ext_top_byte :: "byte \<Rightarrow> bool" where
  "is_ext_top_byte b \<longleftrightarrow> b = CHR ''='' \<or> b = SP \<or> b = HTAB \<or> is_tchar b"

definition TRAILER_DENIED :: "known_header list" where
  "TRAILER_DENIED =
     [KnownHeader_TransferEncoding, KnownHeader_ContentLength, KnownHeader_Host, KnownHeader_Expect,
      KnownHeader_MaxForwards, KnownHeader_CacheControl, KnownHeader_IfMatch, KnownHeader_IfNoneMatch,
      KnownHeader_IfModifiedSince, KnownHeader_IfUnmodifiedSince, KnownHeader_IfRange, KnownHeader_Range,
      KnownHeader_Te, KnownHeader_Authorization, KnownHeader_ProxyAuthorization, KnownHeader_Cookie,
      KnownHeader_SetCookie, KnownHeader_Trailer]"

definition trailer_denied :: "known_header \<Rightarrow> bool" where
  "trailer_denied k = list_ex (\<lambda>c. discriminant k = discriminant c) TRAILER_DENIED"

definition decoder_new :: "http_limits \<Rightarrow> underscore_policy \<Rightarrow> chunked_decoder" where
  "decoder_new l policy =
     \<lparr>d_state = State_Size, d_remaining = 0, d_delivered = 0, d_ext_bytes = 0, d_size_digits = 0,
      d_ext_mode = Ext_TopLevel, d_builder = None, d_trailers = None, d_budget = budget_new l,
      d_trailer_scan = 0, d_last_consumed = 0, d_watermark = 0, d_limits = l, d_underscores = policy\<rparr>"

section \<open>The chunk size line\<close>

definition accept_size_digit :: "chunked_decoder \<Rightarrow> byte \<Rightarrow> reject_reason + chunked_decoder" where
  "accept_size_digit d b =
     and_then (ok_or (hex_digit_value b) ChunkSizeInvalid) (\<lambda>digit.
       let n = (if d_size_digits d < 255 then d_size_digits d + 1 else 255) in
       if n > MAX_SIZE_DIGITS then Inl ChunkSizeOverflow
       else and_then (ok_or (push_digit64 16 (d_remaining d) digit) ChunkSizeOverflow) (\<lambda>v.
         Inr (d\<lparr>d_size_digits := n, d_remaining := v\<rparr>)))"

fun accept_size_digits :: "chunked_decoder \<Rightarrow> bytes \<Rightarrow> reject_reason + chunked_decoder" where
  "accept_size_digits d [] = Inr d"
| "accept_size_digits d (b # bs) = and_then (accept_size_digit d b) (\<lambda>d'. accept_size_digits d' bs)"

definition step_size ::
  "searchers \<Rightarrow> chunked_decoder \<Rightarrow> bytes \<Rightarrow> nat \<Rightarrow> reject_reason + step \<times> chunked_decoder \<times> nat" where
  "step_size se d buf cursor =
     (let region = drop cursor buf;
          window_len = min (length region) SIZE_LINE_SCAN_CAP;
          window = take window_len region;
          boundary = memchr3 se CHR '';'' CR LF window;
          digits_len = (case boundary of Some i \<Rightarrow> i | None \<Rightarrow> window_len)
      in and_then (accept_size_digits d (case get_range window 0 digits_len of Some w \<Rightarrow> w | None \<Rightarrow> [])) (\<lambda>d1.
         let cursor1 = sat_add cursor digits_len in
         case boundary of
           None \<Rightarrow> Inr (Step_NeedMore, d1, cursor1)
         | Some p \<Rightarrow>
             if get window p = Some CHR '';'' then
               (if d_size_digits d1 = 0 then Inl ChunkSizeInvalid
                else Inr (Step_Continue,
                  d1\<lparr>d_ext_bytes := 1, d_ext_mode := Ext_AfterSemicolon, d_state := State_Ext\<rparr>, sat_add cursor1 1))
             else if get window p = Some CR then
               (if d_size_digits d1 = 0 then Inl ChunkSizeInvalid
                else Inr (Step_Continue, d1\<lparr>d_state := State_SizeCrlf\<rparr>, sat_add cursor1 1))
             else Inl ChunkTerminatorInvalid))"

text \<open>One byte of a chunk extension; None is the carriage return that ends it.\<close>

definition ext_byte :: "ext_mode \<Rightarrow> byte \<Rightarrow> reject_reason + ext_mode option" where
  "ext_byte mode b =
     (case mode of
        Ext_AfterSemicolon \<Rightarrow>
          (if b = CHR '';'' \<or> b = CR then Inl ChunkExtInvalid
           else if b = DQUOTE then Inr (Some Ext_Quoted)
           else if \<not> is_ext_top_byte b then Inl ChunkExtInvalid
           else Inr (Some Ext_TopLevel))
      | Ext_TopLevel \<Rightarrow>
          (if b = DQUOTE then Inr (Some Ext_Quoted)
           else if b = CR then Inr None
           else if b = CHR '';'' then Inr (Some Ext_AfterSemicolon)
           else if \<not> is_ext_top_byte b then Inl ChunkExtInvalid
           else Inr (Some Ext_TopLevel))
      | Ext_Quoted \<Rightarrow>
          (if b = CR \<or> b = LF then Inl ChunkExtInvalid
           else if b = BSLASH then Inr (Some Ext_QuotedEscaped)
           else if b = DQUOTE then Inr (Some Ext_TopLevel)
           else Inr (Some Ext_Quoted))
      | Ext_QuotedEscaped \<Rightarrow>
          (if b = CR \<or> b = LF then Inl ChunkExtInvalid else Inr (Some Ext_Quoted)))"

fun ext_loop :: "chunked_decoder \<Rightarrow> bytes \<Rightarrow> nat \<Rightarrow> reject_reason + step \<times> chunked_decoder \<times> nat" where
  "ext_loop d [] cursor = Inr (Step_NeedMore, d, cursor)"
| "ext_loop d (b # region) cursor =
     (let d1 = d\<lparr>d_ext_bytes := sat_add32 (d_ext_bytes d) 1\<rparr> in
      if d_ext_bytes d1 > max_chunk_ext_bytes (d_limits d1) then Inl ChunkExtTooLong
      else and_then (ext_byte (d_ext_mode d1) b) (\<lambda>m.
        case m of
          None \<Rightarrow> Inr (Step_Continue, d1\<lparr>d_state := State_SizeCrlf\<rparr>, sat_add cursor 1)
        | Some mode \<Rightarrow> ext_loop (d1\<lparr>d_ext_mode := mode\<rparr>) region (sat_add cursor 1)))"

definition step_ext :: "chunked_decoder \<Rightarrow> bytes \<Rightarrow> nat \<Rightarrow> reject_reason + step \<times> chunked_decoder \<times> nat" where
  "step_ext d buf cursor = ext_loop d (drop cursor buf) cursor"

definition step_size_crlf ::
  "chunked_decoder \<Rightarrow> bytes \<Rightarrow> nat \<Rightarrow> bytes \<Rightarrow> reject_reason + step \<times> chunked_decoder \<times> nat" where
  "step_size_crlf d buf cursor a =
     (case get buf cursor of
        None \<Rightarrow> Inr (Step_NeedMore, d, cursor)
      | Some b \<Rightarrow>
          if b \<noteq> LF then Inl ChunkTerminatorInvalid
          else if d_remaining d = 0
          then Inr (Step_Continue,
            d\<lparr>d_builder := Some (builder_new a (d_limits d)), d_budget := budget_new (d_limits d),
              d_state := State_Trailers\<rparr>, sat_add cursor 1)
          else Inr (Step_Continue, d\<lparr>d_ext_bytes := 0, d_size_digits := 0, d_state := State_Data\<rparr>, sat_add cursor 1))"

section \<open>Chunk data\<close>

definition step_data :: "chunked_decoder \<Rightarrow> bytes \<Rightarrow> nat \<Rightarrow> (chunked_event \<times> chunked_decoder \<times> nat) option" where
  "step_data d buf cursor =
     (let available = length buf - cursor;
          n = min (d_remaining d) available
      in if n = 0 then None
         else (let remaining = d_remaining d - n in
           Some (Event_Data cursor n,
             d\<lparr>d_remaining := remaining, d_delivered := sat_add64 (d_delivered d) n,
               d_state := (if remaining = 0 then State_DataCrlf else d_state d)\<rparr>,
             sat_add cursor n)))"

definition step_data_crlf :: "chunked_decoder \<Rightarrow> bytes \<Rightarrow> nat \<Rightarrow> reject_reason + step \<times> chunked_decoder \<times> nat" where
  "step_data_crlf d buf cursor =
     (let region = drop cursor buf in
      case get region 0 of
        None \<Rightarrow> Inr (Step_NeedMore, d, cursor)
      | Some b \<Rightarrow>
          if b = CR then
            (case get region 1 of
               None \<Rightarrow> Inr (Step_NeedMore, d, cursor)
             | Some c \<Rightarrow>
                 if c = LF then Inr (Step_Continue, d\<lparr>d_state := State_Size\<rparr>, sat_add cursor 2)
                 else Inl ChunkTerminatorInvalid)
          else Inl ChunkTerminatorInvalid)"

section \<open>The trailer section\<close>

text \<open>One non-empty trailer line.\<close>

definition trailer_field ::
  "http_limits \<Rightarrow> underscore_policy \<Rightarrow> section_builder option \<Rightarrow> header_list_budget \<Rightarrow> bytes \<Rightarrow> bytes \<Rightarrow>
   reject_reason + section_builder \<times> header_list_budget \<times> bytes" where
  "trailer_field limits policy builder budget a line =
     (if is_ows (hd line) then Inl ObsFold
      else (case position (\<lambda>b. b = CR \<or> b = LF) line of
        Some bad \<Rightarrow> Inl (if get line bad = Some CR then BareCr else BareLf)
      | None \<Rightarrow>
      (case position (\<lambda>b. b = CHR '':'') line of
        None \<Rightarrow> Inl RequestLineMalformed
      | Some colon \<Rightarrow>
        if colon = 0 then Inl FieldNameEmpty
        else if is_ows (line ! (colon - 1)) then Inl WhitespaceBeforeColon
        else (let name_raw = take colon line;
                  value_trimmed = trim_ows (drop (sat_add colon 1) line)
              in if sat_add (length name_raw) (length value_trimmed) > max_field_line_bytes limits
                 then Inl FieldLineTooLong
                 else (case charge budget (length name_raw) (length value_trimmed) of
                    (Inl e, _) \<Rightarrow> Inl e
                  | (Inr _, budget') \<Rightarrow>
                 (case builder of
                    None \<Rightarrow> Inl ChunkTerminatorInvalid
                  | Some b \<Rightarrow>
                 (case push_normalized b a name_raw policy value_trimmed Http11 of
                    (Inl e, _, _) \<Rightarrow> Inl e
                  | (Inr _, b', a') \<Rightarrow>
                      if trailer_denied (classify_trailer_name name_raw policy) then Inl TrailerFieldForbidden
                      else Inr (b', budget', a'))))))))"

text \<open>The loop of \<^verbatim>\<open>step_trailers\<close>.\<close>

fun step_trailers ::
  "searchers \<Rightarrow> nat \<Rightarrow> chunked_decoder \<Rightarrow> bytes \<Rightarrow> nat \<Rightarrow> bytes \<Rightarrow>
   (reject_reason + step \<times> chunked_decoder \<times> nat \<times> bytes) option" where
  "step_trailers se 0 d buf cursor a = None"
| "step_trailers se (Suc fuel) d buf cursor a =
     (let region = drop cursor buf;
          search_cap = sat_add (max_field_line_bytes (d_limits d)) TRAILER_SEARCH_CAP_SLACK;
          window = take (min (length region) search_cap) region
      in case memmem se window [CR, LF] of
           None \<Rightarrow>
             (let scan = sat_add64 (d_trailer_scan d) (length window) in
              if scan > HeadScan_MAX_BYTES then Some (Inl FieldLineTooLong)
              else if length region > search_cap then Some (Inl FieldLineTooLong)
              else Some (Inr (Step_NeedMore, d\<lparr>d_trailer_scan := scan\<rparr>, cursor, a)))
         | Some rel \<Rightarrow>
             (let scan = sat_add64 (d_trailer_scan d) (sat_add rel 2);
                  d1 = d\<lparr>d_trailer_scan := scan\<rparr>;
                  line = take rel window;
                  line_end = sat_add cursor rel
              in if scan > HeadScan_MAX_BYTES then Some (Inl FieldLineTooLong)
                 else if line = [] then
                   (case d_builder d1 of
                      None \<Rightarrow> Some (Inl ChunkTerminatorInvalid)
                    | Some b \<Rightarrow>
                        (case builder_finish b a of
                           None \<Rightarrow> None
                         | Some (section, a') \<Rightarrow>
                             Some (Inr (Step_Done,
                               d1\<lparr>d_builder := None, d_trailers := Some section, d_state := State_Done\<rparr>,
                               sat_add line_end 2, a'))))
                 else
                   (case trailer_field (d_limits d1) (d_underscores d1) (d_builder d1) (d_budget d1) a line of
                      Inl e \<Rightarrow> Some (Inl e)
                    | Inr (b', budget', a') \<Rightarrow>
                        step_trailers se fuel (d1\<lparr>d_builder := Some b', d_budget := budget'\<rparr>) buf
                          (sat_add line_end 2) a')))"

section \<open>The loop and one call\<close>

definition from_step ::
  "reject_reason + step \<times> chunked_decoder \<times> nat \<Rightarrow> bytes \<Rightarrow>
   (chunked_decoder \<Rightarrow> nat \<Rightarrow> (reject_reason + chunked_event \<times> chunked_decoder \<times> nat \<times> bytes) option) \<Rightarrow>
   (reject_reason + chunked_event \<times> chunked_decoder \<times> nat \<times> bytes) option" where
  "from_step r a k =
     (case r of
        Inl e \<Rightarrow> Some (Inl e)
      | Inr (st, d, cursor) \<Rightarrow>
          (case st of Step_Continue \<Rightarrow> k d cursor | _ \<Rightarrow> Some (Inr (Event_NeedMore, d, cursor, a))))"

fun run ::
  "searchers \<Rightarrow> nat \<Rightarrow> chunked_decoder \<Rightarrow> bytes \<Rightarrow> nat \<Rightarrow> bytes \<Rightarrow>
   (reject_reason + chunked_event \<times> chunked_decoder \<times> nat \<times> bytes) option" where
  "run se 0 d buf cursor a = None"
| "run se (Suc fuel) d buf cursor a =
     (case d_state d of
        State_Size \<Rightarrow> from_step (step_size se d buf cursor) a (\<lambda>d' c'. run se fuel d' buf c' a)
      | State_Ext \<Rightarrow> from_step (step_ext d buf cursor) a (\<lambda>d' c'. run se fuel d' buf c' a)
      | State_SizeCrlf \<Rightarrow> from_step (step_size_crlf d buf cursor a) a (\<lambda>d' c'. run se fuel d' buf c' a)
      | State_Data \<Rightarrow>
          (case step_data d buf cursor of
             Some (event, d', c') \<Rightarrow> Some (Inr (event, d', c', a))
           | None \<Rightarrow> Some (Inr (Event_NeedMore, d, cursor, a)))
      | State_DataCrlf \<Rightarrow> from_step (step_data_crlf d buf cursor) a (\<lambda>d' c'. run se fuel d' buf c' a)
      | State_Trailers \<Rightarrow>
          (case step_trailers se (Suc (length buf)) d buf cursor a of
             None \<Rightarrow> None
           | Some (Inl e) \<Rightarrow> Some (Inl e)
           | Some (Inr (st, d', c', a')) \<Rightarrow>
               (case st of
                  Step_Continue \<Rightarrow> run se fuel d' buf c' a'
                | Step_NeedMore \<Rightarrow> Some (Inr (Event_NeedMore, d', c', a'))
                | Step_Done \<Rightarrow> Some (Inr (Event_Done c', d', c', a'))))
      | State_Done \<Rightarrow> Some (Inr (Event_Done 0, d, cursor, a)))"

definition decode ::
  "searchers \<Rightarrow> chunked_decoder \<Rightarrow> bytes \<Rightarrow> bytes \<Rightarrow>
   (reject_reason + chunked_event \<times> chunked_decoder \<times> bytes) option" where
  "decode se d buf a =
     (case run se (Suc (length buf)) d buf 0 a of
        None \<Rightarrow> None
      | Some (Inl e) \<Rightarrow> Some (Inl e)
      | Some (Inr (event, d', cursor, a')) \<Rightarrow>
          Some (Inr (event, d'\<lparr>d_last_consumed := cursor, d_watermark := length a'\<rparr>, a')))"

definition consumed_this_call :: "chunked_decoder \<Rightarrow> nat" where
  "consumed_this_call d = d_last_consumed d"

definition is_done :: "chunked_decoder \<Rightarrow> bool" where
  "is_done d \<longleftrightarrow> d_state d = State_Done"

end
