(* ===== verification/Http_Lines.thy ===== *)
theory Http_Lines
  imports Rust_Bytes
begin

text \<open>
  Lines closed by CRLF, as the head parser and the trailer loop of the chunked decoder find them with the
  substring search of the \<^verbatim>\<open>memchr\<close> crate.
\<close>

section \<open>The first line break\<close>

definition crlf_free :: "bytes \<Rightarrow> bool" where
  "crlf_free line \<longleftrightarrow> find_sub (line @ [CR]) [CR, LF] = None"

lemma crlf_free_Cons: "crlf_free (b # line) \<longleftrightarrow> \<not> (b = CR \<and> (\<exists>z. line = LF # z)) \<and> crlf_free line"
  by (cases line) (auto simp: crlf_free_def byte_consts)

lemma find_crlf_split:
  "find_sub h [CR, LF] = Some i \<Longrightarrow> \<exists>line z. h = line @ [CR, LF] @ z \<and> length line = i \<and> crlf_free line"
proof (induction h arbitrary: i)
  case (Cons x h)
  show ?case
  proof (cases "take 2 (x # h) = [CR, LF]")
    case True
    then have "x # h = [] @ [CR, LF] @ drop 2 (x # h)" using append_take_drop_id [of 2 "x # h"] by simp
    moreover have "i = 0" using True Cons.prems by simp
    ultimately show ?thesis by (intro exI [of _ "[]"] exI [of _ "drop 2 (x # h)"]) (simp add: crlf_free_def byte_consts)
  next
    case False
    then obtain k where k: "find_sub h [CR, LF] = Some k" "i = Suc k" using Cons.prems by auto
    then obtain line z where "h = line @ [CR, LF] @ z" "length line = k" "crlf_free line" using Cons.IH by blast
    moreover have "crlf_free (x # line)"
      using calculation False by (cases line) (auto simp: crlf_free_Cons)
    ultimately show ?thesis using k by (intro exI [of _ "x # line"] exI [of _ z]) simp
  qed
qed simp

lemma find_crlf_None: "find_sub (l @ [CR, LF] @ z) [CR, LF] \<noteq> None"
  by (induction l) auto

lemma crlf_split_unique:
  "crlf_free line \<Longrightarrow> CR \<notin> set l \<Longrightarrow> line @ [CR, LF] @ w = l @ [CR, LF] @ z \<Longrightarrow> l = line \<and> z = w"
proof (induction l arbitrary: line)
  case Nil
  then show ?case by (cases line) (auto simp: crlf_free_Cons append_eq_Cons_conv byte_consts)
next
  case (Cons b l)
  then show ?case by (cases line) (auto simp: crlf_free_Cons)
qed

section \<open>Sequences of lines\<close>

definition terminated :: "bytes list \<Rightarrow> bytes" where
  "terminated lines = concat (map (\<lambda>l. l @ [CR, LF]) lines)"

lemma terminated_simps [simp]: "terminated [] = []" "terminated (l # lines) = l @ [CR, LF] @ terminated lines"
  by (simp_all add: terminated_def)

lemma first_split_unique: "c \<notin> set n \<Longrightarrow> c \<notin> set n' \<Longrightarrow> n @ c # v = n' @ c # v' \<Longrightarrow> n = n' \<and> v = v'"
proof (induction n arbitrary: n')
  case Nil
  then show ?case by (cases n') auto
next
  case (Cons x n)
  then show ?case by (cases n') auto
qed

end
