(* ===== verification/Http_Chunked_Grammar.thy ===== *)
theory Http_Chunked_Grammar
  imports Http_Chunked Http_Lines
begin

text \<open>
  The language of the chunked coding, declaratively: size lines with their extensions, chunks, the
  trailer section and whole messages, over the limits of the decoder. \<open>message lim policy w B T R\<close> says that
  the stream \<open>w\<close> starts with one encoded message with body \<open>B\<close> and trailer fields \<open>T\<close>, after which \<open>R\<close>
  follows.
\<close>

section \<open>Size lines\<close>

definition is_hex :: "byte \<Rightarrow> bool" where
  "is_hex b \<longleftrightarrow> hex_digit_value b \<noteq> None"

definition hex_val :: "nat \<Rightarrow> bytes \<Rightarrow> nat" where
  "hex_val v ds = foldl (\<lambda>n d. n * 16 + the (hex_digit_value d)) v ds"

text \<open>The inside of a quoted string, the items of one extension, and a sequence of extensions.\<close>

inductive quoted_text :: "bytes \<Rightarrow> bool" where
  quoted_nil: "quoted_text []"
| quoted_plain: "b \<notin> {CR, LF, BSLASH, DQUOTE} \<Longrightarrow> quoted_text q \<Longrightarrow> quoted_text (b # q)"
| quoted_pair: "b \<notin> {CR, LF} \<Longrightarrow> quoted_text q \<Longrightarrow> quoted_text (BSLASH # b # q)"

inductive ext_items :: "bytes \<Rightarrow> bool" where
  items_nil: "ext_items []"
| items_top: "is_ext_top_byte b \<Longrightarrow> ext_items e \<Longrightarrow> ext_items (b # e)"
| items_quoted: "quoted_text q \<Longrightarrow> ext_items e \<Longrightarrow> ext_items (DQUOTE # q @ DQUOTE # e)"

inductive chunk_exts :: "bytes \<Rightarrow> bool" where
  exts_nil: "chunk_exts []"
| exts_ext: "ext_items i \<Longrightarrow> i \<noteq> [] \<Longrightarrow> chunk_exts e \<Longrightarrow> chunk_exts (CHR '';'' # i @ e)"

text \<open>The carriage return is counted with the extensions when there are any.\<close>

definition size_line :: "http_limits \<Rightarrow> bytes \<Rightarrow> nat \<Rightarrow> bool" where
  "size_line lim z n \<longleftrightarrow>
     (\<exists>ds e. z = ds @ e @ [CR, LF] \<and> 1 \<le> length ds \<and> length ds \<le> 16 \<and> list_all is_hex ds \<and> n = hex_val 0 ds \<and>
       chunk_exts e \<and> (e \<noteq> [] \<longrightarrow> length e + 1 \<le> max_chunk_ext_bytes lim))"

section \<open>Trailer sections\<close>

text \<open>A trailer line is a name, a colon and a value; the field it stands for.\<close>

definition line_field :: "underscore_policy \<Rightarrow> bytes \<Rightarrow> bytes \<Rightarrow> bytes \<times> bytes \<times> field_flags" where
  "line_field policy name v = (canonical_name policy name, trim_ows v, mapped_flags (CHR ''_'' \<in> set name))"

definition trailer_line ::
  "http_limits \<Rightarrow> underscore_policy \<Rightarrow> bytes \<Rightarrow> bytes \<times> bytes \<times> field_flags \<Rightarrow> bool" where
  "trailer_line lim policy line f \<longleftrightarrow>
     (\<exists>name v. line = name @ CHR '':'' # v \<and> f = line_field policy name v \<and>
        name_ok (canonical_name policy name) \<and> \<not> (policy = UnderscorePolicy_Reject \<and> CHR ''_'' \<in> set name) \<and>
        value_ok v \<and> length name + length (trim_ows v) \<le> max_field_line_bytes lim \<and>
        length line + 2 \<le> max_field_line_bytes lim + 64 \<and>
        \<not> trailer_denied (classify (canonical_name policy name)))"

definition field_size :: "bytes \<times> bytes \<times> field_flags \<Rightarrow> nat" where
  "field_size f = length (field_name f) + length (field_value f) + 32"

definition trailer_lines :: "http_limits \<Rightarrow> underscore_policy \<Rightarrow> bytes list \<Rightarrow> (bytes \<times> bytes \<times> field_flags) list \<Rightarrow> bool" where
  "trailer_lines lim policy = list_all2 (trailer_line lim policy)"

text \<open>The fields fit the limits when \<open>n\<close> fields of total size \<open>used\<close> come before them.\<close>

definition fields_fit :: "http_limits \<Rightarrow> nat \<Rightarrow> nat \<Rightarrow> (bytes \<times> bytes \<times> field_flags) list \<Rightarrow> bool" where
  "fields_fit lim n used fs \<longleftrightarrow>
     n + length fs \<le> max_field_count lim \<and> (fs \<noteq> [] \<longrightarrow> used + sum_list (map field_size fs) \<le> max_header_list_bytes lim)"

definition trailer_section ::
  "http_limits \<Rightarrow> underscore_policy \<Rightarrow> bytes \<Rightarrow> (bytes \<times> bytes \<times> field_flags) list \<Rightarrow> bytes \<Rightarrow> bool" where
  "trailer_section lim policy w fs R \<longleftrightarrow>
     (\<exists>lines. w = terminated lines @ [CR, LF] @ R \<and> trailer_lines lim policy lines fs \<and> fields_fit lim 0 0 fs \<and>
        one_provenance fs)"

section \<open>Messages\<close>

inductive message ::
  "http_limits \<Rightarrow> underscore_policy \<Rightarrow> bytes \<Rightarrow> bytes \<Rightarrow> (bytes \<times> bytes \<times> field_flags) list \<Rightarrow> bytes \<Rightarrow> bool"
  for lim policy where
  last_chunk: "size_line lim z 0 \<Longrightarrow> trailer_section lim policy w T R \<Longrightarrow> message lim policy (z @ w) [] T R"
| data_chunk: "size_line lim z (length dat) \<Longrightarrow> dat \<noteq> [] \<Longrightarrow> message lim policy w B T R \<Longrightarrow>
    message lim policy (z @ dat @ [CR, LF] @ w) (dat @ B) T R"

section \<open>Extensions by the decoder's automaton\<close>

fun ext_accepts :: "ext_mode \<Rightarrow> bytes \<Rightarrow> bool" where
  "ext_accepts mode [] \<longleftrightarrow> mode = Ext_TopLevel"
| "ext_accepts mode (b # e) = (case ext_byte mode b of Inr (Some m) \<Rightarrow> ext_accepts m e | _ \<Rightarrow> False)"

lemma top_byte_facts:
  assumes "is_ext_top_byte b"
  shows "b \<noteq> CR" "b \<noteq> LF" "b \<noteq> DQUOTE" "b \<noteq> CHR '';''"
  using assms
  by (auto simp: is_ext_top_byte_def byte_consts is_tchar_def is_ascii_alphanumeric_def is_ascii_digit_def
      is_ascii_uppercase_def is_ascii_lowercase_def)

lemma semicolon_facts [simp]:
  "CHR '';'' \<noteq> CR" "CHR '';'' \<noteq> LF" "CHR '';'' \<noteq> DQUOTE" "CHR '';'' \<noteq> BSLASH"
  "CR \<noteq> CHR '';''" "LF \<noteq> CHR '';''" "DQUOTE \<noteq> CHR '';''" "BSLASH \<noteq> CHR '';''"
  by (simp_all add: byte_consts)

text \<open>From a mode the automaton accepts the rest of a string, the rest of the items, and then extensions.\<close>

lemma quoted_accepts: "quoted_text q \<Longrightarrow> ext_accepts Ext_Quoted (q @ DQUOTE # e) = ext_accepts Ext_TopLevel e"
  by (induction q rule: quoted_text.induct) (auto simp: ext_byte_def)

lemma items_accepts:
  "ext_items i \<Longrightarrow> chunk_exts e \<Longrightarrow> ext_accepts Ext_TopLevel e \<Longrightarrow>
   ext_accepts Ext_TopLevel (i @ e) \<and> (i \<noteq> [] \<longrightarrow> ext_accepts Ext_AfterSemicolon (i @ e))"
proof (induction i rule: ext_items.induct)
  case (items_top b i)
  then show ?case using top_byte_facts [OF items_top.hyps(1)] by (simp add: ext_byte_def)
next
  case (items_quoted q i)
  then show ?case by (simp add: ext_byte_def quoted_accepts)
qed simp

lemma exts_accepts: "chunk_exts e \<Longrightarrow> ext_accepts Ext_TopLevel e"
proof (induction rule: chunk_exts.induct)
  case (exts_ext i e)
  then show ?case using items_accepts [OF exts_ext.hyps(1,3)] by (simp add: ext_byte_def)
qed simp

lemma accepts_shape:
  "(ext_accepts Ext_TopLevel w \<longrightarrow> (\<exists>i e. w = i @ e \<and> ext_items i \<and> chunk_exts e)) \<and>
   (ext_accepts Ext_AfterSemicolon w \<longrightarrow> (\<exists>i e. w = i @ e \<and> ext_items i \<and> i \<noteq> [] \<and> chunk_exts e)) \<and>
   (ext_accepts Ext_Quoted w \<longrightarrow> (\<exists>q i e. w = q @ DQUOTE # i @ e \<and> quoted_text q \<and> ext_items i \<and> chunk_exts e)) \<and>
   (ext_accepts Ext_QuotedEscaped w \<longrightarrow>
      (\<exists>b q i e. w = b # q @ DQUOTE # i @ e \<and> b \<notin> {CR, LF} \<and> quoted_text q \<and> ext_items i \<and> chunk_exts e))"
proof (induction w)
  case Nil
  then show ?case using exts_nil items_nil by auto
next
  case (Cons b w)
  have top: "\<exists>i e. b # w = i @ e \<and> ext_items i \<and> i \<noteq> [] \<and> chunk_exts e"
    if "is_ext_top_byte b" "ext_accepts Ext_TopLevel w"
    using Cons.IH that items_top by (metis append_Cons list.distinct(1))
  have quo: "\<exists>i e. b # w = i @ e \<and> ext_items i \<and> i \<noteq> [] \<and> chunk_exts e"
    if "b = DQUOTE" "ext_accepts Ext_Quoted w"
  proof -
    from Cons.IH that(2) obtain q i e where "w = q @ DQUOTE # i @ e" "quoted_text q" "ext_items i" "chunk_exts e" by blast
    with that(1) items_quoted [of q i] show ?thesis by (intro exI [of _ "DQUOTE # q @ DQUOTE # i"] exI [of _ e]) simp
  qed
  have semi: "\<exists>i e. b # w = i @ e \<and> ext_items i \<and> chunk_exts e"
    if "b = CHR '';''" "ext_accepts Ext_AfterSemicolon w"
  proof -
    from Cons.IH that(2) obtain i e where "w = i @ e" "ext_items i" "i \<noteq> []" "chunk_exts e" by blast
    with that(1) exts_ext [of i e] items_nil show ?thesis by (intro exI [of _ "[]"] exI [of _ "b # w"]) simp
  qed
  have plain: "\<exists>q i e. b # w = q @ DQUOTE # i @ e \<and> quoted_text q \<and> ext_items i \<and> chunk_exts e"
    if "b \<notin> {CR, LF, BSLASH, DQUOTE}" "ext_accepts Ext_Quoted w"
    using Cons.IH that quoted_plain by (metis append_Cons)
  have close: "\<exists>q i e. b # w = q @ DQUOTE # i @ e \<and> quoted_text q \<and> ext_items i \<and> chunk_exts e"
    if "b = DQUOTE" "ext_accepts Ext_TopLevel w"
    using Cons.IH that quoted_nil by (metis append_Nil)
  have esc: "\<exists>q i e. b # w = q @ DQUOTE # i @ e \<and> quoted_text q \<and> ext_items i \<and> chunk_exts e"
    if "b = BSLASH" "ext_accepts Ext_QuotedEscaped w"
    using Cons.IH that quoted_pair by (metis append_Cons)
  have "ext_accepts Ext_TopLevel (b # w) \<Longrightarrow> \<exists>i e. b # w = i @ e \<and> ext_items i \<and> chunk_exts e"
    using top quo semi by (auto simp: ext_byte_def split: if_splits)
  moreover have "ext_accepts Ext_AfterSemicolon (b # w) \<Longrightarrow> \<exists>i e. b # w = i @ e \<and> ext_items i \<and> i \<noteq> [] \<and> chunk_exts e"
    using top quo by (auto simp: ext_byte_def split: if_splits)
  moreover have "ext_accepts Ext_Quoted (b # w) \<Longrightarrow>
      \<exists>q i e. b # w = q @ DQUOTE # i @ e \<and> quoted_text q \<and> ext_items i \<and> chunk_exts e"
    using plain close esc by (auto simp: ext_byte_def split: if_splits)
  moreover have "ext_accepts Ext_QuotedEscaped (b # w) \<Longrightarrow>
      \<exists>b' q i e. b # w = b' # q @ DQUOTE # i @ e \<and> b' \<notin> {CR, LF} \<and> quoted_text q \<and> ext_items i \<and> chunk_exts e"
    using Cons.IH by (auto simp: ext_byte_def split: if_splits)
  ultimately show ?case by blast
qed

text \<open>The automaton, entered after a semicolon, accepts exactly the extension sequences.\<close>

lemma chunk_exts_iff: "chunk_exts e \<longleftrightarrow> e = [] \<or> (\<exists>e'. e = CHR '';'' # e' \<and> ext_accepts Ext_AfterSemicolon e')"
proof
  assume "chunk_exts e"
  then show "e = [] \<or> (\<exists>e'. e = CHR '';'' # e' \<and> ext_accepts Ext_AfterSemicolon e')"
    using exts_accepts items_accepts by cases auto
next
  assume "e = [] \<or> (\<exists>e'. e = CHR '';'' # e' \<and> ext_accepts Ext_AfterSemicolon e')"
  then show "chunk_exts e"
  proof (elim disjE exE conjE)
    fix e' assume e: "e = CHR '';'' # e'" and "ext_accepts Ext_AfterSemicolon e'"
    then obtain i r where "e' = i @ r" "ext_items i" "i \<noteq> []" "chunk_exts r" using accepts_shape [of e'] by auto
    with e exts_ext show ?thesis by simp
  qed (simp add: exts_nil)
qed

end
