(* ===== verification/Http_Chunked_States.thy ===== *)
theory Http_Chunked_States
  imports Http_Chunked_Grammar
begin

text \<open>
  What each state of the decoder still expects. \<open>pending d a w B T R\<close> says that from decoder state \<open>d\<close> (with
  arena \<open>a\<close>) the stream \<open>w\<close> completes a message, delivering the rest \<open>B\<close> of the body and ending with trailer
  fields \<open>T\<close> before \<open>R\<close>. For a fresh decoder this is the grammar of messages; for every state it is related
  to the next byte by one equation.
\<close>

section \<open>Messages, one chunk at a time\<close>

definition after_line ::
  "http_limits \<Rightarrow> underscore_policy \<Rightarrow> nat \<Rightarrow> bytes \<Rightarrow> bytes \<Rightarrow> (bytes \<times> bytes \<times> field_flags) list \<Rightarrow> bytes \<Rightarrow> bool" where
  "after_line lim policy n w B T R \<longleftrightarrow>
     (if n = 0 then B = [] \<and> trailer_section lim policy w T R
      else (\<exists>dat B' w'. w = dat @ [CR, LF] @ w' \<and> length dat = n \<and> B = dat @ B' \<and> message lim policy w' B' T R))"

lemma message_iff:
  "message lim policy w B T R \<longleftrightarrow> (\<exists>z n w'. w = z @ w' \<and> size_line lim z n \<and> after_line lim policy n w' B T R)"
proof
  assume "message lim policy w B T R"
  then show "\<exists>z n w'. w = z @ w' \<and> size_line lim z n \<and> after_line lim policy n w' B T R"
  proof cases
    case (last_chunk z w')
    then show ?thesis by (auto simp: after_line_def)
  next
    case (data_chunk z dat w' B')
    then have "after_line lim policy (length dat) (dat @ [CR, LF] @ w') B T R" by (auto simp: after_line_def)
    with data_chunk show ?thesis by blast
  qed
next
  assume "\<exists>z n w'. w = z @ w' \<and> size_line lim z n \<and> after_line lim policy n w' B T R"
  then show "message lim policy w B T R"
    by (auto simp: after_line_def intro: last_chunk data_chunk [simplified] split: if_splits)
qed

section \<open>The trailer invariant\<close>

text \<open>The builder, its separate budget and the provenance of the names move together.\<close>

definition trailers_ok :: "http_limits \<Rightarrow> section_builder \<Rightarrow> header_list_budget \<Rightarrow> bytes \<Rightarrow> bool" where
  "trailers_ok lim b budget a \<longleftrightarrow>
     builder_ok b a \<and> b_limits b = lim \<and>
     one_provenance (iter (builder_view b a)) \<and>
     (b_mapped b \<longleftrightarrow> (\<exists>f \<in> set (iter (builder_view b a)). field_mapped f)) \<and>
     budget = \<lparr>hb_used = b_list_bytes b, hb_limit = max_header_list_bytes lim,
               hb_count = length (b_slots b), hb_max_count = max_field_count lim\<rparr>"

lemma trailers_ok_new:
  "is_clamped lim \<Longrightarrow> length a < 2 ^ 63 \<Longrightarrow> trailers_ok lim (builder_new a lim) (budget_new lim) a"
  by (simp add: trailers_ok_def builder_new_ok builder_new_iter one_provenance_def)
    (simp add: builder_new_def budget_new_def budget_with_limits_def)

lemma one_provenance_append:
  "one_provenance (fs @ [f]) \<longleftrightarrow>
     one_provenance fs \<and> (\<forall>g \<in> set fs. field_name g = field_name f \<longrightarrow> field_mapped g = field_mapped f)"
  unfolding one_provenance_def set_append by auto

lemma collision_provenance:
  assumes "trailers_ok lim b budget a"
  shows "\<not> underscore_collision b (a @ x) n m \<longleftrightarrow> one_provenance (iter (builder_view b a) @ [(n, v, mapped_flags m)])"
proof -
  have ok: "builder_ok b a" and one: "one_provenance (iter (builder_view b a))"
    and mapped: "b_mapped b \<longleftrightarrow> (\<exists>f \<in> set (iter (builder_view b a)). field_mapped f)"
    using assms by (simp_all add: trailers_ok_def)
  show ?thesis
    unfolding underscore_collision_eq [OF ok] one_provenance_append mapped using one by auto
qed

text \<open>The classification of the raw name is that of the canonical one.\<close>

lemma classify_trailer_name_eq:
  assumes "\<not> (policy = UnderscorePolicy_Reject \<and> CHR ''_'' \<in> set name)"
  shows "classify_trailer_name name policy = classify (canonical_name policy name)"
proof (cases "length name > 19")
  case True
  then show ?thesis by (simp add: classify_trailer_name_def MAX_DENIABLE_NAME_LEN_def classify_long)
next
  case False
  then show ?thesis
    using assms by (auto simp: classify_trailer_name_def MAX_DENIABLE_NAME_LEN_def normalize_name_into_eq get_range_def)
qed

section \<open>One trailer line\<close>

text \<open>The budget charge agrees with the builder's own admission.\<close>

lemma trailer_charge:
  assumes "trailers_ok lim b budget a"
  shows "fst (charge budget n v) = Inr () \<longleftrightarrow>
      length (b_slots b) < max_field_count lim \<and> b_list_bytes b + n + v + 32 \<le> max_header_list_bytes lim"
    and "charge budget n v = (Inr (), budget') \<Longrightarrow>
      budget' = budget\<lparr>hb_count := length (b_slots b) + 1, hb_used := b_list_bytes b + n + v + 32\<rparr>"
proof -
  have "is_clamped lim" using assms by (auto simp: trailers_ok_def builder_ok_def)
  then have u: "budget_u32 budget"
    using assms is_clampedD(1,3) [of lim] by (simp add: trailers_ok_def budget_u32_def u32_max_def)
  show "fst (charge budget n v) = Inr () \<longleftrightarrow>
      length (b_slots b) < max_field_count lim \<and> b_list_bytes b + n + v + 32 \<le> max_header_list_bytes lim"
    using charge_ok_iff [OF u, of n v] assms by (auto simp: trailers_ok_def entry_size_def)
  show "charge budget n v = (Inr (), budget') \<Longrightarrow>
      budget' = budget\<lparr>hb_count := length (b_slots b) + 1, hb_used := b_list_bytes b + n + v + 32\<rparr>"
    using charge_ok_state [OF u, of n v budget'] assms by (auto simp: trailers_ok_def entry_size_def)
qed

lemma push_normalized_counts:
  assumes ok: "builder_ok b a" and push: "push_normalized b a raw policy v version = (Inr (), b', a')"
  shows "length (b_slots b') = length (b_slots b) + 1" "b_list_bytes b' = b_list_bytes b + length raw + length v + 32"
    "b_limits b' = b_limits b"
proof -
  have "builder_admit b (length raw) (length v) = Inr (b\<lparr>b_list_bytes := b_list_bytes b + length raw + length v + 32\<rparr>)"
    using push_normalized_cases(2) [OF ok push refl refl] builder_admit_ok [OF ok] by simp
  then show "length (b_slots b') = length (b_slots b) + 1" "b_list_bytes b' = b_list_bytes b + length raw + length v + 32"
    "b_limits b' = b_limits b"
    using push by (auto simp: push_normalized_eq [OF ok refl refl] push_slot_def split: sum.splits if_splits)
qed

lemma trailer_field_split:
  assumes "CHR '':'' \<notin> set name" and "length (name @ CHR '':'' # v) < 2 ^ 63"
  shows "trailer_field lim policy (Some b) budget a (name @ CHR '':'' # v) = Inr (b', budget', a') \<longleftrightarrow>
    name \<noteq> [] \<and> \<not> is_ows (hd name) \<and> \<not> is_ows (last name) \<and> (\<forall>c \<in> set (name @ v). c \<noteq> CR \<and> c \<noteq> LF) \<and>
    length name + length (trim_ows v) \<le> max_field_line_bytes lim \<and>
    charge budget (length name) (length (trim_ows v)) = (Inr (), budget') \<and>
    push_normalized b a name policy (trim_ows v) Http11 = (Inr (), b', a') \<and>
    \<not> trailer_denied (classify_trailer_name name policy)"
proof -
  let ?line = "name @ CHR '':'' # v"
  have colon: "position (\<lambda>b. b = CHR '':'') ?line = Some (length name)"
    using assms(1) by (auto simp: position_Some_iff nth_append in_set_conv_nth)
  have sums: "sat_add (length name) 1 = length name + 1" "sat_add (length name) (length (trim_ows v)) = length name + length (trim_ows v)"
    using assms(2) length_trim_ows [of v] by (simp_all add: sat_add_def usize_max_def)
  have crlf: "position (\<lambda>b. b = CR \<or> b = LF) ?line = None \<longleftrightarrow> (\<forall>c \<in> set (name @ v). c \<noteq> CR \<and> c \<noteq> LF)"
    by (auto simp: position_None_iff byte_consts)
  show ?thesis
  proof (cases "name = []")
    case True
    then show ?thesis using colon by (auto simp: trailer_field_def split: option.splits)
  next
    case False
    then have "hd ?line = hd name" "?line ! (length name - 1) = last name"
      by (simp_all add: nth_append last_conv_nth)
    then show ?thesis
      using False colon sums crlf
      by (cases "position (\<lambda>b. b = CR \<or> b = LF) ?line"; cases "charge budget (length name) (length (trim_ows v))";
          cases "push_normalized b a name policy (trim_ows v) Http11")
        (auto simp: trailer_field_def Let_def split: sum.splits)
  qed
qed

definition line_fits ::
  "http_limits \<Rightarrow> underscore_policy \<Rightarrow> section_builder \<Rightarrow> bytes \<Rightarrow> bytes \<Rightarrow> bytes \<times> bytes \<times> field_flags \<Rightarrow> bool" where
  "line_fits lim policy b a line f \<longleftrightarrow>
     trailer_line lim policy line f \<and> fields_fit lim (length (b_slots b)) (b_list_bytes b) [f] \<and>
     one_provenance (iter (builder_view b a) @ [f])"

text \<open>The trailer code accepts exactly the trailer lines that fit, and appends their field.\<close>

lemma trailer_field_sound:
  assumes inv: "trailers_ok lim b budget a" and len: "length line + 2 \<le> max_field_line_bytes lim + 64"
    and field: "trailer_field lim policy (Some b) budget a line = Inr (b', budget', a')"
  shows "\<exists>f. line_fits lim policy b a line f \<and> trailers_ok lim b' budget' a' \<and>
    iter (builder_view b' a') = iter (builder_view b a) @ [f] \<and> length (b_slots b') = length (b_slots b) + 1 \<and>
    b_list_bytes b' = b_list_bytes b + field_size f \<and> b_base b' = b_base b"
proof -
  have ok: "builder_ok b a" and lim: "b_limits b = lim" "is_clamped lim"
    using inv by (auto simp: trailers_ok_def builder_ok_def)
  have short: "length line < 2 ^ 63" using len is_clampedD(2) [OF lim(2)] by simp
  from field obtain colon where "position (\<lambda>b. b = CHR '':'') line = Some colon"
    by (auto simp: trailer_field_def split: if_splits option.splits)
  then obtain name v where line: "line = name @ CHR '':'' # v" "CHR '':'' \<notin> set name"
    by (elim position_split) auto
  let ?n = "canonical_name policy name" and ?m = "CHR ''_'' \<in> set name" and ?v = "trim_ows v"
  note parts = trailer_field_split [OF line(2) short [unfolded line(1)], of lim policy b budget a b' budget' a']
  have p: "charge budget (length name) (length ?v) = (Inr (), budget')"
    "push_normalized b a name policy ?v Http11 = (Inr (), b', a')"
    "\<not> trailer_denied (classify_trailer_name name policy)" "length name + length ?v \<le> max_field_line_bytes lim"
    using field parts line(1) by auto
  note push = push_normalized_cases [OF ok p(2) refl refl]
  have vlen: "length v \<le> usize_max" using short line(1) by (simp add: usize_max_def)
  have fits: "length (b_slots b) < max_field_count lim" "b_list_bytes b + length name + length ?v + 32 \<le> max_header_list_bytes lim"
    "\<not> (policy = UnderscorePolicy_Reject \<and> ?m)" "name_ok ?n" "value_ok v" "\<not> underscore_collision b (a @ ?n) ?n ?m"
    using push(2) lim value_ok_trim [OF vlen] by auto
  let ?f = "line_field policy name v"
  have f: "?f = (?n, ?v, mapped_flags ?m)" by (simp add: line_field_def)
  have prov: "one_provenance (iter (builder_view b a) @ [?f])"
    using collision_provenance [OF inv] fits(6) f by metis
  have "trailer_line lim policy line ?f"
    unfolding trailer_line_def using line(1) fits p(3,4) len classify_trailer_name_eq [OF fits(3)] by auto
  with prov fits have line: "line_fits lim policy b a line ?f"
    by (simp add: line_fits_def fields_fit_def field_size_def f)
  have pushed: "builder_ok b' a'" "b_base b' = b_base b" "iter (builder_view b' a') = iter (builder_view b a) @ [?f]"
    using push(1) unfolding f pushed_def by auto
  have b': "length (b_slots b') = length (b_slots b) + 1" "b_list_bytes b' = b_list_bytes b + field_size ?f" "b_limits b' = lim"
    using push_normalized_counts [OF ok p(2)] lim by (auto simp: field_size_def f)
  have "trailers_ok lim b' budget' a'"
    using inv pushed b' prov push_normalized_mapped [OF ok p(2)] trailer_charge(2) [OF inv p(1)]
    unfolding trailers_ok_def by (auto simp: f field_size_def)
  with line pushed b' show ?thesis by blast
qed

lemma trailer_field_complete:
  assumes inv: "trailers_ok lim b budget a" and fits: "line_fits lim policy b a line f"
  shows "\<exists>x. trailer_field lim policy (Some b) budget a line = Inr x"
proof -
  have ok: "builder_ok b a" and lim: "b_limits b = lim" "is_clamped lim"
    using inv by (auto simp: trailers_ok_def builder_ok_def)
  obtain name v where line: "line = name @ CHR '':'' # v" and f: "f = line_field policy name v"
    and nm: "name_ok (canonical_name policy name)" "\<not> (policy = UnderscorePolicy_Reject \<and> CHR ''_'' \<in> set name)"
    and v: "value_ok v" and len: "length name + length (trim_ows v) \<le> max_field_line_bytes lim"
    and cap: "length line + 2 \<le> max_field_line_bytes lim + 64"
    and den: "\<not> trailer_denied (classify (canonical_name policy name))"
    using fits by (auto simp: line_fits_def trailer_line_def)
  have short: "length (name @ CHR '':'' # v) < 2 ^ 63" using cap is_clampedD(2) [OF lim(2)] line by simp
  have colon: "CHR '':'' \<notin> set name" using name_ok_bytes(5) [OF nm(1)] by blast
  have room: "length (b_slots b) < max_field_count lim"
    "b_list_bytes b + length name + length (trim_ows v) + 32 \<le> max_header_list_bytes lim"
    using fits by (auto simp: line_fits_def fields_fit_def field_size_def f line_field_def)
  obtain budget' where ch: "charge budget (length name) (length (trim_ows v)) = (Inr (), budget')"
    using trailer_charge(1) [OF inv, of "length name" "length (trim_ows v)"] room by (metis prod.collapse)
  obtain r b' a' where push: "push_normalized b a name policy (trim_ows v) Http11 = (r, b', a')" by (rule prod_cases3)
  have "value_ok (trim_ows v)" using v value_ok_trim [of v] short by (simp add: usize_max_def)
  moreover have "\<not> underscore_collision b (a @ canonical_name policy name) (canonical_name policy name) (CHR ''_'' \<in> set name)"
    unfolding collision_provenance [OF inv, where v = "trim_ows v"]
    using fits by (simp add: line_fits_def f line_field_def)
  ultimately have "r = Inr ()"
    using push_normalized_cases(2) [OF ok push refl refl] room nm len lim by (simp add: is_multiplexed_def)
  moreover have "name \<noteq> []" using nm(1) by (auto simp: name_ok_def canonical_name_def)
  moreover have "\<not> is_ows (hd name)" "\<not> is_ows (last name)"
    using name_ok_bytes(3,4) [OF nm(1)] \<open>name \<noteq> []\<close> unfolding is_ows_def by (metis hd_in_set, metis last_in_set)
  moreover have "\<forall>c \<in> set (name @ v). c \<noteq> CR \<and> c \<noteq> LF"
    using name_ok_bytes(1,2) [OF nm(1)] v unfolding value_ok_def set_append by blast
  moreover have "\<not> trailer_denied (classify_trailer_name name policy)"
    using den classify_trailer_name_eq [OF nm(2)] by simp
  ultimately have "trailer_field lim policy (Some b) budget a line = Inr (b', budget', a')"
    unfolding line trailer_field_split [OF colon short] using push ch len by blast
  then show ?thesis by blast
qed

lemma trailer_line_unique: "trailer_line lim policy line f \<Longrightarrow> trailer_line lim policy line g \<Longrightarrow> f = g"
proof -
  assume "trailer_line lim policy line f" "trailer_line lim policy line g"
  then obtain n v n' v' where line: "line = n @ CHR '':'' # v" "line = n' @ CHR '':'' # v'"
    and fg: "f = line_field policy n v" "g = line_field policy n' v'"
    and nm: "name_ok (canonical_name policy n)" "name_ok (canonical_name policy n')"
    unfolding trailer_line_def by blast
  have "CHR '':'' \<notin> set n" "CHR '':'' \<notin> set n'" using name_ok_bytes(5) nm by blast+
  moreover have "n @ CHR '':'' # v = n' @ CHR '':'' # v'" using line by simp
  ultimately have "n = n' \<and> v = v'" by (rule first_split_unique)
  with fg show "f = g" by simp
qed

text \<open>A trailer line holds neither a carriage return nor a line feed, and is not empty.\<close>

lemma trailer_line_bytes:
  assumes "trailer_line lim policy line f"
  shows "line \<noteq> []" "CR \<notin> set line" "LF \<notin> set line" "length line + 2 \<le> max_field_line_bytes lim + 64"
proof -
  obtain n v where line: "line = n @ CHR '':'' # v" "name_ok (canonical_name policy n)" "value_ok v"
    and len: "length line + 2 \<le> max_field_line_bytes lim + 64"
    using assms unfolding trailer_line_def by blast
  show "line \<noteq> []" "length line + 2 \<le> max_field_line_bytes lim + 64" using line(1) len by auto
  have "CHR '':'' \<noteq> CR" "CHR '':'' \<noteq> LF" by (simp_all add: byte_consts)
  then show "CR \<notin> set line" "LF \<notin> set line"
    using line name_ok_bytes(1,2) [OF line(2)] unfolding value_ok_def by auto
qed

section \<open>What the states expect\<close>

definition trailers_left ::
  "http_limits \<Rightarrow> underscore_policy \<Rightarrow> section_builder \<Rightarrow> bytes \<Rightarrow> bytes \<Rightarrow> (bytes \<times> bytes \<times> field_flags) list \<Rightarrow> bytes \<Rightarrow> bool" where
  "trailers_left lim policy b a w T R \<longleftrightarrow>
     (\<exists>lines fs. w = terminated lines @ [CR, LF] @ R \<and> trailer_lines lim policy lines fs \<and>
        fields_fit lim (length (b_slots b)) (b_list_bytes b) fs \<and> one_provenance (iter (builder_view b a) @ fs) \<and>
        T = iter (builder_view b a) @ fs)"

definition pending ::
  "chunked_decoder \<Rightarrow> bytes \<Rightarrow> bytes \<Rightarrow> bytes \<Rightarrow> (bytes \<times> bytes \<times> field_flags) list \<Rightarrow> bytes \<Rightarrow> bool" where
  "pending d a w B T R \<longleftrightarrow>
     (case d_state d of
        State_Size \<Rightarrow>
          (\<exists>ds e w'. w = ds @ e @ [CR, LF] @ w' \<and> list_all is_hex ds \<and> 1 \<le> d_size_digits d + length ds \<and>
             d_size_digits d + length ds \<le> 16 \<and> chunk_exts e \<and>
             (e \<noteq> [] \<longrightarrow> length e + 1 \<le> max_chunk_ext_bytes (d_limits d)) \<and>
             after_line (d_limits d) (d_underscores d) (hex_val (d_remaining d) ds) w' B T R)
      | State_Ext \<Rightarrow>
          (\<exists>e w'. w = e @ [CR, LF] @ w' \<and> ext_accepts (d_ext_mode d) e \<and>
             d_ext_bytes d + length e + 1 \<le> max_chunk_ext_bytes (d_limits d) \<and>
             after_line (d_limits d) (d_underscores d) (d_remaining d) w' B T R)
      | State_SizeCrlf \<Rightarrow> (\<exists>w'. w = LF # w' \<and> after_line (d_limits d) (d_underscores d) (d_remaining d) w' B T R)
      | State_Data \<Rightarrow>
          (\<exists>dat B' w'. w = dat @ [CR, LF] @ w' \<and> length dat = d_remaining d \<and> B = dat @ B' \<and>
             message (d_limits d) (d_underscores d) w' B' T R)
      | State_DataCrlf \<Rightarrow> (\<exists>w'. w = [CR, LF] @ w' \<and> message (d_limits d) (d_underscores d) w' B T R)
      | State_Trailers \<Rightarrow>
          (\<exists>b. d_builder d = Some b \<and> B = [] \<and> trailers_left (d_limits d) (d_underscores d) b a w T R)
      | State_Done \<Rightarrow> B = [] \<and> R = w \<and> (\<exists>s. d_trailers d = Some s \<and> T = iter s))"

text \<open>A fresh decoder expects a message.\<close>

lemma message_lines:
  "message lim policy w B T R \<longleftrightarrow>
     (\<exists>ds e w'. w = ds @ e @ [CR, LF] @ w' \<and> list_all is_hex ds \<and> 1 \<le> length ds \<and> length ds \<le> 16 \<and> chunk_exts e \<and>
        (e \<noteq> [] \<longrightarrow> length e + 1 \<le> max_chunk_ext_bytes lim) \<and> after_line lim policy (hex_val 0 ds) w' B T R)"
proof -
  have "message lim policy w B T R \<longleftrightarrow>
      (\<exists>ds e w' z n. z = ds @ e @ [CR, LF] \<and> n = hex_val 0 ds \<and> w = z @ w' \<and> list_all is_hex ds \<and> 1 \<le> length ds \<and>
        length ds \<le> 16 \<and> chunk_exts e \<and> (e \<noteq> [] \<longrightarrow> length e + 1 \<le> max_chunk_ext_bytes lim) \<and>
        after_line lim policy n w' B T R)"
    unfolding message_iff size_line_def by blast
  then show ?thesis by simp
qed

lemma pending_size_fresh:
  "d_state d = State_Size \<Longrightarrow> d_size_digits d = 0 \<Longrightarrow> d_remaining d = 0 \<Longrightarrow>
   pending d a w B T R \<longleftrightarrow> message (d_limits d) (d_underscores d) w B T R"
  unfolding message_lines by (simp add: pending_def)

lemma pending_new: "pending (decoder_new l policy) a w B T R \<longleftrightarrow> message l policy w B T R"
  by (subst pending_size_fresh) (simp_all add: decoder_new_def)

end
