(* ===== verification/Http_Chunked_Steps.thy ===== *)
theory Http_Chunked_Steps
  imports Http_Chunked_States
begin

text \<open>
  Every step of the decoder against what its state expects. The state invariant \<open>decoder_ok\<close> holds along
  the way, and one byte, one stretch of data or one trailer line read by the code turns the expectation of
  a state into that of the next, whatever bytes are still to come.
\<close>

section \<open>The state invariant\<close>

definition decoder_ok :: "chunked_decoder \<Rightarrow> bytes \<Rightarrow> bool" where
  "decoder_ok d a \<longleftrightarrow>
     is_clamped (d_limits d) \<and> (d_state d \<notin> {State_Trailers, State_Done} \<longrightarrow> d_trailer_scan d = 0) \<and>
     (case d_state d of
        State_Size \<Rightarrow> length a < 2 ^ 63 \<and> d_size_digits d \<le> 16 \<and> d_remaining d < 16 ^ d_size_digits d
      | State_Ext \<Rightarrow> length a < 2 ^ 63 \<and> d_ext_bytes d \<le> max_chunk_ext_bytes (d_limits d) + 1
      | State_SizeCrlf \<Rightarrow> length a < 2 ^ 63
      | State_Data \<Rightarrow> length a < 2 ^ 63 \<and> 0 < d_remaining d \<and> d_size_digits d = 0
      | State_DataCrlf \<Rightarrow> length a < 2 ^ 63 \<and> d_remaining d = 0 \<and> d_size_digits d = 0
      | State_Trailers \<Rightarrow> (\<exists>b. d_builder d = Some b \<and> trailers_ok (d_limits d) b (d_budget d) a)
      | State_Done \<Rightarrow> length a < 2 ^ 63 \<and> (\<exists>s. d_trailers d = Some s \<and> section_ok s))"

lemma decoder_new_ok: "is_clamped l \<Longrightarrow> length a < 2 ^ 63 \<Longrightarrow> decoder_ok (decoder_new l policy) a"
  by (simp add: decoder_ok_def decoder_new_def)

section \<open>One byte of the size line\<close>

lemma hex_digit_less: "hex_digit_value b = Some v \<Longrightarrow> v < 16"
  by (auto simp: hex_digit_value_def split: if_splits)

lemma not_hex [simp]: "\<not> is_hex CHR '';''" "\<not> is_hex CR" "\<not> is_hex LF"
  by (simp_all add: is_hex_def hex_digit_value_def byte_consts)

lemma accept_size_digit_eq:
  assumes "decoder_ok d a" and "d_state d = State_Size"
  shows "accept_size_digit d b =
    (case hex_digit_value b of
       None \<Rightarrow> Inl ChunkSizeInvalid
     | Some v \<Rightarrow> if d_size_digits d = 16 then Inl ChunkSizeOverflow
               else Inr (d\<lparr>d_size_digits := d_size_digits d + 1, d_remaining := d_remaining d * 16 + v\<rparr>))"
proof (cases "hex_digit_value b")
  case (Some v)
  have inv: "d_size_digits d \<le> 16" "d_remaining d < 16 ^ d_size_digits d" using assms by (simp_all add: decoder_ok_def)
  have "d_remaining d * 16 + v \<le> u64_max" if "d_size_digits d < 16"
  proof -
    have "(16 :: nat) ^ d_size_digits d \<le> 16 ^ 15" using that by (intro power_increasing) auto
    then show ?thesis using inv(2) hex_digit_less [OF Some] by (simp add: u64_max_def)
  qed
  then show ?thesis
    using inv(1) Some by (auto simp: accept_size_digit_def MAX_SIZE_DIGITS_def push_digit64_eq Let_def)
qed (simp add: accept_size_digit_def)

lemma accept_size_digit_ok:
  assumes "decoder_ok d a" and "d_state d = State_Size" and "accept_size_digit d b = Inr d'"
  shows "decoder_ok d' a \<and> d_state d' = State_Size \<and> d_size_digits d' = d_size_digits d + 1"
proof -
  obtain v where v: "hex_digit_value b = Some v" "d_size_digits d < 16"
    and d': "d' = d\<lparr>d_size_digits := d_size_digits d + 1, d_remaining := d_remaining d * 16 + v\<rparr>"
    using assms(3) assms(1,2) unfolding accept_size_digit_eq [OF assms(1,2)]
    by (auto simp: decoder_ok_def split: option.splits if_splits)
  then show ?thesis using assms(1,2) hex_digit_less [OF v(1)] by (simp add: decoder_ok_def)
qed

lemma pending_size_Nil: "d_state d = State_Size \<Longrightarrow> \<not> pending d a [] B T R"
  by (simp add: pending_def)

lemma pending_sizeI:
  assumes "d_state d = State_Size" and "w = ds @ e @ [CR, LF] @ w'" and "list_all is_hex ds"
    and "1 \<le> d_size_digits d + length ds" and "d_size_digits d + length ds \<le> 16" and "chunk_exts e"
    and "e \<noteq> [] \<longrightarrow> length e + 1 \<le> max_chunk_ext_bytes (d_limits d)"
    and "after_line (d_limits d) (d_underscores d) (hex_val (d_remaining d) ds) w' B T R"
  shows "pending d a w B T R"
  using assms unfolding pending_def by auto

lemma pending_size_forward:
  assumes ok: "decoder_ok d a" and st: "d_state d = State_Size" and p: "pending d a (b # w) B T R"
  shows "if b = CHR '';'' then d_size_digits d \<noteq> 0 \<and>
       pending (d\<lparr>d_ext_bytes := 1, d_ext_mode := Ext_AfterSemicolon, d_state := State_Ext\<rparr>) a w B T R
     else if b = CR then d_size_digits d \<noteq> 0 \<and> pending (d\<lparr>d_state := State_SizeCrlf\<rparr>) a w B T R
     else (case accept_size_digit d b of Inl _ \<Rightarrow> False | Inr d' \<Rightarrow> pending d' a w B T R)"
proof -
  obtain ds e w' where w: "b # w = ds @ e @ [CR, LF] @ w'" and hex: "list_all is_hex ds"
    and n: "1 \<le> d_size_digits d + length ds" "d_size_digits d + length ds \<le> 16" and e: "chunk_exts e"
    "e \<noteq> [] \<longrightarrow> length e + 1 \<le> max_chunk_ext_bytes (d_limits d)"
    and rest: "after_line (d_limits d) (d_underscores d) (hex_val (d_remaining d) ds) w' B T R"
    using st p by (auto simp: pending_def)
  show ?thesis
  proof (cases ds)
    case (Cons c ds')
    then have b: "c = b" "is_hex b" "b \<noteq> CHR '';''" "b \<noteq> CR" and w: "w = ds' @ e @ [CR, LF] @ w'" "list_all is_hex ds'"
      using w hex by (auto dest: arg_cong [of _ _ is_hex])
    obtain v where "hex_digit_value b = Some v" using b(2) by (auto simp: is_hex_def)
    then show ?thesis
      using b w n e rest Cons st by (auto simp: accept_size_digit_eq [OF ok st] pending_def hex_val_def)
  next
    case Nil
    show ?thesis
    proof (cases "e = []")
      case True
      then show ?thesis using Nil w n rest by (auto simp: pending_def hex_val_def)
    next
      case False
      then obtain e' where "e = CHR '';'' # e'" "ext_accepts Ext_AfterSemicolon e'" using e(1) by (auto simp: chunk_exts_iff)
      then show ?thesis using Nil w n e rest by (auto simp: pending_def hex_val_def)
    qed
  qed
qed

lemma pending_size_Cons:
  assumes ok: "decoder_ok d a" and st: "d_state d = State_Size"
  shows "pending d a (b # w) B T R \<longleftrightarrow>
    (if b = CHR '';'' then d_size_digits d \<noteq> 0 \<and>
       pending (d\<lparr>d_ext_bytes := 1, d_ext_mode := Ext_AfterSemicolon, d_state := State_Ext\<rparr>) a w B T R
     else if b = CR then d_size_digits d \<noteq> 0 \<and> pending (d\<lparr>d_state := State_SizeCrlf\<rparr>) a w B T R
     else (case accept_size_digit d b of Inl _ \<Rightarrow> False | Inr d' \<Rightarrow> pending d' a w B T R))"
    (is "_ \<longleftrightarrow> ?next")
proof
  assume nx: ?next
  have digits: "d_size_digits d \<le> 16" using ok st by (simp add: decoder_ok_def)
  consider (semi) "b = CHR '';''" | (cr) "b = CR" | (digit) "b \<noteq> CHR '';''" "b \<noteq> CR" by blast
  then show "pending d a (b # w) B T R"
  proof cases
    case semi
    then obtain e w' where "w = e @ [CR, LF] @ w'" "ext_accepts Ext_AfterSemicolon e" "1 + length e + 1 \<le> max_chunk_ext_bytes (d_limits d)"
      "after_line (d_limits d) (d_underscores d) (d_remaining d) w' B T R" "d_size_digits d \<noteq> 0"
      using nx by (auto simp: pending_def)
    then show ?thesis
      using semi digits by (intro pending_sizeI [OF st, of _ "[]" "CHR '';'' # e" w']) (auto simp: hex_val_def chunk_exts_iff)
  next
    case cr
    then obtain w' where "w = LF # w'" "after_line (d_limits d) (d_underscores d) (d_remaining d) w' B T R" "d_size_digits d \<noteq> 0"
      using nx by (auto simp: pending_def)
    then show ?thesis
      using cr digits by (intro pending_sizeI [OF st, of _ "[]" "[]" w']) (auto simp: hex_val_def intro: exts_nil)
  next
    case digit
    then obtain v where v: "hex_digit_value b = Some v" "d_size_digits d \<noteq> 16"
      and p: "pending (d\<lparr>d_size_digits := d_size_digits d + 1, d_remaining := d_remaining d * 16 + v\<rparr>) a w B T R"
      using nx by (auto simp: accept_size_digit_eq [OF ok st] split: option.splits if_splits)
    from p obtain ds e w' where "w = ds @ e @ [CR, LF] @ w'" "list_all is_hex ds" "d_size_digits d + 1 + length ds \<le> 16"
      "chunk_exts e" "e \<noteq> [] \<longrightarrow> length e + 1 \<le> max_chunk_ext_bytes (d_limits d)"
      "after_line (d_limits d) (d_underscores d) (hex_val (d_remaining d * 16 + v) ds) w' B T R"
      using st by (auto simp: pending_def)
    then show ?thesis
      using v by (intro pending_sizeI [OF st, of _ "b # ds" e w']) (auto simp: hex_val_def is_hex_def)
  qed
qed (rule pending_size_forward [OF ok st])

section \<open>One byte of an extension, the end of the line\<close>

lemma ext_byte_None: "ext_byte mode b = Inr None \<longleftrightarrow> mode = Ext_TopLevel \<and> b = CR"
  by (cases mode) (auto simp: ext_byte_def)

lemma pending_ext_Nil: "d_state d = State_Ext \<Longrightarrow> \<not> pending d a [] B T R"
  by (simp add: pending_def)

lemma pending_extI:
  assumes "d_state d = State_Ext" and "w = e @ [CR, LF] @ w'" and "ext_accepts (d_ext_mode d) e"
    and "d_ext_bytes d + length e + 1 \<le> max_chunk_ext_bytes (d_limits d)"
    and "after_line (d_limits d) (d_underscores d) (d_remaining d) w' B T R"
  shows "pending d a w B T R"
  using assms unfolding pending_def by auto

lemma pending_ext_Cons:
  assumes "d_state d = State_Ext"
  shows "pending d a (b # w) B T R \<longleftrightarrow>
    d_ext_bytes d + 1 \<le> max_chunk_ext_bytes (d_limits d) \<and>
    (case ext_byte (d_ext_mode d) b of
       Inl _ \<Rightarrow> False
     | Inr None \<Rightarrow> pending (d\<lparr>d_ext_bytes := d_ext_bytes d + 1, d_state := State_SizeCrlf\<rparr>) a w B T R
     | Inr (Some m) \<Rightarrow> pending (d\<lparr>d_ext_bytes := d_ext_bytes d + 1, d_ext_mode := m\<rparr>) a w B T R)"
    (is "_ \<longleftrightarrow> ?next")
proof
  assume "pending d a (b # w) B T R"
  then obtain e w' where e: "b # w = e @ [CR, LF] @ w'" "ext_accepts (d_ext_mode d) e"
    "d_ext_bytes d + length e + 1 \<le> max_chunk_ext_bytes (d_limits d)"
    "after_line (d_limits d) (d_underscores d) (d_remaining d) w' B T R"
    using assms by (auto simp: pending_def)
  show ?next
  proof (cases e)
    case Nil
    then show ?thesis using e by (auto simp: pending_def ext_byte_def)
  next
    case (Cons c e')
    then show ?thesis using e assms by (auto simp: pending_def split: sum.splits option.splits)
  qed
next
  assume nx: ?next
  show "pending d a (b # w) B T R"
  proof (cases "ext_byte (d_ext_mode d) b = Inr None")
    case True
    then have b: "d_ext_mode d = Ext_TopLevel" "b = CR" by (simp_all add: ext_byte_None)
    obtain w' where "w = LF # w'" "after_line (d_limits d) (d_underscores d) (d_remaining d) w' B T R"
      using nx True by (auto simp: pending_def)
    with b nx show ?thesis by (intro pending_extI [OF assms, of _ "[]" w']) simp_all
  next
    case False
    then obtain m where m: "ext_byte (d_ext_mode d) b = Inr (Some m)" using nx by (auto split: sum.splits option.splits)
    then obtain e w' where "w = e @ [CR, LF] @ w'" "ext_accepts m e"
      "d_ext_bytes d + 1 + length e + 1 \<le> max_chunk_ext_bytes (d_limits d)"
      "after_line (d_limits d) (d_underscores d) (d_remaining d) w' B T R"
      using nx assms by (auto simp: pending_def)
    with m show ?thesis by (intro pending_extI [OF assms, of _ "b # e" w']) simp_all
  qed
qed

lemma trailer_section_new:
  "trailer_section lim policy w T R \<longleftrightarrow> trailers_left lim policy (builder_new a lim) a w T R"
  unfolding trailer_section_def trailers_left_def builder_new_iter by (auto simp: builder_new_def)

lemma pending_crlf_Cons:
  assumes "d_state d = State_SizeCrlf"
  shows "pending d a (b # w) B T R \<longleftrightarrow> b = LF \<and>
    pending (if d_remaining d = 0
       then d\<lparr>d_builder := Some (builder_new a (d_limits d)), d_budget := budget_new (d_limits d), d_state := State_Trailers\<rparr>
       else d\<lparr>d_ext_bytes := 0, d_size_digits := 0, d_state := State_Data\<rparr>) a w B T R"
  using assms by (auto simp: pending_def after_line_def trailer_section_new [of _ _ _ _ _ a])

lemma pending_crlf_Nil: "d_state d = State_SizeCrlf \<Longrightarrow> \<not> pending d a [] B T R"
  by (simp add: pending_def)

section \<open>Chunk data and its terminator\<close>

lemma pending_data:
  assumes "d_state d = State_Data" and "length dat \<le> d_remaining d"
  shows "pending d a (dat @ w) B T R \<longleftrightarrow>
    (\<exists>B'. B = dat @ B' \<and>
       pending (d\<lparr>d_remaining := d_remaining d - length dat, d_delivered := n,
          d_state := (if d_remaining d - length dat = 0 then State_DataCrlf else State_Data)\<rparr>) a w B' T R)"
    (is "_ \<longleftrightarrow> (\<exists>B'. _ \<and> pending ?d' a w B' T R)")
proof -
  have split: "dat @ w = full @ [CR, LF] @ w' \<and> length full = d_remaining d \<longleftrightarrow>
      (\<exists>more. full = dat @ more \<and> w = more @ [CR, LF] @ w' \<and> length more = d_remaining d - length dat)" for full w'
    using assms(2) append_take_drop_id [of "length dat" full]
    by (auto simp: append_eq_append_conv_if intro!: exI [of _ "drop (length dat) full"] simp del: append_take_drop_id)
  have "pending d a (dat @ w) B T R \<longleftrightarrow>
      (\<exists>full B' w'. (dat @ w = full @ [CR, LF] @ w' \<and> length full = d_remaining d) \<and> B = full @ B' \<and>
         message (d_limits d) (d_underscores d) w' B' T R)"
    using assms(1) by (simp add: pending_def)
  also have "\<dots> \<longleftrightarrow> (\<exists>B1. B = dat @ B1 \<and> (\<exists>more B' w'. w = more @ [CR, LF] @ w' \<and>
      length more = d_remaining d - length dat \<and> B1 = more @ B' \<and> message (d_limits d) (d_underscores d) w' B' T R))"
    unfolding split by (metis append_assoc)
  also have "\<dots> \<longleftrightarrow> (\<exists>B'. B = dat @ B' \<and> pending ?d' a w B' T R)"
    by (simp add: pending_def)
  finally show ?thesis .
qed

lemma pending_data_Nil: "d_state d = State_Data \<Longrightarrow> \<not> pending d a [] B T R"
  by (simp add: pending_def)

lemma pending_data_crlf:
  assumes "decoder_ok d a" and "d_state d = State_DataCrlf"
  shows "pending d a (CR # LF # w) B T R \<longleftrightarrow> pending (d\<lparr>d_state := State_Size\<rparr>) a w B T R"
    and "pending d a w B T R \<Longrightarrow> \<exists>w'. w = CR # LF # w'"
  using assms pending_size_fresh [of "d\<lparr>d_state := State_Size\<rparr>" a w B T R]
  by (auto simp: decoder_ok_def) (auto simp: pending_def)

end
