(* ===== verification/Http_Chunked_Moves.thy ===== *)
theory Http_Chunked_Moves
  imports Http_Chunked_Steps
begin

text \<open>
  What one call of the decoder does to the stream: the bytes it consumes move the expectation of its state
  to that of the state it leaves, the bytes of a data event are the next bytes of the body, a refusal means
  that no continuation of the input is a message (or that the scan budget of the trailers is spent), and a
  call that asks for more input does so only when the buffer alone cannot complete the message.
\<close>

section \<open>Moves\<close>

definition moves :: "chunked_decoder \<Rightarrow> bytes \<Rightarrow> bytes \<Rightarrow> chunked_decoder \<Rightarrow> bytes \<Rightarrow> bytes \<Rightarrow> bool" where
  "moves d a x d' a' out \<longleftrightarrow>
     decoder_ok d' a' \<and> d_limits d' = d_limits d \<and>
     (\<forall>w B T R. pending d a (x @ w) B T R \<longleftrightarrow> (\<exists>B'. B = out @ B' \<and> pending d' a' w B' T R))"

definition stuck :: "chunked_decoder \<Rightarrow> bytes \<Rightarrow> bytes \<Rightarrow> bool" where
  "stuck d a x \<longleftrightarrow> (\<forall>w B T R. \<not> pending d a (x @ w) B T R)"

lemma moves_refl: "decoder_ok d a \<Longrightarrow> moves d a [] d a []"
  by (simp add: moves_def)

lemma moves_trans:
  assumes "moves d a x d1 a1 o1" and "moves d1 a1 y d2 a2 o2"
  shows "moves d a (x @ y) d2 a2 (o1 @ o2)"
proof -
  have "pending d a (x @ y @ w) B T R \<longleftrightarrow> (\<exists>B'. B = (o1 @ o2) @ B' \<and> pending d2 a2 w B' T R)" for w B T R
    using assms unfolding moves_def by (metis append_assoc)
  with assms show ?thesis unfolding moves_def by simp
qed

lemma moves_stuck: "moves d a x d' a' out \<Longrightarrow> stuck d' a' y \<Longrightarrow> stuck d a (x @ y)"
  unfolding moves_def stuck_def by (metis append_assoc)

lemma stuck_take: "stuck d a (take n x) \<Longrightarrow> stuck d a x"
  using append_take_drop_id [of n x] unfolding stuck_def by (metis append_assoc)

text \<open>The contract of one step: it consumes part of the buffer, and a step that lets the loop go on consumes something.\<close>

definition advances :: "chunked_decoder \<Rightarrow> bytes \<Rightarrow> bytes \<Rightarrow> nat \<Rightarrow> chunked_decoder \<Rightarrow> bytes \<Rightarrow> nat \<Rightarrow> bytes \<Rightarrow> bool" where
  "advances d a buf c d' a' c' out \<longleftrightarrow>
     c \<le> c' \<and> c' \<le> length buf \<and> moves d a (take (c' - c) (drop c buf)) d' a' out"

definition search_cap :: "chunked_decoder \<Rightarrow> nat" where
  "search_cap d = max_field_line_bytes (d_limits d) + TRAILER_SEARCH_CAP_SLACK"

definition waits :: "chunked_decoder \<Rightarrow> bytes \<Rightarrow> bytes \<Rightarrow> bool" where
  "waits d a r \<longleftrightarrow> (\<forall>B T R. \<not> pending d a r B T R) \<and> length r \<le> search_cap d"

definition step_ok ::
  "chunked_decoder \<Rightarrow> bytes \<Rightarrow> bytes \<Rightarrow> nat \<Rightarrow> reject_reason + step \<times> chunked_decoder \<times> nat \<Rightarrow> bool" where
  "step_ok d a buf c res \<longleftrightarrow>
     (case res of
        Inl e \<Rightarrow> stuck d a (drop c buf)
      | Inr (st, d', c') \<Rightarrow>
          advances d a buf c d' a c' [] \<and>
          (case st of Step_Continue \<Rightarrow> c < c' | Step_NeedMore \<Rightarrow> waits d' a (drop c' buf) | Step_Done \<Rightarrow> False))"

lemma advances_refl: "decoder_ok d a \<Longrightarrow> c \<le> length buf \<Longrightarrow> advances d a buf c d a c []"
  by (simp add: advances_def moves_refl)

lemma advances_trans:
  assumes "advances d a buf c d1 a1 c1 o1" and "advances d1 a1 buf c1 d2 a2 c2 o2"
  shows "advances d a buf c d2 a2 c2 (o1 @ o2)"
proof -
  have "take (c2 - c) (drop c buf) = take (c1 - c) (drop c buf) @ take (c2 - c1) (drop c1 buf)"
    using assms take_add [of "c1 - c" "c2 - c1" "drop c buf"] by (simp add: advances_def)
  then show ?thesis
    using assms moves_trans [of d a "take (c1 - c) (drop c buf)" d1 a1 o1 "take (c2 - c1) (drop c1 buf)" d2 a2 o2]
    by (simp add: advances_def)
qed

lemma advances_stuck:
  assumes "advances d a buf c d' a' c' out" and "stuck d' a' (drop c' buf)"
  shows "stuck d a (drop c buf)"
proof -
  have "drop c buf = take (c' - c) (drop c buf) @ drop c' buf"
    using assms(1) append_take_drop_id [of "c' - c" "drop c buf"] by (simp add: advances_def)
  then show ?thesis
    using assms moves_stuck [of d a "take (c' - c) (drop c buf)" d' a' out "drop c' buf"] by (simp add: advances_def)
qed

lemma step_ok_after:
  assumes adv: "advances d a buf c d1 a c1 []" and step: "step_ok d1 a buf c1 res"
  shows "step_ok d a buf c res"
proof (cases res)
  case (Inl e)
  then show ?thesis using step advances_stuck [OF adv] by (simp add: step_ok_def)
next
  case (Inr x)
  obtain st d' c' where x: "x = (st, d', c')" by (rule prod_cases3)
  have "advances d a buf c d' a c' []" using advances_trans [OF adv, of d' a c' "[]"] step Inr x by (simp add: step_ok_def)
  moreover have "c \<le> c1" using adv by (simp add: advances_def)
  ultimately show ?thesis using step Inr x by (cases st) (simp_all add: step_ok_def)
qed

text \<open>A step read off the shape of the rest of the buffer.\<close>

lemma advances_prefix:
  assumes "drop c buf = x @ y" and "c \<le> length buf" and "moves d a x d' a' out"
  shows "advances d a buf c d' a' (c + length x) out" and "drop (c + length x) buf = y"
proof -
  have "length buf - c = length x + length y" using arg_cong [OF assms(1), of length] by simp
  then show "advances d a buf c d' a' (c + length x) out" using assms by (simp add: advances_def)
  show "drop (c + length x) buf = y" using assms(1) by (metis add.commute append_eq_conv_conj drop_drop)
qed

section \<open>The size line\<close>

lemma size_digits_moves:
  assumes "decoder_ok d a" and "d_state d = State_Size" and "\<forall>b \<in> set ds. b \<noteq> CHR '';'' \<and> b \<noteq> CR"
  shows "case accept_size_digits d ds of
      Inl e \<Rightarrow> stuck d a ds
    | Inr d' \<Rightarrow> moves d a ds d' a [] \<and> d_state d' = State_Size \<and> d_size_digits d' = d_size_digits d + length ds"
  using assms
proof (induction ds arbitrary: d)
  case Nil
  then show ?case by (simp add: moves_refl)
next
  case (Cons b ds)
  then have b: "b \<noteq> CHR '';''" "b \<noteq> CR" by auto
  note cons = pending_size_Cons [OF Cons.prems(1,2), of b]
  show ?case
  proof (cases "accept_size_digit d b")
    case (Inl e)
    then show ?thesis using cons b by (simp add: stuck_def)
  next
    case (Inr d1)
    note ok = accept_size_digit_ok [OF Cons.prems(1,2) Inr]
    have "d_limits d1 = d_limits d" 
      using Inr unfolding accept_size_digit_eq [OF Cons.prems(1,2)] by (auto split: if_splits option.splits)
    then have m: "moves d a [b] d1 a []" using cons b Inr ok by (simp add: moves_def)
    show ?thesis
    proof (cases "accept_size_digits d1 ds")
      case (Inl e)
      then have "stuck d1 a ds" using Cons.IH [of d1] ok Cons.prems(3) by simp
      then show ?thesis using Inr Inl moves_stuck [OF m] by simp
    next
      case (Inr d2)
      then have "moves d1 a ds d2 a []" "d_state d2 = State_Size" "d_size_digits d2 = d_size_digits d1 + length ds"
        using Cons.IH [of d1] ok Cons.prems(3) by simp_all
      then show ?thesis using \<open>accept_size_digit d b = Inr d1\<close> Inr moves_trans [OF m] ok by fastforce
    qed
  qed
qed

lemma size_end_moves:
  assumes ok: "decoder_ok d a" and st: "d_state d = State_Size" and n: "d_size_digits d \<noteq> 0"
  shows "moves d a [CHR '';''] (d\<lparr>d_ext_bytes := 1, d_ext_mode := Ext_AfterSemicolon, d_state := State_Ext\<rparr>) a []"
    and "moves d a [CR] (d\<lparr>d_state := State_SizeCrlf\<rparr>) a []"
  using n ok st pending_size_Cons [OF ok st, of "CHR '';''"] pending_size_Cons [OF ok st, of CR]
  by (auto simp: moves_def decoder_ok_def byte_consts)

lemma size_end_stuck:
  assumes ok: "decoder_ok d a" and st: "d_state d = State_Size"
  shows "d_size_digits d = 0 \<Longrightarrow> stuck d a [CHR '';'']" "d_size_digits d = 0 \<Longrightarrow> stuck d a [CR]" "stuck d a [LF]"
proof -
  have "accept_size_digit d LF = Inl ChunkSizeInvalid"
    unfolding accept_size_digit_eq [OF ok st] by (simp add: hex_digit_value_def byte_consts)
  then show "d_size_digits d = 0 \<Longrightarrow> stuck d a [CHR '';'']" "d_size_digits d = 0 \<Longrightarrow> stuck d a [CR]" "stuck d a [LF]"
    using pending_size_Cons [OF ok st, of "CHR '';''"] pending_size_Cons [OF ok st, of CR] pending_size_Cons [OF ok st, of LF]
    by (auto simp: stuck_def byte_consts)
qed

lemma take_min_drop: "take (min (length xs - c) n) (drop c xs) = take n (drop c xs)"
  by (cases "length xs - c \<le> n") (simp_all add: min_def)

lemma step_size_boundary:
  assumes se: "finds_first se" and i: "position (\<lambda>x. x = CHR '';'' \<or> x = CR \<or> x = LF) (take SIZE_LINE_SCAN_CAP (drop c buf)) = Some i"
    and c: "c \<le> length buf" "length buf < 2 ^ 63"
  obtains ds b z where "drop c buf = ds @ b # z" and "\<forall>x \<in> set ds. x \<noteq> CHR '';'' \<and> x \<noteq> CR"
    and "b = CHR '';'' \<or> b = CR \<or> b = LF"
    and "step_size se d buf c = and_then (accept_size_digits d ds) (\<lambda>d1.
      if b = CHR '';'' then
        (if d_size_digits d1 = 0 then Inl ChunkSizeInvalid
         else Inr (Step_Continue,
           d1\<lparr>d_ext_bytes := 1, d_ext_mode := Ext_AfterSemicolon, d_state := State_Ext\<rparr>, c + length ds + 1))
      else if b = CR then
        (if d_size_digits d1 = 0 then Inl ChunkSizeInvalid
         else Inr (Step_Continue, d1\<lparr>d_state := State_SizeCrlf\<rparr>, c + length ds + 1))
      else Inl ChunkTerminatorInvalid)"
proof -
  obtain ds b z where r: "take SIZE_LINE_SCAN_CAP (drop c buf) = ds @ b # z" "length ds = i"
    and b: "b = CHR '';'' \<or> b = CR \<or> b = LF" and free: "\<forall>x \<in> set ds. \<not> (x = CHR '';'' \<or> x = CR \<or> x = LF)"
    using i by (rule position_split)
  have buf: "drop c buf = ds @ b # z @ drop SIZE_LINE_SCAN_CAP (drop c buf)"
    using r(1) append_take_drop_id [of SIZE_LINE_SCAN_CAP "drop c buf"] by simp
  have len: "c + length ds + 1 \<le> length buf" using arg_cong [OF buf, of length] c by simp
  have sums: "sat_add c (length ds) = c + length ds" "sat_add (c + length ds) 1 = c + length ds + 1"
    using len c by (simp_all add: sat_add_def usize_max_def)
  have w: "take (min (length (drop c buf)) SIZE_LINE_SCAN_CAP) (drop c buf) = ds @ b # z"
    using r(1) by (simp add: take_min_drop)
  have range: "get_range (ds @ b # z) 0 (length ds) = Some ds" by (simp add: get_range_def)
  have pos: "memchr3 se CHR '';'' CR LF (ds @ b # z) = Some (length ds)"
    using i r unfolding finds_first_memchr3 [OF se] by simp
  show thesis
  proof (rule that [OF buf _ b])
    show "\<forall>x \<in> set ds. x \<noteq> CHR '';'' \<and> x \<noteq> CR" using free by blast
  qed (unfold step_size_def Let_def w pos option.case range sums get_append_length option.inject, rule refl)
qed

lemma step_size_ok:
  assumes se: "finds_first se" and ok: "decoder_ok d a" and st: "d_state d = State_Size"
    and c: "c \<le> length buf" "length buf < 2 ^ 63"
  shows "step_ok d a buf c (step_size se d buf c)"
proof (cases "position (\<lambda>x. x = CHR '';'' \<or> x = CR \<or> x = LF) (take SIZE_LINE_SCAN_CAP (drop c buf))")
  case None
  let ?ds = "take SIZE_LINE_SCAN_CAP (drop c buf)"
  have free: "\<forall>b \<in> set ?ds. b \<noteq> CHR '';'' \<and> b \<noteq> CR" using None unfolding position_None_iff by blast
  note digits = size_digits_moves [OF ok st free]
  show ?thesis
  proof (cases "accept_size_digits d ?ds")
    case (Inl e)
    then have "stuck d a (drop c buf)" using digits by (auto intro: stuck_take [of d a SIZE_LINE_SCAN_CAP "drop c buf"])
    then show ?thesis using Inl None
      by (simp add: step_ok_def step_size_def Let_def finds_first_memchr3 [OF se] get_range_def take_min_drop)
  next
    case (Inr d')
    then have m: "moves d a ?ds d' a []" "d_state d' = State_Size" "d_size_digits d' = d_size_digits d + length ?ds"
      using digits by simp_all
    then have "d_size_digits d + length ?ds \<le> 16" by (auto simp: moves_def decoder_ok_def)
    then have whole: "?ds = drop c buf" by (simp add: SIZE_LINE_SCAN_CAP_def min_def split: if_splits)
    have "advances d a buf c d' a (c + length ?ds) []" "drop (c + length ?ds) buf = []"
      using advances_prefix [of c buf ?ds "[]", OF _ c(1) m(1)] whole by simp_all
    then show ?thesis using Inr None m(2) whole c
      by (simp add: step_ok_def step_size_def Let_def finds_first_memchr3 [OF se] get_range_def take_min_drop waits_def
          pending_size_Nil sat_add_def usize_max_def min_def)
  qed
next
  case (Some i)
  show ?thesis
  proof (rule step_size_boundary [OF se Some c, of d])
    fix ds b z
    assume buf: "drop c buf = ds @ b # z" and free: "\<forall>x \<in> set ds. x \<noteq> CHR '';'' \<and> x \<noteq> CR"
      and b: "b = CHR '';'' \<or> b = CR \<or> b = LF"
      and eq: "step_size se d buf c = and_then (accept_size_digits d ds) (\<lambda>d1.
      if b = CHR '';'' then
        (if d_size_digits d1 = 0 then Inl ChunkSizeInvalid
         else Inr (Step_Continue,
           d1\<lparr>d_ext_bytes := 1, d_ext_mode := Ext_AfterSemicolon, d_state := State_Ext\<rparr>, c + length ds + 1))
      else if b = CR then
        (if d_size_digits d1 = 0 then Inl ChunkSizeInvalid
         else Inr (Step_Continue, d1\<lparr>d_state := State_SizeCrlf\<rparr>, c + length ds + 1))
      else Inl ChunkTerminatorInvalid)"
    note digits = size_digits_moves [OF ok st free]
    have buf': "drop c buf = (ds @ [b]) @ z" using buf by simp
    show ?thesis
    proof (cases "accept_size_digits d ds")
      case (Inl e)
      then show ?thesis using digits eq buf stuck_take [of d a "length ds" "ds @ b # z"] by (simp add: step_ok_def)
    next
      case (Inr d1)
      then have m: "moves d a ds d1 a []" "decoder_ok d1 a" "d_state d1 = State_Size" using digits by (simp_all add: moves_def)
      have "stuck d1 a [b] \<Longrightarrow> stuck d a (drop c buf)"
        using moves_stuck [OF m(1)] stuck_take [of d a "length (ds @ [b])" "drop c buf"] buf' by simp
      moreover have "moves d1 a [b] d2 a [] \<Longrightarrow> advances d a buf c d2 a (c + length ds + 1) []" for d2
        using advances_prefix(1) [OF buf' c(1), of d a d2 a "[]"] moves_trans [OF m(1)] by fastforce
      ultimately show ?thesis
        using b eq Inr size_end_moves [OF m(2,3)] size_end_stuck [OF m(2,3)] by (auto simp: step_ok_def byte_consts)
    qed
  qed
qed

section \<open>Extensions and the end of the line\<close>

lemma ext_loop_ok:
  assumes "decoder_ok d a" and "d_state d = State_Ext" and "drop c buf = r" and "c \<le> length buf" and "length buf < 2 ^ 63"
  shows "step_ok d a buf c (ext_loop d r c)"
  using assms
proof (induction r arbitrary: d c)
  case Nil
  then show ?case by (simp add: step_ok_def advances_refl waits_def pending_ext_Nil)
next
  case (Cons b r)
  let ?n = "d_ext_bytes d + 1"
  have lim: "max_chunk_ext_bytes (d_limits d) < 2 ^ 20" "d_ext_bytes d \<le> max_chunk_ext_bytes (d_limits d) + 1"
    using Cons.prems(1,2) is_clampedD(4) [of "d_limits d"] by (auto simp: decoder_ok_def)
  then have n: "sat_add32 (d_ext_bytes d) 1 = ?n" by (simp add: sat_add32_def u32_max_def)
  have c1: "sat_add c 1 = c + 1" using Cons.prems(4,5) by (simp add: sat_add_def usize_max_def)
  note step = pending_ext_Cons [OF Cons.prems(2), of a b]
  have buf: "drop c buf = [b] @ r" using Cons.prems(3) by simp
  note adv = advances_prefix [OF buf Cons.prems(4)]
  have stuck: "stuck d a (drop c buf)" if "?n > max_chunk_ext_bytes (d_limits d) \<or> ext_byte (d_ext_mode d) b = Inl e" for e
    using that step buf by (auto simp: stuck_def)
  have loop: "ext_loop d (b # r) c =
      (if ?n > max_chunk_ext_bytes (d_limits d) then Inl ChunkExtTooLong
       else and_then (ext_byte (d_ext_mode d) b) (\<lambda>m. case m of
          None \<Rightarrow> Inr (Step_Continue, d\<lparr>d_ext_bytes := ?n, d_state := State_SizeCrlf\<rparr>, c + 1)
        | Some mode \<Rightarrow> ext_loop (d\<lparr>d_ext_bytes := ?n, d_ext_mode := mode\<rparr>) r (c + 1)))"
    unfolding ext_loop.simps Let_def n c1 by (cases "ext_byte (d_ext_mode d) b") (auto split: option.split)
  show ?case
  proof (cases "?n > max_chunk_ext_bytes (d_limits d)")
    case True
    then show ?thesis using stuck by (simp add: step_ok_def loop del: ext_loop.simps)
  next
    case small: False
    consider (bad) e where "ext_byte (d_ext_mode d) b = Inl e" | (cr) "ext_byte (d_ext_mode d) b = Inr None"
      | (more) m where "ext_byte (d_ext_mode d) b = Inr (Some m)" by (metis not_None_eq obj_sumE)
    then show ?thesis
    proof cases
      case bad
      then show ?thesis using small stuck by (simp add: step_ok_def loop del: ext_loop.simps)
    next
      case cr
      let ?d = "d\<lparr>d_ext_bytes := ?n, d_state := State_SizeCrlf\<rparr>"
      have "moves d a [b] ?d a []" using cr small step Cons.prems(1,2) by (simp add: moves_def decoder_ok_def)
      then show ?thesis using cr small adv(1) by (simp add: step_ok_def loop del: ext_loop.simps)
    next
      case more
      let ?d = "d\<lparr>d_ext_bytes := ?n, d_ext_mode := m\<rparr>"
      have m: "moves d a [b] ?d a []" using more small step Cons.prems(1,2) by (simp add: moves_def decoder_ok_def)
      have next_ok: "step_ok ?d a buf (c + 1) (ext_loop ?d r (c + 1))"
        using Cons.IH [of ?d "c + 1"] m adv [OF m] Cons.prems(2,5) by (simp add: moves_def advances_def)
      have eq: "ext_loop d (b # r) c = ext_loop ?d r (c + 1)" using more small by (simp add: loop del: ext_loop.simps)
      show ?thesis
        unfolding eq using step_ok_after [OF _ next_ok] adv(1) [OF m] by simp
    qed
  qed
qed

lemma step_ext_ok:
  "decoder_ok d a \<Longrightarrow> d_state d = State_Ext \<Longrightarrow> c \<le> length buf \<Longrightarrow> length buf < 2 ^ 63 \<Longrightarrow>
   step_ok d a buf c (step_ext d buf c)"
  unfolding step_ext_def by (rule ext_loop_ok) auto

lemma step_size_crlf_ok:
  assumes "decoder_ok d a" and "d_state d = State_SizeCrlf" and "c \<le> length buf" and "length buf < 2 ^ 63"
  shows "step_ok d a buf c (step_size_crlf d buf c a)"
proof (cases "drop c buf")
  case Nil
  then show ?thesis
    using assms by (simp add: step_ok_def step_size_crlf_def advances_refl waits_def pending_crlf_Nil)
next
  case (Cons b r)
  then have get: "get buf c = Some b" "sat_add c 1 = c + 1"
    using assms(3,4) by (auto simp: nth_via_drop sat_add_def usize_max_def dest: arg_cong [of _ _ length])
  note step = pending_crlf_Cons [OF assms(2), of a b]
  let ?d = "if d_remaining d = 0
       then d\<lparr>d_builder := Some (builder_new a (d_limits d)), d_budget := budget_new (d_limits d), d_state := State_Trailers\<rparr>
       else d\<lparr>d_ext_bytes := 0, d_size_digits := 0, d_state := State_Data\<rparr>"
  show ?thesis
  proof (cases "b = LF")
    case True
    then have "moves d a [b] ?d a []"
      using assms(1,2) step trailers_ok_new by (auto simp: moves_def decoder_ok_def)
    then have "advances d a buf c ?d a (c + 1) []" using advances_prefix(1) [of c buf "[b]" r] Cons assms(3) by fastforce
    then show ?thesis using True get by (cases "d_remaining d = 0") (simp_all add: step_ok_def step_size_crlf_def)
  next
    case False
    then show ?thesis using get step Cons by (simp add: step_ok_def step_size_crlf_def stuck_def)
  qed
qed

section \<open>Chunk data\<close>

lemma step_data_None: "decoder_ok d a \<Longrightarrow> d_state d = State_Data \<Longrightarrow> step_data d buf c = None \<longleftrightarrow> length buf \<le> c"
  by (auto simp: step_data_def decoder_ok_def Let_def)

lemma step_data_Some:
  assumes ok: "decoder_ok d a" and st: "d_state d = State_Data" and c: "c \<le> length buf" "length buf < 2 ^ 63"
    and step: "step_data d buf c = Some (ev, d', c')"
  shows "\<exists>n > 0. ev = Event_Data c n \<and> c' = c + n \<and> advances d a buf c d' a c' (take n (drop c buf)) \<and>
    d_state d' \<in> {State_Data, State_DataCrlf}"
proof -
  define n where "n = min (d_remaining d) (length buf - c)"
  let ?d = "d\<lparr>d_remaining := d_remaining d - n, d_delivered := sat_add64 (d_delivered d) n,
      d_state := (if d_remaining d - n = 0 then State_DataCrlf else State_Data)\<rparr>"
  have n: "0 < n" "n \<le> d_remaining d" "n \<le> length buf - c" and sum: "sat_add c n = c + n"
    using step c by (auto simp: step_data_def n_def Let_def sat_add_def usize_max_def split: if_splits)
  have eq: "ev = Event_Data c n" "d' = ?d" "c' = c + n"
    using step n st unfolding step_data_def by (auto simp: n_def [symmetric] sum Let_def)
  have len: "length (take n (drop c buf)) = n" using n by simp
  have "moves d a (take n (drop c buf)) ?d a (take n (drop c buf))"
    using pending_data [OF st, of "take n (drop c buf)" a _ _ _ _ "sat_add64 (d_delivered d) n"] n len ok st
    unfolding moves_def by (simp add: decoder_ok_def)
  then have "advances d a buf c ?d a (c + n) (take n (drop c buf))" using n c by (simp add: advances_def)
  then show ?thesis using n eq by auto
qed

lemma crlf_cases:
  "r = [] \<or> r = [CR] \<or> (\<exists>z. r = CR # LF # z) \<or> (\<exists>b z. r = CR # b # z \<and> b \<noteq> LF) \<or> (\<exists>b z. r = b # z \<and> b \<noteq> CR)"
  by (cases r rule: remdups_adj.cases) auto

lemma step_data_crlf_ok:
  assumes ok: "decoder_ok d a" and st: "d_state d = State_DataCrlf" and c: "c \<le> length buf" "length buf < 2 ^ 63"
  shows "step_ok d a buf c (step_data_crlf d buf c)"
proof -
  note shape = pending_data_crlf(2) [OF ok st]
  have waiting: "waits d a r" if "length r \<le> 1" for r
    using that shape [of r] by (force simp: waits_def search_cap_def TRAILER_SEARCH_CAP_SLACK_def)
  consider (short) "drop c buf = [] \<or> drop c buf = [CR]" | (crlf) r where "drop c buf = [CR, LF] @ r"
    | (cr) b r where "drop c buf = CR # b # r" "b \<noteq> LF" | (bad) b r where "drop c buf = b # r" "b \<noteq> CR"
    using crlf_cases [of "drop c buf"] by fastforce
  then show ?thesis
  proof cases
    case short
    then show ?thesis
      using ok c waiting by (auto simp: step_ok_def step_data_crlf_def advances_refl)
  next
    case crlf
    have "moves d a [CR, LF] (d\<lparr>d_state := State_Size\<rparr>) a []"
      using pending_data_crlf(1) [OF ok st] ok st by (simp add: moves_def decoder_ok_def)
    then have "advances d a buf c (d\<lparr>d_state := State_Size\<rparr>) a (c + 2) []"
      using advances_prefix(1) [OF crlf c(1)] by fastforce
    moreover have "sat_add c 2 = c + 2"
      using arg_cong [OF crlf, of length] c by (simp add: sat_add_def usize_max_def)
    ultimately show ?thesis using crlf by (simp add: step_ok_def step_data_crlf_def)
  next
    case cr
    then show ?thesis using shape by (force simp: step_ok_def step_data_crlf_def stuck_def)
  next
    case bad
    then show ?thesis using shape by (force simp: step_ok_def step_data_crlf_def stuck_def)
  qed
qed

end
