(* ===== verification/Http_Chunked_Trailers.thy ===== *)
theory Http_Chunked_Trailers
  imports Http_Chunked_Moves
begin

text \<open>
  The trailer loop against the trailer section of the grammar: the first line break of the window ends the
  next line, a line that fits moves the builder, and the loop ends within its fuel.
\<close>

section \<open>One line against the section\<close>

lemma fields_fit_Cons:
  "fields_fit lim n used (f # fs) \<longleftrightarrow> fields_fit lim n used [f] \<and> fields_fit lim (n + 1) (used + field_size f) fs"
  by (auto simp: fields_fit_def)

lemma trailer_lines_Cons:
  "trailer_lines lim policy (l # lines) fs \<longleftrightarrow>
     (\<exists>f gs. fs = f # gs \<and> trailer_line lim policy l f \<and> trailer_lines lim policy lines gs)"
  by (auto simp: trailer_lines_def list_all2_Cons1)

lemma trailers_left_lines:
  assumes "trailers_left lim policy b a w T R"
  shows "\<exists>l z. w = l @ [CR, LF] @ z \<and> length l + 2 \<le> max_field_line_bytes lim + 64"
proof -
  obtain lines fs where w: "w = terminated lines @ [CR, LF] @ R" and fs: "trailer_lines lim policy lines fs"
    using assms unfolding trailers_left_def by blast
  show ?thesis
  proof (cases lines)
    case Nil
    then show ?thesis using w by (intro exI [of _ "[]"] exI [of _ R]) simp
  next
    case (Cons l ls)
    then obtain f where "trailer_line lim policy l f" using fs by (auto simp: trailer_lines_Cons)
    then show ?thesis
      using Cons w trailer_line_bytes(4) by (intro exI [of _ l] exI [of _ "terminated ls @ [CR, LF] @ R"]) simp
  qed
qed

lemma trailers_left_end:
  assumes "trailers_ok lim b budget a"
  shows "trailers_left lim policy b a ([CR, LF] @ w) T R \<longleftrightarrow> T = iter (builder_view b a) \<and> R = w"
proof
  assume "trailers_left lim policy b a ([CR, LF] @ w) T R"
  then obtain lines fs where w: "[CR, LF] @ w = terminated lines @ [CR, LF] @ R" and fs: "trailer_lines lim policy lines fs"
    "T = iter (builder_view b a) @ fs"
    unfolding trailers_left_def by blast
  have "lines = []"
  proof (cases lines)
    case (Cons l ls)
    then obtain f where f: "trailer_line lim policy l f" using fs by (auto simp: trailer_lines_Cons)
    then have "hd l \<in> set l" "hd l = CR" using trailer_line_bytes(1) [OF f] w Cons by (auto simp: hd_append neq_Nil_conv)
    then show ?thesis using trailer_line_bytes(2) [OF f] by simp
  qed
  then show "T = iter (builder_view b a) \<and> R = w" using w fs by (simp add: trailer_lines_def)
next
  assume "T = iter (builder_view b a) \<and> R = w"
  then show "trailers_left lim policy b a ([CR, LF] @ w) T R"
    using assms unfolding trailers_left_def trailers_ok_def builder_ok_def
    by (intro exI [of _ "[]"]) (auto simp: trailer_lines_def fields_fit_def)
qed

lemma trailers_left_line:
  assumes free: "crlf_free line" and ne: "line \<noteq> []"
  shows "trailers_left lim policy b a (line @ [CR, LF] @ w) T R \<longleftrightarrow>
    (\<exists>f fs lines. line_fits lim policy b a line f \<and> w = terminated lines @ [CR, LF] @ R \<and> trailer_lines lim policy lines fs \<and>
       fields_fit lim (length (b_slots b) + 1) (b_list_bytes b + field_size f) fs \<and>
       one_provenance (iter (builder_view b a) @ [f] @ fs) \<and> T = iter (builder_view b a) @ [f] @ fs)" (is "_ \<longleftrightarrow> ?r")
proof
  assume "trailers_left lim policy b a (line @ [CR, LF] @ w) T R"
  then obtain lines fs where w: "line @ [CR, LF] @ w = terminated lines @ [CR, LF] @ R"
    and fs: "trailer_lines lim policy lines fs" and fit: "fields_fit lim (length (b_slots b)) (b_list_bytes b) fs"
    and one: "one_provenance (iter (builder_view b a) @ fs)" and T: "T = iter (builder_view b a) @ fs"
    unfolding trailers_left_def by blast
  show ?r
  proof (cases lines)
    case Nil
    then show ?thesis using crlf_split_unique [OF free, of "[]" w R] w ne by simp
  next
    case (Cons l ls)
    then obtain f gs where gs: "fs = f # gs" "trailer_line lim policy l f" "trailer_lines lim policy ls gs"
      using fs by (auto simp: trailer_lines_Cons)
    have "l = line" "terminated ls @ [CR, LF] @ R = w"
      using crlf_split_unique [OF free trailer_line_bytes(2) [OF gs(2)]] w Cons by auto
    moreover have "one_provenance (iter (builder_view b a) @ [f])"
      using one gs(1) by (auto simp: one_provenance_def)
    ultimately have "line_fits lim policy b a line f"
      using gs fit fields_fit_Cons [of lim "length (b_slots b)" "b_list_bytes b" f gs] by (simp add: line_fits_def)
    then show ?thesis
      using gs fit one T \<open>terminated ls @ [CR, LF] @ R = w\<close> fields_fit_Cons [of lim "length (b_slots b)" "b_list_bytes b" f gs]
      by (intro exI [of _ f] exI [of _ gs] exI [of _ ls]) simp
  qed
next
  assume ?r
  then obtain f fs lines where "line_fits lim policy b a line f" "w = terminated lines @ [CR, LF] @ R"
    "trailer_lines lim policy lines fs" "fields_fit lim (length (b_slots b) + 1) (b_list_bytes b + field_size f) fs"
    "one_provenance (iter (builder_view b a) @ [f] @ fs)" "T = iter (builder_view b a) @ [f] @ fs" by blast
  then show "trailers_left lim policy b a (line @ [CR, LF] @ w) T R"
    using fields_fit_Cons [of lim "length (b_slots b)" "b_list_bytes b" f fs]
    unfolding trailers_left_def by (intro exI [of _ "line # lines"] exI [of _ "f # fs"]) (simp add: trailer_lines_Cons line_fits_def)
qed

text \<open>What the code does with a line, as moves of the decoder.\<close>

lemma trailer_line_moves:
  assumes ok: "decoder_ok d a" and st: "d_state d = State_Trailers" and b: "d_builder d = Some b"
    and free: "crlf_free line" and ne: "line \<noteq> []" and len: "length line + 2 \<le> search_cap d"
    and field: "trailer_field (d_limits d) (d_underscores d) (Some b) (d_budget d) a line = Inr (b', budget', a')"
  shows "moves d a (line @ [CR, LF]) (d\<lparr>d_trailer_scan := n, d_builder := Some b', d_budget := budget'\<rparr>) a' []"
proof -
  let ?lim = "d_limits d" and ?pol = "d_underscores d"
  have inv: "trailers_ok ?lim b (d_budget d) a" using ok st b by (simp add: decoder_ok_def)
  obtain f where f: "line_fits ?lim ?pol b a line f" and ok': "trailers_ok ?lim b' budget' a'"
    and b': "iter (builder_view b' a') = iter (builder_view b a) @ [f]" "length (b_slots b') = length (b_slots b) + 1"
      "b_list_bytes b' = b_list_bytes b + field_size f"
    using trailer_field_sound [OF inv _ field] len by (auto simp: search_cap_def TRAILER_SEARCH_CAP_SLACK_def)
  have unique: "line_fits ?lim ?pol b a line g \<longleftrightarrow> g = f" for g
    using f trailer_line_unique unfolding line_fits_def by metis
  have "trailers_left ?lim ?pol b a (line @ [CR, LF] @ w) T R \<longleftrightarrow> trailers_left ?lim ?pol b' a' w T R" for w T R
    unfolding trailers_left_line [OF free ne] unique unfolding trailers_left_def b' by (metis append_assoc)
  then show ?thesis
    using ok ok' st b by (auto simp: moves_def decoder_ok_def pending_def)
qed

lemma trailer_line_stuck:
  assumes ok: "decoder_ok d a" and st: "d_state d = State_Trailers" and b: "d_builder d = Some b"
    and free: "crlf_free line" and ne: "line \<noteq> []"
    and field: "trailer_field (d_limits d) (d_underscores d) (Some b) (d_budget d) a line = Inl e"
  shows "stuck d a (line @ [CR, LF])"
proof -
  have inv: "trailers_ok (d_limits d) b (d_budget d) a" using ok st b by (simp add: decoder_ok_def)
  have "\<not> line_fits (d_limits d) (d_underscores d) b a line f" for f
    using trailer_field_complete [OF inv, of "d_underscores d" line f] field by auto
  then have "\<not> trailers_left (d_limits d) (d_underscores d) b a (line @ [CR, LF] @ w) T R" for w T R
    using trailers_left_line [OF free ne] by blast
  then show ?thesis using st b by (simp add: stuck_def pending_def)
qed


section \<open>The loop\<close>

definition trailers_step_ok ::
  "chunked_decoder \<Rightarrow> bytes \<Rightarrow> bytes \<Rightarrow> nat \<Rightarrow> reject_reason + step \<times> chunked_decoder \<times> nat \<times> bytes \<Rightarrow> bool" where
  "trailers_step_ok d a buf c res \<longleftrightarrow>
     (case res of
        Inl e \<Rightarrow> stuck d a (drop c buf) \<or> e = FieldLineTooLong \<and> HeadScan_MAX_BYTES < d_trailer_scan d + (length buf - c)
      | Inr (st, d', c', a') \<Rightarrow>
          advances d a buf c d' a' c' [] \<and> d_trailer_scan d' \<le> d_trailer_scan d + (length buf - c) \<and>
          (st = Step_NeedMore \<and> waits d' a' (drop c' buf) \<or> st = Step_Done \<and> d_state d' = State_Done))"

lemma trailers_step_after:
  assumes adv: "advances d a buf c d1 a1 c1 []" and scan: "d_trailer_scan d1 \<le> d_trailer_scan d + (c1 - c)"
    and step: "trailers_step_ok d1 a1 buf c1 res"
  shows "trailers_step_ok d a buf c res"
proof (cases res)
  case (Inl e)
  then show ?thesis
    using step scan advances_stuck [OF adv] adv by (auto simp: trailers_step_ok_def advances_def)
next
  case (Inr x)
  obtain st d' c' a' where x: "x = (st, d', c', a')" by (rule prod_cases4)
  have "advances d a buf c d' a' c' []"
    using advances_trans [OF adv, of d' a' c' "[]"] step Inr x by (simp add: trailers_step_ok_def)
  then show ?thesis using step Inr x scan adv by (auto simp: trailers_step_ok_def advances_def)
qed

lemma sat_add64_le: "sat_add64 x y \<le> x + y"
  by (simp add: sat_add64_def)

lemma scan_moves:
  assumes "decoder_ok d a" and "d_state d = State_Trailers"
  shows "moves d a [] (d\<lparr>d_trailer_scan := n\<rparr>) a []"
  using assms by (auto simp: moves_def decoder_ok_def pending_def)

lemma no_crlf_stuck:
  assumes st: "d_state d = State_Trailers" and none: "find_sub (take (search_cap d) r) [CR, LF] = None"
  shows "search_cap d < length r \<Longrightarrow> stuck d a r" and "length r \<le> search_cap d \<Longrightarrow> waits d a r"
proof -
  have short: "\<not> pending d a w B T R" if "take (search_cap d) w = take (search_cap d) r" for w B T R
  proof
    assume "pending d a w B T R"
    then obtain b where "trailers_left (d_limits d) (d_underscores d) b a w T R" using st by (auto simp: pending_def)
    from trailers_left_lines [OF this] obtain l z where w: "w = l @ [CR, LF] @ z" "length l + 2 \<le> search_cap d"
      by (auto simp: search_cap_def TRAILER_SEARCH_CAP_SLACK_def)
    then obtain k where "search_cap d = length l + 2 + k" using le_Suc_ex by blast
    then have "take (search_cap d) w = l @ [CR, LF] @ take k z" using w(1) by simp
    then show False using none that find_crlf_None [of l] by (simp del: append.simps)
  qed
  show "search_cap d < length r \<Longrightarrow> stuck d a r" unfolding stuck_def by (auto intro!: short)
  show "length r \<le> search_cap d \<Longrightarrow> waits d a r" unfolding waits_def using short by blast
qed

lemma trailers_end_moves:
  assumes ok: "decoder_ok d a" and st: "d_state d = State_Trailers" and b: "d_builder d = Some b"
  shows "moves d a [CR, LF]
    (d\<lparr>d_trailer_scan := n, d_builder := None, d_trailers := Some (builder_view b a), d_state := State_Done\<rparr>) (take (b_base b) a) []"
proof -
  have inv: "trailers_ok (d_limits d) b (d_budget d) a" using ok st b by (simp add: decoder_ok_def)
  then have "section_ok (builder_view b a)" "b_base b < 2 ^ 63" by (auto simp: trailers_ok_def builder_ok_def)
  then show ?thesis
    using trailers_left_end [OF inv, of "d_underscores d"] ok st b by (auto simp: moves_def decoder_ok_def pending_def)
qed

lemma step_trailers_unfold:
  assumes "finds_first se" and "decoder_ok d a"
  shows "step_trailers se (Suc fuel) d buf c a =
    (case find_sub (take (search_cap d) (drop c buf)) [CR, LF] of
       None \<Rightarrow>
         (let scan = sat_add64 (d_trailer_scan d) (length (take (search_cap d) (drop c buf))) in
          if scan > HeadScan_MAX_BYTES then Some (Inl FieldLineTooLong)
          else if length (drop c buf) > search_cap d then Some (Inl FieldLineTooLong)
          else Some (Inr (Step_NeedMore, d\<lparr>d_trailer_scan := scan\<rparr>, c, a)))
     | Some rel \<Rightarrow>
         (let scan = sat_add64 (d_trailer_scan d) (sat_add rel 2);
              d1 = d\<lparr>d_trailer_scan := scan\<rparr>;
              line = take rel (take (search_cap d) (drop c buf))
          in if scan > HeadScan_MAX_BYTES then Some (Inl FieldLineTooLong)
             else if line = [] then
               (case d_builder d of
                  None \<Rightarrow> Some (Inl ChunkTerminatorInvalid)
                | Some b \<Rightarrow>
                    (case builder_finish b a of
                       None \<Rightarrow> None
                     | Some (section, a') \<Rightarrow>
                         Some (Inr (Step_Done, d1\<lparr>d_builder := None, d_trailers := Some section, d_state := State_Done\<rparr>,
                           sat_add (sat_add c rel) 2, a'))))
             else
               (case trailer_field (d_limits d) (d_underscores d) (d_builder d) (d_budget d) a line of
                  Inl e \<Rightarrow> Some (Inl e)
                | Inr (b', budget', a') \<Rightarrow>
                    step_trailers se fuel (d1\<lparr>d_builder := Some b', d_budget := budget'\<rparr>) buf
                      (sat_add (sat_add c rel) 2) a')))"
proof -
  have "is_clamped (d_limits d)" using assms(2) by (simp add: decoder_ok_def)
  then have cap: "sat_add (max_field_line_bytes (d_limits d)) TRAILER_SEARCH_CAP_SLACK = search_cap d"
    using is_clampedD(2) by (fastforce simp: search_cap_def sat_add_def usize_max_def TRAILER_SEARCH_CAP_SLACK_def)
  have window: "take (min (length (drop c buf)) (search_cap d)) (drop c buf) = take (search_cap d) (drop c buf)"
    using take_min_drop by simp
  have kept: "d_builder (d\<lparr>d_trailer_scan := n\<rparr>) = d_builder d" "d_budget (d\<lparr>d_trailer_scan := n\<rparr>) = d_budget d"
    "d_limits (d\<lparr>d_trailer_scan := n\<rparr>) = d_limits d" "d_underscores (d\<lparr>d_trailer_scan := n\<rparr>) = d_underscores d" for n
    by simp_all
  show ?thesis
    unfolding step_trailers.simps Let_def cap window finds_first_memmem [OF assms(1)] kept by (rule refl)
qed

declare step_trailers.simps [simp del]

lemma step_trailers_missing:
  assumes se: "finds_first se" and ok: "decoder_ok d a" and st: "d_state d = State_Trailers" and c: "c \<le> length buf"
    and none: "find_sub (take (search_cap d) (drop c buf)) [CR, LF] = None"
  shows "\<exists>res. step_trailers se (Suc fuel) d buf c a = Some res \<and> trailers_step_ok d a buf c res"
proof -
  let ?r = "drop c buf" and ?scan = "sat_add64 (d_trailer_scan d) (length (take (search_cap d) (drop c buf)))"
  have scan: "?scan \<le> d_trailer_scan d + (length buf - c)"
    using sat_add64_le [of "d_trailer_scan d" "length (take (search_cap d) ?r)"] by simp
  have adv: "advances d a buf c (d\<lparr>d_trailer_scan := ?scan\<rparr>) a c []"
    using scan_moves [OF ok st] c by (simp add: advances_def)
  have "waits (d\<lparr>d_trailer_scan := ?scan\<rparr>) a ?r" if "length ?r \<le> search_cap d"
    using no_crlf_stuck(2) [of "d\<lparr>d_trailer_scan := ?scan\<rparr>" ?r a] that none st by (simp add: search_cap_def)
  then show ?thesis
    unfolding step_trailers_unfold [OF se ok]
    using none scan adv no_crlf_stuck(1) [OF st none, of a] by (auto simp: trailers_step_ok_def Let_def)
qed

lemma step_trailers_found:
  assumes se: "finds_first se" and ok: "decoder_ok d a" and c: "c \<le> length buf" "length buf < 2 ^ 63"
    and b: "d_builder d = Some b" "builder_ok b a"
    and rel: "find_sub (take (search_cap d) (drop c buf)) [CR, LF] = Some rel"
  obtains line z scan where "drop c buf = (line @ [CR, LF]) @ z" and "crlf_free line" and "length line + 2 \<le> search_cap d"
    and "scan \<le> d_trailer_scan d + (length line + 2)"
    and "step_trailers se (Suc fuel) d buf c a =
      (if scan > HeadScan_MAX_BYTES then Some (Inl FieldLineTooLong)
       else if line = [] then
         Some (Inr (Step_Done, d\<lparr>d_trailer_scan := scan, d_builder := None, d_trailers := Some (builder_view b a),
           d_state := State_Done\<rparr>, c + 2, take (b_base b) a))
       else
         (case trailer_field (d_limits d) (d_underscores d) (Some b) (d_budget d) a line of
            Inl e \<Rightarrow> Some (Inl e)
          | Inr (b', budget', a') \<Rightarrow>
              step_trailers se fuel (d\<lparr>d_trailer_scan := scan, d_builder := Some b', d_budget := budget'\<rparr>) buf
                (c + (length line + 2)) a'))"
proof -
  let ?r = "drop c buf" and ?w = "take (search_cap d) (drop c buf)" and ?scan = "sat_add64 (d_trailer_scan d) (sat_add rel 2)"
  obtain line z where w: "?w = line @ [CR, LF] @ z" "length line = rel" and free: "crlf_free line"
    using find_crlf_split [OF rel] by blast
  have r: "?r = (line @ [CR, LF]) @ z @ drop (search_cap d) ?r"
    using w(1) append_take_drop_id [of "search_cap d" ?r] by simp
  have len: "c + rel + 2 \<le> length buf" "length line + 2 \<le> search_cap d"
    using c arg_cong [OF r, of length] arg_cong [OF w(1), of length] w(2) by (simp_all add: min_def split: if_splits)
  have sums: "sat_add rel 2 = length line + 2" "sat_add (sat_add c rel) 2 = c + (length line + 2)"
    using len c w(2) by (simp_all add: sat_add_def usize_max_def)
  have scan: "?scan \<le> d_trailer_scan d + (length line + 2)" using sat_add64_le sums(1) by metis
  have line: "take rel ?w = line" using w by simp
  show thesis
    by (rule that [OF r free len(2) scan], unfold step_trailers_unfold [OF se ok] Let_def rel option.case line b(1)
        builder_finish_ok [OF b(2)] prod.case sums, cases "line = []") (simp_all only: simp_thms if_True if_False list.size add_0)
qed

lemma step_trailers_ok:
  assumes se: "finds_first se" and "decoder_ok d a" and "d_state d = State_Trailers"
    and "c \<le> length buf" and "length buf < 2 ^ 63" and "length buf - c < fuel"
  shows "\<exists>res. step_trailers se fuel d buf c a = Some res \<and> trailers_step_ok d a buf c res"
  using assms(2-)
proof (induction fuel arbitrary: d a c)
  case (Suc fuel)
  note ok = Suc.prems(1,2) and c = Suc.prems(3,4)
  obtain b where b: "d_builder d = Some b" "builder_ok b a" using ok by (auto simp: decoder_ok_def trailers_ok_def)
  show ?case
  proof (cases "find_sub (take (search_cap d) (drop c buf)) [CR, LF]")
    case None
    then show ?thesis by (rule step_trailers_missing [OF se ok c(1)])
  next
    case (Some rel)
    obtain line z scan where r: "drop c buf = (line @ [CR, LF]) @ z" and line: "crlf_free line" "length line + 2 \<le> search_cap d"
      and scan: "scan \<le> d_trailer_scan d + (length line + 2)"
      and eq: "step_trailers se (Suc fuel) d buf c a =
      (if scan > HeadScan_MAX_BYTES then Some (Inl FieldLineTooLong)
       else if line = [] then
         Some (Inr (Step_Done, d\<lparr>d_trailer_scan := scan, d_builder := None, d_trailers := Some (builder_view b a),
           d_state := State_Done\<rparr>, c + 2, take (b_base b) a))
       else
         (case trailer_field (d_limits d) (d_underscores d) (Some b) (d_budget d) a line of
            Inl e \<Rightarrow> Some (Inl e)
          | Inr (b', budget', a') \<Rightarrow>
              step_trailers se fuel (d\<lparr>d_trailer_scan := scan, d_builder := Some b', d_budget := budget'\<rparr>) buf
                (c + (length line + 2)) a'))"
      by (rule step_trailers_found [OF se ok(1) c b Some])
    have len: "c + (length line + 2) \<le> length buf" using arg_cong [OF r, of length] c(1) by simp
    note adv = advances_prefix(1) [OF r c(1), of d a]
    consider (over) "scan > HeadScan_MAX_BYTES" | (last) "scan \<le> HeadScan_MAX_BYTES" "line = []"
      | (bad) e where "scan \<le> HeadScan_MAX_BYTES" "line \<noteq> []"
          "trailer_field (d_limits d) (d_underscores d) (Some b) (d_budget d) a line = Inl e"
      | (good) b' budget' a' where "scan \<le> HeadScan_MAX_BYTES" "line \<noteq> []"
          "trailer_field (d_limits d) (d_underscores d) (Some b) (d_budget d) a line = Inr (b', budget', a')"
      by (metis obj_sumE prod_cases3 not_less)
    then show ?thesis
    proof cases
      case over
      then show ?thesis using eq scan len by (auto simp: trailers_step_ok_def)
    next
      case last
      then have "moves d a (line @ [CR, LF]) (d\<lparr>d_trailer_scan := scan, d_builder := None,
          d_trailers := Some (builder_view b a), d_state := State_Done\<rparr>) (take (b_base b) a) []"
        using trailers_end_moves [OF ok b(1)] by simp
      from adv [OF this] last show ?thesis using eq scan len by (simp add: trailers_step_ok_def)
    next
      case bad
      then have "stuck d a (drop c buf)"
        using trailer_line_stuck [OF ok b(1) line(1) bad(2,3)] stuck_take [of d a "length line + 2" "drop c buf"] r by simp
      then show ?thesis using bad eq by (simp add: trailers_step_ok_def)
    next
      case good
      let ?d = "d\<lparr>d_trailer_scan := scan, d_builder := Some b', d_budget := budget'\<rparr>" and ?c = "c + (length line + 2)"
      have m: "moves d a (line @ [CR, LF]) ?d a' []" using trailer_line_moves [OF ok b(1) line(1) good(2) line(2) good(3)] .
      moreover have "length buf - ?c < fuel" using len Suc.prems(5) by linarith
      ultimately obtain res where "step_trailers se fuel ?d buf ?c a' = Some res" "trailers_step_ok ?d a' buf ?c res"
        using Suc.IH [of ?d a' ?c] ok(2) len c(2) by (auto simp: moves_def)
      then show ?thesis using good eq scan trailers_step_after [of d a buf c ?d a' ?c res] adv [OF m] by simp
    qed
  qed
qed simp

end
