(* ===== verification/Http_Chunked_Correct.thy ===== *)
theory Http_Chunked_Correct
  imports Http_Chunked_Trailers
begin

text \<open>
  The decoder against the grammar of chunked messages. One call returns within its fuel and does what its
  state expects. A caller that follows the contract of \<^verbatim>\<open>decode\<close> (drop what the call consumed, keep the
  rest, append what the peer sends next) decodes a stream to a body and trailers, however the stream is cut
  into segments, exactly when the stream is a message of the grammar.
\<close>

section \<open>One call\<close>

definition answers ::
  "chunked_decoder \<Rightarrow> bytes \<Rightarrow> bytes \<Rightarrow> nat \<Rightarrow> reject_reason + chunked_event \<times> chunked_decoder \<times> nat \<times> bytes \<Rightarrow> bool" where
  "answers d a buf c res \<longleftrightarrow>
     (case res of
        Inl e \<Rightarrow> stuck d a (drop c buf) \<or> e = FieldLineTooLong \<and> HeadScan_MAX_BYTES < d_trailer_scan d + (length buf - c)
      | Inr (ev, d', c', a') \<Rightarrow>
          d_trailer_scan d' \<le> d_trailer_scan d + (length buf - c) \<and>
          (case ev of
             Event_Data off n \<Rightarrow> 0 < n \<and> off + n \<le> length buf \<and> d_state d' \<in> {State_Data, State_DataCrlf} \<and>
               c < c' \<and> advances d a buf c d' a' c' (take n (drop off buf))
           | Event_NeedMore \<Rightarrow> advances d a buf c d' a' c' [] \<and> waits d' a' (drop c' buf) \<and> d_state d' \<noteq> State_Done
           | Event_Done _ \<Rightarrow> advances d a buf c d' a' c' [] \<and> d_state d' = State_Done))"

lemma answers_after:
  assumes adv: "advances d a buf c d1 a1 c1 []" and scan: "d_trailer_scan d1 \<le> d_trailer_scan d"
    and ans: "answers d1 a1 buf c1 res"
  shows "answers d a buf c res"
proof -
  have c: "c \<le> c1" "c1 \<le> length buf" using adv by (simp_all add: advances_def)
  show ?thesis
  proof (cases res)
    case (Inl e)
    then show ?thesis using ans scan c advances_stuck [OF adv] by (auto simp: answers_def)
  next
    case (Inr x)
    obtain ev d' c' a' where x: "x = (ev, d', c', a')" by (rule prod_cases4)
    note trans = advances_trans [OF adv, of d' a' c']
    show ?thesis using ans scan c Inr x trans by (cases ev) (auto simp: answers_def)
  qed
qed

lemma waits_Done: "d_state d = State_Done \<Longrightarrow> decoder_ok d a \<Longrightarrow> \<not> waits d a r"
  by (auto simp: waits_def pending_def decoder_ok_def)

lemma from_step_answers:
  assumes ok: "decoder_ok d a" and st: "d_state d \<notin> {State_Trailers, State_Done}" and step: "step_ok d a buf c res"
    and k: "\<And>d' c'. decoder_ok d' a \<Longrightarrow> c < c' \<Longrightarrow> c' \<le> length buf \<Longrightarrow> \<exists>r. k d' c' = Some r \<and> answers d' a buf c' r"
    and scan: "\<And>st d' c'. res = Inr (st, d', c') \<Longrightarrow> d_trailer_scan d' = d_trailer_scan d"
  shows "\<exists>r. from_step res a k = Some r \<and> answers d a buf c r"
proof (cases res)
  case (Inl e)
  then show ?thesis using step by (simp add: from_step_def step_ok_def answers_def)
next
  case (Inr x)
  obtain t d' c' where x: "x = (t, d', c')" by (rule prod_cases3)
  have adv: "advances d a buf c d' a c' []" using step Inr x by (simp add: step_ok_def)
  then have ok': "decoder_ok d' a" "c' \<le> length buf" by (simp_all add: advances_def moves_def)
  show ?thesis
  proof (cases t)
    case Step_Continue
    then obtain r where "k d' c' = Some r" "answers d' a buf c' r" using k [OF ok'(1)] ok'(2) step Inr x by (auto simp: step_ok_def)
    then show ?thesis using Inr x Step_Continue answers_after [OF adv] scan by (simp add: from_step_def)
  next
    case Step_NeedMore
    then show ?thesis using Inr x step adv scan waits_Done [OF _ ok'(1)] by (auto simp: from_step_def step_ok_def answers_def)
  next
    case Step_Done
    then show ?thesis using Inr x step by (simp add: step_ok_def)
  qed
qed

text \<open>Only the trailers are charged to the scan budget.\<close>

lemma accept_size_digits_scan: "accept_size_digits d ds = Inr d' \<Longrightarrow> d_trailer_scan d' = d_trailer_scan d"
proof (induction ds arbitrary: d)
  case (Cons b ds)
  then obtain d1 where "accept_size_digit d b = Inr d1" "accept_size_digits d1 ds = Inr d'" by (auto elim: and_then_InrE)
  moreover have "d_trailer_scan d1 = d_trailer_scan d"
    using calculation(1) by (auto simp: accept_size_digit_def Let_def elim!: and_then_InrE split: if_splits)
  ultimately show ?case using Cons.IH by simp
qed simp

lemma ext_loop_scan: "ext_loop d r c = Inr (st, d', c') \<Longrightarrow> d_trailer_scan d' = d_trailer_scan d"
  by (induction d r c rule: ext_loop.induct)
    (auto simp: Let_def elim!: and_then_InrE split: if_splits option.splits)

lemma step_scan:
  "step_size se d buf c = Inr (st, d', c') \<Longrightarrow> d_trailer_scan d' = d_trailer_scan d"
  "step_ext d buf c = Inr (st, d', c') \<Longrightarrow> d_trailer_scan d' = d_trailer_scan d"
  "step_size_crlf d buf c a = Inr (st, d', c') \<Longrightarrow> d_trailer_scan d' = d_trailer_scan d"
  "step_data_crlf d buf c = Inr (st, d', c') \<Longrightarrow> d_trailer_scan d' = d_trailer_scan d"
  by (auto simp: step_size_def step_ext_def step_size_crlf_def step_data_crlf_def Let_def ext_loop_scan
      elim!: and_then_InrE dest!: accept_size_digits_scan split: option.splits if_splits)

lemma step_data_scan: "step_data d buf c = Some (ev, d', c') \<Longrightarrow> d_trailer_scan d' = d_trailer_scan d"
  by (auto simp: step_data_def Let_def split: if_splits)

section \<open>The loop\<close>

lemma run_Trailers:
  assumes "finds_first se" and ok: "decoder_ok d a" and st: "d_state d = State_Trailers"
    and c: "c \<le> length buf" "length buf < 2 ^ 63"
  shows "\<exists>r. run se (Suc fuel) d buf c a = Some r \<and> answers d a buf c r"
proof -
  obtain res where res: "step_trailers se (Suc (length buf)) d buf c a = Some res" "trailers_step_ok d a buf c res"
    using step_trailers_ok [OF assms, of "Suc (length buf)"] by (auto simp: less_Suc_eq_le)
  show ?thesis
  proof (cases res)
    case (Inl e)
    then show ?thesis using res st by (simp add: trailers_step_ok_def answers_def)
  next
    case (Inr x)
    obtain t d' c' a' where x: "x = (t, d', c', a')" by (rule prod_cases4)
    have "decoder_ok d' a'" using res Inr x by (simp add: trailers_step_ok_def advances_def moves_def)
    then show ?thesis
      using res st Inr x waits_Done [of d' a'] by (auto simp: trailers_step_ok_def answers_def split: step.split)
  qed
qed

lemma run_Data:
  assumes ok: "decoder_ok d a" and st: "d_state d = State_Data" and c: "c \<le> length buf" "length buf < 2 ^ 63"
  shows "\<exists>r. run se (Suc fuel) d buf c a = Some r \<and> answers d a buf c r"
proof (cases "step_data d buf c")
  case None
  then have "length buf \<le> c" using step_data_None [OF ok st] by simp
  then show ?thesis
    using None st c ok by (simp add: answers_def advances_refl waits_def pending_data_Nil)
next
  case (Some x)
  obtain ev d' c' where x: "x = (ev, d', c')" by (rule prod_cases3)
  obtain n where "0 < n" "ev = Event_Data c n" "c' = c + n" "advances d a buf c d' a c' (take n (drop c buf))"
    "d_state d' \<in> {State_Data, State_DataCrlf}"
    using step_data_Some [OF ok st c] Some x by blast
  then show ?thesis
    using Some x st step_data_scan [of d buf c ev d' c'] by (auto simp: answers_def advances_def)
qed

lemma run_answers:
  assumes se: "finds_first se" and "decoder_ok d a" and "c \<le> length buf" and "length buf < 2 ^ 63" and "length buf - c < fuel"
  shows "\<exists>r. run se fuel d buf c a = Some r \<and> answers d a buf c r"
  using assms(2-)
proof (induction fuel arbitrary: d c)
  case (Suc fuel)
  note ok = Suc.prems(1) and c = Suc.prems(2,3)
  have later: "\<exists>r. run se fuel d' buf c' a = Some r \<and> answers d' a buf c' r"
    if "decoder_ok d' a" "c < c'" "c' \<le> length buf" for d' c'
    using Suc.IH [OF that(1,3) c(2)] that Suc.prems(4) by simp
  show ?case
  proof (cases "d_state d")
    case State_Size
    then show ?thesis using from_step_answers [OF ok _ step_size_ok [OF se ok _ c] later step_scan(1)] by simp
  next
    case State_Ext
    then show ?thesis using from_step_answers [OF ok _ step_ext_ok [OF ok _ c] later step_scan(2)] by simp
  next
    case State_SizeCrlf
    then show ?thesis using from_step_answers [OF ok _ step_size_crlf_ok [OF ok _ c] later step_scan(3)] by simp
  next
    case State_Data
    then show ?thesis using run_Data [OF ok _ c] by blast
  next
    case State_DataCrlf
    then show ?thesis using from_step_answers [OF ok _ step_data_crlf_ok [OF ok _ c] later step_scan(4)] by simp
  next
    case State_Trailers
    then show ?thesis using run_Trailers [OF se ok _ c] by blast
  next
    case State_Done
    then show ?thesis using advances_refl [OF ok c(1)] by (simp add: answers_def)
  qed
qed simp

text \<open>The bookkeeping of a call (what it consumed, where the arena ends) is not part of the expectation.\<close>

lemma bookkeeping:
  "pending (d\<lparr>d_last_consumed := k, d_watermark := m\<rparr>) a w B T R = pending d a w B T R"
  "decoder_ok (d\<lparr>d_last_consumed := k, d_watermark := m\<rparr>) a = decoder_ok d a"
  by (simp_all add: pending_def decoder_ok_def cong: chunk_state.case_cong)

lemma answers_bookkeeping:
  "answers d a buf c (Inr (ev, d'\<lparr>d_last_consumed := k, d_watermark := m\<rparr>, c', a')) = answers d a buf c (Inr (ev, d', c', a'))"
  by (cases ev) (simp_all add: answers_def advances_def moves_def waits_def search_cap_def bookkeeping)

lemma decode_answers:
  assumes "finds_first se" and "decoder_ok d a" and "length buf < 2 ^ 63"
  shows "\<exists>r. decode se d buf a = Some r \<and>
    (case r of Inl e \<Rightarrow> answers d a buf 0 (Inl e)
     | Inr (ev, d', a') \<Rightarrow> answers d a buf 0 (Inr (ev, d', consumed_this_call d', a')))"
proof -
  obtain r where r: "run se (Suc (length buf)) d buf 0 a = Some r" "answers d a buf 0 r"
    using run_answers [OF assms(1,2), of 0 buf "Suc (length buf)"] assms(3) by auto
  show ?thesis
    using r answers_bookkeeping by (cases r) (auto simp: decode_def consumed_this_call_def simp del: run.simps)
qed

section \<open>The caller\<close>

text \<open>
  \<open>pump\<close> calls \<^verbatim>\<open>decode\<close> on one buffer until it asks for more input or the message ends, collecting the data
  events; \<open>feed\<close> does so for the segments of a stream, in front of which the unconsumed rest is kept.
\<close>

fun pump ::
  "searchers \<Rightarrow> nat \<Rightarrow> chunked_decoder \<Rightarrow> bytes \<Rightarrow> bytes \<Rightarrow>
   (reject_reason + chunked_decoder \<times> bytes \<times> bytes \<times> bytes) option" where
  "pump se 0 d buf a = None"
| "pump se (Suc fuel) d buf a =
     (case decode se d buf a of
        None \<Rightarrow> None
      | Some (Inl e) \<Rightarrow> Some (Inl e)
      | Some (Inr (ev, d', a')) \<Rightarrow>
          (let rest = drop (consumed_this_call d') buf in
           case ev of
             Event_Data off n \<Rightarrow>
               (case pump se fuel d' rest a' of
                  Some (Inr (d2, rest2, a2, body)) \<Rightarrow> Some (Inr (d2, rest2, a2, take n (drop off buf) @ body))
                | res \<Rightarrow> res)
           | _ \<Rightarrow> Some (Inr (d', rest, a', []))))"

fun feed ::
  "searchers \<Rightarrow> chunked_decoder \<Rightarrow> bytes \<Rightarrow> bytes \<Rightarrow> bytes list \<Rightarrow>
   (reject_reason + chunked_decoder \<times> bytes \<times> bytes \<times> bytes) option" where
  "feed se d left a [] = Some (Inr (d, left, a, []))"
| "feed se d left a (s # ss) =
     (case pump se (Suc (length (left @ s))) d (left @ s) a of
        Some (Inr (d', rest, a', body)) \<Rightarrow>
          if is_done d' then Some (Inr (d', rest @ concat ss, a', body))
          else (case feed se d' rest a' ss of
                  Some (Inr (d2, rest2, a2, body2)) \<Rightarrow> Some (Inr (d2, rest2, a2, body @ body2))
                | res \<Rightarrow> res)
      | res \<Rightarrow> res)"

definition pumped ::
  "chunked_decoder \<Rightarrow> bytes \<Rightarrow> bytes \<Rightarrow> reject_reason + chunked_decoder \<times> bytes \<times> bytes \<times> bytes \<Rightarrow> bool" where
  "pumped d a buf res \<longleftrightarrow>
     (case res of
        Inl e \<Rightarrow> stuck d a buf \<or> e = FieldLineTooLong \<and> HeadScan_MAX_BYTES < d_trailer_scan d + length buf
      | Inr (d', rest, a', body) \<Rightarrow>
          (\<exists>x. buf = x @ rest \<and> moves d a x d' a' body) \<and> d_trailer_scan d' \<le> d_trailer_scan d + length buf \<and>
          (d_state d' = State_Done \<or> waits d' a' rest))"

lemma answers_pumped:
  assumes ans: "answers d a buf 0 (Inr (ev, d', k, a'))" and ev: "\<And>off n. ev \<noteq> Event_Data off n"
  shows "pumped d a buf (Inr (d', drop k buf, a', []))"
  using assms append_take_drop_id [of k buf, symmetric]
  by (cases ev) (auto simp: answers_def advances_def pumped_def intro!: exI [of _ "take k buf"])

lemma pumped_after:
  assumes "moves d a x d1 a1 out" and "d_trailer_scan d1 \<le> d_trailer_scan d" and "pumped d1 a1 buf res"
  shows "pumped d a (x @ buf)
    (case res of Inl e \<Rightarrow> Inl e | Inr (d2, rest, a2, body) \<Rightarrow> Inr (d2, rest, a2, out @ body))"
proof (cases res)
  case (Inl e)
  then show ?thesis using assms moves_stuck [OF assms(1)] by (auto simp: pumped_def)
next
  case (Inr y)
  obtain d2 rest a2 body where y: "y = (d2, rest, a2, body)" by (rule prod_cases4)
  obtain z where "buf = z @ rest" "moves d1 a1 z d2 a2 body" using assms(3) Inr y by (auto simp: pumped_def)
  then show ?thesis
    using assms Inr y moves_trans [OF assms(1)] by (auto simp: pumped_def intro!: exI [of _ "x @ z"])
qed

lemma pump_pumped:
  assumes se: "finds_first se" and "decoder_ok d a" and "length buf < 2 ^ 63" and "length buf < fuel"
  shows "\<exists>res. pump se fuel d buf a = Some res \<and> pumped d a buf res"
  using assms(2-)
proof (induction fuel arbitrary: d buf a)
  case (Suc fuel)
  obtain r where dec: "decode se d buf a = Some r" and r: "case r of Inl e \<Rightarrow> answers d a buf 0 (Inl e)
     | Inr (ev, d', a') \<Rightarrow> answers d a buf 0 (Inr (ev, d', consumed_this_call d', a'))"
    using decode_answers [OF se Suc.prems(1,2)] by blast
  show ?case
  proof (cases r)
    case (Inl e)
    then show ?thesis using dec r by (auto simp: answers_def pumped_def)
  next
    case (Inr y)
    obtain ev d' a' where y: "y = (ev, d', a')" by (rule prod_cases3)
    let ?k = "consumed_this_call d'"
    have ans: "answers d a buf 0 (Inr (ev, d', ?k, a'))" using r Inr y by simp
    show ?thesis
    proof (cases ev)
      case (Event_Data off n)
      then have m: "moves d a (take ?k buf) d' a' (take n (drop off buf))" and k: "0 < ?k" "?k \<le> length buf"
        and st: "d_state d' \<in> {State_Data, State_DataCrlf}"
        using ans by (auto simp: answers_def advances_def)
      then have ok': "decoder_ok d' a'" "d_trailer_scan d' = 0" by (auto simp: moves_def decoder_ok_def)
      have "length (drop ?k buf) < 2 ^ 63" "length (drop ?k buf) < fuel" using Suc.prems(2,3) k unfolding length_drop by linarith+
      then obtain res where res: "pump se fuel d' (drop ?k buf) a' = Some res" "pumped d' a' (drop ?k buf) res"
        using Suc.IH [OF ok'(1)] by blast
      have "pumped d a buf (case res of Inl e \<Rightarrow> Inl e
          | Inr (d2, rest, a2, body) \<Rightarrow> Inr (d2, rest, a2, take n (drop off buf) @ body))"
        using pumped_after [OF m _ res(2)] ok'(2) by simp
      then show ?thesis using dec Inr y Event_Data res(1) by (auto split: sum.split)
    next
      case Event_NeedMore
      then show ?thesis using answers_pumped [OF ans] dec Inr y by simp
    next
      case (Event_Done j)
      then show ?thesis using answers_pumped [OF ans] dec Inr y by simp
    qed
  qed
qed simp

declare pump.simps [simp del]

definition fed ::
  "chunked_decoder \<Rightarrow> bytes \<Rightarrow> bytes \<Rightarrow> bytes list \<Rightarrow>
   reject_reason + chunked_decoder \<times> bytes \<times> bytes \<times> bytes \<Rightarrow> bool" where
  "fed d a left segs res \<longleftrightarrow>
     (case res of
        Inl e \<Rightarrow> stuck d a (left @ concat segs) \<or>
          e = FieldLineTooLong \<and> HeadScan_MAX_BYTES < d_trailer_scan d + length (concat segs) + length segs * search_cap d
      | Inr (d', rest, a', body) \<Rightarrow>
          (\<exists>x. left @ concat segs = x @ rest \<and> moves d a x d' a' body) \<and> (d_state d' = State_Done \<or> waits d' a' rest))"

lemma moves_limits: "moves d a x d' a' out \<Longrightarrow> search_cap d' = search_cap d"
  by (simp add: moves_def search_cap_def)

lemma pumped_fed:
  assumes len: "length left \<le> search_cap d" and p: "pumped d a (left @ s) res"
    and res: "\<And>d' rest a' body. res = Inr (d', rest, a', body) \<Longrightarrow> d_state d' = State_Done"
  shows "fed d a left (s # ss) (case res of Inl e \<Rightarrow> Inl e | Inr (d', rest, a', body) \<Rightarrow> Inr (d', rest @ concat ss, a', body))"
proof (cases res)
  case (Inl e)
  have "stuck d a (left @ s) \<Longrightarrow> stuck d a (left @ s @ concat ss)" by (simp add: stuck_def)
  then show ?thesis using Inl p len by (auto simp: pumped_def fed_def)
next
  case (Inr y)
  obtain d' rest a' body where y: "y = (d', rest, a', body)" by (rule prod_cases4)
  obtain x where "left @ s = x @ rest" "moves d a x d' a' body" using p Inr y by (auto simp: pumped_def)
  moreover have "left @ concat (s # ss) = (left @ s) @ concat ss" by simp
  ultimately show ?thesis using Inr y res by (auto simp: fed_def)
qed

lemma fed_after:
  assumes len: "length left \<le> search_cap d" and x: "left @ s = x @ rest" and m: "moves d a x d1 a1 out"
    and scan: "d_trailer_scan d1 \<le> d_trailer_scan d + length (left @ s)" and f: "fed d1 a1 rest ss res"
  shows "fed d a left (s # ss) (case res of Inl e \<Rightarrow> Inl e | Inr (d2, rest, a2, body) \<Rightarrow> Inr (d2, rest, a2, out @ body))"
proof -
  have whole: "left @ concat (s # ss) = x @ rest @ concat ss" using x by (metis append_assoc concat.simps(2))
  show ?thesis
  proof (cases res)
    case (Inl e)
    then show ?thesis
      using f len scan moves_stuck [OF m, of "rest @ concat ss"] moves_limits [OF m]
      unfolding fed_def whole by (auto simp del: concat.simps) (auto)
  next
    case (Inr y)
    obtain d2 rest2 a2 body where y: "y = (d2, rest2, a2, body)" by (rule prod_cases4)
    obtain z where "rest @ concat ss = z @ rest2" "moves d1 a1 z d2 a2 body" using f Inr y by (auto simp: fed_def)
    then have "x @ rest @ concat ss = (x @ z) @ rest2" "moves d a (x @ z) d2 a2 (out @ body)"
      using moves_trans [OF m] by simp_all
    then show ?thesis using f Inr y unfolding fed_def whole by auto
  qed
qed

lemma feed_fed:
  assumes se: "finds_first se"
  shows "decoder_ok d a \<Longrightarrow> d_state d \<noteq> State_Done \<Longrightarrow> waits d a left \<Longrightarrow> length (left @ concat segs) < 2 ^ 63 \<Longrightarrow>
    \<exists>res. feed se d left a segs = Some res \<and> fed d a left segs res"
proof (induction segs arbitrary: d left a)
  case Nil
  then show ?case using moves_refl [of d a] by (auto simp: fed_def)
next
  case (Cons s ss)
  have len: "length left \<le> search_cap d" using Cons.prems(3) by (simp add: waits_def)
  obtain res where res: "pump se (Suc (length (left @ s))) d (left @ s) a = Some res" "pumped d a (left @ s) res"
    using pump_pumped [OF se Cons.prems(1), of "left @ s" "Suc (length (left @ s))"] Cons.prems(4) by auto
  show ?case
  proof (cases "\<exists>d1 rest a1 body. res = Inr (d1, rest, a1, body) \<and> d_state d1 \<noteq> State_Done")
    case False
    then have "fed d a left (s # ss) (case res of Inl e \<Rightarrow> Inl e | Inr (d', rest, a', body) \<Rightarrow> Inr (d', rest @ concat ss, a', body))"
      using pumped_fed [OF len res(2)] by blast
    then show ?thesis using False res(1) by (auto simp: is_done_def split: sum.split)
  next
    case True
    then obtain d1 rest a1 body where r: "res = Inr (d1, rest, a1, body)" and nd: "d_state d1 \<noteq> State_Done" by blast
    have w: "waits d1 a1 rest" and scan: "d_trailer_scan d1 \<le> d_trailer_scan d + length (left @ s)"
      using res(2) r nd by (simp_all add: pumped_def)
    obtain x where x: "left @ s = x @ rest" and m: "moves d a x d1 a1 body" using res(2) r by (auto simp: pumped_def)
    have "length (rest @ concat ss) \<le> length (left @ concat (s # ss))" using arg_cong [OF x, of length] by simp
    then obtain res2 where f: "feed se d1 rest a1 ss = Some res2" "fed d1 a1 rest ss res2"
      using Cons.IH [of d1 a1 rest] m nd w Cons.prems(4) by (auto simp: moves_def)
    show ?thesis using fed_after [OF len x m scan f(2)] res(1) r nd f(1) by (auto simp: is_done_def split: sum.split)
  qed
qed

end
