(* ===== verification/Http_Chunked_Stream.thy ===== *)
theory Http_Chunked_Stream
  imports Http_Chunked_Correct
begin

text \<open>
  The guarantees of the chunked decoder over a whole connection: the invariant of every decoder that
  successive calls can reach, that every call returns, and that a stream cut into segments anywhere is
  decoded exactly when it is a message of the grammar.
\<close>

section \<open>The decoders that calls reach\<close>

text \<open>
  A decoder starts fresh, every call hands it a buffer, and between calls the caller may use the arena for
  something else, except while trailers are being collected in it.
\<close>

inductive serving :: "searchers \<Rightarrow> http_limits \<Rightarrow> underscore_policy \<Rightarrow> chunked_decoder \<Rightarrow> bytes \<Rightarrow> bool"
  for se l policy where
  start: "length a < 2 ^ 63 \<Longrightarrow> serving se l policy (decoder_new (clamped l) policy) a"
| call: "serving se l policy d a \<Longrightarrow> length buf < 2 ^ 63 \<Longrightarrow> decode se d buf a = Some (Inr (ev, d', a')) \<Longrightarrow>
    serving se l policy d' a'"
| arena: "serving se l policy d a \<Longrightarrow> d_state d \<noteq> State_Trailers \<Longrightarrow> length a' < 2 ^ 63 \<Longrightarrow> serving se l policy d a'"

lemma decoder_ok_arena:
  "decoder_ok d a \<Longrightarrow> d_state d \<noteq> State_Trailers \<Longrightarrow> length a' < 2 ^ 63 \<Longrightarrow> decoder_ok d a'"
  by (auto simp: decoder_ok_def split: chunk_state.splits)

lemma serving_ok: "serving se l policy d a \<Longrightarrow> finds_first se \<Longrightarrow> decoder_ok d a"
proof (induction rule: serving.induct)
  case (start a)
  then show ?case by (simp add: decoder_new_ok is_clamped_clamped)
next
  case (call d a buf ev d' a')
  then have "answers d a buf 0 (Inr (ev, d', consumed_this_call d', a'))"
    using decode_answers [of se d a buf] by auto
  then show ?case by (cases ev) (auto simp: answers_def advances_def moves_def)
next
  case (arena d a a')
  then show ?case using decoder_ok_arena by blast
qed

text \<open>
  C24. Every decoder that calls can reach is well formed: it has read at most 16 size digits and the size is
  below 16 to their number, the extension count is within its limit, a chunk in progress has bytes left and
  a finished one none, the trailer builder holds a well-formed section whose count and size agree with the
  trailer budget and stay within the clamped limits, nothing was charged to the trailer scan budget before
  the trailers, and a finished decoder holds a well-formed section.
\<close>

theorem decoder_invariant:
  assumes "finds_first se" and "serving se l policy d a"
  shows "decoder_ok d a"
  using assms(2,1) by (rule serving_ok)

lemma serving_decode:
  assumes "finds_first se" and "serving se l policy d a" and "length buf < 2 ^ 63"
  shows "case decode se d buf a of
      None \<Rightarrow> False
    | Some (Inl e) \<Rightarrow> True
    | Some (Inr (ev, d', a')) \<Rightarrow>
        consumed_this_call d' \<le> length buf \<and> serving se l policy d' a' \<and>
        (case ev of
           Event_Data off n \<Rightarrow> 0 < n \<and> off + n \<le> length buf \<and> 0 < consumed_this_call d'
         | Event_NeedMore \<Rightarrow> \<not> is_done d'
         | Event_Done _ \<Rightarrow> is_done d')"
proof -
  obtain r where r: "decode se d buf a = Some r"
    "case r of Inl e \<Rightarrow> answers d a buf 0 (Inl e)
     | Inr (ev, d', a') \<Rightarrow> answers d a buf 0 (Inr (ev, d', consumed_this_call d', a'))"
    using decode_answers [OF assms(1) serving_ok [OF assms(2,1)] assms(3)] by blast
  show ?thesis
  proof (cases r)
    case (Inr y)
    obtain ev d' a' where y: "y = (ev, d', a')" by (rule prod_cases3)
    have "serving se l policy d' a'" using serving.call [OF assms(2,3)] r(1) Inr y by simp
    then show ?thesis using r Inr y by (cases ev) (auto simp: answers_def advances_def is_done_def)
  qed (simp add: r(1))
qed

text \<open>
  C30. Every call of the decoder returns: on any buffer, neither loop runs out of its fuel of one unit per byte
  and one more, and the arena is never cut short of the section it holds. The call consumes no more than
  the buffer holds; a data event names a non-empty range inside the buffer and makes progress; the end is
  reported exactly by a decoder that is done.
\<close>

theorem decode_returns:
  assumes "finds_first se" and "serving se l policy d a" and "length buf < 2 ^ 63"
  shows "case decode se d buf a of
      None \<Rightarrow> False
    | Some (Inl e) \<Rightarrow> True
    | Some (Inr (ev, d', a')) \<Rightarrow>
        consumed_this_call d' \<le> length buf \<and> serving se l policy d' a' \<and>
        (case ev of
           Event_Data off n \<Rightarrow> 0 < n \<and> off + n \<le> length buf \<and> 0 < consumed_this_call d'
         | Event_NeedMore \<Rightarrow> \<not> is_done d'
         | Event_Done _ \<Rightarrow> is_done d')"
  using assms by (rule serving_decode)

section \<open>Whole streams\<close>

definition decodes_to ::
  "searchers \<Rightarrow> chunked_decoder \<Rightarrow> bytes \<Rightarrow> bytes \<Rightarrow> bytes list \<Rightarrow>
   bytes \<Rightarrow> (bytes \<times> bytes \<times> field_flags) list \<Rightarrow> bytes \<Rightarrow> bool" where
  "decodes_to se d left a segs B T R \<longleftrightarrow>
     (case feed se d left a segs of
        Some (Inr (d', rest, _, body)) \<Rightarrow> is_done d' \<and> body = B \<and> map_option iter (d_trailers d') = Some T \<and> rest = R
      | _ \<Rightarrow> False)"

lemma decodes_to_pending:
  assumes "finds_first se" and "decoder_ok d a" and "d_state d \<noteq> State_Done" and "waits d a left"
    and "length (left @ concat segs) < 2 ^ 63" and dec: "decodes_to se d left a segs B T R"
  shows "pending d a (left @ concat segs) B T R"
proof -
  obtain d' a' where f: "feed se d left a segs = Some (Inr (d', R, a', B))" and d': "d_state d' = State_Done"
    "map_option iter (d_trailers d') = Some T"
    using dec by (auto simp: decodes_to_def is_done_def split: option.splits sum.splits)
  then obtain x where x: "left @ concat segs = x @ R" and m: "moves d a x d' a' B"
    using feed_fed [OF assms(1-5)] by (auto simp: fed_def)
  have "pending d' a' R [] T R" using d' by (auto simp: pending_def)
  then show ?thesis using m unfolding x moves_def by auto
qed

lemma pending_decodes_to:
  assumes "finds_first se" and "decoder_ok d a" and "d_state d \<noteq> State_Done" and "waits d a left"
    and "length (left @ concat segs) < 2 ^ 63" and p: "pending d a (left @ concat segs) B T R"
    and scan: "d_trailer_scan d + length (concat segs) + length segs * search_cap d \<le> HeadScan_MAX_BYTES"
  shows "decodes_to se d left a segs B T R"
proof -
  obtain res where res: "feed se d left a segs = Some res" "fed d a left segs res" using feed_fed [OF assms(1-5)] by blast
  show ?thesis
  proof (cases res)
    case (Inl e)
    then have "stuck d a (left @ concat segs)" using res(2) scan by (auto simp: fed_def)
    then show ?thesis using p unfolding stuck_def by (metis append.right_neutral)
  next
    case (Inr y)
    obtain d' rest a' body where y: "y = (d', rest, a', body)" by (rule prod_cases4)
    obtain x where x: "left @ concat segs = x @ rest" and m: "moves d a x d' a' body"
      and fin: "d_state d' = State_Done \<or> waits d' a' rest" using res(2) Inr y by (auto simp: fed_def)
    obtain B' where B': "B = body @ B'" "pending d' a' rest B' T R" using p m unfolding x moves_def by blast
    then have "d_state d' = State_Done" using fin by (auto simp: waits_def)
    then show ?thesis using B' res(1) Inr y by (auto simp: decodes_to_def is_done_def pending_def)
  qed
qed

lemma fresh_waits: "waits (decoder_new l policy) a []"
  by (simp add: waits_def pending_def decoder_new_def)

lemma decodes_to_iff:
  assumes "finds_first se" and "is_clamped l" and "length a < 2 ^ 63"
    and scan: "length (concat segs) + length segs * (max_field_line_bytes l + 64) \<le> HeadScan_MAX_BYTES"
  shows "decodes_to se (decoder_new l policy) [] a segs B T R \<longleftrightarrow> message l policy (concat segs) B T R"
proof -
  have ok: "decoder_ok (decoder_new l policy) a" "d_state (decoder_new l policy) \<noteq> State_Done"
    using decoder_new_ok [OF assms(2,3)] by (simp_all add: decoder_new_def)
  have len: "length ([] @ concat segs) < 2 ^ 63" using scan by (simp add: HeadScan_MAX_BYTES_def)
  have cap: "d_trailer_scan (decoder_new l policy) + length (concat segs) + length segs * search_cap (decoder_new l policy)
      \<le> HeadScan_MAX_BYTES"
    using scan by (simp add: decoder_new_def search_cap_def TRAILER_SEARCH_CAP_SLACK_def)
  show ?thesis
    using decodes_to_pending [OF assms(1) ok fresh_waits len, of B T R] pending_decodes_to [OF assms(1) ok fresh_waits len _ cap, of B T R]
    by (auto simp: pending_new)
qed


definition demo_segs :: "bytes list" where
  "demo_segs = [''4;x=y'' @ [CR, LF] @ ''Wi'', ''ki'' @ [CR], [LF] @ ''0'' @ [CR, LF] @ ''X-Sum: 7'' @ [CR], [LF, CR, LF] @ ''GET'']"

definition demo_trailers :: "(bytes \<times> bytes \<times> field_flags) list" where
  "demo_trailers = [(''x-sum'', ''7'', mapped_flags False)]"

lemma demo_decodes:
  "decodes_to linear_searchers (decoder_new DEFAULT_limits UnderscorePolicy_Reject) [] [] demo_segs ''Wiki'' demo_trailers ''GET''"
  by code_simp


section \<open>What a finished decoder hands over\<close>

definition admissible_trailer :: "bytes \<times> bytes \<times> field_flags \<Rightarrow> bool" where
  "admissible_trailer f \<longleftrightarrow> name_ok (field_name f) \<and> value_ok (field_value f) \<and> \<not> trailer_denied (classify (field_name f))"

lemma trailer_line_admissible:
  assumes "is_clamped lim" and "trailer_line lim policy line f"
  shows "admissible_trailer f"
proof -
  obtain name v where f: "line = name @ CHR '':'' # v" "f = line_field policy name v" "name_ok (canonical_name policy name)"
    "value_ok v" "length line + 2 \<le> max_field_line_bytes lim + 64" "\<not> trailer_denied (classify (canonical_name policy name))"
    using assms(2) unfolding trailer_line_def by blast
  then have "length v \<le> usize_max" using is_clampedD(2) [OF assms(1)] by (simp add: usize_max_def)
  then show ?thesis using f value_ok_trim [of v] by (simp add: admissible_trailer_def line_field_def)
qed

lemma message_trailers:
  "message lim policy w B T R \<Longrightarrow> is_clamped lim \<Longrightarrow>
   list_all admissible_trailer T \<and> one_provenance T \<and> length T \<le> max_field_count lim \<and>
   sum_list (map field_size T) \<le> max_header_list_bytes lim"
proof (induction rule: message.induct)
  case (last_chunk z w T R)
  then obtain lines where "list_all2 (trailer_line lim policy) lines T" "fields_fit lim 0 0 T" "one_provenance T"
    unfolding trailer_section_def trailer_lines_def by blast
  moreover have "list_all admissible_trailer T"
    using calculation(1) by (induction rule: list_all2_induct) (simp_all add: trailer_line_admissible [OF last_chunk.prems])
  ultimately show ?case by (auto simp: fields_fit_def)
qed simp

lemma decodes_to_sound:
  assumes "finds_first se" and "is_clamped l" and "length a < 2 ^ 63" and "length (concat segs) < 2 ^ 63"
    and "decodes_to se (decoder_new l policy) [] a segs B T R"
  shows "message l policy (concat segs) B T R"
proof -
  have ok: "decoder_ok (decoder_new l policy) a" "d_state (decoder_new l policy) \<noteq> State_Done"
    using decoder_new_ok [OF assms(2,3)] by (simp_all add: decoder_new_def)
  then have "pending (decoder_new l policy) a ([] @ concat segs) B T R"
    using decodes_to_pending [OF assms(1) ok fresh_waits _ assms(5)] assms(4) by simp
  then show ?thesis by (simp add: pending_new)
qed

text \<open>
  C21. Whatever a stream does, and however long it is, a decoder that ends has read a chunked message, and the
  trailers it hands over are safe to merge: no framing, routing, authentication or payload-processing
  field of the deny list is among them, every name and value is valid, no name occurs both as sent and as
  mapped from an underscore, and count and size are within the limits.
\<close>

theorem trailers_admissible:
  assumes "finds_first se" and "is_clamped l" and "length a < 2 ^ 63" and "length (concat segs) < 2 ^ 63"
    and "decodes_to se (decoder_new l policy) [] a segs B T R"
  shows "message l policy (concat segs) B T R \<and> list_all admissible_trailer T \<and> one_provenance T \<and>
    length T \<le> max_field_count l \<and> sum_list (map field_size T) \<le> max_header_list_bytes l"
  using decodes_to_sound [OF assms] message_trailers [OF decodes_to_sound [OF assms] assms(2)] by simp

theorem trailers_admissible_witness:
  "message DEFAULT_limits UnderscorePolicy_Reject (concat demo_segs) ''Wiki'' demo_trailers ''GET'' \<and>
   list_all admissible_trailer demo_trailers"
proof -
  have "length (concat demo_segs) < 2 ^ 63" by (simp add: demo_segs_def)
  from trailers_admissible [OF finds_first_linear is_clamped_DEFAULT _ this demo_decodes] show ?thesis by simp
qed


section \<open>A decoder in the middle of its chunk\<close>

definition demo_mid :: chunked_decoder where
  "demo_mid = (decoder_new (clamped DEFAULT_limits) UnderscorePolicy_Reject)
     \<lparr>d_state := State_Data, d_remaining := 2, d_delivered := 2, d_ext_mode := Ext_TopLevel,
      d_last_consumed := 9\<rparr>"

lemma demo_decode:
  "decode linear_searchers (decoder_new (clamped DEFAULT_limits) UnderscorePolicy_Reject) (hd demo_segs) [] =
     Some (Inr (Event_Data 7 2, demo_mid, []))"
  by code_simp

lemma demo_serving: "serving linear_searchers DEFAULT_limits UnderscorePolicy_Reject demo_mid []"
  by (rule serving.call [OF serving.start _ demo_decode]) (simp_all add: demo_segs_def)

theorem decoder_invariant_witness: "decoder_ok demo_mid []"
  by (rule decoder_invariant [OF finds_first_linear demo_serving])

theorem decode_returns_witness: "decode linear_searchers demo_mid (''ki'' @ [CR]) [] \<noteq> None"
  using decode_returns [OF finds_first_linear demo_serving, of "''ki'' @ [CR]"] by (auto split: option.splits)

lemma demo_mid_ready: "\<not> is_done demo_mid" "waits demo_mid [] []"
  by (simp_all add: demo_mid_def is_done_def waits_def pending_data_Nil)

lemma demo_mid_decodes: "decodes_to linear_searchers demo_mid [] [] (tl demo_segs) ''ki'' demo_trailers ''GET''"
  by code_simp


section \<open>The trailer budget and the builder agree\<close>

lemma charge_admit:
  assumes inv: "trailers_ok lim b budget a" and len: "n + v \<le> max_field_line_bytes lim"
  shows "fst (charge budget n v) = (case builder_admit b n v of Inl e \<Rightarrow> Inl e | Inr _ \<Rightarrow> Inr ())"
proof -
  have b: "b_limits b = lim" "is_clamped lim" "length (b_slots b) \<le> max_field_count lim" "b_list_bytes b \<le> max_header_list_bytes lim"
    and budget: "budget = \<lparr>hb_used = b_list_bytes b, hb_limit = max_header_list_bytes lim, hb_count = length (b_slots b),
      hb_max_count = max_field_count lim\<rparr>"
    using inv by (auto simp: trailers_ok_def builder_ok_def)
  have lim: "max_field_count lim \<le> 1000" "max_field_line_bytes lim \<le> 65535" "max_header_list_bytes lim \<le> 1048576"
    using is_clampedD(1,2,3) [OF b(2)] by simp_all
  show ?thesis
    using b(3,4) lim len unfolding budget
    by (simp add: charge_def builder_admit_def Let_def b(1) sat_add64_def sat_add32_def sat_add_def to_u32_def
        u64_max_def u32_max_def u16_max_def usize_max_def)
qed

text \<open>
  The separate charge of a trailer line to the trailer budget is redundant, as the comment in
  \<^verbatim>\<open>step_trailers\<close> suspects from its tests: in every decoder that calls can reach, for every line
  within the line limit, the budget refuses exactly when the builder's own admission does, and for the same
  reason, so deleting the charge changes no result.
\<close>

theorem trailer_budget_redundant:
  assumes "finds_first se" and "serving se l policy d a" and "d_state d = State_Trailers" and "d_builder d = Some b"
    and "n + v \<le> max_field_line_bytes (d_limits d)"
  shows "fst (charge (d_budget d) n v) = (case builder_admit b n v of Inl e \<Rightarrow> Inl e | Inr _ \<Rightarrow> Inr ())"
  using serving_ok [OF assms(2,1)] assms(3-) charge_admit [of "d_limits d" b "d_budget d" a n v] by (simp add: decoder_ok_def)

definition demo_trailing :: chunked_decoder where
  "demo_trailing = (decoder_new (clamped DEFAULT_limits) UnderscorePolicy_Reject)
     \<lparr>d_state := State_Trailers, d_size_digits := 1, d_builder := Some (builder_new [] (clamped DEFAULT_limits)),
      d_last_consumed := 3\<rparr>"

lemma demo_trailing_serving: "serving linear_searchers DEFAULT_limits UnderscorePolicy_Reject demo_trailing []"
proof (rule serving.call [OF serving.start])
  show "decode linear_searchers (decoder_new (clamped DEFAULT_limits) UnderscorePolicy_Reject) (''0'' @ [CR, LF]) [] =
      Some (Inr (Event_NeedMore, demo_trailing, []))"
    by code_simp
qed simp_all

theorem trailer_budget_redundant_witness:
  "fst (charge (d_budget demo_trailing) 5 1) =
     (case builder_admit (builder_new [] (clamped DEFAULT_limits)) 5 1 of Inl e \<Rightarrow> Inl e | Inr _ \<Rightarrow> Inr ())"
proof (rule trailer_budget_redundant [OF finds_first_linear demo_trailing_serving])
  show "d_state demo_trailing = State_Trailers" "d_builder demo_trailing = Some (builder_new [] (clamped DEFAULT_limits))"
    by (simp_all add: demo_trailing_def)
  show "(5 :: nat) + 1 \<le> max_field_line_bytes (d_limits demo_trailing)" by code_simp
qed

end
