(* ===== verification/Http_Head.thy ===== *)
theory Http_Head
  imports Http_Budget Http_Field Http_Lines
begin

text \<open>
  The HTTP/1 head parser (\<^verbatim>\<open>h1/parser.rs\<close>): spans, the search for the end of the head with its check for
  bare carriage returns and line feeds, the request and status lines and the loop over the field lines.
  The searchers of the \<^verbatim>\<open>memchr\<close> crate are the parameter \<open>se\<close>. The loop over the field lines carries fuel,
  one unit per byte of the buffer and one more; running out of it is the value None.
\<close>

section \<open>Spans and heads\<close>

record head_span =
  hs_start :: nat
  hs_end :: nat

definition hs_len :: "head_span \<Rightarrow> nat" where
  "hs_len s = hs_end s - hs_start s"

definition hs_is_empty :: "head_span \<Rightarrow> bool" where
  "hs_is_empty s \<longleftrightarrow> hs_start s = hs_end s"

definition hs_of :: "head_span \<Rightarrow> bytes \<Rightarrow> bytes option" where
  "hs_of s buf = get_range buf (hs_start s) (hs_end s)"

definition make_span :: "nat \<Rightarrow> nat \<Rightarrow> reject_reason + head_span" where
  "make_span start stop =
     (if start > u32_max then Inl HeaderListTooLarge
      else if stop > u32_max then Inl HeaderListTooLarge
      else Inr \<lparr>hs_start = start, hs_end = stop\<rparr>)"

record raw_field =
  rf_name :: head_span
  rf_value :: head_span
  needs_lowercase :: bool

record raw_head =
  rh_method :: head_span
  rh_target :: head_span
  rh_version :: wire_version
  rh_fields :: "raw_field list"
  rh_buf :: bytes

definition method_bytes :: "raw_head \<Rightarrow> bytes" where
  "method_bytes h = (case hs_of (rh_method h) (rh_buf h) of Some bs \<Rightarrow> bs | None \<Rightarrow> [])"

definition target_bytes :: "raw_head \<Rightarrow> bytes" where
  "target_bytes h = (case hs_of (rh_target h) (rh_buf h) of Some bs \<Rightarrow> bs | None \<Rightarrow> [])"

definition head_field_name :: "raw_head \<Rightarrow> nat \<Rightarrow> bytes option" where
  "head_field_name h i = Option.bind (get (rh_fields h) i) (\<lambda>f. hs_of (rf_name f) (rh_buf h))"

definition head_field_value :: "raw_head \<Rightarrow> nat \<Rightarrow> bytes option" where
  "head_field_value h i = Option.bind (get (rh_fields h) i) (\<lambda>f. hs_of (rf_value f) (rh_buf h))"

definition field_count :: "raw_head \<Rightarrow> nat" where
  "field_count h = length (rh_fields h)"

record raw_response_head =
  rr_status :: status_code
  rr_version :: wire_version
  rr_fields :: "raw_field list"
  rr_buf :: bytes

definition response_field_name :: "raw_response_head \<Rightarrow> nat \<Rightarrow> bytes option" where
  "response_field_name h i = Option.bind (get (rr_fields h) i) (\<lambda>f. hs_of (rf_name f) (rr_buf h))"

definition response_field_value :: "raw_response_head \<Rightarrow> nat \<Rightarrow> bytes option" where
  "response_field_value h i = Option.bind (get (rr_fields h) i) (\<lambda>f. hs_of (rf_value f) (rr_buf h))"

definition response_field_count :: "raw_response_head \<Rightarrow> nat" where
  "response_field_count h = length (rr_fields h)"

record h1_parser =
  ps_limits :: http_limits
  ps_underscores :: underscore_policy

section \<open>The end of the head\<close>

definition max_head_bytes :: "http_limits \<Rightarrow> nat" where
  "max_head_bytes limits = sat_add (sat_add (max_request_line_bytes limits) (max_header_list_bytes limits)) 2"

definition bare_check_region :: "bytes \<Rightarrow> nat option \<Rightarrow> bytes" where
  "bare_check_region buf terminator =
     (case terminator of
        Some t \<Rightarrow> (case get_range buf 0 (sat_add t 4) of Some r \<Rightarrow> r | None \<Rightarrow> buf)
      | None \<Rightarrow>
          if buf \<noteq> [] \<and> last buf = CR
          then (case get_range buf 0 (length buf - 1) of Some r \<Rightarrow> r | None \<Rightarrow> [])
          else buf)"

fun bare_loop :: "bytes \<Rightarrow> nat \<Rightarrow> bytes \<Rightarrow> reject_reason + unit" where
  "bare_loop region i [] = Inr ()"
| "bare_loop region i (b # bs) =
     (if b = CR then
        (if get region (sat_add i 1) \<noteq> Some LF then Inl BareCr else bare_loop region (Suc i) bs)
      else if b = LF then
        (if \<not> (i \<noteq> 0 \<and> get region (i - 1) = Some CR) then Inl BareLf else bare_loop region (Suc i) bs)
      else bare_loop region (Suc i) bs)"

definition check_bare_cr_lf :: "bytes \<Rightarrow> reject_reason + unit" where
  "check_bare_cr_lf region = bare_loop region 0 region"

definition locate_terminator :: "searchers \<Rightarrow> bytes \<Rightarrow> http_limits \<Rightarrow> reject_reason + nat option" where
  "locate_terminator se buf limits =
     (let terminator = memmem se buf [CR, LF, CR, LF] in
      and_then (check_bare_cr_lf (bare_check_region buf terminator)) (\<lambda>_.
        case terminator of
          Some t \<Rightarrow> Inr (Some t)
        | None \<Rightarrow> if length buf > max_head_bytes limits then Inl HeaderListTooLarge else Inr None))"

section \<open>Field lines\<close>

fun scan_name :: "underscore_policy \<Rightarrow> bytes \<Rightarrow> bool \<Rightarrow> reject_reason + bool" where
  "scan_name underscores [] lower = Inr lower"
| "scan_name underscores (b # bs) lower =
     (if is_ascii_uppercase b then scan_name underscores bs True
      else if b = CHR ''_'' then
        (if underscores = UnderscorePolicy_Reject then Inl FieldNameUnderscore else scan_name underscores bs lower)
      else if \<not> name_byte_ok b then Inl FieldNameInvalidByte
      else scan_name underscores bs lower)"

text \<open>The offset of the trimmed value in the raw one, which the code takes as the distance of the two pointers.\<close>

definition ows_lead :: "bytes \<Rightarrow> nat" where
  "ows_lead v = (case position (\<lambda>b. \<not> is_ows b) v of Some i \<Rightarrow> i | None \<Rightarrow> length v)"

definition parse_field_line ::
  "http_limits \<Rightarrow> underscore_policy \<Rightarrow> header_list_budget \<Rightarrow> nat \<Rightarrow> bytes \<Rightarrow>
   reject_reason + raw_field \<times> header_list_budget" where
  "parse_field_line limits underscores budget pos line =
     (if line \<noteq> [] \<and> is_ows (hd line) then Inl ObsFold
      else and_then (ok_or (position (\<lambda>b. b = CHR '':'') line) RequestLineMalformed) (\<lambda>colon.
        if colon = 0 then Inl FieldNameEmpty
        else if (case get line (colon - 1) of Some b \<Rightarrow> is_ows b | None \<Rightarrow> False) then Inl WhitespaceBeforeColon
        else (let name_raw = take colon line in
          and_then (scan_name underscores name_raw False) (\<lambda>lower.
            let value_raw = drop (sat_add colon 1) line;
                value_trimmed = trim_ows value_raw
            in if \<not> list_all value_byte_ok value_trimmed then Inl FieldValueInvalidByte
               else if sat_add (length name_raw) (length value_trimmed) > max_field_line_bytes limits
               then Inl FieldLineTooLong
               else (case charge budget (length name_raw) (length value_trimmed) of
                  (Inl e, _) \<Rightarrow> Inl e
                | (Inr _, budget') \<Rightarrow>
                    and_then (make_span pos (sat_add pos colon)) (\<lambda>name_span.
                      let value_start = sat_add (sat_add (sat_add pos colon) 1) (ows_lead value_raw) in
                      and_then (make_span value_start (sat_add value_start (length value_trimmed))) (\<lambda>value_span.
                        Inr (\<lparr>rf_name = name_span, rf_value = value_span, needs_lowercase = lower\<rparr>, budget'))))))))"

fun field_lines_loop ::
  "searchers \<Rightarrow> nat \<Rightarrow> bytes \<Rightarrow> nat \<Rightarrow> nat \<Rightarrow> http_limits \<Rightarrow> underscore_policy \<Rightarrow> header_list_budget \<Rightarrow> raw_field list \<Rightarrow>
   (reject_reason + raw_field list) option" where
  "field_lines_loop se 0 buf pos terminator limits underscores budget acc = None"
| "field_lines_loop se (Suc fuel) buf pos terminator limits underscores budget acc =
     (if pos < terminator then
        (case get_range buf pos (sat_add terminator 2) of
           None \<Rightarrow> Some (Inl RequestLineMalformed)
         | Some region \<Rightarrow>
             (case memmem se region [CR, LF] of
                None \<Rightarrow> Some (Inl RequestLineMalformed)
              | Some rel \<Rightarrow>
                  (let line_end = sat_add pos rel in
                   case get_range buf pos line_end of
                     None \<Rightarrow> Some (Inl RequestLineMalformed)
                   | Some line \<Rightarrow>
                       (case parse_field_line limits underscores budget pos line of
                          Inl e \<Rightarrow> Some (Inl e)
                        | Inr (f, budget') \<Rightarrow>
                            field_lines_loop se fuel buf (sat_add line_end 2) terminator limits underscores budget'
                              (acc @ [f])))))
      else Some (Inr acc))"

definition parse_field_lines ::
  "searchers \<Rightarrow> bytes \<Rightarrow> nat \<Rightarrow> nat \<Rightarrow> http_limits \<Rightarrow> underscore_policy \<Rightarrow> (reject_reason + raw_field list) option" where
  "parse_field_lines se buf start terminator limits underscores =
     field_lines_loop se (Suc (length buf)) buf start terminator limits underscores (budget_new limits) []"

section \<open>Request and status lines\<close>

definition parse_version :: "bytes \<Rightarrow> reject_reason + wire_version" where
  "parse_version bs =
     (if bs = ''HTTP/1.1'' then Inr Http11 else if bs = ''HTTP/1.0'' then Inr Http10 else Inl VersionUnsupported)"

definition get_from :: "'a list \<Rightarrow> nat \<Rightarrow> 'a list option" where
  "get_from xs n = (if n \<le> length xs then Some (drop n xs) else None)"

definition parse_request_line ::
  "http_limits \<Rightarrow> bytes \<Rightarrow> reject_reason + head_span \<times> head_span \<times> wire_version" where
  "parse_request_line limits line =
     (if HTAB \<in> set line \<or> get line 0 = Some SP \<or> (line \<noteq> [] \<and> last line = SP) then Inl RequestLineMalformed
      else and_then (ok_or (position (\<lambda>b. b = SP) line) RequestLineMalformed) (\<lambda>first_sp.
        and_then (ok_or (get_from line (sat_add first_sp 1)) RequestLineMalformed) (\<lambda>after_method.
        and_then (ok_or (position (\<lambda>b. b = SP) after_method) RequestLineMalformed) (\<lambda>second_sp.
        and_then (ok_or (get_range line 0 first_sp) RequestLineMalformed) (\<lambda>mbytes.
        and_then (ok_or (get_range after_method 0 second_sp) RequestLineMalformed) (\<lambda>tbytes.
        and_then (ok_or (get_from after_method (sat_add second_sp 1)) RequestLineMalformed) (\<lambda>vbytes.
        if SP \<in> set vbytes then Inl RequestLineMalformed
        else and_then (parse_method mbytes limits) (\<lambda>_.
          and_then (parse_version vbytes) (\<lambda>version.
            if CHR ''#'' \<in> set tbytes then Inl TargetFragment
            else if tbytes = [] then Inl RequestLineMalformed
            else and_then (make_span 0 first_sp) (\<lambda>method_span.
              let target_start = sat_add first_sp 1 in
              and_then (make_span target_start (sat_add target_start second_sp)) (\<lambda>target_span.
                Inr (method_span, target_span, version))))))))))))"

text \<open>The step both heads share: from the first line break to the field lines.\<close>

definition parse_head_with ::
  "searchers \<Rightarrow> h1_parser \<Rightarrow> (http_limits \<Rightarrow> bytes \<Rightarrow> reject_reason + 'l) \<Rightarrow> bytes \<Rightarrow>
   (reject_reason + ('l \<times> raw_field list) parse_status) option" where
  "parse_head_with se p parse_line buf =
     (case locate_terminator se buf (ps_limits p) of
        Inl e \<Rightarrow> Some (Inl e)
      | Inr None \<Rightarrow> Some (Inr Partial)
      | Inr (Some terminator) \<Rightarrow>
          (case memmem se buf [CR, LF] of
             None \<Rightarrow> Some (Inl RequestLineMalformed)
           | Some first_crlf \<Rightarrow>
               if sat_add first_crlf 2 > max_request_line_bytes (ps_limits p) then Some (Inl RequestLineTooLong)
               else (case get_range buf 0 first_crlf of
                  None \<Rightarrow> Some (Inl RequestLineMalformed)
                | Some line \<Rightarrow>
                    (case parse_line (ps_limits p) line of
                       Inl e \<Rightarrow> Some (Inl e)
                     | Inr l \<Rightarrow>
                         (case parse_field_lines se buf (sat_add first_crlf 2) terminator (ps_limits p) (ps_underscores p) of
                            None \<Rightarrow> None
                          | Some (Inl e) \<Rightarrow> Some (Inl e)
                          | Some (Inr fs) \<Rightarrow> Some (Inr (Complete (l, fs) (sat_add terminator 4))))))))"

definition parse_request_head :: "searchers \<Rightarrow> h1_parser \<Rightarrow> bytes \<Rightarrow> (reject_reason + raw_head parse_status) option" where
  "parse_request_head se p buf =
     (case parse_head_with se p parse_request_line buf of
        None \<Rightarrow> None
      | Some (Inl e) \<Rightarrow> Some (Inl e)
      | Some (Inr Partial) \<Rightarrow> Some (Inr Partial)
      | Some (Inr (Complete ((m, t, v), fs) n)) \<Rightarrow>
          Some (Inr (Complete \<lparr>rh_method = m, rh_target = t, rh_version = v, rh_fields = fs, rh_buf = buf\<rparr> n)))"

definition parse_status_line :: "http_limits \<Rightarrow> bytes \<Rightarrow> reject_reason + status_code \<times> wire_version" where
  "parse_status_line limits line =
     (if HTAB \<in> set line then Inl RequestLineMalformed
      else and_then (ok_or (position (\<lambda>b. b = SP) line) RequestLineMalformed) (\<lambda>sp1.
        and_then (ok_or (get_range line 0 sp1) RequestLineMalformed) (\<lambda>vbytes.
        and_then (parse_version vbytes) (\<lambda>version.
        and_then (ok_or (get_from line (sat_add sp1 1)) RequestLineMalformed) (\<lambda>after_version.
        and_then (ok_or (get_range after_version 0 3) RequestLineMalformed) (\<lambda>digits.
        case digits of
          [d0, d1, d2] \<Rightarrow>
        if \<not> (is_ascii_digit d0 \<and> is_ascii_digit d1 \<and> is_ascii_digit d2) then Inl RequestLineMalformed
        else (let value = (byte_val d0 - 48) * 100 + (byte_val d1 - 48) * 10 + (byte_val d2 - 48) in
          and_then (ok_or (status_from_u16 value) RequestLineMalformed) (\<lambda>st.
          and_then (ok_or (get_from after_version 3) RequestLineMalformed) (\<lambda>after_status.
            and_then (if after_status = [] then Inr []
                      else if get after_status 0 \<noteq> Some SP then Inl RequestLineMalformed
                      else ok_or (get_from after_status 1) RequestLineMalformed) (\<lambda>reason.
              if list_all value_byte_ok reason then Inr (st, version) else Inl FieldValueInvalidByte))))
        | _ \<Rightarrow> Inl RequestLineMalformed))))))"

definition parse_response_head ::
  "searchers \<Rightarrow> h1_parser \<Rightarrow> bytes \<Rightarrow> (reject_reason + raw_response_head parse_status) option" where
  "parse_response_head se p buf =
     (case parse_head_with se p parse_status_line buf of
        None \<Rightarrow> None
      | Some (Inl e) \<Rightarrow> Some (Inl e)
      | Some (Inr Partial) \<Rightarrow> Some (Inr Partial)
      | Some (Inr (Complete ((st, v), fs) n)) \<Rightarrow>
          Some (Inr (Complete \<lparr>rr_status = st, rr_version = v, rr_fields = fs, rr_buf = buf\<rparr> n)))"

end
