(* ===== verification/Http_Head_Exact.thy ===== *)
theory Http_Head_Exact
  imports Http_Head
begin

text \<open>
  The head parser against the grammar of heads: lines closed by CRLF without any other carriage return or
  line feed, a request or status line, field lines, and the empty line. The parser returns for every
  buffer, accepts exactly the heads of the grammar that are within the limits, and never mistakes a
  prefix of a head for anything but an incomplete head.
\<close>

section \<open>Regions without bare carriage returns and line feeds\<close>

fun clean :: "bytes \<Rightarrow> bool" where
  "clean [] \<longleftrightarrow> True"
| "clean [b] \<longleftrightarrow> b \<noteq> CR \<and> b \<noteq> LF"
| "clean (b # c # bs) \<longleftrightarrow> (if b = CR then c = LF \<and> clean bs else b \<noteq> LF \<and> clean (c # bs))"

definition plain :: "bytes \<Rightarrow> bool" where
  "plain l \<longleftrightarrow> CR \<notin> set l \<and> LF \<notin> set l"

lemma plain_simps [simp]: "plain []" "plain (b # l) \<longleftrightarrow> b \<noteq> CR \<and> b \<noteq> LF \<and> plain l" "plain (l @ m) \<longleftrightarrow> plain l \<and> plain m"
  by (auto simp: plain_def)

lemma bare_loop_clean:
  assumes "length (pre @ r) < 2 ^ 63" and "pre = [] \<or> last pre \<noteq> CR"
  shows "bare_loop (pre @ r) (length pre) r = Inr () \<longleftrightarrow> clean r"
  using assms
proof (induction r arbitrary: pre rule: clean.induct)
  case (2 b)
  then show ?case by (auto simp: sat_add_def usize_max_def nth_append last_conv_nth)
next
  case (3 b c bs)
  have one: "sat_add (length pre) 1 = length pre + 1" using "3.prems"(1) by (simp add: sat_add_def usize_max_def)
  have c: "get (pre @ b # c # bs) (length pre + 1) = Some c" by (simp add: nth_append)
  have prev: "\<not> (length pre \<noteq> 0 \<and> get (pre @ b # c # bs) (length pre - 1) = Some CR)"
    using "3.prems"(2) by (auto simp: nth_append last_conv_nth)
  show ?case
  proof (cases "b = CR")
    case True
    have "bare_loop (pre @ b # c # bs) (length pre) (b # c # bs) =
        (if c \<noteq> LF then Inl BareCr else bare_loop ((pre @ [b, c]) @ bs) (length (pre @ [b, c])) bs)"
      using True one c by (simp add: nth_append byte_consts)
    then show ?thesis using True "3.IH"(1) [of "pre @ [b, c]"] "3.prems"(1) by (auto simp: byte_consts)
  next
    case False
    then have "bare_loop (pre @ b # c # bs) (length pre) (b # c # bs) =
        (if b = LF then Inl BareLf else bare_loop ((pre @ [b]) @ c # bs) (length (pre @ [b])) (c # bs))"
      unfolding bare_loop.simps(2) [of _ _ b] using prev by (auto simp del: bare_loop.simps)
    then show ?thesis using False "3.IH"(2) [of "pre @ [b]"] "3.prems"(1) by auto
  qed
qed simp

lemma check_bare_clean: "length r < 2 ^ 63 \<Longrightarrow> check_bare_cr_lf r = Inr () \<longleftrightarrow> clean r"
  using bare_loop_clean [of "[]" r] by (simp add: check_bare_cr_lf_def)

lemma clean_plain: "plain l \<Longrightarrow> clean (l @ r) \<longleftrightarrow> clean r"
proof (induction l)
  case (Cons b l)
  then show ?case by (cases "l @ r") auto
qed simp

lemma clean_terminated: "list_all plain ls \<Longrightarrow> clean (terminated ls @ r) \<longleftrightarrow> clean r"
  by (induction ls) (simp_all add: clean_plain)

lemma clean_lines: "clean r \<Longrightarrow> \<exists>ls t. r = terminated ls @ t \<and> list_all plain ls \<and> plain t"
proof (induction r rule: clean.induct)
  case 1
  show ?case by (intro exI [of _ "[]"]) simp
next
  case (2 b)
  then show ?case by (intro exI [of _ "[]"] exI [of _ "[b]"]) simp
next
  case (3 b c bs)
  show ?case
  proof (cases "b = CR")
    case True
    then obtain ls t where "bs = terminated ls @ t" "list_all plain ls" "plain t" "c = LF" using 3 by auto
    then show ?thesis using True by (intro exI [of _ "[] # ls"] exI [of _ t]) simp
  next
    case False
    then obtain ls t where t: "c # bs = terminated ls @ t" "list_all plain ls" "plain t" "b \<noteq> LF" using 3 by auto
    show ?thesis
    proof (cases ls)
      case Nil
      then show ?thesis using t False by (intro exI [of _ "[]"] exI [of _ "b # t"]) simp
    next
      case (Cons l ls')
      then show ?thesis using t False by (intro exI [of _ "(b # l) # ls'"] exI [of _ t]) simp
    qed
  qed
qed

lemma clean_prefix: "clean (x @ y) \<Longrightarrow> clean x \<or> (\<exists>z. x = z @ [CR] \<and> clean z)"
proof (induction x rule: clean.induct)
  case (2 b)
  then show ?case by (cases y) (auto split: if_splits)
next
  case (3 b c bs)
  then show ?case by (cases "b = CR") (auto simp: Cons_eq_append_conv intro: exI [of _ "b # c # _"])
qed simp

section \<open>The shape of a head\<close>

definition head_lines :: "bytes \<Rightarrow> bytes \<Rightarrow> bytes list \<Rightarrow> bytes \<Rightarrow> bool" where
  "head_lines w l0 ls R \<longleftrightarrow>
     w = l0 @ [CR, LF] @ terminated ls @ [CR, LF] @ R \<and> plain l0 \<and> list_all (\<lambda>l. plain l \<and> l \<noteq> []) ls"

lemma find_end:
  assumes "plain l" and "list_all (\<lambda>l. plain l \<and> l \<noteq> []) ls"
  shows "find_sub (l @ [CR, LF] @ terminated ls @ [CR, LF] @ R) [CR, LF, CR, LF] = Some (length l + length (terminated ls))"
  using assms
proof (induction ls arbitrary: l)
  case Nil
  then show ?case by (induction l) auto
next
  case (Cons m ls)
  then have m: "plain m" "m \<noteq> []" "find_sub (m @ [CR, LF] @ terminated ls @ [CR, LF] @ R) [CR, LF, CR, LF] =
      Some (length m + length (terminated ls))" by simp_all
  then obtain c m' where c: "m = c # m'" "c \<noteq> CR" by (cases m) auto
  from Cons.prems(1) show ?case
  proof (induction l)
    case Nil
    then show ?case using m(3) c by (simp add: byte_consts)
  qed simp
qed

lemma occurs_at_append: "occurs_at (x @ needle @ y) needle (length x)"
  by (simp add: occurs_at_def)

lemma terminated_append [simp]: "terminated (xs @ ys) = terminated xs @ terminated ys"
  by (simp add: terminated_def)

lemma terminated_ends: "\<exists>x. terminated (l # ls) = x @ [CR, LF]"
  by (cases ls rule: rev_cases) auto

lemma region_lines:
  assumes "clean r" and "r = x @ [CR, LF, CR, LF]"
  shows "\<exists>l0 ls. r = terminated (l0 # ls) @ [CR, LF] \<and> list_all plain (l0 # ls)"
proof -
  obtain ls t where ls: "r = terminated ls @ t" "list_all plain ls" "plain t" using clean_lines [OF assms(1)] by blast
  have "t = []"
  proof (rule ccontr)
    assume "t \<noteq> []"
    then have "last t = LF" using ls(1) assms(2) by (metis last_appendR last.simps list.distinct(1))
    then show False using ls(3) \<open>t \<noteq> []\<close> last_in_set by (fastforce simp: plain_def)
  qed
  then have "ls \<noteq> []" using ls(1) assms(2) by auto
  then obtain ms l where ms: "ls = ms @ [l]" by (metis rev_exhaust)
  then have e: "terminated ms @ l @ [CR, LF] = x @ [CR, LF, CR, LF]" using ls(1) \<open>t = []\<close> assms(2) by simp
  then have "(terminated ms @ l) @ [CR, LF] = (x @ [CR, LF]) @ [CR, LF]" by simp
  then have e': "terminated ms @ l = x @ [CR, LF]" unfolding append_same_eq .
  have "l = []"
  proof (rule ccontr)
    assume "l \<noteq> []"
    then have "last l = LF" using e' by (metis last_appendR last.simps list.distinct(1))
    then show False using ls(2) ms \<open>l \<noteq> []\<close> last_in_set by (fastforce simp: plain_def)
  qed
  moreover have "ms \<noteq> []" using e' calculation by auto
  ultimately obtain l0 ms' where "ms = l0 # ms'" "ls = (l0 # ms') @ [[]]" using ms by (cases ms) auto
  then show ?thesis using ls \<open>t = []\<close> by (intro exI [of _ l0] exI [of _ ms']) simp
qed

lemma found_head_lines:
  assumes t: "find_sub w [CR, LF, CR, LF] = Some t" and clean: "clean (take (t + 4) w)"
  shows "\<exists>l0 ls. head_lines w l0 ls (drop (t + 4) w) \<and> t = length l0 + length (terminated ls)"
proof -
  have occ: "take 4 (drop t w) = [CR, LF, CR, LF]" "\<forall>j < t. \<not> occurs_at w [CR, LF, CR, LF] j"
    using t unfolding find_sub_Some_iff by (auto simp: occurs_at_def numeral_eq_Suc)
  have r: "take (t + 4) w = take t w @ [CR, LF, CR, LF]" using occ(1) by (simp add: take_add)
  then obtain l0 ls where ls: "take (t + 4) w = terminated (l0 # ls) @ [CR, LF]" "list_all plain (l0 # ls)"
    using region_lines [OF clean] by blast
  have len: "t = length l0 + length (terminated ls)"
    using arg_cong [OF ls(1), of length] arg_cong [OF r, of length] arg_cong [OF occ(1), of length] by simp
  have w: "w = (terminated (l0 # ls) @ [CR, LF]) @ drop (t + 4) w" using ls(1) by (metis append_take_drop_id)
  have "[] \<notin> set ls"
  proof
    assume "[] \<in> set ls"
    then obtain xs ys where xs: "ls = xs @ [] # ys" by (meson split_list)
    obtain x where x: "terminated (l0 # xs) = x @ [CR, LF]" using terminated_ends by blast
    have "w = terminated (l0 # xs) @ [CR, LF] @ terminated ys @ [CR, LF] @ drop (t + 4) w" using w unfolding xs by simp
    then have "w = x @ [CR, LF, CR, LF] @ terminated ys @ [CR, LF] @ drop (t + 4) w" unfolding x by simp
    moreover have "length x < t" using arg_cong [OF x, of length] len xs by simp
    ultimately show False using occ(2) occurs_at_append by metis
  qed
  then have "head_lines w l0 ls (drop (t + 4) w)"
    using w ls(2) by (auto simp: head_lines_def list_all_iff)
  then show ?thesis using len by blast
qed

lemma locate_found:
  assumes se: "finds_first se" and len: "length buf < 2 ^ 63"
  shows "locate_terminator se buf lim = Inr (Some t) \<longleftrightarrow>
    (\<exists>l0 ls R. head_lines buf l0 ls R \<and> t = length l0 + length (terminated ls))"
proof
  assume loc: "locate_terminator se buf lim = Inr (Some t)"
  then have t: "find_sub buf [CR, LF, CR, LF] = Some t"
    by (auto simp: locate_terminator_def finds_first_memmem [OF se] Let_def elim!: and_then_InrE split: option.splits if_splits)
  then have t4: "t + 4 \<le> length buf"
    unfolding find_sub_Some_iff by (auto simp: occurs_at_def dest: arg_cong [of _ _ length])
  then have "bare_check_region buf (Some t) = take (t + 4) buf"
    using len by (simp add: bare_check_region_def sat_add_def usize_max_def get_range_def)
  then have "check_bare_cr_lf (take (t + 4) buf) = Inr ()"
    using loc t by (auto simp: locate_terminator_def finds_first_memmem [OF se] Let_def elim!: and_then_InrE)
  then have "clean (take (t + 4) buf)" using len by (simp add: check_bare_clean)
  then show "\<exists>l0 ls R. head_lines buf l0 ls R \<and> t = length l0 + length (terminated ls)" using found_head_lines [OF t] by blast
next
  assume "\<exists>l0 ls R. head_lines buf l0 ls R \<and> t = length l0 + length (terminated ls)"
  then obtain l0 ls R where h: "head_lines buf l0 ls R" and t: "t = length l0 + length (terminated ls)" by blast
  have buf: "buf = (terminated (l0 # ls) @ [CR, LF]) @ R" and plain: "list_all plain (l0 # ls)"
    using h by (auto simp: head_lines_def list_all_iff)
  have find: "find_sub buf [CR, LF, CR, LF] = Some t"
    using find_end [of l0 ls R] h t by (simp add: head_lines_def)
  have t4: "t + 4 = length (terminated (l0 # ls) @ [CR, LF])" using t by simp
  have "t + 4 \<le> length buf" unfolding t4 using buf by simp
  then have "bare_check_region buf (Some t) = take (t + 4) buf"
    using len by (simp add: bare_check_region_def sat_add_def usize_max_def get_range_def)
  also have "\<dots> = terminated (l0 # ls) @ [CR, LF]" using buf unfolding t4 by (metis append_eq_conv_conj)
  finally have region: "bare_check_region buf (Some t) = terminated (l0 # ls) @ [CR, LF]" .
  have "check_bare_cr_lf (terminated (l0 # ls) @ [CR, LF]) = Inr ()"
    using clean_terminated [OF plain, of "[CR, LF]"] len buf by (subst check_bare_clean) (simp_all add: byte_consts)
  then show "locate_terminator se buf lim = Inr (Some t)"
    using region find by (simp add: locate_terminator_def finds_first_memmem [OF se] Let_def)
qed

section \<open>One field line\<close>

definition field_line :: "http_limits \<Rightarrow> underscore_policy \<Rightarrow> bytes \<Rightarrow> bytes \<times> bytes \<Rightarrow> bool" where
  "field_line lim policy line nv \<longleftrightarrow>
     (\<exists>name v. line = name @ CHR '':'' # v \<and> nv = (name, trim_ows v) \<and> name_ok (canonical_name policy name) \<and> value_ok v \<and>
        length name + length (trim_ows v) \<le> max_field_line_bytes lim)"

lemma scan_name_ok:
  "scan_name policy name lower = Inr l \<longleftrightarrow>
     (\<forall>b \<in> set name. is_tchar b \<and> (b = CHR ''_'' \<longrightarrow> policy = UnderscorePolicy_MapToHyphen)) \<and>
     l = (lower \<or> list_ex is_ascii_uppercase name)"
proof (induction policy name lower rule: scan_name.induct)
  case (2 policy b bs lower)
  have "is_ascii_uppercase b \<Longrightarrow> is_tchar b" by (simp add: is_tchar_def is_ascii_alphanumeric_def)
  moreover have "\<not> is_ascii_uppercase CHR ''_''" "is_tchar CHR ''_''" by code_simp+
  ultimately show ?case using 2 by (cases policy) (auto simp: name_byte_ok_iff)
qed auto

lemma lower_tchar: "is_tchar (to_ascii_lowercase b) = is_tchar b" "\<not> is_ascii_uppercase (to_ascii_lowercase b)"
  by (rule spec [of _ b], code_simp)+

lemma name_ok_canonical:
  "name_ok (canonical_name policy name) \<longleftrightarrow>
     name \<noteq> [] \<and> (\<forall>b \<in> set name. is_tchar b \<and> (b = CHR ''_'' \<longrightarrow> policy = UnderscorePolicy_MapToHyphen))"
proof -
  let ?c = "\<lambda>b. if policy = UnderscorePolicy_MapToHyphen \<and> b = CHR ''_'' then CHR ''-'' else to_ascii_lowercase b"
  have "is_tchar CHR ''-''" "\<not> is_ascii_uppercase CHR ''-''" "is_tchar CHR ''_''" by code_simp+
  then have "is_tchar (?c b) \<and> \<not> is_ascii_uppercase (?c b) \<and> ?c b \<noteq> CHR ''_'' \<longleftrightarrow>
      is_tchar b \<and> (b = CHR ''_'' \<longrightarrow> policy = UnderscorePolicy_MapToHyphen)" for b
    by (cases policy; cases "b = CHR ''_''") (simp_all add: lower_tchar)
  then show ?thesis unfolding name_ok_def canonical_name_def set_map ball_simps map_is_Nil_conv by blast
qed

lemma ows_lead_trim:
  assumes "length v \<le> usize_max"
  shows "trim_ows v = take (length (trim_ows v)) (drop (ows_lead v) v)" "ows_lead v + length (trim_ows v) \<le> length v"
proof -
  obtain xs w zs where v: "v = xs @ w @ zs" "\<forall>b \<in> set xs. is_ows b" "\<forall>b \<in> set zs. is_ows b" "ows_trimmed w"
    by (rule ows_split)
  have trim: "trim_ows v = w" using trim_ows_middle [OF v(2-4)] v(1) assms by simp
  have "ows_lead v = (if w = [] then length v else length xs)"
  proof (cases w)
    case Nil
    then have "position (\<lambda>b. \<not> is_ows b) v = None" using v by (auto simp: position_None_iff)
    then show ?thesis using Nil by (simp add: ows_lead_def)
  next
    case (Cons c w')
    then have "\<not> is_ows c" using v(4) by (simp add: ows_trimmed_def)
    then have "position (\<lambda>b. \<not> is_ows b) v = Some (length xs)"
      using v(1,2) Cons by (auto simp: position_Some_iff nth_append)
    then show ?thesis using Cons by (simp add: ows_lead_def)
  qed
  then show "trim_ows v = take (length (trim_ows v)) (drop (ows_lead v) v)" "ows_lead v + length (trim_ows v) \<le> length v"
    unfolding trim using v(1) by auto
qed

definition field_at :: "nat \<Rightarrow> bytes \<Rightarrow> bytes \<Rightarrow> raw_field" where
  "field_at pos name v =
     \<lparr>rf_name = \<lparr>hs_start = pos, hs_end = pos + length name\<rparr>,
      rf_value = \<lparr>hs_start = pos + length name + 1 + ows_lead v, hs_end = pos + length name + 1 + ows_lead v + length (trim_ows v)\<rparr>,
      needs_lowercase = list_ex is_ascii_uppercase name\<rparr>"

lemma parse_field_line_split:
  assumes colon: "CHR '':'' \<notin> set name" and len: "pos + length (name @ CHR '':'' # v) \<le> u32_max"
  shows "parse_field_line lim policy budget pos (name @ CHR '':'' # v) = Inr (f, budget') \<longleftrightarrow>
    name_ok (canonical_name policy name) \<and> value_ok v \<and> length name + length (trim_ows v) \<le> max_field_line_bytes lim \<and>
    charge budget (length name) (length (trim_ows v)) = (Inr (), budget') \<and> f = field_at pos name v"
proof -
  let ?line = "name @ CHR '':'' # v"
  have v: "length v \<le> usize_max" using len by (simp add: u32_max_def usize_max_def)
  have pos: "position (\<lambda>b. b = CHR '':'') ?line = Some (length name)"
    using colon by (auto simp: position_Some_iff nth_append in_set_conv_nth)
  have lead: "ows_lead v + length (trim_ows v) \<le> length v" using ows_lead_trim(2) [OF v] .
  have sums: "sat_add (length name) 1 = length name + 1" "sat_add (length name) (length (trim_ows v)) = length name + length (trim_ows v)"
    "sat_add pos (length name) = pos + length name" "sat_add (pos + length name) 1 = pos + length name + 1"
    "sat_add (pos + length name + 1) (ows_lead v) = pos + length name + 1 + ows_lead v"
    "sat_add (pos + length name + 1 + ows_lead v) (length (trim_ows v)) = pos + length name + 1 + ows_lead v + length (trim_ows v)"
    using len lead by (simp_all add: sat_add_def u32_max_def usize_max_def)
  have val: "list_all value_byte_ok (trim_ows v) \<longleftrightarrow> value_ok v"
    using value_ok_trim [OF v] by (auto simp: list_all_iff value_byte_ok_iff value_ok_def)
  have spans: "make_span pos (pos + length name) = Inr (rf_name (field_at pos name v))"
    "make_span (pos + length name + 1 + ows_lead v) (pos + length name + 1 + ows_lead v + length (trim_ows v)) =
      Inr (rf_value (field_at pos name v))"
    using len lead by (simp_all add: make_span_def field_at_def)
  show ?thesis
  proof (cases "name = []")
    case True
    then show ?thesis using pos by (simp add: parse_field_line_def name_ok_def canonical_name_def split: if_splits)
  next
    case False
    have ows: "\<not> is_ows b" if "name_ok (canonical_name policy name)" "b \<in> set name" for b
      using name_ok_bytes(3,4) [OF that] by (simp add: is_ows_def)
    have ends: "?line \<noteq> [] \<and> is_ows (hd ?line) \<longleftrightarrow> is_ows (hd name)" "get ?line (length name - 1) = Some (last name)"
      using False by (simp_all add: nth_append last_conv_nth)
    have scan: "scan_name policy name False = Inr l \<longleftrightarrow>
        name_ok (canonical_name policy name) \<and> l = needs_lowercase (field_at pos name v)" for l
      using False by (auto simp: scan_name_ok name_ok_canonical field_at_def)
    have parts: "take (length name) ?line = name" "drop (length name + 1) ?line = v" by simp_all
    have built: "(field_at pos name v)\<lparr>needs_lowercase := lower\<rparr> =
        \<lparr>rf_name = rf_name (field_at pos name v), rf_value = rf_value (field_at pos name v), needs_lowercase = lower\<rparr>" for lower
      by simp
    have eq: "parse_field_line lim policy budget pos ?line =
        (if is_ows (hd name) then Inl ObsFold else if is_ows (last name) then Inl WhitespaceBeforeColon
         else and_then (scan_name policy name False) (\<lambda>lower.
           if \<not> value_ok v then Inl FieldValueInvalidByte
           else if length name + length (trim_ows v) > max_field_line_bytes lim then Inl FieldLineTooLong
           else (case charge budget (length name) (length (trim_ows v)) of
               (Inl e, _) \<Rightarrow> Inl e
             | (Inr _, budget') \<Rightarrow> Inr ((field_at pos name v)\<lparr>needs_lowercase := lower\<rparr>, budget'))))"
      unfolding parse_field_line_def Let_def ends pos ok_or_simps and_then_simps parts sums option.case val spans built
      using False by simp
    show ?thesis
    proof (cases "name_ok (canonical_name policy name)")
      case True
      then have "scan_name policy name False = Inr (needs_lowercase (field_at pos name v))" "\<not> is_ows (hd name)" "\<not> is_ows (last name)"
        using scan ows False by simp_all
      then show ?thesis
        unfolding eq using True by (cases "charge budget (length name) (length (trim_ows v))") (auto simp: field_at_def split: sum.splits)
    next
      case False
      then show ?thesis unfolding eq using scan by (auto simp: and_then_Inr_iff split: if_splits)
    qed
  qed
qed

lemma parse_field_line_iff:
  assumes len: "pos + length line \<le> u32_max"
  shows "parse_field_line lim policy budget pos line = Inr (f, budget') \<longleftrightarrow>
    (\<exists>name v. line = name @ CHR '':'' # v \<and> f = field_at pos name v \<and> field_line lim policy line (name, trim_ows v) \<and>
       charge budget (length name) (length (trim_ows v)) = (Inr (), budget'))"
proof
  assume parse: "parse_field_line lim policy budget pos line = Inr (f, budget')"
  then obtain i where "position (\<lambda>b. b = CHR '':'') line = Some i"
    by (auto simp: parse_field_line_def elim!: and_then_InrE split: if_splits)
  then obtain name v where line: "line = name @ CHR '':'' # v" "CHR '':'' \<notin> set name" by (elim position_split) auto
  show "\<exists>name v. line = name @ CHR '':'' # v \<and> f = field_at pos name v \<and> field_line lim policy line (name, trim_ows v) \<and>
      charge budget (length name) (length (trim_ows v)) = (Inr (), budget')"
    using parse parse_field_line_split [OF line(2) len [unfolded line(1)], of lim policy budget f budget'] line(1)
    unfolding field_line_def by auto
next
  assume "\<exists>name v. line = name @ CHR '':'' # v \<and> f = field_at pos name v \<and> field_line lim policy line (name, trim_ows v) \<and>
      charge budget (length name) (length (trim_ows v)) = (Inr (), budget')"
  then obtain name v name' v' where line: "line = name @ CHR '':'' # v" "line = name' @ CHR '':'' # v'"
    and f: "f = field_at pos name v" "name' = name" "trim_ows v' = trim_ows v" "name_ok (canonical_name policy name')" "value_ok v'"
      "length name' + length (trim_ows v') \<le> max_field_line_bytes lim"
    and ch: "charge budget (length name) (length (trim_ows v)) = (Inr (), budget')"
    unfolding field_line_def by blast
  have "CHR '':'' \<notin> set name" using name_ok_bytes(5) f(2,4) by blast
  then show "parse_field_line lim policy budget pos line = Inr (f, budget')"
    using parse_field_line_split [of name pos v lim policy budget f budget'] len line f ch by simp
qed

lemma field_at_view:
  assumes "buf = pre @ (name @ CHR '':'' # v) @ R" and "length buf \<le> usize_max"
  shows "hs_of (rf_name (field_at (length pre) name v)) buf = Some name"
    and "hs_of (rf_value (field_at (length pre) name v)) buf = Some (trim_ows v)"
proof -
  have lead: "trim_ows v = take (length (trim_ows v)) (drop (ows_lead v) v)" "ows_lead v + length (trim_ows v) \<le> length v"
    using ows_lead_trim [of v] assms by simp_all
  show "hs_of (rf_name (field_at (length pre) name v)) buf = Some name"
    using assms(1) by (simp add: hs_of_def field_at_def get_range_def)
  have "drop (length pre + length name + 1 + ows_lead v) buf = drop (ows_lead v) v @ R"
    using assms(1) lead(2) by simp
  then show "hs_of (rf_value (field_at (length pre) name v)) buf = Some (trim_ows v)"
    using assms(1) lead by (simp add: hs_of_def field_at_def get_range_def)
qed

section \<open>The loop over the field lines\<close>

fun lines_fold ::
  "http_limits \<Rightarrow> underscore_policy \<Rightarrow> header_list_budget \<Rightarrow> nat \<Rightarrow> bytes list \<Rightarrow> reject_reason + raw_field list" where
  "lines_fold lim policy budget pos [] = Inr []"
| "lines_fold lim policy budget pos (l # ls) =
     (case parse_field_line lim policy budget pos l of
        Inl e \<Rightarrow> Inl e
      | Inr (f, budget') \<Rightarrow> and_then (lines_fold lim policy budget' (pos + length l + 2) ls) (\<lambda>fs. Inr (f # fs)))"

lemma find_crlf_plain: "plain l \<Longrightarrow> find_sub (l @ [CR, LF] @ r) [CR, LF] = Some (length l)"
  by (induction l) auto

lemma field_lines_loop_eq:
  assumes se: "finds_first se" and "buf = pre @ terminated ls @ R" and "list_all (\<lambda>l. plain l \<and> l \<noteq> []) ls"
    and "length buf < 2 ^ 63" and "t + 2 = length (pre @ terminated ls)" and "length ls < fuel"
  shows "field_lines_loop se fuel buf (length pre) t lim policy budget acc =
    Some (and_then (lines_fold lim policy budget (length pre) ls) (\<lambda>fs. Inr (acc @ fs)))"
  using assms(2-)
proof (induction ls arbitrary: pre budget acc fuel)
  case Nil
  then show ?case by (cases fuel) auto
next
  case (Cons l ls)
  obtain k where fuel: "fuel = Suc k" "length ls < k" using Cons.prems(5) by (cases fuel) auto
  have l: "plain l" "l \<noteq> []" "list_all (\<lambda>l. plain l \<and> l \<noteq> []) ls" using Cons.prems(2) by simp_all
  let ?pre = "pre @ l @ [CR, LF]"
  have buf: "buf = ?pre @ terminated ls @ R" using Cons.prems(1) by simp
  have t: "t + 2 = length (?pre @ terminated ls)" using Cons.prems(4) by simp
  have lt: "length pre < t" using t l(2) by (cases l) simp_all
  have region: "get_range buf (length pre) (sat_add t 2) = Some (l @ [CR, LF] @ terminated ls)"
    using t Cons.prems(1,3) by (simp add: get_range_def sat_add_def usize_max_def)
  have sums: "sat_add (length pre) (length l) = length (pre @ l)" "sat_add (length (pre @ l)) 2 = length ?pre"
    using Cons.prems(1,3) by (simp_all add: sat_add_def usize_max_def)
  have line: "get_range buf (length pre) (length (pre @ l)) = Some l" using buf by (simp add: get_range_def)
  have eq: "field_lines_loop se fuel buf (length pre) t lim policy budget acc =
      (case parse_field_line lim policy budget (length pre) l of
         Inl e \<Rightarrow> Some (Inl e)
       | Inr (f, budget') \<Rightarrow> field_lines_loop se k buf (length ?pre) t lim policy budget' (acc @ [f]))"
    unfolding fuel(1) field_lines_loop.simps region option.case finds_first_memmem [OF se] find_crlf_plain [OF l(1)] Let_def
      sums line using lt by simp
  show ?case
  proof (cases "parse_field_line lim policy budget (length pre) l")
    case (Inl e)
    then show ?thesis unfolding eq by simp
  next
    case (Inr y)
    obtain f budget' where y: "y = (f, budget')" by (cases y)
    have "field_lines_loop se k buf (length ?pre) t lim policy budget' (acc @ [f]) =
        Some (and_then (lines_fold lim policy budget' (length ?pre) ls) (\<lambda>fs. Inr ((acc @ [f]) @ fs)))"
      using Cons.IH [OF buf l(3) Cons.prems(3) t fuel(2)] .
    then show ?thesis
      unfolding eq using Inr y by (cases "lines_fold lim policy budget' (length ?pre) ls") (simp_all add: add.assoc)
  qed
qed

definition sizes :: "(bytes \<times> bytes) list \<Rightarrow> (nat \<times> nat) list" where
  "sizes nvs = map (\<lambda>(n, v). (length n, length v)) nvs"

definition spans_view :: "bytes \<Rightarrow> raw_field list \<Rightarrow> (bytes option \<times> bytes option \<times> bool) list" where
  "spans_view buf fs = map (\<lambda>f. (hs_of (rf_name f) buf, hs_of (rf_value f) buf, needs_lowercase f)) fs"

definition fields_view :: "(bytes \<times> bytes) list \<Rightarrow> (bytes option \<times> bytes option \<times> bool) list" where
  "fields_view nvs = map (\<lambda>(n, v). (Some n, Some v, list_ex is_ascii_uppercase n)) nvs"

lemma line_step:
  assumes buf: "buf = pre @ l @ R" and len: "length buf \<le> u32_max"
  shows "(\<exists>f. parse_field_line lim policy budget (length pre) l = Inr (f, b') \<and> spans_view buf [f] = fields_view [(n, v)]) \<longleftrightarrow>
    field_line lim policy l (n, v) \<and> charge budget (length n) (length v) = (Inr (), b')"
proof
  have pos: "length pre + length l \<le> u32_max" using buf len by simp
  have view: "spans_view buf [field_at (length pre) name x] = fields_view [(name, trim_ows x)]" if "l = name @ CHR '':'' # x" for name x
    using field_at_view [of buf pre name x R] that buf len
    by (simp add: spans_view_def fields_view_def field_at_def usize_max_def u32_max_def)
  {
    assume "\<exists>f. parse_field_line lim policy budget (length pre) l = Inr (f, b') \<and> spans_view buf [f] = fields_view [(n, v)]"
    then obtain f name x where l: "l = name @ CHR '':'' # x" and f: "f = field_at (length pre) name x"
      and line: "field_line lim policy l (name, trim_ows x)" "charge budget (length name) (length (trim_ows x)) = (Inr (), b')"
      and v: "spans_view buf [f] = fields_view [(n, v)]"
      using parse_field_line_iff [OF pos] by metis
    have "n = name" "v = trim_ows x" using view [OF l] v f by (simp_all add: fields_view_def)
    with line show "field_line lim policy l (n, v) \<and> charge budget (length n) (length v) = (Inr (), b')" by simp
  next
    assume r: "field_line lim policy l (n, v) \<and> charge budget (length n) (length v) = (Inr (), b')"
    then obtain x where l: "l = n @ CHR '':'' # x" "v = trim_ows x" unfolding field_line_def by blast
    have "parse_field_line lim policy budget (length pre) l = Inr (field_at (length pre) n x, b')"
      unfolding parse_field_line_iff [OF pos] using r l by blast
    with view [OF l(1)] l(2)
    show "\<exists>f. parse_field_line lim policy budget (length pre) l = Inr (f, b') \<and> spans_view buf [f] = fields_view [(n, v)]" by blast
  }
qed

text \<open>The fold accepts exactly valid lines within the budget, and its spans read back their names and values.\<close>

lemma lines_fold_iff:
  assumes "buf = pre @ terminated ls @ R" and "length buf \<le> u32_max"
  shows "(\<exists>fs. lines_fold lim policy budget (length pre) ls = Inr fs \<and> spans_view buf fs = fields_view nvs) \<longleftrightarrow>
    list_all2 (field_line lim policy) ls nvs \<and> fst (charge_all budget (sizes nvs)) = Inr ()"
  using assms(1)
proof (induction ls arbitrary: pre budget nvs)
  case Nil
  then show ?case by (cases nvs) (auto simp: spans_view_def fields_view_def sizes_def)
next
  case (Cons l ls)
  let ?pre = "pre @ l @ [CR, LF]"
  have buf: "buf = ?pre @ terminated ls @ R" using Cons.prems by simp
  have len: "length pre + length l \<le> u32_max" using Cons.prems assms(2) by simp
  note ih = Cons.IH [OF buf]
  have pos: "length pre + length l + 2 = length ?pre" by simp
  show ?case
  proof (cases nvs)
    case Nil
    have "lines_fold lim policy budget (length pre) (l # ls) \<noteq> Inr []"
      by (auto simp: and_then_Inr_iff split: sum.splits)
    then show ?thesis using Nil by (auto simp: spans_view_def fields_view_def)
  next
    case (Cons nv nvs')
    obtain n v where nv: "nv = (n, v)" by (cases nv)
    have "buf = pre @ l @ [CR, LF] @ terminated ls @ R" using Cons.prems by simp
    note step = line_step [OF this assms(2), of lim policy budget _ n v]
    have "(\<exists>fs. lines_fold lim policy budget (length pre) (l # ls) = Inr fs \<and> spans_view buf fs = fields_view (nv # nvs')) \<longleftrightarrow>
        (\<exists>f b'. parse_field_line lim policy budget (length pre) l = Inr (f, b') \<and>
          spans_view buf [f] = fields_view [nv] \<and>
          (\<exists>fs. lines_fold lim policy b' (length ?pre) ls = Inr fs \<and> spans_view buf fs = fields_view nvs'))"
      unfolding lines_fold.simps pos by (fastforce simp: and_then_Inr_iff spans_view_def fields_view_def split: sum.splits)
    also have "\<dots> \<longleftrightarrow> (\<exists>b'. field_line lim policy l nv \<and> charge budget (length n) (length v) = (Inr (), b') \<and>
        list_all2 (field_line lim policy) ls nvs' \<and> fst (charge_all b' (sizes nvs')) = Inr ())"
      unfolding ih using step unfolding nv by blast
    also have "\<dots> \<longleftrightarrow> list_all2 (field_line lim policy) (l # ls) (nv # nvs') \<and> fst (charge_all budget (sizes (nv # nvs'))) = Inr ()"
      by (cases "charge budget (length n) (length v)") (auto simp: sizes_def nv split: sum.splits)
    finally show ?thesis using Cons by simp
  qed
qed

end
