(* ===== verification/Http_Head_Grammar.thy ===== *)
theory Http_Head_Grammar
  imports Http_Head_Exact
begin

text \<open>
  Whole heads: the request line, the decision of the parser on every buffer, its behaviour on prefixes of a
  head, and the consequence for connections that deliver a head in pieces.
\<close>

section \<open>From the shape of a head to the result of the parser\<close>

lemma parse_head_lines:
  assumes se: "finds_first se" and h: "head_lines buf l0 ls R" and len: "length buf < 2 ^ 63"
  shows "parse_head_with se p pl buf = Some
    (if length l0 + 2 > max_request_line_bytes (ps_limits p) then Inl RequestLineTooLong
     else and_then (pl (ps_limits p) l0) (\<lambda>l.
       and_then (lines_fold (ps_limits p) (ps_underscores p) (budget_new (ps_limits p)) (length l0 + 2) ls) (\<lambda>fs.
         Inr (Complete (l, fs) (length l0 + length (terminated ls) + 4)))))"
proof -
  let ?t = "length l0 + length (terminated ls)" and ?pre = "l0 @ [CR, LF]"
  have buf: "buf = l0 @ [CR, LF] @ terminated ls @ [CR, LF] @ R" and plain: "plain l0"
    and ls: "list_all (\<lambda>l. plain l \<and> l \<noteq> []) ls"
    using h by (simp_all add: head_lines_def)
  have loc: "locate_terminator se buf (ps_limits p) = Inr (Some ?t)" using locate_found [OF se len] h by blast
  have crlf: "memmem se buf [CR, LF] = Some (length l0)"
    unfolding finds_first_memmem [OF se] buf using find_crlf_plain [OF plain] by blast
  have sums: "sat_add (length l0) 2 = length l0 + 2" "sat_add ?t 4 = ?t + 4"
    using buf len by (simp_all add: sat_add_def usize_max_def)
  have line: "get_range buf 0 (length l0) = Some l0" using buf by (simp add: get_range_def)
  have count: "length ls < Suc (length buf)"
  proof -
    have "length ls \<le> length (terminated ls)" by (induction ls) simp_all
    then show ?thesis using buf by simp
  qed
  have "parse_field_lines se buf (length l0 + 2) ?t (ps_limits p) (ps_underscores p) =
      Some (lines_fold (ps_limits p) (ps_underscores p) (budget_new (ps_limits p)) (length l0 + 2) ls)"
    using field_lines_loop_eq [OF se, of buf ?pre ls "[CR, LF] @ R" ?t "Suc (length buf)" "ps_limits p" "ps_underscores p"
        "budget_new (ps_limits p)" "[]"] buf ls len count
    by (cases "lines_fold (ps_limits p) (ps_underscores p) (budget_new (ps_limits p)) (length l0 + 2) ls")
      (simp_all add: parse_field_lines_def)
  then show ?thesis
    unfolding parse_head_with_def loc sum.case option.case crlf sums line
    by (cases "pl (ps_limits p) l0";
        cases "lines_fold (ps_limits p) (ps_underscores p) (budget_new (ps_limits p)) (length l0 + 2) ls") simp_all
qed

lemma parse_head_complete:
  assumes se: "finds_first se" and len: "length buf \<le> u32_max"
  shows "(\<exists>fs. parse_head_with se p pl buf = Some (Inr (Complete (l, fs) n)) \<and> spans_view buf fs = fields_view nvs) \<longleftrightarrow>
    (\<exists>l0 ls R. head_lines buf l0 ls R \<and> n = length l0 + length (terminated ls) + 4 \<and>
       length l0 + 2 \<le> max_request_line_bytes (ps_limits p) \<and> pl (ps_limits p) l0 = Inr l \<and>
       list_all2 (field_line (ps_limits p) (ps_underscores p)) ls nvs \<and>
       fst (charge_all (budget_new (ps_limits p)) (sizes nvs)) = Inr ())" (is "?l = ?r")
proof -
  have len': "length buf < 2 ^ 63" using len by (simp add: u32_max_def)
  have at: "(\<exists>fs. parse_head_with se p pl buf = Some (Inr (Complete (l, fs) n)) \<and> spans_view buf fs = fields_view nvs) \<longleftrightarrow>
      n = length l0 + length (terminated ls) + 4 \<and> length l0 + 2 \<le> max_request_line_bytes (ps_limits p) \<and>
      pl (ps_limits p) l0 = Inr l \<and> list_all2 (field_line (ps_limits p) (ps_underscores p)) ls nvs \<and>
      fst (charge_all (budget_new (ps_limits p)) (sizes nvs)) = Inr ()" if h: "head_lines buf l0 ls R" for l0 ls R
  proof -
    have "buf = (l0 @ [CR, LF]) @ terminated ls @ [CR, LF] @ R" using h by (simp add: head_lines_def)
    note fold = lines_fold_iff [OF this len, of "ps_limits p" "ps_underscores p" "budget_new (ps_limits p)" nvs]
    show ?thesis
      unfolding parse_head_lines [OF se h len'] fold [symmetric] by (auto simp: and_then_Inr_iff split: if_splits)
  qed
  have "\<exists>l0 ls R. head_lines buf l0 ls R" if ?l
  proof -
    from that obtain t where "locate_terminator se buf (ps_limits p) = Inr (Some t)"
      by (auto simp: parse_head_with_def split: sum.splits option.splits)
    then show ?thesis unfolding locate_found [OF se len'] by blast
  qed
  then show ?thesis using at by blast
qed

section \<open>Request lines and heads\<close>

definition version_text :: "wire_version \<Rightarrow> bytes option" where
  "version_text v = (case v of Http11 \<Rightarrow> Some ''HTTP/1.1'' | Http10 \<Rightarrow> Some ''HTTP/1.0'' | _ \<Rightarrow> None)"

definition request_line :: "http_limits \<Rightarrow> bytes \<Rightarrow> bytes \<Rightarrow> bytes \<Rightarrow> wire_version \<Rightarrow> bool" where
  "request_line lim line m t v \<longleftrightarrow>
     (\<exists>vt k. line = m @ [SP] @ t @ [SP] @ vt \<and> version_text v = Some vt \<and> parse_method m lim = Inr k \<and> t \<noteq> [] \<and>
        set t \<inter> {SP, HTAB, CHR ''#''} = {})"

lemma parse_version_iff: "parse_version bs = Inr v \<longleftrightarrow> version_text v = Some bs"
  by (cases v) (auto simp: parse_version_def version_text_def)

lemma version_text_bytes:
  "version_text v = Some vt \<Longrightarrow> vt \<noteq> [] \<and> plain vt \<and> SP \<notin> set vt \<and> HTAB \<notin> set vt"
  by (auto simp: version_text_def byte_consts split: wire_version.splits)

lemma tchar_bytes [rule_format]: "is_tchar b \<longrightarrow> b \<noteq> SP \<and> b \<noteq> HTAB \<and> b \<noteq> CR \<and> b \<noteq> LF"
  by (rule spec [of _ b]) code_simp

lemma method_bytes_ok: "parse_method m lim = Inr k \<Longrightarrow> m \<noteq> [] \<and> plain m \<and> SP \<notin> set m \<and> HTAB \<notin> set m"
  using parse_method_tchar [of m lim k] tchar_bytes by (auto simp: list_all_iff plain_def)

lemma position_sp: "SP \<notin> set x \<Longrightarrow> position (\<lambda>b. b = SP) (x @ SP # y) = Some (length x)"
  by (auto simp: position_Some_iff nth_append in_set_conv_nth)

lemma parse_request_line_sound:
  assumes parse: "parse_request_line lim line = Inr (ms, ts, v)" and len: "length line \<le> u32_max"
  shows "\<exists>m t. request_line lim line m t v \<and> ms = \<lparr>hs_start = 0, hs_end = length m\<rparr> \<and>
    ts = \<lparr>hs_start = length m + 1, hs_end = length m + 1 + length t\<rparr>"
proof -
  from parse obtain i where i: "position (\<lambda>b. b = SP) line = Some i" and tab: "HTAB \<notin> set line"
    by (auto simp: parse_request_line_def elim!: and_then_InrE split: if_splits)
  then obtain m r where line: "line = m @ SP # r" "SP \<notin> set m" "i = length m" by (elim position_split) auto
  have one: "sat_add (length m) 1 = length m + 1" using line len by (simp add: sat_add_def usize_max_def u32_max_def)
  have "get_from line (sat_add i 1) = Some r" using line one by (simp add: get_from_def)
  with parse i obtain j where j: "position (\<lambda>b. b = SP) r = Some j"
    by (auto simp: parse_request_line_def elim!: and_then_InrE split: if_splits)
  then obtain t vt where r: "r = t @ SP # vt" "SP \<notin> set t" "j = length t" by (elim position_split) auto
  show ?thesis
    by (rule exI [of _ m], rule exI [of _ t])
      (use parse line r tab one len i j in \<open>auto simp: parse_request_line_def request_line_def get_from_def get_range_def
        parse_version_iff make_span_def sat_add_def usize_max_def u32_max_def Let_def elim!: and_then_InrE split: if_splits\<close>)
qed

lemma parse_request_line_complete:
  assumes line: "request_line lim line m t v" and len: "length line \<le> u32_max"
  shows "parse_request_line lim line =
    Inr (\<lparr>hs_start = 0, hs_end = length m\<rparr>, \<lparr>hs_start = length m + 1, hs_end = length m + 1 + length t\<rparr>, v)"
proof -
  obtain vt k where l: "line = m @ SP # t @ SP # vt" and vt: "version_text v = Some vt" and m: "parse_method m lim = Inr k"
    and t: "t \<noteq> []" "SP \<notin> set t" "HTAB \<notin> set t" "CHR ''#'' \<notin> set t"
    using line unfolding request_line_def by auto
  note mb = method_bytes_ok [OF m] and vb = version_text_bytes [OF vt]
  have ends: "HTAB \<notin> set line" "get line 0 \<noteq> Some SP" "last line \<noteq> SP"
  proof -
    show "HTAB \<notin> set line" using l mb vb t by (simp add: byte_consts_distinct)
    show "get line 0 \<noteq> Some SP" using l mb by (cases m) auto
    show "last line \<noteq> SP" using l vb by (cases vt rule: rev_cases) auto
  qed
  have pos: "position (\<lambda>b. b = SP) line = Some (length m)" "position (\<lambda>b. b = SP) (t @ SP # vt) = Some (length t)"
    using position_sp mb t l by simp_all
  have parts: "get_from line (sat_add (length m) 1) = Some (t @ SP # vt)" "get_range line 0 (length m) = Some m"
    "get_range (t @ SP # vt) 0 (length t) = Some t" "get_from (t @ SP # vt) (sat_add (length t) 1) = Some vt"
    using l len by (auto simp: get_from_def get_range_def sat_add_def usize_max_def u32_max_def)
  have sums: "sat_add (length m) 1 = length m + 1" "sat_add (length m + 1) (length t) = length m + 1 + length t"
    using l len by (auto simp: sat_add_def usize_max_def u32_max_def)
  show ?thesis
    using ends pos parts m vb t vt l len unfolding parse_request_line_def
    by (simp add: parse_version_iff [THEN iffD2] make_span_def sums [simplified] Let_def)
qed

definition request_head ::
  "http_limits \<Rightarrow> underscore_policy \<Rightarrow> bytes \<Rightarrow> bytes \<Rightarrow> bytes \<Rightarrow> wire_version \<Rightarrow> (bytes \<times> bytes) list \<Rightarrow> bytes \<Rightarrow> bool" where
  "request_head lim policy w m t v nvs R \<longleftrightarrow>
     (\<exists>line lines. w = line @ [CR, LF] @ terminated lines @ [CR, LF] @ R \<and> request_line lim line m t v \<and> plain t \<and>
        length line + 2 \<le> max_request_line_bytes lim \<and> list_all2 (field_line lim policy) lines nvs \<and>
        length nvs \<le> max_field_count lim \<and> sum_list (map entry_size (sizes nvs)) \<le> max_header_list_bytes lim)"

lemma field_line_plain:
  assumes "field_line lim policy l nv"
  shows "plain l \<and> l \<noteq> []"
proof -
  obtain name v where l: "l = name @ CHR '':'' # v" "name_ok (canonical_name policy name)" "value_ok v"
    using assms unfolding field_line_def by blast
  have "plain name" using name_ok_bytes(1,2) [OF l(2)] unfolding plain_def by blast
  moreover have "plain v" using l(3) unfolding value_ok_def plain_def by blast
  moreover have "CHR '':'' \<noteq> CR" "CHR '':'' \<noteq> LF" by (simp_all add: byte_consts)
  ultimately show ?thesis using l(1) by simp
qed

lemma field_lines_plain: "list_all2 (field_line lim policy) ls nvs \<Longrightarrow> list_all (\<lambda>l. plain l \<and> l \<noteq> []) ls"
proof (induction rule: list_all2_induct)
  case (Cons l ls nv nvs)
  then show ?case using field_line_plain [of lim policy l nv] by simp
qed simp

lemma request_line_plain:
  assumes "request_line lim line m t v"
  shows "plain line \<longleftrightarrow> plain t"
proof -
  obtain vt k where line: "line = m @ [SP] @ t @ [SP] @ vt" "version_text v = Some vt" "parse_method m lim = Inr k"
    using assms unfolding request_line_def by blast
  then show ?thesis using method_bytes_ok [OF line(3)] version_text_bytes [OF line(2)] by (simp add: byte_consts_distinct)
qed

lemma charge_all_new:
  assumes "is_clamped lim"
  shows "fst (charge_all (budget_new lim) es) = Inr () \<longleftrightarrow>
    length es \<le> max_field_count lim \<and> sum_list (map entry_size es) \<le> max_header_list_bytes lim"
  using charge_all_ok_iff [OF budget_new_u32 [OF assms], of es] by (simp add: budget_new_def budget_with_limits_def)

definition head_view :: "raw_head \<Rightarrow> bytes \<times> bytes \<times> wire_version \<times> (bytes option \<times> bytes option \<times> bool) list" where
  "head_view h = (method_bytes h, target_bytes h, rh_version h,
     map (\<lambda>i. (head_field_name h i, head_field_value h i, needs_lowercase (rh_fields h ! i))) [0..<field_count h])"

lemma head_view_spans:
  "map (\<lambda>i. (head_field_name h i, head_field_value h i, needs_lowercase (rh_fields h ! i))) [0..<field_count h] =
   spans_view (rh_buf h) (rh_fields h)"
  by (rule nth_equalityI) (simp_all add: field_count_def spans_view_def head_field_name_def head_field_value_def)

lemma request_spans:
  assumes "request_line lim line m t v" and "buf = line @ r"
  shows "hs_of \<lparr>hs_start = 0, hs_end = length m\<rparr> buf = Some m"
    and "hs_of \<lparr>hs_start = length m + 1, hs_end = length m + 1 + length t\<rparr> buf = Some t"
  using assms by (auto simp: request_line_def hs_of_def get_range_def)

text \<open>The parser accepts exactly the request heads within the limits, and its spans read back their parts.\<close>

lemma request_head_lines:
  assumes se: "finds_first se" and len: "length buf \<le> u32_max"
  shows "(\<exists>ms ts fs. parse_head_with se p parse_request_line buf = Some (Inr (Complete ((ms, ts, v), fs) n)) \<and>
      spans_view buf fs = fields_view nvs \<and> (case hs_of ms buf of Some x \<Rightarrow> x | None \<Rightarrow> []) = m \<and>
      (case hs_of ts buf of Some x \<Rightarrow> x | None \<Rightarrow> []) = t) \<longleftrightarrow>
    (\<exists>l0 ls R. head_lines buf l0 ls R \<and> n = length l0 + length (terminated ls) + 4 \<and>
       length l0 + 2 \<le> max_request_line_bytes (ps_limits p) \<and> request_line (ps_limits p) l0 m t v \<and>
       list_all2 (field_line (ps_limits p) (ps_underscores p)) ls nvs \<and>
       fst (charge_all (budget_new (ps_limits p)) (sizes nvs)) = Inr ())" (is "?l = ?r")
proof
  assume ?l
  then obtain ms ts where mt: "(case hs_of ms buf of Some x \<Rightarrow> x | None \<Rightarrow> []) = m" "(case hs_of ts buf of Some x \<Rightarrow> x | None \<Rightarrow> []) = t"
    and "\<exists>fs. parse_head_with se p parse_request_line buf = Some (Inr (Complete ((ms, ts, v), fs) n)) \<and> spans_view buf fs = fields_view nvs"
    by blast
  then obtain l0 ls R where h: "head_lines buf l0 ls R" "n = length l0 + length (terminated ls) + 4"
    "length l0 + 2 \<le> max_request_line_bytes (ps_limits p)" "parse_request_line (ps_limits p) l0 = Inr (ms, ts, v)"
    "list_all2 (field_line (ps_limits p) (ps_underscores p)) ls nvs" "fst (charge_all (budget_new (ps_limits p)) (sizes nvs)) = Inr ()"
    unfolding parse_head_complete [OF se len] by blast
  have buf: "buf = l0 @ [CR, LF] @ terminated ls @ [CR, LF] @ R" using h(1) by (simp add: head_lines_def)
  then have "length l0 \<le> u32_max" using len by simp
  from parse_request_line_sound [OF h(4) this] obtain m' t' where r: "request_line (ps_limits p) l0 m' t' v"
    "ms = \<lparr>hs_start = 0, hs_end = length m'\<rparr>" "ts = \<lparr>hs_start = length m' + 1, hs_end = length m' + 1 + length t'\<rparr>" by blast
  have "m' = m" "t' = t" using request_spans [OF r(1) buf] mt r(2,3) by simp_all
  then show ?r using h r(1) by blast
next
  assume ?r
  then obtain l0 ls R where h: "head_lines buf l0 ls R" "n = length l0 + length (terminated ls) + 4"
    "length l0 + 2 \<le> max_request_line_bytes (ps_limits p)" "request_line (ps_limits p) l0 m t v"
    "list_all2 (field_line (ps_limits p) (ps_underscores p)) ls nvs" "fst (charge_all (budget_new (ps_limits p)) (sizes nvs)) = Inr ()"
    by blast
  have buf: "buf = l0 @ [CR, LF] @ terminated ls @ [CR, LF] @ R" using h(1) by (simp add: head_lines_def)
  then have "length l0 \<le> u32_max" using len by simp
  note line = parse_request_line_complete [OF h(4) this]
  let ?ms = "\<lparr>hs_start = 0, hs_end = length m\<rparr>" and ?ts = "\<lparr>hs_start = length m + 1, hs_end = length m + 1 + length t\<rparr>"
  have "\<exists>fs. parse_head_with se p parse_request_line buf = Some (Inr (Complete ((?ms, ?ts, v), fs) n)) \<and> spans_view buf fs = fields_view nvs"
    unfolding parse_head_complete [OF se len]
    by (rule exI [of _ l0], rule exI [of _ ls], rule exI [of _ R]) (intro conjI h(1-3,5-6) line)
  then obtain fs where fs: "parse_head_with se p parse_request_line buf = Some (Inr (Complete ((?ms, ?ts, v), fs) n))"
    "spans_view buf fs = fields_view nvs" by blast
  show ?l
    by (rule exI [of _ ?ms], rule exI [of _ ?ts], rule exI [of _ fs]) (simp add: fs request_spans [OF h(4) buf, simplified])
qed

lemma request_head_iff:
  assumes se: "finds_first se" and lim: "is_clamped (ps_limits p)" and len: "length buf \<le> u32_max"
  shows "(\<exists>h. parse_request_head se p buf = Some (Inr (Complete h n)) \<and> head_view h = (m, t, v, fields_view nvs)) \<longleftrightarrow>
    (\<exists>R. request_head (ps_limits p) (ps_underscores p) buf m t v nvs R \<and> n + length R = length buf)" (is "?l = ?r")
proof -
  have "?l \<longleftrightarrow> (\<exists>ms ts fs. parse_head_with se p parse_request_line buf = Some (Inr (Complete ((ms, ts, v), fs) n)) \<and>
      spans_view buf fs = fields_view nvs \<and> (case hs_of ms buf of Some x \<Rightarrow> x | None \<Rightarrow> []) = m \<and>
      (case hs_of ts buf of Some x \<Rightarrow> x | None \<Rightarrow> []) = t)"
    unfolding parse_request_head_def head_view_def head_view_spans method_bytes_def target_bytes_def
    by (fastforce split: option.splits sum.splits parse_status.splits)
  also have "\<dots> \<longleftrightarrow> ?r"
    unfolding request_head_lines [OF se len] charge_all_new [OF lim]
  proof (intro iffI; elim exE conjE)
    fix l0 ls R
    assume h: "head_lines buf l0 ls R" "n = length l0 + length (terminated ls) + 4" "length l0 + 2 \<le> max_request_line_bytes (ps_limits p)"
      "request_line (ps_limits p) l0 m t v" "list_all2 (field_line (ps_limits p) (ps_underscores p)) ls nvs"
      "length (sizes nvs) \<le> max_field_count (ps_limits p)"
      "sum_list (map entry_size (sizes nvs)) \<le> max_header_list_bytes (ps_limits p)"
    have buf: "buf = l0 @ [CR, LF] @ terminated ls @ [CR, LF] @ R" "plain t"
      using h(1) request_line_plain [OF h(4)] by (simp_all add: head_lines_def)
    then have "request_head (ps_limits p) (ps_underscores p) buf m t v nvs R"
      using h unfolding request_head_def by (intro exI [of _ l0] exI [of _ ls]) (simp add: sizes_def)
    moreover have "n + length R = length buf" using buf(1) h(2) by simp
    ultimately show ?r by blast
  next
    fix R
    assume h: "request_head (ps_limits p) (ps_underscores p) buf m t v nvs R" "n + length R = length buf"
    then obtain l0 ls where r: "buf = l0 @ [CR, LF] @ terminated ls @ [CR, LF] @ R" "request_line (ps_limits p) l0 m t v" "plain t"
      "length l0 + 2 \<le> max_request_line_bytes (ps_limits p)" "list_all2 (field_line (ps_limits p) (ps_underscores p)) ls nvs"
      "length nvs \<le> max_field_count (ps_limits p)" "sum_list (map entry_size (sizes nvs)) \<le> max_header_list_bytes (ps_limits p)"
      unfolding request_head_def by blast
    have "head_lines buf l0 ls R"
      using r(1,3) request_line_plain [OF r(2)] field_lines_plain [OF r(5)] by (simp add: head_lines_def)
    moreover have "n = length l0 + length (terminated ls) + 4" using h(2) r(1) by simp
    ultimately show "\<exists>l0 ls R. head_lines buf l0 ls R \<and> n = length l0 + length (terminated ls) + 4 \<and>
       length l0 + 2 \<le> max_request_line_bytes (ps_limits p) \<and> request_line (ps_limits p) l0 m t v \<and>
       list_all2 (field_line (ps_limits p) (ps_underscores p)) ls nvs \<and>
       length (sizes nvs) \<le> max_field_count (ps_limits p) \<and> sum_list (map entry_size (sizes nvs)) \<le> max_header_list_bytes (ps_limits p)"
      using r by (intro exI [of _ l0] exI [of _ ls] exI [of _ R]) (simp add: sizes_def)
  qed
  finally show ?thesis .
qed

lemma parse_head_returns:
  assumes "finds_first se" and "length buf < 2 ^ 63"
  shows "parse_head_with se p pl buf \<noteq> None"
proof (cases "\<exists>t. locate_terminator se buf (ps_limits p) = Inr (Some t)")
  case True
  then obtain l0 ls R where "head_lines buf l0 ls R" unfolding locate_found [OF assms] by blast
  from parse_head_lines [OF assms(1) this assms(2), of p pl] show ?thesis by simp
next
  case False
  then show ?thesis by (auto simp: parse_head_with_def split: sum.split option.split)
qed

lemma parse_request_head_returns:
  "finds_first se \<Longrightarrow> length buf < 2 ^ 63 \<Longrightarrow> parse_request_head se p buf \<noteq> None"
  using parse_head_returns [of se buf p parse_request_line]
  by (auto simp: parse_request_head_def split: sum.split parse_status.split)

section \<open>Heads that arrive in pieces\<close>

lemma clean_last: "clean x \<Longrightarrow> x \<noteq> [] \<Longrightarrow> last x \<noteq> CR"
  by (induction x rule: clean.induct) (auto simp: byte_consts split: if_splits)

lemma bare_check_prefix:
  assumes "clean (x @ y)"
  shows "clean (bare_check_region x None)"
proof -
  consider "clean x" | z where "x = z @ [CR]" "clean z" using clean_prefix [OF assms] by blast
  then show ?thesis
    by cases (auto simp: bare_check_region_def get_range_def dest: clean_last)
qed

lemma no_end_in_prefix:
  assumes h: "head_lines w l0 ls R" and x: "w = x @ y" and short: "length R < length y"
  shows "find_sub x [CR, LF, CR, LF] = None"
proof (rule ccontr)
  assume "find_sub x [CR, LF, CR, LF] \<noteq> None"
  then obtain t where t: "occurs_at x [CR, LF, CR, LF] t" by (auto simp: find_sub_Some_iff)
  have t4: "t + 4 \<le> length x"
    using t by (auto simp: occurs_at_def dest: arg_cong [of _ _ length])
  then have "occurs_at w [CR, LF, CR, LF] t" using t x by (auto simp: occurs_at_def)
  moreover have "find_sub w [CR, LF, CR, LF] = Some (length l0 + length (terminated ls))"
    using find_end [of l0 ls R] h by (simp add: head_lines_def)
  ultimately have "length l0 + length (terminated ls) \<le> t" by (auto simp: find_sub_Some_iff not_less [symmetric])
  moreover have "length w = length l0 + length (terminated ls) + 4 + length R" using h by (simp add: head_lines_def)
  ultimately show False using t4 x short by simp
qed

lemma locate_prefix:
  assumes se: "finds_first se" and h: "head_lines w l0 ls R" and x: "w = x @ y" and short: "length R < length y"
    and len: "length x < 2 ^ 63"
  shows "locate_terminator se x lim = (if length x > max_head_bytes lim then Inl HeaderListTooLarge else Inr None)"
proof -
  have "w = (terminated (l0 # ls) @ [CR, LF]) @ R" and plain: "list_all plain (l0 # ls)"
    using h by (auto simp: head_lines_def list_all_iff)
  moreover have "length x \<le> length (terminated (l0 # ls) @ [CR, LF])"
    using arg_cong [OF calculation(1), of length] x short by simp
  ultimately obtain z where "terminated (l0 # ls) @ [CR, LF] = x @ z"
    using x by (metis append_eq_append_conv_if append_take_drop_id)
  moreover have "clean (terminated (l0 # ls) @ [CR, LF])" using clean_terminated [OF plain, of "[CR, LF]"] by (simp add: byte_consts)
  ultimately have "clean (bare_check_region x None)" using bare_check_prefix by metis
  moreover have "length (bare_check_region x None) < 2 ^ 63"
    using len by (auto simp: bare_check_region_def get_range_def)
  ultimately have "check_bare_cr_lf (bare_check_region x None) = Inr ()" using check_bare_clean by blast
  then show ?thesis
    using no_end_in_prefix [OF h x short] by (simp add: locate_terminator_def finds_first_memmem [OF se] Let_def)
qed

lemma request_head_lines_of:
  assumes "request_head lim policy w m t v nvs R"
  obtains l0 ls where "head_lines w l0 ls R"
proof -
  obtain l0 ls where r: "w = l0 @ [CR, LF] @ terminated ls @ [CR, LF] @ R" "request_line lim l0 m t v" "plain t"
    "list_all2 (field_line lim policy) ls nvs"
    using assms unfolding request_head_def by blast
  then have "head_lines w l0 ls R"
    using request_line_plain [OF r(2)] field_lines_plain [OF r(4)] by (simp add: head_lines_def)
  then show thesis by (rule that)
qed

lemma request_head_append: "request_head lim policy w m t v nvs R \<Longrightarrow> request_head lim policy (w @ z) m t v nvs (R @ z)"
  unfolding request_head_def by fastforce

end
