(* ===== verification/Http_Head_Pieces.thy ===== *)
theory Http_Head_Pieces
  imports Http_Head_Grammar
begin

text \<open>
  The contract of the head parser: exactness against the grammar of request heads, and what a connection
  sees when the head arrives in pieces.
\<close>

section \<open>Exactness\<close>

text \<open>
  C4. The head parser accepts exactly the request heads. For every buffer, a parse is complete with method
  \<open>m\<close>, target \<open>t\<close>, version \<open>v\<close> and the fields \<open>nvs\<close> after \<open>n\<close> bytes if and only if the buffer starts with a
  request line \<open>m SP t SP v\<close>, followed by one line per field, every line closed by CRLF and free of any other
  CR or LF, and an empty line, which together take \<open>n\<close> bytes; names are tokens with no white space before
  the colon and no folding, values are trimmed, the target has no fragment, and line lengths, field count
  and total field size are within the clamped limits. The spans of the result read back exactly those
  parts. The parser returns on every buffer.
\<close>

theorem request_head_exact:
  assumes "finds_first se" and "is_clamped (ps_limits p)" and "length buf \<le> u32_max"
  shows "((\<exists>h. parse_request_head se p buf = Some (Inr (Complete h n)) \<and> head_view h = (m, t, v, fields_view nvs)) \<longleftrightarrow>
      (\<exists>R. request_head (ps_limits p) (ps_underscores p) buf m t v nvs R \<and> n + length R = length buf)) \<and>
    parse_request_head se p buf \<noteq> None"
  using request_head_iff [OF assms] parse_request_head_returns [OF assms(1)] assms(3) by (simp add: u32_max_def)

definition demo_parser :: h1_parser where
  "demo_parser = \<lparr>ps_limits = DEFAULT_limits, ps_underscores = UnderscorePolicy_Reject\<rparr>"

definition demo_head :: bytes where
  "demo_head = ''GET /a HTTP/1.1'' @ [CR, LF] @ ''Host: x '' @ [CR, LF] @ [CR, LF] @ ''rest''"

lemma demo_head_parses:
  "case parse_request_head linear_searchers demo_parser demo_head of
     Some (Inr (Complete h n)) \<Rightarrow>
       head_view h = (''GET'', ''/a'', Http11, fields_view [(''Host'', ''x'')]) \<and> n = 29
   | _ \<Rightarrow> False"
  by code_simp

theorem request_head_exact_witness:
  "\<exists>R. request_head DEFAULT_limits UnderscorePolicy_Reject demo_head ''GET'' ''/a'' Http11 [(''Host'', ''x'')] R \<and>
     29 + length R = length demo_head"
proof -
  have "\<exists>h. parse_request_head linear_searchers demo_parser demo_head = Some (Inr (Complete h 29)) \<and>
      head_view h = (''GET'', ''/a'', Http11, fields_view [(''Host'', ''x'')])"
    using demo_head_parses by (auto split: option.splits sum.splits parse_status.splits)
  moreover have "length demo_head \<le> u32_max" by code_simp
  ultimately show ?thesis
    using request_head_exact [OF finds_first_linear, of demo_parser demo_head 29 "''GET''" "''/a''" Http11 "[(''Host'', ''x'')]"]
      is_clamped_DEFAULT by (simp add: demo_parser_def)
qed

section \<open>Arrival in pieces\<close>

lemma request_head_rest:
  assumes "request_head lim policy w m t v nvs R"
  obtains head where "w = head @ R"
proof -
  obtain l0 ls where "head_lines w l0 ls R" using assms by (rule request_head_lines_of)
  then show ?thesis using that [of "l0 @ [CR, LF] @ terminated ls @ [CR, LF]"] by (simp add: head_lines_def)
qed

lemma request_head_prefix:
  assumes se: "finds_first se" and h: "request_head (ps_limits p) (ps_underscores p) w m t v nvs R"
    and x: "w = x @ y" "length R < length y" and len: "length w < 2 ^ 63"
  shows "parse_request_head se p x =
    Some (if length x > max_head_bytes (ps_limits p) then Inl HeaderListTooLarge else Inr Partial)"
proof -
  obtain l0 ls where "head_lines w l0 ls R" using h by (rule request_head_lines_of)
  then have "locate_terminator se x (ps_limits p) =
      (if length x > max_head_bytes (ps_limits p) then Inl HeaderListTooLarge else Inr None)"
    using locate_prefix [OF se _ x] x(1) len by simp
  then show ?thesis by (simp add: parse_request_head_def parse_head_with_def)
qed

text \<open>
  C22. However a request head arrives, the parser waits for all of it and then reads it the same way. Every
  proper prefix of the head is reported as incomplete (or as too large, once more than the head buffer bound
  has arrived without the end of the head), never as a complete head and never as malformed; once the
  whole head is there the result is the head, with the same byte count, whatever bytes follow it.
\<close>

theorem request_head_pieces:
  assumes "finds_first se" and "is_clamped (ps_limits p)" and "request_head (ps_limits p) (ps_underscores p) w m t v nvs R"
    and "length (w @ z) \<le> u32_max"
  shows "(\<forall>x y. w = x @ y \<and> length R < length y \<longrightarrow>
      parse_request_head se p x =
        Some (if length x > max_head_bytes (ps_limits p) then Inl HeaderListTooLarge else Inr Partial)) \<and>
    (\<exists>h. parse_request_head se p (w @ z) = Some (Inr (Complete h (length w - length R))) \<and>
       head_view h = (m, t, v, fields_view nvs))"
proof (intro conjI allI impI)
  fix x y
  assume "w = x @ y \<and> length R < length y"
  then show "parse_request_head se p x =
      Some (if length x > max_head_bytes (ps_limits p) then Inl HeaderListTooLarge else Inr Partial)"
    using request_head_prefix [OF assms(1,3), of x y] assms(4) by (simp add: u32_max_def)
next
  obtain head where "w = head @ R" using assms(3) by (rule request_head_rest)
  then show "\<exists>h. parse_request_head se p (w @ z) = Some (Inr (Complete h (length w - length R))) \<and>
      head_view h = (m, t, v, fields_view nvs)"
    unfolding request_head_iff [OF assms(1,2,4)]
    using request_head_append [OF assms(3), of z] by (intro exI [of _ "R @ z"]) simp
qed

text \<open>A head in the default configuration, and a head whose only value is padded with white space.\<close>

lemma request_head_demo:
  "request_head DEFAULT_limits UnderscorePolicy_Reject demo_head ''GET'' ''/a'' Http11 [(''Host'', ''x'')] ''rest''"
proof -
  obtain R where R: "request_head DEFAULT_limits UnderscorePolicy_Reject demo_head ''GET'' ''/a'' Http11 [(''Host'', ''x'')] R"
    "29 + length R = length demo_head"
    using demo_head_parses request_head_iff [OF finds_first_linear, of demo_parser demo_head 29 "''GET''" "''/a''" Http11 "[(''Host'', ''x'')]"]
      is_clamped_DEFAULT by (auto simp: demo_parser_def demo_head_def u32_max_def split: option.splits sum.splits parse_status.splits)
  obtain head where head: "demo_head = head @ R" using R(1) by (rule request_head_rest)
  have "R = drop (length head) demo_head" "length head = 29" using R(2) unfolding head by simp_all
  then have "R = drop 29 demo_head" by simp
  then show ?thesis using R(1) by (simp add: demo_head_def)
qed

theorem request_head_pieces_witness:
  "parse_request_head linear_searchers demo_parser (take 20 demo_head) = Some (Inr Partial) \<and>
   (\<exists>h. parse_request_head linear_searchers demo_parser (demo_head @ ''more'') = Some (Inr (Complete h 29)) \<and>
      head_view h = (''GET'', ''/a'', Http11, fields_view [(''Host'', ''x'')]))"
proof -
  have h: "request_head (ps_limits demo_parser) (ps_underscores demo_parser) demo_head ''GET'' ''/a'' Http11 [(''Host'', ''x'')] ''rest''"
    using request_head_demo by (simp add: demo_parser_def)
  have lim: "is_clamped (ps_limits demo_parser)" by (simp add: demo_parser_def is_clamped_DEFAULT)
  have len: "length (demo_head @ ''more'') \<le> u32_max" and d: "length demo_head - length ''rest'' = 29"
    and short: "\<not> length (take 20 demo_head) > max_head_bytes (ps_limits demo_parser)"
    by code_simp+
  have cut: "demo_head = take 20 demo_head @ drop 20 demo_head \<and> length ''rest'' < length (drop 20 demo_head)"
    by (simp add: demo_head_def)
  show ?thesis
    using request_head_pieces [OF finds_first_linear lim h len, unfolded d, THEN conjunct1, THEN spec, THEN spec, THEN mp, OF cut]
      request_head_pieces [OF finds_first_linear lim h len, unfolded d, THEN conjunct2] short
    by (intro conjI) simp_all
qed

section \<open>White space and the buffer bound\<close>

definition padded_head :: "nat \<Rightarrow> bytes" where
  "padded_head k = ''GET / HTTP/1.1'' @ [CR, LF] @ ''a:'' @ replicate k SP @ ''b'' @ [CR, LF] @ [CR, LF]"

lemma padded_head_is_head:
  assumes "k < 2 ^ 32"
  shows "request_head DEFAULT_limits UnderscorePolicy_Reject (padded_head k) ''GET'' ''/'' Http11 [(''a'', ''b'')] []"
proof -
  have trim: "trim_ows (replicate k SP @ ''b'') = ''b''"
    using trim_ows_middle [of "replicate k SP" "[]" "''b''"] assms
    by (auto simp: ows_trimmed_def is_ows_def byte_consts usize_max_def)
  have "name_ok (canonical_name UnderscorePolicy_Reject ''a'')" by code_simp
  moreover have "value_ok (replicate k SP @ ''b'')" by (auto simp: value_ok_def byte_consts)
  moreover have "length ''a'' + length ''b'' \<le> max_field_line_bytes DEFAULT_limits" by code_simp
  ultimately have line: "field_line DEFAULT_limits UnderscorePolicy_Reject (''a:'' @ replicate k SP @ ''b'') (''a'', ''b'')"
    unfolding field_line_def by (intro exI [of _ "''a''"] exI [of _ "replicate k SP @ ''b''"]) (simp add: trim)
  have req: "request_line DEFAULT_limits ''GET / HTTP/1.1'' ''GET'' ''/'' Http11"
    unfolding request_line_def
    by (rule exI [of _ "''HTTP/1.1''"]) (simp add: byte_consts version_text_def parse_method_def token_CAP_def)
  have "plain ''/'' \<and> length ''GET / HTTP/1.1'' + 2 \<le> max_request_line_bytes DEFAULT_limits \<and>
      length [(''a'', ''b'')] \<le> max_field_count DEFAULT_limits \<and>
      sum_list (map entry_size (sizes [(''a'', ''b'')])) \<le> max_header_list_bytes DEFAULT_limits"
    by code_simp
  then show ?thesis
    unfolding request_head_def using req line
    by (intro exI [of _ "''GET / HTTP/1.1''"] exI [of _ "[''a:'' @ replicate k SP @ ''b'']"]) (simp add: padded_head_def)
qed

text \<open>
  C37. The buffer bound of an incomplete head is not a bound of the accepted heads: a head of 80023 bytes,
  padded with white space that the parser trims before it charges the value, is accepted when it is in the
  buffer as a whole, and refused as too large when its first 73731 bytes are seen first.
\<close>

theorem padded_head_depends_on_arrival:
  "(\<exists>h. parse_request_head linear_searchers demo_parser (padded_head 80000) = Some (Inr (Complete h 80023)) \<and>
      head_view h = (''GET'', ''/'', Http11, fields_view [(''a'', ''b'')])) \<and>
   parse_request_head linear_searchers demo_parser (take 73731 (padded_head 80000)) = Some (Inl HeaderListTooLarge)"
proof -
  let ?w = "padded_head 80000"
  have h: "request_head (ps_limits demo_parser) (ps_underscores demo_parser) ?w ''GET'' ''/'' Http11 [(''a'', ''b'')] []"
    using padded_head_is_head [of 80000] by (simp add: demo_parser_def)
  have len: "length ?w = 80023" by (simp add: padded_head_def)
  have lim: "is_clamped (ps_limits demo_parser)" by (simp add: demo_parser_def is_clamped_DEFAULT)
  have bound: "max_head_bytes (ps_limits demo_parser) = 73730" by code_simp
  have "parse_request_head linear_searchers demo_parser (take 73731 ?w) = Some (Inl HeaderListTooLarge)"
    using request_head_prefix [OF finds_first_linear h, of "take 73731 ?w" "drop 73731 ?w"] by (simp add: len bound)
  moreover have "\<exists>h. parse_request_head linear_searchers demo_parser ?w = Some (Inr (Complete h 80023)) \<and>
      head_view h = (''GET'', ''/'', Http11, fields_view [(''a'', ''b'')])"
    using request_head_iff [OF finds_first_linear lim, of ?w 80023 "''GET''" "''/''" Http11 "[(''a'', ''b'')]"] h
    by (fastforce simp: len u32_max_def)
  ultimately show ?thesis by simp
qed

end
