(* ===== verification/Http_Path.thy ===== *)
theory Http_Path
  imports Http_Base
begin

text \<open>
  Request targets (\<^verbatim>\<open>path.rs\<close>): the classification of a target and the normalisation pipeline of a path, with
  its in-place passes over one buffer. A buffer is a list of bytes, a read and a write cursor are indices
  into it; the stack of segment offsets has its top first. \<^const>\<open>None\<close> stands for a slice operation that
  panics and for a loop that outruns its bound.
\<close>

section \<open>Types\<close>

record normalized_path =
  np_buf :: bytes

record raw_query =
  rq_buf :: bytes

datatype encoded_dot = EncodedDot_Reject | EncodedDot_Keep

datatype encoded_slash = EncodedSlash_Reject | EncodedSlash_Keep

record path_policy =
  pp_dot :: encoded_dot
  pp_slash :: encoded_slash
  pp_merge :: bool

definition PathPolicy_DEFAULT :: path_policy where
  "PathPolicy_DEFAULT = \<lparr>pp_dot = EncodedDot_Reject, pp_slash = EncodedSlash_Reject, pp_merge = False\<rparr>"

datatype target_form = TargetForm_Origin | TargetForm_Asterisk | TargetForm_Absolute | TargetForm_Authority

section \<open>Bytes and escapes\<close>

definition is_ascii_alphabetic :: "byte \<Rightarrow> bool" where
  "is_ascii_alphabetic b \<longleftrightarrow> is_ascii_uppercase b \<or> is_ascii_lowercase b"

definition is_ascii_hexdigit :: "byte \<Rightarrow> bool" where
  "is_ascii_hexdigit b \<longleftrightarrow>
     is_ascii_digit b \<or> 65 \<le> byte_val b \<and> byte_val b \<le> 70 \<or> 97 \<le> byte_val b \<and> byte_val b \<le> 102"

definition to_ascii_uppercase :: "byte \<Rightarrow> byte" where
  "to_ascii_uppercase c = (if is_ascii_lowercase c then char_of (byte_val c - 32) else c)"

definition is_path_byte_ok :: "byte \<Rightarrow> bool" where
  "is_path_byte_ok b \<longleftrightarrow> is_ascii_alphanumeric b \<or> b \<in> set ''-._~!$&'' \<or> b = CHR 0x27 \<or> b \<in> set ''()*+,;=:@/''"

definition is_unreserved_minus_dot :: "byte \<Rightarrow> bool" where
  "is_unreserved_minus_dot b \<longleftrightarrow> is_ascii_alphanumeric b \<or> b \<in> set ''-_~''"

definition path_hex_digit :: "byte \<Rightarrow> nat" where
  "path_hex_digit b =
     (if is_ascii_digit b then byte_val b - 48
      else if 97 \<le> byte_val b \<and> byte_val b \<le> 102 then byte_val b - 97 + 10
      else if 65 \<le> byte_val b \<and> byte_val b \<le> 70 then byte_val b - 65 + 10
      else 0)"

definition hex_pair_value :: "byte \<Rightarrow> byte \<Rightarrow> byte" where
  "hex_pair_value hi lo = char_of (min 255 (min 255 (path_hex_digit hi * 16) + path_hex_digit lo))"

fun validate_path_syntax :: "bytes \<Rightarrow> reject_reason + unit" where
  "validate_path_syntax [] = Inr ()"
| "validate_path_syntax (b # bs) =
     (if b = CHR ''%'' then
        (case bs of
           h1 # h2 # rest \<Rightarrow>
             if is_ascii_hexdigit h1 \<and> is_ascii_hexdigit h2 then validate_path_syntax rest else Inl PathPercentInvalidHex
         | _ \<Rightarrow> Inl PathPercentTruncated)
      else if is_path_byte_ok b then validate_path_syntax bs
      else Inl PathInvalidByte)"

function decode_path_into :: "bytes \<Rightarrow> bytes \<Rightarrow> (reject_reason + unit) \<times> bytes" where
  "decode_path_into [] out = (Inr (), out)"
| "decode_path_into (b # bs) out =
     (if b = CHR ''%'' then
        (let h1 = (case get bs 0 of Some h \<Rightarrow> h | None \<Rightarrow> CHR ''0'');
             h2 = (case get bs 1 of Some h \<Rightarrow> h | None \<Rightarrow> CHR ''0'');
             v = hex_pair_value h1 h2
         in if v = CHR 0x00 then (Inl PathEncodedNul, out)
            else decode_path_into (drop 2 bs)
                   (out @ (if is_unreserved_minus_dot v then [v]
                           else [CHR ''%'', to_ascii_uppercase h1, to_ascii_uppercase h2])))
      else decode_path_into bs (out @ [b]))"
  by pat_completeness auto
termination by (relation "measure (\<lambda>(bs, out). length bs)") auto

section \<open>In-place passes\<close>

text \<open>\<^verbatim>\<open>copy_within(a..b, w)\<close> panics unless both ranges are inside the slice.\<close>

definition copy_within :: "bytes \<Rightarrow> nat \<Rightarrow> nat \<Rightarrow> nat \<Rightarrow> bytes option" where
  "copy_within buf a b w =
     (if a \<le> b \<and> b \<le> length buf \<and> w + (b - a) \<le> length buf
      then Some (take w buf @ take (b - a) (drop a buf) @ drop (w + (b - a)) buf) else None)"

definition slice_or_empty :: "bytes \<Rightarrow> nat \<Rightarrow> nat \<Rightarrow> bytes" where
  "slice_or_empty buf a b = (case get_range buf a b of Some s \<Rightarrow> s | None \<Rightarrow> [])"

definition starts_with :: "bytes \<Rightarrow> bytes \<Rightarrow> bool" where
  "starts_with xs p \<longleftrightarrow> take (length p) xs = p"

fun remove_dot_loop ::
  "nat \<Rightarrow> bytes \<Rightarrow> nat \<Rightarrow> nat list \<Rightarrow> nat \<Rightarrow> nat \<Rightarrow> ((reject_reason + nat) \<times> bytes) option" where
  "remove_dot_loop 0 buf len stack r w = None"
| "remove_dot_loop (Suc fuel) buf len stack r w =
     (if r < len then
        (let rest = slice_or_empty buf r len in
         if rest = ''/.'' \<or> starts_with rest ''/./'' then
           (if rest = ''/.'' then remove_dot_loop fuel (set_at buf w CHR ''/'') len stack (sat_add r 2) (sat_add w 1)
            else remove_dot_loop fuel buf len stack (sat_add r 2) w)
         else if rest = ''/..'' \<or> starts_with rest ''/../'' then
           (case stack of
              [] \<Rightarrow> Some (Inl PathTraversalAboveRoot, buf)
            | popped # stack' \<Rightarrow>
                if rest = ''/..''
                then remove_dot_loop fuel (set_at buf popped CHR ''/'') len stack' (sat_add r 3) (sat_add popped 1)
                else remove_dot_loop fuel buf len stack' (sat_add r 3) popped)
         else
           (let search_from = sat_add r 1;
                next_slash = (case position (\<lambda>b. b = CHR ''/'') (slice_or_empty buf search_from len) of
                                None \<Rightarrow> len | Some p \<Rightarrow> sat_add search_from p)
            in case copy_within buf r next_slash w of
                 None \<Rightarrow> None
               | Some buf' \<Rightarrow> remove_dot_loop fuel buf' len (to_u32 w # stack) next_slash (sat_add w (next_slash - r))))
      else Some (Inr w, buf))"

definition remove_dot_segments :: "bytes \<Rightarrow> nat \<Rightarrow> ((reject_reason + nat) \<times> bytes) option" where
  "remove_dot_segments buf len = remove_dot_loop (Suc len) buf len [] 0 0"

fun dot_count_loop :: "bytes \<Rightarrow> nat \<Rightarrow> nat option" where
  "dot_count_loop [] dots = Some dots"
| "dot_count_loop (b # bs) dots =
     (if b = CHR ''.'' then dot_count_loop bs (min 255 (dots + 1))
      else (case bs of
          x # y # rest \<Rightarrow>
            if b = CHR ''%'' \<and> x = CHR ''2'' \<and> y = CHR ''E'' then dot_count_loop rest (min 255 (dots + 1)) else None
        | _ \<Rightarrow> None))"

definition is_encoded_dot_segment :: "bytes \<Rightarrow> bool" where
  "is_encoded_dot_segment seg = (case dot_count_loop seg 0 of Some dots \<Rightarrow> dots = 1 \<or> dots = 2 | None \<Rightarrow> False)"

definition has_encoded_dot_segment :: "bytes \<Rightarrow> bool" where
  "has_encoded_dot_segment buf = list_ex is_encoded_dot_segment (split_on (\<lambda>b. b = CHR ''/'') (drop 1 buf))"

fun has_encoded_slash :: "bytes \<Rightarrow> bool" where
  "has_encoded_slash (x # y # z # bs) \<longleftrightarrow>
     [x, y, z] = ''%2F'' \<or> [x, y, z] = ''%5C'' \<or> has_encoded_slash (y # z # bs)"
| "has_encoded_slash _ \<longleftrightarrow> False"

fun skip_slashes :: "nat \<Rightarrow> bytes \<Rightarrow> nat \<Rightarrow> nat \<Rightarrow> nat option" where
  "skip_slashes 0 buf len r = None"
| "skip_slashes (Suc fuel) buf len r =
     (if r < len \<and> get buf r = Some CHR ''/'' then skip_slashes fuel buf len (sat_add r 1) else Some r)"

fun merge_loop :: "nat \<Rightarrow> bytes \<Rightarrow> nat \<Rightarrow> nat \<Rightarrow> nat \<Rightarrow> (nat \<times> bytes) option" where
  "merge_loop 0 buf len r w = None"
| "merge_loop (Suc fuel) buf len r w =
     (if r < len then
        (let b = (case get buf r of Some b \<Rightarrow> b | None \<Rightarrow> CHR 0x00);
             buf' = set_at buf w b
         in if b = CHR ''/''
            then (case skip_slashes (Suc len) buf' len (sat_add r 1) of
                    None \<Rightarrow> None
                  | Some r' \<Rightarrow> merge_loop fuel buf' len r' (sat_add w 1))
            else merge_loop fuel buf' len (sat_add r 1) (sat_add w 1))
      else Some (w, buf))"

definition merge_slashes :: "bytes \<Rightarrow> nat \<Rightarrow> (nat \<times> bytes) option" where
  "merge_slashes buf len = merge_loop (Suc len) buf len 0 0"

section \<open>Classification\<close>

fun scheme_len :: "bytes \<Rightarrow> nat" where
  "scheme_len [] = 0"
| "scheme_len (b # bs) = (if is_ascii_alphanumeric b \<or> b \<in> set ''+-.'' then Suc (scheme_len bs) else 0)"

definition has_scheme_prefix :: "bytes \<Rightarrow> bool" where
  "has_scheme_prefix raw =
     (case raw of
        [] \<Rightarrow> False
      | b # bs \<Rightarrow> is_ascii_alphabetic b \<and> (let i = 1 + scheme_len bs in get_range raw i (sat_add i 3) = Some ''://''))"

definition classify_target :: "bytes \<Rightarrow> http_method \<Rightarrow> reject_reason + target_form" where
  "classify_target raw m =
     (if is_connect m then Inr TargetForm_Authority
      else if raw = ''*'' then (if m = Method_Options then Inr TargetForm_Asterisk else Inl TargetFormInvalid)
      else if get raw 0 = Some CHR ''/'' then Inr TargetForm_Origin
      else if has_scheme_prefix raw then Inr TargetForm_Absolute
      else Inl TargetFormInvalid)"

section \<open>The pipeline\<close>

definition query_byte_ok :: "byte \<Rightarrow> bool" where
  "query_byte_ok b \<longleftrightarrow> byte_val b > 0x20 \<and> byte_val b < 0x7F \<and> b \<noteq> CHR ''#''"

text \<open>Steps 7 to 10 over \<open>out = base bytes @ region\<close>; on success \<open>out\<close> keeps its first \<open>base\<close> bytes.\<close>

definition finish_path ::
  "path_policy \<Rightarrow> bytes \<Rightarrow> bytes \<Rightarrow> nat \<Rightarrow> bytes option \<Rightarrow>
   ((reject_reason + normalized_path \<times> raw_query option) \<times> bytes) option" where
  "finish_path policy front region path_len query_raw =
     (let current = slice_or_empty region 0 path_len in
      if pp_dot policy = EncodedDot_Reject \<and> has_encoded_dot_segment current then Some (Inl PathEncodedDot, front @ region)
      else if pp_slash policy = EncodedSlash_Reject \<and> has_encoded_slash current then Some (Inl PathEncodedSlash, front @ region)
      else (case (if pp_merge policy then merge_slashes region path_len else Some (path_len, region)) of
          None \<Rightarrow> None
        | Some (n, region') \<Rightarrow>
            (let out = take (sat_add (length front) n) (front @ region') @ (case query_raw of Some q \<Rightarrow> q | None \<Rightarrow> []);
                 frozen = drop (length front) out;
                 query_len = (case query_raw of Some q \<Rightarrow> length q | None \<Rightarrow> 0)
             in case (get_range frozen 0 n, get_range frozen n (sat_add n query_len)) of
                  (Some p, Some q) \<Rightarrow>
                    Some (Inr (\<lparr>np_buf = p\<rparr>, if query_raw = None then None else Some \<lparr>rq_buf = q\<rparr>), take (length front) out)
                | _ \<Rightarrow> None)))"

definition parse_into ::
  "bytes \<Rightarrow> path_policy \<Rightarrow> http_limits \<Rightarrow> bytes \<Rightarrow>
   ((reject_reason + normalized_path \<times> raw_query option) \<times> bytes) option" where
  "parse_into raw policy limits out =
     (if raw = [] then Some (Inl PathEmpty, out)
      else if length raw > max_path_bytes limits then Some (Inl PathTooLong, out)
      else if CHR ''#'' \<in> set raw then Some (Inl TargetFragment, out)
      else
        (let question_mark = position (\<lambda>b. b = CHR ''?'') raw;
             path_raw = (case question_mark of None \<Rightarrow> raw | Some q \<Rightarrow> slice_or_empty raw 0 q);
             query_raw = map_option (\<lambda>q. drop (sat_add q 1) raw) question_mark
         in if (case query_raw of Some q \<Rightarrow> \<not> list_all query_byte_ok q | None \<Rightarrow> False) then Some (Inl QueryInvalidByte, out)
            else if path_raw = [] then Some (Inl PathEmpty, out)
            else if get path_raw 0 \<noteq> Some CHR ''/'' then Some (Inl TargetFormInvalid, out)
            else (case validate_path_syntax path_raw of
                Inl e \<Rightarrow> Some (Inl e, out)
              | Inr _ \<Rightarrow>
                  (case decode_path_into path_raw out of
                     (Inl e, out1) \<Rightarrow> Some (Inl e, out1)
                   | (Inr _, out1) \<Rightarrow>
                       (let front = take (length out) out1; region = drop (length out) out1 in
                        case remove_dot_segments region (length out1 - length out) of
                          None \<Rightarrow> None
                        | Some (Inl e, region') \<Rightarrow> Some (Inl e, front @ region')
                        | Some (Inr path_len, region') \<Rightarrow> finish_path policy front region' path_len query_raw)))))"

definition path_segments :: "normalized_path \<Rightarrow> bytes list" where
  "path_segments p = split_on (\<lambda>b. b = CHR ''/'') (drop 1 (np_buf p))"

definition segment_count :: "normalized_path \<Rightarrow> nat" where
  "segment_count p = length (path_segments p)"

definition path_root :: normalized_path where
  "path_root = \<lparr>np_buf = ''/''\<rparr>"

end
