(* ===== verification/Http_Path_Dots.thy ===== *)
theory Http_Path_Dots
  imports Http_Path
begin

text \<open>
  The in-place passes of path normalisation against lists of segments: removing dot segments resolves the
  segments one after the other on a stack, and merging slashes drops the empty segments that are not last.
\<close>

section \<open>Segments\<close>

definition joined :: "bytes list \<Rightarrow> bytes" where
  "joined segs = concat (map (\<lambda>s. CHR ''/'' # s) segs)"

lemma joined_simps [simp]:
  "joined [] = []"
  "joined (s # ss) = CHR ''/'' # s @ joined ss"
  "joined (xs @ ys) = joined xs @ joined ys"
  by (simp_all add: joined_def)

lemma joined_Nil_iff [simp]: "joined ss = [] \<longleftrightarrow> ss = []" "[] = joined ss \<longleftrightarrow> ss = []"
  by (cases ss; simp)+

definition slash_free :: "bytes \<Rightarrow> bool" where
  "slash_free s \<longleftrightarrow> CHR ''/'' \<notin> set s"

abbreviation on_slash :: "bytes \<Rightarrow> bytes list" where
  "on_slash \<equiv> split_on (\<lambda>b. b = CHR ''/'')"

lemma joined_on_slash [simp]: "joined (on_slash t) = CHR ''/'' # t"
  by (induction t) (auto split: list.splits)

lemma on_slash_free: "s \<in> set (on_slash t) \<Longrightarrow> slash_free s"
  by (induction t arbitrary: s) (auto simp: slash_free_def split: list.splits if_splits)

lemma on_slash_append: "slash_free s \<Longrightarrow> on_slash (s @ CHR ''/'' # t) = s # on_slash t"
  by (induction s) (auto simp: slash_free_def)

lemma on_slash_single: "slash_free s \<Longrightarrow> on_slash s = [s]"
  by (induction s) (auto simp: slash_free_def)

lemma on_slash_joined: "list_all slash_free (s # ss) \<Longrightarrow> on_slash (s @ joined ss) = s # ss"
proof (induction ss arbitrary: s)
  case Nil
  then show ?case by (simp add: on_slash_single)
next
  case (Cons t ts)
  then show ?case by (simp add: on_slash_append)
qed

text \<open>The first segment of a path decides how the path starts.\<close>

lemma first_segment: "slash_free s \<Longrightarrow> takeWhile (\<lambda>b. b \<noteq> CHR ''/'') (s @ joined ss) = s"
  by (induction s) (cases ss; auto simp: slash_free_def)+

lemma path_is_segment:
  assumes "slash_free s" "slash_free d"
  shows "s @ joined ss = d \<longleftrightarrow> s = d \<and> ss = []"
proof
  assume eq: "s @ joined ss = d"
  then have "takeWhile (\<lambda>b. b \<noteq> CHR ''/'') (s @ joined ss) = takeWhile (\<lambda>b. b \<noteq> CHR ''/'') (d @ joined [])" by simp
  then have "s = d" by (simp only: first_segment assms)
  then show "s = d \<and> ss = []" using eq by simp
qed simp

lemma path_starts_segment:
  assumes "slash_free s" "slash_free d"
  shows "starts_with (s @ joined ss) (d @ ''/'') \<longleftrightarrow> s = d \<and> ss \<noteq> []"
proof
  assume "starts_with (s @ joined ss) (d @ ''/'')"
  then obtain z where z: "s @ joined ss = d @ ''/'' @ z"
    unfolding starts_with_def by (metis append_assoc append_take_drop_id)
  then have "takeWhile (\<lambda>b. b \<noteq> CHR ''/'') (s @ joined ss) = takeWhile (\<lambda>b. b \<noteq> CHR ''/'') (d @ joined (on_slash z))"
    by simp
  then have "s = d" by (simp only: first_segment assms)
  then show "s = d \<and> ss \<noteq> []" using z by (cases ss) auto
next
  assume "s = d \<and> ss \<noteq> []"
  then show "starts_with (s @ joined ss) (d @ ''/'')" by (cases ss) (auto simp: starts_with_def)
qed

section \<open>Dot segments\<close>

text \<open>Resolution of the segments, with the segments kept so far in reverse.\<close>

fun resolve :: "bytes list \<Rightarrow> bytes list \<Rightarrow> bytes list option" where
  "resolve kept [] = Some (rev kept)"
| "resolve kept (s # ss) =
     (if s = ''.'' then (if ss = [] then Some (rev ([] # kept)) else resolve kept ss)
      else if s = ''..'' then
        (case kept of
           [] \<Rightarrow> None
         | _ # kept' \<Rightarrow> if ss = [] then Some (rev ([] # kept')) else resolve kept' ss)
      else resolve (s # kept) ss)"

fun stack_of :: "bytes list \<Rightarrow> nat list" where
  "stack_of [] = []"
| "stack_of (s # kept) = length (joined (rev kept)) # stack_of kept"

text \<open>What the loop holds before an iteration: the kept segments in front, the rest of the path behind.\<close>

definition at_rest :: "bytes \<Rightarrow> nat \<Rightarrow> nat \<Rightarrow> nat \<Rightarrow> bytes list \<Rightarrow> bytes list \<Rightarrow> bool" where
  "at_rest buf len r w kept ss \<longleftrightarrow>
     take w buf = joined (rev kept) \<and> w \<le> r \<and> r \<le> len \<and> len \<le> length buf \<and> length buf \<le> u32_max \<and>
     take (len - r) (drop r buf) = joined ss"

lemma at_rest_w: "at_rest buf len r w kept ss \<Longrightarrow> w = length (joined (rev kept))"
  unfolding at_rest_def by (metis length_take min.absorb2 le_trans)

lemma at_rest_len: "at_rest buf len r w kept ss \<Longrightarrow> len = r + length (joined ss)"
  unfolding at_rest_def by (metis add_diff_cancel_left' diff_le_mono le_Suc_ex length_drop length_take min.absorb2)

lemma at_rest_slice: "at_rest buf len r w kept ss \<Longrightarrow> slice_or_empty buf r len = joined ss"
  by (simp add: at_rest_def slice_or_empty_def get_range_def)

definition loop_result :: "bytes \<Rightarrow> bytes list option \<Rightarrow> ((reject_reason + nat) \<times> bytes) option \<Rightarrow> bool" where
  "loop_result buf out res \<longleftrightarrow>
     (\<exists>buf'. length buf' = length buf \<and>
        (case out of
           None \<Rightarrow> res = Some (Inl PathTraversalAboveRoot, buf')
         | Some segs \<Rightarrow> res = Some (Inr (length (joined segs)), buf') \<and> take (length (joined segs)) buf' = joined segs))"

lemma loop_result_end:
  assumes "0 < fuel" and "take w buf = joined segs" and "w \<le> length buf"
  shows "loop_result buf (Some segs) (remove_dot_loop fuel buf len stack len w)"
proof -
  have "w = length (joined segs)" using assms(2,3) by (metis length_take min.absorb2)
  then show ?thesis using assms by (cases fuel) (auto simp: loop_result_def)
qed

text \<open>An exact dot segment at the end leaves a slash behind the kept segments.\<close>

lemma loop_result_slash:
  assumes "0 < fuel" and "take w buf = joined segs" and "w < length buf"
  shows "loop_result buf (Some (segs @ [[]])) (remove_dot_loop fuel (set_at buf w CHR ''/'') len stack len (Suc w))"
proof -
  have "take (Suc w) (set_at buf w CHR ''/'') = joined (segs @ [[]])"
    using assms(2,3) by (simp add: set_at_def take_Suc_conv_app_nth)
  then have "loop_result (set_at buf w CHR ''/'') (Some (segs @ [[]]))
      (remove_dot_loop fuel (set_at buf w CHR ''/'') len stack len (Suc w))"
    using loop_result_end [OF assms(1)] assms(3) by simp
  then show ?thesis by (simp add: loop_result_def)
qed

text \<open>The next segment is copied behind the kept ones.\<close>

lemma copy_segment:
  assumes rest: "at_rest buf len r w kept (s # ss)"
  defines "n \<equiv> r + Suc (length s)"
  obtains buf' where "copy_within buf r n w = Some buf'" "length buf' = length buf"
    "at_rest buf' len n (w + (n - r)) (s # kept) ss"
proof -
  have len: "len = n + length (joined ss)" using at_rest_len [OF rest] by (simp add: n_def)
  have b: "take w buf = joined (rev kept)" "w \<le> r" "len \<le> length buf" "length buf \<le> u32_max"
    and d: "take (len - r) (drop r buf) = CHR ''/'' # s @ joined ss"
    using rest by (simp_all add: at_rest_def)
  have seg: "take (n - r) (drop r buf) = CHR ''/'' # s"
    using arg_cong [OF d, of "take (Suc (length s))"] len by (simp add: n_def min_def split: if_splits)
  have tail: "take (len - n) (drop n buf) = joined ss"
    using arg_cong [OF d, of "drop (Suc (length s))"] len by (simp add: n_def drop_take add.commute)
  define B where "B = take w buf @ take (n - r) (drop r buf) @ drop (w + (n - r)) buf"
  have len_B: "length B = length buf" using b(2,3) len by (simp add: B_def n_def)
  have bb: "B = joined (rev (s # kept)) @ drop (w + (n - r)) buf" using b(1) seg by (simp add: B_def)
  have l: "length (joined (rev (s # kept))) = w + (n - r)" using at_rest_w [OF rest] by (simp add: n_def)
  have "take (w + (n - r)) B = joined (rev (s # kept))" unfolding bb using l by (simp del: joined_simps rev.simps)
  moreover have "drop n B = drop n buf" unfolding bb using l b(2) by (simp add: n_def del: joined_simps rev.simps)
  ultimately have "at_rest B len n (w + (n - r)) (s # kept) ss"
    unfolding at_rest_def using b len tail len_B by (simp add: n_def)
  moreover have "copy_within buf r n w = Some B" using b(2,3) len by (simp add: copy_within_def n_def B_def)
  ultimately show ?thesis using that len_B by blast
qed

lemma next_slash:
  assumes rest: "at_rest buf len r w kept (s # ss)" and free: "slash_free s"
  shows "(case position (\<lambda>b. b = CHR ''/'') (slice_or_empty buf (sat_add r 1) len) of
            None \<Rightarrow> len | Some p \<Rightarrow> sat_add (sat_add r 1) p) = r + Suc (length s)"
proof -
  have len: "len = r + Suc (length s) + length (joined ss)" "len \<le> usize_max" "r < usize_max"
    using at_rest_len [OF rest] rest by (simp_all add: at_rest_def u32_max_def usize_max_def)
  have d: "take (len - r) (drop r buf) = CHR ''/'' # s @ joined ss" using rest by (simp add: at_rest_def)
  have "take (len - Suc r) (drop (Suc r) buf) = s @ joined ss"
    using arg_cong [OF d, of "drop 1"] len(1) by (simp add: drop_take)
  then have sl: "slice_or_empty buf (sat_add r 1) len = s @ joined ss"
    using rest len by (simp add: slice_or_empty_def get_range_def at_rest_def sat_add_def)
  have p: "position (\<lambda>b. b = CHR ''/'') s = None" using free by (auto simp: position_None_iff slash_free_def)
  show ?thesis using len unfolding sl position_append p by (cases ss) (simp_all add: sat_add_def)
qed

text \<open>The comparisons of the loop with \<^verbatim>\<open>/.\<close> and \<^verbatim>\<open>/..\<close>.\<close>

lemma dot_tests:
  assumes "slash_free s"
  shows "joined (s # ss) = ''/.'' \<longleftrightarrow> s = ''.'' \<and> ss = []"
    and "starts_with (joined (s # ss)) ''/./'' \<longleftrightarrow> s = ''.'' \<and> ss \<noteq> []"
    and "joined (s # ss) = ''/..'' \<longleftrightarrow> s = ''..'' \<and> ss = []"
    and "starts_with (joined (s # ss)) ''/../'' \<longleftrightarrow> s = ''..'' \<and> ss \<noteq> []"
proof -
  have "slash_free ''.''" "slash_free ''..''" by (simp_all add: slash_free_def)
  note d = path_is_segment [OF assms this(1)] path_is_segment [OF assms this(2)]
    path_starts_segment [OF assms this(1)] path_starts_segment [OF assms this(2)]
  show "joined (s # ss) = ''/.'' \<longleftrightarrow> s = ''.'' \<and> ss = []" "joined (s # ss) = ''/..'' \<longleftrightarrow> s = ''..'' \<and> ss = []"
    using d(1,2) by simp_all
  show "starts_with (joined (s # ss)) ''/./'' \<longleftrightarrow> s = ''.'' \<and> ss \<noteq> []"
    "starts_with (joined (s # ss)) ''/../'' \<longleftrightarrow> s = ''..'' \<and> ss \<noteq> []"
    using d(3,4) by (simp_all add: starts_with_def)
qed

lemma loop_result_length: "length b = length b' \<Longrightarrow> loop_result b = loop_result b'"
  by (simp add: loop_result_def fun_eq_iff)

text \<open>Skipping a segment that is not the last, after dropping some kept segments.\<close>

lemma at_rest_skip:
  assumes rest: "at_rest buf len r w kept (s # ss)" and pre: "joined (rev kept) = joined (rev kept') @ z"
  shows "at_rest buf len (r + Suc (length s)) (length (joined (rev kept'))) kept' ss"
proof -
  have len: "len = r + Suc (length s) + length (joined ss)" using at_rest_len [OF rest] by simp
  have d: "take (len - r) (drop r buf) = CHR ''/'' # s @ joined ss" "take w buf = joined (rev kept') @ z" "w \<le> r"
    using rest pre by (simp_all add: at_rest_def)
  have "take (len - (r + Suc (length s))) (drop (r + Suc (length s)) buf) = joined ss"
    using arg_cong [OF d(1), of "drop (Suc (length s))"] len by (simp add: drop_take add.commute)
  moreover have "w = length (joined (rev kept')) + length z" using at_rest_w [OF rest] pre by simp
  moreover have "take (length (joined (rev kept'))) buf = joined (rev kept')"
    using arg_cong [OF d(2), of "take (length (joined (rev kept')))"] calculation(2) by (simp add: min_def)
  ultimately show ?thesis using rest len d(3) by (simp add: at_rest_def)
qed

lemma remove_dot_step:
  assumes rest: "at_rest buf len r w kept (s # ss)" and free: "slash_free s"
  shows "remove_dot_loop (Suc fuel) buf len stack r w =
    (if s = ''.'' then
       (if ss = [] then remove_dot_loop fuel (set_at buf w CHR ''/'') len stack (r + 2) (w + 1)
        else remove_dot_loop fuel buf len stack (r + 2) w)
     else if s = ''..'' then
       (case stack of
          [] \<Rightarrow> Some (Inl PathTraversalAboveRoot, buf)
        | popped # stack' \<Rightarrow>
            if ss = [] then remove_dot_loop fuel (set_at buf popped CHR ''/'') len stack' (r + 3) (sat_add popped 1)
            else remove_dot_loop fuel buf len stack' (r + 3) popped)
     else (case copy_within buf r (r + Suc (length s)) w of
          None \<Rightarrow> None
        | Some buf' \<Rightarrow> remove_dot_loop fuel buf' len (w # stack) (r + Suc (length s)) (w + Suc (length s))))"
proof -
  have len: "len = r + Suc (length s) + length (joined ss)" using at_rest_len [OF rest] by simp
  have b: "w \<le> r" "len \<le> u32_max" using rest by (auto simp: at_rest_def)
  then have sat: "sat_add r 2 = (if s = ''.'' then r + 2 else sat_add r 2)" "sat_add r 3 = (if s = ''..'' then r + 3 else sat_add r 3)"
    "sat_add w 1 = w + 1" "sat_add w (Suc (length s)) = w + Suc (length s)" "to_u32 w = w"
    using len by (auto simp: sat_add_def to_u32_def u32_max_def usize_max_def)
  have lt: "r < len" using len by simp
  show ?thesis
    unfolding remove_dot_loop.simps at_rest_slice [OF rest] Let_def dot_tests [OF free] next_slash [OF rest free]
    using lt sat by (auto split: list.split option.split)
qed

lemma remove_dot_loop_resolve:
  assumes "at_rest buf len r w kept ss" and "list_all slash_free ss" and "length ss < fuel"
  shows "loop_result buf (resolve kept ss) (remove_dot_loop fuel buf len (stack_of kept) r w)"
  using assms
proof (induction ss arbitrary: buf r w kept fuel)
  case Nil
  then have "r = len" "w \<le> length buf" "take w buf = joined (rev kept)"
    using at_rest_len [OF Nil(1)] by (auto simp: at_rest_def)
  then show ?case using loop_result_end [of fuel w buf "rev kept" len "stack_of kept"] Nil(3) by simp
next
  case (Cons s ss)
  then obtain f where f: "fuel = Suc f" "length ss < f" by (cases fuel) auto
  have free: "slash_free s" "list_all slash_free ss" using Cons.prems(2) by simp_all
  note rest = Cons.prems(1)
  have len: "len = r + Suc (length s) + length (joined ss)" using at_rest_len [OF rest] by simp
  have b: "w \<le> r" "len \<le> length buf" "len \<le> usize_max" "take w buf = joined (rev kept)"
    using rest by (auto simp: at_rest_def u32_max_def usize_max_def)
  note step = remove_dot_step [OF rest free(1), of f "stack_of kept", folded f(1)]
  consider "s = ''.''" | "s = ''..''" | "s \<noteq> ''.''" "s \<noteq> ''..''" by blast
  then show ?case
  proof cases
    case 1
    show ?thesis
      using loop_result_slash [of f w buf "rev kept" len "stack_of kept"] Cons.IH [OF at_rest_skip [OF rest, of kept "[]"] free(2) f(2)]
        at_rest_w [OF rest] 1 f b len unfolding step by (cases "ss = []") simp_all
  next
    case 2
    show ?thesis
    proof (cases kept)
      case Nil
      then show ?thesis using 2 unfolding step by (auto simp: loop_result_def)
    next
      case kept: (Cons k kept')
      let ?p = "length (joined (rev kept'))"
      have w: "w = ?p + Suc (length k)" using at_rest_w [OF rest] kept by simp
      have t: "take ?p buf = joined (rev kept')"
        using arg_cong [OF b(4), of "take ?p"] w kept by (simp add: min_def)
      have "sat_add ?p 1 = Suc ?p" using w b(1,3) len by (simp add: sat_add_def)
      then show ?thesis
        using loop_result_slash [OF _ t, of f len "stack_of kept'"]
          Cons.IH [OF at_rest_skip [OF rest, of kept' "CHR ''/'' # k"] free(2) f(2)] kept 2 f b len w
        unfolding step by (cases "ss = []") (simp_all add: numeral_3_eq_3)
    qed
  next
    case 3
    obtain buf' where c: "copy_within buf r (r + Suc (length s)) w = Some buf'" "length buf' = length buf"
      "at_rest buf' len (r + Suc (length s)) (w + (r + Suc (length s) - r)) (s # kept) ss"
      using rest by (rule copy_segment)
    have "loop_result buf' (resolve (s # kept) ss)
        (remove_dot_loop f buf' len (stack_of (s # kept)) (r + Suc (length s)) (w + Suc (length s)))"
      using Cons.IH [OF c(3) free(2) f(2)] by simp
    then show ?thesis
      using 3 c(1) at_rest_w [OF rest] loop_result_length [OF c(2)] unfolding step by simp
  qed
qed

lemma remove_dot_segments_resolve:
  assumes "take len buf = CHR ''/'' # t" and "len \<le> length buf" and "length buf \<le> u32_max"
  shows "loop_result buf (resolve [] (on_slash t)) (remove_dot_segments buf len)"
proof -
  have "at_rest buf len 0 0 [] (on_slash t)" using assms by (simp add: at_rest_def)
  moreover have "list_all slash_free (on_slash t)" using on_slash_free by (auto simp: list_all_iff)
  moreover have "length (on_slash t) < Suc len"
  proof -
    have "length (on_slash t) \<le> length (joined (on_slash t))" by (simp add: joined_def length_concat comp_def sum_list_Suc del: joined_on_slash)
    then show ?thesis using arg_cong [OF assms(1), of length] assms(2) by simp
  qed
  ultimately show ?thesis
    using remove_dot_loop_resolve [of buf len 0 0 "[]" "on_slash t" "Suc len"] by (simp add: remove_dot_segments_def)
qed

section \<open>Runs of slashes\<close>

text \<open>The bytes between the read cursor and the end of the path.\<close>

definition unread :: "bytes \<Rightarrow> nat \<Rightarrow> nat \<Rightarrow> bytes \<Rightarrow> bool" where
  "unread buf len r bs \<longleftrightarrow> r \<le> len \<and> len \<le> length buf \<and> len \<le> u32_max \<and> take (len - r) (drop r buf) = bs"

lemma unread_Nil: "unread buf len r [] \<longleftrightarrow> r = len \<and> len \<le> length buf \<and> len \<le> u32_max"
  by (auto simp: unread_def)

lemma unread_Cons: "unread buf len r (b # bs) \<longleftrightarrow> r < len \<and> get buf r = Some b \<and> unread buf len (Suc r) bs"
proof (cases "r < len \<and> len \<le> length buf")
  case True
  then have "take (len - r) (drop r buf) = buf ! r # take (len - Suc r) (drop (Suc r) buf)"
    by (metis Cons_nth_drop_Suc Suc_diff_Suc order_less_le_trans take_Suc_Cons)
  then show ?thesis using True by (auto simp: unread_def)
qed (auto simp: unread_def)

lemma unread_set: "w < r \<Longrightarrow> unread (set_at buf w b) len r bs = unread buf len r bs"
  by (simp add: unread_def set_at_def)

lemma skip_slashes_eq:
  assumes "unread buf len r bs" and "length bs < fuel"
  shows "\<exists>r'. skip_slashes fuel buf len r = Some r' \<and> r \<le> r' \<and> unread buf len r' (dropWhile (\<lambda>b. b = CHR ''/'') bs)"
  using assms
proof (induction fuel arbitrary: r bs)
  case (Suc fuel)
  show ?case
  proof (cases bs)
    case Nil
    then show ?thesis using Suc.prems by (auto simp: unread_Nil)
  next
    case (Cons b bs')
    then have c: "r < len" "get buf r = Some b" "unread buf len (Suc r) bs'" using Suc.prems(1) by (simp_all add: unread_Cons)
    have s: "sat_add r 1 = Suc r" using c(1) Suc.prems(1) by (simp add: unread_def sat_add_def u32_max_def usize_max_def)
    show ?thesis
      using Suc.IH [OF c(3)] Suc.prems c Cons s by (cases "b = CHR ''/''") auto
  qed
qed simp

function squash :: "bytes \<Rightarrow> bytes" where
  "squash [] = []"
| "squash (b # bs) = b # squash (if b = CHR ''/'' then dropWhile (\<lambda>b. b = CHR ''/'') bs else bs)"
  by pat_completeness auto
termination by (relation "measure length") (auto simp: length_dropWhile_le le_imp_less_Suc)

lemma merge_loop_squash:
  assumes "unread buf len r bs" and "w \<le> r" and "take w buf = done" and "length bs < fuel"
  shows "\<exists>buf'. merge_loop fuel buf len r w = Some (length (done @ squash bs), buf') \<and>
    take (length (done @ squash bs)) buf' = done @ squash bs \<and> length buf' = length buf"
  using assms
proof (induction fuel arbitrary: buf r w bs "done")
  case (Suc fuel)
  have wl: "w = length done"
    using Suc.prems(1,2) unfolding Suc.prems(3) [symmetric] by (simp add: unread_def)
  show ?case
  proof (cases bs)
    case Nil
    then show ?thesis using Suc.prems wl by (auto simp: unread_Nil)
  next
    case (Cons b bs')
    then have c: "r < len" "get buf r = Some b" "unread buf len (Suc r) bs'" using Suc.prems(1) by (simp_all add: unread_Cons)
    have u: "len \<le> length buf" "len \<le> u32_max" using Suc.prems(1) by (simp_all add: unread_def)
    then have s: "sat_add r 1 = Suc r" "sat_add w 1 = Suc w"
      using c(1) Suc.prems(2) by (simp_all add: sat_add_def u32_max_def usize_max_def)
    let ?b = "set_at buf w b"
    have d: "take (Suc w) ?b = done @ [b]"
      using Suc.prems(2,3) c(1) u(1) by (simp add: set_at_def take_Suc_conv_app_nth)
    have n: "unread ?b len (Suc r) bs'" using c(3) Suc.prems(2) by (simp add: unread_set)
    obtain r' where r': "(if b = CHR ''/'' then skip_slashes (Suc len) ?b len (Suc r) else Some (Suc r)) = Some r'" "Suc r \<le> r'"
      "unread ?b len r' (if b = CHR ''/'' then dropWhile (\<lambda>b. b = CHR ''/'') bs' else bs')"
    proof -
      have "length bs' < Suc len" using n by (auto simp: unread_def)
      then show ?thesis using that skip_slashes_eq [OF n, of "Suc len"] n by (cases "b = CHR ''/''") auto
    qed
    have "length (if b = CHR ''/'' then dropWhile (\<lambda>b. b = CHR ''/'') bs' else bs') < fuel"
      using Suc.prems(4) Cons length_dropWhile_le [of "\<lambda>b. b = CHR ''/''" bs'] by simp
    note IH = Suc.IH [OF r'(3) _ d this]
    have "merge_loop (Suc fuel) buf len r w = merge_loop fuel ?b len r' (Suc w)"
      using c(1,2) s r'(1) by (cases "b = CHR ''/''") (simp_all add: Let_def)
    then show ?thesis using IH r'(2) Suc.prems(2) Cons by simp
  qed
qed simp

lemma merge_slashes_squash:
  assumes "take len buf = bs" and "len \<le> length buf" and "len \<le> u32_max"
  obtains buf' where "merge_slashes buf len = Some (length (squash bs), buf')" "take (length (squash bs)) buf' = squash bs"
    "length buf' = length buf"
  using merge_loop_squash [of buf len 0 bs 0 "[]" "Suc len"] assms by (auto simp: merge_slashes_def unread_def)

text \<open>On segments: the empty ones disappear, except at the end.\<close>

definition merge_segments :: "bytes list \<Rightarrow> bytes list" where
  "merge_segments segs = filter (\<lambda>s. s \<noteq> []) (butlast segs) @ [last segs]"

lemma squash_free: "slash_free s \<Longrightarrow> squash (s @ bs) = s @ squash bs"
  by (induction s) (auto simp: slash_free_def)

lemma squash_slashes: "squash (CHR ''/'' # CHR ''/'' # bs) = squash (CHR ''/'' # bs)"
  by simp

lemma squash_slash_free: "slash_free s \<Longrightarrow> s \<noteq> [] \<Longrightarrow> squash (CHR ''/'' # s @ bs) = CHR ''/'' # s @ squash bs"
  by (cases s) (auto simp: slash_free_def squash_free [unfolded slash_free_def])

lemma squash_joined: "list_all slash_free segs \<Longrightarrow> segs \<noteq> [] \<Longrightarrow> squash (joined segs) = joined (merge_segments segs)"
proof (induction segs)
  case (Cons s ss)
  show ?case
  proof (cases ss)
    case Nil
    then show ?thesis using Cons.prems squash_slash_free [of s "[]"] by (cases "s = []") (auto simp: merge_segments_def)
  next
    case (Cons t ts)
    then have IH: "squash (joined ss) = joined (merge_segments ss)" using Cons.IH Cons.prems by simp
    have "squash (joined (s # ss)) = (if s = [] then squash (joined ss) else CHR ''/'' # s @ squash (joined ss))"
    proof (cases "s = []")
      case True
      then show ?thesis using squash_slashes [of "t @ joined ts"] Cons by simp
    next
      case False
      then show ?thesis using squash_slash_free [of s "joined ss"] Cons.prems by simp
    qed
    then show ?thesis unfolding IH using Cons by (simp add: merge_segments_def)
  qed
qed simp

end
