(* ===== verification/Http_Path_Normal.thy ===== *)
theory Http_Path_Normal
  imports Http_Path_Dots "HOL-Library.Code_Target_Nat"
begin

text \<open>
  What a path means and what its normal form is. The reading of a path is a list of symbols: a byte that
  stands for itself, or an escaped byte that has to stay escaped. Normalisation prints the reading in one
  way, resolves dot segments, applies the policy and possibly merges slashes; the result satisfies the
  policy, reads the same, and is its own normal form.
\<close>

section \<open>Readings\<close>

datatype path_sym = Plain byte | Enc byte

fun sym_val :: "path_sym \<Rightarrow> byte" where
  "sym_val (Plain b) = b"
| "sym_val (Enc b) = b"

inductive reads :: "bytes \<Rightarrow> path_sym list \<Rightarrow> bool" where
  reads_Nil: "reads [] []"
| reads_byte: "is_path_byte_ok b \<Longrightarrow> reads p r \<Longrightarrow> reads (b # p) (Plain b # r)"
| reads_escape: "is_ascii_hexdigit h \<Longrightarrow> is_ascii_hexdigit l \<Longrightarrow> v = hex_pair_value h l \<Longrightarrow> reads p r \<Longrightarrow>
    reads (CHR ''%'' # h # l # p) ((if is_unreserved_minus_dot v then Plain v else Enc v) # r)"

inductive_cases reads_NilE: "reads [] r"
inductive_cases reads_ConsE: "reads (b # p) r"

definition hex_char :: "nat \<Rightarrow> byte" where
  "hex_char n = char_of (if n < 10 then 48 + n else 55 + n)"

fun write_sym :: "path_sym \<Rightarrow> bytes" where
  "write_sym (Plain b) = [b]"
| "write_sym (Enc v) = [CHR ''%'', hex_char (byte_val v div 16), hex_char (byte_val v mod 16)]"

definition written :: "path_sym list \<Rightarrow> bytes" where
  "written r = concat (map write_sym r)"

lemma written_simps [simp]:
  "written [] = []" "written (x # r) = write_sym x @ written r" "written (r @ r') = written r @ written r'"
  by (simp_all add: written_def)

fun sym_ok :: "path_sym \<Rightarrow> bool" where
  "sym_ok (Plain b) = is_path_byte_ok b"
| "sym_ok (Enc v) = (\<not> is_unreserved_minus_dot v \<and> v \<noteq> CHR 0x00)"

text \<open>Full percent decoding, as an origin might apply it.\<close>

fun pct_decode :: "bytes \<Rightarrow> bytes" where
  "pct_decode [] = []"
| "pct_decode (b # bs) =
     (case bs of
        h # l # rest \<Rightarrow> if b = CHR ''%'' then hex_pair_value h l # pct_decode rest else b # pct_decode bs
      | _ \<Rightarrow> b # pct_decode bs)"

declare pct_decode.simps(2) [simp del]

lemma pct_decode_byte [simp]: "b \<noteq> CHR ''%'' \<Longrightarrow> pct_decode (b # bs) = b # pct_decode bs"
  by (subst pct_decode.simps) (simp split: list.split)

lemma pct_decode_escape [simp]: "pct_decode (CHR ''%'' # h # l # bs) = hex_pair_value h l # pct_decode bs"
  by (subst pct_decode.simps) simp

section \<open>Facts about single bytes\<close>

lemma upper_hex: "is_ascii_hexdigit h \<longrightarrow> to_ascii_uppercase h = hex_char (path_hex_digit h) \<and> path_hex_digit h < 16"
  by (rule spec [of _ h]) code_simp

lemma hex_pair_val: "is_ascii_hexdigit h \<Longrightarrow> is_ascii_hexdigit l \<Longrightarrow> byte_val (hex_pair_value h l) = path_hex_digit h * 16 + path_hex_digit l"
  using upper_hex [of h] upper_hex [of l] by (simp add: hex_pair_value_def)

lemma hex_char_facts:
  assumes "n < 16"
  shows "is_ascii_hexdigit (hex_char n)" "path_hex_digit (hex_char n) = n" "hex_char n \<noteq> CHR ''/''" "hex_char n \<noteq> CHR ''%''"
proof -
  have "\<forall>n \<in> set [0..<16]. is_ascii_hexdigit (hex_char n) \<and> path_hex_digit (hex_char n) = n \<and>
      hex_char n \<noteq> CHR ''/'' \<and> hex_char n \<noteq> CHR ''%''" by code_simp
  then show "is_ascii_hexdigit (hex_char n)" "path_hex_digit (hex_char n) = n" "hex_char n \<noteq> CHR ''/''" "hex_char n \<noteq> CHR ''%''"
    using assms by simp_all
qed

lemma hex_char_eq: "m < 16 \<Longrightarrow> n < 16 \<Longrightarrow> hex_char m = hex_char n \<longleftrightarrow> m = n"
  using hex_char_facts(2) [of m] hex_char_facts(2) [of n] by metis

lemma nibbles: "byte_val (v :: byte) div 16 < 16" "byte_val (v :: byte) mod 16 < 16"
  using byte_val_less [of v] by (simp_all add: div_less_dividend less_mult_imp_div_less)

lemmas nibble_chars = nibbles [THEN hex_char_facts(1)] nibbles [THEN hex_char_facts(3)] nibbles [THEN hex_char_facts(4)]

lemmas nibble_simps [simp] = nibble_chars nibble_chars(3-6) [THEN not_sym]

lemma hex_char_pair: "hex_pair_value (hex_char (byte_val v div 16)) (hex_char (byte_val v mod 16)) = v"
proof -
  have "byte_val (hex_pair_value (hex_char (byte_val v div 16)) (hex_char (byte_val v mod 16))) = byte_val v"
    unfolding hex_pair_val [OF nibble_chars(1,2)] hex_char_facts(2) [OF nibbles(1)] hex_char_facts(2) [OF nibbles(2)] by simp
  then show ?thesis by simp
qed

lemma hex_char_is:
  "hex_char (byte_val v div 16) = hex_char m \<and> hex_char (byte_val v mod 16) = hex_char n \<longleftrightarrow> v = char_of (m * 16 + n)"
  if "m < 16" "n < 16"
proof -
  have "byte_val v div 16 = m \<and> byte_val v mod 16 = n \<longleftrightarrow> byte_val v = m * 16 + n" using that by auto
  also have "\<dots> \<longleftrightarrow> v = char_of (m * 16 + n)"
  proof
    assume "byte_val v = m * 16 + n"
    then show "v = char_of (m * 16 + n)" by (metis char_of_char)
  next
    assume "v = char_of (m * 16 + n)"
    then show "byte_val v = m * 16 + n" using that by (simp add: of_char_of)
  qed
  finally show ?thesis using hex_char_eq [OF nibbles(1) that(1)] hex_char_eq [OF nibbles(2) that(2)] by simp
qed

lemma hex_chars: "CHR ''2'' = hex_char 2" "CHR ''5'' = hex_char 5" "CHR ''C'' = hex_char 12" "CHR ''E'' = hex_char 14" "CHR ''F'' = hex_char 15"
  by code_simp+

lemma escape_codes: "char_of (2 * 16 + 14 :: nat) = CHR ''.''" "char_of (2 * 16 + 15 :: nat) = CHR ''/''" "char_of (5 * 16 + 12 :: nat) = CHR 0x5C"
  by code_simp+

lemma escape_is:
  "CHR ''2'' = hex_char (byte_val v div 16) \<and> CHR ''E'' = hex_char (byte_val v mod 16) \<longleftrightarrow> v = CHR ''.''"
  "CHR ''2'' = hex_char (byte_val v div 16) \<and> CHR ''F'' = hex_char (byte_val v mod 16) \<longleftrightarrow> v = CHR ''/''"
  "CHR ''5'' = hex_char (byte_val v div 16) \<and> CHR ''C'' = hex_char (byte_val v mod 16) \<longleftrightarrow> v = CHR 0x5C"
  using hex_char_is [of 2 14 v] hex_char_is [of 2 15 v] hex_char_is [of 5 12 v] unfolding hex_chars escape_codes
  by (simp_all add: eq_commute [of "hex_char 2"] eq_commute [of "hex_char 5"] eq_commute [of "hex_char 12"]
      eq_commute [of "hex_char 14"] eq_commute [of "hex_char 15"])

lemma path_byte_facts: "(is_path_byte_ok b \<longrightarrow> b \<noteq> CHR ''%'' \<and> b \<noteq> CHR 0x00 \<and> b \<noteq> CHR ''?'' \<and> b \<noteq> CHR ''#'' \<and> b \<noteq> CHR 0x5C) \<and>
    (is_unreserved_minus_dot b \<longrightarrow> is_path_byte_ok b \<and> b \<noteq> CHR ''/'' \<and> b \<noteq> CHR ''.'')"
  by (rule spec [of _ b]) code_simp

lemma hexdigit_facts: "is_ascii_hexdigit b \<longrightarrow> b \<noteq> CHR ''?'' \<and> b \<noteq> CHR ''#''"
  by (rule spec [of _ b]) code_simp

lemma upper_pair:
  assumes "is_ascii_hexdigit h" "is_ascii_hexdigit l"
  shows "[CHR ''%'', to_ascii_uppercase h, to_ascii_uppercase l] = write_sym (Enc (hex_pair_value h l))"
  using assms upper_hex [of h] upper_hex [of l] hex_pair_val [OF assms] by simp

section \<open>Syntax and decoding\<close>

lemma validate_reads: "validate_path_syntax p = Inr () \<longleftrightarrow> (\<exists>r. reads p r)"
proof (induction p rule: validate_path_syntax.induct)
  case 1
  then show ?case by (auto intro: reads_Nil)
next
  case (2 b bs)
  show ?case
  proof (cases "b = CHR ''%''")
    case True
    show ?thesis
    proof (cases "\<exists>h l rest. bs = h # l # rest \<and> is_ascii_hexdigit h \<and> is_ascii_hexdigit l")
      case True
      then obtain h l rest where bs: "bs = h # l # rest" "is_ascii_hexdigit h" "is_ascii_hexdigit l" by blast
      have "(\<exists>r. reads (b # bs) r) \<longleftrightarrow> (\<exists>r. reads rest r)"
        using bs \<open>b = CHR ''%''\<close> path_byte_facts [of b] by (auto elim!: reads_ConsE intro: reads_escape)
      then show ?thesis using 2(1) [OF \<open>b = CHR ''%''\<close> bs(1)] bs \<open>b = CHR ''%''\<close> by simp
    next
      case False
      have "\<not> reads (b # bs) r" for r
        using False \<open>b = CHR ''%''\<close> path_byte_facts [of b] by (auto elim!: reads_ConsE)
      moreover have "validate_path_syntax (b # bs) \<noteq> Inr ()"
        using False \<open>b = CHR ''%''\<close> by (auto split: list.split)
      ultimately show ?thesis by blast
    qed
  next
    case False
    have "(\<exists>r. reads (b # bs) r) \<longleftrightarrow> is_path_byte_ok b \<and> (\<exists>r. reads bs r)"
      using False by (auto elim!: reads_ConsE intro: reads_byte)
    then show ?thesis using 2(2) False by simp
  qed
qed

lemma reads_ok: "reads p r \<Longrightarrow> Enc CHR 0x00 \<notin> set r \<Longrightarrow> list_all sym_ok r"
  by (induction rule: reads.induct) (use path_byte_facts in \<open>auto\<close>)

lemma decode_reads:
  assumes "reads p r"
  shows "(Enc CHR 0x00 \<notin> set r \<longrightarrow> decode_path_into p out = (Inr (), out @ written r)) \<and>
    (Enc CHR 0x00 \<in> set r \<longrightarrow> fst (decode_path_into p out) = Inl PathEncodedNul)"
  using assms
proof (induction arbitrary: out rule: reads.induct)
  case (reads_byte b p r)
  then show ?case using path_byte_facts [of b] by simp
next
  case (reads_escape h l v p r)
  have "v = CHR 0x00 \<Longrightarrow> \<not> is_unreserved_minus_dot v" by (simp add: is_unreserved_minus_dot_def is_ascii_alphanumeric_def
      is_ascii_digit_def is_ascii_uppercase_def is_ascii_lowercase_def)
  then show ?case using reads_escape upper_pair [of h l] by (auto simp: Let_def)
qed simp

lemma reads_written: "list_all sym_ok r \<Longrightarrow> reads (written r) r"
proof (induction r)
  case (Cons x r)
  then show ?case
  proof (cases x)
    case (Plain b)
    then show ?thesis using Cons by (auto intro: reads_byte)
  next
    case (Enc v)
    then show ?thesis
      using Cons reads_escape [of "hex_char (byte_val v div 16)" "hex_char (byte_val v mod 16)" v "written r" r] hex_char_pair [of v]
      by simp
  qed
qed (simp add: reads_Nil)

lemma written_decoded: "list_all sym_ok r \<Longrightarrow> pct_decode (written r) = map sym_val r"
proof (induction r)
  case (Cons x r)
  show ?case
  proof (cases x)
    case (Plain b)
    then have "b \<noteq> CHR ''%''" using Cons.prems path_byte_facts [of b] by auto
    then show ?thesis using Cons Plain by simp
  next
    case (Enc v)
    then show ?thesis using Cons by (simp add: hex_char_pair)
  qed
qed simp

section \<open>Segments of a written path\<close>

abbreviation slash_sym :: path_sym where
  "slash_sym \<equiv> Plain CHR ''/''"

definition segment_text :: "bytes \<Rightarrow> bool" where
  "segment_text s \<longleftrightarrow> (\<exists>r. list_all sym_ok r \<and> slash_sym \<notin> set r \<and> s = written r)"

lemma segment_text_free: "segment_text s \<Longrightarrow> slash_free s"
proof -
  have "list_all sym_ok r \<and> slash_sym \<notin> set r \<Longrightarrow> slash_free (written r)" for r
  proof (induction r)
    case (Cons x r)
    then show ?case using nibble_chars by (cases x) (auto simp: slash_free_def)
  qed (simp add: slash_free_def)
  then show "segment_text s \<Longrightarrow> slash_free s" unfolding segment_text_def by blast
qed

lemma segment_text_Nil [simp]: "segment_text []"
  unfolding segment_text_def by (rule exI [of _ "[]"]) simp

lemma written_segments: "list_all sym_ok r \<Longrightarrow> list_all segment_text (on_slash (written r))"
proof (induction r)
  case (Cons x r)
  obtain s ss where ss: "on_slash (written r) = s # ss" by (cases "on_slash (written r)") auto
  then obtain q where q: "list_all sym_ok q" "slash_sym \<notin> set q" "s = written q"
    using Cons unfolding segment_text_def by auto
  have "x \<noteq> slash_sym \<Longrightarrow> segment_text (write_sym x @ s)"
    using Cons.prems q unfolding segment_text_def by (intro exI [of _ "x # q"]) simp
  then show ?case
    using Cons ss by (cases x) auto
qed simp

lemma resolve_subset: "resolve kept ss = Some segs \<Longrightarrow> set segs \<subseteq> set kept \<union> set ss \<union> {[]}"
  by (induction kept ss rule: resolve.induct) (fastforce split: if_splits list.splits)+

lemma resolve_nonempty: "resolve kept ss = Some segs \<Longrightarrow> ss \<noteq> [] \<Longrightarrow> segs \<noteq> []"
proof (induction kept ss rule: resolve.induct)
  case (2 kept s ss)
  then show ?case by (cases ss) (auto split: if_splits list.splits)
qed simp

lemma resolve_no_dots: "resolve kept ss = Some segs \<Longrightarrow> set kept \<inter> {''.'', ''..''} = {} \<Longrightarrow> set segs \<inter> {''.'', ''..''} = {}"
  by (induction kept ss rule: resolve.induct) (auto split: if_splits list.splits)

lemma resolve_fixed: "set ss \<inter> {''.'', ''..''} = {} \<Longrightarrow> resolve kept ss = Some (rev kept @ ss)"
  by (induction ss arbitrary: kept) auto

section \<open>The policy tests\<close>

lemma dot_count_written:
  "list_all sym_ok r \<Longrightarrow> n \<le> 255 \<Longrightarrow>
   dot_count_loop (written r) n = (if \<forall>x \<in> set r. sym_val x = CHR ''.'' then Some (min 255 (n + length r)) else None)"
proof (induction r arbitrary: n)
  case (Cons x r)
  have "dot_count_loop (written (x # r)) n =
      (if sym_val x = CHR ''.'' then dot_count_loop (written r) (min 255 (n + 1)) else None)"
  proof (cases x)
    case (Plain b)
    then have "b \<noteq> CHR ''%''" using Cons.prems(1) path_byte_facts [of b] by simp
    then show ?thesis using Plain by (simp split: list.split)
  next
    case (Enc v)
    then show ?thesis using escape_is(1) [of v] by (simp add: eq_commute)
  qed
  moreover have "min 255 (min 255 (n + 1) + length r) = min 255 (n + length (x # r))" by simp
  ultimately show ?case using Cons.IH [of "min 255 (n + 1)"] Cons.prems(1) by simp
qed simp

lemma replicate_dots: "map sym_val r = ''.'' \<or> map sym_val r = ''..'' \<longleftrightarrow>
    (\<forall>x \<in> set r. sym_val x = CHR ''.'') \<and> (length r = 1 \<or> length r = 2)"
  by (auto simp: map_eq_Cons_conv numeral_2_eq_2 length_Suc_conv)

lemma encoded_dot_segment_iff:
  assumes "segment_text s"
  shows "is_encoded_dot_segment s \<longleftrightarrow> pct_decode s = ''.'' \<or> pct_decode s = ''..''"
proof -
  obtain r where r: "list_all sym_ok r" "s = written r" using assms by (auto simp: segment_text_def)
  then show ?thesis
    using dot_count_written [of r 0] replicate_dots [of r] by (auto simp: is_encoded_dot_segment_def written_decoded min_def)
qed

lemma has_encoded_slash_skip: "b \<noteq> CHR ''%'' \<Longrightarrow> has_encoded_slash (b # bs) = has_encoded_slash bs"
proof (cases bs)
  case (Cons x xs)
  then show "b \<noteq> CHR ''%'' \<Longrightarrow> has_encoded_slash (b # bs) = has_encoded_slash bs" by (cases xs) auto
qed simp

lemma has_encoded_slash_escape:
  "has_encoded_slash (CHR ''%'' # h # l # bs) \<longleftrightarrow>
     (CHR ''2'' = h \<and> CHR ''F'' = l) \<or> (CHR ''5'' = h \<and> CHR ''C'' = l) \<or> has_encoded_slash (h # l # bs)"
  by auto

lemma encoded_slash_written:
  "list_all sym_ok r \<Longrightarrow> has_encoded_slash (written r) \<longleftrightarrow> Enc CHR ''/'' \<in> set r \<or> Enc CHR 0x5C \<in> set r"
proof (induction r)
  case (Cons x r)
  show ?case
  proof (cases x)
    case (Plain b)
    then show ?thesis using Cons path_byte_facts [of b] by (simp add: has_encoded_slash_skip)
  next
    case (Enc v)
    have "has_encoded_slash (written (x # r)) \<longleftrightarrow> v = CHR ''/'' \<or> v = CHR 0x5C \<or> has_encoded_slash (written r)"
      unfolding Enc written_simps write_sym.simps append.simps has_encoded_slash_escape escape_is
      by (simp add: has_encoded_slash_skip)
    then show ?thesis using Cons Enc by auto
  qed
qed simp

end
