(* ===== verification/Http_Path_Exact.thy ===== *)
theory Http_Path_Exact
  imports Http_Path_Normal
begin

text \<open>
  The contract of path normalisation: which targets it accepts, what it returns for them, and what every
  normal path satisfies.
\<close>

section \<open>The last steps\<close>

lemma written_joined: "written (concat (map (\<lambda>r. slash_sym # r) rs)) = joined (map written rs)"
  by (induction rs) simp_all

lemma segment_texts:
  assumes "list_all segment_text segs"
  obtains rs where "segs = map written rs" "list_all (\<lambda>r. list_all sym_ok r \<and> slash_sym \<notin> set r) rs"
proof -
  have "\<exists>rs. segs = map written rs \<and> list_all (\<lambda>r. list_all sym_ok r \<and> slash_sym \<notin> set r) rs"
    using assms
  proof (induction segs)
    case (Cons s ss)
    then obtain rs r where "ss = map written rs" "list_all (\<lambda>r. list_all sym_ok r \<and> slash_sym \<notin> set r) rs"
      "list_all sym_ok r" "slash_sym \<notin> set r" "s = written r" by (auto simp: segment_text_def)
    then show ?case by (intro exI [of _ "r # rs"]) simp
  qed simp
  then show ?thesis using that by blast
qed

lemma path_byte_slash [simp]: "is_path_byte_ok CHR ''/''"
  by code_simp

definition hides_slash :: "bytes \<Rightarrow> bool" where
  "hides_slash s \<longleftrightarrow> CHR ''/'' \<in> set (pct_decode s) \<or> CHR 0x5C \<in> set (pct_decode s)"

definition dots_when_decoded :: "bytes \<Rightarrow> bool" where
  "dots_when_decoded s \<longleftrightarrow> pct_decode s = ''.'' \<or> pct_decode s = ''..''"

lemma hides_slash_written:
  assumes "list_all sym_ok r" "slash_sym \<notin> set r"
  shows "hides_slash (written r) \<longleftrightarrow> Enc CHR ''/'' \<in> set r \<or> Enc CHR 0x5C \<in> set r"
proof -
  have "sym_val x = CHR ''/'' \<longleftrightarrow> x = Enc CHR ''/''" if "x \<in> set r" for x
    using assms(2) that by (cases x) auto
  moreover have "sym_val x = CHR 0x5C \<longleftrightarrow> x = Enc CHR 0x5C" if "x \<in> set r" for x
    using assms(1) that path_byte_facts [of "CHR 0x5C"] by (cases x) (auto simp: list_all_iff)
  ultimately show ?thesis
    unfolding hides_slash_def written_decoded [OF assms(1)] by (auto simp: image_iff) metis+
qed

lemma encoded_slash_joined:
  assumes "list_all segment_text segs"
  shows "has_encoded_slash (joined segs) \<longleftrightarrow> (\<exists>s \<in> set segs. hides_slash s)"
proof -
  obtain rs where rs: "segs = map written rs" "list_all (\<lambda>r. list_all sym_ok r \<and> slash_sym \<notin> set r) rs"
    using assms by (rule segment_texts)
  have "list_all sym_ok (concat (map (\<lambda>r. slash_sym # r) rs))"
    using rs(2) by (induction rs) (auto simp: list_all_iff)
  then have "has_encoded_slash (joined segs) \<longleftrightarrow> (\<exists>r \<in> set rs. Enc CHR ''/'' \<in> set r \<or> Enc CHR 0x5C \<in> set r)"
    using encoded_slash_written [of "concat (map (\<lambda>r. slash_sym # r) rs)"] unfolding written_joined rs(1) by auto
  also have "\<dots> \<longleftrightarrow> (\<exists>r \<in> set rs. hides_slash (written r))"
    using rs(2) hides_slash_written by (auto simp: list_all_iff)
  finally show ?thesis using rs(1) by simp
qed

lemma encoded_dot_joined:
  assumes "list_all segment_text segs" and "segs \<noteq> []"
  shows "has_encoded_dot_segment (joined segs) \<longleftrightarrow> (\<exists>s \<in> set segs. dots_when_decoded s)"
proof -
  obtain s ss where ss: "segs = s # ss" using assms(2) by (cases segs) auto
  then have "on_slash (s @ joined ss) = segs"
    using on_slash_joined [of s ss] assms(1) segment_text_free by (auto simp: list_all_iff)
  then show ?thesis
    using assms(1) ss encoded_dot_segment_iff
    by (auto simp: has_encoded_dot_segment_def dots_when_decoded_def list_ex_iff list_all_iff)
qed

abbreviation merged :: "path_policy \<Rightarrow> bytes list \<Rightarrow> bytes list" where
  "merged policy segs \<equiv> if pp_merge policy then merge_segments segs else segs"

text \<open>The answer for resolved segments; \<open>region\<close> is what a refusal leaves in the buffer.\<close>

definition verdict ::
  "path_policy \<Rightarrow> bytes list option \<Rightarrow> bytes option \<Rightarrow> bytes \<Rightarrow> bytes \<Rightarrow>
   (reject_reason + normalized_path \<times> raw_query option) \<times> bytes" where
  "verdict policy resolved Q out region =
     (case resolved of
        None \<Rightarrow> (Inl PathTraversalAboveRoot, out @ region)
      | Some segs \<Rightarrow>
          if pp_dot policy = EncodedDot_Reject \<and> (\<exists>s \<in> set segs. dots_when_decoded s) then (Inl PathEncodedDot, out @ region)
          else if pp_slash policy = EncodedSlash_Reject \<and> (\<exists>s \<in> set segs. hides_slash s) then (Inl PathEncodedSlash, out @ region)
          else (Inr (\<lparr>np_buf = joined (merged policy segs)\<rparr>, map_option (\<lambda>q. \<lparr>rq_buf = q\<rparr>) Q), out))"

lemma finish_path_eq:
  assumes region: "take (length (joined segs)) region = joined segs" and segs: "list_all segment_text segs" "segs \<noteq> []"
    and len: "length front + length region \<le> u32_max" "\<And>q. query = Some q \<Longrightarrow> length q \<le> u32_max"
  shows "finish_path policy front region (length (joined segs)) query = Some (verdict policy (Some segs) query front region)"
proof -
  let ?n = "length (joined segs)"
  have n: "?n \<le> length region" using arg_cong [OF region, of length] by simp
  have cur: "slice_or_empty region 0 ?n = joined segs" using n region by (simp add: slice_or_empty_def get_range_def)
  have free: "list_all slash_free segs" using segs(1) segment_text_free by (auto simp: list_all_iff)
  define P where "P = joined (merged policy segs)"
  obtain region' where m: "(if pp_merge policy then merge_slashes region ?n else Some (?n, region)) = Some (length P, region')"
    "take (length P) region' = P" "length region' = length region"
  proof (cases "pp_merge policy")
    case True
    have small: "?n \<le> u32_max" using n len(1) by simp
    obtain region' where "merge_slashes region ?n = Some (length (squash (joined segs)), region')"
      "take (length (squash (joined segs))) region' = squash (joined segs)" "length region' = length region"
      by (rule merge_slashes_squash [OF region n small])
    then show ?thesis by (intro that [of region']) (simp_all only: P_def True if_True squash_joined [OF free segs(2)])
  next
    case False
    show ?thesis by (rule that [of region]) (simp_all only: P_def False if_False region)
  qed
  have short: "length P \<le> length region'" using arg_cong [OF m(2), of length] by simp
  then have "sat_add (length front) (length P) = length front + length P"
    "sat_add (length P) (case query of None \<Rightarrow> 0 | Some q \<Rightarrow> length q) =
     length P + (case query of None \<Rightarrow> 0 | Some q \<Rightarrow> length q)"
    using len m(3) by (auto simp: sat_add_def u32_max_def usize_max_def split: option.split)
  moreover have "take (length front + length P) (front @ region') = front @ P" using m(2) by simp
  ultimately show ?thesis
    using short unfolding finish_path_def Let_def cur encoded_dot_joined [OF segs] encoded_slash_joined [OF segs(1)] m(1) verdict_def option.case
      P_def [symmetric]
    by (cases query) (simp_all add: get_range_def)
qed

section \<open>Which targets are accepted\<close>

definition query_tail :: "bytes option \<Rightarrow> bytes" where
  "query_tail Q = (case Q of None \<Rightarrow> [] | Some q \<Rightarrow> CHR ''?'' # q)"

text \<open>A target with the path \<open>/t\<close>, read as \<open>r\<close>, and the query \<open>Q\<close>.\<close>

definition target :: "http_limits \<Rightarrow> bytes \<Rightarrow> bytes \<Rightarrow> bytes option \<Rightarrow> path_sym list \<Rightarrow> bool" where
  "target lim raw t Q r \<longleftrightarrow>
     raw = CHR ''/'' # t @ query_tail Q \<and> length raw \<le> max_path_bytes lim \<and> CHR ''#'' \<notin> set raw \<and>
     pred_option (list_all query_byte_ok) Q \<and> reads (CHR ''/'' # t) r \<and> Enc CHR 0x00 \<notin> set r"

definition normalizes :: "http_limits \<Rightarrow> path_policy \<Rightarrow> bytes \<Rightarrow> bytes \<Rightarrow> bytes option \<Rightarrow> bool" where
  "normalizes lim policy raw P Q \<longleftrightarrow>
     (\<exists>t r segs. target lim raw t Q r \<and> resolve [] (on_slash (tl (written r))) = Some segs \<and>
        (pp_dot policy = EncodedDot_Reject \<longrightarrow> (\<forall>s \<in> set segs. \<not> dots_when_decoded s)) \<and>
        (pp_slash policy = EncodedSlash_Reject \<longrightarrow> (\<forall>s \<in> set segs. \<not> hides_slash s)) \<and>
        P = joined (merged policy segs))"

lemma reads_no_query: "reads p r \<Longrightarrow> CHR ''?'' \<notin> set p"
proof (induction rule: reads.induct)
  case (reads_byte b p r)
  then show ?case using path_byte_facts [of b] by auto
next
  case (reads_escape h l v p r)
  then show ?case using hexdigit_facts [of h] hexdigit_facts [of l] by auto
qed simp

lemma reads_slash: "reads (CHR ''/'' # t) r \<Longrightarrow> \<exists>r'. r = slash_sym # r' \<and> reads t r'"
  by (auto elim: reads_ConsE)

lemma length_written: "reads p r \<Longrightarrow> length (written r) \<le> length p"
  by (induction rule: reads.induct) auto

lemma query_split:
  obtains pr Q where "raw = pr @ query_tail Q" "CHR ''?'' \<notin> set pr"
proof (cases "position (\<lambda>b. b = CHR ''?'') raw")
  case None
  then show ?thesis using that [of raw None] by (auto simp: position_None_iff query_tail_def)
next
  case (Some i)
  then obtain ys zs where "raw = ys @ CHR ''?'' # zs" "\<forall>z \<in> set ys. z \<noteq> CHR ''?''" by (auto elim: position_split)
  then show ?thesis using that [of ys "Some zs"] by (auto simp: query_tail_def)
qed

lemma query_position:
  assumes "CHR ''?'' \<notin> set pr"
  shows "position (\<lambda>b. b = CHR ''?'') (pr @ query_tail Q) = map_option (\<lambda>_. length pr) Q"
proof -
  have "position (\<lambda>b. b = CHR ''?'') pr = None" using assms by (auto simp: position_None_iff)
  then show ?thesis by (cases Q) (simp_all add: position_append query_tail_def)
qed

text \<open>The pipeline on a target that is split into path and query.\<close>

lemma parse_into_split:
  assumes "CHR ''?'' \<notin> set pr" and "length (pr @ query_tail Q) \<le> u32_max"
  shows "parse_into (pr @ query_tail Q) policy lim out =
    (if pr @ query_tail Q = [] then Some (Inl PathEmpty, out)
     else if length (pr @ query_tail Q) > max_path_bytes lim then Some (Inl PathTooLong, out)
     else if CHR ''#'' \<in> set (pr @ query_tail Q) then Some (Inl TargetFragment, out)
     else if \<not> pred_option (list_all query_byte_ok) Q then Some (Inl QueryInvalidByte, out)
     else if pr = [] then Some (Inl PathEmpty, out)
     else if get pr 0 \<noteq> Some CHR ''/'' then Some (Inl TargetFormInvalid, out)
     else (case validate_path_syntax pr of
         Inl e \<Rightarrow> Some (Inl e, out)
       | Inr _ \<Rightarrow>
           (case decode_path_into pr out of
              (Inl e, out1) \<Rightarrow> Some (Inl e, out1)
            | (Inr _, out1) \<Rightarrow>
                (case remove_dot_segments (drop (length out) out1) (length out1 - length out) of
                   None \<Rightarrow> None
                 | Some (Inl e, region') \<Rightarrow> Some (Inl e, take (length out) out1 @ region')
                 | Some (Inr path_len, region') \<Rightarrow> finish_path policy (take (length out) out1) region' path_len Q))))"
proof -
  let ?raw = "pr @ query_tail Q"
  have p: "(case map_option (\<lambda>_. length pr) Q of None \<Rightarrow> ?raw | Some q \<Rightarrow> slice_or_empty ?raw 0 q) = pr"
    by (cases Q) (simp_all add: slice_or_empty_def get_range_def query_tail_def)
  have q: "map_option (\<lambda>q. drop (sat_add q 1) ?raw) (map_option (\<lambda>_. length pr) Q) = Q"
    using assms(2) by (cases Q) (simp_all add: sat_add_def u32_max_def usize_max_def query_tail_def)
  have ok: "(case Q of None \<Rightarrow> False | Some q \<Rightarrow> \<not> list_all query_byte_ok q) = (\<not> pred_option (list_all query_byte_ok) Q)"
    by (cases Q) simp_all
  show ?thesis unfolding parse_into_def Let_def query_position [OF assms(1)] p q ok by (rule refl)
qed

lemma parse_into_target:
  assumes lim: "is_clamped lim" and out: "length out \<le> 2 ^ 31" and t: "target lim raw t Q r"
  obtains region where "parse_into raw policy lim out = Some (verdict policy (resolve [] (on_slash (tl (written r)))) Q out region)"
proof -
  let ?pr = "CHR ''/'' # t"
  have raw: "raw = ?pr @ query_tail Q" and len: "length raw \<le> max_path_bytes lim" "length raw \<le> 65536"
    and c: "CHR ''#'' \<notin> set raw" "pred_option (list_all query_byte_ok) Q" and r: "reads ?pr r" "Enc CHR 0x00 \<notin> set r"
    using t is_clampedD(6) [OF lim] by (auto simp: target_def)
  obtain r' where r': "r = slash_sym # r'" using reads_slash [OF r(1)] by blast
  then have w: "written r = CHR ''/'' # tl (written r)" by simp
  have ok: "list_all sym_ok (tl r)" "tl (written r) = written (tl r)" using reads_ok [OF r] r' by simp_all
  have wl: "length (written r) \<le> 65536" using length_written [OF r(1)] len(2) raw by simp
  have loop: "loop_result (written r) (resolve [] (on_slash (tl (written r)))) (remove_dot_segments (written r) (length (written r)))"
    by (rule remove_dot_segments_resolve) (use w wl in \<open>simp_all add: u32_max_def\<close>)
  then obtain region where l: "length region = length (written r)" and res:
    "case resolve [] (on_slash (tl (written r))) of
       None \<Rightarrow> remove_dot_segments (written r) (length (written r)) = Some (Inl PathTraversalAboveRoot, region)
     | Some segs \<Rightarrow> remove_dot_segments (written r) (length (written r)) = Some (Inr (length (joined segs)), region) \<and>
         take (length (joined segs)) region = joined segs" by (auto simp: loop_result_def)
  have q: "length q \<le> u32_max" if "Q = Some q" for q using that raw len(2) by (simp add: query_tail_def u32_max_def)
  have parse: "parse_into raw policy lim out =
      (case remove_dot_segments (written r) (length (written r)) of
         None \<Rightarrow> None
       | Some (Inl e, region') \<Rightarrow> Some (Inl e, out @ region')
       | Some (Inr path_len, region') \<Rightarrow> finish_path policy out region' path_len Q)"
    using parse_into_split [of ?pr Q policy lim out] reads_no_query [OF r(1)] len c r
      validate_reads [of ?pr] decode_reads [OF r(1), of out] unfolding raw
    by (auto simp: u32_max_def split: option.split sum.split)
  show ?thesis
  proof (rule that [of region], cases "resolve [] (on_slash (tl (written r)))")
    case None
    then show "parse_into raw policy lim out = Some (verdict policy (resolve [] (on_slash (tl (written r)))) Q out region)"
      using res parse by (simp add: verdict_def)
  next
    case (Some segs)
    have "list_all segment_text segs"
      using resolve_subset [OF Some] written_segments [OF ok(1)] ok(2) by (auto simp: list_all_iff)
    then have "finish_path policy out region (length (joined segs)) Q = Some (verdict policy (Some segs) Q out region)"
      using finish_path_eq [of segs region out Q policy] res Some resolve_nonempty [OF Some] l wl out q by (simp add: u32_max_def)
    then show "parse_into raw policy lim out = Some (verdict policy (resolve [] (on_slash (tl (written r)))) Q out region)"
      using res parse Some by simp
  qed
qed

lemma parse_into_refused:
  assumes lim: "is_clamped lim" and none: "\<And>t Q r. \<not> target lim raw t Q r"
  shows "\<exists>e out'. parse_into raw policy lim out = Some (Inl e, out')"
proof (cases "length raw > max_path_bytes lim")
  case True
  then show ?thesis by (auto simp: parse_into_def)
next
  case False
  then have len: "length raw \<le> max_path_bytes lim" "length raw \<le> 65536" using is_clampedD(6) [OF lim] by simp_all
  obtain pr Q where pr: "raw = pr @ query_tail Q" "CHR ''?'' \<notin> set pr" by (rule query_split)
  note split = parse_into_split [OF pr(2), of Q policy lim out, folded pr(1)]
  show ?thesis
  proof (cases "CHR ''#'' \<notin> set raw \<and> pred_option (list_all query_byte_ok) Q \<and> get pr 0 = Some CHR ''/'' \<and> validate_path_syntax pr = Inr ()")
    case True
    then obtain t r where t: "pr = CHR ''/'' # t" "reads pr r" unfolding validate_reads by (cases pr) auto
    have "Enc CHR 0x00 \<in> set r" using none [of t Q r] True len t pr(1) by (auto simp: target_def)
    then have "fst (decode_path_into pr out) = Inl PathEncodedNul" using decode_reads [OF t(2)] by blast
    then show ?thesis using split len True t(1) by (cases "decode_path_into pr out") (simp add: u32_max_def)
  next
    case False
    then show ?thesis using split len pr(1) by (cases "validate_path_syntax pr") (auto simp: u32_max_def)
  qed
qed

lemma parse_into_iff:
  assumes lim: "is_clamped lim" and out: "length out \<le> 2 ^ 31"
  shows "parse_into raw policy lim out = Some (Inr (\<lparr>np_buf = P\<rparr>, map_option (\<lambda>q. \<lparr>rq_buf = q\<rparr>) Q), out') \<longleftrightarrow>
    normalizes lim policy raw P Q \<and> out' = out"
proof
  assume ok: "parse_into raw policy lim out = Some (Inr (\<lparr>np_buf = P\<rparr>, map_option (\<lambda>q. \<lparr>rq_buf = q\<rparr>) Q), out')"
  then obtain t Q' r where t: "target lim raw t Q' r" using parse_into_refused [OF lim, of raw policy out] by fastforce
  obtain region where v: "parse_into raw policy lim out = Some (verdict policy (resolve [] (on_slash (tl (written r)))) Q' out region)"
    using lim out t by (rule parse_into_target)
  have "Q' = Q" if "map_option (\<lambda>q. \<lparr>rq_buf = q\<rparr>) Q' = map_option (\<lambda>q. \<lparr>rq_buf = q\<rparr>) Q"
    using that by (cases Q; cases Q') auto
  then show "normalizes lim policy raw P Q \<and> out' = out"
    using ok t unfolding v verdict_def normalizes_def by (auto split: option.splits if_splits)
next
  assume n: "normalizes lim policy raw P Q \<and> out' = out"
  then obtain t r segs where t: "target lim raw t Q r" "resolve [] (on_slash (tl (written r))) = Some segs"
    "pp_dot policy = EncodedDot_Reject \<longrightarrow> (\<forall>s \<in> set segs. \<not> dots_when_decoded s)"
    "pp_slash policy = EncodedSlash_Reject \<longrightarrow> (\<forall>s \<in> set segs. \<not> hides_slash s)" "P = joined (merged policy segs)"
    unfolding normalizes_def by blast
  obtain region where v: "parse_into raw policy lim out = Some (verdict policy (resolve [] (on_slash (tl (written r)))) Q out region)"
    using lim out t(1) by (rule parse_into_target)
  show "parse_into raw policy lim out = Some (Inr (\<lparr>np_buf = P\<rparr>, map_option (\<lambda>q. \<lparr>rq_buf = q\<rparr>) Q), out')"
    using n t(3,4) unfolding v verdict_def t(2,5) by auto
qed

lemma parse_into_returns:
  assumes "is_clamped lim" and "length out \<le> 2 ^ 31"
  shows "parse_into raw policy lim out \<noteq> None"
proof (cases "\<exists>t Q r. target lim raw t Q r")
  case True
  then show ?thesis using parse_into_target [OF assms] by (metis option.distinct(1))
next
  case False
  then show ?thesis using parse_into_refused [OF assms(1), of raw policy out] by auto
qed

section \<open>Normal paths\<close>

lemma resolve_shrinks:
  "resolve kept ss = Some segs \<Longrightarrow> length (joined segs) \<le> length (joined (rev kept)) + length (joined ss)"
proof (induction kept ss rule: resolve.induct)
  case (2 kept s ss)
  then show ?case by (fastforce split: if_splits list.splits)
qed simp

lemma merge_segments_facts:
  assumes "segs \<noteq> []"
  shows "set (merge_segments segs) \<subseteq> set segs" "length (joined (merge_segments segs)) \<le> length (joined segs)"
    "merge_segments (merge_segments segs) = merge_segments segs" "[] \<notin> set (butlast (merge_segments segs))"
proof -
  have segs: "segs = butlast segs @ [last segs]" using assms by simp
  show "set (merge_segments segs) \<subseteq> set segs" using assms by (auto simp: merge_segments_def dest: in_set_butlastD)
  have "length (joined (filter (\<lambda>s. s \<noteq> []) xs)) \<le> length (joined xs)" for xs by (induction xs) auto
  from this [of "butlast segs"] show "length (joined (merge_segments segs)) \<le> length (joined segs)"
    using arg_cong [OF segs, of "\<lambda>xs. length (joined xs)"] by (simp add: merge_segments_def)
  show "merge_segments (merge_segments segs) = merge_segments segs" "[] \<notin> set (butlast (merge_segments segs))"
    by (simp_all add: merge_segments_def)
qed

text \<open>A path that is its own normal form, and what its segments are.\<close>

definition normal_path :: "path_policy \<Rightarrow> bytes list \<Rightarrow> bool" where
  "normal_path policy segs \<longleftrightarrow>
     segs \<noteq> [] \<and> list_all segment_text segs \<and> (\<forall>s \<in> set segs. s \<noteq> ''.'' \<and> s \<noteq> ''..'') \<and>
     (pp_dot policy = EncodedDot_Reject \<longrightarrow> (\<forall>s \<in> set segs. \<not> dots_when_decoded s)) \<and>
     (pp_slash policy = EncodedSlash_Reject \<longrightarrow> (\<forall>s \<in> set segs. \<not> hides_slash s)) \<and>
     (pp_merge policy \<longrightarrow> merge_segments segs = segs \<and> [] \<notin> set (butlast segs))"

lemma normalizes_normal:
  assumes "normalizes lim policy raw P Q"
  obtains segs where "P = joined segs" "normal_path policy segs" "length P \<le> length raw" "length raw \<le> max_path_bytes lim"
proof -
  obtain t r segs where t: "target lim raw t Q r" and res: "resolve [] (on_slash (tl (written r))) = Some segs"
    and pol: "pp_dot policy = EncodedDot_Reject \<longrightarrow> (\<forall>s \<in> set segs. \<not> dots_when_decoded s)"
      "pp_slash policy = EncodedSlash_Reject \<longrightarrow> (\<forall>s \<in> set segs. \<not> hides_slash s)" and P: "P = joined (merged policy segs)"
    using assms unfolding normalizes_def by blast
  have r: "reads (CHR ''/'' # t) r" "Enc CHR 0x00 \<notin> set r" and raw: "raw = CHR ''/'' # t @ query_tail Q" "length raw \<le> max_path_bytes lim"
    using t by (auto simp: target_def)
  obtain r' where r': "r = slash_sym # r'" using reads_slash [OF r(1)] by blast
  have "list_all segment_text (on_slash (tl (written r)))" using written_segments [of r'] reads_ok [OF r] r' by simp
  then have texts: "list_all segment_text segs" using resolve_subset [OF res] by (auto simp: list_all_iff)
  have ne: "segs \<noteq> []" using resolve_nonempty [OF res] by simp
  have dots: "\<forall>s \<in> set segs. s \<noteq> ''.'' \<and> s \<noteq> ''..''" using resolve_no_dots [OF res] by auto
  define ms where "ms = merged policy segs"
  have sub: "set ms \<subseteq> set segs" "ms \<noteq> []" using ne merge_segments_facts(1) [OF ne] by (simp_all add: ms_def merge_segments_def)
  have "pp_merge policy \<longrightarrow> merge_segments ms = ms \<and> [] \<notin> set (butlast ms)"
    using merge_segments_facts(3,4) [OF ne] by (simp add: ms_def)
  then have "normal_path policy ms"
    using sub texts dots pol unfolding normal_path_def list_all_iff by (intro conjI) blast+
  moreover have "length P \<le> length raw"
  proof -
    have "length P \<le> length (joined segs)" using P merge_segments_facts(2) [OF ne] by simp
    also have "\<dots> \<le> length (joined (on_slash (tl (written r))))" using resolve_shrinks [OF res] by simp
    also have "\<dots> = length (written r)" using r' by simp
    also have "\<dots> \<le> length (CHR ''/'' # t)" using r(1) by (rule length_written)
    finally show ?thesis using raw(1) by simp
  qed
  ultimately show ?thesis using that [of ms] P raw(2) unfolding ms_def by blast
qed

lemma reads_no_fragment: "reads p r \<Longrightarrow> CHR ''#'' \<notin> set p"
proof (induction rule: reads.induct)
  case (reads_byte b p r)
  then show ?case using path_byte_facts [of b] by auto
next
  case (reads_escape h l v p r)
  then show ?case using hexdigit_facts [of h] hexdigit_facts [of l] by auto
qed simp

lemma normal_path_segments: "normal_path policy segs \<Longrightarrow> on_slash (drop 1 (joined segs)) = segs"
  using on_slash_joined [of "hd segs" "tl segs"] segment_text_free
  by (cases segs) (auto simp: normal_path_def list_all_iff)

lemma normal_path_written:
  assumes "normal_path policy segs"
  obtains r where "joined segs = written r" "list_all sym_ok r" "hd r = slash_sym" "r \<noteq> []"
proof -
  have "list_all segment_text segs" using assms by (simp add: normal_path_def)
  then obtain rs where rs: "segs = map written rs" "list_all (\<lambda>r. list_all sym_ok r \<and> slash_sym \<notin> set r) rs"
    by (rule segment_texts)
  let ?r = "concat (map (\<lambda>r. slash_sym # r) rs)"
  have "list_all sym_ok ?r" using rs(2) by (induction rs) (auto simp: list_all_iff)
  moreover have "hd ?r = slash_sym" "?r \<noteq> []" using assms rs(1) by (cases rs; simp add: normal_path_def)+
  ultimately show ?thesis using that [of ?r] written_joined [of rs] rs(1) by simp
qed

lemma normal_path_fixed:
  assumes n: "normal_path policy segs" and len: "length (joined segs) \<le> max_path_bytes lim"
  shows "normalizes lim policy (joined segs) (joined segs) None"
proof -
  obtain r where r: "joined segs = written r" "list_all sym_ok r" "hd r = slash_sym" "r \<noteq> []" using n by (rule normal_path_written)
  obtain s ss where segs: "segs = s # ss" using n by (cases segs) (auto simp: normal_path_def)
  have rd: "reads (joined segs) r" unfolding r(1) using r(2) by (rule reads_written)
  have "Enc CHR 0x00 \<notin> set r" using r(2) by (auto simp: list_all_iff)
  then have "target lim (joined segs) (s @ joined ss) None r"
    using rd len reads_no_fragment [OF rd] segs by (simp add: target_def query_tail_def)
  moreover have "resolve [] (on_slash (tl (written r))) = Some segs"
    using normal_path_segments [OF n] resolve_fixed [of segs "[]"] n unfolding r(1) [symmetric]
    by (auto simp: normal_path_def drop_Suc)
  ultimately show ?thesis
    using n unfolding normalizes_def normal_path_def by (intro exI [of _ "s @ joined ss"] exI [of _ r] exI [of _ segs]) simp
qed

lemma normal_path_no_nul:
  assumes "normal_path policy segs"
  shows "CHR 0x00 \<notin> set (pct_decode (joined segs))"
proof -
  obtain r where r: "joined segs = written r" "list_all sym_ok r" using assms by (rule normal_path_written)
  have "sym_val x \<noteq> CHR 0x00" if "x \<in> set r" for x
    using r(2) that path_byte_facts [of "CHR 0x00"] by (cases x) (auto simp: list_all_iff)
  then show ?thesis unfolding r(1) written_decoded [OF r(2)] by (simp add: image_iff) metis
qed

section \<open>The contract\<close>

text \<open>
  C5. Path normalisation accepts exactly the targets of the declarative reading, with exactly their normal
  form. For every byte string and policy the pipeline returns; it succeeds with path \<open>P\<close> and query \<open>Q\<close> if and
  only if the target is \<open>/\<close> and path bytes or percent escapes, within the length limit, without fragment and
  encoded NUL, with \<open>Q\<close> as received after the first question mark, its dot segments resolve without leaving
  the root, the policy on encoded dots and slashes holds, and \<open>P\<close> is the resolved path with its escapes in
  upper case, escapes of unreserved bytes decoded, and slashes merged if the policy says so. The buffer the
  caller passes keeps its contents.
\<close>

theorem normalize_exact:
  assumes "is_clamped lim" and "length out \<le> 2 ^ 31"
  shows "(parse_into raw policy lim out = Some (Inr (\<lparr>np_buf = P\<rparr>, map_option (\<lambda>q. \<lparr>rq_buf = q\<rparr>) Q), out') \<longleftrightarrow>
      normalizes lim policy raw P Q \<and> out' = out) \<and>
    parse_into raw policy lim out \<noteq> None"
  using parse_into_iff [OF assms] parse_into_returns [OF assms] by blast

definition demo_target :: bytes where
  "demo_target = ''/a/./b/../%7e%2f%41?x=%'' @ ''2''"

theorem normalize_exact_witness:
  "normalizes DEFAULT_limits (PathPolicy_DEFAULT \<lparr>pp_slash := EncodedSlash_Keep\<rparr>) demo_target ''/a/~%2FA'' (Some ''x=%2'')"
proof -
  have "parse_into demo_target (PathPolicy_DEFAULT \<lparr>pp_slash := EncodedSlash_Keep\<rparr>) DEFAULT_limits ''out'' =
      Some (Inr (\<lparr>np_buf = ''/a/~%2FA''\<rparr>, map_option (\<lambda>q. \<lparr>rq_buf = q\<rparr>) (Some ''x=%2'')), ''out'')" by code_simp
  then show ?thesis
    using normalize_exact [OF is_clamped_DEFAULT, of "''out''" demo_target "PathPolicy_DEFAULT \<lparr>pp_slash := EncodedSlash_Keep\<rparr>"
        "''/a/~%2FA''" "Some ''x=%2''" "''out''"] by simp
qed

text \<open>
  C19. A normalised path is safe and stable. It starts with a slash; no segment is a dot segment; under the
  rejecting policies no segment becomes a dot segment or hides a slash or backslash even after full percent
  decoding; decoding yields no NUL byte; with merging no segment but the last is empty; it is not longer than
  the target; and normalising it again under the same policy returns the same path without a query.
\<close>

theorem normalized_path_safe:
  assumes "is_clamped lim" and "length out \<le> 2 ^ 31" and "parse_into raw policy lim out = Some (Inr (p, q), out')"
  shows "get (np_buf p) 0 = Some CHR ''/'' \<and>
    (\<forall>s \<in> set (path_segments p). s \<noteq> ''.'' \<and> s \<noteq> ''..'' \<and>
       (pp_dot policy = EncodedDot_Reject \<longrightarrow> pct_decode s \<noteq> ''.'' \<and> pct_decode s \<noteq> ''..'') \<and>
       (pp_slash policy = EncodedSlash_Reject \<longrightarrow> CHR ''/'' \<notin> set (pct_decode s) \<and> CHR 0x5C \<notin> set (pct_decode s))) \<and>
    CHR 0x00 \<notin> set (pct_decode (np_buf p)) \<and>
    (pp_merge policy \<longrightarrow> [] \<notin> set (butlast (path_segments p))) \<and>
    length (np_buf p) \<le> length raw \<and>
    parse_into (np_buf p) policy lim out = Some (Inr (p, None), out)"
proof -
  have p: "p = \<lparr>np_buf = np_buf p\<rparr>" and q: "q = map_option (\<lambda>q. \<lparr>rq_buf = q\<rparr>) (map_option rq_buf q)" by (cases q; simp)+
  have "normalizes lim policy raw (np_buf p) (map_option rq_buf q)"
    using parse_into_iff [OF assms(1,2), of raw policy "np_buf p" "map_option rq_buf q" out'] assms(3)
    unfolding p [symmetric] q [symmetric] by blast
  then obtain segs where segs: "np_buf p = joined segs" "normal_path policy segs" "length (np_buf p) \<le> length raw"
    "length raw \<le> max_path_bytes lim" by (rule normalizes_normal)
  have same: "path_segments p = segs" using normal_path_segments [OF segs(2)] segs(1) by (simp add: path_segments_def)
  have "parse_into (np_buf p) policy lim out = Some (Inr (p, None), out)"
    using parse_into_iff [OF assms(1,2), of "np_buf p" policy "np_buf p" None out] normal_path_fixed [OF segs(2), of lim] segs
    by (simp add: p [symmetric])
  moreover have "get (np_buf p) 0 = Some CHR ''/''" using segs(1,2) by (cases segs) (simp_all add: normal_path_def)
  ultimately show ?thesis
    using segs(2,3) normal_path_no_nul [OF segs(2)] unfolding same segs(1) normal_path_def dots_when_decoded_def hides_slash_def
    by auto
qed

theorem normalized_path_safe_witness:
  "parse_into ''/~/x'' PathPolicy_DEFAULT DEFAULT_limits [] = Some (Inr (\<lparr>np_buf = ''/~/x''\<rparr>, None), [])"
proof -
  have "parse_into ''/%7e/y/../x?q'' PathPolicy_DEFAULT DEFAULT_limits [] =
      Some (Inr (\<lparr>np_buf = ''/~/x''\<rparr>, Some \<lparr>rq_buf = ''q''\<rparr>), [])" by code_simp
  then show ?thesis using normalized_path_safe [OF is_clamped_DEFAULT] by (metis (no_types, lifting) normalized_path.select_convs(1) list.size(3) zero_le)
qed

end
