(* ===== verification/Http_Authority.thy ===== *)
theory Http_Authority
  imports Http_Head Http_Path
begin

text \<open>
  Authorities (\<^verbatim>\<open>authority.rs\<close>): the byte table, the parser of \<^verbatim>\<open>host\<close> and \<^verbatim>\<open>host:port\<close> with the removal of the
  default port, the writer, and the reconciliation of the \<^verbatim>\<open>Host\<close> field with the pseudo-header. An operation
  that appends to the caller's buffer returns the buffer beside its result.
\<close>

section \<open>The byte table\<close>

definition HOST_BYTES :: bytes where
  "HOST_BYTES = ''!$%&'' @ [CHR 0x27] @ ''()*+,-.0123456789:;=ABCDEFGHIJKLMNOPQRSTUVWXYZ[]_abcdefghijklmnopqrstuvwxyz~''"

definition build_host_ok :: "bool list" where
  "build_host_ok = foldl (\<lambda>t b. set_at t (byte_val b) True) (replicate 256 False) HOST_BYTES"

definition host_byte_ok :: "byte \<Rightarrow> bool" where
  "host_byte_ok b = build_host_ok ! byte_val b"

lemma host_byte_ok_mem [code]: "host_byte_ok b \<longleftrightarrow> b \<in> set HOST_BYTES"
  using byte_val_less [of b] by (auto simp: host_byte_ok_def build_host_ok_def set_all_nth)

section \<open>Parsing\<close>

record authority =
  au_buf :: bytes
  au_host_len :: nat
  au_port :: "nat option"

fun host_scan :: "bytes \<Rightarrow> reject_reason + unit" where
  "host_scan [] = Inr ()"
| "host_scan (b # bs) =
     (if byte_val b \<ge> 0x80 then Inl AuthorityNonAscii
      else if \<not> host_byte_ok b then Inl AuthorityInvalidByte
      else host_scan bs)"

definition split_host_port :: "bytes \<Rightarrow> reject_reason + bytes \<times> bytes option" where
  "split_host_port raw =
     (if get raw 0 = Some CHR ''['' then
        and_then (ok_or (position (\<lambda>b. b = CHR '']'') raw) AuthorityInvalidByte) (\<lambda>close.
        and_then (ok_or (get_range raw 0 (close + 1)) AuthorityInvalidByte) (\<lambda>host_span.
        and_then (ok_or (get_from raw (sat_add close 1)) AuthorityInvalidByte) (\<lambda>after.
          if after = [] then Inr (host_span, None)
          else if get after 0 \<noteq> Some CHR '':'' then Inl AuthorityInvalidByte
          else and_then (ok_or (get_from after 1) AuthorityInvalidByte) (\<lambda>port_text. Inr (host_span, Some port_text)))))
      else (case rposition (\<lambda>b. b = CHR '':'') raw of
          Some idx \<Rightarrow>
            and_then (ok_or (get_range raw 0 idx) AuthorityInvalidByte) (\<lambda>host_span.
              if CHR '':'' \<in> set host_span then Inl AuthorityInvalidByte
              else and_then (ok_or (get_from raw (sat_add idx 1)) AuthorityInvalidByte) (\<lambda>port_text.
                Inr (host_span, Some port_text)))
        | None \<Rightarrow> Inr (raw, None)))"

definition check_host :: "bool \<Rightarrow> bytes \<Rightarrow> reject_reason + unit" where
  "check_host bracketed host_span =
     (if host_span = [] then Inl AuthorityEmpty
      else if bracketed then
        and_then (ok_or (get_range host_span 1 (length host_span - 1)) AuthorityInvalidByte) (\<lambda>inner.
          if inner = [] \<or> CHR '':'' \<notin> set inner then Inl AuthorityInvalidByte
          else if \<not> list_all (\<lambda>b. is_ascii_hexdigit b \<or> b = CHR '':'' \<or> b = CHR ''.'') inner then Inl AuthorityInvalidByte
          else Inr ())
      else if CHR ''['' \<in> set host_span \<or> CHR '']'' \<in> set host_span \<or> CHR ''%'' \<in> set host_span
      then Inl AuthorityInvalidByte
      else if host_span = ''.'' then Inl AuthorityInvalidByte
      else Inr ())"

text \<open>\<^verbatim>\<open>str::parse::<u32>\<close> on a text of digits.\<close>

fun parse_u32_digits :: "nat \<Rightarrow> bytes \<Rightarrow> nat option" where
  "parse_u32_digits n [] = Some n"
| "parse_u32_digits n (d # ds) =
     (let m = n * 10 + (byte_val d - 48) in if m \<le> u32_max then parse_u32_digits m ds else None)"

definition parse_port :: "bytes option \<Rightarrow> reject_reason + nat option" where
  "parse_port port_text =
     (case port_text of
        None \<Rightarrow> Inr None
      | Some t \<Rightarrow>
          if t = [] \<or> length t > 5 \<or> \<not> list_all is_ascii_digit t then Inl AuthorityPortInvalid
          else and_then (ok_or (parse_u32_digits 0 t) AuthorityPortInvalid) (\<lambda>v.
            if v = 0 \<or> v > u16_max then Inl AuthorityPortInvalid else Inr (Some v)))"

definition authority_parse_into ::
  "bytes \<Rightarrow> scheme \<Rightarrow> http_limits \<Rightarrow> bytes \<Rightarrow> (reject_reason + authority) \<times> bytes" where
  "authority_parse_into raw sch limits out =
     (if raw = [] then (Inl AuthorityEmpty, out)
      else if length raw > max_authority_bytes limits then (Inl AuthorityTooLong, out)
      else
        (case
           and_then (host_scan raw) (\<lambda>_.
           and_then (split_host_port raw) (\<lambda>(host_span, port_text).
           and_then (check_host (get raw 0 = Some CHR ''['') host_span) (\<lambda>_.
           and_then (parse_port port_text) (\<lambda>parsed_port. Inr (host_span, parsed_port))))) of
           Inl e \<Rightarrow> (Inl e, out)
         | Inr (host_span, parsed_port) \<Rightarrow>
             (let port = (if parsed_port = Some (default_port sch) then None else parsed_port);
                  base = length out;
                  out1 = out @ map to_ascii_lowercase host_span;
                  buf = drop base out1;
                  out2 = take base out1
              in if length buf > u16_max then (Inl AuthorityTooLong, out2)
                 else (Inr \<lparr>au_buf = buf, au_host_len = length buf, au_port = port\<rparr>, out2))))"

section \<open>Reading and writing\<close>

definition authority_host :: "authority \<Rightarrow> bytes" where
  "authority_host a = slice_or_empty (au_buf a) 0 (au_host_len a)"

definition effective_port :: "authority \<Rightarrow> scheme \<Rightarrow> nat" where
  "effective_port a sch = (case au_port a of Some p \<Rightarrow> p | None \<Rightarrow> default_port sch)"

definition is_ipv6_literal :: "authority \<Rightarrow> bool" where
  "is_ipv6_literal a \<longleftrightarrow> get (authority_host a) 0 = Some CHR ''[''"

fun port_digits_loop :: "bytes \<Rightarrow> nat \<Rightarrow> nat \<Rightarrow> bytes \<times> nat" where
  "port_digits_loop digits count remaining =
     (let digits' = set_at digits count (char_of (48 + remaining mod 10));
          count' = sat_add count 1
      in if remaining div 10 = 0 then (digits', count') else port_digits_loop digits' count' (remaining div 10))"

declare port_digits_loop.simps [simp del]

definition port_digits :: "nat \<Rightarrow> bytes \<times> nat" where
  "port_digits port = port_digits_loop (replicate 5 CHR 0x00) 0 port"

definition authority_write_to :: "authority \<Rightarrow> bytes \<Rightarrow> nat \<times> bytes" where
  "authority_write_to a out =
     (let host = authority_host a; out1 = out @ host
      in case au_port a of
           None \<Rightarrow> (length host, out1)
         | Some p \<Rightarrow>
             (case port_digits p of (digits, count) \<Rightarrow>
                (sat_add (sat_add (length host) 1) count,
                 out1 @ '':'' @ concat (map (\<lambda>i. case get digits i of Some b \<Rightarrow> [b] | None \<Rightarrow> []) (rev [0..<count])))))"

definition authority_written_len :: "authority \<Rightarrow> nat" where
  "authority_written_len a =
     (case au_port a of
        None \<Rightarrow> length (authority_host a)
      | Some p \<Rightarrow> sat_add (sat_add (length (authority_host a)) 1) (snd (port_digits p)))"

section \<open>One authority per request\<close>

definition reconcile_authority ::
  "bytes option \<Rightarrow> bytes option \<Rightarrow> scheme \<Rightarrow> wire_version \<Rightarrow> http_limits \<Rightarrow> bytes \<Rightarrow> (reject_reason + authority) \<times> bytes" where
  "reconcile_authority host_field pseudo_authority sch version limits out =
     (if is_multiplexed version then
        (case (host_field, pseudo_authority) of
           (None, None) \<Rightarrow> (Inl PseudoHeaderMissing, out)
         | (Some host, None) \<Rightarrow> authority_parse_into host sch limits out
         | (None, Some auth) \<Rightarrow> authority_parse_into auth sch limits out
         | (Some host, Some auth) \<Rightarrow>
             (case authority_parse_into host sch limits out of
                (Inl e, out1) \<Rightarrow> (Inl e, out1)
              | (Inr from_host, out1) \<Rightarrow>
                  (case authority_parse_into auth sch limits out1 of
                     (Inl e, out2) \<Rightarrow> (Inl e, out2)
                   | (Inr from_pseudo, out2) \<Rightarrow>
                       if from_host \<noteq> from_pseudo then (Inl AuthorityMismatch, out2) else (Inr from_pseudo, out2))))
      else if pseudo_authority \<noteq> None then (Inl AuthorityMismatch, out)
      else (case host_field of
          None \<Rightarrow> (Inl HostMissing, out)
        | Some host \<Rightarrow> authority_parse_into host sch limits out))"

end
