(* ===== verification/Http_Authority_Exact.thy ===== *)
theory Http_Authority_Exact
  imports Http_Authority "HOL-Library.Code_Target_Nat"
begin

text \<open>
  Authorities against their grammar: the parser accepts exactly registered names and bracketed address
  literals with an optional port, and what the writer prints parses back to the same authority.
\<close>

section \<open>Decimal ports\<close>

definition dec_value :: "nat \<Rightarrow> bytes \<Rightarrow> nat" where
  "dec_value n ds = foldl (\<lambda>n d. n * 10 + (byte_val d - 48)) n ds"

fun dec_text :: "nat \<Rightarrow> bytes" where
  "dec_text n = (if n < 10 then [] else dec_text (n div 10)) @ [char_of (48 + n mod 10)]"

declare dec_text.simps [simp del]

lemma dec_value_simps [simp]:
  "dec_value n [] = n" "dec_value n (d # ds) = dec_value (n * 10 + (byte_val d - 48)) ds"
  "dec_value n (xs @ ys) = dec_value (dec_value n xs) ys"
  by (simp_all add: dec_value_def)

lemma digit_val: "is_ascii_digit d \<Longrightarrow> byte_val d - 48 < 10"
  unfolding is_ascii_digit_def by linarith

lemma dec_value_less: "list_all is_ascii_digit ds \<Longrightarrow> dec_value n ds < (n + 1) * 10 ^ length ds"
proof (induction ds arbitrary: n)
  case (Cons d ds)
  then have "dec_value n (d # ds) < (n * 10 + (byte_val d - 48) + 1) * 10 ^ length ds" by simp
  also have "\<dots> \<le> (n * 10 + 10) * 10 ^ length ds" using digit_val [of d] Cons.prems by (intro mult_right_mono) simp_all
  finally show ?case by (simp add: algebra_simps)
qed simp

lemma dec_value_mono: "n \<le> dec_value n ds"
proof (induction ds arbitrary: n)
  case (Cons d ds)
  show ?case using Cons [of "n * 10 + (byte_val d - 48)"] by simp
qed simp

lemma parse_u32_digits_eq: "dec_value n ds \<le> u32_max \<Longrightarrow> parse_u32_digits n ds = Some (dec_value n ds)"
proof (induction ds arbitrary: n)
  case (Cons d ds)
  then show ?case using dec_value_mono [of "n * 10 + (byte_val d - 48)" ds] by (simp add: Let_def)
qed simp

lemma parse_short_digits:
  assumes "list_all is_ascii_digit ds" and "length ds \<le> 5"
  shows "parse_u32_digits 0 ds = Some (dec_value 0 ds)"
proof (rule parse_u32_digits_eq)
  have "dec_value 0 ds < 10 ^ length ds" using dec_value_less [OF assms(1), of 0] by simp
  also have "\<dots> \<le> 10 ^ 5" using assms(2) by (intro power_increasing) simp_all
  finally show "dec_value 0 ds \<le> u32_max" by (simp add: u32_max_def)
qed

lemma digit_char: "n < 10 \<Longrightarrow> is_ascii_digit (char_of (48 + n)) \<and> byte_val (char_of (48 + n) :: byte) = 48 + n"
  by (simp add: is_ascii_digit_def of_char_of)

lemma dec_text_facts: "list_all is_ascii_digit (dec_text n) \<and> dec_text n \<noteq> [] \<and> dec_value 0 (dec_text n) = n"
proof (induction n rule: dec_text.induct)
  case (1 n)
  have d: "is_ascii_digit (char_of (48 + n mod 10))" "byte_val (char_of (48 + n mod 10) :: byte) - 48 = n mod 10"
    using digit_char [of "n mod 10"] by simp_all
  show ?case
  proof (cases "n < 10")
    case True
    then show ?thesis unfolding dec_text.simps [of n] using d by simp
  next
    case False
    then show ?thesis unfolding dec_text.simps [of n] using d 1 by simp
  qed
qed

lemma dec_text_length: "n < 10 ^ Suc k \<Longrightarrow> length (dec_text n) \<le> Suc k"
proof (induction k arbitrary: n)
  case 0
  then show ?case by (simp add: dec_text.simps)
next
  case (Suc k)
  have "n div 10 < 10 ^ Suc k" using Suc.prems by (simp add: less_mult_imp_div_less mult.commute)
  then show ?case using Suc.IH [of "n div 10"] unfolding dec_text.simps [of n] by simp
qed

text \<open>The digits the code collects are the decimal text in reverse.\<close>

lemma port_digits_loop_eq:
  "count + length (dec_text n) \<le> length digits \<Longrightarrow> length digits = cap \<Longrightarrow> cap \<le> 10 \<Longrightarrow>
   snd (port_digits_loop digits count n) = count + length (dec_text n) \<and>
   length (fst (port_digits_loop digits count n)) = cap \<and>
   take (count + length (dec_text n)) (fst (port_digits_loop digits count n)) = take count digits @ rev (dec_text n)"
proof (induction digits count n rule: port_digits_loop.induct)
  case (1 digits count n)
  let ?c = "char_of (48 + n mod 10) :: byte"
  have pos: "count < length digits" and sat: "sat_add count 1 = Suc count"
    using 1(2-4) dec_text_facts [of n] by (cases "dec_text n"; simp add: sat_add_def usize_max_def)+
  have put: "take (Suc count) (set_at digits count ?c) = take count digits @ [?c]"
    using pos by (simp add: set_at_def take_Suc_conv_app_nth)
  show ?case
  proof (cases "n < 10")
    case True
    then show ?thesis
      unfolding port_digits_loop.simps [of digits count n] dec_text.simps [of n] using sat put 1(3) by (simp add: Let_def)
  next
    case False
    then have t: "dec_text n = dec_text (n div 10) @ [?c]" by (simp add: dec_text.simps [of n])
    have nz: "n div 10 \<noteq> 0" using False by simp
    show ?thesis
      using 1(1) [OF refl refl nz] 1(2-4) nz put sat
      unfolding port_digits_loop.simps [of digits count n] t by (simp add: Let_def)
  qed
qed

lemma digits_text:
  assumes "port_digits_loop (replicate cap CHR 0x00) 0 p = (digits, count)" and "length (dec_text p) \<le> cap" and "cap \<le> 10"
  shows "count = length (dec_text p)"
    and "concat (map (\<lambda>i. case get digits i of Some b \<Rightarrow> [b] | None \<Rightarrow> []) (rev [0..<count])) = dec_text p"
proof -
  have l: "count = length (dec_text p)" "length digits = cap" "take (length (dec_text p)) digits = rev (dec_text p)"
    using port_digits_loop_eq [of 0 p "replicate cap CHR 0x00" cap] assms by simp_all
  then show c: "count = length (dec_text p)" by simp
  have "concat (map (\<lambda>i. case get digits i of Some b \<Rightarrow> [b] | None \<Rightarrow> []) (rev [0..<k])) = rev (take k digits)" if "k \<le> length digits" for k
    using that by (induction k) (simp_all add: take_Suc_conv_app_nth)
  then show "concat (map (\<lambda>i. case get digits i of Some b \<Rightarrow> [b] | None \<Rightarrow> []) (rev [0..<count])) = dec_text p"
    using l assms(2) by simp
qed

lemma port_digits_text:
  assumes "port_digits p = (digits, count)" and "p \<le> u16_max"
  shows "count = length (dec_text p)"
    and "concat (map (\<lambda>i. case get digits i of Some b \<Rightarrow> [b] | None \<Rightarrow> []) (rev [0..<count])) = dec_text p"
  using digits_text [of 5 p digits count] dec_text_length [of p 4] assms by (simp_all add: port_digits_def u16_max_def)

section \<open>The grammar\<close>

definition reg_name :: "bytes \<Rightarrow> bool" where
  "reg_name h \<longleftrightarrow> h \<noteq> [] \<and> h \<noteq> ''.'' \<and> list_all (\<lambda>b. host_byte_ok b \<and> b \<notin> set '':[]%'') h"

definition ip_literal :: "bytes \<Rightarrow> bool" where
  "ip_literal h \<longleftrightarrow>
     (\<exists>inner. h = CHR ''['' # inner @ '']'' \<and> CHR '':'' \<in> set inner \<and>
        list_all (\<lambda>b. is_ascii_hexdigit b \<or> b = CHR '':'' \<or> b = CHR ''.'') inner)"

definition port_suffix :: "bytes \<Rightarrow> nat option \<Rightarrow> bool" where
  "port_suffix w P \<longleftrightarrow>
     (case P of
        None \<Rightarrow> w = []
      | Some n \<Rightarrow> \<exists>ds. w = CHR '':'' # ds \<and> ds \<noteq> [] \<and> length ds \<le> 5 \<and> list_all is_ascii_digit ds \<and>
          n = dec_value 0 ds \<and> n \<noteq> 0 \<and> n \<le> u16_max)"

definition authority_text :: "http_limits \<Rightarrow> bytes \<Rightarrow> bytes \<Rightarrow> nat option \<Rightarrow> bool" where
  "authority_text lim raw h P \<longleftrightarrow>
     length raw \<le> max_authority_bytes lim \<and> (reg_name h \<or> ip_literal h) \<and> (\<exists>w. raw = h @ w \<and> port_suffix w P)"

definition authority_of :: "scheme \<Rightarrow> bytes \<Rightarrow> nat option \<Rightarrow> authority" where
  "authority_of sch h P =
     \<lparr>au_buf = map to_ascii_lowercase h, au_host_len = length h,
      au_port = (if P = Some (default_port sch) then None else P)\<rparr>"

section \<open>Exactness\<close>

lemma host_byte_facts: "(host_byte_ok b \<longrightarrow> byte_val b < 0x80) \<and>
    (is_ascii_hexdigit b \<or> b = CHR '':'' \<or> b = CHR ''.'' \<longrightarrow> host_byte_ok b \<and> b \<noteq> CHR '']'' \<and> b \<noteq> CHR ''['') \<and>
    (is_ascii_digit b \<longrightarrow> host_byte_ok b \<and> b \<noteq> CHR '':'')"
  by (rule spec [of _ b]) code_simp

lemma digit_host: "is_ascii_digit b \<Longrightarrow> host_byte_ok b"
  using host_byte_facts [of b] by simp

lemma literal_host: "is_ascii_hexdigit b \<Longrightarrow> host_byte_ok b"
  using host_byte_facts [of b] by simp

lemma byte_class_tests: "\<not> is_ascii_digit CHR '':''" "host_byte_ok CHR ''.''" "\<not> is_ascii_hexdigit CHR '']''" "\<not> is_ascii_hexdigit CHR ''[''"
  by code_simp+

lemma host_byte_brackets [simp]: "host_byte_ok CHR ''[''" "host_byte_ok CHR '']''" "host_byte_ok CHR '':''"
  by code_simp+

lemma host_scan_iff: "host_scan raw = Inr () \<longleftrightarrow> list_all host_byte_ok raw"
proof (induction raw)
  case (Cons b bs)
  then show ?case using host_byte_facts [of b] by auto
qed simp

lemma parse_port_iff:
  "parse_port pt = Inr P \<longleftrightarrow> port_suffix (case pt of None \<Rightarrow> [] | Some t \<Rightarrow> CHR '':'' # t) P \<and> (pt = None \<longleftrightarrow> P = None)"
proof (cases pt)
  case (Some t)
  show ?thesis
  proof (cases "t \<noteq> [] \<and> length t \<le> 5 \<and> list_all is_ascii_digit t")
    case True
    then show ?thesis using Some parse_short_digits [of t] by (auto simp: parse_port_def port_suffix_def split: option.splits)
  next
    case False
    then show ?thesis using Some by (auto simp: parse_port_def port_suffix_def split: option.splits)
  qed
qed (auto simp: parse_port_def port_suffix_def split: option.splits)

lemma split_literal:
  assumes "CHR '']'' \<notin> set inner" and "length inner < u32_max"
  shows "split_host_port ((CHR ''['' # inner @ '']'') @ w) = Inr (h, pt) \<longleftrightarrow>
    h = CHR ''['' # inner @ '']'' \<and> w = (case pt of None \<Rightarrow> [] | Some t \<Rightarrow> CHR '':'' # t)"
proof -
  let ?raw = "(CHR ''['' # inner @ '']'') @ w"
  have n: "position (\<lambda>b. b = CHR '']'') inner = None" using assms(1) by (auto simp: position_None_iff)
  have p: "position (\<lambda>b. b = CHR '']'') ?raw = Some (Suc (length inner))" by (simp add: position_append n)
  have "sat_add (Suc (length inner)) 1 = Suc (Suc (length inner))" using assms(2) by (simp add: sat_add_def u32_max_def usize_max_def)
  then have f: "get_from ?raw (sat_add (Suc (length inner)) 1) = Some w" by (simp add: get_from_def)
  have r: "get_range ?raw 0 (Suc (length inner) + 1) = Some (CHR ''['' # inner @ '']'')" by (simp add: get_range_def)
  have "split_host_port ?raw =
      (if w = [] then Inr (CHR ''['' # inner @ '']'', None)
       else if hd w \<noteq> CHR '':'' then Inl AuthorityInvalidByte else Inr (CHR ''['' # inner @ '']'', Some (tl w)))"
    unfolding split_host_port_def p ok_or_simps and_then_simps f r
    by (cases w) (simp_all add: get_from_def)
  then show ?thesis by (cases w; cases pt) auto
qed

lemma rposition_last: "\<not> p x \<Longrightarrow> rposition p (xs @ [x]) = rposition p xs"
  by (cases "position p (rev xs)") (auto simp: rposition_def)

lemma rposition_split: "\<forall>y \<in> set ys. \<not> p y \<Longrightarrow> p x \<Longrightarrow> rposition p (xs @ x # ys) = Some (length xs)"
proof (induction ys rule: rev_induct)
  case (snoc y ys)
  then show ?case using rposition_last [of p y "xs @ x # ys"] by simp
qed (simp add: rposition_def)

lemma rposition_None: "rposition p xs = None \<longleftrightarrow> (\<forall>x \<in> set xs. \<not> p x)"
  by (simp add: rposition_def position_None_iff)

lemma last_split: "x \<in> set xs \<Longrightarrow> \<exists>ys zs. xs = ys @ x # zs \<and> x \<notin> set zs"
  by (simp add: split_list_last)

lemma split_reg_name:
  assumes "get raw 0 \<noteq> Some CHR ''[''" and "length raw \<le> u32_max"
  shows "split_host_port raw = Inr (h, pt) \<longleftrightarrow>
    CHR '':'' \<notin> set h \<and> raw = h @ (case pt of None \<Rightarrow> [] | Some t \<Rightarrow> CHR '':'' # t) \<and> pred_option (\<lambda>t. CHR '':'' \<notin> set t) pt"
proof (cases "CHR '':'' \<in> set raw")
  case False
  then have "rposition (\<lambda>b. b = CHR '':'') raw = None" by (auto simp: rposition_None)
  then show ?thesis using assms(1) False by (cases pt) (auto simp: split_host_port_def)
next
  case True
  then obtain ys zs where raw: "raw = ys @ CHR '':'' # zs" "CHR '':'' \<notin> set zs" using last_split by fast
  then have p: "rposition (\<lambda>b. b = CHR '':'') raw = Some (length ys)" using rposition_split [of zs "\<lambda>b. b = CHR '':''"] by auto
  have "sat_add (length ys) 1 = Suc (length ys)" using assms(2) raw(1) by (simp add: sat_add_def u32_max_def usize_max_def)
  then have "split_host_port raw = (if CHR '':'' \<in> set ys then Inl AuthorityInvalidByte else Inr (ys, Some zs))"
    using assms(1) raw(1) unfolding split_host_port_def p by (simp add: get_range_def get_from_def)
  moreover have "h = ys \<and> t = zs" if "CHR '':'' \<notin> set h" "CHR '':'' \<notin> set t" "raw = h @ CHR '':'' # t" for t
    using append_Cons_eq_iff [OF that(1,2), of ys zs] that(3) raw(1) by simp
  ultimately show ?thesis using raw True by (cases pt) auto
qed

abbreviation port_tail :: "bytes option \<Rightarrow> bytes" where
  "port_tail pt \<equiv> (case pt of None \<Rightarrow> [] | Some t \<Rightarrow> CHR '':'' # t)"

lemma port_suffix_tail: "port_suffix w P \<longleftrightarrow> (\<exists>pt. w = port_tail pt \<and> parse_port pt = Inr P)"
proof
  assume s: "port_suffix w P"
  then show "\<exists>pt. w = port_tail pt \<and> parse_port pt = Inr P"
    by (cases P) (auto simp: parse_port_iff port_suffix_def intro: exI [of _ None] exI [of _ "Some _"])
qed (auto simp: parse_port_iff)

lemma port_suffix_bytes: "port_suffix w P \<Longrightarrow> list_all host_byte_ok w"
  using digit_host by (cases P) (auto simp: port_suffix_def list_all_iff)

lemma port_tail_no_colon: "parse_port pt = Inr P \<Longrightarrow> pred_option (\<lambda>t. CHR '':'' \<notin> set t) pt"
  using byte_class_tests(1) by (cases pt) (auto simp: parse_port_iff port_suffix_def list_all_iff split: option.splits)

lemma check_literal: "check_host True (CHR ''['' # inner @ '']'') = Inr () \<longleftrightarrow>
    CHR '':'' \<in> set inner \<and> list_all (\<lambda>b. is_ascii_hexdigit b \<or> b = CHR '':'' \<or> b = CHR ''.'') inner"
  by (auto simp: check_host_def get_range_def)

lemma literal_bytes:
  assumes "list_all (\<lambda>b. is_ascii_hexdigit b \<or> b = CHR '':'' \<or> b = CHR ''.'') inner"
  shows "CHR '']'' \<notin> set inner" "list_all host_byte_ok (CHR ''['' # inner @ '']'')"
  using assms literal_host byte_class_tests by (auto simp: list_all_iff)

lemma parts_literal:
  assumes "raw = CHR ''['' # rest" and "length raw \<le> u32_max"
  shows "list_all host_byte_ok raw \<and> (\<exists>pt. split_host_port raw = Inr (h, pt) \<and> check_host True h = Inr () \<and> parse_port pt = Inr P) \<longleftrightarrow>
    ip_literal h \<and> (\<exists>w. raw = h @ w \<and> port_suffix w P)"
proof
  assume l: "list_all host_byte_ok raw \<and> (\<exists>pt. split_host_port raw = Inr (h, pt) \<and> check_host True h = Inr () \<and> parse_port pt = Inr P)"
  then obtain pt where pt: "split_host_port raw = Inr (h, pt)" "check_host True h = Inr ()" "parse_port pt = Inr P" by blast
  have "position (\<lambda>b. b = CHR '']'') rest \<noteq> None"
    using pt(1) assms(1) by (cases "position (\<lambda>b. b = CHR '']'') rest") (simp_all add: split_host_port_def)
  then obtain inner w where rest: "rest = inner @ CHR '']'' # w" "CHR '']'' \<notin> set inner"
    by (auto elim!: position_split)
  then have raw: "raw = (CHR ''['' # inner @ '']'') @ w" using assms(1) by simp
  have "h = CHR ''['' # inner @ '']''" "w = port_tail pt"
    using pt(1) split_literal [OF rest(2), of w h pt] assms(2) unfolding raw by simp_all
  then show "ip_literal h \<and> (\<exists>w. raw = h @ w \<and> port_suffix w P)"
    using pt(2,3) raw check_literal [of inner] unfolding ip_literal_def port_suffix_tail by auto
next
  assume r: "ip_literal h \<and> (\<exists>w. raw = h @ w \<and> port_suffix w P)"
  then obtain inner w where h: "h = CHR ''['' # inner @ '']''" "CHR '':'' \<in> set inner"
    "list_all (\<lambda>b. is_ascii_hexdigit b \<or> b = CHR '':'' \<or> b = CHR ''.'') inner" "raw = h @ w" "port_suffix w P"
    unfolding ip_literal_def by blast
  then obtain pt where "w = port_tail pt" "parse_port pt = Inr P" unfolding port_suffix_tail by blast
  moreover have "split_host_port raw = Inr (h, pt)"
    using split_literal [OF literal_bytes(1) [OF h(3)], of w h pt] assms(2) h(1,4) calculation(1) by simp
  moreover have "list_all host_byte_ok raw" using literal_bytes(2) [OF h(3)] port_suffix_bytes [OF h(5)] h(1,4) by simp
  ultimately show "list_all host_byte_ok raw \<and> (\<exists>pt. split_host_port raw = Inr (h, pt) \<and> check_host True h = Inr () \<and> parse_port pt = Inr P)"
    using check_literal [of inner] h(1,2,3) by blast
qed

lemma parts_reg_name:
  assumes "get raw 0 \<noteq> Some CHR ''[''" and "length raw \<le> u32_max"
  shows "list_all host_byte_ok raw \<and> (\<exists>pt. split_host_port raw = Inr (h, pt) \<and> check_host False h = Inr () \<and> parse_port pt = Inr P) \<longleftrightarrow>
    reg_name h \<and> (\<exists>w. raw = h @ w \<and> port_suffix w P)"
proof -
  have c: "check_host False h = Inr () \<longleftrightarrow> h \<noteq> [] \<and> h \<noteq> ''.'' \<and> CHR ''['' \<notin> set h \<and> CHR '']'' \<notin> set h \<and> CHR ''%'' \<notin> set h"
    by (auto simp: check_host_def)
  have r: "reg_name h \<longleftrightarrow> check_host False h = Inr () \<and> CHR '':'' \<notin> set h \<and> list_all host_byte_ok h"
    unfolding c by (auto simp: reg_name_def list_all_iff)
  have "list_all host_byte_ok (port_tail pt)" if "parse_port pt = Inr P" for pt
    using port_suffix_bytes [of "port_tail pt" P] that unfolding port_suffix_tail by blast
  then show ?thesis
    unfolding r split_reg_name [OF assms] port_suffix_tail using port_tail_no_colon by auto
qed

text \<open>The authority that a text names under a scheme.\<close>

definition names_authority :: "http_limits \<Rightarrow> scheme \<Rightarrow> bytes \<Rightarrow> authority \<Rightarrow> bool" where
  "names_authority lim sch raw a \<longleftrightarrow> (\<exists>h P. authority_text lim raw h P \<and> a = authority_of sch h P)"

lemma authority_text_nonempty: "authority_text lim raw h P \<Longrightarrow> h \<noteq> []"
  by (auto simp: authority_text_def reg_name_def ip_literal_def)

lemma authority_parts:
  assumes "length raw \<le> u32_max" and "raw \<noteq> []"
  shows "list_all host_byte_ok raw \<and>
      (\<exists>pt. split_host_port raw = Inr (h, pt) \<and> check_host (get raw 0 = Some CHR ''['') h = Inr () \<and> parse_port pt = Inr P) \<longleftrightarrow>
    (reg_name h \<or> ip_literal h) \<and> (\<exists>w. raw = h @ w \<and> port_suffix w P)"
proof (cases "get raw 0 = Some CHR ''[''")
  case True
  then obtain rest where raw: "raw = CHR ''['' # rest" by (cases raw) auto
  have "\<not> reg_name h" if "raw = h @ w" for w
    using that raw by (cases h) (auto simp: reg_name_def)
  then show ?thesis using parts_literal [OF raw assms(1), of h P] True by auto
next
  case False
  have "\<not> ip_literal h" if "raw = h @ w" for w
    using that False by (auto simp: ip_literal_def)
  then show ?thesis using parts_reg_name [OF False assms(1), of h P] False by auto
qed

lemma authority_parse_iff:
  assumes lim: "is_clamped lim"
  shows "authority_parse_into raw sch lim out = (Inr a, out') \<longleftrightarrow> names_authority lim sch raw a \<and> out' = out"
proof (cases "raw \<noteq> [] \<and> length raw \<le> max_authority_bytes lim")
  case False
  then have "\<not> names_authority lim sch raw a"
    using authority_text_nonempty [of lim raw] by (auto simp: names_authority_def authority_text_def)
  moreover have "fst (authority_parse_into raw sch lim out) \<noteq> Inr a" using False by (auto simp: authority_parse_into_def)
  ultimately show ?thesis by auto
next
  case True
  then have len: "length raw \<le> u32_max" "length raw \<le> 1024" using is_clampedD(7) [OF lim] by (simp_all add: u32_max_def)
  let ?parts = "and_then (host_scan raw) (\<lambda>_. and_then (split_host_port raw) (\<lambda>(host_span, port_text).
      and_then (check_host (get raw 0 = Some CHR ''['') host_span) (\<lambda>_.
      and_then (parse_port port_text) (\<lambda>parsed_port. Inr (host_span, parsed_port)))))"
  have parts: "?parts = Inr (h, P) \<longleftrightarrow> authority_text lim raw h P" for h P
    using authority_parts [of raw h P] True len(1)
    unfolding authority_text_def and_then_Inr_iff host_scan_iff [symmetric] by (auto simp: and_then_Inr_iff)
  show ?thesis
  proof (cases ?parts)
    case (Inl e)
    have "\<not> authority_text lim raw h P" for h P unfolding parts [symmetric] Inl by simp
    then show ?thesis using True Inl by (auto simp: authority_parse_into_def names_authority_def)
  next
    case (Inr hp)
    obtain h P where hp: "hp = (h, P)" by (cases hp)
    have only: "authority_text lim raw h' P' \<longleftrightarrow> h' = h \<and> P' = P" for h' P' using parts [of h' P'] Inr hp by auto
    have "length h \<le> u16_max" using only [of h P] len(2) by (auto simp: authority_text_def u16_max_def)
    then have "authority_parse_into raw sch lim out = (Inr (authority_of sch h P), out)"
      using True Inr hp by (simp add: authority_parse_into_def authority_of_def)
    then show ?thesis using only by (auto simp: names_authority_def)
  qed
qed

section \<open>Writing and reading back\<close>

lemma lower_host_facts: "(host_byte_ok b \<longrightarrow> host_byte_ok (to_ascii_lowercase b)) \<and> (is_ascii_hexdigit b \<longrightarrow> is_ascii_hexdigit (to_ascii_lowercase b))"
  by (rule spec [of _ b]) code_simp

lemma lower_punct: "\<not> is_ascii_lowercase c \<Longrightarrow> to_ascii_lowercase b = c \<longleftrightarrow> b = c \<and> \<not> is_ascii_uppercase c"
  using byte_val_less [of b]
  by (auto simp: to_ascii_lowercase_def is_ascii_lowercase_def is_ascii_uppercase_def of_char_of)

lemma punct_class:
  "\<not> is_ascii_lowercase CHR ''.''" "\<not> is_ascii_lowercase CHR '':''" "\<not> is_ascii_lowercase CHR ''[''" "\<not> is_ascii_lowercase CHR '']''" "\<not> is_ascii_lowercase CHR ''%''"
  "\<not> is_ascii_uppercase CHR ''.''" "\<not> is_ascii_uppercase CHR '':''" "\<not> is_ascii_uppercase CHR ''[''" "\<not> is_ascii_uppercase CHR '']''" "\<not> is_ascii_uppercase CHR ''%''"
  by code_simp+

lemma lower_punct_simps [simp]:
  "to_ascii_lowercase b = CHR ''.'' \<longleftrightarrow> b = CHR ''.''" "to_ascii_lowercase b = CHR '':'' \<longleftrightarrow> b = CHR '':''"
  "to_ascii_lowercase b = CHR ''['' \<longleftrightarrow> b = CHR ''[''" "to_ascii_lowercase b = CHR '']'' \<longleftrightarrow> b = CHR '']''"
  "to_ascii_lowercase b = CHR ''%'' \<longleftrightarrow> b = CHR ''%''"
  by (simp_all add: lower_punct punct_class)

lemma lower_fixed [simp]: "to_ascii_lowercase CHR '':'' = CHR '':''" "to_ascii_lowercase CHR ''['' = CHR ''[''" "to_ascii_lowercase CHR '']'' = CHR '']''"
  by simp_all

lemma reg_name_lower: "reg_name h \<Longrightarrow> reg_name (map to_ascii_lowercase h)"
proof -
  assume h: "reg_name h"
  have "map to_ascii_lowercase h \<noteq> ''.''" using h by (auto simp: reg_name_def map_eq_Cons_conv)
  moreover have "host_byte_ok (to_ascii_lowercase b) \<and> to_ascii_lowercase b \<notin> set '':[]%''" if "b \<in> set h" for b
    using h that lower_host_facts [of b] by (simp add: reg_name_def list_all_iff)
  ultimately show "reg_name (map to_ascii_lowercase h)" using h by (simp add: reg_name_def list_all_iff)
qed

lemma ip_literal_lower: "ip_literal h \<Longrightarrow> ip_literal (map to_ascii_lowercase h)"
proof -
  assume "ip_literal h"
  then obtain inner where h: "h = CHR ''['' # inner @ '']''" "CHR '':'' \<in> set inner"
    "list_all (\<lambda>b. is_ascii_hexdigit b \<or> b = CHR '':'' \<or> b = CHR ''.'') inner" unfolding ip_literal_def by blast
  have "is_ascii_hexdigit (to_ascii_lowercase b) \<or> to_ascii_lowercase b = CHR '':'' \<or> to_ascii_lowercase b = CHR ''.''" if "b \<in> set inner" for b
    using h(3) that lower_host_facts [of b] by (auto simp: list_all_iff)
  moreover have "CHR '':'' \<in> to_ascii_lowercase ` set inner" using h(2) by (force simp: image_iff)
  ultimately show ?thesis using h(1) unfolding ip_literal_def
    by (intro exI [of _ "map to_ascii_lowercase inner"]) (simp add: list_all_iff)
qed

lemma authority_host_of [simp]: "authority_host (authority_of sch h P) = map to_ascii_lowercase h"
  by (simp add: authority_host_def authority_of_def slice_or_empty_def get_range_def)

definition canonical_port :: "scheme \<Rightarrow> nat option \<Rightarrow> nat option" where
  "canonical_port sch P = (if P = Some (default_port sch) then None else P)"

definition port_print :: "nat option \<Rightarrow> bytes" where
  "port_print P = (case P of None \<Rightarrow> [] | Some p \<Rightarrow> CHR '':'' # dec_text p)"

lemma port_suffix_print:
  assumes "port_suffix w P"
  shows "port_suffix (port_print (canonical_port sch P)) (canonical_port sch P)" "length (port_print (canonical_port sch P)) \<le> length w"
proof -
  have n: "port_suffix (port_print (Some n)) (Some n)" "length (port_print (Some n)) \<le> length w" if P: "P = Some n" for n
  proof -
    obtain ds where ds: "w = CHR '':'' # ds" "ds \<noteq> []" "length ds \<le> 5" "list_all is_ascii_digit ds" "n = dec_value 0 ds" "n \<noteq> 0" "n \<le> u16_max"
      using assms P by (auto simp: port_suffix_def)
    have "n < 10 ^ Suc (length ds - 1)" using dec_value_less [OF ds(4), of 0] ds(2,5) by (cases ds) simp_all
    then have "length (dec_text n) \<le> length ds" using dec_text_length [of n "length ds - 1"] ds(2) by (cases ds) simp_all
    then show "port_suffix (port_print (Some n)) (Some n)" "length (port_print (Some n)) \<le> length w"
      using ds dec_text_facts [of n] by (simp_all add: port_suffix_def port_print_def)
  qed
  show "port_suffix (port_print (canonical_port sch P)) (canonical_port sch P)"
    using n(1) by (cases P) (simp_all add: canonical_port_def port_print_def port_suffix_def)
  show "length (port_print (canonical_port sch P)) \<le> length w"
    using n(2) by (cases P) (simp_all add: canonical_port_def port_print_def)
qed

lemma write_authority:
  fixes sch :: scheme
  assumes "authority_text lim raw h P" and "is_clamped lim"
  defines "w \<equiv> map to_ascii_lowercase h @ port_print (canonical_port sch P)"
  shows "authority_write_to (authority_of sch h P) out = (length w, out @ w)" "authority_written_len (authority_of sch h P) = length w"
    "authority_text lim w (map to_ascii_lowercase h) (canonical_port sch P)"
proof -
  obtain v where v: "raw = h @ v" "port_suffix v P" and len: "length raw \<le> max_authority_bytes lim" and h: "reg_name h \<or> ip_literal h"
    using assms(1) by (auto simp: authority_text_def)
  note pp = port_suffix_print [OF v(2), of sch]
  have port: "au_port (authority_of sch h P) = canonical_port sch P" by (simp add: authority_of_def canonical_port_def)
  have small: "length h \<le> 1024" "length w \<le> length raw" using len is_clampedD(7) [OF assms(2)] v(1) pp(2) by (simp_all add: w_def)
  show "authority_text lim w (map to_ascii_lowercase h) (canonical_port sch P)"
    using small(2) len pp(1) h reg_name_lower ip_literal_lower unfolding authority_text_def w_def by auto
  have n: "sat_add (sat_add (length h) 1) (length (dec_text n)) = length h + Suc (length (dec_text n))"
    "n \<le> u16_max" if "canonical_port sch P = Some n" for n
  proof -
    have "n \<le> u16_max" using pp(1) that by (auto simp: port_suffix_def)
    moreover from this have "length (dec_text n) \<le> 5" using dec_text_length [of n 4] by (simp add: u16_max_def)
    ultimately show "sat_add (sat_add (length h) 1) (length (dec_text n)) = length h + Suc (length (dec_text n))" "n \<le> u16_max"
      using small(1) by (simp_all add: sat_add_def usize_max_def)
  qed
  show "authority_write_to (authority_of sch h P) out = (length w, out @ w)"
    using n port_digits_text by (cases "canonical_port sch P")
      (auto simp: authority_write_to_def port w_def port_print_def Let_def split: prod.split)
  show "authority_written_len (authority_of sch h P) = length w"
    using n port_digits_text(1) by (cases "canonical_port sch P")
      (auto simp: authority_written_len_def port w_def port_print_def snd_def split: prod.split)
qed

lemma authority_of_canonical: "authority_of sch (map to_ascii_lowercase h) (canonical_port sch P) = authority_of sch h P"
  by (simp add: authority_of_def canonical_port_def comp_def)

section \<open>The contract\<close>

text \<open>
  C7. A request has one authority. Reconciliation succeeds with authority \<open>a\<close> exactly when the request names
  at least one (on HTTP/1 the \<^verbatim>\<open>Host\<close> field and no pseudo-header, otherwise either of the two) and every text
  that is present names \<open>a\<close>: a registered name without colon, bracket or percent sign, or a bracketed address
  literal, all ASCII and within the limit, with an optional port between 1 and 65535 of at most five digits;
  \<open>a\<close> is the host in lower case with the port, dropped if it is the default of the scheme. The buffer of the
  caller keeps its contents.
\<close>

theorem one_authority:
  assumes "is_clamped lim"
  shows "reconcile_authority host pseudo sch version lim out = (Inr a, out') \<longleftrightarrow>
    out' = out \<and> (if is_multiplexed version then host \<noteq> None \<or> pseudo \<noteq> None else host \<noteq> None \<and> pseudo = None) \<and>
    pred_option (\<lambda>raw. names_authority lim sch raw a) host \<and> pred_option (\<lambda>raw. names_authority lim sch raw a) pseudo"
proof -
  note iff = authority_parse_iff [OF assms]
  have keep: "out1 = out" if "authority_parse_into x sch lim out = (Inr b, out1)" for x b out1 using that iff by blast
  have both: "(case authority_parse_into x sch lim out of
        (Inl e, out1) \<Rightarrow> (Inl e, out1)
      | (Inr from_host, out1) \<Rightarrow>
          (case authority_parse_into y sch lim out1 of
             (Inl e, out2) \<Rightarrow> (Inl e, out2)
           | (Inr from_pseudo, out2) \<Rightarrow>
               if from_host \<noteq> from_pseudo then (Inl AuthorityMismatch, out2) else (Inr from_pseudo, out2))) = (Inr a, out') \<longleftrightarrow>
      authority_parse_into x sch lim out = (Inr a, out) \<and> authority_parse_into y sch lim out = (Inr a, out')" for x y
    by (auto dest: keep split: prod.splits sum.splits if_splits)
  show ?thesis
    unfolding reconcile_authority_def by (cases host; cases pseudo) (auto simp: iff both)
qed

theorem one_authority_witness:
  "names_authority DEFAULT_limits Scheme_Https ''[::1]:8443'' \<lparr>au_buf = ''[::1]'', au_host_len = 5, au_port = Some 8443\<rparr>"
proof -
  have "reconcile_authority (Some ''[::1]:08443'') (Some ''[::1]:8443'') Scheme_Https H2 DEFAULT_limits ''x'' =
      (Inr \<lparr>au_buf = ''[::1]'', au_host_len = 5, au_port = Some 8443\<rparr>, ''x'')" by code_simp
  then show ?thesis
    using one_authority [OF is_clamped_DEFAULT, of "Some ''[::1]:08443''" "Some ''[::1]:8443''" Scheme_Https H2 "''x''"] by auto
qed

text \<open>
  C31. What is written for an authority is read back as the same authority. The writer appends exactly as many
  bytes as it reports and as \<^verbatim>\<open>written_len\<close> predicts, and parsing them under the same scheme and limits gives
  the authority again.
\<close>

theorem authority_roundtrip:
  assumes "is_clamped lim" and "authority_parse_into raw sch lim out = (Inr a, out')"
  shows "\<exists>w. authority_write_to a buf = (length w, buf @ w) \<and> authority_written_len a = length w \<and>
    authority_parse_into w sch lim buf = (Inr a, buf)"
proof -
  obtain h P where h: "authority_text lim raw h P" "a = authority_of sch h P"
    using assms(2) unfolding authority_parse_iff [OF assms(1)] names_authority_def by blast
  let ?w = "map to_ascii_lowercase h @ port_print (canonical_port sch P)"
  note w = write_authority [OF h(1) assms(1), of sch]
  have "names_authority lim sch ?w a"
    unfolding names_authority_def using w(3) h(2) authority_of_canonical [of sch h P] by metis
  then show ?thesis using w(1,2) h(2) authority_parse_iff [OF assms(1)] by (intro exI [of _ ?w]) simp
qed

theorem authority_roundtrip_witness:
  "\<exists>w. authority_write_to \<lparr>au_buf = ''a.b'', au_host_len = 3, au_port = Some 81\<rparr> ''x'' = (length w, ''x'' @ w) \<and>
     authority_written_len \<lparr>au_buf = ''a.b'', au_host_len = 3, au_port = Some 81\<rparr> = length w \<and>
     authority_parse_into w Scheme_Http DEFAULT_limits ''x'' = (Inr \<lparr>au_buf = ''a.b'', au_host_len = 3, au_port = Some 81\<rparr>, ''x'')"
proof -
  have "authority_parse_into ''A.b:00081'' Scheme_Http DEFAULT_limits [] =
      (Inr \<lparr>au_buf = ''a.b'', au_host_len = 3, au_port = Some 81\<rparr>, [])" by code_simp
  then show ?thesis by (rule authority_roundtrip [OF is_clamped_DEFAULT])
qed

end
