(* ===== verification/Http_Strip.thy ===== *)
theory Http_Strip
  imports Http_Framing
begin

text \<open>
  Hop-by-hop stripping (\<^verbatim>\<open>strip.rs\<close>): the connection options a message names, the removal of the static set,
  of the identity fields, of reserved prefixes and of everything the message names itself. A section that an
  operation edits is passed in and returned.
\<close>

section \<open>The strip sets\<close>

definition STATIC_STRIP :: "known_header list" where
  "STATIC_STRIP =
     [KnownHeader_Connection, KnownHeader_ProxyConnection, KnownHeader_KeepAlive, KnownHeader_TransferEncoding,
      KnownHeader_ContentLength, KnownHeader_Upgrade, KnownHeader_Http2Settings, KnownHeader_Trailer,
      KnownHeader_ProxyAuthenticate, KnownHeader_ProxyAuthorization]"

definition RESERVED_PREFIXES :: "bytes list" where
  "RESERVED_PREFIXES = [''x-irontraffic-'', ''x-envoy-'', ''x-forwarded-'']"

definition RESPONSE_RESERVED_PREFIXES :: "bytes list" where
  "RESPONSE_RESERVED_PREFIXES = [''x-irontraffic-'']"

definition IDENTITY_STRIP :: "known_header list" where
  "IDENTITY_STRIP =
     [KnownHeader_Forwarded, KnownHeader_XForwardedFor, KnownHeader_XForwardedProto, KnownHeader_XForwardedHost,
      KnownHeader_XForwardedPort, KnownHeader_XRealIp]"

definition MAX_CONNECTION_TOKENS :: nat where "MAX_CONNECTION_TOKENS = 32"

definition MAX_TOKEN_BYTES :: nat where "MAX_TOKEN_BYTES = 64"

definition bytes_start_with :: "bytes \<Rightarrow> bytes \<Rightarrow> bool" where
  "bytes_start_with name prefix \<longleftrightarrow> take (length prefix) name = prefix"

definition is_reserved_prefix :: "bytes \<Rightarrow> bool" where
  "is_reserved_prefix name = list_ex (bytes_start_with name) RESERVED_PREFIXES"

fun is_hop_by_hop :: "known_header \<Rightarrow> bool" where
  "is_hop_by_hop KnownHeader_Connection = True"
| "is_hop_by_hop KnownHeader_ProxyConnection = True"
| "is_hop_by_hop KnownHeader_KeepAlive = True"
| "is_hop_by_hop KnownHeader_TransferEncoding = True"
| "is_hop_by_hop KnownHeader_ContentLength = True"
| "is_hop_by_hop KnownHeader_Upgrade = True"
| "is_hop_by_hop KnownHeader_Http2Settings = True"
| "is_hop_by_hop KnownHeader_Trailer = True"
| "is_hop_by_hop KnownHeader_ProxyAuthenticate = True"
| "is_hop_by_hop KnownHeader_ProxyAuthorization = True"
| "is_hop_by_hop _ = False"

fun is_identity_field :: "known_header \<Rightarrow> bool" where
  "is_identity_field KnownHeader_Forwarded = True"
| "is_identity_field KnownHeader_XForwardedFor = True"
| "is_identity_field KnownHeader_XForwardedProto = True"
| "is_identity_field KnownHeader_XForwardedHost = True"
| "is_identity_field KnownHeader_XForwardedPort = True"
| "is_identity_field KnownHeader_XRealIp = True"
| "is_identity_field _ = False"

fun is_connection_specific :: "known_header \<Rightarrow> bool" where
  "is_connection_specific KnownHeader_Connection = True"
| "is_connection_specific KnownHeader_ProxyConnection = True"
| "is_connection_specific KnownHeader_KeepAlive = True"
| "is_connection_specific KnownHeader_TransferEncoding = True"
| "is_connection_specific KnownHeader_Upgrade = True"
| "is_connection_specific KnownHeader_Http2Settings = True"
| "is_connection_specific _ = False"

section \<open>Connection options\<close>

text \<open>A token is stored in a buffer of 64 bytes with its length.\<close>

type_synonym connection_tokens = "(bytes \<times> nat) list"

fun collect_elements :: "nat \<Rightarrow> bytes list \<Rightarrow> connection_tokens \<Rightarrow> reject_reason + connection_tokens" where
  "collect_elements cap [] tokens = Inr tokens"
| "collect_elements cap (raw # raws) tokens =
     (let trimmed = trim_ows raw in
      if trimmed = [] then collect_elements cap raws tokens
      else if length trimmed > MAX_TOKEN_BYTES then Inl FieldLineTooLong
      else if length tokens \<ge> min MAX_CONNECTION_TOKENS cap then Inl FieldCountExceeded
      else
        (let buf = map to_ascii_lowercase trimmed @ replicate (MAX_TOKEN_BYTES - length trimmed) CHR 0x00
         in collect_elements cap raws (tokens @ [(buf, min 255 (length trimmed))])))"

fun collect_values :: "nat \<Rightarrow> bytes list \<Rightarrow> connection_tokens \<Rightarrow> reject_reason + connection_tokens" where
  "collect_values cap [] tokens = Inr tokens"
| "collect_values cap (v # vs) tokens =
     and_then (collect_elements cap (split_on (\<lambda>b. b = CHR '','') v) tokens) (collect_values cap vs)"

definition collect_connection_tokens :: "field_section \<Rightarrow> http_limits \<Rightarrow> reject_reason + connection_tokens" where
  "collect_connection_tokens s limits =
     collect_values (max_field_count limits) (get_all_known s KnownHeader_Connection) []"

definition token_names :: "bytes \<Rightarrow> connection_tokens \<Rightarrow> bool" where
  "token_names name tokens = list_ex (\<lambda>(buf, len). length name = len \<and> get_range buf 0 len = Some name) tokens"

definition connection_has_token :: "field_section \<Rightarrow> bytes \<Rightarrow> bool" where
  "connection_has_token s token =
     list_ex (\<lambda>v. list_ex (\<lambda>e. eq_ignore_case (trim_ows e) token) (split_on (\<lambda>b. b = CHR '','') v))
       (get_all_known s KnownHeader_Connection)"

section \<open>Stripping\<close>

record strip_report =
  hop_by_hop :: nat
  connection_named :: nat
  identity_removed :: nat
  reserved_prefix :: nat
  te_trailers_kept :: bool

definition report_default :: strip_report where
  "report_default =
     \<lparr>hop_by_hop = 0, connection_named = 0, identity_removed = 0, reserved_prefix = 0, te_trailers_kept = False\<rparr>"

fun remove_each :: "known_header list \<Rightarrow> field_section \<Rightarrow> nat \<Rightarrow> field_section \<times> nat" where
  "remove_each [] s n = (s, n)"
| "remove_each (k # ks) s n = (case remove_known s k of (s', r) \<Rightarrow> remove_each ks s' (sat_add32 n r))"

definition strip_static_and_te ::
  "field_section \<Rightarrow> http_limits \<Rightarrow> reject_reason + (connection_tokens \<times> strip_report) \<times> field_section" where
  "strip_static_and_te s limits =
     and_then (collect_connection_tokens s limits) (\<lambda>tokens.
       case remove_each STATIC_STRIP s 0 of (s1, n) \<Rightarrow>
         (let report = report_default\<lparr>hop_by_hop := n\<rparr> in
          case get_unique_known s1 KnownHeader_Te of
            Inr None \<Rightarrow> Inr ((tokens, report), s1)
          | Inr (Some v) \<Rightarrow>
              if eq_ignore_case (trim_ows v) ''trailers'' then Inr ((tokens, report\<lparr>te_trailers_kept := True\<rparr>), s1)
              else (case remove_known s1 KnownHeader_Te of (s2, r) \<Rightarrow> Inr ((tokens, report\<lparr>hop_by_hop := sat_add32 n r\<rparr>), s2))
          | Inl _ \<Rightarrow> (case remove_known s1 KnownHeader_Te of (s2, r) \<Rightarrow> Inr ((tokens, report\<lparr>hop_by_hop := sat_add32 n r\<rparr>), s2))))"

definition strip_ingress :: "field_section \<Rightarrow> http_limits \<Rightarrow> reject_reason + strip_report \<times> field_section" where
  "strip_ingress s limits =
     and_then (strip_static_and_te s limits) (\<lambda>((tokens, report), s1).
       case remove_each IDENTITY_STRIP s1 0 of (s2, n) \<Rightarrow>
       (case retain s2 (\<lambda>name _ _. \<not> is_reserved_prefix name) of (s3, rp) \<Rightarrow>
       (case retain s3 (\<lambda>name _ _. \<not> token_names name tokens) of (s4, cn) \<Rightarrow>
         Inr (report\<lparr>identity_removed := n, reserved_prefix := rp, connection_named := cn\<rparr>, s4))))"

definition strip_response :: "field_section \<Rightarrow> http_limits \<Rightarrow> reject_reason + strip_report \<times> field_section" where
  "strip_response s limits =
     and_then (strip_static_and_te s limits) (\<lambda>((tokens, report), s1).
       case retain s1 (\<lambda>name _ _. \<not> list_ex (bytes_start_with name) RESPONSE_RESERVED_PREFIXES) of (s2, rp) \<Rightarrow>
       (case retain s2 (\<lambda>name _ _. \<not> token_names name tokens) of (s3, cn) \<Rightarrow>
         Inr (report\<lparr>reserved_prefix := rp, connection_named := cn\<rparr>, s3)))"

end
