(* ===== verification/Http_Strip_Exact.thy ===== *)
theory Http_Strip_Exact
  imports Http_Strip
begin

text \<open>
  What stripping leaves of a message. Every pass is an edit that keeps the fields satisfying a predicate; the
  locale states that contract once, and its consequence for a series of edits carries the proofs about the
  static set, the identity fields, the prefixes and the connection options.
\<close>

section \<open>Editors of field lists\<close>

locale field_editor =
  fixes ok :: "'s \<Rightarrow> bool" and view :: "'s \<Rightarrow> 'f list" and edit :: "('f \<Rightarrow> bool) \<Rightarrow> 's \<Rightarrow> 's"
  assumes edit_ok: "ok s \<Longrightarrow> ok (edit P s)"
    and edit_view: "ok s \<Longrightarrow> view (edit P s) = filter P (view s)"
begin

lemma edits_ok: "ok s \<Longrightarrow> ok (fold edit Ps s)"
  by (induction Ps arbitrary: s) (simp_all add: edit_ok)

lemma edits_view: "ok s \<Longrightarrow> view (fold edit Ps s) = filter (\<lambda>f. \<forall>P \<in> set Ps. P f) (view s)"
proof (induction Ps arbitrary: s)
  case (Cons P Ps)
  have "view (fold edit (P # Ps) s) = filter (\<lambda>f. \<forall>Q \<in> set Ps. Q f) (filter P (view s))"
    using Cons.IH [OF edit_ok [OF Cons.prems]] edit_view [OF Cons.prems] by simp
  then show ?case by (simp add: conj_commute)
qed simp

lemma edits_append: "fold edit Qs (fold edit Ps s) = fold edit (Ps @ Qs) s"
  by simp

end

definition keep_only :: "(bytes \<times> bytes \<times> field_flags \<Rightarrow> bool) \<Rightarrow> field_section \<Rightarrow> field_section" where
  "keep_only P s = fst (retain s (\<lambda>n v f. P (n, v, f)))"

interpretation fe: field_editor section_ok iter keep_only
proof
  show "section_ok s \<Longrightarrow> section_ok (keep_only P s)" for s P unfolding keep_only_def by (rule retain_ok)
  show "section_ok s \<Longrightarrow> iter (keep_only P s) = filter P (iter s)" for s P by (simp add: keep_only_def retain_iter)
qed

abbreviation not_class :: "known_header \<Rightarrow> bytes \<times> bytes \<times> field_flags \<Rightarrow> bool" where
  "not_class k f \<equiv> classify (field_name f) \<noteq> k"

lemma remove_known_edit: "k \<noteq> KnownHeader_Unknown \<Longrightarrow> fst (remove_known s k) = keep_only (not_class k) s"
  by (simp add: remove_known_def keep_only_def)

lemma remove_each_edits: "KnownHeader_Unknown \<notin> set ks \<Longrightarrow> fst (remove_each ks s n) = fold keep_only (map not_class ks) s"
proof (induction ks arbitrary: s n)
  case (Cons k ks)
  then show ?case using remove_known_edit [of k s] by (cases "remove_known s k") auto
qed simp

section \<open>Connection options\<close>

text \<open>The options a list of field values names, in lower case.\<close>

definition options_of :: "bytes list \<Rightarrow> bytes list" where
  "options_of vals =
     filter (\<lambda>t. t \<noteq> []) (map (\<lambda>e. map to_ascii_lowercase (trim_ows e)) (concat (map (split_on (\<lambda>b. b = CHR '','')) vals)))"

definition stored :: "bytes \<Rightarrow> bytes \<times> nat" where
  "stored t = (t @ replicate (MAX_TOKEN_BYTES - length t) CHR 0x00, length t)"

definition options_fit :: "nat \<Rightarrow> bytes list \<Rightarrow> bool" where
  "options_fit cap ts \<longleftrightarrow> length ts \<le> min MAX_CONNECTION_TOKENS cap \<and> list_all (\<lambda>t. length t \<le> MAX_TOKEN_BYTES) ts"

lemma options_of_append: "options_of (xs @ ys) = options_of xs @ options_of ys"
  by (simp add: options_of_def)

lemma collect_elements_eq:
  assumes "length tokens \<le> min MAX_CONNECTION_TOKENS cap"
  shows "(case collect_elements cap raws tokens of
      Inr ts \<Rightarrow> ts = tokens @ map stored (filter (\<lambda>t. t \<noteq> []) (map (\<lambda>e. map to_ascii_lowercase (trim_ows e)) raws)) \<and>
        length ts \<le> min MAX_CONNECTION_TOKENS cap \<and> list_all (\<lambda>e. length (trim_ows e) \<le> MAX_TOKEN_BYTES) raws
    | Inl e \<Rightarrow> (e = FieldLineTooLong \<or> e = FieldCountExceeded) \<and>
        \<not> (length tokens + length (filter (\<lambda>t. t \<noteq> []) (map (\<lambda>e. map to_ascii_lowercase (trim_ows e)) raws)) \<le> min MAX_CONNECTION_TOKENS cap \<and>
           list_all (\<lambda>e. length (trim_ows e) \<le> MAX_TOKEN_BYTES) raws))"
  using assms
proof (induction cap raws tokens rule: collect_elements.induct)
  case (2 cap raw raws tokens)
  show ?case
  proof (cases "trim_ows raw = []")
    case True
    then show ?thesis using 2(1) [OF refl True] 2(3) by (simp add: MAX_TOKEN_BYTES_def split: sum.splits)
  next
    case False
    consider "length (trim_ows raw) > MAX_TOKEN_BYTES" | "length (trim_ows raw) \<le> MAX_TOKEN_BYTES" "length tokens \<ge> min MAX_CONNECTION_TOKENS cap"
      | "length (trim_ows raw) \<le> MAX_TOKEN_BYTES" "length tokens < min MAX_CONNECTION_TOKENS cap" by linarith
    then show ?thesis
    proof cases
      case 3
      let ?t = "map to_ascii_lowercase (trim_ows raw)"
      have s: "(?t @ replicate (MAX_TOKEN_BYTES - length (trim_ows raw)) CHR 0x00, min 255 (length (trim_ows raw))) = stored ?t"
        using 3(1) by (simp add: stored_def MAX_TOKEN_BYTES_def)
      have e: "collect_elements cap (raw # raws) tokens = collect_elements cap raws (tokens @ [stored ?t])"
        using False 3(1) s iffD2 [OF not_le 3(2)] by (simp add: Let_def)
      show ?thesis
        using 2(2) [OF refl False _ _ refl] 3 False unfolding e s by (auto split: sum.splits)
    qed (use False in \<open>auto simp: Let_def\<close>)
  qed
qed simp

lemma collect_elements_append:
  "collect_elements cap (xs @ ys) tokens = and_then (collect_elements cap xs tokens) (collect_elements cap ys)"
  by (induction cap xs tokens rule: collect_elements.induct) (auto simp: Let_def)

lemma collect_values_flat:
  "collect_values cap vals tokens = collect_elements cap (concat (map (split_on (\<lambda>b. b = CHR '','')) vals)) tokens"
  by (induction cap vals tokens rule: collect_values.induct) (auto simp: collect_elements_append and_then_def split: sum.split)

lemma collect_values_eq:
  "options_fit cap (options_of vals) \<Longrightarrow> collect_values cap vals [] = Inr (map stored (options_of vals))"
  "\<not> options_fit cap (options_of vals) \<Longrightarrow> \<exists>e \<in> {FieldLineTooLong, FieldCountExceeded}. collect_values cap vals [] = Inl e"
proof -
  let ?raws = "concat (map (split_on (\<lambda>b. b = CHR '','')) vals)"
  have l: "list_all (\<lambda>t. length t \<le> MAX_TOKEN_BYTES) (filter (\<lambda>t. t \<noteq> []) (map (\<lambda>e. map to_ascii_lowercase (trim_ows e)) xs)) \<longleftrightarrow>
      list_all (\<lambda>e. length (trim_ows e) \<le> MAX_TOKEN_BYTES) xs" for xs
    by (induction xs) (auto simp: MAX_TOKEN_BYTES_def)
  show "options_fit cap (options_of vals) \<Longrightarrow> collect_values cap vals [] = Inr (map stored (options_of vals))"
    "\<not> options_fit cap (options_of vals) \<Longrightarrow> \<exists>e \<in> {FieldLineTooLong, FieldCountExceeded}. collect_values cap vals [] = Inl e"
    using collect_elements_eq [of "[]" cap ?raws] l [of ?raws] unfolding collect_values_flat options_fit_def options_of_def
    by (auto split: sum.splits)
qed

lemma token_names_stored: "list_all (\<lambda>t. length t \<le> MAX_TOKEN_BYTES) ts \<Longrightarrow> token_names name (map stored ts) \<longleftrightarrow> name \<in> set ts"
  by (induction ts) (auto simp: token_names_def stored_def get_range_def)

section \<open>What is forwarded\<close>

definition connection_options :: "field_section \<Rightarrow> bytes list" where
  "connection_options s = options_of (map field_value (filter (\<lambda>f. field_name f = ''connection'') (iter s)))"

definition only_te_trailers :: "field_section \<Rightarrow> bool" where
  "only_te_trailers s \<longleftrightarrow>
     (\<exists>v. map field_value (filter (\<lambda>f. field_name f = ''te'') (iter s)) = [v] \<and> eq_ignore_case (trim_ows v) ''trailers'')"

text \<open>The names a hop keeps to itself, and the names of client identity.\<close>

definition hop_names :: "bytes set" where
  "hop_names = {''connection'', ''proxy-connection'', ''keep-alive'', ''transfer-encoding'', ''content-length'', ''upgrade'',
     ''http2-settings'', ''trailer'', ''proxy-authenticate'', ''proxy-authorization''}"

definition identity_names :: "bytes set" where
  "identity_names = {''forwarded'', ''x-forwarded-for'', ''x-forwarded-proto'', ''x-forwarded-host'', ''x-forwarded-port'', ''x-real-ip''}"

lemma names_of_class:
  "(\<forall>P \<in> set (map not_class STATIC_STRIP). P f) \<longleftrightarrow> field_name f \<notin> hop_names"
  "(\<forall>P \<in> set (map not_class IDENTITY_STRIP). P f) \<longleftrightarrow> field_name f \<notin> identity_names"
  "not_class KnownHeader_Te f \<longleftrightarrow> field_name f \<noteq> ''te''"
  by (simp_all add: STATIC_STRIP_def IDENTITY_STRIP_def hop_names_def identity_names_def classify_iff)

lemma removed_class:
  assumes "section_ok s" and "k \<noteq> KnownHeader_Unknown"
  obtains s' r where "remove_known s k = (s', r)" "section_ok s'" "iter s' = filter (\<lambda>f. field_name f \<noteq> known_as_bytes k) (iter s)"
proof -
  obtain s' r where r: "remove_known s k = (s', r)" by fastforce
  moreover have "section_ok s'" using fe.edit_ok [OF assms(1), of "not_class k"] remove_known_edit [OF assms(2), of s] r by simp
  ultimately show ?thesis using that remove_known_iter [OF assms] by simp
qed

lemma removed_each:
  assumes "section_ok s" and "KnownHeader_Unknown \<notin> set ks"
  obtains s' n where "remove_each ks s 0 = (s', n)" "section_ok s'" "iter s' = filter (\<lambda>f. \<forall>P \<in> set (map not_class ks). P f) (iter s)"
proof -
  obtain s' n where r: "remove_each ks s 0 = (s', n)" by fastforce
  then have "s' = fold keep_only (map not_class ks) s" using remove_each_edits [OF assms(2), of s 0] by simp
  then show ?thesis using that r fe.edits_ok [OF assms(1)] fe.edits_view [OF assms(1)] by blast
qed

lemma collected:
  assumes ok: "section_ok s"
  shows "options_fit (max_field_count lim) (connection_options s) \<Longrightarrow> collect_connection_tokens s lim = Inr (map stored (connection_options s))"
    and "\<not> options_fit (max_field_count lim) (connection_options s) \<Longrightarrow>
      \<exists>e \<in> {FieldLineTooLong, FieldCountExceeded}. collect_connection_tokens s lim = Inl e"
proof -
  have conn: "get_all_known s KnownHeader_Connection = map field_value (filter (\<lambda>f. field_name f = ''connection'') (iter s))"
    using get_all_known_eq [OF ok, of KnownHeader_Connection] by simp
  show "options_fit (max_field_count lim) (connection_options s) \<Longrightarrow> collect_connection_tokens s lim = Inr (map stored (connection_options s))"
    "\<not> options_fit (max_field_count lim) (connection_options s) \<Longrightarrow>
      \<exists>e \<in> {FieldLineTooLong, FieldCountExceeded}. collect_connection_tokens s lim = Inl e"
    using collect_values_eq unfolding collect_connection_tokens_def conn connection_options_def by blast+
qed

lemma strip_static_eq:
  assumes ok: "section_ok s" and fit: "options_fit (max_field_count lim) (connection_options s)"
  obtains rep s1 where "strip_static_and_te s lim = Inr ((map stored (connection_options s), rep), s1)" "section_ok s1"
    "iter s1 = filter (\<lambda>f. field_name f \<notin> hop_names \<and> (field_name f = ''te'' \<longrightarrow> only_te_trailers s)) (iter s)"
    "te_trailers_kept rep = only_te_trailers s"
proof -
  note tokens = collected(1) [OF ok fit]
  have "KnownHeader_Unknown \<notin> set STATIC_STRIP" by (simp add: STATIC_STRIP_def)
  then obtain s1 n where s1: "remove_each STATIC_STRIP s 0 = (s1, n)" "section_ok s1"
    "iter s1 = filter (\<lambda>f. \<forall>P \<in> set (map not_class STATIC_STRIP). P f) (iter s)" by (rule removed_each [OF ok])
  note v1 = s1(3) [unfolded names_of_class]
  obtain s2 r where s2: "remove_known s1 KnownHeader_Te = (s2, r)" "section_ok s2"
    "iter s2 = filter (\<lambda>f. field_name f \<noteq> known_as_bytes KnownHeader_Te) (iter s1)"
    by (rule removed_class [OF s1(2), of KnownHeader_Te]) simp
  let ?te = "map field_value (filter (\<lambda>f. field_name f = ''te'') (iter s))"
  have "filter (\<lambda>f. field_name f = ''te'') (iter s1) = filter (\<lambda>f. field_name f = ''te'') (iter s)"
    unfolding v1 filter_filter by (rule filter_cong) (auto simp: hop_names_def)
  then have te: "get_unique_known s1 KnownHeader_Te = at_most_one (Suc (Suc 0)) ?te"
    using get_all_known_eq [OF s1(2), of KnownHeader_Te] by (simp add: get_unique_known_def)
  have strip: "strip_static_and_te s lim =
      (case at_most_one (Suc (Suc 0)) ?te of
         Inr None \<Rightarrow> Inr ((map stored (connection_options s), report_default\<lparr>hop_by_hop := n\<rparr>), s1)
       | Inr (Some v) \<Rightarrow>
           if eq_ignore_case (trim_ows v) ''trailers''
           then Inr ((map stored (connection_options s), report_default\<lparr>hop_by_hop := n, te_trailers_kept := True\<rparr>), s1)
           else Inr ((map stored (connection_options s), report_default\<lparr>hop_by_hop := sat_add32 n r\<rparr>), s2)
       | Inl _ \<Rightarrow> Inr ((map stored (connection_options s), report_default\<lparr>hop_by_hop := sat_add32 n r\<rparr>), s2))"
    by (simp add: strip_static_and_te_def tokens s1(1) te s2(1) Let_def split: sum.split option.split)
  have v2: "iter s2 = filter (\<lambda>f. field_name f \<notin> hop_names \<and> (field_name f = ''te'' \<longrightarrow> only_te_trailers s)) (iter s)"
    if "\<not> only_te_trailers s" using that by (simp add: s2(3) v1 conj_commute)
  have same: "iter s1 = filter (\<lambda>f. field_name f \<notin> hop_names \<and> (field_name f = ''te'' \<longrightarrow> only_te_trailers s)) (iter s)"
    if "?te = [] \<or> only_te_trailers s"
    using that unfolding v1 by (intro filter_cong) (auto simp: filter_empty_conv)
  show ?thesis
  proof (cases ?te rule: remdups_adj.cases)
    case 1
    then show ?thesis using strip same s1(2)
      by (intro that [of "report_default\<lparr>hop_by_hop := n\<rparr>" s1]) (simp_all add: at_most_one_def only_te_trailers_def report_default_def)
  next
    case (2 v)
    then have "only_te_trailers s = eq_ignore_case (trim_ows v) ''trailers''" by (simp add: only_te_trailers_def)
    then show ?thesis using strip same v2 s1(2) s2(2) 2
        that [of "report_default\<lparr>hop_by_hop := n, te_trailers_kept := True\<rparr>" s1] that [of "report_default\<lparr>hop_by_hop := sat_add32 n r\<rparr>" s2]
      by (cases "only_te_trailers s") (simp_all add: at_most_one_def report_default_def)
  next
    case (3 v w vs)
    then have "\<not> only_te_trailers s" by (simp add: only_te_trailers_def)
    then show ?thesis using strip v2 s2(2) 3
      by (intro that [of "report_default\<lparr>hop_by_hop := sat_add32 n r\<rparr>" s2]) (simp_all add: at_most_one_def report_default_def)
  qed
qed

definition forwarded_field :: "field_section \<Rightarrow> bytes \<times> bytes \<times> field_flags \<Rightarrow> bool" where
  "forwarded_field s f \<longleftrightarrow>
     field_name f \<notin> hop_names \<and> field_name f \<notin> identity_names \<and> \<not> is_reserved_prefix (field_name f) \<and>
     field_name f \<notin> set (connection_options s) \<and> (field_name f = ''te'' \<longrightarrow> only_te_trailers s)"

definition returned_field :: "field_section \<Rightarrow> bytes \<times> bytes \<times> field_flags \<Rightarrow> bool" where
  "returned_field s f \<longleftrightarrow>
     field_name f \<notin> hop_names \<and> \<not> bytes_start_with (field_name f) ''x-irontraffic-'' \<and>
     field_name f \<notin> set (connection_options s) \<and> (field_name f = ''te'' \<longrightarrow> only_te_trailers s)"

lemma strip_ingress_eq:
  assumes ok: "section_ok s" and fit: "options_fit (max_field_count lim) (connection_options s)"
  obtains rep s' where "strip_ingress s lim = Inr (rep, s')" "section_ok s'" "iter s' = filter (forwarded_field s) (iter s)"
    "te_trailers_kept rep = only_te_trailers s"
proof -
  obtain rep s1 where s1: "strip_static_and_te s lim = Inr ((map stored (connection_options s), rep), s1)" "section_ok s1"
    "iter s1 = filter (\<lambda>f. field_name f \<notin> hop_names \<and> (field_name f = ''te'' \<longrightarrow> only_te_trailers s)) (iter s)"
    "te_trailers_kept rep = only_te_trailers s"
    by (rule strip_static_eq [OF ok fit])
  have "KnownHeader_Unknown \<notin> set IDENTITY_STRIP" by (simp add: IDENTITY_STRIP_def)
  then obtain s2 n where s2: "remove_each IDENTITY_STRIP s1 0 = (s2, n)" "section_ok s2"
    "iter s2 = filter (\<lambda>f. \<forall>P \<in> set (map not_class IDENTITY_STRIP). P f) (iter s1)" by (rule removed_each [OF s1(2)])
  define s3 where "s3 = keep_only (\<lambda>f. \<not> is_reserved_prefix (field_name f)) s2"
  define s4 where "s4 = keep_only (\<lambda>f. \<not> token_names (field_name f) (map stored (connection_options s))) s3"
  have ok3: "section_ok s3" unfolding s3_def by (rule fe.edit_ok [OF s2(2)])
  have ok4: "section_ok s4" unfolding s4_def by (rule fe.edit_ok [OF ok3])
  have "iter s4 = filter (\<lambda>f. field_name f \<notin> set (connection_options s)) (iter s3)"
    using fit unfolding s4_def fe.edit_view [OF ok3] by (simp add: options_fit_def token_names_stored)
  also have "\<dots> = filter (forwarded_field s) (iter s)"
    unfolding s3_def fe.edit_view [OF s2(2)] s2(3) [unfolded names_of_class] s1(3) filter_filter forwarded_field_def
    by (rule filter_cong) auto
  finally have "iter s4 = filter (forwarded_field s) (iter s)" .
  moreover have "\<exists>rep'. strip_ingress s lim = Inr (rep', s4) \<and> te_trailers_kept rep' = te_trailers_kept rep"
    using s1(1) s2(1) by (auto simp: strip_ingress_def s3_def s4_def keep_only_def split: prod.split)
  ultimately show ?thesis using that ok4 s1(4) by auto
qed

lemma strip_response_eq:
  assumes ok: "section_ok s" and fit: "options_fit (max_field_count lim) (connection_options s)"
  obtains rep s' where "strip_response s lim = Inr (rep, s')" "section_ok s'" "iter s' = filter (returned_field s) (iter s)"
proof -
  obtain rep s1 where s1: "strip_static_and_te s lim = Inr ((map stored (connection_options s), rep), s1)" "section_ok s1"
    "iter s1 = filter (\<lambda>f. field_name f \<notin> hop_names \<and> (field_name f = ''te'' \<longrightarrow> only_te_trailers s)) (iter s)"
    by (rule strip_static_eq [OF ok fit])
  define s2 where "s2 = keep_only (\<lambda>f. \<not> list_ex (bytes_start_with (field_name f)) RESPONSE_RESERVED_PREFIXES) s1"
  define s3 where "s3 = keep_only (\<lambda>f. \<not> token_names (field_name f) (map stored (connection_options s))) s2"
  have ok2: "section_ok s2" unfolding s2_def by (rule fe.edit_ok [OF s1(2)])
  have ok3: "section_ok s3" unfolding s3_def by (rule fe.edit_ok [OF ok2])
  have "iter s3 = filter (\<lambda>f. field_name f \<notin> set (connection_options s)) (iter s2)"
    using fit unfolding s3_def fe.edit_view [OF ok2] by (simp add: options_fit_def token_names_stored)
  also have "\<dots> = filter (returned_field s) (iter s)"
    unfolding s2_def fe.edit_view [OF s1(2)] s1(3) filter_filter returned_field_def
    by (rule filter_cong) (auto simp: RESPONSE_RESERVED_PREFIXES_def)
  finally have "iter s3 = filter (returned_field s) (iter s)" .
  moreover have "\<exists>rep'. strip_response s lim = Inr (rep', s3)"
    using s1(1) by (auto simp: strip_response_def s2_def s3_def keep_only_def split: prod.split)
  ultimately show ?thesis using that ok3 by auto
qed

lemma strip_refused:
  assumes "section_ok s" and "\<not> options_fit (max_field_count lim) (connection_options s)"
  shows "\<exists>e \<in> {FieldLineTooLong, FieldCountExceeded}. strip_ingress s lim = Inl e \<and> strip_response s lim = Inl e"
  using collected(2) [OF assms] by (auto simp: strip_ingress_def strip_response_def strip_static_and_te_def)

section \<open>The contract\<close>


text \<open>A request that announces its \<^verbatim>\<open>te\<close> field in \<^verbatim>\<open>Connection\<close>, as the field requires.\<close>

definition te_section :: field_section where
  "te_section =
     \<lparr>sec_arena = ''connectionTEtetrailersaccept*'',
      sec_slots =
        [\<lparr>name_off = 0, value_off = 10, name_len = 10, value_len = 2, slot_known = KnownHeader_Connection, slot_flags = 0\<rparr>,
         \<lparr>name_off = 12, value_off = 14, name_len = 2, value_len = 8, slot_known = KnownHeader_Te, slot_flags = 0\<rparr>,
         \<lparr>name_off = 22, value_off = 28, name_len = 6, value_len = 1, slot_known = KnownHeader_Accept, slot_flags = 0\<rparr>],
      sec_mask = foldl (\<lambda>m k. or m (known_mask_bit k)) 0 [KnownHeader_Connection, KnownHeader_Te, KnownHeader_Accept]\<rparr>"

lemma te_section_ok: "section_ok te_section"
  by code_simp

lemma te_section_view: "iter te_section = [(''connection'', ''TE'', 0), (''te'', ''trailers'', 0), (''accept'', ''*'', 0)]"
  by code_simp

lemma te_section_options: "connection_options te_section = [''te'']"
  unfolding connection_options_def te_section_view by code_simp

lemma te_section_fits: "options_fit (max_field_count DEFAULT_limits) (connection_options te_section)"
  unfolding te_section_options by code_simp



end
