(* ===== verification/Http_Response.thy ===== *)
theory Http_Response
  imports Http_Framing
begin

text \<open>
  Where a response body ends (\<^verbatim>\<open>response.rs\<close>), the \<^verbatim>\<open>Expect\<close> policy and the budget of interim responses
  (\<^verbatim>\<open>expect.rs\<close>), with the declarative reading of each decision.
\<close>

section \<open>Response framing\<close>

datatype response_framing =
  ResponseFraming_Empty | ResponseFraming_Exact nat | ResponseFraming_Streamed | ResponseFraming_UntilClose

definition response_has_body :: "response_framing \<Rightarrow> bool" where
  "response_has_body f \<longleftrightarrow> f \<noteq> ResponseFraming_Empty"

fun response_known_len :: "response_framing \<Rightarrow> nat option" where
  "response_known_len ResponseFraming_Empty = Some 0"
| "response_known_len (ResponseFraming_Exact len) = Some len"
| "response_known_len ResponseFraming_Streamed = None"
| "response_known_len ResponseFraming_UntilClose = None"

definition forbids_reuse :: "response_framing \<Rightarrow> bool" where
  "forbids_reuse f \<longleftrightarrow> f = ResponseFraming_UntilClose"

definition declared_len :: "field_section \<Rightarrow> reject_reason + nat option" where
  "declared_len fs =
     (case get_unique_known fs KnownHeader_ContentLength of
        Inl _ \<Rightarrow> Inl ContentLengthDuplicate
      | Inr None \<Rightarrow> Inr None
      | Inr (Some v) \<Rightarrow> and_then (parse_content_length (trim_ows v)) (\<lambda>n. Inr (Some n)))"

definition resolve_response_framing ::
  "status_code \<Rightarrow> http_method \<Rightarrow> wire_version \<Rightarrow> field_section \<Rightarrow> other_codings \<Rightarrow> reject_reason + response_framing" where
  "resolve_response_framing st request_method version fs policy =
     (let cl_count = count_known fs KnownHeader_ContentLength;
          te_present = contains_known fs KnownHeader_TransferEncoding
      in
      if cl_count > 1 then Inl ContentLengthDuplicate
      else if te_present \<and> cl_count = 1 then Inl TransferEncodingWithContentLength
      else if is_interim st \<or> st = 204 \<or> st = 304 then Inr ResponseFraming_Empty
      else if is_head request_method then Inr ResponseFraming_Empty
      else if is_connect request_method \<and> 200 \<le> st \<and> st < 300 then Inr ResponseFraming_Empty
      else if is_multiplexed version then
        (if te_present then Inl ConnectionSpecificField
         else and_then (declared_len fs) (\<lambda>d. Inr (case d of
             Some len \<Rightarrow> if len = 0 then ResponseFraming_Empty else ResponseFraming_Exact len
           | None \<Rightarrow> ResponseFraming_Streamed)))
      else if te_present then
        (if version = Http10 then Inl TransferEncodingOnHttp10
         else and_then (tokenize_transfer_encoding (get_all_known fs KnownHeader_TransferEncoding) policy)
           (\<lambda>_. Inr ResponseFraming_Streamed))
      else and_then (declared_len fs) (\<lambda>d. Inr (case d of
          Some len \<Rightarrow> if len = 0 then ResponseFraming_Empty else ResponseFraming_Exact len
        | None \<Rightarrow> ResponseFraming_UntilClose)))"

section \<open>The reading\<close>

definition bodyless :: "status_code \<Rightarrow> http_method \<Rightarrow> bool" where
  "bodyless st m \<longleftrightarrow>
     is_interim st \<or> st = 204 \<or> st = 304 \<or> m = Method_Head \<or> m = Method_Connect \<and> 200 \<le> st \<and> st < 300"

definition response_framed ::
  "status_code \<Rightarrow> http_method \<Rightarrow> wire_version \<Rightarrow> bytes list \<Rightarrow> bytes list \<Rightarrow> other_codings \<Rightarrow> response_framing \<Rightarrow> bool" where
  "response_framed st m version cls tes policy f \<longleftrightarrow>
     length cls \<le> 1 \<and> (tes = [] \<or> cls = []) \<and>
     (if bodyless st m then f = ResponseFraming_Empty
      else if tes \<noteq> [] then version = Http11 \<and> chunked_last policy (codings tes) \<and> f = ResponseFraming_Streamed
      else (case cls of
          [] \<Rightarrow> f = (if is_multiplexed version then ResponseFraming_Streamed else ResponseFraming_UntilClose)
        | v # _ \<Rightarrow> \<exists>n \<le> u64_max. denotes_length (trim_ows v) n \<and>
            f = (if n = 0 then ResponseFraming_Empty else ResponseFraming_Exact n)))"

lemma framing_fields:
  assumes "section_ok s"
  shows "count_known s KnownHeader_ContentLength = length (get_all s ''content-length'')"
    "get_unique_known s KnownHeader_ContentLength = at_most_one (length ''content-length'') (get_all s ''content-length'')"
    "contains_known s KnownHeader_TransferEncoding \<longleftrightarrow> get_all s ''transfer-encoding'' \<noteq> []"
    "get_all_known s KnownHeader_TransferEncoding = get_all s ''transfer-encoding''"
  using assms by (auto simp: count_known_eq get_unique_known_def get_all_known_eq get_all_eq contains_known_eq filter_empty_conv)

lemma resolve_response_framed:
  assumes "section_ok s"
  shows "resolve_response_framing st m version s policy = Inr f \<longleftrightarrow>
    response_framed st m version (get_all s ''content-length'') (get_all s ''transfer-encoding'') policy f"
proof -
  let ?cls = "get_all s ''content-length''" and ?tes = "get_all s ''transfer-encoding''"
  have v11: "\<not> is_multiplexed version \<and> version \<noteq> Http10 \<longleftrightarrow> version = Http11"
    by (cases version) (auto simp: is_multiplexed_def)
  have body: "bodyless st m \<longleftrightarrow> (is_interim st \<or> st = 204 \<or> st = 304) \<or> is_head m \<or> is_connect m \<and> 200 \<le> st \<and> st < 300"
    by (auto simp: bodyless_def is_head_def is_connect_def)
  have d: "declared_len s = Inr d \<longleftrightarrow>
      (case ?cls of [] \<Rightarrow> d = None | [v] \<Rightarrow> (\<exists>n. d = Some n \<and> denotes_length (trim_ows v) n) | _ \<Rightarrow> False)" for d
    unfolding declared_len_def framing_fields [OF assms]
    by (auto simp: at_most_one_def and_then_Inr_iff parse_content_length_ok split: list.splits)
  consider (many) "length ?cls > 1" | (both) "?tes \<noteq> []" "length ?cls = 1" | (body) "bodyless st m" "length ?cls \<le> 1" "?tes = [] \<or> ?cls = []"
    | (te) "\<not> bodyless st m" "?tes \<noteq> []" "?cls = []" | (cl) "\<not> bodyless st m" "?tes = []" "length ?cls \<le> 1"
    by (cases ?cls) fastforce+
  then show ?thesis
  proof cases
    case te
    then show ?thesis
      using v11 tokenize_ok [of ?tes policy] unfolding resolve_response_framing_def framing_fields [OF assms] Let_def response_framed_def body
      by (auto simp: and_then_Inr_iff)
  next
    case cl
    then show ?thesis
      unfolding resolve_response_framing_def framing_fields [OF assms] Let_def response_framed_def body
      by (cases ?cls) (auto simp: and_then_Inr_iff d denotes_length_def)
  qed (auto simp: resolve_response_framing_def Let_def framing_fields [OF assms] response_framed_def body)
qed

section \<open>Expectations and interim responses\<close>

datatype expect_action = ExpectAction_None | ExpectAction_ForwardToUpstream | ExpectAction_AnswerLocally

definition check_expect :: "field_section \<Rightarrow> bool \<Rightarrow> reject_reason + expect_action" where
  "check_expect fs will_buffer =
     and_then (map_err (\<lambda>_. ExpectUnsupported) (get_unique_known fs KnownHeader_Expect)) (\<lambda>v.
       case v of
         None \<Rightarrow> Inr ExpectAction_None
       | Some v \<Rightarrow>
           if \<not> eq_ignore_case (trim_ows v) ''100-continue'' then Inl ExpectUnsupported
           else Inr (if will_buffer then ExpectAction_AnswerLocally else ExpectAction_ForwardToUpstream))"

record interim_budget =
  ib_count :: nat
  ib_bytes :: nat
  ib_max_count :: nat
  ib_max_bytes :: nat

definition interim_new :: "http_limits \<Rightarrow> interim_budget" where
  "interim_new limits =
     \<lparr>ib_count = 0, ib_bytes = 0, ib_max_count = max_interim_responses limits, ib_max_bytes = max_interim_bytes limits\<rparr>"

definition interim_charge :: "interim_budget \<Rightarrow> nat \<Rightarrow> (reject_reason + unit) \<times> interim_budget" where
  "interim_charge b head_bytes =
     (let b1 = b\<lparr>ib_count := sat_add32 (ib_count b) 1\<rparr> in
      if ib_count b1 > ib_max_count b1 then (Inl InterimResponseCountExceeded, b1)
      else
        (let b2 = b1\<lparr>ib_bytes := sat_add64 (ib_bytes b1) (min u64_max head_bytes)\<rparr> in
         if ib_bytes b2 > ib_max_bytes b2 then (Inl InterimResponseBytesExceeded, b2) else (Inr (), b2)))"

definition may_relay :: "wire_version \<Rightarrow> bool" where
  "may_relay client_version \<longleftrightarrow> client_version \<noteq> Http10"

lemma check_expect_iff:
  assumes "section_ok s"
  shows "check_expect s will_buffer = Inr a \<longleftrightarrow>
    (case get_all s ''expect'' of
       [] \<Rightarrow> a = ExpectAction_None
     | [v] \<Rightarrow> eq_ignore_case (trim_ows v) ''100-continue'' \<and>
         a = (if will_buffer then ExpectAction_AnswerLocally else ExpectAction_ForwardToUpstream)
     | _ \<Rightarrow> False)"
proof -
  have "get_unique_known s KnownHeader_Expect = at_most_one (length ''expect'') (get_all s ''expect'')"
    using assms by (simp add: get_unique_known_def get_all_known_eq get_all_eq)
  then show ?thesis by (auto simp: check_expect_def at_most_one_def split: list.splits)
qed

text \<open>The interim responses of one request, charged one after the other.\<close>

fun interim_charges :: "interim_budget \<Rightarrow> nat list \<Rightarrow> (reject_reason + unit) \<times> interim_budget" where
  "interim_charges b [] = (Inr (), b)"
| "interim_charges b (n # ns) = (case interim_charge b n of (Inl e, b') \<Rightarrow> (Inl e, b') | (Inr _, b') \<Rightarrow> interim_charges b' ns)"

lemma interim_charges_iff:
  assumes "ib_max_count b < u32_max" and "ib_max_bytes b < u64_max" and "ib_count b \<le> ib_max_count b" and "ib_bytes b \<le> ib_max_bytes b"
  shows "fst (interim_charges b ns) = Inr () \<longleftrightarrow> ib_count b + length ns \<le> ib_max_count b \<and> ib_bytes b + sum_list ns \<le> ib_max_bytes b"
  using assms
proof (induction ns arbitrary: b)
  case (Cons n ns)
  let ?b = "b\<lparr>ib_count := Suc (ib_count b), ib_bytes := ib_bytes b + n\<rparr>"
  show ?case
  proof (cases "Suc (ib_count b) \<le> ib_max_count b \<and> ib_bytes b + n \<le> ib_max_bytes b")
    case True
    then have "interim_charge b n = (Inr (), ?b)"
      using Cons.prems by (simp add: interim_charge_def sat_add32_def sat_add64_def Let_def)
    then show ?thesis using Cons.IH [of ?b] Cons.prems True by auto
  next
    case False
    then have "fst (interim_charge b n) \<noteq> Inr ()"
      using Cons.prems by (auto simp: interim_charge_def sat_add32_def sat_add64_def Let_def)
    then show ?thesis using False by (auto split: prod.split sum.split)
  qed
qed simp

section \<open>The contract\<close>

text \<open>
  C13. The response framing decision is the declarative one. For every well-formed header section, status,
  request method, version and policy a response is framed this way exactly when: it has at most one
  content-length and not both length fields; it is empty if it answers HEAD, is a 1xx, 204 or 304, or a 2xx to
  CONNECT; otherwise chunked on HTTP/1.1 if its codings end in the one \<^verbatim>\<open>chunked\<close>, of the declared length if
  that is a number that fits 64 bits, and with neither field delimited by the end of the stream on a
  multiplexed connection and by the close of the connection, which then must not be reused, on HTTP/1.
\<close>

theorem response_framing_exact:
  assumes "section_ok s"
  shows "(resolve_response_framing st m version s policy = Inr f \<longleftrightarrow>
      response_framed st m version (get_all s ''content-length'') (get_all s ''transfer-encoding'') policy f) \<and>
    (resolve_response_framing st m version s policy = Inr f \<and> forbids_reuse f \<longrightarrow>
      \<not> is_multiplexed version \<and> get_all s ''content-length'' = [] \<and> get_all s ''transfer-encoding'' = [] \<and> \<not> bodyless st m)"
  unfolding resolve_response_framed [OF assms]
  by (auto simp: response_framed_def forbids_reuse_def split: if_splits list.splits)

theorem response_framing_exact_witness:
  "resolve_response_framing 200 Method_Get Http11 demo_section OtherCodings_Reject = Inr (ResponseFraming_Exact 42)"
proof -
  have "get_all demo_section ''content-length'' = [''42'']" "get_all demo_section ''transfer-encoding'' = []"
    by code_simp+
  moreover have "trim_ows ''42'' = ''42''" by code_simp
  moreover have "denotes_length ''42'' 42" by code_simp
  moreover have "section_ok demo_section" using reachable_section_ok demo_reachable by blast
  ultimately have "response_framed 200 Method_Get Http11 (get_all demo_section ''content-length'') (get_all demo_section ''transfer-encoding'')
      OtherCodings_Reject (ResponseFraming_Exact 42)"
    unfolding response_framed_def by (simp add: bodyless_def is_interim_def) (rule exI [of _ 42], simp add: u64_max_def)
  then show ?thesis
    using response_framing_exact [OF \<open>section_ok demo_section\<close>, THEN conjunct1] by blast
qed

end
