(* ===== verification/Rust_Net.thy ===== *)
theory Rust_Net
  imports Rust_Str Rust_Bytes "HOL-Library.Word"
begin

text \<open>
  What the sources use of \<^verbatim>\<open>std::net\<close>: addresses of both families, socket addresses, and the strict text parsers
  behind \<^verbatim>\<open>Ipv4Addr::from_str\<close> and \<^verbatim>\<open>Ipv6Addr::from_str\<close>, with \<^verbatim>\<open>u16::from_str\<close>. A parser step returns the
  unread rest, and failing leaves the caller's input untouched, which is how the library backtracks.
\<close>

section \<open>Addresses\<close>

type_synonym ipv4_addr = "8 word list"
type_synonym ipv6_addr = "16 word list"

datatype ip_addr = IpAddr_V4 ipv4_addr | IpAddr_V6 ipv6_addr

fun ip_ok :: "ip_addr \<Rightarrow> bool" where
  "ip_ok (IpAddr_V4 octets) \<longleftrightarrow> length octets = 4"
| "ip_ok (IpAddr_V6 segments) \<longleftrightarrow> length segments = 8"

fun is_ipv6 :: "ip_addr \<Rightarrow> bool" where
  "is_ipv6 (IpAddr_V4 _) = False"
| "is_ipv6 (IpAddr_V6 _) = True"

definition v6_octets :: "ipv6_addr \<Rightarrow> 8 word list" where
  "v6_octets segments = concat (map (\<lambda>g. [ucast (drop_bit 8 g), ucast g]) segments)"

definition be_segment :: "8 word \<Rightarrow> 8 word \<Rightarrow> 16 word" where
  "be_segment hi lo = word_of_nat (unat hi * 256 + unat lo)"

record socket_addr =
  sa_ip :: ip_addr
  sa_port :: nat

definition socket_ok :: "socket_addr \<Rightarrow> bool" where
  "socket_ok a \<longleftrightarrow> ip_ok (sa_ip a) \<and> sa_port a \<le> u16_max"

section \<open>Reading numbers\<close>

definition to_digit :: "nat \<Rightarrow> byte \<Rightarrow> nat option" where
  "to_digit radix b =
     (let n = byte_val b;
          d = (if 48 \<le> n \<and> n \<le> 57 then n - 48
               else if 97 \<le> n \<and> n \<le> 122 then n - 87
               else if 65 \<le> n \<and> n \<le> 90 then n - 55 else 36)
      in if d < radix then Some d else None)"

fun read_digits :: "nat \<Rightarrow> nat \<Rightarrow> nat \<Rightarrow> nat \<Rightarrow> nat \<Rightarrow> bytes \<Rightarrow> (nat \<times> nat \<times> bytes) option" where
  "read_digits radix bound max_digits v n [] = Some (v, n, [])"
| "read_digits radix bound max_digits v n (b # bs) =
     (case to_digit radix b of
        None \<Rightarrow> Some (v, n, b # bs)
      | Some d \<Rightarrow>
          if v * radix + d > bound \<or> Suc n > max_digits then None
          else read_digits radix bound max_digits (v * radix + d) (Suc n) bs)"

definition read_number :: "nat \<Rightarrow> nat \<Rightarrow> nat \<Rightarrow> bool \<Rightarrow> bytes \<Rightarrow> (nat \<times> bytes) option" where
  "read_number radix bound max_digits allow_zero_prefix s =
     (case read_digits radix bound max_digits 0 0 s of
        None \<Rightarrow> None
      | Some (v, n, rest) \<Rightarrow>
          if n = 0 then None
          else if \<not> allow_zero_prefix \<and> get s 0 = Some CHR ''0'' \<and> n > 1 then None
          else Some (v, rest))"

definition read_given_char :: "byte \<Rightarrow> bytes \<Rightarrow> bytes option" where
  "read_given_char c s = (case s of [] \<Rightarrow> None | b # bs \<Rightarrow> if b = c then Some bs else None)"

definition read_separator :: "byte \<Rightarrow> nat \<Rightarrow> (bytes \<Rightarrow> ('a \<times> bytes) option) \<Rightarrow> bytes \<Rightarrow> ('a \<times> bytes) option" where
  "read_separator sep i inner s =
     (if i > 0 then (case read_given_char sep s of None \<Rightarrow> None | Some s' \<Rightarrow> inner s') else inner s)"

section \<open>Reading addresses\<close>

text \<open>The second argument counts the slots that are still to be filled.\<close>

fun read_octets :: "nat \<Rightarrow> nat \<Rightarrow> bytes \<Rightarrow> (8 word list \<times> bytes) option" where
  "read_octets i 0 s = Some ([], s)"
| "read_octets i (Suc k) s =
     (case read_separator CHR ''.'' i (read_number 10 255 3 False) s of
        None \<Rightarrow> None
      | Some (v, s') \<Rightarrow>
          (case read_octets (Suc i) k s' of
             None \<Rightarrow> None
           | Some (vs, s'') \<Rightarrow> Some (word_of_nat v # vs, s'')))"

definition read_ipv4_addr :: "bytes \<Rightarrow> (ipv4_addr \<times> bytes) option" where
  "read_ipv4_addr s = read_octets 0 4 s"

fun read_groups :: "nat \<Rightarrow> nat \<Rightarrow> bytes \<Rightarrow> 16 word list \<times> bool \<times> bytes" where
  "read_groups i 0 s = ([], False, s)"
| "read_groups i (Suc k) s =
     (case (if k > 0 then read_separator CHR '':'' i read_ipv4_addr s else None) of
        Some (v4, s') \<Rightarrow> ([be_segment (v4 ! 0) (v4 ! 1), be_segment (v4 ! 2) (v4 ! 3)], True, s')
      | None \<Rightarrow>
          (case read_separator CHR '':'' i (read_number 16 65535 4 True) s of
             None \<Rightarrow> ([], False, s)
           | Some (g, s') \<Rightarrow>
               (case read_groups (Suc i) k s' of (gs, v4, s'') \<Rightarrow> (word_of_nat g # gs, v4, s''))))"

definition read_ipv6_addr :: "bytes \<Rightarrow> (ipv6_addr \<times> bytes) option" where
  "read_ipv6_addr s =
     (case read_groups 0 8 s of
        (head, head_ipv4, s1) \<Rightarrow>
          if length head = 8 then Some (head, s1)
          else if head_ipv4 then None
          else
            (case read_given_char CHR '':'' s1 of
               None \<Rightarrow> None
             | Some s2 \<Rightarrow>
                 (case read_given_char CHR '':'' s2 of
                    None \<Rightarrow> None
                  | Some s3 \<Rightarrow>
                      (case read_groups 0 (8 - (length head + 1)) s3 of
                         (tail, _, s4) \<Rightarrow> Some (head @ replicate (8 - length head - length tail) 0 @ tail, s4)))))"

definition parse_with :: "(bytes \<Rightarrow> ('a \<times> bytes) option) \<Rightarrow> bytes \<Rightarrow> 'a option" where
  "parse_with inner s = (case inner s of Some (v, []) \<Rightarrow> Some v | _ \<Rightarrow> None)"

definition ipv4_from_str :: "bytes \<Rightarrow> ipv4_addr option" where
  "ipv4_from_str s = (if length s > 15 then None else parse_with read_ipv4_addr s)"

definition ipv6_from_str :: "bytes \<Rightarrow> ipv6_addr option" where
  "ipv6_from_str s = parse_with read_ipv6_addr s"

text \<open>\<^verbatim>\<open>u16::from_str\<close> accepts one leading plus sign.\<close>

definition u16_from_str :: "bytes \<Rightarrow> nat option" where
  "u16_from_str s =
     (let ds = (if get s 0 = Some CHR ''+'' then drop 1 s else s)
      in case parse_digits ds of None \<Rightarrow> None | Some v \<Rightarrow> if v \<le> u16_max then Some v else None)"

section \<open>Facts about the readers\<close>

lemma read_octets_length: "read_octets i k s = Some (vs, s') \<Longrightarrow> length vs = k"
  by (induction i k s arbitrary: vs s' rule: read_octets.induct) (auto split: option.splits prod.splits)

lemma parse_with_Some_iff: "parse_with inner s = Some v \<longleftrightarrow> inner s = Some (v, [])"
  by (auto simp: parse_with_def split: option.splits list.splits)

lemma ipv4_from_str_length: "ipv4_from_str s = Some a \<Longrightarrow> length a = 4"
  by (auto simp: ipv4_from_str_def parse_with_Some_iff read_ipv4_addr_def dest: read_octets_length split: if_splits)

lemma read_groups_length: "read_groups i k s = (gs, v4, s') \<Longrightarrow> length gs \<le> k"
proof (induction i k s arbitrary: gs v4 s' rule: read_groups.induct)
  case (2 i k s)
  show ?case using "2.prems" "2.IH" by (auto split: option.splits prod.splits if_splits)
qed simp

lemma read_ipv6_length:
  assumes "read_ipv6_addr s = Some (a, s')"
  shows "length a = 8"
proof -
  obtain head v4 s1 where h: "read_groups 0 8 s = (head, v4, s1)" by (rule prod_cases3)
  have le: "length head \<le> 8" using read_groups_length [OF h] .
  have "length head + (8 - length head - length tail + length tail) = 8" if "read_groups 0 (8 - (length head + 1)) s3 = (tail, b, s4)" "length head \<noteq> 8" for tail b s3 s4
    using read_groups_length [OF that(1)] that(2) le by linarith
  then show ?thesis using assms h unfolding read_ipv6_addr_def by (auto split: if_splits option.splits prod.splits)
qed

lemma ipv6_from_str_length: "ipv6_from_str s = Some a \<Longrightarrow> length a = 8"
  by (auto simp: ipv6_from_str_def parse_with_Some_iff dest: read_ipv6_length)

text \<open>Without a dot no IPv4 address can be read.\<close>

lemma read_digits_suffix: "read_digits radix bound m v n s = Some (v', n', rest) \<Longrightarrow> \<exists>p. s = p @ rest"
proof (induction radix bound m v n s arbitrary: v' n' rest rule: read_digits.induct)
  case (2 radix bound m v n b bs)
  show ?case
  proof (cases "to_digit radix b")
    case None
    then show ?thesis using "2.prems" by simp
  next
    case (Some d)
    then have "\<exists>p. bs = p @ rest" using 2 by (auto split: if_splits)
    then show ?thesis by (metis append_Cons)
  qed
qed simp

lemma read_number_suffix: "read_number radix bound m z s = Some (v, rest) \<Longrightarrow> \<exists>p. s = p @ rest"
  by (auto simp: read_number_def split: option.splits prod.splits if_splits dest: read_digits_suffix)

lemma read_ipv4_needs_dot: "CHR ''.'' \<notin> set s \<Longrightarrow> read_ipv4_addr s = None"
proof -
  assume nd: "CHR ''.'' \<notin> set s"
  have no: "read_separator CHR ''.'' (Suc i) inner t = None" if "CHR ''.'' \<notin> set t" for i t and inner :: "bytes \<Rightarrow> (nat \<times> bytes) option"
    using that by (cases t) (auto simp: read_separator_def read_given_char_def)
  have "CHR ''.'' \<notin> set t" if "read_number 10 255 3 False s = Some (v, t)" for v t
    using read_number_suffix [OF that] nd by auto
  then show ?thesis
    unfolding read_ipv4_addr_def numeral_eq_Suc pred_numeral_simps
    by (auto simp: read_separator_def [of _ 0] no numeral_eq_Suc split: option.split)
qed

end
