(* ===== verification/Http_Forwarded.thy ===== *)
theory Http_Forwarded
  imports Http_Framing Http_Authority Rust_Net
begin

text \<open>
  The forwarding chain (\<^verbatim>\<open>forwarded.rs\<close>): the splitter that respects quoted strings, the parameters of one
  element, node names, and the bounded parse of every \<^verbatim>\<open>Forwarded\<close>, \<^verbatim>\<open>X-Forwarded-For\<close> and \<^verbatim>\<open>X-Forwarded-Proto\<close>
  line into one list of claims. Parsing a chain returns the caller's buffer beside the result.
\<close>

section \<open>Claims\<close>

datatype node_name =
  NodeName_Addr ip_addr "nat option" | NodeName_Unknown | NodeName_Obfuscated | NodeName_Absent

fun node_addr :: "node_name \<Rightarrow> ip_addr option" where
  "node_addr (NodeName_Addr a _) = Some a"
| "node_addr NodeName_Unknown = None"
| "node_addr NodeName_Obfuscated = None"
| "node_addr NodeName_Absent = None"

definition terminates_walk :: "node_name \<Rightarrow> bool" where
  "terminates_walk n \<longleftrightarrow> \<not> (case n of NodeName_Addr _ _ \<Rightarrow> True | _ \<Rightarrow> False)"

record forwarded_element =
  fe_node :: node_name
  fe_proto :: "scheme option"
  fe_from_xff :: bool

record forwarded_chain =
  fc_elements :: "forwarded_element list"
  fc_host_claim :: "(nat \<times> nat) option"
  fc_host_buf :: bytes
  fc_bytes :: nat

definition chain_len :: "forwarded_chain \<Rightarrow> nat" where
  "chain_len c = length (fc_elements c)"

definition chain_is_empty :: "forwarded_chain \<Rightarrow> bool" where
  "chain_is_empty c \<longleftrightarrow> fc_elements c = []"

definition host_bytes :: "bytes \<Rightarrow> nat \<Rightarrow> nat \<Rightarrow> bytes option" where
  "host_bytes buf offset len = (if offset + len \<le> usize_max then get_range buf offset (offset + len) else None)"

definition chain_host_claim :: "forwarded_chain \<Rightarrow> bytes option" where
  "chain_host_claim c =
     (case fc_host_claim c of None \<Rightarrow> None | Some (offset, len) \<Rightarrow> host_bytes (fc_host_buf c) offset len)"

section \<open>Splitting outside quoted strings\<close>

record top_level_split =
  tl_rest :: bytes
  tl_delim :: byte
  tl_finished :: bool

definition split_new :: "bytes \<Rightarrow> byte \<Rightarrow> top_level_split" where
  "split_new input delim = \<lparr>tl_rest = input, tl_delim = delim, tl_finished = False\<rparr>"

fun split_scan :: "byte \<Rightarrow> bool \<Rightarrow> bool \<Rightarrow> nat \<Rightarrow> bytes \<Rightarrow> nat option" where
  "split_scan delim in_quotes escaped idx [] = None"
| "split_scan delim in_quotes escaped idx (b # bs) =
     (if escaped then split_scan delim in_quotes False (Suc idx) bs
      else if in_quotes then
        (if b = BSLASH then split_scan delim True True (Suc idx) bs
         else if b = DQUOTE then split_scan delim False False (Suc idx) bs
         else split_scan delim True False (Suc idx) bs)
      else if b = DQUOTE then split_scan delim True False (Suc idx) bs
      else if b = delim then Some idx
      else split_scan delim False False (Suc idx) bs)"

definition split_next :: "top_level_split \<Rightarrow> bytes option \<times> top_level_split" where
  "split_next st =
     (if tl_finished st then (None, st)
      else
        (case split_scan (tl_delim st) False False 0 (tl_rest st) of
           Some idx \<Rightarrow>
             (Some (case get_range (tl_rest st) 0 idx of Some p \<Rightarrow> p | None \<Rightarrow> tl_rest st),
              st\<lparr>tl_rest := (case get_from (tl_rest st) (sat_add idx 1) of Some r \<Rightarrow> r | None \<Rightarrow> [])\<rparr>)
         | None \<Rightarrow> (Some (tl_rest st), st\<lparr>tl_finished := True\<rparr>)))"

lemma split_scan_less: "split_scan d q e idx bs = Some k \<Longrightarrow> idx \<le> k \<and> k < idx + length bs"
proof (induction d q e idx bs rule: split_scan.induct)
  case (2 d q e idx b bs)
  have "idx \<le> k \<and> k < idx + length (b # bs)" if "Suc idx \<le> k \<and> k < Suc idx + length bs" using that by auto
  then show ?case using 2 by (auto split: if_splits)
qed simp

definition split_left :: "top_level_split \<Rightarrow> nat" where
  "split_left st = (if tl_finished st then 0 else Suc (length (tl_rest st)))"

lemma split_next_left:
  assumes "split_next st = (Some p, st')"
  shows "split_left st' < split_left st"
proof (cases "split_scan (tl_delim st) False False 0 (tl_rest st)")
  case None
  then show ?thesis using assms by (auto simp: split_next_def split_left_def split: if_splits)
next
  case (Some k)
  have "k < length (tl_rest st)" using split_scan_less [OF Some] by simp
  then show ?thesis
    using assms Some by (auto simp: split_next_def split_left_def get_from_def sat_add_def usize_max_def split: if_splits)
qed

function split_items :: "top_level_split \<Rightarrow> bytes list" where
  "split_items st = (case split_next st of (None, _) \<Rightarrow> [] | (Some p, st') \<Rightarrow> p # split_items st')"
  by pat_completeness auto
termination
  by (relation "measure split_left") (simp_all, metis split_next_left)

declare split_items.simps [simp del]

definition split_top :: "byte \<Rightarrow> bytes \<Rightarrow> bytes list" where
  "split_top delim input = split_items (split_new input delim)"

section \<open>Quoted values\<close>

fun unescape_loop :: "bool \<Rightarrow> bytes \<Rightarrow> bytes \<Rightarrow> bytes option" where
  "unescape_loop escaped buf [] = Some buf"
| "unescape_loop escaped buf (b # bs) =
     (if \<not> escaped \<and> b = BSLASH then unescape_loop True buf bs
      else if length buf < 64 then unescape_loop False (buf @ [b]) bs
      else None)"

text \<open>The written part of the fixed buffer of 64 bytes, or None when the text does not fit.\<close>

definition unescape_into :: "bytes \<Rightarrow> bytes option" where
  "unescape_into interior = unescape_loop False [] interior"

definition quoted_interior :: "bytes \<Rightarrow> bytes" where
  "quoted_interior raw = slice_or_empty raw 1 (length raw - 1)"

definition is_quoted :: "bytes \<Rightarrow> bool" where
  "is_quoted raw \<longleftrightarrow> length raw \<ge> 2 \<and> get raw 0 = Some DQUOTE \<and> last raw = DQUOTE"

fun write_interior :: "bool \<Rightarrow> bytes \<Rightarrow> bytes \<Rightarrow> bytes" where
  "write_interior escaped [] out = out"
| "write_interior escaped (b # bs) out =
     (if \<not> escaped \<and> b = BSLASH then write_interior True bs out
      else write_interior False bs (out @ [b]))"

definition write_unquoted :: "bytes \<Rightarrow> bytes \<Rightarrow> bytes" where
  "write_unquoted raw out = (if is_quoted raw then write_interior False (quoted_interior raw) out else out @ raw)"

section \<open>Node names and schemes\<close>

definition parse_v4 :: "bytes \<Rightarrow> ipv4_addr option" where
  "parse_v4 b = (if utf8_valid b then ipv4_from_str b else None)"

definition parse_v6 :: "bytes \<Rightarrow> ipv6_addr option" where
  "parse_v6 b = (if utf8_valid b then ipv6_from_str b else None)"

definition parse_node_port :: "bytes \<Rightarrow> nat option" where
  "parse_node_port b = (if utf8_valid b then u16_from_str b else None)"

definition normalize_port :: "nat \<Rightarrow> nat option" where
  "normalize_port p = (if p = 0 then None else Some p)"

definition slice_after :: "bytes \<Rightarrow> nat \<Rightarrow> bytes" where
  "slice_after v n = (case get_from v n of Some r \<Rightarrow> r | None \<Rightarrow> [])"

definition classify_unquoted :: "bytes \<Rightarrow> node_name" where
  "classify_unquoted v =
     (if eq_ignore_case v ''unknown'' then NodeName_Unknown
      else if get v 0 = Some CHR ''_'' then NodeName_Obfuscated
      else if get v 0 = Some CHR ''['' then
        (case position (\<lambda>b. b = CHR '']'') v of
           None \<Rightarrow> NodeName_Unknown
         | Some close \<Rightarrow>
             (case parse_v6 (slice_or_empty v 1 close) of
                None \<Rightarrow> NodeName_Unknown
              | Some v6 \<Rightarrow>
                  (let after = slice_after v (sat_add close 1)
                   in if after = [] then NodeName_Addr (IpAddr_V6 v6) None
                      else if get after 0 \<noteq> Some CHR '':'' then NodeName_Unknown
                      else (case parse_node_port (slice_after after 1) of
                          Some p \<Rightarrow> NodeName_Addr (IpAddr_V6 v6) (normalize_port p)
                        | None \<Rightarrow> NodeName_Unknown))))
      else
        (let colon_count = length (filter (\<lambda>b. b = CHR '':'') v)
         in if colon_count = 0 then
              (case parse_v4 v of Some v4 \<Rightarrow> NodeName_Addr (IpAddr_V4 v4) None | None \<Rightarrow> NodeName_Unknown)
            else if colon_count = 1 then
              (case position (\<lambda>b. b = CHR '':'') v of
                 None \<Rightarrow> NodeName_Unknown
               | Some pos \<Rightarrow>
                   (case (parse_v4 (slice_or_empty v 0 pos), parse_node_port (slice_after v (sat_add pos 1))) of
                      (Some v4, Some p) \<Rightarrow> NodeName_Addr (IpAddr_V4 v4) (normalize_port p)
                    | _ \<Rightarrow> NodeName_Unknown))
            else NodeName_Unknown))"

definition parse_node_name :: "bytes \<Rightarrow> node_name" where
  "parse_node_name raw =
     (if get raw 0 = Some DQUOTE then
        (if length raw < 2 \<or> last raw \<noteq> DQUOTE then NodeName_Unknown
         else (case unescape_into (quoted_interior raw) of
             Some v \<Rightarrow> classify_unquoted v
           | None \<Rightarrow> NodeName_Unknown))
      else classify_unquoted raw)"

definition value_matches_scheme :: "bytes \<Rightarrow> scheme option" where
  "value_matches_scheme v =
     (if eq_ignore_case v ''http'' then Some Scheme_Http
      else if eq_ignore_case v ''https'' then Some Scheme_Https else None)"

definition parse_proto :: "bytes \<Rightarrow> scheme option" where
  "parse_proto raw =
     (if is_quoted raw then
        (case unescape_into (quoted_interior raw) of Some v \<Rightarrow> value_matches_scheme v | None \<Rightarrow> None)
      else value_matches_scheme raw)"

section \<open>One element\<close>

record element_state =
  es_node :: node_name
  es_proto :: "scheme option"
  es_host_raw :: "bytes option"
  es_seen_for :: bool
  es_seen_proto :: bool
  es_seen_host :: bool
  es_seen_by :: bool

definition element_start :: element_state where
  "element_start = \<lparr>es_node = NodeName_Absent, es_proto = None, es_host_raw = None, es_seen_for = False,
     es_seen_proto = False, es_seen_host = False, es_seen_by = False\<rparr>"

definition element_pair :: "bytes \<Rightarrow> element_state \<Rightarrow> reject_reason + element_state" where
  "element_pair raw_pair es =
     (let pair = trim_ows raw_pair
      in and_then (ok_or (position (\<lambda>b. b = CHR ''='') pair) ForwardedSyntax) (\<lambda>eq_pos.
         let name = trim_ows (slice_or_empty pair 0 eq_pos);
             val = trim_ows (slice_after pair (sat_add eq_pos 1));
             name_lower = map to_ascii_lowercase name
         in if length name > 16 then Inr es
            else if name_lower = ''for'' then
              (if es_seen_for es then Inl ForwardedDuplicateParam
               else Inr (es\<lparr>es_seen_for := True, es_node := parse_node_name val\<rparr>))
            else if name_lower = ''proto'' then
              (if es_seen_proto es then Inl ForwardedDuplicateParam
               else Inr (es\<lparr>es_seen_proto := True, es_proto := parse_proto val\<rparr>))
            else if name_lower = ''host'' then
              (if es_seen_host es then Inl ForwardedDuplicateParam
               else Inr (es\<lparr>es_seen_host := True, es_host_raw := Some val\<rparr>))
            else if name_lower = ''by'' then
              (if es_seen_by es then Inl ForwardedDuplicateParam else Inr (es\<lparr>es_seen_by := True\<rparr>))
            else Inr es))"

fun element_pairs :: "bytes list \<Rightarrow> element_state \<Rightarrow> reject_reason + element_state" where
  "element_pairs [] es = Inr es"
| "element_pairs (p # ps) es = and_then (element_pair p es) (element_pairs ps)"

definition parse_element :: "bytes \<Rightarrow> reject_reason + node_name \<times> scheme option \<times> bytes option" where
  "parse_element raw =
     (let trimmed = trim_ows raw
      in if trimmed = [] then Inl ForwardedSyntax
         else and_then (element_pairs (split_top CHR '';'' trimmed) element_start) (\<lambda>es.
           Inr (es_node es, es_proto es, es_host_raw es)))"

section \<open>The whole chain\<close>

definition charge_bytes :: "nat \<Rightarrow> nat \<Rightarrow> http_limits \<Rightarrow> reject_reason + nat" where
  "charge_bytes used additional limits =
     (let used' = sat_add32 used (min u32_max additional)
      in if used' > max_forwarded_bytes limits then Inl ForwardedBytesLimit else Inr used')"

record chain_state =
  cs_elements :: "forwarded_element list"
  cs_host :: "(nat \<times> nat) option"
  cs_bytes :: nat
  cs_out :: bytes

definition forwarded_span :: "nat \<Rightarrow> http_limits \<Rightarrow> bytes \<Rightarrow> chain_state \<Rightarrow> reject_reason + chain_state" where
  "forwarded_span base limits span st =
     (if length (cs_elements st) \<ge> max_forwarded_elements limits then Inl ForwardedElementLimit
      else and_then (parse_element span) (\<lambda>(node, proto, host_raw).
        let st1 = (case host_raw of
              None \<Rightarrow> st
            | Some raw \<Rightarrow>
                (let start = length (cs_out st);
                     out = write_unquoted raw (cs_out st)
                 in st\<lparr>cs_out := out, cs_host := Some (min u32_max (start - base), min u16_max (length out - start))\<rparr>))
        in Inr (st1\<lparr>cs_elements := cs_elements st1 @ [\<lparr>fe_node = node, fe_proto = proto, fe_from_xff = False\<rparr>]\<rparr>)))"

definition xff_span :: "http_limits \<Rightarrow> bytes \<Rightarrow> chain_state \<Rightarrow> reject_reason + chain_state" where
  "xff_span limits span st =
     (if length (cs_elements st) \<ge> max_forwarded_elements limits then Inl ForwardedElementLimit
      else
        (let token = trim_ows span
         in if token = [] then Inl ForwardedSyntax
            else Inr (st\<lparr>cs_elements := cs_elements st @ [\<lparr>fe_node = parse_node_name token, fe_proto = None, fe_from_xff = True\<rparr>]\<rparr>)))"

text \<open>The two nested loops: the spans of one value, then the values. A failing span ends the parse; the buffer is
  then what the spans before it left, so the state travels beside the error.\<close>

fun each_span :: "(bytes \<Rightarrow> chain_state \<Rightarrow> reject_reason + chain_state) \<Rightarrow> bytes list \<Rightarrow> chain_state \<Rightarrow> reject_reason option \<times> chain_state" where
  "each_span f [] st = (None, st)"
| "each_span f (s # ss) st = (case f s st of Inl e \<Rightarrow> (Some e, st) | Inr st' \<Rightarrow> each_span f ss st')"

fun each_value :: "http_limits \<Rightarrow> (bytes \<Rightarrow> chain_state \<Rightarrow> reject_reason + chain_state) \<Rightarrow> bytes list \<Rightarrow> chain_state \<Rightarrow> reject_reason option \<times> chain_state" where
  "each_value limits f [] st = (None, st)"
| "each_value limits f (v # vs) st =
     (case charge_bytes (cs_bytes st) (length v) limits of
        Inl e \<Rightarrow> (Some e, st)
      | Inr used' \<Rightarrow>
          (case each_span f (split_top CHR '','' v) (st\<lparr>cs_bytes := used'\<rparr>) of
             (Some e, st') \<Rightarrow> (Some e, st')
           | (None, st') \<Rightarrow> each_value limits f vs st'))"

fun xfp_values :: "http_limits \<Rightarrow> bytes list \<Rightarrow> nat \<Rightarrow> bytes option \<Rightarrow> reject_reason + nat \<times> bytes option" where
  "xfp_values limits [] used last_xfp = Inr (used, last_xfp)"
| "xfp_values limits (v # vs) used last_xfp =
     and_then (charge_bytes used (length v) limits) (\<lambda>used'. xfp_values limits vs used' (Some v))"

definition attach_proto :: "bytes option \<Rightarrow> forwarded_element list \<Rightarrow> forwarded_element list" where
  "attach_proto last_xfp elements =
     (case last_xfp of
        None \<Rightarrow> elements
      | Some v \<Rightarrow>
          (case parse_proto (trim_ows (last (split_top CHR '','' v))) of
             None \<Rightarrow> elements
           | Some sch \<Rightarrow>
               if elements \<noteq> [] \<and> fe_proto (last elements) = None
               then butlast elements @ [(last elements)\<lparr>fe_proto := Some sch\<rparr>]
               else elements))"

definition chain_parse_into ::
  "bytes list \<Rightarrow> bytes list \<Rightarrow> bytes list \<Rightarrow> http_limits \<Rightarrow> bytes \<Rightarrow> (reject_reason + forwarded_chain) \<times> bytes" where
  "chain_parse_into forwarded_values xff_vals xfp_vals limits out =
     (let base = length out;
          st0 = \<lparr>cs_elements = [], cs_host = None, cs_bytes = 0, cs_out = out\<rparr>
      in case each_value limits (forwarded_span base limits) forwarded_values st0 of
           (Some e, st) \<Rightarrow> (Inl e, cs_out st)
         | (None, st1) \<Rightarrow>
             (case each_value limits (xff_span limits) xff_vals st1 of
                (Some e, st) \<Rightarrow> (Inl e, cs_out st)
              | (None, st2) \<Rightarrow>
                  (case xfp_values limits xfp_vals (cs_bytes st2) None of
                     Inl e \<Rightarrow> (Inl e, cs_out st2)
                   | Inr (used, last_xfp) \<Rightarrow>
                       (let (buf, out') = (case cs_host st2 of
                             Some _ \<Rightarrow> (drop base (cs_out st2), take base (cs_out st2))
                           | None \<Rightarrow> ([], cs_out st2))
                        in (Inr \<lparr>fc_elements = attach_proto last_xfp (cs_elements st2), fc_host_claim = cs_host st2,
                                 fc_host_buf = buf, fc_bytes = used\<rparr>, out')))))"

definition chain_from_section :: "field_section \<Rightarrow> http_limits \<Rightarrow> bytes \<Rightarrow> (reject_reason + forwarded_chain) \<times> bytes" where
  "chain_from_section sec limits out =
     chain_parse_into (get_all_known sec KnownHeader_Forwarded) (get_all_known sec KnownHeader_XForwardedFor)
       (get_all_known sec KnownHeader_XForwardedProto) limits out"

end
