(* ===== verification/Http_Cidr.thy ===== *)
theory Http_Cidr
  imports Rust_Net
begin

text \<open>
  Address prefixes (\<^verbatim>\<open>cidr.rs\<close>): construction, and membership by whole bytes and one masked byte, shown equal to
  agreement on the leading bits of the address.
\<close>

unbundle bit_operations_syntax

section \<open>The code\<close>

record ip_cidr =
  ci_addr :: ip_addr
  ci_prefix_len :: nat

definition cidr_new :: "ip_addr \<Rightarrow> nat \<Rightarrow> ip_cidr option" where
  "cidr_new addr prefix_len =
     (let width = (case addr of IpAddr_V4 _ \<Rightarrow> 32 | IpAddr_V6 _ \<Rightarrow> 128)
      in if prefix_len > width then None else Some \<lparr>ci_addr = addr, ci_prefix_len = prefix_len\<rparr>)"

definition bits_match :: "8 word list \<Rightarrow> 8 word list \<Rightarrow> nat \<Rightarrow> bool" where
  "bits_match a b prefix_len =
     (let full_bytes = prefix_len div 8; rem = prefix_len mod 8
      in case (get_range a 0 full_bytes, get_range b 0 full_bytes) of
           (Some a_head, Some b_head) \<Rightarrow>
             if a_head \<noteq> b_head then False
             else if rem = 0 then True
             else
               (let mask = push_bit (8 - rem) 0xFF
                in case (get a full_bytes, get b full_bytes) of
                     (Some a_byte, Some b_byte) \<Rightarrow> (a_byte AND mask) = (b_byte AND mask)
                   | _ \<Rightarrow> False)
         | _ \<Rightarrow> False)"

definition cidr_contains :: "ip_cidr \<Rightarrow> ip_addr \<Rightarrow> bool" where
  "cidr_contains c other =
     (case (ci_addr c, other) of
        (IpAddr_V4 a, IpAddr_V4 b) \<Rightarrow> bits_match a b (ci_prefix_len c)
      | (IpAddr_V6 a, IpAddr_V6 b) \<Rightarrow> bits_match (v6_octets a) (v6_octets b) (ci_prefix_len c)
      | _ \<Rightarrow> False)"

section \<open>Leading bits\<close>

text \<open>The bits of an address in network order, most significant first.\<close>

definition octet_bits :: "8 word \<Rightarrow> bool list" where
  "octet_bits w = map (\<lambda>i. bit w (7 - i)) [0..<8]"

fun addr_bits :: "ip_addr \<Rightarrow> bool list" where
  "addr_bits (IpAddr_V4 octets) = concat (map octet_bits octets)"
| "addr_bits (IpAddr_V6 segments) = concat (map octet_bits (v6_octets segments))"

definition same_family :: "ip_addr \<Rightarrow> ip_addr \<Rightarrow> bool" where
  "same_family a b \<longleftrightarrow> is_ipv6 a = is_ipv6 b"

lemma length_octet_bits [simp]: "length (octet_bits w) = 8"
  by (simp add: octet_bits_def)

lemma nth_octet_bits: "i < 8 \<Longrightarrow> octet_bits w ! i = bit w (7 - i)"
  unfolding octet_bits_def by (subst nth_map) simp_all

lemma octet_bits_inj: "octet_bits v = octet_bits w \<longleftrightarrow> v = w"
proof
  assume eq: "octet_bits v = octet_bits w"
  have "bit v n = bit w n" if "n < 8" for n
    using arg_cong [OF eq, of "\<lambda>l. l ! (7 - n)"] that by (simp add: nth_octet_bits)
  then show "v = w" by (intro bit_word_eqI) simp
qed simp

lemma concat_octet_bits_inj:
  "length xs = length ys \<Longrightarrow> concat (map octet_bits xs) = concat (map octet_bits ys) \<longleftrightarrow> xs = ys"
  by (induction xs ys rule: list_induct2) (simp_all add: octet_bits_inj)

lemma length_concat_octets: "length (concat (map octet_bits xs)) = 8 * length xs"
  by (induction xs) simp_all

lemma take_concat_octets:
  "n < 8 * length xs \<Longrightarrow> take n (concat (map octet_bits xs)) =
     concat (map octet_bits (take (n div 8) xs)) @ take (n mod 8) (octet_bits (xs ! (n div 8)))"
proof (induction xs arbitrary: n)
  case (Cons x xs)
  show ?case
  proof (cases "n < 8")
    case False
    then have d: "n div 8 = Suc ((n - 8) div 8)" and m: "n mod 8 = (n - 8) mod 8" by (simp_all add: le_div_geq le_mod_geq)
    have "n - 8 < 8 * length xs" using Cons.prems False by simp
    then show ?thesis using Cons.IH [of "n - 8"] False unfolding d m by simp
  qed simp
qed simp

lemma masked_byte:
  assumes "0 < r" and "r < 8"
  shows "(v AND push_bit (8 - r) 0xFF) = (w AND push_bit (8 - r) (0xFF :: 8 word)) \<longleftrightarrow> take r (octet_bits v) = take r (octet_bits w)"
proof -
  have ff: "(0xFF :: 8 word) = mask 8" by (simp add: mask_eq_exp_minus_1)
  have b: "bit (x AND push_bit (8 - r) 0xFF) n \<longleftrightarrow> 8 - r \<le> n \<and> bit x n" for x :: "8 word" and n
    unfolding ff by (auto simp: bit_and_iff bit_push_bit_iff bit_mask_iff dest: bit_imp_le_length)
  have "(v AND push_bit (8 - r) 0xFF) = (w AND push_bit (8 - r) (0xFF :: 8 word)) \<longleftrightarrow> (\<forall>n < 8. 8 - r \<le> n \<longrightarrow> bit v n = bit w n)"
  proof
    assume "(v AND push_bit (8 - r) 0xFF) = (w AND push_bit (8 - r) (0xFF :: 8 word))"
    then show "\<forall>n < 8. 8 - r \<le> n \<longrightarrow> bit v n = bit w n" using b by metis
  next
    assume "\<forall>n < 8. 8 - r \<le> n \<longrightarrow> bit v n = bit w n"
    then show "(v AND push_bit (8 - r) 0xFF) = (w AND push_bit (8 - r) (0xFF :: 8 word))"
      by (intro bit_word_eqI) (auto simp: b)
  qed
  also have "\<dots> \<longleftrightarrow> (\<forall>i < r. bit v (7 - i) = bit w (7 - i))"
  proof
    assume all: "\<forall>i < r. bit v (7 - i) = bit w (7 - i)"
    show "\<forall>n < 8. 8 - r \<le> n \<longrightarrow> bit v n = bit w n"
    proof (intro allI impI)
      fix n :: nat
      assume "n < 8" "8 - r \<le> n"
      then show "bit v n = bit w n" using all [rule_format, of "7 - n"] assms by (simp add: less_diff_conv)
    qed
  qed (use assms in auto)
  also have "\<dots> \<longleftrightarrow> take r (octet_bits v) = take r (octet_bits w)"
    using assms by (auto simp: nth_octet_bits list_eq_iff_nth_eq)
  finally show ?thesis .
qed

lemma bits_match_iff:
  assumes "length a = length b" and "n \<le> 8 * length a"
  shows "bits_match a b n \<longleftrightarrow> take n (concat (map octet_bits a)) = take n (concat (map octet_bits b))"
proof (cases "n < 8 * length a")
  case False
  then have n: "n = 8 * length a" using assms by simp
  then show ?thesis
    using assms by (simp add: bits_match_def get_range_def concat_octet_bits_inj length_concat_octets Let_def)
next
  case True
  then have len: "n div 8 < length a" "n div 8 < length b" using assms by simp_all
  have split: "take n (concat (map octet_bits a)) = take n (concat (map octet_bits b)) \<longleftrightarrow>
    take (n div 8) a = take (n div 8) b \<and> take (n mod 8) (octet_bits (a ! (n div 8))) = take (n mod 8) (octet_bits (b ! (n div 8)))"
    using True assms len by (simp add: take_concat_octets append_eq_append_conv length_concat_octets concat_octet_bits_inj)
  show ?thesis
    unfolding split using len masked_byte [of "n mod 8" "a ! (n div 8)" "b ! (n div 8)"]
    by (simp add: bits_match_def get_range_def Let_def)
qed

lemma length_v6_octets [simp]: "length (v6_octets segs) = 2 * length segs"
  by (simp add: v6_octets_def length_concat comp_def sum_list_triv)

text \<open>A prefix built by the constructor contains exactly the addresses of its family that agree with it on the
  prefix.\<close>

lemma cidr_contains_iff:
  assumes "cidr_new a n = Some c" and "ip_ok a" and "ip_ok b"
  shows "cidr_contains c b \<longleftrightarrow> same_family a b \<and> take n (addr_bits a) = take n (addr_bits b)"
  using assms
  by (cases a; cases b) (auto simp: cidr_new_def cidr_contains_def same_family_def bits_match_iff Let_def split: if_splits)

end
