(* ===== verification/Http_Peer.thy ===== *)
theory Http_Peer
  imports Http_Forwarded Http_Cidr
begin

text \<open>
  Client identity (\<^verbatim>\<open>peer.rs\<close>): the walk over the forwarding chain from the right under a trust policy, and the
  writers of the one \<^verbatim>\<open>Forwarded\<close> element and of the \<^verbatim>\<open>X-Forwarded-*\<close> values sent upstream. A writer returns the
  number of bytes it reports and the buffer.
\<close>

section \<open>Policies and identities\<close>

datatype trust_policy = TrustPolicy_HopCount nat | TrustPolicy_TrustedCidrs "ip_cidr list" | TrustPolicy_None

definition trust_policy_default :: trust_policy where
  "trust_policy_default = TrustPolicy_None"

datatype identity_source = IdentitySource_Socket | IdentitySource_ProxyProtocol | IdentitySource_ForwardedChain

record peer_identity =
  pi_client :: ip_addr
  pi_client_port :: "nat option"
  pi_source :: identity_source
  pi_forwarded_proto :: "scheme option"
  pi_trusted_hops :: nat
  pi_peer_trusted :: bool

definition trusted_internal :: "peer_identity \<Rightarrow> bool" where
  "trusted_internal i = pi_peer_trusted i"

section \<open>The walk\<close>

fun find_proto :: "forwarded_element list \<Rightarrow> scheme option" where
  "find_proto [] = None"
| "find_proto (e # es) = (case fe_proto e of Some s \<Rightarrow> Some s | None \<Rightarrow> find_proto es)"

definition nearest_proto :: "forwarded_element list \<Rightarrow> nat \<Rightarrow> scheme option" where
  "nearest_proto elements start = (case get_from elements start of None \<Rightarrow> None | Some es \<Rightarrow> find_proto es)"

definition chain_mixes_families :: "forwarded_element list \<Rightarrow> bool" where
  "chain_mixes_families elements \<longleftrightarrow>
     list_ex (\<lambda>e. \<not> fe_from_xff e) elements \<and> list_ex fe_from_xff elements"

definition saturate_hops :: "nat \<Rightarrow> nat" where
  "saturate_hops v = min 255 v"

datatype walk_outcome = WalkOutcome_FailClosed | WalkOutcome_Client nat ip_addr "nat option" nat

text \<open>The loop over offsets; the last argument is the number of iterations left.\<close>

fun walk_loop :: "forwarded_element list \<Rightarrow> ip_cidr list \<Rightarrow> nat \<Rightarrow> nat \<Rightarrow> nat \<Rightarrow> walk_outcome" where
  "walk_loop elements cidrs offset trusted_hops 0 = WalkOutcome_FailClosed"
| "walk_loop elements cidrs offset trusted_hops (Suc k) =
     (let idx = length elements - 1 - offset
      in case get elements idx of
           None \<Rightarrow> WalkOutcome_FailClosed
         | Some e \<Rightarrow>
             (case fe_node e of
                NodeName_Addr addr port \<Rightarrow>
                  if list_ex (\<lambda>c. cidr_contains c addr) cidrs then
                    (let hops = sat_add32 trusted_hops 1
                     in if idx = 0 then WalkOutcome_Client 0 addr port (saturate_hops hops)
                        else walk_loop elements cidrs (Suc offset) hops k)
                  else WalkOutcome_Client idx addr port (saturate_hops trusted_hops)
              | _ \<Rightarrow> WalkOutcome_FailClosed))"

definition walk_trusted_cidrs :: "forwarded_element list \<Rightarrow> ip_cidr list \<Rightarrow> walk_outcome" where
  "walk_trusted_cidrs elements cidrs = walk_loop elements cidrs 0 0 (length elements)"

definition resolve_identity ::
  "socket_addr \<Rightarrow> socket_addr option \<Rightarrow> forwarded_chain \<Rightarrow> trust_policy \<Rightarrow> peer_identity" where
  "resolve_identity socket_peer proxy_proto chain policy =
     (let (base_ip, base_port, base_source) =
            (case proxy_proto of
               Some declared \<Rightarrow> (sa_ip declared, Some (sa_port declared), IdentitySource_ProxyProtocol)
             | None \<Rightarrow> (sa_ip socket_peer, Some (sa_port socket_peer), IdentitySource_Socket));
          peer_trusted = (case policy of
               TrustPolicy_TrustedCidrs cidrs \<Rightarrow> list_ex (\<lambda>c. cidr_contains c base_ip) cidrs
             | _ \<Rightarrow> False);
          fail_closed = \<lparr>pi_client = base_ip, pi_client_port = base_port, pi_source = base_source,
             pi_forwarded_proto = None, pi_trusted_hops = 0, pi_peer_trusted = peer_trusted\<rparr>;
          elements = fc_elements chain
      in case policy of
           TrustPolicy_None \<Rightarrow> fail_closed
         | TrustPolicy_HopCount n \<Rightarrow>
             if chain_mixes_families elements then fail_closed
             else if length elements < n then fail_closed
             else
               (let idx = length elements - n
                in case get elements idx of
                     None \<Rightarrow> fail_closed
                   | Some e \<Rightarrow>
                       (case fe_node e of
                          NodeName_Addr addr port \<Rightarrow>
                            \<lparr>pi_client = addr, pi_client_port = port, pi_source = IdentitySource_ForwardedChain,
                             pi_forwarded_proto = nearest_proto elements idx, pi_trusted_hops = n,
                             pi_peer_trusted = peer_trusted\<rparr>
                        | _ \<Rightarrow> fail_closed))
         | TrustPolicy_TrustedCidrs cidrs \<Rightarrow>
             if \<not> peer_trusted \<or> chain_is_empty chain then fail_closed
             else if chain_mixes_families elements then fail_closed
             else
               (case walk_trusted_cidrs elements cidrs of
                  WalkOutcome_FailClosed \<Rightarrow> fail_closed
                | WalkOutcome_Client index addr port trusted_hops \<Rightarrow>
                    \<lparr>pi_client = addr, pi_client_port = port, pi_source = IdentitySource_ForwardedChain,
                     pi_forwarded_proto = nearest_proto elements index, pi_trusted_hops = trusted_hops,
                     pi_peer_trusted = peer_trusted\<rparr>))"

section \<open>Writing addresses\<close>

record forward_emit =
  emit_forwarded :: bool
  emit_x_forwarded :: bool

definition forward_emit_default :: forward_emit where
  "forward_emit_default = \<lparr>emit_forwarded = True, emit_x_forwarded = True\<rparr>"

definition decimal_digits :: "nat \<Rightarrow> bytes \<times> nat" where
  "decimal_digits v = port_digits_loop (replicate 10 CHR 0x00) 0 v"

definition write_decimal :: "nat \<Rightarrow> bytes \<Rightarrow> nat \<times> bytes" where
  "write_decimal v out =
     (case decimal_digits v of (digits, count) \<Rightarrow>
        (count, out @ concat (map (\<lambda>i. case get digits i of Some b \<Rightarrow> [b] | None \<Rightarrow> []) (rev [0..<count]))))"

definition HEX_DIGITS :: bytes where "HEX_DIGITS = ''0123456789abcdef''"

definition longer_run :: "(nat \<times> nat) option \<Rightarrow> nat \<Rightarrow> nat \<Rightarrow> (nat \<times> nat) option" where
  "longer_run best current_start current_len =
     (if current_len \<ge> 2 \<and> (case best of None \<Rightarrow> True | Some (_, best_len) \<Rightarrow> current_len > best_len)
      then Some (current_start, current_len) else best)"

fun zero_run_loop :: "nat \<Rightarrow> 16 word list \<Rightarrow> (nat \<times> nat) option \<Rightarrow> nat \<Rightarrow> nat \<Rightarrow> (nat \<times> nat) option" where
  "zero_run_loop i [] best current_start current_len = longer_run best current_start current_len"
| "zero_run_loop i (g # gs) best current_start current_len =
     (if g = 0 then
        zero_run_loop (Suc i) gs best (if current_len = 0 then i else current_start) (sat_add current_len 1)
      else zero_run_loop (Suc i) gs (longer_run best current_start current_len) current_start 0)"

definition zero_run :: "ipv6_addr \<Rightarrow> (nat \<times> nat) option" where
  "zero_run segments = zero_run_loop 0 segments None 0 0"

definition group_hex_len :: "16 word \<Rightarrow> nat" where
  "group_hex_len g = (if g < 0x10 then 1 else if g < 0x100 then 2 else if g < 0x1000 then 3 else 4)"

definition group_nibbles :: "16 word \<Rightarrow> 16 word list" where
  "group_nibbles g =
     [and (drop_bit 12 g) 0xF, and (drop_bit 8 g) 0xF, and (drop_bit 4 g) 0xF, and g 0xF]"

definition write_group_hex :: "16 word \<Rightarrow> bytes \<Rightarrow> nat \<times> bytes" where
  "write_group_hex g out =
     (let nibbles = group_nibbles g;
          first_nonzero = (case position (\<lambda>n. n \<noteq> 0) nibbles of Some i \<Rightarrow> i | None \<Rightarrow> 3);
          digits = map (\<lambda>n. case get HEX_DIGITS (unat n) of Some ch \<Rightarrow> ch | None \<Rightarrow> CHR ''0'')
                     (case get_from nibbles first_nonzero of Some ns \<Rightarrow> ns | None \<Rightarrow> [])
      in (length digits, out @ digits))"

definition segment_or_zero :: "ipv6_addr \<Rightarrow> nat \<Rightarrow> 16 word" where
  "segment_or_zero segments idx = (case get segments idx of Some g \<Rightarrow> g | None \<Rightarrow> 0)"

definition run_here :: "(nat \<times> nat) option \<Rightarrow> nat \<Rightarrow> nat option" where
  "run_here run idx = (case run of Some (start, run_len) \<Rightarrow> if idx = start then Some run_len else None | None \<Rightarrow> None)"

lemma run_step_less: "idx < 8 \<Longrightarrow> 0 < k \<Longrightarrow> 8 - sat_add idx k < 8 - idx"
  by (auto simp: sat_add_def usize_max_def)

function write_ipv6_loop ::
  "ipv6_addr \<Rightarrow> (nat \<times> nat) option \<Rightarrow> nat \<Rightarrow> bool \<Rightarrow> nat \<Rightarrow> bytes \<Rightarrow> nat \<times> bytes" where
  "write_ipv6_loop segments run idx wrote_a_group written out =
     (if idx < 8 then
        (case run_here run idx of
           Some run_len \<Rightarrow>
             write_ipv6_loop segments run (sat_add idx (max run_len 1)) False (sat_add written 2) (out @ ''::'')
         | None \<Rightarrow>
             (let (written1, out1) = (if wrote_a_group then (sat_add written 1, out @ '':'') else (written, out));
                  (n, out2) = write_group_hex (segment_or_zero segments idx) out1
              in write_ipv6_loop segments run (sat_add idx 1) True (sat_add written1 n) out2))
      else (written, out))"
  by pat_completeness auto
termination
  by (relation "measure (\<lambda>(segments, run, idx, _). 8 - idx)") (simp_all add: run_step_less)

declare write_ipv6_loop.simps [simp del]

definition write_ipv6_canonical :: "ipv6_addr \<Rightarrow> bytes \<Rightarrow> nat \<times> bytes" where
  "write_ipv6_canonical segments out = write_ipv6_loop segments (zero_run segments) 0 False 0 out"

function ipv6_len_loop :: "ipv6_addr \<Rightarrow> (nat \<times> nat) option \<Rightarrow> nat \<Rightarrow> bool \<Rightarrow> nat \<Rightarrow> nat" where
  "ipv6_len_loop segments run idx wrote_a_group len =
     (if idx < 8 then
        (case run_here run idx of
           Some run_len \<Rightarrow> ipv6_len_loop segments run (sat_add idx (max run_len 1)) False (sat_add len 2)
         | None \<Rightarrow>
             (let len1 = (if wrote_a_group then sat_add len 1 else len)
              in ipv6_len_loop segments run (sat_add idx 1) True (sat_add len1 (group_hex_len (segment_or_zero segments idx)))))
      else len)"
  by pat_completeness auto
termination
  by (relation "measure (\<lambda>(segments, run, idx, _). 8 - idx)") (simp_all add: run_step_less)

declare ipv6_len_loop.simps [simp del]

definition ipv6_canonical_len :: "ipv6_addr \<Rightarrow> nat" where
  "ipv6_canonical_len segments = ipv6_len_loop segments (zero_run segments) 0 False 0"

fun addr_text_len :: "ip_addr \<Rightarrow> nat" where
  "addr_text_len (IpAddr_V4 octets) = foldl (\<lambda>len o8. sat_add len (snd (decimal_digits (unat o8)))) 3 octets"
| "addr_text_len (IpAddr_V6 segments) = ipv6_canonical_len segments"

fun write_octets :: "nat \<Rightarrow> 8 word list \<Rightarrow> nat \<Rightarrow> bytes \<Rightarrow> nat \<times> bytes" where
  "write_octets i [] written out = (written, out)"
| "write_octets i (o8 # os) written out =
     (let (written1, out1) = (if i > 0 then (sat_add written 1, out @ ''.'') else (written, out));
          (n, out2) = write_decimal (unat o8) out1
      in write_octets (Suc i) os (sat_add written1 n) out2)"

fun write_addr_text :: "ip_addr \<Rightarrow> bytes \<Rightarrow> nat \<times> bytes" where
  "write_addr_text (IpAddr_V4 octets) out = write_octets 0 octets 0 out"
| "write_addr_text (IpAddr_V6 segments) out = write_ipv6_canonical segments out"

definition node_raw_len :: "ip_addr \<Rightarrow> nat option \<Rightarrow> nat" where
  "node_raw_len addr port =
     (let len = addr_text_len addr;
          len1 = (if is_ipv6 addr then sat_add len 2 else len)
      in case port of None \<Rightarrow> len1 | Some p \<Rightarrow> sat_add (sat_add len1 1) (snd (decimal_digits p)))"

text \<open>The writers count with saturating additions; \<open>put\<close> appends fixed bytes and \<open>put_by\<close> runs another writer.\<close>

definition put :: "bytes \<Rightarrow> nat \<times> bytes \<Rightarrow> nat \<times> bytes" where
  "put bs w = (sat_add (fst w) (length bs), snd w @ bs)"

definition put_by :: "(bytes \<Rightarrow> nat \<times> bytes) \<Rightarrow> nat \<times> bytes \<Rightarrow> nat \<times> bytes" where
  "put_by f w = (case f (snd w) of (n, out) \<Rightarrow> (sat_add (fst w) n, out))"

definition write_node :: "ip_addr \<Rightarrow> nat option \<Rightarrow> bytes \<Rightarrow> nat \<times> bytes" where
  "write_node addr port out =
     (let w0 = (if is_ipv6 addr then put ''['' (0, out) else (0, out));
          w1 = put_by (write_addr_text addr) w0;
          w2 = (if is_ipv6 addr then put '']'' w1 else w1)
      in case port of None \<Rightarrow> w2 | Some p \<Rightarrow> put_by (write_decimal p) (put '':'' w2))"

section \<open>Writing the element\<close>

definition client_needs_quote :: "peer_identity \<Rightarrow> bool" where
  "client_needs_quote identity \<longleftrightarrow> is_ipv6 (pi_client identity) \<or> pi_client_port identity \<noteq> None"

definition authority_needs_quote :: "authority \<Rightarrow> bool" where
  "authority_needs_quote a \<longleftrightarrow> is_ipv6_literal a \<or> au_port a \<noteq> None"

definition for_value_len :: "peer_identity \<Rightarrow> nat" where
  "for_value_len identity =
     (let raw = node_raw_len (pi_client identity) (pi_client_port identity)
      in if client_needs_quote identity then sat_add raw 2 else raw)"

definition write_for_value :: "peer_identity \<Rightarrow> bytes \<Rightarrow> nat \<times> bytes" where
  "write_for_value identity out =
     (let quote = client_needs_quote identity;
          w0 = (if quote then put [DQUOTE] (0, out) else (0, out));
          w1 = put_by (write_node (pi_client identity) (pi_client_port identity)) w0
      in if quote then put [DQUOTE] w1 else w1)"

definition by_value_len :: "socket_addr \<Rightarrow> nat" where
  "by_value_len local = sat_add (node_raw_len (sa_ip local) (Some (sa_port local))) 2"

definition write_by_value :: "socket_addr \<Rightarrow> bytes \<Rightarrow> nat \<times> bytes" where
  "write_by_value local out =
     put [DQUOTE] (put_by (write_node (sa_ip local) (Some (sa_port local))) (1, out @ [DQUOTE]))"

definition host_value_len :: "authority \<Rightarrow> nat" where
  "host_value_len a =
     (let raw = authority_written_len a in if authority_needs_quote a then sat_add raw 2 else raw)"

definition write_host_value :: "authority \<Rightarrow> bytes \<Rightarrow> nat \<times> bytes" where
  "write_host_value a out =
     (let quote = authority_needs_quote a;
          w0 = (if quote then put [DQUOTE] (0, out) else (0, out));
          w1 = put_by (authority_write_to a) w0
      in if quote then put [DQUOTE] w1 else w1)"

definition write_forwarded_element ::
  "peer_identity \<Rightarrow> socket_addr \<Rightarrow> scheme \<Rightarrow> authority \<Rightarrow> bytes \<Rightarrow> nat \<times> bytes" where
  "write_forwarded_element identity local sch a out =
     put_by (write_host_value a) (put '';host=''
       (put (scheme_as_bytes sch) (put '';proto=''
         (put_by (write_by_value local) (put '';by=''
           (put_by (write_for_value identity) (put ''for='' (0, out))))))))"

definition forwarded_element_len :: "peer_identity \<Rightarrow> socket_addr \<Rightarrow> scheme \<Rightarrow> authority \<Rightarrow> nat" where
  "forwarded_element_len identity local sch a =
     sat_add (sat_add (sat_add (sat_add (sat_add (sat_add (sat_add 4 (for_value_len identity)) 4)
       (by_value_len local)) 7) (length (scheme_as_bytes sch))) 6) (host_value_len a)"

definition write_x_forwarded ::
  "peer_identity \<Rightarrow> scheme \<Rightarrow> authority \<Rightarrow> bytes \<Rightarrow> (nat \<times> nat) list \<times> bytes" where
  "write_x_forwarded identity sch a out =
     (let out1 = snd (write_node (pi_client identity) None out);
          out2 = out1 @ scheme_as_bytes sch;
          out3 = snd (authority_write_to a out2);
          out4 = (case pi_client_port identity of None \<Rightarrow> out3 | Some p \<Rightarrow> snd (write_decimal p out3))
      in ([(length out, length out1), (length out1, length out2), (length out2, length out3), (length out3, length out4)], out4))"

end
