(* ===== verification/Http_Forwarded_Exact.thy ===== *)
theory Http_Forwarded_Exact
  imports Http_Forwarded
begin

text \<open>
  The chain parser against its declarative reading: the splitter cuts exactly at the delimiters outside quoted
  strings, an element is a set of parameters without repetition, and a chain is accepted exactly when it is
  within both limits and every element is well formed.
\<close>

section \<open>Quoting\<close>

text \<open>The scanner's state after some bytes: inside a quoted string, and just after a backslash. The second
  version fails on a delimiter outside quoted strings.\<close>

fun q_step :: "bool \<times> bool \<Rightarrow> byte \<Rightarrow> bool \<times> bool" where
  "q_step (q, e) b =
     (if e then (q, False) else if q then (if b = BSLASH then (True, True) else (b \<noteq> DQUOTE, False)) else (b = DQUOTE, False))"

definition q_state :: "bytes \<Rightarrow> bool \<times> bool" where
  "q_state bs = foldl q_step (False, False) bs"

fun q_scan :: "byte \<Rightarrow> bool \<times> bool \<Rightarrow> bytes \<Rightarrow> (bool \<times> bool) option" where
  "q_scan d st [] = Some st"
| "q_scan d st (b # bs) = (if st = (False, False) \<and> b = d then None else q_scan d (q_step st b) bs)"

lemma q_scan_append: "q_scan d st (xs @ ys) = (case q_scan d st xs of None \<Rightarrow> None | Some st' \<Rightarrow> q_scan d st' ys)"
  by (induction xs arbitrary: st) simp_all

lemma q_scan_state: "q_scan d st bs = Some st' \<Longrightarrow> foldl q_step st bs = st'"
  by (induction bs arbitrary: st) (auto split: if_splits)

text \<open>An escape only happens inside a quoted string.\<close>

definition q_ok :: "bool \<times> bool \<Rightarrow> bool" where
  "q_ok st \<longleftrightarrow> (snd st \<longrightarrow> fst st)"

lemma q_ok_step: "q_ok st \<Longrightarrow> q_ok (q_step st b)"
  by (cases st) (auto simp: q_ok_def)

lemma split_scan_step:
  assumes "q_ok (q, e)" and "d \<noteq> DQUOTE"
  shows "split_scan d q e idx (b # bs) =
     (if (q, e) = (False, False) \<and> b = d then Some idx else case q_step (q, e) b of (q', e') \<Rightarrow> split_scan d q' e' (Suc idx) bs)"
  using assms by (auto simp: q_ok_def)

declare q_step.simps [simp del]

lemma split_scan_None:
  "q_ok (q, e) \<Longrightarrow> d \<noteq> DQUOTE \<Longrightarrow> split_scan d q e idx bs = None \<longleftrightarrow> q_scan d (q, e) bs \<noteq> None"
proof (induction bs arbitrary: q e idx)
  case (Cons b bs)
  obtain q' e' where s: "q_step (q, e) b = (q', e')" by (rule prod.exhaust)
  have "q_ok (q', e')" using q_ok_step [OF Cons.prems(1), of b] s by simp
  then show ?case
    using Cons.IH [of q' e' "Suc idx"] Cons.prems
    unfolding split_scan_step [OF Cons.prems] q_scan.simps s by simp
qed simp

lemma split_scan_Some:
  "q_ok (q, e) \<Longrightarrow> d \<noteq> DQUOTE \<Longrightarrow> q_scan d (q, e) xs = Some (False, False) \<Longrightarrow>
     split_scan d q e idx (xs @ d # ys) = Some (idx + length xs)"
proof (induction xs arbitrary: q e idx)
  case (Cons b xs)
  obtain q' e' where s: "q_step (q, e) b = (q', e')" by (rule prod.exhaust)
  have "q_ok (q', e')" using q_ok_step [OF Cons.prems(1), of b] s by simp
  then show ?case
    using Cons.IH [of q' e' "Suc idx"] Cons.prems
    unfolding append_Cons split_scan_step [OF Cons.prems(1,2)] q_scan.simps s by (simp split: if_splits)
qed simp

lemma q_scan_None_split:
  "q_scan d st bs = None \<Longrightarrow> \<exists>xs ys. bs = xs @ d # ys \<and> q_scan d st xs = Some (False, False)"
proof (induction bs arbitrary: st)
  case (Cons b bs)
  show ?case
  proof (cases "st = (False, False) \<and> b = d")
    case True
    then show ?thesis by (intro exI [of _ "[]"] exI [of _ bs]) simp
  next
    case False
    then have "q_scan d (q_step st b) bs = None" using Cons.prems by (simp only: q_scan.simps if_False)
    then obtain xs ys where "bs = xs @ d # ys" "q_scan d (q_step st b) xs = Some (False, False)"
      using Cons.IH [of "q_step st b"] by blast
    then show ?thesis using False by (intro exI [of _ "b # xs"] exI [of _ ys]) auto
  qed
qed simp

section \<open>The splitter\<close>

lemma q_ok_start: "q_ok (False, False)"
  by (simp add: q_ok_def)

lemma split_top_one: "d \<noteq> DQUOTE \<Longrightarrow> q_scan d (False, False) bs = Some st \<Longrightarrow> split_top d bs = [bs]"
  using split_scan_None [OF q_ok_start, of d 0 bs]
  by (simp add: split_top_def split_new_def split_items.simps [of "\<lparr>tl_rest = bs, tl_delim = d, tl_finished = False\<rparr>"]
      split_items.simps [of "\<lparr>tl_rest = bs, tl_delim = d, tl_finished = True\<rparr>"] split_next_def)

lemma split_top_cons:
  assumes "d \<noteq> DQUOTE" and "q_scan d (False, False) xs = Some (False, False)" and "length xs < usize_max"
  shows "split_top d (xs @ d # ys) = xs # split_top d ys"
  using split_scan_Some [OF q_ok_start assms(1,2), of 0 ys] assms(3)
  by (simp add: split_top_def split_new_def split_items.simps [of "\<lparr>tl_rest = xs @ d # ys, tl_delim = d, tl_finished = False\<rparr>"]
      split_next_def get_range_def get_from_def sat_add_def)

lemma split_top_induct [consumes 1, case_names one cons]:
  assumes "d \<noteq> DQUOTE"
    and one: "\<And>bs st. q_scan d (False, False) bs = Some st \<Longrightarrow> P bs"
    and cons: "\<And>xs ys. q_scan d (False, False) xs = Some (False, False) \<Longrightarrow> P ys \<Longrightarrow> P (xs @ d # ys)"
  shows "P bs"
proof (induction bs rule: length_induct)
  case (1 bs)
  show ?case
  proof (cases "q_scan d (False, False) bs")
    case None
    then obtain xs ys where s: "bs = xs @ d # ys" "q_scan d (False, False) xs = Some (False, False)"
      using q_scan_None_split by blast
    then show ?thesis using cons [OF s(2), of ys] 1 by simp
  next
    case (Some st)
    then show ?thesis by (rule one)
  qed
qed

text \<open>Joining the pieces with the delimiter gives the input back, and no piece has a delimiter outside quoted
  strings; both together determine the pieces.\<close>

fun join_with :: "byte \<Rightarrow> bytes list \<Rightarrow> bytes" where
  "join_with d [] = []"
| "join_with d [p] = p"
| "join_with d (p # q # ps) = p @ d # join_with d (q # ps)"

lemma join_with_cons: "ps \<noteq> [] \<Longrightarrow> join_with d (p # ps) = p @ d # join_with d ps"
  by (cases ps) simp_all

lemma split_top_nonempty [simp]: "split_top d bs \<noteq> []"
  by (auto simp: split_top_def split_new_def split_next_def split_items.simps [of "split_new bs d"] split_items.simps
      split: option.splits prod.splits)

lemma split_top_join:
  assumes "d \<noteq> DQUOTE"
  shows "length bs \<le> usize_max \<Longrightarrow> join_with d (split_top d bs) = bs"
  using assms
proof (induction bs rule: split_top_induct)
  case (one bs st)
  then show ?case using split_top_one [of d bs st] assms by simp
next
  case (cons xs ys)
  then show ?case using split_top_cons [of d xs ys] assms by (simp add: join_with_cons)
qed

lemma q_state_append:
  "q_scan d (False, False) xs = Some (False, False) \<Longrightarrow> d \<noteq> DQUOTE \<Longrightarrow> q_state (xs @ d # ys) = q_state ys"
  using q_scan_state [of d "(False, False)" xs "(False, False)"] by (simp add: q_state_def q_step.simps)

text \<open>Bytes put in front of a list, closing every quoted string they open, add pieces of their own and leave the
  others alone.\<close>

lemma split_top_pad:
  assumes "d \<noteq> DQUOTE"
  shows "q_state pad = (False, False) \<Longrightarrow> length pad < usize_max \<Longrightarrow> split_top d (pad @ d # v) = split_top d pad @ split_top d v"
  using assms
proof (induction pad rule: split_top_induct)
  case (one bs st)
  then have "q_scan d (False, False) bs = Some (False, False)"
    using q_scan_state [of d "(False, False)" bs st] by (simp add: q_state_def)
  then show ?case using split_top_cons [of d bs v] split_top_one [of d bs] one assms by simp
next
  case (cons xs ys)
  have "split_top d ((xs @ d # ys) @ d # v) = xs # split_top d (ys @ d # v)"
    using split_top_cons [of d xs "ys @ d # v"] cons.hyps cons.prems assms by simp
  then show ?case using cons split_top_cons [of d xs ys] q_state_append [of d xs ys] assms by simp
qed

lemma no_quote_state: "DQUOTE \<notin> set bs \<Longrightarrow> q_state bs = (False, False)"
  unfolding q_state_def by (induction bs) (auto simp: q_step.simps)

section \<open>One element\<close>

text \<open>The lower-case name and the value of a parameter.\<close>

definition param_of :: "bytes \<Rightarrow> (bytes \<times> bytes) option" where
  "param_of raw =
     (let pair = trim_ows raw
      in case position (\<lambda>b. b = CHR ''='') pair of
           None \<Rightarrow> None
         | Some i \<Rightarrow> Some (map to_ascii_lowercase (trim_ows (take i pair)), trim_ows (drop (Suc i) pair)))"

definition values_of :: "bytes \<Rightarrow> (bytes \<times> bytes) list \<Rightarrow> bytes list" where
  "values_of k params = map snd (filter (\<lambda>nv. fst nv = k) params)"

definition no_repeats :: "(bytes \<times> bytes) list \<Rightarrow> bool" where
  "no_repeats params \<longleftrightarrow> list_all (\<lambda>k. length (values_of k params) \<le> 1) [''for'', ''proto'', ''host'', ''by'']"

definition param :: "bytes \<Rightarrow> (bytes \<times> bytes) list \<Rightarrow> bytes option" where
  "param k params = (case values_of k params of [] \<Rightarrow> None | v # _ \<Rightarrow> Some v)"

definition claim_of :: "(bytes \<times> bytes) list \<Rightarrow> node_name \<times> scheme option \<times> bytes option" where
  "claim_of params =
     (case param ''for'' params of None \<Rightarrow> NodeName_Absent | Some v \<Rightarrow> parse_node_name v,
      case param ''proto'' params of None \<Rightarrow> None | Some v \<Rightarrow> parse_proto v,
      param ''host'' params)"

definition state_of :: "(bytes \<times> bytes) list \<Rightarrow> element_state" where
  "state_of params =
     (case claim_of params of (node, proto, host) \<Rightarrow>
        \<lparr>es_node = node, es_proto = proto, es_host_raw = host, es_seen_for = values_of ''for'' params \<noteq> [],
         es_seen_proto = values_of ''proto'' params \<noteq> [], es_seen_host = values_of ''host'' params \<noteq> [],
         es_seen_by = values_of ''by'' params \<noteq> []\<rparr>)"

lemma values_of_snoc: "values_of k (ps @ [(n, v)]) = values_of k ps @ (if n = k then [v] else [])"
  by (simp add: values_of_def)

lemma values_of_mem: "v \<in> set (values_of k ps) \<longleftrightarrow> (k, v) \<in> set ps"
  by (force simp: values_of_def)

lemma param_mem: "param k ps = Some v \<Longrightarrow> (k, v) \<in> set ps"
  using values_of_mem [of v k ps] by (auto simp: param_def split: list.splits)

lemma param_snoc:
  "param k (ps @ [(n, v)]) = (if n = k \<and> values_of k ps = [] then Some v else param k ps)"
  by (auto simp: param_def values_of_snoc split: list.splits)

lemma element_pair_eq:
  assumes "length raw < usize_max"
  shows "element_pair raw es =
     (case param_of raw of
        None \<Rightarrow> Inl ForwardedSyntax
      | Some (name, val) \<Rightarrow>
          if name = ''for'' then
            (if es_seen_for es then Inl ForwardedDuplicateParam else Inr (es\<lparr>es_seen_for := True, es_node := parse_node_name val\<rparr>))
          else if name = ''proto'' then
            (if es_seen_proto es then Inl ForwardedDuplicateParam else Inr (es\<lparr>es_seen_proto := True, es_proto := parse_proto val\<rparr>))
          else if name = ''host'' then
            (if es_seen_host es then Inl ForwardedDuplicateParam else Inr (es\<lparr>es_seen_host := True, es_host_raw := Some val\<rparr>))
          else if name = ''by'' then
            (if es_seen_by es then Inl ForwardedDuplicateParam else Inr (es\<lparr>es_seen_by := True\<rparr>))
          else Inr es)"
proof (cases "position (\<lambda>b. b = CHR ''='') (trim_ows raw)")
  case (Some i)
  have i: "i < length (trim_ows raw)" using Some by (simp add: position_Some_iff)
  then have si: "sat_add i (Suc 0) = Suc i" using length_trim_ows [of raw] assms by (simp add: sat_add_def)
  have pieces: "slice_or_empty (trim_ows raw) 0 i = take i (trim_ows raw)" "slice_after (trim_ows raw) (Suc i) = drop (Suc i) (trim_ows raw)"
    using i by (simp_all add: slice_or_empty_def get_range_def slice_after_def get_from_def)
  define name where "name = trim_ows (take i (trim_ows raw))"
  define low where "low = map to_ascii_lowercase name"
  have len: "length name = length low" by (simp add: low_def)
  show ?thesis
    using Some unfolding element_pair_def param_of_def Let_def
    by (simp add: si pieces name_def [symmetric] low_def [symmetric] len)
qed (simp add: element_pair_def param_of_def)

lemma element_pair_iff:
  assumes "length raw < usize_max" and "no_repeats ps"
  shows "element_pair raw (state_of ps) = Inr es \<longleftrightarrow>
     (\<exists>nv. param_of raw = Some nv \<and> no_repeats (ps @ [nv]) \<and> es = state_of (ps @ [nv]))"
proof (cases "param_of raw")
  case (Some nv)
  obtain n v where nv: "nv = (n, v)" by (rule prod.exhaust)
  consider "n = ''for''" | "n = ''proto''" | "n = ''host''" | "n = ''by''" | "n \<notin> {''for'', ''proto'', ''host'', ''by''}" by blast
  then show ?thesis
    using assms(2) Some nv unfolding element_pair_eq [OF assms(1)]
    by cases (auto simp: state_of_def claim_of_def no_repeats_def values_of_snoc param_snoc Suc_le_eq le_Suc_eq)
qed (simp add: element_pair_eq [OF assms(1)])

lemma no_repeats_prefix: "no_repeats (xs @ ys) \<Longrightarrow> no_repeats xs"
  by (simp add: no_repeats_def values_of_def)

lemma element_pairs_iff:
  "list_all (\<lambda>p. length p < usize_max) pairs \<Longrightarrow> no_repeats ps \<Longrightarrow>
   element_pairs pairs (state_of ps) = Inr es \<longleftrightarrow>
     (\<exists>nvs. map param_of pairs = map Some nvs \<and> no_repeats (ps @ nvs) \<and> es = state_of (ps @ nvs))"
proof (induction pairs arbitrary: ps)
  case (Cons p pairs)
  have prefix: "no_repeats (ps @ [nv])" if "no_repeats (ps @ nv # nvs)" for nv nvs
    using that no_repeats_prefix [of "ps @ [nv]" nvs] by simp
  have "element_pairs (p # pairs) (state_of ps) = Inr es \<longleftrightarrow>
      (\<exists>nv. param_of p = Some nv \<and> no_repeats (ps @ [nv]) \<and> element_pairs pairs (state_of (ps @ [nv])) = Inr es)"
    using element_pair_iff [of p ps] Cons.prems by (auto simp: and_then_Inr_iff)
  also have "\<dots> \<longleftrightarrow> (\<exists>nv. param_of p = Some nv \<and> no_repeats (ps @ [nv]) \<and>
      (\<exists>nvs. map param_of pairs = map Some nvs \<and> no_repeats (ps @ nv # nvs) \<and> es = state_of (ps @ nv # nvs)))"
    using Cons.IH [of "ps @ [_]"] Cons.prems by auto
  also have "\<dots> \<longleftrightarrow> (\<exists>nvs. map param_of (p # pairs) = map Some nvs \<and> no_repeats (ps @ nvs) \<and> es = state_of (ps @ nvs))"
    using prefix by (auto simp: Cons_eq_map_conv)
  finally show ?case .
qed auto

lemma length_join_with: "ps \<noteq> [] \<Longrightarrow> length (join_with d ps) + 1 = sum_list (map length ps) + length ps"
  by (induction d ps rule: join_with.induct) auto

lemma split_top_lengths:
  assumes "d \<noteq> DQUOTE" and "length bs \<le> usize_max"
  shows "sum_list (map length (split_top d bs)) \<le> length bs" and "p \<in> set (split_top d bs) \<Longrightarrow> length p \<le> length bs"
proof -
  have "length bs + 1 = sum_list (map length (split_top d bs)) + length (split_top d bs)"
    using length_join_with [of "split_top d bs" d] split_top_join [OF assms] by simp
  then show s: "sum_list (map length (split_top d bs)) \<le> length bs" by (cases "split_top d bs") auto
  show "length p \<le> length bs" if "p \<in> set (split_top d bs)"
    using s member_le_sum_list [of "length p" "map length (split_top d bs)"] that by simp
qed

definition element_claims :: "bytes \<Rightarrow> node_name \<times> scheme option \<times> bytes option \<Rightarrow> bool" where
  "element_claims raw c \<longleftrightarrow>
     trim_ows raw \<noteq> [] \<and>
     (\<exists>params. map param_of (split_top CHR '';'' (trim_ows raw)) = map Some params \<and> no_repeats params \<and> c = claim_of params)"

lemma semi_comma_not_quote [simp]: "CHR '';'' \<noteq> DQUOTE" "CHR '','' \<noteq> DQUOTE"
  by (simp_all add: DQUOTE_def)

lemma state_of_start: "state_of [] = element_start"
  by (simp add: state_of_def claim_of_def param_def values_of_def element_start_def)

lemma parse_element_iff:
  assumes "length raw < usize_max"
  shows "parse_element raw = Inr c \<longleftrightarrow> element_claims raw c"
proof -
  have len: "length (trim_ows raw) < usize_max" using length_trim_ows [of raw] assms by simp
  have short: "list_all (\<lambda>p. length p < usize_max) (split_top CHR '';'' (trim_ows raw))"
    using split_top_lengths(2) [of "CHR '';''" "trim_ows raw"] len by (fastforce simp: list_all_iff)
  have nr: "no_repeats []" by (simp add: no_repeats_def values_of_def)
  have out: "(es_node (state_of ps), es_proto (state_of ps), es_host_raw (state_of ps)) = claim_of ps" for ps
    by (simp add: state_of_def split: prod.split)
  show ?thesis
    using element_pairs_iff [OF short nr, unfolded state_of_start] out
    by (auto simp: parse_element_def Let_def element_claims_def and_then_Inr_iff)
qed

lemma param_of_length: "param_of raw = Some (n, v) \<Longrightarrow> length v < length raw"
proof -
  assume p: "param_of raw = Some (n, v)"
  then obtain i where i: "position (\<lambda>b. b = CHR ''='') (trim_ows raw) = Some i" "v = trim_ows (drop (Suc i) (trim_ows raw))"
    by (auto simp: param_of_def Let_def split: option.splits)
  have "i < length (trim_ows raw)" using i(1) by (simp add: position_Some_iff)
  then show ?thesis using i(2) length_trim_ows [of raw] length_trim_ows [of "drop (Suc i) (trim_ows raw)"] by simp
qed

lemma claimed_host_length:
  assumes "length raw < usize_max" and "element_claims raw (node, proto, Some h)"
  shows "length h < length raw"
proof -
  have len: "length (trim_ows raw) \<le> usize_max" "length (trim_ows raw) \<le> length raw" using length_trim_ows [of raw] assms(1) by simp_all
  obtain params where p: "map param_of (split_top CHR '';'' (trim_ows raw)) = map Some params" "param ''host'' params = Some h"
    using assms(2) by (auto simp: element_claims_def claim_of_def)
  then have "(''host'', h) \<in> set params" by (simp add: param_mem)
  then have "Some (''host'', h) \<in> param_of ` set (split_top CHR '';'' (trim_ows raw))"
    using arg_cong [OF p(1), of set] by auto
  then obtain q where "q \<in> set (split_top CHR '';'' (trim_ows raw))" "param_of q = Some (''host'', h)" by force
  then show ?thesis using param_of_length [of q] split_top_lengths(2) [OF semi_comma_not_quote(1) len(1)] len(2) by fastforce
qed

section \<open>The two loops\<close>

definition pieces :: "bytes list \<Rightarrow> bytes list" where
  "pieces vs = concat (map (split_top CHR '','') vs)"

definition total_length :: "bytes list \<Rightarrow> nat" where
  "total_length vs = sum_list (map length vs)"

lemma clamped_forwarded: "max_forwarded_bytes (clamped l) \<le> 65536"
  by (simp add: clamped_def clamp_to_def CEILING_def)

lemma charge_bytes_eq:
  "used \<le> 65536 \<Longrightarrow> max_forwarded_bytes l \<le> 65536 \<Longrightarrow>
   charge_bytes used n l = (if used + n \<le> max_forwarded_bytes l then Inr (used + n) else Inl ForwardedBytesLimit)"
  by (auto simp: charge_bytes_def Let_def sat_add32_def u32_max_def)

lemma list_all2_split_left:
  "list_all2 P (xs @ ys) zs \<longleftrightarrow> (\<exists>us vs. zs = us @ vs \<and> list_all2 P xs us \<and> list_all2 P ys vs)"
proof
  assume "list_all2 P (xs @ ys) zs"
  then show "\<exists>us vs. zs = us @ vs \<and> list_all2 P xs us \<and> list_all2 P ys vs" by (auto simp: list_all2_append1)
qed (auto intro: list_all2_appendI)

text \<open>What both families share: a step that appends one claim per span while there is room.\<close>

locale span_step =
  fixes limits :: http_limits
    and f :: "bytes \<Rightarrow> chain_state \<Rightarrow> reject_reason + chain_state"
    and denotes :: "bytes \<Rightarrow> 'p \<Rightarrow> bool"
    and st_of :: "nat \<Rightarrow> 'p list \<Rightarrow> chain_state"
    and before :: nat
  assumes bound: "max_forwarded_bytes limits \<le> 65536"
    and step: "length s \<le> 65536 \<Longrightarrow> f s (st_of used ps) = Inr st \<longleftrightarrow>
      before + length ps < max_forwarded_elements limits \<and> (\<exists>p. denotes s p \<and> st = st_of used (ps @ [p]))"
    and used: "cs_bytes (st_of used ps) = used" "cs_bytes_update (\<lambda>_. u) (st_of used ps) = st_of u ps"
begin

lemma spans_iff:
  "list_all (\<lambda>s. length s \<le> 65536) ss \<Longrightarrow> before + length ps \<le> max_forwarded_elements limits \<Longrightarrow>
   each_span f ss (st_of used ps) = (None, st) \<longleftrightarrow>
     before + length ps + length ss \<le> max_forwarded_elements limits \<and> (\<exists>qs. list_all2 denotes ss qs \<and> st = st_of used (ps @ qs))"
proof (induction ss arbitrary: ps)
  case (Cons s ss)
  have len: "length s \<le> 65536" using Cons.prems by simp
  have ih: "each_span f ss (st_of used (ps @ [p])) = (None, st) \<longleftrightarrow>
      before + length ps + length (s # ss) \<le> max_forwarded_elements limits \<and>
      (\<exists>qs. list_all2 denotes ss qs \<and> st = st_of used (ps @ p # qs))" if "before + length ps < max_forwarded_elements limits" for p
    using Cons.IH [of "ps @ [p]"] Cons.prems that by simp
  have "each_span f (s # ss) (st_of used ps) = (None, st) \<longleftrightarrow>
      (\<exists>st1. f s (st_of used ps) = Inr st1 \<and> each_span f ss st1 = (None, st))"
    by (simp split: sum.split)
  also have "\<dots> \<longleftrightarrow> before + length ps < max_forwarded_elements limits \<and>
      (\<exists>p. denotes s p \<and> each_span f ss (st_of used (ps @ [p])) = (None, st))"
    using step [OF len, of used ps] by auto
  also have "\<dots> \<longleftrightarrow> before + length ps + length (s # ss) \<le> max_forwarded_elements limits \<and>
      (\<exists>p qs. denotes s p \<and> list_all2 denotes ss qs \<and> st = st_of used (ps @ p # qs))"
    by (cases "before + length ps < max_forwarded_elements limits") (simp_all only: ih simp_thms ex_simps length_Cons, auto)
  also have "\<dots> \<longleftrightarrow> before + length ps + length (s # ss) \<le> max_forwarded_elements limits \<and>
      (\<exists>qs. list_all2 denotes (s # ss) qs \<and> st = st_of used (ps @ qs))"
    by (auto simp: list_all2_Cons1)
  finally show ?case .
qed auto

lemma values_iff:
  "before + length ps \<le> max_forwarded_elements limits \<Longrightarrow> n \<le> 65536 \<Longrightarrow> n \<le> max_forwarded_bytes limits \<Longrightarrow>
   each_value limits f vs (st_of n ps) = (None, st) \<longleftrightarrow>
     n + total_length vs \<le> max_forwarded_bytes limits \<and>
     before + length ps + length (pieces vs) \<le> max_forwarded_elements limits \<and>
     (\<exists>qs. list_all2 denotes (pieces vs) qs \<and> st = st_of (n + total_length vs) (ps @ qs))"
proof (induction vs arbitrary: ps n)
  case (Cons v vs)
  show ?case
  proof (cases "n + length v \<le> max_forwarded_bytes limits")
    case True
    then have v: "length v \<le> 65536" and n: "n + length v \<le> 65536" using bound by simp_all
    have small: "list_all (\<lambda>s. length s \<le> 65536) (split_top CHR '','' v)"
      using split_top_lengths(2) [of "CHR '',''" v] v by (fastforce simp: list_all_iff usize_max_def)
    have "each_value limits f (v # vs) (st_of n ps) = (None, st) \<longleftrightarrow>
        (\<exists>st1. each_span f (split_top CHR '','' v) (st_of (n + length v) ps) = (None, st1) \<and> each_value limits f vs st1 = (None, st))"
      using True charge_bytes_eq [OF Cons.prems(2) bound] used by (simp split: prod.split option.split)
    also have "\<dots> \<longleftrightarrow> before + length ps + length (split_top CHR '','' v) \<le> max_forwarded_elements limits \<and>
        (\<exists>qs. list_all2 denotes (split_top CHR '','' v) qs \<and> each_value limits f vs (st_of (n + length v) (ps @ qs)) = (None, st))"
      using spans_iff [OF small Cons.prems(1)] by auto
    also have "\<dots> \<longleftrightarrow> n + total_length (v # vs) \<le> max_forwarded_bytes limits \<and>
        before + length ps + length (pieces (v # vs)) \<le> max_forwarded_elements limits \<and>
        (\<exists>qs rs. list_all2 denotes (split_top CHR '','' v) qs \<and> list_all2 denotes (pieces vs) rs \<and>
           st = st_of (n + total_length (v # vs)) (ps @ qs @ rs))"
    proof (cases "before + length ps + length (split_top CHR '','' v) \<le> max_forwarded_elements limits")
      case room: True
      have "each_value limits f vs (st_of (n + length v) (ps @ qs)) = (None, st) \<longleftrightarrow>
          n + total_length (v # vs) \<le> max_forwarded_bytes limits \<and>
          before + length ps + length (pieces (v # vs)) \<le> max_forwarded_elements limits \<and>
          (\<exists>rs. list_all2 denotes (pieces vs) rs \<and> st = st_of (n + total_length (v # vs)) (ps @ qs @ rs))"
        if "list_all2 denotes (split_top CHR '','' v) qs" for qs
        using Cons.IH [OF _ n True, of "ps @ qs"] list_all2_lengthD [OF that] room
        by (simp add: total_length_def pieces_def add.assoc)
      then show ?thesis using room by blast
    qed (simp add: pieces_def)
    also have "\<dots> \<longleftrightarrow> n + total_length (v # vs) \<le> max_forwarded_bytes limits \<and>
        before + length ps + length (pieces (v # vs)) \<le> max_forwarded_elements limits \<and>
        (\<exists>qs. list_all2 denotes (pieces (v # vs)) qs \<and> st = st_of (n + total_length (v # vs)) (ps @ qs))"
      by (simp add: pieces_def list_all2_split_left) blast
    finally show ?thesis .
  next
    case False
    then show ?thesis
      using charge_bytes_eq [OF Cons.prems(2) bound] used by (simp add: total_length_def)
  qed
qed (auto simp: total_length_def pieces_def)

end

end
