(* ===== verification/Http_Peer_Text.thy ===== *)
theory Http_Peer_Text
  imports Http_Peer Http_Forwarded_Exact Http_Authority_Exact
begin

text \<open>
  The text forms of addresses: what the writers of \<^verbatim>\<open>peer.rs\<close> print, that their length functions agree with
  it, and that the strict parsers of the library read it back.
\<close>

section \<open>Decimal numbers\<close>

lemma write_decimal_eq:
  assumes "v \<le> u16_max"
  shows "write_decimal v out = (length (dec_text v), out @ dec_text v)" and "snd (decimal_digits v) = length (dec_text v)"
proof -
  obtain digits count where d: "decimal_digits v = (digits, count)" by (rule prod.exhaust)
  have len: "length (dec_text v) \<le> 10" using dec_text_length [of v 4] assms by (simp add: u16_max_def)
  note t = digits_text [OF d [unfolded decimal_digits_def] len]
  show "write_decimal v out = (length (dec_text v), out @ dec_text v)" "snd (decimal_digits v) = length (dec_text v)"
    using t d by (simp_all add: write_decimal_def)
qed

lemma to_digit_dec: "is_ascii_digit c \<Longrightarrow> to_digit 10 c = Some (byte_val c - 48)"
  by (auto simp: to_digit_def is_ascii_digit_def Let_def)

text \<open>A text at which reading digits of the radix stops.\<close>

definition stops :: "nat \<Rightarrow> bytes \<Rightarrow> bool" where
  "stops radix rest \<longleftrightarrow> (case rest of [] \<Rightarrow> True | b # _ \<Rightarrow> to_digit radix b = None)"

lemma read_digits_stop: "stops radix rest \<Longrightarrow> read_digits radix bound m v n rest = Some (v, n, rest)"
  by (auto simp: stops_def split: list.splits)

lemma read_digits_run:
  assumes "\<And>c. c \<in> set ds \<Longrightarrow> to_digit radix c = Some (val c)" and "stops radix rest" and "0 < radix"
  shows "n + length ds \<le> m \<Longrightarrow> foldl (\<lambda>v c. v * radix + val c) v ds \<le> bound \<Longrightarrow>
    read_digits radix bound m v n (ds @ rest) = Some (foldl (\<lambda>v c. v * radix + val c) v ds, n + length ds, rest)"
  using assms(1)
proof (induction ds arbitrary: v n)
  case Nil
  then show ?case using read_digits_stop [OF assms(2)] by simp
next
  case (Cons c ds)
  have mono: "x \<le> foldl (\<lambda>v c. v * radix + val c) x ds" for x :: nat
  proof (induction ds arbitrary: x)
    case (Cons c ds)
    have "x \<le> x * radix + val c" using assms(3) by (cases radix) simp_all
    then show ?case using Cons [of "x * radix + val c"] by simp
  qed simp
  have "v * radix + val c \<le> bound" using Cons.prems(2) mono [of "v * radix + val c"] by simp
  then show ?case using Cons by simp
qed

lemma dec_value_fold: "foldl (\<lambda>v c. v * 10 + (byte_val c - 48)) v ds = dec_value v ds"
  by (simp add: dec_value_def)

lemma dec_text_head: "n \<noteq> 0 \<Longrightarrow> hd (dec_text n) \<noteq> CHR ''0''"
proof (induction n rule: dec_text.induct)
  case (1 n)
  show ?case
  proof (cases "n < 10")
    case True
    then have "dec_text n = [char_of (48 + n)]" by (simp add: dec_text.simps [of n])
    moreover have "byte_val (char_of (48 + n) :: byte) = 48 + n" using digit_char [of n] True by simp
    ultimately show ?thesis using 1(2) by (auto dest: arg_cong [of _ _ byte_val])
  next
    case False
    then have "dec_text n = dec_text (n div 10) @ [char_of (48 + n mod 10)]" by (simp add: dec_text.simps [of n])
    then show ?thesis using 1(1) [OF False] False dec_text_facts [of "n div 10"] by (simp add: div_eq_0_iff)
  qed
qed

lemma read_number_dec:
  assumes "n \<le> 255" and "stops 10 rest"
  shows "read_number 10 255 3 False (dec_text n @ rest) = Some (n, rest)"
proof -
  have f: "list_all is_ascii_digit (dec_text n)" "dec_text n \<noteq> []" "dec_value 0 (dec_text n) = n" using dec_text_facts [of n] by simp_all
  have len: "length (dec_text n) \<le> 3" using dec_text_length [of n 2] assms(1) by simp
  have d: "\<And>c. c \<in> set (dec_text n) \<Longrightarrow> to_digit 10 c = Some (byte_val c - 48)" using f(1) to_digit_dec by (simp add: list_all_iff)
  have r: "read_digits 10 255 3 0 0 (dec_text n @ rest) = Some (n, length (dec_text n), rest)"
    using read_digits_run [OF d assms(2), where n = 0 and m = 3 and v = 0 and bound = 255] len f(3) assms(1) by (simp add: dec_value_fold)
  have "\<not> (get (dec_text n @ rest) 0 = Some CHR ''0'' \<and> length (dec_text n) > 1)"
  proof (cases "n = 0")
    case True
    then show ?thesis by (simp add: dec_text.simps)
  next
    case False
    then show ?thesis using dec_text_head [of n] f(2) by (cases "dec_text n") auto
  qed
  then show ?thesis using r f(2) by (simp add: read_number_def)
qed

section \<open>IPv4\<close>

definition v4_text :: "ipv4_addr \<Rightarrow> bytes" where
  "v4_text octets = join_with CHR ''.'' (map (dec_text \<circ> unat) octets)"

lemma octet_range: "unat (w :: 8 word) \<le> 255"
  using unsigned_less [of w, where ?'a = nat] by simp

lemma octet_text_length: "length (dec_text (unat (w :: 8 word))) \<le> 3"
  using dec_text_length [of "unat w" 2] octet_range [of w] by simp

lemma sat_add_small: "a + b \<le> 100000 \<Longrightarrow> sat_add a b = a + b"
  by (simp add: sat_add_def usize_max_def)

lemma octet_decimal:
  "write_decimal (unat (w :: 8 word)) out = (length (dec_text (unat w)), out @ dec_text (unat w))"
  "snd (decimal_digits (unat w)) = length (dec_text (unat w))"
  using write_decimal_eq [of "unat w"] octet_range [of w] by (simp_all add: u16_max_def)

lemma v4_write:
  assumes "length octets = 4"
  shows "write_octets 0 octets 0 out = (length (v4_text octets), out @ v4_text octets)"
    and "addr_text_len (IpAddr_V4 octets) = length (v4_text octets)" and "length (v4_text octets) \<le> 15"
proof -
  obtain a b c d where o4: "octets = [a, b, c, d]" using assms by (auto simp: numeral_eq_Suc length_Suc_conv)
  note l = octet_text_length [of a] octet_text_length [of b] octet_text_length [of c] octet_text_length [of d]
  show "write_octets 0 octets 0 out = (length (v4_text octets), out @ v4_text octets)"
    "addr_text_len (IpAddr_V4 octets) = length (v4_text octets)" "length (v4_text octets) \<le> 15"
    using l by (simp_all add: o4 v4_text_def octet_decimal sat_add_small)
qed

lemma dot_stops: "stops 10 (CHR ''.'' # rest)" "stops 10 []"
  by (simp_all add: stops_def to_digit_def)

lemma v4_read:
  assumes "length octets = 4"
  shows "ipv4_from_str (v4_text octets) = Some octets"
proof -
  obtain a b c d where o4: "octets = [a, b, c, d]" using assms by (auto simp: numeral_eq_Suc length_Suc_conv)
  have four: "(4 :: nat) = Suc (Suc (Suc (Suc 0)))" by simp
  note rd = read_number_dec [OF octet_range dot_stops(1)] read_number_dec [OF octet_range dot_stops(2), simplified]
  have "read_ipv4_addr (v4_text octets) = Some (octets, [])"
    unfolding read_ipv4_addr_def four by (simp add: o4 v4_text_def read_separator_def read_given_char_def rd)
  then show ?thesis using v4_write(3) [OF assms] by (simp add: ipv4_from_str_def parse_with_def)
qed

section \<open>Groups of an IPv6 address\<close>

definition hex_char :: "nat \<Rightarrow> byte" where
  "hex_char n = (case get HEX_DIGITS n of Some ch \<Rightarrow> ch | None \<Rightarrow> CHR ''0'')"

definition nibbles :: "nat \<Rightarrow> nat list" where
  "nibbles n = [n div 4096 mod 16, n div 256 mod 16, n div 16 mod 16, n mod 16]"

definition sig_nibbles :: "nat \<Rightarrow> nat list" where
  "sig_nibbles n = (if n < 16 then drop 3 else if n < 256 then drop 2 else if n < 4096 then drop 1 else (\<lambda>x. x)) (nibbles n)"

definition hex_text :: "16 word \<Rightarrow> bytes" where
  "hex_text g = map hex_char (sig_nibbles (unat g))"

lemma group_range: "unat (g :: 16 word) < 65536"
  using unsigned_less [of g, where ?'a = nat] by simp

lemma low_nibble: "unat (and (g :: 16 word) 0xF) = unat g mod 16"
proof -
  have "(0xF :: 16 word) = mask 4" by (simp add: mask_eq_exp_minus_1)
  then have "and g 0xF = take_bit 4 g" by (simp add: take_bit_eq_mask)
  then show ?thesis by (simp add: take_bit_eq_mod unat_mod)
qed

lemma group_nibbles_eq: "map unat (group_nibbles g) = nibbles (unat g)"
  by (simp add: group_nibbles_def nibbles_def low_nibble drop_bit_eq_div unat_div)

lemma nibbles_value:
  fixes n :: nat
  assumes "n < 65536"
  shows "n div 4096 mod 16 * 4096 + n div 256 mod 16 * 256 + n div 16 mod 16 * 16 + n mod 16 = n"
proof -
  have "n div 4096 mod 16 = n div 4096" using assms by (simp add: less_mult_imp_div_less)
  moreover have "n = n div 16 * 16 + n mod 16" "n div 16 = n div 256 * 16 + n div 16 mod 16" "n div 256 = n div 4096 * 16 + n div 256 mod 16"
    by (simp_all add: div_mod_decomp div_mult2_eq [of n 16 16, simplified] div_mult2_eq [of n 256 16, simplified])
  ultimately show ?thesis by linarith
qed

lemma first_nibble:
  assumes "n < 65536"
  shows "(case position (\<lambda>x. x \<noteq> 0) (nibbles n) of Some i \<Rightarrow> i | None \<Rightarrow> 3) =
    (if n < 16 then 3 else if n < 256 then 2 else if n < 4096 then 1 else 0)"
proof -
  have z: "n div 4096 mod 16 = 0 \<longleftrightarrow> n < 4096" "n < 4096 \<Longrightarrow> n div 256 mod 16 = 0 \<longleftrightarrow> n < 256" "n < 256 \<Longrightarrow> n div 16 mod 16 = 0 \<longleftrightarrow> n < 16"
    using assms by (simp_all add: less_mult_imp_div_less div_eq_0_iff)
  show ?thesis using z by (auto simp: nibbles_def)
qed

lemma write_group_eq: "write_group_hex g out = (length (hex_text g), out @ hex_text g)"
proof -
  define k where "k = (if unat g < 16 then 3 else if unat g < 256 then 2 else if unat g < 4096 then 1 else (0 :: nat))"
  have pos: "position (\<lambda>x. x \<noteq> 0) (map unat xs) = position (\<lambda>x. x \<noteq> 0) (xs :: 16 word list)" for xs
    by (induction xs) (simp_all add: unsigned_eq_0_iff)
  have f: "(case position (\<lambda>n. n \<noteq> 0) (group_nibbles g) of Some i \<Rightarrow> i | None \<Rightarrow> 3) = k"
    unfolding pos [symmetric] group_nibbles_eq first_nibble [OF group_range] k_def ..
  have "k \<le> length (group_nibbles g)" by (simp add: k_def group_nibbles_def)
  then have "(case get_from (group_nibbles g) k of Some ns \<Rightarrow> ns | None \<Rightarrow> []) = drop k (group_nibbles g)" by (simp add: get_from_def)
  moreover have "map (\<lambda>n. hex_char (unat n)) (drop k (group_nibbles g)) = hex_text g"
    unfolding hex_text_def sig_nibbles_def group_nibbles_eq [symmetric] by (simp add: k_def drop_map)
  ultimately show ?thesis unfolding write_group_hex_def Let_def f hex_char_def [symmetric] by simp
qed

lemma hex_text_length: "length (hex_text g) = group_hex_len g" "length (hex_text g) \<le> 4"
  by (simp_all add: hex_text_def sig_nibbles_def nibbles_def group_hex_len_def word_less_nat_alt)

lemma hex_char_digit: "n < 16 \<Longrightarrow> to_digit 16 (hex_char n) = Some n"
proof -
  have "list_all (\<lambda>n. to_digit 16 (hex_char n) = Some n) [0..<16]" by code_simp
  then show "n < 16 \<Longrightarrow> to_digit 16 (hex_char n) = Some n" by (auto simp: list_all_iff)
qed

lemma sig_nibbles_facts:
  assumes "n < 65536"
  shows "\<forall>d \<in> set (sig_nibbles n). d < 16" "sig_nibbles n \<noteq> []" "length (sig_nibbles n) \<le> 4" "foldl (\<lambda>v d. v * 16 + d) 0 (sig_nibbles n) = n"
proof -
  show "\<forall>d \<in> set (sig_nibbles n). d < 16" "sig_nibbles n \<noteq> []" "length (sig_nibbles n) \<le> 4"
    by (auto simp: sig_nibbles_def nibbles_def)
  show "foldl (\<lambda>v d. v * 16 + d) 0 (sig_nibbles n) = n"
    using nibbles_value [OF assms] assms by (auto simp: sig_nibbles_def nibbles_def less_mult_imp_div_less)
qed

lemma read_group:
  assumes "stops 16 rest"
  shows "read_number 16 65535 4 True (hex_text g @ rest) = Some (unat g, rest)"
proof -
  note s = sig_nibbles_facts [OF group_range [of g]]
  define val where "val = (\<lambda>c. the (to_digit 16 c))"
  have d: "\<And>c. c \<in> set (hex_text g) \<Longrightarrow> to_digit 16 c = Some (val c)"
    using s(1) hex_char_digit by (auto simp: hex_text_def val_def)
  have "foldl (\<lambda>v c. v * 16 + val c) 0 (hex_text g) = foldl (\<lambda>v d. v * 16 + d) 0 (sig_nibbles (unat g))"
    unfolding hex_text_def foldl_map using s(1) hex_char_digit by (intro foldl_cong) (auto simp: val_def)
  then have v: "foldl (\<lambda>v c. v * 16 + val c) 0 (hex_text g) = unat g" using s(4) by simp
  have ne: "length (hex_text g) \<noteq> 0" using s(2) by (simp add: hex_text_def)
  show ?thesis
    using read_digits_run [OF d assms, where n = 0 and m = 4 and v = 0 and bound = 65535] v ne hex_text_length(2) [of g] group_range [of g]
    by (simp add: read_number_def)
qed

section \<open>The compressed run\<close>

text \<open>A run of at least two zero groups, and a run that no other one beats: none is longer, and none as long starts
  further left.\<close>

definition zeros :: "ipv6_addr \<Rightarrow> nat \<Rightarrow> nat \<Rightarrow> bool" where
  "zeros segs s l \<longleftrightarrow> 2 \<le> l \<and> s + l \<le> length segs \<and> (\<forall>j. s \<le> j \<and> j < s + l \<longrightarrow> segs ! j = 0)"

definition best_upto :: "ipv6_addr \<Rightarrow> nat \<Rightarrow> (nat \<times> nat) option \<Rightarrow> bool" where
  "best_upto segs r best \<longleftrightarrow>
     (case best of
        None \<Rightarrow> \<not> (\<exists>s l. zeros segs s l \<and> s + l \<le> r)
      | Some (s, l) \<Rightarrow> zeros segs s l \<and> s + l \<le> r \<and>
          (\<forall>s' l'. zeros segs s' l' \<and> s' + l' \<le> r \<longrightarrow> l' < l \<or> l' = l \<and> s \<le> s'))"

lemma longer_run_best:
  assumes best: "best_upto segs (i - cl) best" and i: "cl \<le> i" "i \<le> length segs"
    and cur: "\<forall>j. i - cl \<le> j \<and> j < i \<longrightarrow> segs ! j = 0"
    and edge: "cl < i \<Longrightarrow> segs ! (i - cl - 1) \<noteq> 0"
  shows "best_upto segs i (longer_run best (i - cl) cl)"
proof -
  have inside: "i - cl \<le> s \<or> s + l \<le> i - cl" if "zeros segs s l" for s l
  proof (rule ccontr)
    assume n: "\<not> (i - cl \<le> s \<or> s + l \<le> i - cl)"
    then have "s \<le> i - cl - 1" "i - cl - 1 < s + l" "cl < i" by linarith+
    then show False using edge that unfolding zeros_def by blast
  qed
  have here: "zeros segs (i - cl) cl" if "2 \<le> cl" using that i cur by (simp add: zeros_def)
  have len: "l \<le> cl \<and> i - cl \<le> s" if "zeros segs s l" "s + l \<le> i" "\<not> s + l \<le> i - cl" for s l
    using inside [OF that(1)] that(2,3) i(1) by linarith
  show ?thesis
  proof (cases best)
    case None
    then have none: "\<not> (zeros segs s l \<and> s + l \<le> i - cl)" for s l using best by (auto simp: best_upto_def)
    show ?thesis
    proof (cases "2 \<le> cl")
      case True
      have "l' < cl \<or> l' = cl \<and> i - cl \<le> s'" if "zeros segs s' l'" "s' + l' \<le> i" for s' l'
        using len [OF that] none [of s' l'] that(1) by linarith
      then show ?thesis using True None here i(1) by (simp add: longer_run_def best_upto_def)
    next
      case False
      have "\<not> (zeros segs s' l' \<and> s' + l' \<le> i)" for s' l'
        using len [of s' l'] none [of s' l'] False by (auto simp: zeros_def)
      then show ?thesis using False None by (simp add: longer_run_def best_upto_def)
    qed
  next
    case (Some sl)
    obtain s l where sl: "best = Some (s, l)" using Some by (cases sl) simp
    have b: "zeros segs s l" "s + l \<le> i - cl" "\<And>s' l'. zeros segs s' l' \<Longrightarrow> s' + l' \<le> i - cl \<Longrightarrow> l' < l \<or> l' = l \<and> s \<le> s'"
      using best sl by (auto simp: best_upto_def)
    have l2: "2 \<le> l" using b(1) by (simp add: zeros_def)
    show ?thesis
    proof (cases "l < cl")
      case True
      have "l' < cl \<or> l' = cl \<and> i - cl \<le> s'" if "zeros segs s' l'" "s' + l' \<le> i" for s' l'
        using len [OF that] b(3) [OF that(1)] True by linarith
      then show ?thesis using True sl here i(1) l2 by (simp add: longer_run_def best_upto_def)
    next
      case False
      have "l' < l \<or> l' = l \<and> s \<le> s'" if "zeros segs s' l'" "s' + l' \<le> i" for s' l'
        using len [OF that] b(2) b(3) [OF that(1)] False by linarith
      then show ?thesis using False sl b(1,2) by (simp add: longer_run_def best_upto_def)
    qed
  qed
qed

lemma best_upto_Suc:
  assumes "segs ! i \<noteq> 0" and "best_upto segs i best"
  shows "best_upto segs (Suc i) best"
proof -
  have "s + l \<le> i" if "zeros segs s l" "s + l \<le> Suc i" for s l
  proof (rule ccontr)
    assume "\<not> s + l \<le> i"
    then have "s \<le> i" "i < s + l" using that by (simp_all add: zeros_def)
    then show False using that(1) assms(1) unfolding zeros_def by blast
  qed
  then show ?thesis using assms(2) unfolding best_upto_def by (auto split: option.splits)
qed

lemma zero_run_loop_best:
  assumes "length segs \<le> 8"
  shows "gs = drop i segs \<Longrightarrow> i \<le> length segs \<Longrightarrow> cl \<le> i \<Longrightarrow> (cl = 0 \<or> cs = i - cl) \<Longrightarrow> best_upto segs (i - cl) best \<Longrightarrow>
    \<forall>j. i - cl \<le> j \<and> j < i \<longrightarrow> segs ! j = 0 \<Longrightarrow> (cl < i \<longrightarrow> segs ! (i - cl - 1) \<noteq> 0) \<Longrightarrow>
    best_upto segs (length segs) (zero_run_loop i gs best cs cl)"
proof (induction i gs best cs cl rule: zero_run_loop.induct)
  case (1 i best cs cl)
  have i: "i = length segs" using 1 by simp
  have "longer_run best cs cl = longer_run best (i - cl) cl" using "1.prems"(4) by (auto simp: longer_run_def)
  then show ?case using longer_run_best [of segs i cl best] 1 i by simp
next
  case (2 i g gs best cs cl)
  have g: "g = segs ! i" "gs = drop (Suc i) segs" "i < length segs"
    using 2(3,4) by (metis drop_eq_Nil2 leI list.distinct(1) Cons_nth_drop_Suc list.inject)+
  show ?case
  proof (cases "g = 0")
    case True
    have cl: "sat_add cl (Suc 0) = Suc cl" using 2(5) g(3) assms by (simp add: sat_add_def usize_max_def)
    have "segs ! j = 0" if "Suc i - Suc cl \<le> j" "j < Suc i" for j
      using 2(8) that True g(1) by (cases "j = i") simp_all
    then show ?thesis using 2(1) [OF True g(2)] 2(5-9) True g(3) by (auto simp: cl)
  next
    case False
    have lr: "longer_run best cs cl = longer_run best (i - cl) cl" using 2(6) by (auto simp: longer_run_def)
    have "best_upto segs i (longer_run best cs cl)"
      unfolding lr using longer_run_best [of segs i cl best] 2(5-9) g(3) by simp
    then have "best_upto segs (Suc i - 0) (longer_run best cs cl)"
      using best_upto_Suc [of segs i] False g(1) by simp
    then have "best_upto segs (length segs) (zero_run_loop (Suc i) gs (longer_run best cs cl) cs 0)"
      by (intro 2(2) [OF False g(2)]) (use False g(1,3) in auto)
    then show ?thesis using False by simp
  qed
qed

lemma zero_run_best: "length segs = 8 \<Longrightarrow> best_upto segs 8 (zero_run segs)"
  using zero_run_loop_best [of segs segs 0 0 0 None] by (simp add: zero_run_def best_upto_def zeros_def)

section \<open>The text of an IPv6 address\<close>

definition groups_text :: "16 word list \<Rightarrow> bytes" where
  "groups_text gs = join_with CHR '':'' (map hex_text gs)"

definition v6_text :: "ipv6_addr \<Rightarrow> bytes" where
  "v6_text segs =
     (case zero_run segs of
        None \<Rightarrow> groups_text segs
      | Some (s, l) \<Rightarrow> groups_text (take s segs) @ ''::'' @ groups_text (drop (s + l) segs))"

lemma groups_text_simps: "groups_text [] = []" "groups_text [g] = hex_text g"
  "gs \<noteq> [] \<Longrightarrow> groups_text (g # gs) = hex_text g @ CHR '':'' # groups_text gs"
  by (simp_all add: groups_text_def join_with_cons)

text \<open>The loop past the compressed run, or without one: a separator if a group precedes, then the groups left.\<close>

definition tail_text :: "bool \<Rightarrow> 16 word list \<Rightarrow> bytes" where
  "tail_text wrote gs = (if wrote \<and> gs \<noteq> [] then CHR '':'' # groups_text gs else groups_text gs)"

lemma tail_text_cons: "tail_text wrote (g # gs) = (if wrote then '':'' else []) @ hex_text g @ tail_text True gs"
  by (cases gs) (simp_all add: tail_text_def groups_text_simps)

lemma tail_text_length: "length (tail_text wrote gs) \<le> 5 * length gs"
proof (induction gs arbitrary: wrote)
  case (Cons g gs)
  show ?case using Cons.IH [of True] hex_text_length(2) [of g] by (auto simp: tail_text_cons)
qed (simp add: tail_text_def groups_text_simps)

lemma write_ipv6_tail:
  assumes "length segs = 8"
  shows "\<forall>j \<ge> idx. run_here run j = None \<Longrightarrow> idx \<le> 8 \<Longrightarrow> written + 5 * (8 - idx) \<le> 100 \<Longrightarrow>
    write_ipv6_loop segs run idx wrote written out =
      (written + length (tail_text wrote (drop idx segs)), out @ tail_text wrote (drop idx segs))"
proof (induction "8 - idx" arbitrary: idx wrote written out)
  case 0
  then have "idx = 8" by simp
  then show ?case using assms by (simp add: write_ipv6_loop.simps [of _ _ 8] tail_text_def groups_text_simps)
next
  case (Suc k)
  then have idx: "idx < 8" by simp
  have seg: "segment_or_zero segs idx = segs ! idx" "drop idx segs = segs ! idx # drop (Suc idx) segs"
    using idx assms by (simp_all add: segment_or_zero_def Cons_nth_drop_Suc)
  let ?w = "written + (if wrote then 1 else 0) + length (hex_text (segs ! idx))"
  have "write_ipv6_loop segs run idx wrote written out =
      write_ipv6_loop segs run (Suc idx) True ?w ((out @ (if wrote then '':'' else [])) @ hex_text (segs ! idx))"
    using idx Suc(3,5) hex_text_length(2) [of "segs ! idx"]
    by (subst write_ipv6_loop.simps) (auto simp: seg write_group_eq sat_add_small Let_def)
  also have "\<dots> = (?w + length (tail_text True (drop (Suc idx) segs)),
      ((out @ (if wrote then '':'' else [])) @ hex_text (segs ! idx)) @ tail_text True (drop (Suc idx) segs))"
    by (rule Suc(1)) (use Suc(2-5) idx hex_text_length(2) [of "segs ! idx"] in auto)
  finally show ?case by (simp add: seg tail_text_cons)
qed

lemma write_ipv6_front:
  assumes "length segs = 8" and "s + l \<le> 8" and "2 \<le> l"
  shows "idx \<le> s \<Longrightarrow> written + 5 * (8 - idx) + 2 \<le> 100 \<Longrightarrow>
    write_ipv6_loop segs (Some (s, l)) idx wrote written out =
      (let t = tail_text wrote (take (s - idx) (drop idx segs)) @ ''::'' @ groups_text (drop (s + l) segs)
       in (written + length t, out @ t))"
proof (induction "s - idx" arbitrary: idx wrote written out)
  case 0
  then have idx: "idx = s" by simp
  have "write_ipv6_loop segs (Some (s, l)) s wrote written out = write_ipv6_loop segs (Some (s, l)) (s + l) False (written + 2) (out @ ''::'')"
    using assms 0(3) by (subst write_ipv6_loop.simps) (simp add: run_here_def sat_add_small)
  also have "\<dots> = (written + 2 + length (tail_text False (drop (s + l) segs)), (out @ ''::'') @ tail_text False (drop (s + l) segs))"
    using write_ipv6_tail [OF assms(1), of "s + l" "Some (s, l)" "written + 2" False "out @ ''::''"] assms 0(3) idx
    by (auto simp: run_here_def)
  finally show ?case by (simp add: idx tail_text_def groups_text_simps)
next
  case (Suc k)
  then have idx: "idx < s" "idx < 8" using assms by simp_all
  have seg: "segment_or_zero segs idx = segs ! idx" "drop idx segs = segs ! idx # drop (Suc idx) segs"
    using idx assms by (simp_all add: segment_or_zero_def Cons_nth_drop_Suc)
  have k: "s - idx = Suc (s - Suc idx)" using idx by simp
  let ?w = "written + (if wrote then 1 else 0) + length (hex_text (segs ! idx))"
  have "write_ipv6_loop segs (Some (s, l)) idx wrote written out =
      write_ipv6_loop segs (Some (s, l)) (Suc idx) True ?w ((out @ (if wrote then '':'' else [])) @ hex_text (segs ! idx))"
    using idx Suc(4) hex_text_length(2) [of "segs ! idx"]
    by (subst write_ipv6_loop.simps) (auto simp: seg write_group_eq sat_add_small Let_def run_here_def)
  also have "\<dots> = (let t = tail_text True (take (s - Suc idx) (drop (Suc idx) segs)) @ ''::'' @ groups_text (drop (s + l) segs)
      in (?w + length t, ((out @ (if wrote then '':'' else [])) @ hex_text (segs ! idx)) @ t))"
    by (rule Suc(1)) (use Suc(2-4) idx hex_text_length(2) [of "segs ! idx"] in auto)
  finally show ?case by (simp add: seg k tail_text_cons Let_def)
qed

lemma v6_write:
  assumes "length segs = 8"
  shows "write_ipv6_canonical segs out = (length (v6_text segs), out @ v6_text segs)" and "length (v6_text segs) \<le> 42"
proof -
  have len: "length (groups_text gs) \<le> 5 * length gs" for gs
    using tail_text_length [of False gs] by (simp add: tail_text_def)
  have "write_ipv6_canonical segs out = (length (v6_text segs), out @ v6_text segs) \<and> length (v6_text segs) \<le> 42"
  proof (cases "zero_run segs")
    case None
    then show ?thesis
      using write_ipv6_tail [OF assms, of 0 None 0 False out] len [of segs] assms
      by (simp add: write_ipv6_canonical_def v6_text_def run_here_def tail_text_def)
  next
    case (Some sl)
    obtain s l where sl: "zero_run segs = Some (s, l)" using Some by (cases sl) simp
    have z: "s + l \<le> 8" "2 \<le> l" using zero_run_best [OF assms] sl assms by (simp_all add: best_upto_def zeros_def)
    show ?thesis
      using write_ipv6_front [OF assms z, of 0 0 False out] len [of "take s segs"] len [of "drop (s + l) segs"] z assms
      by (simp add: write_ipv6_canonical_def v6_text_def sl tail_text_def Let_def)
  qed
  then show "write_ipv6_canonical segs out = (length (v6_text segs), out @ v6_text segs)" "length (v6_text segs) \<le> 42" by simp_all
qed

lemma ipv6_len_loop_eq: "ipv6_len_loop segs run idx wrote len = fst (write_ipv6_loop segs run idx wrote len out)"
proof (induction segs run idx wrote len arbitrary: out rule: ipv6_len_loop.induct)
  case (1 segs run idx wrote len)
  show ?case
    using 1 by (subst ipv6_len_loop.simps, subst write_ipv6_loop.simps)
      (auto simp: write_group_eq hex_text_length(1) Let_def split: option.split)
qed

lemma v6_len: "length segs = 8 \<Longrightarrow> ipv6_canonical_len segs = length (v6_text segs)"
  using ipv6_len_loop_eq [of segs "zero_run segs" 0 False 0 "[]"] v6_write(1) [of segs "[]"]
  by (simp add: ipv6_canonical_len_def write_ipv6_canonical_def)

section \<open>Reading it back\<close>

lemma hex_text_digits: "c \<in> set (hex_text g) \<Longrightarrow> to_digit 16 c \<noteq> None"
  using sig_nibbles_facts(1) [OF group_range [of g]] hex_char_digit by (auto simp: hex_text_def)

lemma tail_text_bytes: "c \<in> set (tail_text wrote gs) \<Longrightarrow> to_digit 16 c \<noteq> None \<or> c = CHR '':''"
proof (induction gs arbitrary: wrote)
  case (Cons g gs)
  show ?case using Cons.prems Cons.IH [of True] hex_text_digits [of c g] by (auto simp: tail_text_cons split: if_splits)
qed (simp add: tail_text_def groups_text_simps)

lemma groups_tail: "groups_text gs = tail_text False gs"
  by (simp add: tail_text_def)

lemma dot_colon_digit: "to_digit 16 CHR ''.'' = None" "to_digit 16 CHR '':'' = None" "to_digit 16 CHR '']'' = None"
  by code_simp+

lemma no_dot: "CHR ''.'' \<notin> set (tail_text wrote gs)"
  using tail_text_bytes [of "CHR ''.''" wrote gs] dot_colon_digit(1) by auto

lemma separator_no_dot: "CHR ''.'' \<notin> set s \<Longrightarrow> read_separator CHR '':'' i read_ipv4_addr s = None"
  using read_ipv4_needs_dot [of s] read_ipv4_needs_dot [of "tl s"]
  by (cases s) (auto simp: read_separator_def read_given_char_def)

lemma read_groups_text:
  "CHR ''.'' \<notin> set rest \<Longrightarrow> length gs \<le> k \<Longrightarrow> stops 16 rest \<Longrightarrow>
   (length gs < k \<Longrightarrow> read_separator CHR '':'' (i + length gs) (read_number 16 65535 4 True) rest = None) \<Longrightarrow>
   read_groups i k (tail_text (0 < i) gs @ rest) = (gs, False, rest)"
proof (induction gs arbitrary: i k)
  case Nil
  then show ?case using separator_no_dot [of rest i] by (cases k) (simp_all add: tail_text_def groups_text_simps)
next
  case (Cons g gs)
  obtain k' where k: "k = Suc k'" using Cons.prems(2) by (cases k) simp_all
  let ?s = "tail_text (0 < i) (g # gs) @ rest" and ?t = "tail_text True gs @ rest"
  have nd: "CHR ''.'' \<notin> set ?s" using Cons.prems(1) no_dot by auto
  have st: "stops 16 ?t" using Cons.prems(3) dot_colon_digit(2) by (cases gs) (auto simp: stops_def tail_text_def groups_text_simps)
  have g: "read_separator CHR '':'' i (read_number 16 65535 4 True) ?s = Some (unat g, ?t)"
    using read_group [OF st, of g] by (simp add: read_separator_def read_given_char_def tail_text_cons)
  have "read_groups (Suc i) k' ?t = (gs, False, rest)"
    using Cons.IH [of k' "Suc i"] Cons.prems k by simp
  then show ?case unfolding k read_groups.simps separator_no_dot [OF nd] g by simp
qed

lemma zero_middle: "zeros segs s l \<Longrightarrow> take s segs @ replicate l 0 @ drop (s + l) segs = segs"
proof (rule nth_equalityI)
  assume z: "zeros segs s l"
  show "length (take s segs @ replicate l 0 @ drop (s + l) segs) = length segs" using z by (simp add: zeros_def)
  fix i assume "i < length (take s segs @ replicate l 0 @ drop (s + l) segs)"
  then show "(take s segs @ replicate l 0 @ drop (s + l) segs) ! i = segs ! i"
    using z by (auto simp: zeros_def nth_append min_def)
qed

lemma colon_stop: "stops 16 (CHR '':'' # t)" "read_number 16 65535 4 True (CHR '':'' # t) = None"
  using dot_colon_digit(2) by (simp_all add: stops_def read_number_def)

lemma empty_stop: "stops 16 []" "read_separator CHR '':'' i (read_number 16 65535 4 True) [] = None"
  by (simp_all add: stops_def read_separator_def read_given_char_def read_number_def)

lemma v6_read:
  assumes "length segs = 8"
  shows "ipv6_from_str (v6_text segs) = Some segs"
proof (cases "zero_run segs")
  case None
  have "read_groups 0 8 (tail_text (0 < (0 :: nat)) segs @ []) = (segs, False, [])"
    by (rule read_groups_text) (use assms empty_stop in auto)
  then show ?thesis
    using assms None by (simp add: ipv6_from_str_def parse_with_def read_ipv6_addr_def v6_text_def groups_tail)
next
  case (Some sl)
  obtain s l where sl: "zero_run segs = Some (s, l)" using Some by (cases sl) simp
  have z: "zeros segs s l" "s + l \<le> 8" "2 \<le> l" using zero_run_best [OF assms] sl by (auto simp: best_upto_def zeros_def)
  let ?head = "take s segs" and ?tail = "drop (s + l) segs"
  let ?rest = "CHR '':'' # CHR '':'' # tail_text False ?tail"
  have head: "read_groups 0 8 (tail_text (0 < (0 :: nat)) ?head @ ?rest) = (?head, False, ?rest)"
    by (rule read_groups_text) (use z assms no_dot colon_stop in \<open>auto simp: read_separator_def read_given_char_def\<close>)
  have tail: "read_groups 0 (8 - (s + 1)) (tail_text (0 < (0 :: nat)) ?tail @ []) = (?tail, False, [])"
    by (rule read_groups_text) (use z assms empty_stop in auto)
  have len: "length ?head = s" "8 - s - length ?tail = l" using z assms by simp_all
  have "read_ipv6_addr (v6_text segs) = Some (?head @ replicate l 0 @ ?tail, [])"
    using head tail len z by (simp add: read_ipv6_addr_def v6_text_def sl groups_tail read_given_char_def)
  then show ?thesis using zero_middle [OF z(1)] by (simp add: ipv6_from_str_def parse_with_def)
qed

end
