(* ===== verification/Http_Peer_Walk.thy ===== *)
theory Http_Peer_Walk
  imports Http_Peer
begin

text \<open>
  The trust walk against its declarative meaning: which element of the chain names the client, and why entries a
  client adds on the left cannot change an identity that the walk resolved.
\<close>

section \<open>Who the client is\<close>

definition policy_trusts :: "trust_policy \<Rightarrow> ip_addr \<Rightarrow> bool" where
  "policy_trusts policy a =
     (case policy of TrustPolicy_TrustedCidrs cidrs \<Rightarrow> list_ex (\<lambda>c. cidr_contains c a) cidrs | _ \<Rightarrow> False)"

definition element_trusted :: "trust_policy \<Rightarrow> forwarded_element \<Rightarrow> bool" where
  "element_trusted policy e = (case fe_node e of NodeName_Addr a _ \<Rightarrow> policy_trusts policy a | _ \<Rightarrow> False)"

definition base_addr :: "socket_addr \<Rightarrow> socket_addr option \<Rightarrow> socket_addr" where
  "base_addr socket_peer proxy_proto = (case proxy_proto of Some d \<Rightarrow> d | None \<Rightarrow> socket_peer)"

definition base_identity :: "socket_addr \<Rightarrow> socket_addr option \<Rightarrow> trust_policy \<Rightarrow> peer_identity" where
  "base_identity socket_peer proxy_proto policy =
     (let b = base_addr socket_peer proxy_proto
      in \<lparr>pi_client = sa_ip b, pi_client_port = Some (sa_port b),
          pi_source = (if proxy_proto = None then IdentitySource_Socket else IdentitySource_ProxyProtocol),
          pi_forwarded_proto = None, pi_trusted_hops = 0, pi_peer_trusted = policy_trusts policy (sa_ip b)\<rparr>)"

text \<open>The element after \<open>left\<close> and before \<open>right\<close> is the client's, with the number of hops reported for it.\<close>

definition names_client ::
  "trust_policy \<Rightarrow> ip_addr \<Rightarrow> forwarded_element list \<Rightarrow> forwarded_element \<Rightarrow> forwarded_element list \<Rightarrow> nat \<Rightarrow> bool" where
  "names_client policy base left e right hops \<longleftrightarrow>
     \<not> chain_mixes_families (left @ e # right) \<and>
     (case policy of
        TrustPolicy_None \<Rightarrow> False
      | TrustPolicy_HopCount n \<Rightarrow> n = Suc (length right) \<and> hops = n
      | TrustPolicy_TrustedCidrs _ \<Rightarrow>
          policy_trusts policy base \<and> list_all (element_trusted policy) right \<and>
          (left = [] \<or> \<not> element_trusted policy e) \<and>
          hops = min 255 (length right + (if element_trusted policy e then 1 else 0)))"

definition chain_identity ::
  "trust_policy \<Rightarrow> ip_addr \<Rightarrow> ip_addr \<Rightarrow> nat option \<Rightarrow> forwarded_element list \<Rightarrow> nat \<Rightarrow> peer_identity" where
  "chain_identity policy base a port from_client hops =
     \<lparr>pi_client = a, pi_client_port = port, pi_source = IdentitySource_ForwardedChain,
      pi_forwarded_proto = find_proto from_client, pi_trusted_hops = hops, pi_peer_trusted = policy_trusts policy base\<rparr>"

section \<open>The loop\<close>

lemma nearest_proto_split [simp]: "nearest_proto (left @ rest) (length left) = find_proto rest"
  by (simp add: nearest_proto_def get_from_def)

definition client_of :: "forwarded_element \<Rightarrow> nat \<Rightarrow> nat \<Rightarrow> walk_outcome" where
  "client_of e i hops =
     (case fe_node e of NodeName_Addr a p \<Rightarrow> WalkOutcome_Client i a p (min 255 hops) | _ \<Rightarrow> WalkOutcome_FailClosed)"

text \<open>The outcome, given the part \<open>l\<close> of the chain that is left of the trusted hops.\<close>

definition walk_spec :: "forwarded_element list \<Rightarrow> forwarded_element list \<Rightarrow> walk_outcome" where
  "walk_spec l es = (if l = [] then client_of (hd es) 0 (length es) else client_of (last l) (length l - 1) (length es - length l))"

lemma walk_loop_eq:
  fixes cidrs :: "ip_cidr list"
  defines "T \<equiv> element_trusted (TrustPolicy_TrustedCidrs cidrs)"
  assumes "length right = offset" and "list_all T right" and "left \<noteq> []"
  shows "walk_loop (left @ right) cidrs offset (min u32_max offset) (length left) =
     walk_spec (rev (dropWhile T (rev left))) (left @ right)"
  using assms(2-4)
proof (induction left arbitrary: right offset rule: rev_induct)
  case (snoc e left)
  have idx: "length ((left @ [e]) @ right) - 1 - offset = length left" using snoc.prems(1) by simp
  have at: "get ((left @ [e]) @ right) (length left) = Some e" by simp
  have hop: "sat_add32 (min u32_max offset) (Suc 0) = min u32_max (Suc offset)" by (simp add: sat_add32_def)
  have sat: "saturate_hops (min u32_max n) = min 255 n" for n by (simp add: saturate_hops_def u32_max_def)
  have step: "walk_loop ((left @ [e]) @ right) cidrs offset (min u32_max offset) (length (left @ [e])) =
      (if T e then
         if left = [] then client_of e 0 (Suc offset)
         else walk_loop (left @ e # right) cidrs (Suc offset) (min u32_max (Suc offset)) (length left)
       else client_of e (length left) offset)"
    using idx at
    by (simp add: Let_def hop sat T_def element_trusted_def policy_trusts_def client_of_def split: node_name.split)
  show ?case
  proof (cases "T e \<and> left \<noteq> []")
    case True
    then have "walk_loop (left @ e # right) cidrs (Suc offset) (min u32_max (Suc offset)) (length left) =
        walk_spec (rev (dropWhile T (rev left))) (left @ e # right)"
      using snoc.IH [of "e # right" "Suc offset"] snoc.prems by simp
    then show ?thesis unfolding step using True by simp
  next
    case False
    then show ?thesis unfolding step walk_spec_def using snoc.prems(1) by auto
  qed
qed simp

lemma walk_trusted_cidrs_eq:
  "es \<noteq> [] \<Longrightarrow> walk_trusted_cidrs es cidrs =
     walk_spec (rev (dropWhile (element_trusted (TrustPolicy_TrustedCidrs cidrs)) (rev es))) es"
  using walk_loop_eq [of "[]" 0 cidrs es] by (simp add: walk_trusted_cidrs_def)

lemma walk_client:
  fixes cidrs :: "ip_cidr list"
  defines "P \<equiv> TrustPolicy_TrustedCidrs cidrs"
  assumes "list_all (element_trusted P) right" and "left = [] \<or> \<not> element_trusted P e" and "fe_node e = NodeName_Addr a p"
  shows "walk_trusted_cidrs (left @ e # right) cidrs =
     WalkOutcome_Client (length left) a p (min 255 (length right + (if element_trusted P e then 1 else 0)))"
proof -
  have right: "dropWhile (element_trusted P) (rev right @ xs) = dropWhile (element_trusted P) xs" for xs
    using assms(2) by (intro dropWhile_append2) (simp add: list_all_iff)
  show ?thesis
  proof (cases "element_trusted P e")
    case True
    then have "left = []" using assms(3) by simp
    then show ?thesis using True right assms(4) walk_trusted_cidrs_eq [of "left @ e # right" cidrs]
      by (simp add: P_def walk_spec_def client_of_def)
  next
    case False
    then have "rev (dropWhile (element_trusted P) (rev (left @ e # right))) = left @ [e]" using right by simp
    then show ?thesis
      using False assms(4) walk_trusted_cidrs_eq [of "left @ e # right" cidrs]
      by (simp add: P_def walk_spec_def client_of_def)
  qed
qed

lemma walk_Client_split:
  fixes cidrs :: "ip_cidr list"
  defines "P \<equiv> TrustPolicy_TrustedCidrs cidrs"
  assumes "walk_trusted_cidrs es cidrs = WalkOutcome_Client i a p hops"
  obtains left e right where "es = left @ e # right" "fe_node e = NodeName_Addr a p"
    "list_all (element_trusted P) right" "left = [] \<or> \<not> element_trusted P e"
proof -
  let ?l = "rev (dropWhile (element_trusted P) (rev es))" and ?r = "rev (takeWhile (element_trusted P) (rev es))"
  have es: "es = ?l @ ?r" by (metis rev_append rev_rev_ident takeWhile_dropWhile_id)
  have all: "list_all (element_trusted P) ?r" by (auto simp: list_all_iff dest: set_takeWhileD)
  have ne: "es \<noteq> []" using assms(2) by (auto simp: walk_trusted_cidrs_def)
  have w: "walk_spec ?l es = WalkOutcome_Client i a p hops"
    using assms(2) walk_trusted_cidrs_eq [OF ne, of cidrs] by (simp add: P_def)
  show ?thesis
  proof (cases ?l rule: rev_cases)
    case Nil
    then obtain e r where r: "es = e # r" using ne by (cases es) auto
    have "list_all (element_trusted P) es" using all es Nil by (metis append_Nil)
    then have "list_all (element_trusted P) r" using r by simp
    then show ?thesis using that [of "[]" e r] w Nil r by (auto simp: walk_spec_def client_of_def split: node_name.splits)
  next
    case (snoc l e)
    have "\<not> element_trusted P e"
      using snoc hd_dropWhile [of "element_trusted P" "rev es"] by (metis append_is_Nil_conv last_rev last_snoc rev_is_Nil_conv rev_rev_ident list.distinct(1))
    moreover have "fe_node e = NodeName_Addr a p" using w snoc by (auto simp: walk_spec_def client_of_def split: node_name.splits)
    ultimately show ?thesis using that [of l e ?r] es all snoc by simp
  qed
qed

section \<open>Resolution\<close>

lemma resolve_client:
  assumes "fc_elements chain = left @ e # right" and "fe_node e = NodeName_Addr a p"
    and "names_client policy (sa_ip (base_addr s pp)) left e right hops"
  shows "resolve_identity s pp chain policy = chain_identity policy (sa_ip (base_addr s pp)) a p (e # right) hops"
proof -
  have nth: "get (left @ e # right) (length left) = Some e" by simp
  show ?thesis
    using assms walk_client [of _ right left e a p]
    by (cases policy; cases pp)
       (auto simp: resolve_identity_def Let_def names_client_def chain_identity_def base_addr_def policy_trusts_def
          chain_is_empty_def nth simp del: get_Some_iff get_in)
qed

lemma resolve_base:
  assumes "\<nexists>left e right a p hops. fc_elements chain = left @ e # right \<and> fe_node e = NodeName_Addr a p \<and>
      names_client policy (sa_ip (base_addr s pp)) left e right hops"
  shows "resolve_identity s pp chain policy = base_identity s pp policy"
proof (cases policy)
  case TrustPolicy_None
  then show ?thesis
    by (cases pp) (simp_all add: resolve_identity_def base_identity_def base_addr_def policy_trusts_def)
next
  case (TrustPolicy_HopCount n)
  let ?es = "fc_elements chain"
  have no: "chain_mixes_families ?es \<or> length ?es < n \<or> n = 0 \<or> terminates_walk (fe_node (?es ! (length ?es - n)))"
  proof (rule ccontr)
    let ?i = "length ?es - n"
    assume neg: "\<not> (chain_mixes_families ?es \<or> length ?es < n \<or> n = 0 \<or> terminates_walk (fe_node (?es ! ?i)))"
    then have "0 < n" "n \<le> length ?es" by simp_all
    then have i: "?i < length ?es" by linarith
    then have es: "?es = take ?i ?es @ ?es ! ?i # drop (Suc ?i) ?es" by (rule id_take_nth_drop)
    obtain a p where "fe_node (?es ! ?i) = NodeName_Addr a p" using neg by (auto simp: terminates_walk_def split: node_name.splits)
    moreover have "names_client policy (sa_ip (base_addr s pp)) (take ?i ?es) (?es ! ?i) (drop (Suc ?i) ?es) n"
      using neg TrustPolicy_HopCount es by (simp add: names_client_def Suc_diff_Suc)
    ultimately show False using assms es by blast
  qed
  then show ?thesis
    using TrustPolicy_HopCount
    by (cases pp) (auto simp: resolve_identity_def Let_def base_identity_def base_addr_def policy_trusts_def terminates_walk_def
        split: node_name.splits option.splits)
next
  case (TrustPolicy_TrustedCidrs cidrs)
  let ?es = "fc_elements chain"
  have no: "\<not> policy_trusts policy (sa_ip (base_addr s pp)) \<or> ?es = [] \<or> chain_mixes_families ?es \<or>
      walk_trusted_cidrs ?es cidrs = WalkOutcome_FailClosed"
  proof (rule ccontr)
    assume neg: "\<not> (\<not> policy_trusts policy (sa_ip (base_addr s pp)) \<or> ?es = [] \<or> chain_mixes_families ?es \<or>
      walk_trusted_cidrs ?es cidrs = WalkOutcome_FailClosed)"
    then obtain i a p hops where "walk_trusted_cidrs ?es cidrs = WalkOutcome_Client i a p hops"
      by (cases "walk_trusted_cidrs ?es cidrs") auto
    then obtain left e right where c: "?es = left @ e # right" "fe_node e = NodeName_Addr a p"
      "list_all (element_trusted policy) right" "left = [] \<or> \<not> element_trusted policy e"
      using TrustPolicy_TrustedCidrs by (metis walk_Client_split)
    then have "names_client policy (sa_ip (base_addr s pp)) left e right (min 255 (length right + (if element_trusted policy e then 1 else 0)))"
      using neg TrustPolicy_TrustedCidrs by (simp add: names_client_def)
    then show False using assms c(1,2) by blast
  qed
  then show ?thesis
    using TrustPolicy_TrustedCidrs
    by (cases pp) (auto simp: resolve_identity_def Let_def base_identity_def base_addr_def policy_trusts_def chain_is_empty_def)
qed

text \<open>Entries added on the left of a resolved client change nothing, unless the client's own address is trusted.\<close>

lemma names_client_pad:
  assumes "names_client policy base left e right hops" and "fe_node e = NodeName_Addr a p"
    and "\<not> policy_trusts policy a" and "\<not> chain_mixes_families (pad @ left @ e # right)"
  shows "names_client policy base (pad @ left) e right hops"
  using assms by (auto simp: names_client_def element_trusted_def split: trust_policy.splits)

lemma resolve_pad:
  assumes "pi_source (resolve_identity s pp chain policy) = IdentitySource_ForwardedChain"
    and "\<not> policy_trusts policy (pi_client (resolve_identity s pp chain policy))"
    and "\<not> chain_mixes_families (pad @ fc_elements chain)"
    and "fc_elements chain' = pad @ fc_elements chain"
  shows "resolve_identity s pp chain' policy = resolve_identity s pp chain policy"
proof (cases "\<exists>left e right a p hops. fc_elements chain = left @ e # right \<and> fe_node e = NodeName_Addr a p \<and>
      names_client policy (sa_ip (base_addr s pp)) left e right hops")
  case True
  then obtain left e right a p hops where c: "fc_elements chain = left @ e # right" "fe_node e = NodeName_Addr a p"
    "names_client policy (sa_ip (base_addr s pp)) left e right hops" by blast
  have r: "resolve_identity s pp chain policy = chain_identity policy (sa_ip (base_addr s pp)) a p (e # right) hops"
    by (rule resolve_client [OF c])
  have "names_client policy (sa_ip (base_addr s pp)) (pad @ left) e right hops"
    using names_client_pad [OF c(3,2)] assms(2,3) c(1) r by (simp add: chain_identity_def)
  then show ?thesis using resolve_client [of chain' "pad @ left" e right] assms(4) c r by simp
next
  case False
  then have "resolve_identity s pp chain policy = base_identity s pp policy" by (rule resolve_base)
  then show ?thesis using assms(1) by (simp add: base_identity_def Let_def split: if_splits)
qed

end
