(* ===== verification/Http_Forwarded_Chain.thy ===== *)
theory Http_Forwarded_Chain
  imports Http_Forwarded_Exact
begin

text \<open>
  The whole chain: both loops instantiate the shared contract, a chain is accepted exactly when it is within the
  limits and every element is well formed, and its claims are those of the elements in order.
\<close>

section \<open>States reached by the loops\<close>

type_synonym claim = "node_name \<times> scheme option \<times> bytes option"

fun fwd_element :: "claim \<Rightarrow> forwarded_element" where
  "fwd_element (node, proto, _) = \<lparr>fe_node = node, fe_proto = proto, fe_from_xff = False\<rparr>"

definition xff_element :: "bytes \<Rightarrow> forwarded_element" where
  "xff_element token = \<lparr>fe_node = parse_node_name token, fe_proto = None, fe_from_xff = True\<rparr>"

definition unquoted :: "bytes \<Rightarrow> bytes" where
  "unquoted raw = write_unquoted raw []"

definition hosts_of :: "claim list \<Rightarrow> bytes list" where
  "hosts_of ps = map unquoted (List.map_filter (snd \<circ> snd) ps)"

definition host_span :: "bytes list \<Rightarrow> (nat \<times> nat) option" where
  "host_span hs = (if hs = [] then None else Some (min u32_max (length (concat (butlast hs))), min u16_max (length (last hs))))"

definition fwd_state :: "bytes \<Rightarrow> nat \<Rightarrow> claim list \<Rightarrow> chain_state" where
  "fwd_state out used ps = \<lparr>cs_elements = map fwd_element ps, cs_host = host_span (hosts_of ps), cs_bytes = used,
     cs_out = out @ concat (hosts_of ps)\<rparr>"

definition xff_denotes :: "bytes \<Rightarrow> bytes \<Rightarrow> bool" where
  "xff_denotes s token \<longleftrightarrow> token = trim_ows s \<and> token \<noteq> []"

definition xff_state :: "chain_state \<Rightarrow> nat \<Rightarrow> bytes list \<Rightarrow> chain_state" where
  "xff_state st used tokens = st\<lparr>cs_bytes := used, cs_elements := cs_elements st @ map xff_element tokens\<rparr>"

lemma write_interior_append: "write_interior e bs out = out @ write_interior e bs []"
proof (induction bs arbitrary: e out)
  case (Cons b bs)
  show ?case using Cons [of True out] Cons [of False "out @ [b]"] Cons [of False "[b]"] by simp
qed simp

lemma write_unquoted_append: "write_unquoted raw out = out @ unquoted raw"
  using write_interior_append [of False "quoted_interior raw" out] by (simp add: write_unquoted_def unquoted_def)

lemma hosts_of_snoc: "hosts_of (ps @ [(n, p, h)]) = hosts_of ps @ (case h of None \<Rightarrow> [] | Some raw \<Rightarrow> [unquoted raw])"
  by (simp add: hosts_of_def List.map_filter_def split: option.split)

lemma forwarded_span_eq:
  "forwarded_span (length out) lim s (fwd_state out used ps) =
     (if length ps \<ge> max_forwarded_elements lim then Inl ForwardedElementLimit
      else and_then (parse_element s) (\<lambda>p. Inr (fwd_state out used (ps @ [p]))))"
  by (auto simp: forwarded_span_def fwd_state_def hosts_of_snoc host_span_def write_unquoted_append and_then_def Let_def
      split: sum.split option.split)

lemma xff_span_eq:
  "xff_span lim s (xff_state st used tokens) =
     (if length (cs_elements st) + length tokens \<ge> max_forwarded_elements lim then Inl ForwardedElementLimit
      else if trim_ows s = [] then Inl ForwardedSyntax else Inr (xff_state st used (tokens @ [trim_ows s])))"
  by (simp add: xff_span_def xff_state_def xff_element_def Let_def)

lemma xff_state_bytes: "cs_bytes (xff_state st used ts) = used" "cs_bytes_update (\<lambda>_. u) (xff_state st used ts) = xff_state st u ts"
  by (simp_all add: xff_state_def)

interpretation fw: span_step "clamped l" "forwarded_span (length out) (clamped l)" element_claims "fwd_state out" 0 for l out
proof
  fix s :: bytes and used :: nat and ps :: "claim list" and st :: chain_state
  assume "length s \<le> 65536"
  then have "length s < usize_max" by (simp add: usize_max_def)
  then show "forwarded_span (length out) (clamped l) s (fwd_state out used ps) = Inr st \<longleftrightarrow>
      0 + length ps < max_forwarded_elements (clamped l) \<and> (\<exists>p. element_claims s p \<and> st = fwd_state out used (ps @ [p]))"
    unfolding forwarded_span_eq by (auto simp: parse_element_iff and_then_Inr_iff)
qed (simp_all add: clamped_forwarded fwd_state_def)

interpretation xf: span_step "clamped l" "xff_span (clamped l)" xff_denotes "xff_state st" "length (cs_elements st)" for l st
  by unfold_locales (auto simp: clamped_forwarded xff_span_eq xff_denotes_def xff_state_bytes)

lemma xfp_values_iff:
  "max_forwarded_bytes lim \<le> 65536 \<Longrightarrow> used \<le> max_forwarded_bytes lim \<Longrightarrow>
   xfp_values lim vs used lx = Inr (n, r) \<longleftrightarrow>
     used + total_length vs \<le> max_forwarded_bytes lim \<and> n = used + total_length vs \<and> r = (if vs = [] then lx else Some (last vs))"
proof (induction vs arbitrary: used lx)
  case (Cons v vs)
  show ?case
    using Cons.IH [of "used + length v" "Some v"] Cons.prems charge_bytes_eq [of used lim "length v"]
    by (auto simp: total_length_def)
qed (auto simp: total_length_def)

section \<open>Acceptance\<close>

definition chain_denotes ::
  "http_limits \<Rightarrow> bytes list \<Rightarrow> bytes list \<Rightarrow> bytes list \<Rightarrow> claim list \<Rightarrow> bool" where
  "chain_denotes lim fv xv pv ps \<longleftrightarrow>
     total_length fv + total_length xv + total_length pv \<le> max_forwarded_bytes lim \<and>
     length (pieces fv) + length (pieces xv) \<le> max_forwarded_elements lim \<and>
     list_all2 element_claims (pieces fv) ps \<and> list_all (\<lambda>s. trim_ows s \<noteq> []) (pieces xv)"

definition chain_elements :: "bytes list \<Rightarrow> bytes list \<Rightarrow> claim list \<Rightarrow> forwarded_element list" where
  "chain_elements xv pv ps =
     attach_proto (if pv = [] then None else Some (last pv)) (map fwd_element ps @ map (xff_element \<circ> trim_ows) (pieces xv))"

definition chain_of :: "bytes list \<Rightarrow> bytes list \<Rightarrow> bytes list \<Rightarrow> claim list \<Rightarrow> forwarded_chain" where
  "chain_of fv xv pv ps =
     \<lparr>fc_elements = chain_elements xv pv ps, fc_host_claim = host_span (hosts_of ps), fc_host_buf = concat (hosts_of ps),
      fc_bytes = total_length fv + total_length xv + total_length pv\<rparr>"

lemma xff_tokens: "list_all2 xff_denotes ss ts \<longleftrightarrow> ts = map trim_ows ss \<and> list_all (\<lambda>s. trim_ows s \<noteq> []) ss"
  by (induction ss arbitrary: ts) (auto simp: list_all2_Cons1 xff_denotes_def)

lemma chain_parse_stages:
  "chain_parse_into fv xv pv lim out = (Inr c, out') \<longleftrightarrow>
     (\<exists>st1 st2 n lx.
        each_value lim (forwarded_span (length out) lim) fv (fwd_state out 0 []) = (None, st1) \<and>
        each_value lim (xff_span lim) xv st1 = (None, st2) \<and> xfp_values lim pv (cs_bytes st2) None = Inr (n, lx) \<and>
        fc_elements c = attach_proto lx (cs_elements st2) \<and> fc_host_claim c = cs_host st2 \<and> fc_bytes c = n \<and>
        (fc_host_buf c, out') = (if cs_host st2 = None then ([], cs_out st2) else (drop (length out) (cs_out st2), take (length out) (cs_out st2))))"
proof -
  have st0: "fwd_state out 0 [] = \<lparr>cs_elements = [], cs_host = None, cs_bytes = 0, cs_out = out\<rparr>"
    by (simp add: fwd_state_def hosts_of_def host_span_def List.map_filter_def)
  have c: "c = \<lparr>fc_elements = e, fc_host_claim = h, fc_host_buf = b, fc_bytes = n\<rparr> \<longleftrightarrow>
      fc_elements c = e \<and> fc_host_claim c = h \<and> fc_bytes c = n \<and> fc_host_buf c = b" for e h b n by (cases c) auto
  show ?thesis
    unfolding chain_parse_into_def Let_def st0 [symmetric]
    by (auto simp: c split: prod.splits option.splits sum.splits) (metis option.exhaust surj_pair)+
qed

lemma chain_parse_iff:
  assumes "is_clamped lim"
  shows "chain_parse_into fv xv pv lim out = (Inr c, out') \<longleftrightarrow>
     out' = out \<and> (\<exists>ps. chain_denotes lim fv xv pv ps \<and> c = chain_of fv xv pv ps)"
proof -
  have lim: "clamped lim = lim" "max_forwarded_bytes lim \<le> 65536" using assms clamped_forwarded [of lim] by (simp_all add: is_clamped_def)
  define st2 where "st2 = (\<lambda>ps. xff_state (fwd_state out (total_length fv) ps) (total_length fv + total_length xv) (map trim_ows (pieces xv)))"
  have F: "each_value lim (forwarded_span (length out) lim) fv (fwd_state out 0 []) = (None, st) \<longleftrightarrow>
      total_length fv \<le> max_forwarded_bytes lim \<and> length (pieces fv) \<le> max_forwarded_elements lim \<and>
      (\<exists>ps. list_all2 element_claims (pieces fv) ps \<and> st = fwd_state out (total_length fv) ps)" for st
    using fw.values_iff [of "[]" lim 0 out fv st] lim by simp
  have X: "each_value lim (xff_span lim) xv (fwd_state out (total_length fv) ps) = (None, st) \<longleftrightarrow>
      total_length fv + total_length xv \<le> max_forwarded_bytes lim \<and> length ps + length (pieces xv) \<le> max_forwarded_elements lim \<and>
      list_all (\<lambda>s. trim_ows s \<noteq> []) (pieces xv) \<and> st = st2 ps"
    if "length ps \<le> max_forwarded_elements lim" "total_length fv \<le> max_forwarded_bytes lim" for ps st
    using xf.values_iff [of "fwd_state out (total_length fv) ps" "[]" lim "total_length fv" xv st] that lim
    by (auto simp: xff_state_def [of _ _ "[]"] fwd_state_def xff_tokens st2_def)
  have P: "xfp_values lim pv (cs_bytes (st2 ps)) None = Inr (n, lx) \<longleftrightarrow>
      total_length fv + total_length xv + total_length pv \<le> max_forwarded_bytes lim \<and>
      n = total_length fv + total_length xv + total_length pv \<and> lx = (if pv = [] then None else Some (last pv))"
    if "total_length fv + total_length xv \<le> max_forwarded_bytes lim" for ps n lx
    using xfp_values_iff [OF lim(2) that, of pv None n lx] by (simp add: st2_def xff_state_def)
  have final: "(fc_elements c = attach_proto (if pv = [] then None else Some (last pv)) (cs_elements (st2 ps)) \<and>
      fc_host_claim c = cs_host (st2 ps) \<and> fc_bytes c = total_length fv + total_length xv + total_length pv \<and>
      (fc_host_buf c, out') = (if cs_host (st2 ps) = None then ([], cs_out (st2 ps)) else (drop (length out) (cs_out (st2 ps)), take (length out) (cs_out (st2 ps))))) \<longleftrightarrow>
      out' = out \<and> c = chain_of fv xv pv ps" for ps
    by (cases c) (auto simp: st2_def xff_state_def fwd_state_def chain_of_def chain_elements_def host_span_def o_def)
  show ?thesis (is "?L \<longleftrightarrow> ?R")
  proof
    assume ?L
    then obtain ps where ps: "list_all2 element_claims (pieces fv) ps" and r: "total_length fv \<le> max_forwarded_bytes lim"
        "length (pieces fv) \<le> max_forwarded_elements lim" "\<exists>s2 n lx. each_value lim (xff_span lim) xv (fwd_state out (total_length fv) ps) = (None, s2) \<and>
          xfp_values lim pv (cs_bytes s2) None = Inr (n, lx) \<and> fc_elements c = attach_proto lx (cs_elements s2) \<and>
          fc_host_claim c = cs_host s2 \<and> fc_bytes c = n \<and>
          (fc_host_buf c, out') = (if cs_host s2 = None then ([], cs_out s2) else (drop (length out) (cs_out s2), take (length out) (cs_out s2)))"
      unfolding chain_parse_stages F by blast
    have len: "length ps \<le> max_forwarded_elements lim" using list_all2_lengthD [OF ps] r(2) by simp
    then show ?R
      using r(3) ps P final [of ps] list_all2_lengthD [OF ps] unfolding X [OF len r(1)] chain_denotes_def by (intro conjI exI [of _ ps]) auto
  next
    assume ?R
    then obtain ps where ps: "chain_denotes lim fv xv pv ps" "c = chain_of fv xv pv ps" "out' = out" by blast
    have len: "length ps = length (pieces fv)" using ps(1) list_all2_lengthD [of element_claims "pieces fv" ps] by (simp add: chain_denotes_def)
    then have r: "length ps \<le> max_forwarded_elements lim" "total_length fv \<le> max_forwarded_bytes lim"
      "total_length fv + total_length xv \<le> max_forwarded_bytes lim" using ps(1) by (simp_all add: chain_denotes_def)
    show ?L
      unfolding chain_parse_stages F
      using ps final [of ps] X [OF r(1,2), of "st2 ps"] P [OF r(3), of ps] len
      by (intro exI [of _ "fwd_state out (total_length fv) ps"] exI [of _ "st2 ps"]) (auto simp: chain_denotes_def)
  qed
qed

section \<open>The claimed host\<close>

definition last_host :: "claim list \<Rightarrow> bytes option" where
  "last_host ps = (if hosts_of ps = [] then None else Some (last (hosts_of ps)))"

lemma unquoted_length: "length (unquoted raw) \<le> length raw"
proof -
  have w: "length (write_interior e bs out) \<le> length out + length bs" for e bs out
    by (induction e bs out rule: write_interior.induct) auto
  have "length (quoted_interior raw) \<le> length raw"
    by (auto simp: quoted_interior_def slice_or_empty_def get_range_def split: option.splits)
  then show ?thesis using w [of False "quoted_interior raw" "[]"] by (simp add: unquoted_def write_unquoted_def)
qed

lemma hosts_length:
  "list_all2 element_claims ss ps \<Longrightarrow> list_all (\<lambda>s. length s \<le> 65536) ss \<Longrightarrow>
   length (concat (hosts_of ps)) \<le> sum_list (map length ss) \<and> list_all (\<lambda>h. length h \<le> 65535) (hosts_of ps)"
proof (induction rule: list_all2_induct)
  case (Cons s ss p ps)
  obtain n pr h where p: "p = (n, pr, h)" by (rule prod_cases3)
  have "length (unquoted raw) < length s" if "h = Some raw" for raw
    using claimed_host_length [of s n pr raw] unquoted_length [of raw] Cons p that by (simp add: usize_max_def)
  then show ?case using Cons p by (fastforce simp: hosts_of_def List.map_filter_def split: option.splits)
qed (simp add: hosts_of_def List.map_filter_def)

lemma pieces_small: "total_length vs \<le> 65536 \<Longrightarrow> sum_list (map length (pieces vs)) \<le> total_length vs \<and> list_all (\<lambda>s. length s \<le> 65536) (pieces vs)"
proof (induction vs)
  case (Cons v vs)
  have v: "length v \<le> usize_max" "length v \<le> 65536" "total_length vs \<le> 65536"
    using Cons.prems by (simp_all add: total_length_def usize_max_def)
  have "list_all (\<lambda>s. length s \<le> 65536) (split_top CHR '','' v)"
    using split_top_lengths(2) [OF semi_comma_not_quote(2) v(1)] v(2) by (fastforce simp: list_all_iff)
  then show ?case
    using Cons.IH [OF v(3)] split_top_lengths(1) [OF semi_comma_not_quote(2) v(1)] by (simp add: pieces_def total_length_def)
qed (simp add: pieces_def total_length_def)

lemma chain_host_claim_eq:
  assumes "is_clamped lim" and "chain_denotes lim fv xv pv ps"
  shows "chain_host_claim (chain_of fv xv pv ps) = last_host ps"
proof (cases "hosts_of ps = []")
  case False
  have "max_forwarded_bytes lim \<le> 65536" using assms(1) clamped_forwarded [of lim] by (simp add: is_clamped_def)
  then have t: "total_length fv \<le> 65536" using assms(2) by (simp add: chain_denotes_def)
  have h: "length (concat (hosts_of ps)) \<le> 65536" "length (last (hosts_of ps)) \<le> 65535"
    using hosts_length [of "pieces fv" ps] pieces_small [OF t] assms(2) False t by (auto simp: chain_denotes_def list_all_iff)
  obtain hs h' where hs: "hosts_of ps = hs @ [h']" using False by (metis rev_exhaust)
  show ?thesis
    using h unfolding chain_host_claim_def chain_of_def host_span_def host_bytes_def last_host_def hs
    by (simp add: get_range_def u32_max_def u16_max_def usize_max_def)
qed (simp add: chain_host_claim_def chain_of_def host_span_def last_host_def)

section \<open>Entries added on the left\<close>

lemma attach_proto_append: "ys \<noteq> [] \<Longrightarrow> attach_proto lx (xs @ ys) = xs @ attach_proto lx ys"
  by (auto simp: attach_proto_def butlast_append split: option.split)

lemma pieces_pad:
  assumes "q_state pad = (False, False)" and "length pad < usize_max"
  shows "pieces (pads @ (pad @ CHR '','' # v) # vs) = (pieces pads @ split_top CHR '','' pad) @ pieces (v # vs)"
  using split_top_pad [OF semi_comma_not_quote(2) assms, of v] by (simp add: pieces_def)

lemma attach_proto_xff: "list_all fe_from_xff es \<Longrightarrow> list_all fe_from_xff (attach_proto lx es)"
  by (auto simp: attach_proto_def list_all_iff dest: in_set_butlastD split: option.split)

lemma xff_chain_pad:
  assumes "is_clamped lim" and "q_state pad = (False, False)"
    and "chain_parse_into [] (v # vs) pv lim out = (Inr c, out1)"
    and "chain_parse_into [] (pads @ (pad @ CHR '','' # v) # vs) pv lim out = (Inr c', out2)"
  obtains es where "fc_elements c' = es @ fc_elements c" "list_all fe_from_xff (fc_elements c')"
proof -
  let ?e = "map (xff_element \<circ> trim_ows)" and ?lx = "if pv = [] then None else Some (last pv)"
  have nil: "pieces [] = []" by (simp add: pieces_def)
  have bound: "max_forwarded_bytes lim \<le> 65536" using assms(1) clamped_forwarded [of lim] by (simp add: is_clamped_def)
  have c: "fc_elements c = attach_proto ?lx (?e (pieces (v # vs)))"
    using assms(3) unfolding chain_parse_iff [OF assms(1)] by (auto simp: chain_denotes_def chain_of_def chain_elements_def nil)
  have c': "fc_elements c' = attach_proto ?lx (?e (pieces (pads @ (pad @ CHR '','' # v) # vs)))"
    "total_length (pads @ (pad @ CHR '','' # v) # vs) \<le> max_forwarded_bytes lim"
    using assms(4) unfolding chain_parse_iff [OF assms(1)] by (auto simp: chain_denotes_def chain_of_def chain_elements_def nil)
  have "length pad < usize_max" using c'(2) bound by (simp add: total_length_def usize_max_def)
  note p = pieces_pad [OF assms(2) this, of pads v vs]
  have ne: "?e (pieces (v # vs)) \<noteq> []" by (simp add: pieces_def)
  show ?thesis
  proof (rule that [of "?e (pieces pads @ split_top CHR '','' pad)"])
    show "fc_elements c' = ?e (pieces pads @ split_top CHR '','' pad) @ fc_elements c"
      unfolding c c' p map_append [of _ _ "pieces (v # vs)"] by (rule attach_proto_append [OF ne])
    show "list_all fe_from_xff (fc_elements c')"
      unfolding c' by (rule attach_proto_xff) (simp add: list_all_iff xff_element_def)
  qed
qed

end
