(* ===== verification/Http_Peer_Round.thy ===== *)
theory Http_Peer_Round
  imports Http_Peer_Text Http_Peer_Walk Http_Forwarded_Chain
begin

text \<open>
  The element sent upstream: its length is the one announced, and the parser of the next hop reads the same client,
  scheme and host from it.
\<close>

section \<open>Bytes of a node\<close>

definition node_byte :: "byte \<Rightarrow> bool" where
  "node_byte c \<longleftrightarrow> to_digit 16 c \<noteq> None \<or> c \<in> set ''.:[]''"

lemma node_byte_facts:
  "node_byte c \<longrightarrow> byte_val c < 128 \<and> c \<noteq> DQUOTE \<and> c \<noteq> BSLASH \<and> c \<noteq> CHR '';'' \<and> c \<noteq> CHR '','' \<and> \<not> is_ows c"
  by (rule spec [of _ c]) code_simp

lemma digit_byte_facts:
  "is_ascii_digit c \<longrightarrow> node_byte c \<and> c \<notin> set ''+_[]:.'' \<and> to_ascii_lowercase c = c \<and> c \<noteq> CHR ''u''"
  by (rule spec [of _ c]) code_simp

lemma dec_text_bytes: "c \<in> set (dec_text n) \<Longrightarrow> is_ascii_digit c"
  using dec_text_facts [of n] by (simp add: list_all_iff)

lemma join_bytes: "c \<in> set (join_with d ps) \<Longrightarrow> c = d \<or> (\<exists>p \<in> set ps. c \<in> set p)"
  by (induction d ps rule: join_with.induct) auto

lemma v4_bytes: "c \<in> set (v4_text octets) \<Longrightarrow> is_ascii_digit c \<or> c = CHR ''.''"
  using join_bytes [of c "CHR ''.''" "map (dec_text \<circ> unat) octets"] by (auto simp: v4_text_def dest: dec_text_bytes)

lemma v6_bytes: "c \<in> set (v6_text segs) \<Longrightarrow> to_digit 16 c \<noteq> None \<or> c = CHR '':''"
  using tail_text_bytes [of c False] by (auto simp: v6_text_def groups_tail split: option.splits)

lemma position_first: "\<forall>x \<in> set xs. \<not> p x \<Longrightarrow> p y \<Longrightarrow> position p (xs @ y # zs) = Some (length xs)"
  by (induction xs) auto

lemma ascii_utf8: "list_all (\<lambda>b. byte_val b < 128) bs \<Longrightarrow> utf8_valid bs"
  by (induction bs rule: utf8_valid.induct) auto

section \<open>Nodes\<close>

fun addr_text :: "ip_addr \<Rightarrow> bytes" where
  "addr_text (IpAddr_V4 octets) = v4_text octets"
| "addr_text (IpAddr_V6 segs) = v6_text segs"

definition node_text :: "ip_addr \<Rightarrow> nat option \<Rightarrow> bytes" where
  "node_text a port = (if is_ipv6 a then CHR ''['' # addr_text a @ '']'' else addr_text a) @ port_print port"

definition port_ok :: "nat option \<Rightarrow> bool" where
  "port_ok port = pred_option (\<lambda>p. p \<le> u16_max) port"

lemma port_text_length: "p \<le> u16_max \<Longrightarrow> length (dec_text p) \<le> 5"
  using dec_text_length [of p 4] by (simp add: u16_max_def)

lemma addr_write:
  assumes "ip_ok a"
  shows "write_addr_text a out = (length (addr_text a), out @ addr_text a)" "addr_text_len a = length (addr_text a)"
    "length (addr_text a) \<le> 42"
proof -
  have "write_addr_text a out = (length (addr_text a), out @ addr_text a) \<and> addr_text_len a = length (addr_text a) \<and> length (addr_text a) \<le> 42"
  proof (cases a)
    case (IpAddr_V4 octets)
    then show ?thesis using v4_write(1) [of octets out] v4_write(2,3) [of octets] assms by simp
  next
    case (IpAddr_V6 segs)
    then show ?thesis using v6_write(1) [of segs out] v6_write(2) [of segs] v6_len [of segs] assms by simp
  qed
  then show "write_addr_text a out = (length (addr_text a), out @ addr_text a)" "addr_text_len a = length (addr_text a)" "length (addr_text a) \<le> 42"
    by simp_all
qed

lemma node_write:
  assumes "ip_ok a" and "port_ok port"
  shows "write_node a port out = (length (node_text a port), out @ node_text a port)"
    "node_raw_len a port = length (node_text a port)" "length (node_text a port) \<le> 50"
proof -
  note w = addr_write [OF assms(1)]
  have p: "write_decimal q out' = (length (dec_text q), out' @ dec_text q)" "snd (decimal_digits q) = length (dec_text q)" "length (dec_text q) \<le> 5"
    if "port = Some q" for q out'
    using write_decimal_eq [of q] port_text_length [of q] assms(2) that by (simp_all add: port_ok_def)
  show "length (node_text a port) \<le> 50"
    using w(3) p(3) by (cases port) (simp_all add: node_text_def port_print_def)
  show "write_node a port out = (length (node_text a port), out @ node_text a port)"
    using w(3) p by (cases port) (simp_all add: write_node_def put_def put_by_def w(1) node_text_def port_print_def sat_add_small Let_def)
  show "node_raw_len a port = length (node_text a port)"
    using w(3) p by (cases port) (simp_all add: node_raw_len_def w(2) node_text_def port_print_def sat_add_small Let_def)
qed

lemma node_text_bytes: "c \<in> set (node_text a port) \<Longrightarrow> node_byte c"
proof -
  assume c: "c \<in> set (node_text a port)"
  have "node_byte c" if "c \<in> set (addr_text a)"
    using that v4_bytes v6_bytes digit_byte_facts [of c] by (cases a) (auto simp: node_byte_def)
  moreover have "node_byte c" if "c \<in> set (port_print port)"
    using that dec_text_bytes [of c] digit_byte_facts [of c] by (auto simp: port_print_def node_byte_def split: option.splits)
  ultimately show ?thesis using c by (auto simp: node_text_def node_byte_def split: if_splits)
qed

section \<open>Reading a node\<close>

lemma digits_val_dec: "list_all is_ascii_digit ds \<Longrightarrow> digits_val n ds = Some (dec_value n ds)"
  by (induction ds arbitrary: n) (auto simp: Rust_Str.digit_val_def is_ascii_digit_def mult.commute)

lemma port_read: "p \<le> u16_max \<Longrightarrow> parse_node_port (dec_text p) = Some p"
proof -
  assume p: "p \<le> u16_max"
  have f: "list_all is_ascii_digit (dec_text p)" "dec_text p \<noteq> []" "dec_value 0 (dec_text p) = p" using dec_text_facts [of p] by simp_all
  have plus: "get (dec_text p) 0 \<noteq> Some CHR ''+''" using f(1,2) digit_byte_facts [of "CHR ''+''"] by (cases "dec_text p") auto
  have "utf8_valid (dec_text p)" using f(1) by (intro ascii_utf8) (auto simp: list_all_iff is_ascii_digit_def)
  then show ?thesis using p f plus by (simp add: parse_node_port_def u16_from_str_def parse_digits_def digits_val_dec)
qed

definition read_port :: "nat option \<Rightarrow> nat option" where
  "read_port port = (case port of None \<Rightarrow> None | Some p \<Rightarrow> normalize_port p)"

lemma classify_v6:
  assumes "length segs = 8" and "port_ok port"
  shows "classify_unquoted (node_text (IpAddr_V6 segs) port) = NodeName_Addr (IpAddr_V6 segs) (read_port port)"
proof -
  let ?t = "v6_text segs"
  have nb: "CHR '']'' \<notin> set ?t" using v6_bytes [of "CHR '']''" segs] dot_colon_digit(3) by auto
  have pos: "position (\<lambda>b. b = CHR '']'') (?t @ CHR '']'' # rest) = Some (length ?t)" for rest
    using position_first [of ?t "\<lambda>b. b = CHR '']''" "CHR '']''" rest] nb by auto
  have "byte_val c < 128" if "c \<in> set ?t" for c
    using v6_bytes [OF that] node_byte_facts [of c] by (auto simp: node_byte_def)
  then have valid: "utf8_valid ?t" by (intro ascii_utf8) (simp add: list_all_iff)
  have v6: "parse_v6 ?t = Some segs" using v6_read [OF assms(1)] valid by (simp add: parse_v6_def)
  have len: "sat_add (Suc (length ?t)) 1 = Suc (Suc (length ?t))" using v6_write(2) [OF assms(1)] by (simp add: sat_add_small)
  have unk: "\<not> eq_ignore_case (CHR ''['' # x) ''unknown''" for x by (simp add: eq_ignore_case_def to_ascii_lowercase_def)
  show ?thesis
    using assms(2) port_read
    by (cases port) (auto simp: classify_unquoted_def node_text_def port_print_def unk pos len[simplified] slice_or_empty_def get_range_def v6
        slice_after_def get_from_def Let_def read_port_def port_ok_def)
qed

lemma classify_v4:
  assumes "length octets = 4" and "port_ok port"
  shows "classify_unquoted (node_text (IpAddr_V4 octets) port) = NodeName_Addr (IpAddr_V4 octets) (read_port port)"
proof -
  let ?t = "v4_text octets" and ?v = "v4_text octets @ port_print port"
  obtain c r where t: "?t = c # r" "is_ascii_digit c"
  proof -
    obtain a b where o4: "octets = a # b" "b \<noteq> []" using assms(1) by (cases octets; cases "tl octets") auto
    obtain c r where "dec_text (unat a) = c # r" using dec_text_facts [of "unat a"] by (cases "dec_text (unat a)") simp_all
    then show ?thesis using that [of c "r @ CHR ''.'' # join_with CHR ''.'' (map (dec_text \<circ> unat) b)"] dec_text_bytes [of c "unat a"] o4
      by (simp add: v4_text_def join_with_cons)
  qed
  have first: "\<not> eq_ignore_case ?v ''unknown''" "get ?v 0 \<noteq> Some CHR ''_''" "get ?v 0 \<noteq> Some CHR ''[''"
    using digit_byte_facts [of c] t by (auto simp: eq_ignore_case_def to_ascii_lowercase_def)
  have nc: "CHR '':'' \<notin> set ?t" using v4_bytes [of "CHR '':''" octets] digit_byte_facts [of "CHR '':''"] by auto
  have "byte_val c < 128" if "c \<in> set ?t" for c
    using v4_bytes [OF that] node_byte_facts [of c] digit_byte_facts [of c] by (auto simp: node_byte_def)
  then have valid: "utf8_valid ?t" by (intro ascii_utf8) (simp add: list_all_iff)
  have v4: "parse_v4 ?t = Some octets" using v4_read [OF assms(1)] valid by (simp add: parse_v4_def)
  have none: "filter (\<lambda>b. b = CHR '':'') ?t = []" using nc by (auto simp: filter_empty_conv)
  show ?thesis
  proof (cases port)
    case None
    then show ?thesis
      using first v4 none by (simp add: classify_unquoted_def node_text_def port_print_def Let_def read_port_def del: get_Some_iff)
  next
    case (Some p)
    have "filter (\<lambda>b. b = CHR '':'') (dec_text p) = []"
      using dec_text_bytes [of "CHR '':''" p] digit_byte_facts [of "CHR '':''"] by (auto simp: filter_empty_conv)
    moreover have "position (\<lambda>b. b = CHR '':'') (?t @ CHR '':'' # dec_text p) = Some (length ?t)"
      using position_first [of ?t "\<lambda>b. b = CHR '':''" "CHR '':''" "dec_text p"] nc by auto
    moreover have "sat_add (length ?t) (Suc 0) = Suc (length ?t)" using v4_write(3) [OF assms(1)] by (simp add: sat_add_small)
    ultimately show ?thesis
      using first v4 none Some assms(2) port_read [of p]
      by (simp add: classify_unquoted_def node_text_def port_print_def Let_def read_port_def slice_or_empty_def get_range_def
          slice_after_def get_from_def port_ok_def del: get_Some_iff)
  qed
qed

lemma classify_node: "ip_ok a \<Longrightarrow> port_ok port \<Longrightarrow> classify_unquoted (node_text a port) = NodeName_Addr a (read_port port)"
  using classify_v4 classify_v6 by (cases a) simp_all

section \<open>Quoted values\<close>

definition maybe_quoted :: "bool \<Rightarrow> bytes \<Rightarrow> bytes" where
  "maybe_quoted q t = (if q then DQUOTE # t @ [DQUOTE] else t)"

lemma unescape_plain: "BSLASH \<notin> set t \<Longrightarrow> length buf + length t \<le> 64 \<Longrightarrow> unescape_loop False buf t = Some (buf @ t)"
  by (induction t arbitrary: buf) auto

lemma interior_plain: "BSLASH \<notin> set t \<Longrightarrow> write_interior False t out = out @ t"
  by (induction t arbitrary: out) auto

lemma quoted_parts: "is_quoted (DQUOTE # t @ [DQUOTE])" "quoted_interior (DQUOTE # t @ [DQUOTE]) = t"
  by (simp_all add: is_quoted_def quoted_interior_def slice_or_empty_def get_range_def)

lemma node_name_read:
  assumes "ip_ok a" and "port_ok port"
  shows "parse_node_name (maybe_quoted q (node_text a port)) = NodeName_Addr a (read_port port)"
proof -
  let ?t = "node_text a port"
  have clean: "BSLASH \<notin> set ?t" "DQUOTE \<notin> set ?t"
    using node_text_bytes [of BSLASH a port] node_text_bytes [of DQUOTE a port] node_byte_facts [of BSLASH] node_byte_facts [of DQUOTE] by auto
  have first: "get ?t 0 \<noteq> Some DQUOTE" using clean(2) by (cases ?t) auto
  show ?thesis
    using classify_node [OF assms] unescape_plain [OF clean(1), of "[]"] node_write(3) [OF assms] first quoted_parts(2) [of ?t]
    by (cases q) (auto simp: parse_node_name_def maybe_quoted_def unescape_into_def)
qed

lemma unquoted_read: "BSLASH \<notin> set t \<Longrightarrow> DQUOTE \<notin> set t \<Longrightarrow> unquoted (maybe_quoted q t) = t"
  using interior_plain [of t "[]"] quoted_parts [of t]
  by (cases t) (auto simp: unquoted_def write_unquoted_def maybe_quoted_def is_quoted_def)

lemma q_scan_plain: "\<forall>c \<in> set t. c \<noteq> DQUOTE \<and> c \<noteq> d \<Longrightarrow> q_scan d (False, False) t = Some (False, False)"
  by (induction t) (auto simp: q_step.simps)

lemma q_scan_inside: "\<forall>c \<in> set t. c \<noteq> DQUOTE \<and> c \<noteq> BSLASH \<Longrightarrow> q_scan d (True, False) t = Some (True, False)"
  by (induction t) (auto simp: q_step.simps)

lemma q_scan_quoted:
  assumes "d \<noteq> DQUOTE" and "DQUOTE \<notin> set t" and "BSLASH \<notin> set t" and "q \<or> d \<notin> set t"
  shows "q_scan d (False, False) (maybe_quoted q t) = Some (False, False)"
proof (cases q)
  case True
  have "q_scan d (True, False) t = Some (True, False)" using assms(2,3) by (intro q_scan_inside) auto
  then show ?thesis using True assms(1) by (simp add: maybe_quoted_def q_scan_append q_step.simps)
next
  case False
  then show ?thesis using assms q_scan_plain [of t d] by (auto simp: maybe_quoted_def)
qed

section \<open>Parameters\<close>

lemma trim_ows_id: "ows_trimmed v \<Longrightarrow> length v \<le> usize_max \<Longrightarrow> trim_ows v = v"
  using trim_ows_middle [of "[]" "[]" v] by simp

definition solid :: "bytes \<Rightarrow> bool" where
  "solid v \<longleftrightarrow> v \<noteq> [] \<and> list_all (\<lambda>c. \<not> is_ows c) v"

lemma solid_trim: "solid v \<Longrightarrow> length v \<le> usize_max \<Longrightarrow> trim_ows v = v"
  by (rule trim_ows_id) (auto simp: ows_trimmed_def solid_def list_all_iff)

lemma solid_append: "solid xs \<Longrightarrow> solid ys \<Longrightarrow> solid (xs @ ys)"
  by (simp add: solid_def)

lemma param_of_pair:
  assumes "solid n" and "CHR ''='' \<notin> set n" and "solid v" and "length n + length v < 100000"
  shows "param_of (n @ CHR ''='' # v) = Some (map to_ascii_lowercase n, v)"
proof -
  have "\<not> is_ows CHR ''=''" by code_simp
  then have "solid (n @ CHR ''='' # v)" using assms(1,3) by (simp add: solid_def)
  then have "trim_ows (n @ CHR ''='' # v) = n @ CHR ''='' # v" using assms(4) by (intro solid_trim) (simp_all add: usize_max_def)
  moreover have "position (\<lambda>b. b = CHR ''='') (n @ CHR ''='' # v) = Some (length n)"
    using position_first [of n "\<lambda>b. b = CHR ''=''" "CHR ''=''" v] assms(2) by auto
  ultimately show ?thesis
    using solid_trim [OF assms(1)] solid_trim [OF assms(3)] assms(4) by (simp add: param_of_def usize_max_def)
qed

section \<open>The element\<close>

definition authority_print :: "authority \<Rightarrow> bytes" where
  "authority_print a = snd (authority_write_to a [])"

lemma host_byte_clean: "host_byte_ok c \<longrightarrow> c \<noteq> DQUOTE \<and> c \<noteq> BSLASH \<and> \<not> is_ows c"
  by (rule spec [of _ c]) code_simp

lemma authority_text_bytes:
  assumes "authority_text lim raw h P"
  shows "list_all host_byte_ok raw"
proof -
  obtain w where w: "raw = h @ w" "port_suffix w P" and h: "reg_name h \<or> ip_literal h" using assms by (auto simp: authority_text_def)
  from h have "list_all host_byte_ok h"
  proof
    assume "reg_name h"
    then show ?thesis unfolding reg_name_def by (metis (no_types, lifting) list.pred_mono_strong)
  next
    assume "ip_literal h"
    then obtain inner where "h = CHR ''['' # inner @ '']''" "list_all (\<lambda>b. is_ascii_hexdigit b \<or> b = CHR '':'' \<or> b = CHR ''.'') inner"
      unfolding ip_literal_def by blast
    then show ?thesis using literal_bytes(2) [of inner] by simp
  qed
  then show ?thesis using port_suffix_bytes [OF w(2)] w(1) by simp
qed

lemma authority_printed:
  assumes "names_authority lim asch raw a" and "is_clamped lim"
  shows "authority_write_to a out = (length (authority_print a), out @ authority_print a)"
    "authority_written_len a = length (authority_print a)" "length (authority_print a) \<le> 1024" "authority_print a \<noteq> []"
    "list_all host_byte_ok (authority_print a)" "au_port a = None \<longrightarrow> authority_print a = authority_host a"
proof -
  obtain h P where t: "authority_text lim raw h P" and a: "a = authority_of asch h P" using assms(1) by (auto simp: names_authority_def)
  let ?w = "map to_ascii_lowercase h @ port_print (canonical_port asch P)"
  have w: "authority_write_to a out = (length ?w, out @ ?w)" for out using write_authority(1) [OF t assms(2), of asch out] a by simp
  then have p: "authority_print a = ?w" by (simp add: authority_print_def)
  note wt = write_authority(3) [OF t assms(2), of asch]
  show "authority_write_to a out = (length (authority_print a), out @ authority_print a)" using w p by simp
  show "authority_written_len a = length (authority_print a)" using write_authority(2) [OF t assms(2), of asch] a p by simp
  show "length (authority_print a) \<le> 1024" using wt is_clampedD(7) [OF assms(2)] p by (simp add: authority_text_def)
  show "authority_print a \<noteq> []" using authority_text_nonempty [OF t] p by simp
  show "list_all host_byte_ok (authority_print a)" using authority_text_bytes [OF wt] p by simp
  show "au_port a = None \<longrightarrow> authority_print a = authority_host a"
    using a p by (auto simp: authority_of_def canonical_port_def port_print_def authority_host_def slice_or_empty_def get_range_def split: if_splits)
qed

definition for_text :: "peer_identity \<Rightarrow> bytes" where
  "for_text i = maybe_quoted (client_needs_quote i) (node_text (pi_client i) (pi_client_port i))"

definition by_text :: "socket_addr \<Rightarrow> bytes" where
  "by_text local = maybe_quoted True (node_text (sa_ip local) (Some (sa_port local)))"

definition host_text :: "authority \<Rightarrow> bytes" where
  "host_text a = maybe_quoted (authority_needs_quote a) (authority_print a)"

definition element_text :: "peer_identity \<Rightarrow> socket_addr \<Rightarrow> scheme \<Rightarrow> authority \<Rightarrow> bytes" where
  "element_text i local sch a =
     (''for='' @ for_text i) @ CHR '';'' # (''by='' @ by_text local) @ CHR '';'' # (''proto='' @ scheme_as_bytes sch) @ CHR '';'' #
     (''host='' @ host_text a)"

definition identity_ok :: "peer_identity \<Rightarrow> bool" where
  "identity_ok i \<longleftrightarrow> ip_ok (pi_client i) \<and> port_ok (pi_client_port i)"

lemma maybe_quoted_length: "length (maybe_quoted q t) = length t + (if q then 2 else 0)"
  by (simp add: maybe_quoted_def)

lemma scheme_length: "length (scheme_as_bytes sch) \<le> 5"
  by (cases sch) simp_all

lemma element_written:
  assumes "identity_ok i" and "socket_ok local" and "names_authority lim asch raw a" and "is_clamped lim"
  shows "write_forwarded_element i local sch a out = (length (element_text i local sch a), out @ element_text i local sch a)"
    "forwarded_element_len i local sch a = length (element_text i local sch a)"
proof -
  note f = node_write [of "pi_client i" "pi_client_port i"]
  note b = node_write [of "sa_ip local" "Some (sa_port local)"]
  have ok: "ip_ok (pi_client i)" "port_ok (pi_client_port i)" "ip_ok (sa_ip local)" "port_ok (Some (sa_port local))"
    using assms(1,2) by (simp_all add: identity_ok_def socket_ok_def port_ok_def)
  note au = authority_printed [OF assms(3,4)]
  have F: "write_for_value i out = (length (for_text i), out @ for_text i)" "for_value_len i = length (for_text i)" "length (for_text i) \<le> 52" for out
    using f(3) [OF ok(1,2)] by (auto simp: write_for_value_def for_value_len_def f(1,2) [OF ok(1,2)] put_def put_by_def for_text_def maybe_quoted_def sat_add_small Let_def)
  have B: "write_by_value local out = (length (by_text local), out @ by_text local)" "by_value_len local = length (by_text local)" "length (by_text local) \<le> 52" for out
    using b(3) [OF ok(3,4)] by (auto simp: write_by_value_def by_value_len_def b(1,2) [OF ok(3,4)] put_def put_by_def by_text_def maybe_quoted_def sat_add_small Let_def)
  have H: "write_host_value a out = (length (host_text a), out @ host_text a)" "host_value_len a = length (host_text a)" "length (host_text a) \<le> 1026" for out
    using au(3) by (auto simp: write_host_value_def host_value_len_def au(1,2) put_def put_by_def host_text_def maybe_quoted_def sat_add_small Let_def)
  show "write_forwarded_element i local sch a out = (length (element_text i local sch a), out @ element_text i local sch a)"
    using F(3) B(3) H(3) scheme_length [of sch]
    by (simp add: write_forwarded_element_def F(1) B(1) H(1) put_def put_by_def element_text_def sat_add_small)
  show "forwarded_element_len i local sch a = length (element_text i local sch a)"
    using F(3) B(3) H(3) scheme_length [of sch]
    by (simp add: forwarded_element_len_def F(2) B(2) H(2) element_text_def sat_add_small)
qed

text \<open>A host that is not quoted must not contain a separator.\<close>

definition host_separable :: "authority \<Rightarrow> bool" where
  "host_separable a \<longleftrightarrow> authority_needs_quote a \<or> CHR '','' \<notin> set (authority_host a) \<and> CHR '';'' \<notin> set (authority_host a)"

lemma node_clean: "DQUOTE \<notin> set (node_text a p)" "BSLASH \<notin> set (node_text a p)" "CHR '';'' \<notin> set (node_text a p)" "CHR '','' \<notin> set (node_text a p)"
  using node_text_bytes [of _ a p] node_byte_facts by blast+

lemma node_solid: "ip_ok a \<Longrightarrow> solid (maybe_quoted q (node_text a p))"
proof -
  assume ok: "ip_ok a"
  have q: "\<not> is_ows DQUOTE" by code_simp
  have b: "\<not> is_ows c" if "c \<in> set (node_text a p)" for c using node_text_bytes [OF that] node_byte_facts [of c] by simp
  have "addr_text a \<noteq> []"
  proof (cases a)
    case (IpAddr_V4 octets)
    then show ?thesis using v4_read [of octets] ok by (auto simp: ipv4_from_str_def parse_with_def read_ipv4_addr_def read_octets.simps numeral_eq_Suc read_separator_def read_number_def)
  next
    case (IpAddr_V6 segs)
    then show ?thesis using v6_read [of segs] ok by (auto simp: ipv6_from_str_def parse_with_def intro!: notI) (code_simp)
  qed
  then show ?thesis using q b by (auto simp: solid_def maybe_quoted_def list_all_iff node_text_def)
qed

section \<open>Reading the element\<close>

lemma split_top_four:
  assumes "q_scan d (False, False) p1 = Some (False, False)" "q_scan d (False, False) p2 = Some (False, False)"
    "q_scan d (False, False) p3 = Some (False, False)" "q_scan d (False, False) p4 = Some (False, False)"
    and "d \<noteq> DQUOTE" and "length (p1 @ d # p2 @ d # p3 @ d # p4) < usize_max"
  shows "split_top d (p1 @ d # p2 @ d # p3 @ d # p4) = [p1, p2, p3, p4]"
  using assms by (simp add: split_top_cons split_top_one)

lemma q_scan_four:
  assumes "q_scan d (False, False) p1 = Some (False, False)" "q_scan d (False, False) p2 = Some (False, False)"
    "q_scan d (False, False) p3 = Some (False, False)" "q_scan d (False, False) p4 = Some (False, False)"
    and "sep \<noteq> d" and "sep \<noteq> DQUOTE"
  shows "q_scan d (False, False) (p1 @ sep # p2 @ sep # p3 @ sep # p4) = Some (False, False)"
  using assms by (simp add: q_scan_append q_step.simps)

lemma element_pieces:
  assumes "DQUOTE \<notin> set (authority_print a)" and "BSLASH \<notin> set (authority_print a)"
    and "au_port a = None \<longrightarrow> authority_print a = authority_host a" and "host_separable a"
    and "length (element_text i local sch a) < usize_max"
  shows "split_top CHR '';'' (element_text i local sch a) = [''for='' @ for_text i, ''by='' @ by_text local, ''proto='' @ scheme_as_bytes sch, ''host='' @ host_text a]"
    and "split_top CHR '','' (element_text i local sch a) = [element_text i local sch a]"
proof -
  have names: "q_scan d (False, False) ''for='' = Some (False, False)" "q_scan d (False, False) ''by='' = Some (False, False)"
    "q_scan d (False, False) ''proto='' = Some (False, False)" "q_scan d (False, False) ''host='' = Some (False, False)"
    "q_scan d (False, False) (scheme_as_bytes sch) = Some (False, False)" if "d = CHR '';'' \<or> d = CHR '',''" for d
    using that by (intro q_scan_plain; cases sch; auto simp: DQUOTE_def)+
  have vals: "q_scan d (False, False) (for_text i) = Some (False, False)" "q_scan d (False, False) (by_text local) = Some (False, False)"
    "q_scan d (False, False) (host_text a) = Some (False, False)" if "d = CHR '';'' \<or> d = CHR '',''" for d
  proof -
    have d: "d \<noteq> DQUOTE" using that by (auto simp: DQUOTE_def)
    show "q_scan d (False, False) (for_text i) = Some (False, False)" "q_scan d (False, False) (by_text local) = Some (False, False)"
      unfolding for_text_def by_text_def using that by (intro q_scan_quoted [OF d] node_clean; use node_clean(3,4) in blast)+
    have "authority_needs_quote a \<or> d \<notin> set (authority_print a)"
      using assms(3,4) that by (auto simp: host_separable_def authority_needs_quote_def)
    then show "q_scan d (False, False) (host_text a) = Some (False, False)"
      unfolding host_text_def using assms(1,2) by (intro q_scan_quoted [OF d])
  qed
  have part: "q_scan d (False, False) (''for='' @ for_text i) = Some (False, False)" "q_scan d (False, False) (''by='' @ by_text local) = Some (False, False)"
    "q_scan d (False, False) (''proto='' @ scheme_as_bytes sch) = Some (False, False)" "q_scan d (False, False) (''host='' @ host_text a) = Some (False, False)"
    if "d = CHR '';'' \<or> d = CHR '',''" for d
    unfolding q_scan_append using names [OF that] vals [OF that] by simp_all
  show "split_top CHR '';'' (element_text i local sch a) = [''for='' @ for_text i, ''by='' @ by_text local, ''proto='' @ scheme_as_bytes sch, ''host='' @ host_text a]"
    using assms(5) unfolding element_text_def by (intro split_top_four part) simp_all
  have "q_scan CHR '','' (False, False) (element_text i local sch a) = Some (False, False)"
    unfolding element_text_def by (intro q_scan_four part) simp_all
  then show "split_top CHR '','' (element_text i local sch a) = [element_text i local sch a]" by (intro split_top_one) simp_all
qed

lemma parse_proto_scheme: "parse_proto (scheme_as_bytes sch) = Some sch"
proof -
  have "parse_proto (scheme_as_bytes Scheme_Http) = Some Scheme_Http" "parse_proto (scheme_as_bytes Scheme_Https) = Some Scheme_Https"
    by code_simp+
  then show ?thesis by (cases sch) simp_all
qed

lemma solid_names: "solid ''for''" "solid ''by''" "solid ''proto''" "solid ''host''" "solid (scheme_as_bytes sch)"
proof -
  have "solid (scheme_as_bytes Scheme_Http)" "solid (scheme_as_bytes Scheme_Https)" by code_simp+
  then show "solid (scheme_as_bytes sch)" by (cases sch) simp_all
qed code_simp+

lemma element_claimed:
  assumes i: "identity_ok i" and l: "socket_ok local" and a: "names_authority lim asch raw a" "is_clamped lim" and h: "host_separable a"
    and len: "length (element_text i local sch a) \<le> 65536"
  shows "pieces [element_text i local sch a] = [element_text i local sch a]"
    "element_claims (element_text i local sch a) (NodeName_Addr (pi_client i) (read_port (pi_client_port i)), Some sch, Some (host_text a))"
proof -
  note au = authority_printed [OF a]
  have clean: "DQUOTE \<notin> set (authority_print a)" "BSLASH \<notin> set (authority_print a)"
    using au(5) host_byte_clean [of DQUOTE] host_byte_clean [of BSLASH] by (auto simp: list_all_iff)
  have len': "length (element_text i local sch a) < usize_max" using len by (simp add: usize_max_def)
  note ps = element_pieces [OF clean au(6) h len']
  show "pieces [element_text i local sch a] = [element_text i local sch a]" using ps(2) by (simp add: pieces_def)
  have q: "\<not> is_ows DQUOTE" by code_simp
  have "\<not> is_ows c" if "c \<in> set (authority_print a)" for c using au(5) that host_byte_clean [of c] by (simp add: list_all_iff)
  then have "solid (host_text a)" using au(4) q by (auto simp: host_text_def solid_def maybe_quoted_def list_all_iff)
  moreover have "solid (for_text i)" "solid (by_text local)"
    unfolding for_text_def by_text_def using i l by (auto intro!: node_solid simp: identity_ok_def socket_ok_def)
  ultimately have vals: "solid (for_text i)" "solid (by_text local)" "solid (host_text a)" by simp_all
  have "solid (element_text i local sch a)"
  proof -
    have "\<not> is_ows CHR ''=''" "\<not> is_ows CHR '';''" by code_simp+
    then show ?thesis using vals solid_names unfolding element_text_def by (simp add: solid_def)
  qed
  then have trim: "trim_ows (element_text i local sch a) = element_text i local sch a" "element_text i local sch a \<noteq> []"
    using len' solid_trim by (auto simp: solid_def)
  have small: "length (for_text i) < 90000" "length (by_text local) < 90000" "length (host_text a) < 90000"
    using len by (simp_all add: element_text_def)
  have params: "map param_of (split_top CHR '';'' (element_text i local sch a)) =
      map Some [(''for'', for_text i), (''by'', by_text local), (''proto'', scheme_as_bytes sch), (''host'', host_text a)]"
    using param_of_pair [OF solid_names(1) _ vals(1)] param_of_pair [OF solid_names(2) _ vals(2)]
      param_of_pair [OF solid_names(3) _ solid_names(5), of sch] param_of_pair [OF solid_names(4) _ vals(3)] small scheme_length [of sch]
    unfolding ps(1) by (simp add: to_ascii_lowercase_def)
  have node: "parse_node_name (for_text i) = NodeName_Addr (pi_client i) (read_port (pi_client_port i))"
    using node_name_read i by (simp add: for_text_def identity_ok_def)
  show "element_claims (element_text i local sch a) (NodeName_Addr (pi_client i) (read_port (pi_client_port i)), Some sch, Some (host_text a))"
    unfolding element_claims_def trim(1) using trim(2) params node parse_proto_scheme [of sch]
    by (intro conjI exI [of _ "[(''for'', for_text i), (''by'', by_text local), (''proto'', scheme_as_bytes sch), (''host'', host_text a)]"])
       (simp_all add: no_repeats_def values_of_def claim_of_def param_def)
qed

lemma element_chain:
  assumes "identity_ok i" and "socket_ok local" and "names_authority lim asch raw a" and "is_clamped lim" and "host_separable a"
    and "length (element_text i local sch a) \<le> max_forwarded_bytes lim" and "1 \<le> max_forwarded_elements lim"
  obtains c where "chain_parse_into [element_text i local sch a] [] [] lim out = (Inr c, out)"
    "fc_elements c = [\<lparr>fe_node = NodeName_Addr (pi_client i) (read_port (pi_client_port i)), fe_proto = Some sch, fe_from_xff = False\<rparr>]"
    "chain_host_claim c = Some (authority_print a)"
proof -
  let ?w = "element_text i local sch a"
  let ?ps = "[(NodeName_Addr (pi_client i) (read_port (pi_client_port i)), Some sch, Some (host_text a))]"
  have len: "length ?w \<le> 65536" using assms(4,6) clamped_forwarded [of lim] by (simp add: is_clamped_def)
  note e = element_claimed [OF assms(1-5) len]
  note au = authority_printed [OF assms(3,4)]
  have clean: "DQUOTE \<notin> set (authority_print a)" "BSLASH \<notin> set (authority_print a)"
    using au(5) host_byte_clean [of DQUOTE] host_byte_clean [of BSLASH] by (auto simp: list_all_iff)
  have d: "chain_denotes lim [?w] [] [] ?ps"
    using e assms(6,7) by (simp add: chain_denotes_def total_length_def pieces_def)
  have "hosts_of ?ps = [authority_print a]"
    using unquoted_read [OF clean(2,1)] by (simp add: hosts_of_def List.map_filter_def host_text_def)
  then have "last_host ?ps = Some (authority_print a)" by (simp add: last_host_def)
  then have host: "chain_host_claim (chain_of [?w] [] [] ?ps) = Some (authority_print a)" using chain_host_claim_eq [OF assms(4) d] by simp
  have "chain_parse_into [?w] [] [] lim out = (Inr (chain_of [?w] [] [] ?ps), out)"
    using chain_parse_iff [OF assms(4), of "[?w]" "[]" "[]" out "chain_of [?w] [] [] ?ps" out] d by blast
  moreover have "fc_elements (chain_of [?w] [] [] ?ps) = [\<lparr>fe_node = NodeName_Addr (pi_client i) (read_port (pi_client_port i)), fe_proto = Some sch, fe_from_xff = False\<rparr>]"
    by (simp add: chain_of_def chain_elements_def attach_proto_def pieces_def)
  ultimately show ?thesis using that host by blast
qed

end
