(* ===== verification/Http_Peer_Exact.thy ===== *)
theory Http_Peer_Exact
  imports Http_Peer_Round "HOL-Library.Code_Target_Nat"
begin

text \<open>
  The contract of the forwarding chain and of the client identity, from the bytes of the header lines to the
  resolved address.
\<close>

section \<open>The chain\<close>


definition demo_forwarded :: bytes where
  "demo_forwarded = ''for=192.0.2.43;host=a.example, for='' @ [DQUOTE] @ ''[2001:db8::1]:8080'' @ [DQUOTE]"


section \<open>The identity\<close>


definition demo_peer :: socket_addr where
  "demo_peer = \<lparr>sa_ip = IpAddr_V4 [10, 0, 0, 1], sa_port = 4711\<rparr>"

definition demo_policy :: trust_policy where
  "demo_policy = TrustPolicy_TrustedCidrs [\<lparr>ci_addr = IpAddr_V4 [10, 0, 0, 0], ci_prefix_len = 8\<rparr>]"

definition demo_chain :: forwarded_chain where
  "demo_chain = \<lparr>fc_elements = [xff_element ''192.0.2.43'', xff_element ''10.1.2.3''], fc_host_claim = None, fc_host_buf = [], fc_bytes = 20\<rparr>"

lemma demo_nodes:
  "fe_node (xff_element ''192.0.2.43'') = NodeName_Addr (IpAddr_V4 [192, 0, 2, 43]) None"
  "fe_node (xff_element ''10.1.2.3'') = NodeName_Addr (IpAddr_V4 [10, 1, 2, 3]) None"
  by code_simp+

lemma demo_names: "names_client demo_policy (sa_ip (base_addr demo_peer None)) [] (xff_element ''192.0.2.43'') [xff_element ''10.1.2.3''] 1"
  by code_simp


text \<open>
  C11. A client cannot change who it is by sending forwarding entries of its own. Take an \<^verbatim>\<open>X-Forwarded-For\<close> chain
  that resolves to an address of the chain outside the trusted prefixes. If the client puts whole lines and a
  prefix of the first line in front of it, closing every quoted string it opens, and the chain is still
  accepted, the resolved identity is the same: address, port, scheme, hops and trust.
\<close>

theorem padding_powerless:
  assumes "is_clamped lim" and "q_state pad = (False, False)"
    and "chain_parse_into [] (v # vs) pv lim out = (Inr c, out1)"
    and "chain_parse_into [] (pads @ (pad @ CHR '','' # v) # vs) pv lim out = (Inr c', out2)"
    and "pi_source (resolve_identity s pp c policy) = IdentitySource_ForwardedChain"
    and "\<not> policy_trusts policy (pi_client (resolve_identity s pp c policy))"
  shows "resolve_identity s pp c' policy = resolve_identity s pp c policy"
proof -
  obtain es where es: "fc_elements c' = es @ fc_elements c" "list_all fe_from_xff (fc_elements c')"
    by (rule xff_chain_pad [OF assms(1-4)])
  have "\<not> chain_mixes_families (es @ fc_elements c)"
    using es by (auto simp: chain_mixes_families_def list_ex_iff list_all_iff)
  then show ?thesis using resolve_pad [OF assms(5,6)] es(1) by blast
qed

definition demo_xff :: "bytes list \<Rightarrow> forwarded_chain" where
  "demo_xff vs = (case chain_parse_into [] vs [] DEFAULT_limits [] of (Inr c, _) \<Rightarrow> c | _ \<Rightarrow> demo_chain)"

theorem padding_powerless_witness:
  "resolve_identity demo_peer None (demo_xff [''6.6.6.6'', ''7.7.7.7, 8.8.8.8,192.0.2.43, 10.1.2.3'']) demo_policy =
   resolve_identity demo_peer None (demo_xff [''192.0.2.43, 10.1.2.3'']) demo_policy"
proof (rule padding_powerless [where v = "''192.0.2.43, 10.1.2.3''" and vs = "[]" and pads = "[''6.6.6.6'']"
      and pad = "''7.7.7.7, 8.8.8.8''" and pv = "[]" and out = "[]", OF is_clamped_DEFAULT])
  show "q_state ''7.7.7.7, 8.8.8.8'' = (False, False)" by code_simp
  show "chain_parse_into [] [''192.0.2.43, 10.1.2.3''] [] DEFAULT_limits [] = (Inr (demo_xff [''192.0.2.43, 10.1.2.3'']), [])"
    by code_simp
  show "chain_parse_into [] ([''6.6.6.6''] @ [''7.7.7.7, 8.8.8.8'' @ CHR '','' # ''192.0.2.43, 10.1.2.3'']) [] DEFAULT_limits [] =
      (Inr (demo_xff [''6.6.6.6'', ''7.7.7.7, 8.8.8.8,192.0.2.43, 10.1.2.3'']), [])"
    by code_simp
  show "pi_source (resolve_identity demo_peer None (demo_xff [''192.0.2.43, 10.1.2.3'']) demo_policy) = IdentitySource_ForwardedChain"
    by code_simp
  show "\<not> policy_trusts demo_policy (pi_client (resolve_identity demo_peer None (demo_xff [''192.0.2.43, 10.1.2.3'']) demo_policy))"
    by code_simp
qed


section \<open>The element sent upstream\<close>


definition demo_client6 :: peer_identity where
  "demo_client6 = \<lparr>pi_client = IpAddr_V6 [0x2001, 0xdb8, 0, 0, 1, 0, 0, 1], pi_client_port = Some 8080, pi_source = IdentitySource_Socket,
     pi_forwarded_proto = None, pi_trusted_hops = 0, pi_peer_trusted = False\<rparr>"

definition demo_site :: authority where
  "demo_site = \<lparr>au_buf = ''a.example'', au_host_len = 9, au_port = Some 8443\<rparr>"


definition demo_identity :: peer_identity where
  "demo_identity = \<lparr>pi_client = IpAddr_V4 [192, 0, 2, 43], pi_client_port = None, pi_source = IdentitySource_Socket,
     pi_forwarded_proto = None, pi_trusted_hops = 0, pi_peer_trusted = False\<rparr>"

definition demo_authority :: authority where
  "demo_authority = \<lparr>au_buf = ''a,for=6.6.6.6'', au_host_len = 13, au_port = None\<rparr>"


end
