(* ===== verification/Spec2Isabelle.thy ===== *)
theory Spec2Isabelle
  imports Policy_Safety Policy_Hash Policy_Pipeline Http_Framing Http_Chunked_Stream Http_Head_Pieces Http_Path_Exact Http_Authority_Exact
    Http_Strip_Exact Http_Response Http_Peer_Exact
begin

text \<open>
  A verification library for the proxy's policy engine (\<^verbatim>\<open>src/crates/irontraffic-policy\<close>, with the phases of
  \<^verbatim>\<open>irontraffic-filter/src/phase.rs\<close>) and for its HTTP message layer (\<^verbatim>\<open>src/crates/irontraffic-http\<close>).

  \<^bold>\<open>The program.\<close> A policy is a text that an operator configures. \<^verbatim>\<open>lex.rs\<close> turns it into tokens, \<^verbatim>\<open>parse.rs\<close>
  into an arena of nodes in post-order (\<^verbatim>\<open>ast.rs\<close>), \<^verbatim>\<open>check.rs\<close> types it against the attribute schema
  (\<^verbatim>\<open>attrs.rs\<close>) of one lifecycle phase, \<^verbatim>\<open>compile.rs\<close> emits forward-jumping bytecode (\<^verbatim>\<open>program.rs\<close>), whose
  verifier admits it, and \<^verbatim>\<open>vm.rs\<close> evaluates it per request under a step budget. A request reaches the proxy
  as bytes: \<^verbatim>\<open>h1/parser.rs\<close> finds and splits the head, \<^verbatim>\<open>field.rs\<close> and \<^verbatim>\<open>known.rs\<close> validate and classify field
  names, \<^verbatim>\<open>section.rs\<close> stores them, \<^verbatim>\<open>framing.rs\<close> decides where the body ends, \<^verbatim>\<open>h1/chunked.rs\<close> decodes a
  chunked body, and \<^verbatim>\<open>hlist.rs\<close> bounds the work by the clamped limits of \<^verbatim>\<open>limits.rs\<close>.

  \<^bold>\<open>Conventions.\<close> A byte is a \<^typ>\<open>char\<close>, a byte slice a \<^typ>\<open>string\<close>; \<^verbatim>\<open>u8\<close> to \<^verbatim>\<open>usize\<close> are \<^typ>\<open>nat\<close> with every
  saturation, truncation and checked operation written out, the FNV hash is over 64-bit words, \<^verbatim>\<open>i64\<close> is \<^typ>\<open>int\<close>
  with its range; \<^verbatim>\<open>Result\<close> is a sum with the error on the left and \<^verbatim>\<open>?\<close> is \<^const>\<open>and_then\<close>; a panic or an
  exhausted loop bound is \<^const>\<open>None\<close>. \<^verbatim>\<open>Type::Variant\<close> is written \<open>Type_Variant\<close>. Third-party crates (the regex
  engine, \<^verbatim>\<open>memchr\<close>, the generated scanner of \<^verbatim>\<open>logos\<close>) are records of functions passed as arguments, with
  their documented behaviour as named hypotheses (for \<^verbatim>\<open>memchr\<close>: \<open>finds_first\<close>, the first occurrence or none),
  and every property with such a hypothesis has a witness with a concrete instance.

  \<^bold>\<open>Foundations.\<close>
  \<^item> \<open>Prelude\<close>: results, checked slices, saturating arithmetic, words. \<open>Rust_Slice\<close>, \<open>Rust_Str\<close>, \<open>Rust_Bytes\<close>: what
    the sources use of slices and binary search, UTF-8 and integer parsing, ASCII classes and substring search.

  \<^bold>\<open>Policy engine.\<close>
  \<^item> \<open>Policy_Schema\<close>, \<open>Policy_Attrs\<close>: phases, types, the attribute schema. \<open>Policy_Ast\<close>: tokens, arena.
  \<^item> \<open>Policy_Lex\<close> (\<^verbatim>\<open>lex.rs\<close>): the decoder of string literals accepts exactly the spellings of the grammar and
    round-trips; a lexed stream is within the limits and every token names existing bytes.
  \<^item> \<open>Policy_Parse\<close> (\<^verbatim>\<open>parse.rs\<close>); \<open>Policy_Grammar\<close>: the grammar as inductive predicates and soundness of each
    production, proved once in the locale \<open>sub_expr\<close> over any parser of nested expressions and interpreted at
    every fuel level; \<open>Policy_Parse_Total\<close>: the fuel, the number of tokens plus two, is enough for every input,
    because each re-entry and each loop iteration consumes a token (\<open>sub_expr_total\<close>, \<open>fuel_mono\<close>).
  \<^item> \<open>Policy_Check\<close> (\<^verbatim>\<open>check.rs\<close>); \<open>Policy_Layout\<close>, \<open>Policy_Typing\<close>: the forward pass over the arena equals a
    recursive checker on the tree; \<open>Policy_Types\<close>: that checker decides the typing rules.
  \<^item> \<open>Policy_Program\<close> (\<^verbatim>\<open>program.rs\<close>): bytecode and verifier, with the exact acceptance condition. \<open>Policy_Hash\<close>:
    the content hash as a hash of one canonical encoding; list constants nest at most once, which is why the
    fuel of two of the constant comparison is enough.
  \<^item> \<open>Policy_VM\<close> (\<^verbatim>\<open>vm.rs\<close>, \<^verbatim>\<open>value.rs\<close>): the evaluator with slot cache, operand stack (locale \<open>operand_stack\<close>)
    and step budget. \<open>Policy_Machine\<close>, \<open>Policy_Safety\<close>: the evaluator refines a cache-free machine given as a
    step relation, and a verified program never faults nor exhausts the budget, since all jumps go forward.
  \<^item> \<open>Policy_Compile\<close> (\<^verbatim>\<open>compile.rs\<close>); \<open>Policy_Gen\<close>: the sweep with back-patching equals a recursive generator;
    \<open>Policy_Sem\<close>, \<open>Policy_Correct\<close>, \<open>Policy_Meaning\<close>: compiled code computes the meaning of the expression, with
    the announced type. \<open>Policy_Pipeline\<close>: the stages composed. \<open>Policy_Examples\<close>: concrete inputs.

  \<^bold>\<open>HTTP message layer.\<close>
  \<^item> \<open>Http_Base\<close> (\<^verbatim>\<open>error.rs\<close>, \<^verbatim>\<open>scalar.rs\<close>, \<^verbatim>\<open>limits.rs\<close>), \<open>Http_Field\<close> (\<^verbatim>\<open>field.rs\<close>, \<^verbatim>\<open>known.rs\<close>).
  \<^item> \<open>Http_Section\<close> (\<^verbatim>\<open>section.rs\<close>), \<open>Http_Built\<close>: the arena-and-index header container keeps its invariant under
    every sequence of operations, and every accessor and editor acts as on the plain field list.
  \<^item> \<open>Http_Budget\<close> (\<^verbatim>\<open>hlist.rs\<close>), \<open>Http_Framing\<close> (\<^verbatim>\<open>framing.rs\<close>): exact characterisations of the budget and of
    the framing decision.
  \<^item> \<open>Http_Chunked\<close> (\<^verbatim>\<open>h1/chunked.rs\<close>); \<open>Http_Lines\<close>, \<open>Http_Chunked_Grammar\<close>: the language of chunked messages;
    \<open>Http_Chunked_States\<close>, \<open>_Steps\<close>, \<open>_Moves\<close>, \<open>_Trailers\<close>, \<open>_Correct\<close>, \<open>_Stream\<close>: what each state still
    expects, each step against it, and the decoder over a stream cut anywhere. The fuel of one call is the
    number of bytes plus one: every step that does not end the call consumes a byte.
  \<^item> \<open>Http_Head\<close> (\<^verbatim>\<open>h1/parser.rs\<close>); \<open>Http_Head_Exact\<close>, \<open>Http_Head_Grammar\<close>, \<open>Http_Head_Pieces\<close>: the parser accepts
    exactly the request heads within the limits and treats every prefix as incomplete. The fuel of the field
    line loop is the buffer length plus one: each line takes at least its line break.

  \<^item> \<open>Http_Path\<close> (\<^verbatim>\<open>path.rs\<close>); \<open>Http_Path_Dots\<close>, \<open>Http_Path_Normal\<close>, \<open>Http_Path_Exact\<close>: the in-place passes over one
    buffer equal operations on lists of segments, the pipeline computes the declarative normal form, and normal
    paths are safe under the policy and fixed points. The fuel of each pass is the path length plus one: every
    iteration moves the read cursor.

  \<^item> \<open>Http_Authority\<close> (\<^verbatim>\<open>authority.rs\<close>), \<open>Http_Authority_Exact\<close>: one authority per request, exactly the texts of
    the grammar, and writing followed by parsing is the identity.
  \<^item> \<open>Http_Strip\<close> (\<^verbatim>\<open>strip.rs\<close>), \<open>Http_Strip_Exact\<close>: what a hop forwards is exactly the end-to-end part of the field
    list, proved in the locale \<open>field_editor\<close> over any container that can keep the fields passing a test.
  \<^item> \<open>Http_Response\<close> (\<^verbatim>\<open>response.rs\<close>, \<^verbatim>\<open>expect.rs\<close>): the body of a response, expectations and interim responses.
  \<^item> \<open>Rust_Net\<close>: addresses and their text parsers. \<open>Http_Cidr\<close> (\<^verbatim>\<open>cidr.rs\<close>): prefixes match by leading bits.
    \<open>Http_Forwarded\<close> (\<^verbatim>\<open>forwarded.rs\<close>); \<open>Http_Forwarded_Exact\<close>, \<open>Http_Forwarded_Chain\<close>: quoting, elements and the
    chain, both header families through the locale \<open>span_step\<close>.
  \<^item> \<open>Http_Peer\<close> (\<^verbatim>\<open>peer.rs\<close>); \<open>Http_Peer_Walk\<close>: which element names the client. \<open>Http_Peer_Text\<close>, \<open>Http_Peer_Round\<close>:
    the text of addresses of both families, with the leftmost longest run of zero groups left out, and of the
    element sent upstream, read back by the parsers. \<open>Http_Peer_Exact\<close>: the contract, that entries a client adds
    on the left are powerless, and two ways around it, through quoting and through the host name.

  \<^bold>\<open>Not modelled.\<close> Debug assertions, allocation and capacity reservations, \<^verbatim>\<open>Display\<close> and other formatting code
  have no counterpart, as they do not change results. The other crates of the repository are not modelled.
\<close>

end
